(* ===== verification/Prelude.thy ===== *)
theory Prelude
  imports Main "HOL-Library.AList" "HOL-Library.Sublist"
begin

text \<open>
  What the components share: the JavaScript string and collection operations the source
  uses, fact collections, and the generic contracts (a store of keyed values, a machine
  with an invariant) that the components interpret.

  A JavaScript string is a \<open>string\<close>, that is a list of \<open>char\<close>, read as UTF-16 code units
  below 256 (Latin-1). On that range the definitions below are the ECMAScript operations.
  A JavaScript \<open>Map\<close> is an association list in insertion order: \<open>AList.update\<close> overwrites
  an existing key in place and appends a new one, as \<open>Map.prototype.set\<close> does.
\<close>

subsection \<open>Strings\<close>

abbreviation starts_with :: "string \<Rightarrow> string \<Rightarrow> bool" where
  "starts_with s p \<equiv> prefix p s"

abbreviation ends_with :: "string \<Rightarrow> string \<Rightarrow> bool" where
  "ends_with s p \<equiv> suffix p s"

definition char_lower :: "char \<Rightarrow> char" where
  "char_lower c =
     (let n = of_char c :: nat
      in if (65 \<le> n \<and> n \<le> 90) \<or> (192 \<le> n \<and> n \<le> 222 \<and> n \<noteq> 215) then char_of (n + 32) else c)"

definition to_lower :: "string \<Rightarrow> string" where
  "to_lower s = map char_lower s"

definition is_js_space :: "char \<Rightarrow> bool" where
  "is_js_space c = (let n = of_char c :: nat in (9 \<le> n \<and> n \<le> 13) \<or> n = 32 \<or> n = 160)"

definition trim_start :: "string \<Rightarrow> string" where
  "trim_start s = dropWhile is_js_space s"

definition js_trim :: "string \<Rightarrow> string" where
  "js_trim s = rev (trim_start (rev (trim_start s)))"

fun join_with :: "string \<Rightarrow> string list \<Rightarrow> string" where
  "join_with sep [] = []"
| "join_with sep [x] = x"
| "join_with sep (x # y # ys) = x @ sep @ join_with sep (y # ys)"

lemma trim_start_id: "s = [] \<or> \<not> is_js_space (hd s) \<Longrightarrow> trim_start s = s"
  by (cases s) (auto simp: trim_start_def)

lemma js_trim_id:
  assumes "s = [] \<or> \<not> is_js_space (hd s) \<and> \<not> is_js_space (last s)"
  shows "js_trim s = s"
proof (cases "s = []")
  case False
  then have "trim_start (rev s) = rev s"
    using assms by (intro trim_start_id) (simp add: hd_rev)
  moreover have "trim_start s = s"
    using assms by (intro trim_start_id) blast
  ultimately show ?thesis
    by (simp add: js_trim_def)
qed (simp add: js_trim_def trim_start_def)

text \<open>\<open>split\<close> with one character.\<close>

fun split_on :: "char \<Rightarrow> string \<Rightarrow> string list" where
  "split_on c [] = [[]]"
| "split_on c (d # ds) =
     (if d = c then [] # split_on c ds
      else case split_on c ds of [] \<Rightarrow> [[d]] | w # ws \<Rightarrow> (d # w) # ws)"

lemma split_on_neq_Nil [simp]: "split_on c s \<noteq> []"
  by (cases s) (auto split: list.splits)

lemma split_on_plain: "c \<notin> set s \<Longrightarrow> split_on c s = [s]"
  by (induction s) auto

lemma split_on_first: "c \<notin> set s \<Longrightarrow> split_on c (s @ c # r) = s # split_on c r"
  by (induction s) auto

lemma split_on_join: "list_all (\<lambda>s. c \<notin> set s) ss \<Longrightarrow> ss \<noteq> [] \<Longrightarrow> split_on c (join_with [c] ss) = ss"
  by (induction "[c]" ss rule: join_with.induct) (simp_all add: split_on_plain split_on_first)

text \<open>\<open>String.prototype.indexOf\<close> of one character, \<open>None\<close> for -1.\<close>

fun index_of :: "char \<Rightarrow> string \<Rightarrow> nat option" where
  "index_of c [] = None"
| "index_of c (d # ds) = (if c = d then Some 0 else map_option Suc (index_of c ds))"

text \<open>\<open>s.includes(p)\<close>.\<close>

fun js_includes :: "string \<Rightarrow> string \<Rightarrow> bool" where
  "js_includes [] p = (p = [])"
| "js_includes (c # cs) p = (prefix p (c # cs) \<or> js_includes cs p)"

definition is_upper_code :: "nat \<Rightarrow> bool" where
  "is_upper_code n = ((65 \<le> n \<and> n \<le> 90) \<or> (192 \<le> n \<and> n \<le> 222 \<and> n \<noteq> 215))"

lemma char_lower_alt:
  "char_lower c = (if is_upper_code (of_char c) then char_of (of_char c + 32 :: nat) else c)"
  by (simp add: char_lower_def is_upper_code_def Let_def)

lemma of_char_lower:
  "of_char (char_lower c) = (if is_upper_code (of_char c) then of_char c + 32 else of_char c :: nat)"
proof (cases "is_upper_code (of_char c)")
  case True
  then have "(of_char c + 32 :: nat) < 256"
    by (auto simp: is_upper_code_def)
  then have "of_char (char_of (of_char c + 32 :: nat) :: char) = (of_char c + 32 :: nat)"
    by (simp only: of_char_of mod_less)
  with True show ?thesis
    by (simp only: char_lower_alt if_True)
qed (simp add: char_lower_alt)

lemma is_upper_code_shift: "is_upper_code n \<Longrightarrow> \<not> is_upper_code (n + 32)"
  by (auto simp: is_upper_code_def)

lemma char_lower_idem [simp]: "char_lower (char_lower c) = char_lower c"
proof -
  have "\<not> is_upper_code (of_char (char_lower c))"
    by (simp add: of_char_lower is_upper_code_shift)
  then show ?thesis
    by (simp add: char_lower_alt [of "char_lower c"])
qed

lemma to_lower_idem [simp]: "to_lower (to_lower s) = to_lower s"
  by (simp add: to_lower_def)

lemma length_to_lower [simp]: "length (to_lower s) = length s"
  by (simp add: to_lower_def)

lemma to_lower_append: "to_lower (s @ t) = to_lower s @ to_lower t"
  by (simp add: to_lower_def)

lemma char_lower_slash [simp]: "char_lower c = CHR ''/'' \<longleftrightarrow> c = CHR ''/''"
proof
  assume "char_lower c = CHR ''/''"
  then have "of_char (char_lower c) = (47::nat)"
    by simp
  then have "of_char c = (of_char (CHR ''/'') :: nat)"
    by (auto simp: of_char_lower is_upper_code_def split: if_splits)
  then show "c = CHR ''/''"
    by (simp only: of_char_eq_iff)
qed (simp add: char_lower_def)

lemma index_of_None: "index_of c s = None \<longleftrightarrow> c \<notin> set s"
  by (induction s) auto

lemma index_of_Some:
  "index_of c s = Some i \<Longrightarrow> i < length s \<and> s ! i = c \<and> c \<notin> set (take i s)"
  by (induction s arbitrary: i) (auto split: if_splits)

text \<open>\<open>String(n)\<close> of a natural number.\<close>

fun nat_to_string :: "nat \<Rightarrow> string" where
  "nat_to_string n =
     (if n < 10 then [char_of (48 + n)] else nat_to_string (n div 10) @ [char_of (48 + n mod 10)])"

declare nat_to_string.simps [simp del]

lemma nat_to_string_neq_Nil [simp]: "nat_to_string n \<noteq> []"
  by (subst nat_to_string.simps) simp

subsection \<open>Calls that may throw\<close>

text \<open>
  A caught JavaScript value, with what the source asks about it: \<open>error.message\<close>, whether it
  is an abort error and whether it is a \<open>PathSecurityError\<close>.
\<close>

record js_error =
  je_message :: string
  je_is_abort :: bool
  je_is_path_security :: bool

datatype 'a outcome = Returned 'a | Threw js_error

definition plain_error :: "string \<Rightarrow> js_error" where
  "plain_error msg = \<lparr>je_message = msg, je_is_abort = False, je_is_path_security = False\<rparr>"

subsection \<open>Option and list helpers\<close>

definition opt_or :: "'a option \<Rightarrow> 'a \<Rightarrow> 'a" where
  "opt_or x d = (case x of None \<Rightarrow> d | Some v \<Rightarrow> v)"

lemma opt_or_simps [simp]: "opt_or None d = d" "opt_or (Some v) d = v"
  by (simp_all add: opt_or_def)

text \<open>\<open>Array.prototype.find\<close> is \<open>List.find\<close>; the first index is \<open>find_index\<close>.\<close>

fun find_index :: "('a \<Rightarrow> bool) \<Rightarrow> 'a list \<Rightarrow> nat option" where
  "find_index p [] = None"
| "find_index p (x # xs) = (if p x then Some 0 else map_option Suc (find_index p xs))"

lemma find_index_Some:
  "find_index p xs = Some i \<Longrightarrow> i < length xs \<and> p (xs ! i) \<and> (\<forall>j < i. \<not> p (xs ! j))"
proof (induction xs arbitrary: i)
  case (Cons x xs)
  then show ?case
    by (auto split: if_splits simp: less_Suc_eq_0_disj)
qed simp

lemma find_index_None: "find_index p xs = None \<longleftrightarrow> (\<forall>x \<in> set xs. \<not> p x)"
  by (induction xs) auto

text \<open>A JavaScript \<open>Set\<close> in insertion order.\<close>

definition set_add :: "'a \<Rightarrow> 'a list \<Rightarrow> 'a list" where
  "set_add x xs = (if x \<in> set xs then xs else xs @ [x])"

lemma set_set_add [simp]: "set (set_add x xs) = insert x (set xs)"
  by (auto simp: set_add_def)

lemma distinct_set_add [simp]: "distinct xs \<Longrightarrow> distinct (set_add x xs)"
  by (simp add: set_add_def)

text \<open>What a \<open>Map\<close> holds after \<open>set\<close> and \<open>delete\<close>.\<close>

lemma set_AList_update: "set (AList.update k v al) \<subseteq> insert (k, v) (set al)"
  by (induction al) auto

lemma map_of_AList_delete: "map_of (AList.delete k al) = (map_of al)(k := None)"
  by (rule ext) (simp add: delete_conv')

lemmas js_map_simps = update_conv' map_of_AList_delete

subsection \<open>Machines with an invariant\<close>

text \<open>
  The contract of every stateful component below: a step function over the component's
  events, an invariant that each step keeps. A client may then rely on the invariant
  after any sequence of events.
\<close>

locale machine =
  fixes step :: "'s \<Rightarrow> 'e \<Rightarrow> 's"
    and inv :: "'s \<Rightarrow> bool"
  assumes step_inv: "inv s \<Longrightarrow> inv (step s e)"
begin

lemma run_inv: "inv s \<Longrightarrow> inv (foldl step s es)"
  by (induction es arbitrary: s) (auto intro: step_inv)

lemma run_inv_prefix:
  assumes "inv s"
  shows "inv (foldl step s (take n es))"
  using assms by (rule run_inv)

end

text \<open>
  A machine whose steps keep the invariant only where the caller keeps to a condition; the
  condition on a whole run is \<open>allowed_run\<close>, and a property that needs it has it as a hypothesis.
\<close>

primrec allowed_run :: "('s \<Rightarrow> 'e \<Rightarrow> 's) \<Rightarrow> ('s \<Rightarrow> 'e \<Rightarrow> bool) \<Rightarrow> 's \<Rightarrow> 'e list \<Rightarrow> bool" where
  "allowed_run step allowed s [] = True"
| "allowed_run step allowed s (e # es) = (allowed s e \<and> allowed_run step allowed (step s e) es)"

lemma allowed_run_append:
  "allowed_run step allowed s (xs @ ys) \<longleftrightarrow>
   allowed_run step allowed s xs \<and> allowed_run step allowed (foldl step s xs) ys"
  by (induction xs arbitrary: s) auto

locale guarded_machine =
  fixes step :: "'s \<Rightarrow> 'e \<Rightarrow> 's"
    and allowed :: "'s \<Rightarrow> 'e \<Rightarrow> bool"
    and inv :: "'s \<Rightarrow> bool"
  assumes allowed_inv: "inv s \<Longrightarrow> allowed s e \<Longrightarrow> inv (step s e)"
begin

lemma allowed_run_inv: "inv s \<Longrightarrow> allowed_run step allowed s es \<Longrightarrow> inv (foldl step s es)"
  by (induction es arbitrary: s) (auto intro: allowed_inv)

end

text \<open>A machine one of whose observations only grows, in some order.\<close>

locale monotone_machine = machine step inv
  for step :: "'s \<Rightarrow> 'e \<Rightarrow> 's" and inv :: "'s \<Rightarrow> bool" +
  fixes obs :: "'s \<Rightarrow> 'o::order"
  assumes step_mono: "inv s \<Longrightarrow> obs s \<le> obs (step s e)"
begin

lemma run_mono: "inv s \<Longrightarrow> obs s \<le> obs (foldl step s es)"
proof (induction es arbitrary: s)
  case (Cons e es)
  then have "obs s \<le> obs (step s e)" and "obs (step s e) \<le> obs (foldl step (step s e) es)"
    by (auto intro: step_mono step_inv)
  then show ?case
    by simp
qed simp

end

subsection \<open>Components that log what they do\<close>

text \<open>
  The agent persists its state as a log of records: an operation appends records, and on
  resume \<open>restoreAgentRecord\<close> applies each record to a fresh component. \<open>run_logged\<close> is a
  session of operations with the log it leaves; \<open>view\<close> is the part of the state a resume has
  to rebuild.
\<close>

primrec run_logged :: "('s \<Rightarrow> 'o \<Rightarrow> 's \<times> 'r list) \<Rightarrow> 's \<Rightarrow> 'o list \<Rightarrow> 's \<times> 'r list" where
  "run_logged step s [] = (s, [])"
| "run_logged step s (a # as) =
     (let (s', log) = step s a; (s'', rest) = run_logged step s' as in (s'', log @ rest))"

lemma run_logged_Cons:
  "fst (run_logged step s (a # as)) = fst (run_logged step (fst (step s a)) as)"
  "snd (run_logged step s (a # as)) = snd (step s a) @ snd (run_logged step (fst (step s a)) as)"
  by (simp_all add: split_def Let_def)

lemma run_logged_Nil: "run_logged step s [] = (s, [])"
  by simp

declare run_logged.simps [simp del]

locale event_sourced =
  fixes step :: "'s \<Rightarrow> 'o \<Rightarrow> 's \<times> 'r list"
    and restore :: "'s \<Rightarrow> 'r \<Rightarrow> 's"
    and inv :: "'s \<Rightarrow> bool"
    and view :: "'s \<Rightarrow> 'v"
  assumes logged_inv: "inv s \<Longrightarrow> inv (fst (step s a))"
    and step_replays: "inv s \<Longrightarrow> view (foldl restore s (snd (step s a))) = view (fst (step s a))"
    and restore_cong: "view s = view t \<Longrightarrow> view (restore s r) = view (restore t r)"
begin

lemma restore_list_cong: "view s = view t \<Longrightarrow> view (foldl restore s rs) = view (foldl restore t rs)"
proof (induction rs arbitrary: s t)
  case (Cons r rs)
  show ?case
    unfolding foldl_Cons by (rule Cons.IH) (rule restore_cong [OF Cons.prems])
qed simp

lemma run_replays:
  "inv s \<Longrightarrow> view (foldl restore s (snd (run_logged step s as))) = view (fst (run_logged step s as))"
proof (induction as arbitrary: s)
  case (Cons a as)
  let ?s = "fst (step s a)"
  have "view (foldl restore s (snd (run_logged step s (a # as)))) =
      view (foldl restore ?s (snd (run_logged step ?s as)))"
    unfolding run_logged_Cons foldl_append
    by (rule restore_list_cong) (rule step_replays [OF Cons.prems])
  also have "\<dots> = view (fst (run_logged step ?s as))"
    by (rule Cons.IH) (rule logged_inv [OF Cons.prems])
  finally show ?case
    by (simp only: run_logged_Cons)
qed (simp add: run_logged_Nil)

lemma run_logged_inv: "inv s \<Longrightarrow> inv (fst (run_logged step s as))"
proof (induction as arbitrary: s)
  case (Cons a as)
  show ?case
    unfolding run_logged_Cons by (rule Cons.IH) (rule logged_inv [OF Cons.prems])
qed (simp add: run_logged_Nil)

end

text \<open>Such a component is a machine: forgetting the log leaves its steps and its invariant.\<close>

sublocale event_sourced \<subseteq> machine "\<lambda>s a. fst (step s a)" inv
  by unfold_locales (rule logged_inv)

end
