(* ===== verification/Tool_Access.thy ===== *)
theory Tool_Access
  imports Prelude
begin

text \<open>
  \<open>packages/agent-core/src/loop/tool-access.ts\<close>: what a tool call declares it will
  touch, and when two declarations conflict. The lemmas show that the conflict test is
  symmetric and that it is sound for the intended meaning of a declaration: two calls
  that do not conflict never both cover a path that one of them writes.
\<close>

subsection \<open>Declarations\<close>

datatype file_operation = OpRead | OpWrite | OpReadWrite | OpSearch

record file_access =
  fa_operation :: file_operation
  fa_path :: string
  fa_recursive :: "bool option"

datatype resource_access = FileAccess file_access | AccessAll

type_synonym tool_accesses = "resource_access list"

definition accesses_none :: tool_accesses where
  "accesses_none = []"

definition accesses_all :: tool_accesses where
  "accesses_all = [AccessAll]"

definition accesses_file :: "file_operation \<Rightarrow> string \<Rightarrow> bool option \<Rightarrow> tool_accesses" where
  "accesses_file op path rec =
     [FileAccess \<lparr>fa_operation = op, fa_path = path, fa_recursive = rec\<rparr>]"

definition read_file :: "string \<Rightarrow> tool_accesses" where
  "read_file p = accesses_file OpRead p None"

definition read_tree :: "string \<Rightarrow> tool_accesses" where
  "read_tree p = accesses_file OpRead p (Some True)"

definition write_file :: "string \<Rightarrow> tool_accesses" where
  "write_file p = accesses_file OpWrite p None"

definition write_tree :: "string \<Rightarrow> tool_accesses" where
  "write_tree p = accesses_file OpWrite p (Some True)"

definition read_write_file :: "string \<Rightarrow> tool_accesses" where
  "read_write_file p = accesses_file OpReadWrite p None"

definition read_write_tree :: "string \<Rightarrow> tool_accesses" where
  "read_write_tree p = accesses_file OpReadWrite p (Some True)"

definition search_tree :: "string \<Rightarrow> tool_accesses" where
  "search_tree p = accesses_file OpSearch p (Some True)"

lemmas accesses_constructors =
  accesses_none_def accesses_all_def accesses_file_def read_file_def read_tree_def
  write_file_def write_tree_def read_write_file_def read_write_tree_def search_tree_def

subsection \<open>Path normalisation\<close>

text \<open>\<open>replaceAll(/\/+/g, '/')\<close>: runs of slashes become one.\<close>

fun collapse_slashes :: "string \<Rightarrow> string" where
  "collapse_slashes (a # b # cs) =
     (if a = CHR ''/'' \<and> b = CHR ''/'' then collapse_slashes (b # cs)
      else a # collapse_slashes (b # cs))"
| "collapse_slashes cs = cs"

definition back_to_slash :: "char \<Rightarrow> char" where
  "back_to_slash c = (if c = CHR 0x5C then CHR ''/'' else c)"

definition normalize_path :: "string \<Rightarrow> string" where
  "normalize_path path =
     (let normalized = collapse_slashes (map back_to_slash path);
          folded = to_lower normalized
      in if length folded > 1 \<and> ends_with folded ''/'' then butlast folded else folded)"

definition path_prefix :: "string \<Rightarrow> string" where
  "path_prefix p = (if ends_with p ''/'' then p else p @ ''/'')"

subsection \<open>Conflicts\<close>

fun file_operation_writes :: "file_operation \<Rightarrow> bool" where
  "file_operation_writes OpRead = False"
| "file_operation_writes OpSearch = False"
| "file_operation_writes OpWrite = True"
| "file_operation_writes OpReadWrite = True"

definition file_operations_conflict :: "file_operation \<Rightarrow> file_operation \<Rightarrow> bool" where
  "file_operations_conflict l r \<longleftrightarrow> file_operation_writes l \<or> file_operation_writes r"

definition file_accesses_overlap :: "file_access \<Rightarrow> file_access \<Rightarrow> bool" where
  "file_accesses_overlap l r =
     (let lp = normalize_path (fa_path l); rp = normalize_path (fa_path r)
      in if lp = rp then True
         else (fa_recursive l = Some True \<and> starts_with rp (path_prefix lp))
            \<or> (fa_recursive r = Some True \<and> starts_with lp (path_prefix rp)))"

fun resource_accesses_conflict :: "resource_access \<Rightarrow> resource_access \<Rightarrow> bool" where
  "resource_accesses_conflict AccessAll _ = True"
| "resource_accesses_conflict _ AccessAll = True"
| "resource_accesses_conflict (FileAccess l) (FileAccess r) =
     (if \<not> file_operations_conflict (fa_operation l) (fa_operation r) then False
      else file_accesses_overlap l r)"

definition accesses_conflict :: "tool_accesses \<Rightarrow> tool_accesses \<Rightarrow> bool" where
  "accesses_conflict left right =
     list_ex (\<lambda>l. list_ex (\<lambda>r. resource_accesses_conflict l r) right) left"

subsection \<open>Facts on normalisation\<close>

lemma collapse_Nil_iff [simp]: "collapse_slashes s = [] \<longleftrightarrow> s = []"
  by (induction s rule: collapse_slashes.induct) auto

lemma hd_collapse: "s \<noteq> [] \<Longrightarrow> hd (collapse_slashes s) = hd s"
  by (induction s rule: collapse_slashes.induct) auto

lemma collapse_Cons:
  "collapse_slashes (a # s) =
     (if a = CHR ''/'' \<and> s \<noteq> [] \<and> hd s = CHR ''/'' then collapse_slashes s
      else a # collapse_slashes s)"
  by (cases s) auto

definition no_double_slash :: "string \<Rightarrow> bool" where
  "no_double_slash s \<longleftrightarrow> (\<forall>i. Suc i < length s \<longrightarrow> \<not> (s ! i = CHR ''/'' \<and> s ! Suc i = CHR ''/''))"

lemma no_double_slash_Cons:
  "no_double_slash (a # s) \<longleftrightarrow>
     \<not> (a = CHR ''/'' \<and> s \<noteq> [] \<and> hd s = CHR ''/'') \<and> no_double_slash s"
  by (cases s) (auto simp: no_double_slash_def nth_Cons split: nat.splits)

lemma no_double_slash_collapse: "no_double_slash (collapse_slashes s)"
proof (induction s rule: collapse_slashes.induct)
  case (1 a b cs)
  then show ?case
    using hd_collapse [of "b # cs"] by (auto simp: no_double_slash_Cons)
qed (auto simp: no_double_slash_def)

lemma collapse_id: "no_double_slash s \<Longrightarrow> collapse_slashes s = s"
  by (induction s) (auto simp: no_double_slash_Cons collapse_Cons)

lemma no_double_slash_lower: "no_double_slash s \<Longrightarrow> no_double_slash (to_lower s)"
  by (simp add: no_double_slash_def to_lower_def)

lemma no_double_slash_butlast: "no_double_slash s \<Longrightarrow> no_double_slash (butlast s)"
  by (auto simp: no_double_slash_def nth_butlast)

definition no_backslash :: "string \<Rightarrow> bool" where
  "no_backslash s \<longleftrightarrow> CHR 0x5C \<notin> set s"

lemma char_lower_backslash: "char_lower c = CHR 0x5C \<Longrightarrow> c = CHR 0x5C"
proof -
  assume "char_lower c = CHR 0x5C"
  then have "of_char (char_lower c) = (92::nat)"
    by simp
  then have "of_char c = (of_char (CHR 0x5C) :: nat)"
    by (auto simp: of_char_lower is_upper_code_def split: if_splits)
  then show "c = CHR 0x5C"
    by (simp only: of_char_eq_iff)
qed

lemma back_to_slash_neq: "back_to_slash c \<noteq> CHR 0x5C"
  by (simp add: back_to_slash_def)

lemma set_collapse: "set (collapse_slashes s) \<subseteq> set s"
  by (induction s rule: collapse_slashes.induct) auto

lemma no_backslash_folded: "no_backslash (to_lower (collapse_slashes (map back_to_slash s)))"
  using set_collapse [of "map back_to_slash s"]
  by (auto simp: no_backslash_def to_lower_def dest!: char_lower_backslash [OF sym]
           simp: back_to_slash_neq [symmetric])

lemma back_to_slash_id: "no_backslash s \<Longrightarrow> map back_to_slash s = s"
  by (induction s) (auto simp: no_backslash_def back_to_slash_def)

text \<open>A normalised path: folded, without double slashes, with no slash at its end but the root's.\<close>

definition normal_path :: "string \<Rightarrow> bool" where
  "normal_path s \<longleftrightarrow> no_backslash s \<and> no_double_slash s \<and> to_lower s = s
     \<and> (length s > 1 \<longrightarrow> \<not> ends_with s ''/'')"

lemma suffix_slash_iff: "ends_with s ''/'' \<longleftrightarrow> s \<noteq> [] \<and> last s = CHR ''/''"
  by (cases s rule: rev_cases) (auto simp: suffix_def)

lemma butlast_no_slash_end:
  assumes "no_double_slash s" and "length s > 1" and "ends_with s ''/''"
  shows "\<not> ends_with (butlast s) ''/''"
proof -
  obtain t where t: "s = t @ ''/''"
    using assms(3) by (auto simp: suffix_def)
  have "t \<noteq> []" "\<not> (last t = CHR ''/'')"
  proof -
    show ne: "t \<noteq> []"
      using assms(2) t by auto
    have "s ! (length t - 1) = last t" "s ! Suc (length t - 1) = CHR ''/''" "Suc (length t - 1) < length s"
      using ne t by (auto simp: nth_append last_conv_nth)
    then show "\<not> (last t = CHR ''/'')"
      using assms(1) by (auto simp: no_double_slash_def)
  qed
  then show ?thesis
    using t by (simp add: suffix_slash_iff)
qed

lemma normal_path_normalize: "normal_path (normalize_path p)"
proof -
  let ?f = "to_lower (collapse_slashes (map back_to_slash p))"
  have nb: "no_backslash ?f" and nd: "no_double_slash ?f" and lo: "to_lower ?f = ?f"
    by (simp_all add: no_backslash_folded no_double_slash_lower no_double_slash_collapse)
  show ?thesis
  proof (cases "length ?f > 1 \<and> ends_with ?f ''/''")
    case True
    have "to_lower (butlast ?f) = butlast ?f"
      using arg_cong [OF lo, of butlast] by (simp only: to_lower_def map_butlast)
    moreover have "no_backslash (butlast ?f)"
      using nb by (auto simp: no_backslash_def dest: in_set_butlastD)
    ultimately show ?thesis
      using True nd butlast_no_slash_end [OF nd]
      by (simp add: normal_path_def normalize_path_def no_double_slash_butlast)
  next
    case False
    then show ?thesis
      using nb nd lo by (auto simp: normal_path_def normalize_path_def Let_def)
  qed
qed

lemma normalize_normal: "normal_path p \<Longrightarrow> normalize_path p = p"
  by (auto simp: normal_path_def normalize_path_def Let_def back_to_slash_id collapse_id)

text \<open>
  Normalising a path twice is normalising it once, so comparing normalised paths is
  comparing representatives of one equivalence.
\<close>

theorem normalize_path_idem: "normalize_path (normalize_path p) = normalize_path p"
  by (rule normalize_normal) (rule normal_path_normalize)

subsection \<open>Symmetry and soundness of the conflict test\<close>

lemma file_accesses_overlap_sym: "file_accesses_overlap l r = file_accesses_overlap r l"
  by (auto simp: file_accesses_overlap_def Let_def)

lemma resource_accesses_conflict_sym:
  "resource_accesses_conflict l r = resource_accesses_conflict r l"
  by (cases l; cases r)
     (auto simp: file_accesses_overlap_sym file_operations_conflict_def)

lemma accesses_conflict_iff:
  "accesses_conflict xs ys \<longleftrightarrow> (\<exists>x \<in> set xs. \<exists>y \<in> set ys. resource_accesses_conflict x y)"
  by (simp add: accesses_conflict_def list_ex_iff)

lemma accesses_conflict_sym: "accesses_conflict xs ys = accesses_conflict ys xs"
  unfolding accesses_conflict_iff by (metis resource_accesses_conflict_sym)

text \<open>
  What a declaration is meant to cover: everything, or the named path, or (recursively)
  every path below it.
\<close>

fun covers :: "resource_access \<Rightarrow> string \<Rightarrow> bool" where
  "covers AccessAll p = True"
| "covers (FileAccess a) p =
     (let n = normalize_path (fa_path a); q = normalize_path p
      in q = n \<or> (fa_recursive a = Some True \<and> starts_with q (path_prefix n)))"

fun access_writes :: "resource_access \<Rightarrow> bool" where
  "access_writes AccessAll = True"
| "access_writes (FileAccess a) = file_operation_writes (fa_operation a)"

lemma path_prefix_comparable:
  assumes "prefix (path_prefix a) q" and "prefix (path_prefix b) q"
  shows "prefix (path_prefix a) (path_prefix b) \<or> prefix (path_prefix b) (path_prefix a)"
  using assms by (rule prefix_same_cases)

lemma path_prefix_under:
  assumes "prefix (path_prefix a) (path_prefix b)" and "a \<noteq> b"
  shows "prefix (path_prefix a) b \<or> prefix (path_prefix b) a"
proof (cases "path_prefix a = path_prefix b")
  case True
  then show ?thesis
    using assms(2) by (auto simp: path_prefix_def split: if_splits)
next
  case False
  then have "strict_prefix (path_prefix a) (path_prefix b)"
    using assms(1) by simp
  then show ?thesis
    by (auto simp: path_prefix_def strict_prefix_def split: if_splits)
qed

lemma covers_overlap:
  assumes "covers (FileAccess a) p" and "covers (FileAccess b) p"
  shows "file_accesses_overlap a b"
proof -
  let ?a = "normalize_path (fa_path a)" and ?b = "normalize_path (fa_path b)"
  let ?q = "normalize_path p"
  consider "?a = ?b" | "?a \<noteq> ?b" "?q = ?a" | "?a \<noteq> ?b" "?q = ?b"
    | "?a \<noteq> ?b" "?q \<noteq> ?a" "?q \<noteq> ?b"
    by blast
  then show ?thesis
  proof cases
    case 4
    then have r: "fa_recursive a = Some True" "fa_recursive b = Some True"
      and p: "prefix (path_prefix ?a) ?q" "prefix (path_prefix ?b) ?q"
      using assms by (auto simp: Let_def)
    from path_prefix_comparable [OF p] path_prefix_under [of ?a ?b] path_prefix_under [of ?b ?a] 4
    have "prefix (path_prefix ?a) ?b \<or> prefix (path_prefix ?b) ?a"
      by auto
    with r show ?thesis
      by (auto simp: file_accesses_overlap_def Let_def)
  qed (use assms in \<open>auto simp: file_accesses_overlap_def Let_def\<close>)
qed

lemma covers_conflict:
  assumes "covers x p" and "covers y p" and "access_writes x \<or> access_writes y"
  shows "resource_accesses_conflict x y"
  using assms covers_overlap
  by (cases x; cases y) (auto simp: file_operations_conflict_def simp del: covers.simps)

text \<open>
  The conflict test is sound. When two declarations do not conflict, no path covered
  by an access of the first and by an access of the second is written by either.
\<close>

theorem no_conflict_disjoint_writes:
  assumes "\<not> accesses_conflict xs ys"
    and "x \<in> set xs" and "y \<in> set ys" and "covers x p" and "covers y p"
  shows "\<not> access_writes x \<and> \<not> access_writes y"
  using assms covers_conflict [OF assms(4,5)] by (auto simp: accesses_conflict_iff)

theorem no_conflict_disjoint_writes_witness:
  "\<not> accesses_conflict (read_tree ''/w'') (read_file ''/W//a'') \<and>
   covers (hd (read_tree ''/w'')) ''/w/a'' \<and> \<not> access_writes (hd (read_tree ''/w''))"
proof -
  have n: "\<not> accesses_conflict (read_tree ''/w'') (read_file ''/W//a'')"
    by code_simp
  have c: "covers (hd (read_tree ''/w'')) ''/w/a''" "covers (hd (read_file ''/W//a'')) ''/w/a''"
    by code_simp+
  have m: "hd (read_tree ''/w'') \<in> set (read_tree ''/w'')"
    "hd (read_file ''/W//a'') \<in> set (read_file ''/W//a'')"
    by (simp_all add: accesses_constructors)
  show ?thesis
    using no_conflict_disjoint_writes [OF n m c] n c by simp
qed

end
