(* ===== verification/Tool_Scheduler.thy ===== *)
theory Tool_Scheduler
  imports Tool_Access
begin

text \<open>
  \<open>packages/agent-core/src/loop/tool-scheduler.ts\<close>: the class \<open>ToolScheduler\<close>, which runs the
  tool calls of one model step. Calls whose accesses do not conflict overlap; a call that
  conflicts with a running call, or with an earlier waiting one, waits.

  The scheduler's methods call each other re-entrantly: \<open>start\<close> catches a synchronous
  throw of \<open>task.start()\<close> and calls \<open>finish\<close>, which scans the queue and calls \<open>start\<close>.
  The model follows these calls with a fuel argument that is spent by \<open>start\<close> only;
  running out of it is \<open>None\<close>. For tasks whose \<open>start\<close> returns a promise one unit is
  enough (\<open>sched_run_returns\<close>); for a task that throws there is no bound.
\<close>

subsection \<open>State\<close>

text \<open>
  A scheduled task is an object; its identity (\<open>indexOf\<close> compares references) is the
  number \<open>tt_id\<close> under which \<open>add\<close> created it. \<open>tt_throws\<close> says whether its \<open>start\<close>
  throws before returning a promise. The fields \<open>sc_next\<close> and \<open>sc_started\<close> are history
  that no operation reads, but for the numbering of objects.
\<close>

record 'a tool_task =
  tt_id :: nat
  tt_accesses :: 'a
  tt_throws :: bool

record 'a sched =
  sc_active :: "'a tool_task list"
  sc_queued :: "'a tool_task list"
  sc_rejected :: "nat list"
  sc_started :: "nat list"
  sc_next :: nat

definition sched_init :: "'a sched" where
  "sched_init = \<lparr>sc_active = [], sc_queued = [], sc_rejected = [], sc_started = [], sc_next = 0\<rparr>"

subsection \<open>Operations\<close>

text \<open>The conflict test \<open>ToolAccesses.conflict\<close> is the argument \<open>conflict\<close>.\<close>

definition conflicts_with_any ::
  "('a \<Rightarrow> 'a \<Rightarrow> bool) \<Rightarrow> 'a tool_task \<Rightarrow> 'a tool_task list \<Rightarrow> bool" where
  "conflicts_with_any conflict task candidates =
     list_ex (\<lambda>c. conflict (tt_accesses task) (tt_accesses c)) candidates"

definition is_blocked ::
  "('a \<Rightarrow> 'a \<Rightarrow> bool) \<Rightarrow> 'a tool_task \<Rightarrow> 'a sched \<Rightarrow> 'a tool_task list \<Rightarrow> bool" where
  "is_blocked conflict task s queued_before \<longleftrightarrow>
     conflicts_with_any conflict task (sc_active s) \<or> conflicts_with_any conflict task queued_before"

text \<open>
  \<open>start\<close>, \<open>finish\<close> and \<open>startQueuedTasks\<close>. The scan keeps the array it began with: a
  nested scan reads and replaces \<open>queuedTasks\<close>, and the outer one overwrites it at its end.
\<close>

fun sched_start :: "('a \<Rightarrow> 'a \<Rightarrow> bool) \<Rightarrow> nat \<Rightarrow> 'a tool_task \<Rightarrow> 'a sched \<Rightarrow> 'a sched option"
and sched_finish :: "('a \<Rightarrow> 'a \<Rightarrow> bool) \<Rightarrow> nat \<Rightarrow> nat \<Rightarrow> 'a sched \<Rightarrow> 'a sched option"
and start_queued :: "('a \<Rightarrow> 'a \<Rightarrow> bool) \<Rightarrow> nat \<Rightarrow> 'a sched \<Rightarrow> 'a sched option"
and scan_queue :: "('a \<Rightarrow> 'a \<Rightarrow> bool) \<Rightarrow> nat \<Rightarrow> 'a tool_task list \<Rightarrow> 'a tool_task list \<Rightarrow>
    'a sched \<Rightarrow> ('a sched \<times> 'a tool_task list) option"
where
  "sched_start conflict 0 task s = None"
| "sched_start conflict (Suc n) task s =
     (let s1 = s\<lparr>sc_active := sc_active s @ [task], sc_started := sc_started s @ [tt_id task]\<rparr>
      in if tt_throws task
         then sched_finish conflict n (tt_id task)
                (s1\<lparr>sc_rejected := sc_rejected s1 @ [tt_id task]\<rparr>)
         else Some s1)"
| "sched_finish conflict n i s =
     start_queued conflict n (s\<lparr>sc_active := filter (\<lambda>t. tt_id t \<noteq> i) (sc_active s)\<rparr>)"
| "start_queued conflict n s =
     (case scan_queue conflict n (sc_queued s) [] s of
        None \<Rightarrow> None
      | Some (s', still) \<Rightarrow> Some (s'\<lparr>sc_queued := still\<rparr>))"
| "scan_queue conflict n [] still s = Some (s, still)"
| "scan_queue conflict n (t # ts) still s =
     (if is_blocked conflict t s still then scan_queue conflict n ts (still @ [t]) s
      else case sched_start conflict n t s of
             None \<Rightarrow> None
           | Some s' \<Rightarrow> scan_queue conflict n ts still s')"

definition sched_add ::
  "('a \<Rightarrow> 'a \<Rightarrow> bool) \<Rightarrow> nat \<Rightarrow> 'a \<Rightarrow> bool \<Rightarrow> 'a sched \<Rightarrow> 'a sched option" where
  "sched_add conflict n accesses throws s =
     (let task = \<lparr>tt_id = sc_next s, tt_accesses = accesses, tt_throws = throws\<rparr>;
          s1 = s\<lparr>sc_next := Suc (sc_next s)\<rparr>
      in if is_blocked conflict task s1 (sc_queued s1)
         then Some (s1\<lparr>sc_queued := sc_queued s1 @ [task]\<rparr>)
         else sched_start conflict n task s1)"

text \<open>
  The events of a scheduler: the loop adds a task, the promise of an active task settles
  (its \<open>finally\<close> handler calls \<open>finish\<close>).
\<close>

datatype 'a sched_event = Add 'a bool | Settle nat

fun sched_step :: "('a \<Rightarrow> 'a \<Rightarrow> bool) \<Rightarrow> nat \<Rightarrow> 'a sched \<Rightarrow> 'a sched_event \<Rightarrow> 'a sched option" where
  "sched_step conflict n s (Add a throws) = sched_add conflict n a throws s"
| "sched_step conflict n s (Settle i) =
     (if i \<in> tt_id ` set (sc_active s) then sched_finish conflict n i s else Some s)"

fun sched_run :: "('a \<Rightarrow> 'a \<Rightarrow> bool) \<Rightarrow> nat \<Rightarrow> 'a sched_event list \<Rightarrow> 'a sched \<Rightarrow> 'a sched option" where
  "sched_run conflict n [] s = Some s"
| "sched_run conflict n (e # es) s =
     (case sched_step conflict n s e of None \<Rightarrow> None | Some s' \<Rightarrow> sched_run conflict n es s')"

fun event_async :: "'a sched_event \<Rightarrow> bool" where
  "event_async (Add a throws) = (\<not> throws)"
| "event_async (Settle i) = True"

subsection \<open>The queue scan without throws\<close>

lemma is_blocked_mono:
  assumes "is_blocked conflict t s q" and "set (sc_active s) \<subseteq> set (sc_active s')" and "set q \<subseteq> set q'"
  shows "is_blocked conflict t s' q'"
  using assms by (auto simp: is_blocked_def conflicts_with_any_def list_ex_iff)

lemma not_blocked_iff:
  "\<not> is_blocked conflict t s q \<longleftrightarrow>
     (\<forall>u \<in> set (sc_active s) \<union> set q. \<not> conflict (tt_accesses t) (tt_accesses u))"
  by (auto simp: is_blocked_def conflicts_with_any_def list_ex_iff)

text \<open>The scan when every task's \<open>start\<close> returns a promise.\<close>

fun scan_async :: "('a \<Rightarrow> 'a \<Rightarrow> bool) \<Rightarrow> 'a tool_task list \<Rightarrow> 'a tool_task list \<Rightarrow> 'a sched \<Rightarrow>
    'a sched \<times> 'a tool_task list" where
  "scan_async conflict [] still s = (s, still)"
| "scan_async conflict (t # ts) still s =
     (if is_blocked conflict t s still then scan_async conflict ts (still @ [t]) s
      else scan_async conflict ts still
             (s\<lparr>sc_active := sc_active s @ [t], sc_started := sc_started s @ [tt_id t]\<rparr>))"

lemma scan_queue_async:
  "\<forall>t \<in> set ts. \<not> tt_throws t \<Longrightarrow>
   scan_queue conflict (Suc n) ts still s = Some (scan_async conflict ts still s)"
  by (induction ts arbitrary: still s) (auto simp: Let_def)

lemma scan_async_frame:
  assumes "scan_async conflict ts still s = (s', still')"
  shows "sc_queued s' = sc_queued s" and "sc_next s' = sc_next s"
    and "sc_rejected s' = sc_rejected s"
    and "set (sc_active s) \<subseteq> set (sc_active s')"
    and "set (sc_active s') \<union> set still' = set (sc_active s) \<union> set still \<union> set ts"
  using assms by (induction ts arbitrary: still s) (fastforce split: if_splits)+

text \<open>Each waiting task is blocked by an active task or by one waiting before it.\<close>

fun blocked_in_order ::
  "('a \<Rightarrow> 'a \<Rightarrow> bool) \<Rightarrow> 'a sched \<Rightarrow> 'a tool_task list \<Rightarrow> 'a tool_task list \<Rightarrow> bool" where
  "blocked_in_order conflict s before [] = True"
| "blocked_in_order conflict s before (t # ts) =
     (is_blocked conflict t s before \<and> blocked_in_order conflict s (before @ [t]) ts)"

lemma blocked_in_order_snoc:
  "blocked_in_order conflict s b (ts @ [t]) \<longleftrightarrow>
     blocked_in_order conflict s b ts \<and> is_blocked conflict t s (b @ ts)"
  by (induction ts arbitrary: b) auto

lemma blocked_in_order_mono:
  "blocked_in_order conflict s b ts \<Longrightarrow> set (sc_active s) \<subseteq> set (sc_active s') \<Longrightarrow>
   blocked_in_order conflict s' b ts"
  by (induction ts arbitrary: b) (auto intro: is_blocked_mono)

lemma scan_async_blocked:
  "scan_async conflict ts still s = (s', still') \<Longrightarrow> blocked_in_order conflict s [] still \<Longrightarrow>
   blocked_in_order conflict s' [] still'"
proof (induction ts arbitrary: still s)
  case (Cons t ts)
  show ?case
  proof (cases "is_blocked conflict t s still")
    case True
    then show ?thesis
      using Cons by (auto simp: blocked_in_order_snoc)
  next
    case False
    let ?s = "s\<lparr>sc_active := sc_active s @ [t], sc_started := sc_started s @ [tt_id t]\<rparr>"
    have "blocked_in_order conflict ?s [] still"
      using Cons.prems(2) by (rule blocked_in_order_mono) auto
    then show ?thesis
      using Cons.prems(1) False by (intro Cons.IH [of still ?s]) simp_all
  qed
qed simp

subsection \<open>The invariant, for any symmetric conflict test\<close>

text \<open>
  What the scheduler needs of \<open>ToolAccesses\<close>: that its conflict test is symmetric. The
  invariant: running tasks do not conflict, each waiting task has a reason to wait, and
  no running task has overtaken an earlier task it conflicts with.
\<close>

definition active_free :: "('a \<Rightarrow> 'a \<Rightarrow> bool) \<Rightarrow> 'a tool_task list \<Rightarrow> bool" where
  "active_free conflict ts \<longleftrightarrow>
     sorted_wrt (\<lambda>t u. \<not> conflict (tt_accesses t) (tt_accesses u)) ts"

definition no_overtaking ::
  "('a \<Rightarrow> 'a \<Rightarrow> bool) \<Rightarrow> 'a tool_task list \<Rightarrow> 'a tool_task list \<Rightarrow> bool" where
  "no_overtaking conflict active waiting \<longleftrightarrow>
     (\<forall>t \<in> set active. \<forall>u \<in> set waiting.
        tt_id u < tt_id t \<longrightarrow> \<not> conflict (tt_accesses t) (tt_accesses u))"

definition sched_inv :: "('a \<Rightarrow> 'a \<Rightarrow> bool) \<Rightarrow> 'a sched \<Rightarrow> bool" where
  "sched_inv conflict s \<longleftrightarrow>
     active_free conflict (sc_active s)
   \<and> blocked_in_order conflict s [] (sc_queued s)
   \<and> no_overtaking conflict (sc_active s) (sc_queued s)
   \<and> sorted_wrt (\<lambda>t u. tt_id t < tt_id u) (sc_queued s)
   \<and> distinct (map tt_id (sc_active s @ sc_queued s))
   \<and> (\<forall>t \<in> set (sc_active s) \<union> set (sc_queued s). tt_id t < sc_next s \<and> \<not> tt_throws t)"

lemma sched_inv_init: "sched_inv conflict sched_init"
  by (simp add: sched_inv_def sched_init_def active_free_def no_overtaking_def)

locale conflict_test =
  fixes conflict :: "'a \<Rightarrow> 'a \<Rightarrow> bool"
  assumes conflict_sym: "conflict x y = conflict y x"
begin

lemma active_free_snoc:
  "active_free conflict (ts @ [t]) \<longleftrightarrow>
     active_free conflict ts \<and> (\<forall>u \<in> set ts. \<not> conflict (tt_accesses t) (tt_accesses u))"
  unfolding active_free_def sorted_wrt_append by (auto simp: conflict_sym)

lemma scan_async_active_free:
  "scan_async conflict ts still s = (s', still') \<Longrightarrow> active_free conflict (sc_active s) \<Longrightarrow>
   active_free conflict (sc_active s')"
proof (induction ts arbitrary: still s)
  case (Cons t ts)
  then show ?case
    by (auto simp: active_free_snoc not_blocked_iff split: if_splits)
qed simp

lemma scan_async_order:
  assumes "scan_async conflict ts still s = (s', still')"
    and "sorted_wrt (\<lambda>t u. tt_id t < tt_id u) (still @ ts)"
    and "distinct (map tt_id (sc_active s @ still @ ts))"
    and "no_overtaking conflict (sc_active s) (still @ ts)"
  shows "sorted_wrt (\<lambda>t u. tt_id t < tt_id u) still'
    \<and> distinct (map tt_id (sc_active s' @ still'))
    \<and> no_overtaking conflict (sc_active s') still'"
  using assms
proof (induction ts arbitrary: still s)
  case (Cons t ts)
  show ?case
  proof (cases "is_blocked conflict t s still")
    case True
    have eq: "(still @ [t]) @ ts = still @ t # ts"
      by simp
    show ?thesis
      by (rule Cons.IH [of "still @ [t]" s, unfolded eq])
         (use Cons.prems True in simp_all)
  next
    case False
    let ?s = "s\<lparr>sc_active := sc_active s @ [t], sc_started := sc_started s @ [tt_id t]\<rparr>"
    have "no_overtaking conflict (sc_active ?s) (still @ ts)"
      using Cons.prems(2,4) False
      by (auto simp: no_overtaking_def not_blocked_iff sorted_wrt_append)
    moreover have "sorted_wrt (\<lambda>t u. tt_id t < tt_id u) (still @ ts)"
      using Cons.prems(2) by (auto simp: sorted_wrt_append)
    ultimately show ?thesis
      using Cons.prems(1,3) False by (intro Cons.IH [of still ?s]) auto
  qed
qed simp

lemma active_free_filter: "active_free conflict ts \<Longrightarrow> active_free conflict (filter p ts)"
  by (simp add: active_free_def sorted_wrt_filter)

lemma finish_inv:
  assumes "sched_inv conflict s"
  shows "\<exists>s'. sched_finish conflict (Suc n) i s = Some s' \<and> sched_inv conflict s'"
proof -
  let ?s = "s\<lparr>sc_active := filter (\<lambda>t. tt_id t \<noteq> i) (sc_active s)\<rparr>"
  obtain s' still' where scan: "scan_async conflict (sc_queued s) [] ?s = (s', still')"
    by fastforce
  have af: "active_free conflict (sc_active s')"
    using scan_async_active_free [OF scan] assms by (auto simp: sched_inv_def active_free_filter)
  have ord: "sorted_wrt (\<lambda>t u. tt_id t < tt_id u) still'
    \<and> distinct (map tt_id (sc_active s' @ still')) \<and> no_overtaking conflict (sc_active s') still'"
    using assms by (intro scan_async_order [OF scan])
      (auto simp: sched_inv_def no_overtaking_def distinct_map_filter)
  have bl: "blocked_in_order conflict s' [] still'"
    by (rule scan_async_blocked [OF scan]) simp
  have fr: "sc_next s' = sc_next s"
    "set (sc_active s') \<union> set still' = set (sc_active ?s) \<union> set (sc_queued s)"
    using scan_async_frame [OF scan] by auto
  have nt: "\<forall>t \<in> set (sc_queued s). \<not> tt_throws t"
    using assms by (auto simp: sched_inv_def)
  have "sched_finish conflict (Suc n) i s = Some (s'\<lparr>sc_queued := still'\<rparr>)"
    using scan scan_queue_async [OF nt, of conflict n "[]" ?s] by simp
  moreover have "sched_inv conflict (s'\<lparr>sc_queued := still'\<rparr>)"
  proof -
    have "\<forall>t \<in> set (sc_active s') \<union> set still'. tt_id t < sc_next s' \<and> \<not> tt_throws t"
      unfolding fr using assms by (auto simp: sched_inv_def)
    moreover have "blocked_in_order conflict (s'\<lparr>sc_queued := still'\<rparr>) [] still'"
      using bl by (rule blocked_in_order_mono) simp
    ultimately show ?thesis
      using af ord by (simp add: sched_inv_def)
  qed
  ultimately show ?thesis
    by blast
qed

lemma add_inv:
  assumes "sched_inv conflict s"
  shows "\<exists>s'. sched_add conflict (Suc n) a False s = Some s' \<and> sched_inv conflict s'"
proof -
  let ?t = "\<lparr>tt_id = sc_next s, tt_accesses = a, tt_throws = False\<rparr>"
  let ?s = "s\<lparr>sc_next := Suc (sc_next s)\<rparr>"
  have new: "t \<in> set (sc_active s) \<Longrightarrow> tt_id t < sc_next s \<and> tt_id t < Suc (sc_next s)"
    "t \<in> set (sc_queued s) \<Longrightarrow> tt_id t < sc_next s \<and> tt_id t < Suc (sc_next s)" for t
    using assms by (auto simp: sched_inv_def less_Suc_eq)
  show ?thesis
  proof (cases "is_blocked conflict ?t ?s (sc_queued s)")
    case True
    let ?r = "?s\<lparr>sc_queued := sc_queued s @ [?t]\<rparr>"
    have "blocked_in_order conflict ?r [] (sc_queued s)"
      using assms by (auto simp: sched_inv_def intro: blocked_in_order_mono)
    moreover have "is_blocked conflict ?t ?r (sc_queued s)"
      using True by (rule is_blocked_mono) auto
    ultimately have "sched_inv conflict ?r"
      using assms
      by (auto simp: sched_inv_def blocked_in_order_snoc no_overtaking_def sorted_wrt_append dest: new)
    with True show ?thesis
      by (auto simp: sched_add_def Let_def)
  next
    case False
    let ?r = "?s\<lparr>sc_active := sc_active s @ [?t], sc_started := sc_started s @ [sc_next s]\<rparr>"
    have "blocked_in_order conflict ?r [] (sc_queued s)"
      using assms by (auto simp: sched_inv_def intro: blocked_in_order_mono)
    moreover have "active_free conflict (sc_active s @ [?t])"
      using assms False by (auto simp: active_free_snoc sched_inv_def not_blocked_iff)
    ultimately have "sched_inv conflict ?r"
      using assms False
      by (auto simp: sched_inv_def no_overtaking_def not_blocked_iff dest: new)
    with False show ?thesis
      by (auto simp: sched_add_def Let_def)
  qed
qed

lemma step_inv:
  assumes "sched_inv conflict s" and "event_async e"
  shows "\<exists>s'. sched_step conflict (Suc n) s e = Some s' \<and> sched_inv conflict s'"
  using assms finish_inv add_inv by (cases e) (auto simp del: sched_finish.simps)

lemma run_returns:
  assumes "\<forall>e \<in> set es. event_async e" and "sched_inv conflict s"
  shows "\<exists>s'. sched_run conflict (Suc n) es s = Some s' \<and> sched_inv conflict s'"
  using assms
proof (induction es arbitrary: s)
  case (Cons e es)
  then obtain s1 where "sched_step conflict (Suc n) s e = Some s1" "sched_inv conflict s1"
    using step_inv [of s e n] by auto
  with Cons show ?case
    by auto
qed simp

lemma inv_of_run:
  assumes "\<forall>e \<in> set es. event_async e" and "sched_run conflict (Suc n) es sched_init = Some s"
  shows "sched_inv conflict s"
  using run_returns [OF assms(1) sched_inv_init, of n] assms(2) by auto

lemma head_waits_for_active:
  assumes "sched_inv conflict s" and "sc_queued s = t # ts"
  shows "\<exists>u \<in> set (sc_active s). conflict (tt_accesses t) (tt_accesses u)"
  using assms by (auto simp: sched_inv_def is_blocked_def conflicts_with_any_def list_ex_iff)

end

interpretation tool_conflict: conflict_test accesses_conflict
  by unfold_locales (rule accesses_conflict_sym)

subsection \<open>Properties of the scheduler on \<open>ToolAccesses\<close>\<close>

lemma active_free_nth:
  assumes "active_free conflict ts" and "i < j" and "j < length ts"
  shows "\<not> conflict (tt_accesses (ts ! i)) (tt_accesses (ts ! j))"
  using assms by (auto simp: active_free_def sorted_wrt_iff_nth_less)

text \<open>
  C1: whatever calls a step makes and in whatever order they settle, one unit of fuel is
  enough for the scheduler to return, and two calls that run at the same time never both
  cover a path that one of them writes.
\<close>

theorem running_calls_disjoint:
  assumes "\<forall>e \<in> set es. event_async e"
  shows "\<exists>s. sched_run accesses_conflict (Suc n) es sched_init = Some s \<and>
    (\<forall>i j x y p. i < j \<and> j < length (sc_active s)
       \<and> x \<in> set (tt_accesses (sc_active s ! i)) \<and> y \<in> set (tt_accesses (sc_active s ! j))
       \<and> covers x p \<and> covers y p \<longrightarrow> \<not> access_writes x \<and> \<not> access_writes y)"
proof -
  obtain s where s: "sched_run accesses_conflict (Suc n) es sched_init = Some s"
      "sched_inv accesses_conflict s"
    using tool_conflict.run_returns [OF assms sched_inv_init] by blast
  have "\<not> access_writes x \<and> \<not> access_writes y"
    if "i < j" "j < length (sc_active s)" "x \<in> set (tt_accesses (sc_active s ! i))"
      "y \<in> set (tt_accesses (sc_active s ! j))" "covers x p" "covers y p" for i j x y p
  proof -
    have "\<not> accesses_conflict (tt_accesses (sc_active s ! i)) (tt_accesses (sc_active s ! j))"
      using s(2) that(1,2) by (intro active_free_nth) (auto simp: sched_inv_def)
    then show ?thesis
      using that(3-) covers_conflict [OF that(5,6)] by (auto simp: accesses_conflict_iff)
  qed
  with s(1) show ?thesis
    by blast
qed

theorem running_calls_disjoint_witness:
  "\<exists>s. sched_run accesses_conflict 1
         [Add (write_file ''/a'') False, Add (read_tree ''/'') False, Add (read_file ''/b'') False, Settle 0]
         sched_init = Some s"
  using running_calls_disjoint
    [of "[Add (write_file ''/a'') False, Add (read_tree ''/'') False, Add (read_file ''/b'') False, Settle 0]" 0]
  by auto

text \<open>
  Calls that conflict run in the order the model issued them. After any asynchronous
  run, no active call has a smaller-numbered call it conflicts with still in the queue,
  and the queue is in issue order.
\<close>

theorem no_call_overtakes:
  assumes "\<forall>e \<in> set es. event_async e"
    and "sched_run accesses_conflict (Suc n) es sched_init = Some s"
    and "t \<in> set (sc_active s)" and "u \<in> set (sc_queued s)" and "tt_id u < tt_id t"
  shows "\<not> accesses_conflict (tt_accesses t) (tt_accesses u)"
  using tool_conflict.inv_of_run [OF assms(1,2)] assms(3-)
  by (auto simp: sched_inv_def no_overtaking_def)

theorem no_call_overtakes_witness:
  "\<exists>s t u. sched_run accesses_conflict 1
         [Add (write_file ''/a'') False, Add (read_file ''/a'') False, Add (read_file ''/b'') False]
         sched_init = Some s
     \<and> t \<in> set (sc_active s) \<and> u \<in> set (sc_queued s) \<and> tt_id u < tt_id t
     \<and> \<not> accesses_conflict (tt_accesses t) (tt_accesses u)"
proof -
  let ?es = "[Add (write_file ''/a'') False, Add (read_file ''/a'') False, Add (read_file ''/b'') False]"
  let ?w = "\<lparr>tt_id = 0, tt_accesses = write_file ''/a'', tt_throws = False\<rparr>"
  let ?u = "\<lparr>tt_id = 1, tt_accesses = read_file ''/a'', tt_throws = False\<rparr>"
  let ?t = "\<lparr>tt_id = 2, tt_accesses = read_file ''/b'', tt_throws = False\<rparr>"
  let ?s = "\<lparr>sc_active = [?w, ?t], sc_queued = [?u], sc_rejected = [], sc_started = [0, 2], sc_next = 3\<rparr>"
  have c: "accesses_conflict (read_file ''/a'') (write_file ''/a'')"
    "\<not> accesses_conflict (read_file ''/b'') (write_file ''/a'')"
    "\<not> accesses_conflict (read_file ''/b'') (read_file ''/a'')"
    by code_simp+
  have r: "sched_run accesses_conflict (Suc 0) ?es sched_init = Some ?s"
    using c by (simp add: sched_init_def sched_add_def is_blocked_def conflicts_with_any_def)
  have "\<not> accesses_conflict (tt_accesses ?t) (tt_accesses ?u)"
    using no_call_overtakes [OF _ r, of ?t ?u] by simp
  with r show ?thesis
    by (intro exI [of _ ?s] exI [of _ ?t] exI [of _ ?u]) simp
qed

text \<open>
  No lost wake-up. After any asynchronous run, if a call waits then some call is
  running, and the first waiting call conflicts with a running one.
\<close>

theorem waiting_call_has_blocker:
  assumes "\<forall>e \<in> set es. event_async e"
    and "sched_run accesses_conflict (Suc n) es sched_init = Some s" and "sc_queued s = t # ts"
  shows "\<exists>u \<in> set (sc_active s). accesses_conflict (tt_accesses t) (tt_accesses u)"
  using tool_conflict.head_waits_for_active [OF tool_conflict.inv_of_run [OF assms(1,2)] assms(3)] .

theorem waiting_call_has_blocker_witness:
  "\<exists>s t. sched_run accesses_conflict 1 [Add accesses_all False, Add accesses_all False] sched_init = Some s
     \<and> sc_queued s = [t] \<and> (\<exists>u \<in> set (sc_active s). accesses_conflict (tt_accesses t) (tt_accesses u))"
proof -
  let ?es = "[Add accesses_all False, Add accesses_all False]"
  let ?a = "\<lambda>i. \<lparr>tt_id = i, tt_accesses = accesses_all, tt_throws = False\<rparr>"
  let ?s = "\<lparr>sc_active = [?a 0], sc_queued = [?a 1], sc_rejected = [], sc_started = [0], sc_next = 2\<rparr>"
  have c: "accesses_conflict accesses_all accesses_all"
    by code_simp
  have r: "sched_run accesses_conflict (Suc 0) ?es sched_init = Some ?s"
    using c by (simp add: sched_init_def sched_add_def is_blocked_def conflicts_with_any_def)
  have "\<exists>u \<in> set (sc_active ?s). accesses_conflict (tt_accesses (?a 1)) (tt_accesses u)"
    using waiting_call_has_blocker [OF _ r, of "?a 1" "[]"] by simp
  with r show ?thesis
    by (intro exI [of _ ?s] exI [of _ "?a 1"]) simp
qed

subsection \<open>A start that throws\<close>

lemma throwing_head_diverges:
  assumes "tt_throws t" and "sc_queued s = [t]" and "\<forall>u \<in> set (sc_active s). tt_id u = i"
  shows "sched_finish conflict n i s = None"
  using assms
proof (induction n arbitrary: s i)
  case 0
  then show ?case
    by (auto simp: is_blocked_def conflicts_with_any_def filter_empty_conv)
next
  case (Suc n)
  let ?s = "s\<lparr>sc_active := filter (\<lambda>t. tt_id t \<noteq> i) (sc_active s)\<rparr>"
  let ?r = "?s\<lparr>sc_active := sc_active ?s @ [t], sc_started := sc_started ?s @ [tt_id t],
               sc_rejected := sc_rejected ?s @ [tt_id t]\<rparr>"
  have e: "filter (\<lambda>t. tt_id t \<noteq> i) (sc_active s) = []"
    using Suc.prems by (simp add: filter_empty_conv)
  have "sched_finish conflict n (tt_id t) ?r = None"
    using Suc.prems e by (intro Suc.IH) auto
  then show ?case
    using Suc.prems e by (simp add: is_blocked_def conflicts_with_any_def)
qed

text \<open>
  The handler of a synchronous throw does not terminate on a waiting task. When a
  queued task whose \<open>start\<close> throws becomes runnable, \<open>finish\<close> scans the same queue again
  before the outer scan has taken the task off it, so no amount of fuel gives a result.
\<close>

theorem throwing_start_diverges:
  "sched_run accesses_conflict n
     [Add accesses_all False, Add accesses_all True, Settle 0] sched_init = None"
proof (cases n)
  case 0
  then show ?thesis
    by (simp add: sched_init_def sched_add_def is_blocked_def conflicts_with_any_def)
next
  case (Suc m)
  have c: "accesses_conflict accesses_all accesses_all"
    by code_simp
  let ?a = "\<lambda>i b. \<lparr>tt_id = i, tt_accesses = accesses_all, tt_throws = b\<rparr>"
  let ?s = "\<lparr>sc_active = [?a 0 False], sc_queued = [?a 1 True], sc_rejected = [], sc_started = [0], sc_next = Suc (Suc 0)\<rparr>"
  have "sched_finish accesses_conflict (Suc m) 0 ?s = None"
    by (rule throwing_head_diverges [of "?a 1 True"]) auto
  then show ?thesis
    using c Suc
    by (simp add: sched_init_def sched_add_def is_blocked_def conflicts_with_any_def
             del: sched_finish.simps)
qed

end
