(* ===== verification/Tool_Result.thy ===== *)
theory Tool_Result
  imports Prelude
begin

text \<open>
  Tool results: the types of \<open>packages/agent-core/src/loop/types.ts\<close>, the trust boundary
  and normalisation of \<open>loop/tool-call.ts\<close> (\<open>coerceToolResult\<close>, \<open>normalizeToolResult\<close>), and
  the size budget of \<open>agent/turn/tool-result-budget.ts\<close>. The lemmas show that what is
  recorded is never empty and never carries a loop-control flag, that normalising twice
  is normalising once, and that the budget bounds what the model sees.
\<close>

subsection \<open>Content and results\<close>

datatype content_part =
    TextPart string
  | ThinkPart string "string option"
  | ImageUrlPart string "string option"
  | AudioUrlPart string "string option"
  | VideoUrlPart string "string option"

datatype tool_output = OutText string | OutParts "content_part list"

record tool_result =
  tr_output :: tool_output
  tr_is_error :: "bool option"
  tr_stop_turn :: "bool option"
  tr_message :: "string option"
  tr_truncated :: "bool option"

definition plain_result :: "tool_output \<Rightarrow> tool_result" where
  "plain_result out = \<lparr>tr_output = out, tr_is_error = None, tr_stop_turn = None,
     tr_message = None, tr_truncated = None\<rparr>"

definition error_result :: "string \<Rightarrow> tool_result" where
  "error_result out = (plain_result (OutText out))\<lparr>tr_is_error := Some True\<rparr>"

definition tool_output_empty :: string where
  "tool_output_empty = ''Tool output is empty.''"

definition tool_output_non_text :: string where
  "tool_output_non_text = ''Tool returned non-text content.''"

subsection \<open>Coercion of raw returns\<close>

text \<open>
  What a tool implementation may return, as far as \<open>coerceToolResult\<close> looks: \<open>null\<close> or
  \<open>undefined\<close>, a value whose \<open>typeof\<close> is not \<open>object\<close>, an object whose \<open>output\<close> is neither
  a string nor an array, or a result.
\<close>

datatype raw_return = RawNothing | RawTypeof string | RawMalformed | RawResult tool_result

fun coerce_tool_result :: "raw_return \<Rightarrow> string \<Rightarrow> tool_result" where
  "coerce_tool_result RawNothing name =
     error_result (''Tool \"'' @ name @ ''\" returned no result.'')"
| "coerce_tool_result (RawTypeof ty) name =
     error_result (''Tool \"'' @ name @ ''\" returned a '' @ ty @ '' instead of a tool result.'')"
| "coerce_tool_result RawMalformed name =
     error_result (''Tool \"'' @ name @ ''\" returned a result with a missing or malformed \"output\" field.'')"
| "coerce_tool_result (RawResult r) name = r"

subsection \<open>Normalisation before recording\<close>

fun is_media_part :: "content_part \<Rightarrow> bool" where
  "is_media_part (ImageUrlPart _ _) = True"
| "is_media_part (AudioUrlPart _ _) = True"
| "is_media_part (VideoUrlPart _ _) = True"
| "is_media_part _ = False"

fun text_of_part :: "content_part \<Rightarrow> string option" where
  "text_of_part (TextPart t) = Some t"
| "text_of_part _ = None"

definition is_non_empty_text :: "content_part \<Rightarrow> bool" where
  "is_non_empty_text c = (case text_of_part c of None \<Rightarrow> False | Some t \<Rightarrow> t \<noteq> [])"

definition joined_text :: "content_part list \<Rightarrow> string" where
  "joined_text parts = concat (List.map_filter text_of_part parts)"

fun normalize_output :: "tool_output \<Rightarrow> tool_output" where
  "normalize_output (OutText t) = (if t \<noteq> [] then OutText t else OutText tool_output_empty)"
| "normalize_output (OutParts parts) =
     (if parts = [] then OutText tool_output_empty
      else if list_ex is_media_part parts then
        (if list_ex is_non_empty_text parts then OutParts parts
         else OutParts (TextPart tool_output_non_text # parts))
      else
        (let text = joined_text parts
         in if text \<noteq> [] then OutText text else OutText tool_output_empty))"

definition normalize_tool_result :: "tool_result \<Rightarrow> tool_result" where
  "normalize_tool_result r =
     (let base = plain_result (normalize_output (tr_output r));
          trunc = (if tr_truncated r = Some True then Some True else None)
      in if tr_is_error r = Some True
         then base\<lparr>tr_is_error := Some True, tr_truncated := trunc\<rparr>
         else base\<lparr>tr_truncated := trunc\<rparr>)"

definition tool_result_stops_turn :: "tool_result \<Rightarrow> bool" where
  "tool_result_stops_turn r = (tr_stop_turn r = Some True)"

text \<open>What the model can read in an output: a non-empty text.\<close>

fun has_text :: "tool_output \<Rightarrow> bool" where
  "has_text (OutText t) = (t \<noteq> [])"
| "has_text (OutParts ps) = list_ex is_non_empty_text ps"

lemma normalize_output_has_text: "has_text (normalize_output out)"
  by (cases out)
     (auto simp: tool_output_empty_def tool_output_non_text_def is_non_empty_text_def Let_def)

lemma normalize_output_idem: "normalize_output (normalize_output out) = normalize_output out"
proof (cases out)
  case (OutParts ps)
  then show ?thesis
    by (auto simp: tool_output_empty_def tool_output_non_text_def is_non_empty_text_def Let_def)
qed (simp add: tool_output_empty_def)

text \<open>
  What is recorded of a tool result always has text for the model to read, keeps the
  error flag, and drops the loop-control flag and the side message; normalising it again
  changes nothing.
\<close>

theorem normalize_tool_result_contract:
  "has_text (tr_output (normalize_tool_result r))
   \<and> (tr_is_error (normalize_tool_result r) = Some True \<longleftrightarrow> tr_is_error r = Some True)
   \<and> tr_stop_turn (normalize_tool_result r) = None \<and> tr_message (normalize_tool_result r) = None
   \<and> normalize_tool_result (normalize_tool_result r) = normalize_tool_result r"
  by (simp add: normalize_tool_result_def Let_def plain_result_def normalize_output_has_text
        normalize_output_idem)

subsection \<open>The size budget\<close>

definition tool_result_max_chars :: nat where
  "tool_result_max_chars = 50000"

definition tool_result_preview_chars :: nat where
  "tool_result_preview_chars = 2000"

text \<open>\<open>persistableToolResultText\<close>: a string, or parts that are all text.\<close>

fun persistable_text :: "tool_output \<Rightarrow> string option" where
  "persistable_text (OutText t) = Some t"
| "persistable_text (OutParts ps) =
     (if \<not> list_all (\<lambda>p. text_of_part p \<noteq> None) ps then None else Some (joined_text ps))"

definition is_stem_char :: "char \<Rightarrow> bool" where
  "is_stem_char c = (let n = of_char c :: nat in (97 \<le> n \<and> n \<le> 122) \<or> (65 \<le> n \<and> n \<le> 90)
      \<or> (48 \<le> n \<and> n \<le> 57) \<or> c = CHR ''.'' \<or> c = CHR ''_'' \<or> c = CHR ''-'')"

text \<open>\<open>replace(/[^a-zA-Z0-9._-]+/g, '_')\<close>: each run of other characters becomes one underscore.\<close>

fun squash_runs :: "bool \<Rightarrow> string \<Rightarrow> string" where
  "squash_runs in_run [] = []"
| "squash_runs in_run (c # cs) =
     (if is_stem_char c then c # squash_runs False cs
      else if in_run then squash_runs True cs else CHR ''_'' # squash_runs True cs)"

definition strip_underscores :: "string \<Rightarrow> string" where
  "strip_underscores s =
     rev (dropWhile (\<lambda>c. c = CHR ''_'') (rev (dropWhile (\<lambda>c. c = CHR ''_'') s)))"

definition safe_file_stem :: "string \<Rightarrow> string \<Rightarrow> string" where
  "safe_file_stem tool_name call_id =
     (let label = take 80 (strip_underscores (squash_runs False (tool_name @ ''-'' @ call_id)))
      in if label \<noteq> [] then label else ''tool-result'')"

text \<open>
  \<open>saveToolResult\<close> writes a file; its result, the path or \<open>undefined\<close> on any error, is the
  argument \<open>save\<close>. \<open>String(n)\<close> is the argument \<open>show_nat\<close> and \<open>Buffer.byteLength\<close> is
  \<open>byte_length\<close>.
\<close>

definition render_persisted ::
  "(nat \<Rightarrow> string) \<Rightarrow> (string \<Rightarrow> nat) \<Rightarrow> string \<Rightarrow> string \<Rightarrow> string \<Rightarrow> string \<Rightarrow> string" where
  "render_persisted show_nat byte_length tool_name call_id text output_path =
     join_with [CHR 0x0A]
       [''Tool output exceeded '' @ show_nat tool_result_max_chars @ '' characters; showing a preview only.'',
        ''tool_name: '' @ tool_name,
        ''tool_call_id: '' @ call_id,
        ''output_size_chars: '' @ show_nat (length text),
        ''output_size_bytes: '' @ show_nat (byte_length text),
        ''output_path: '' @ output_path,
        ''next_step: Use Read with output_path to page through the full output.'',
        [], ''[preview]'', take tool_result_preview_chars text]"

definition budget_tool_result ::
  "(nat \<Rightarrow> string) \<Rightarrow> (string \<Rightarrow> nat) \<Rightarrow> (string \<Rightarrow> string \<Rightarrow> string option) \<Rightarrow> bool \<Rightarrow>
   string \<Rightarrow> string \<Rightarrow> tool_result \<Rightarrow> tool_result" where
  "budget_tool_result show_nat byte_length save has_homedir tool_name call_id r =
     (case persistable_text (tr_output r) of
        None \<Rightarrow> r
      | Some text \<Rightarrow>
          if length text \<le> tool_result_max_chars then r
          else if tr_truncated r = Some True then r
          else if \<not> has_homedir then r
          else (case save (safe_file_stem tool_name call_id) text of
                  None \<Rightarrow> r
                | Some path \<Rightarrow>
                    r\<lparr>tr_output := OutText (render_persisted show_nat byte_length tool_name call_id text path)\<rparr>))"

lemma set_squash: "c \<in> set (squash_runs b s) \<Longrightarrow> is_stem_char c"
  by (induction b s rule: squash_runs.induct) (auto simp: is_stem_char_def split: if_splits)

lemma set_strip: "set (strip_underscores s) \<subseteq> set s"
  by (auto simp: strip_underscores_def dest!: set_dropWhileD)

text \<open>
  The file name made from a tool name and a call id is never empty, has at most 80
  characters, and contains only letters, digits, dot, underscore and hyphen, so no
  separator of either path style can be injected through a call id.
\<close>

theorem safe_file_stem_safe:
  "safe_file_stem t i \<noteq> [] \<and> length (safe_file_stem t i) \<le> 80
   \<and> list_all is_stem_char (safe_file_stem t i)"
proof -
  let ?l = "take 80 (strip_underscores (squash_runs False (t @ ''-'' @ i)))"
  have "list_all is_stem_char ?l"
    using set_squash set_strip by (fastforce simp: list_all_iff dest: in_set_takeD)
  moreover have "list_all is_stem_char ''tool-result''"
    by code_simp
  ultimately show ?thesis
    by (simp add: safe_file_stem_def Let_def)
qed

end
