(* ===== verification/Tool_Call.thy ===== *)
theory Tool_Call
  imports Tool_Access Tool_Result
begin

text \<open>
  \<open>packages/agent-core/src/loop/tool-call.ts\<close>: the life of the tool calls of one provider
  response. Calls are checked, prepared by hooks, recorded as \<open>tool.call\<close> events, run, and
  their results finalised and recorded as \<open>tool.result\<close> events.

  What the module calls and does not define is an argument: \<open>JSON.parse\<close> (\<open>'j\<close> is the type
  of parsed arguments), the compiled argument validator, the tool's \<open>resolveExecution\<close> and
  \<open>execute\<close>, and the hooks. A call that may throw has a result of type \<open>outcome\<close>. The abort
  signal changes while the batch runs, so each place that reads it reads \<open>aborted call place\<close>.
  Which of two running calls finishes first cannot be seen in what is recorded, because the
  results are awaited in provider order; the order of execution is in \<open>Tool_Scheduler\<close>.
\<close>

subsection \<open>Types\<close>

record tool_call =
  tc_id :: string
  tc_name :: string
  tc_arguments :: "string option"

text \<open>
  A runnable execution; \<open>ex_execute\<close> gives, for the metadata passed to \<open>execute\<close>, how the race
  between the execution and the grace timer of \<open>executeTool\<close> ends.
\<close>

datatype execute_race = ExecuteSettles "raw_return outcome" | GraceTimeoutFires

record runnable_execution =
  ex_accesses :: "tool_accesses option"
  ex_description :: "string option"
  ex_display :: "string option"
  ex_stop_batch :: "bool option"
  ex_execute :: "string option \<Rightarrow> execute_race"

datatype tool_execution = ExecutionError tool_result | ExecutionRunnable runnable_execution

record 'j executable_tool =
  et_name :: string
  et_validate :: "'j \<Rightarrow> string option"
  et_resolve :: "'j \<Rightarrow> tool_execution outcome"

record authorize_result =
  ar_block :: "bool option"
  ar_reason :: "string option"
  ar_synthetic :: "raw_return option"
  ar_metadata :: "string option"

record 'j prepare_result = authorize_result +
  pr_updated_args :: "'j option"

record 'j loop_hooks =
  lh_prepare :: "(tool_call \<Rightarrow> 'j \<Rightarrow> 'j prepare_result option outcome) option"
  lh_authorize :: "(tool_call \<Rightarrow> 'j \<Rightarrow> runnable_execution \<Rightarrow> authorize_result option outcome) option"
  lh_finalize :: "(tool_call \<Rightarrow> 'j \<Rightarrow> tool_result \<Rightarrow> raw_return option outcome) option"

text \<open>The places where the module reads \<open>signal.aborted\<close>.\<close>

datatype abort_read =
    AtPrepareCatch | AfterResolve | AtAuthorizeCatch | AfterAuthorize
  | AtRun | AtExecute | AtExecuteCatch | AtFinalizeCatch

record 'j step_context =
  st_tools :: "'j executable_tool list"
  st_hooks :: "'j loop_hooks"
  st_parse :: "string \<Rightarrow> string + 'j"
  st_empty_args :: 'j
  st_aborted :: "tool_call \<Rightarrow> abort_read \<Rightarrow> bool"
  st_user_cancelled :: bool

datatype 'j preflighted =
    Runnable tool_call "'j executable_tool" 'j
  | Rejected tool_call 'j string

fun call_of :: "'j preflighted \<Rightarrow> tool_call" where
  "call_of (Runnable c t a) = c"
| "call_of (Rejected c a out) = c"

fun args_of :: "'j preflighted \<Rightarrow> 'j" where
  "args_of (Runnable c t a) = a"
| "args_of (Rejected c a out) = a"

record 'j pending_result =
  pd_call :: tool_call
  pd_args :: 'j
  pd_result :: tool_result
  pd_stop_turn :: "bool option"

text \<open>A prepared task: its accesses and the value its promise resolves to.\<close>

record 'j prepared_task =
  pt_accesses :: tool_accesses
  pt_pending :: "'j pending_result"
  pt_stop_batch :: "bool option"

datatype 'j prepare_decision =
    DecAllowed 'j "string option"
  | DecSynthetic 'j raw_return
  | DecBlocked 'j string
  | DecHookFailed 'j string

text \<open>The recorded events: \<open>tool.call\<close> with its display fields, \<open>tool.result\<close>.\<close>

datatype 'j loop_event =
    EvToolCall string string 'j "string option" "string option"
  | EvToolResult string tool_result

subsection \<open>Preflight\<close>

definition parse_arguments :: "'j step_context \<Rightarrow> string option \<Rightarrow> string + 'j" where
  "parse_arguments st raw =
     (case raw of
        None \<Rightarrow> Inr (st_empty_args st)
      | Some s \<Rightarrow> if s = [] then Inr (st_empty_args st) else st_parse st s)"

definition preflight :: "'j step_context \<Rightarrow> tool_call \<Rightarrow> 'j preflighted" where
  "preflight st c =
     (let parsed = parse_arguments st (tc_arguments c);
          args = (case parsed of Inl e \<Rightarrow> st_empty_args st | Inr a \<Rightarrow> a)
      in case List.find (\<lambda>t. et_name t = tc_name c) (st_tools st) of
           None \<Rightarrow> Rejected c args (''Tool \"'' @ tc_name c @ ''\" not found'')
         | Some tool \<Rightarrow>
             (case parsed of
                Inl e \<Rightarrow> Rejected c args
                  (''Invalid args for tool \"'' @ tc_name c @ ''\": malformed JSON in arguments: '' @ e)
              | Inr a \<Rightarrow>
                  (case et_validate tool a of
                     Some v \<Rightarrow> Rejected c a (''Invalid args for tool \"'' @ tc_name c @ ''\": '' @ v)
                   | None \<Rightarrow> Runnable c tool a)))"

subsection \<open>Results and events\<close>

definition make_tool_result :: "tool_call \<Rightarrow> 'j \<Rightarrow> tool_result \<Rightarrow> 'j pending_result" where
  "make_tool_result c args r = \<lparr>pd_call = c, pd_args = args, pd_result = r,
     pd_stop_turn = Some (tool_result_stops_turn r)\<rparr>"

definition make_error_tool_result :: "tool_call \<Rightarrow> 'j \<Rightarrow> string \<Rightarrow> 'j pending_result" where
  "make_error_tool_result c args out = make_tool_result c args (error_result out)"

definition resolved_task :: "'j pending_result \<Rightarrow> 'j prepared_task" where
  "resolved_task r = \<lparr>pt_accesses = accesses_none, pt_pending = r, pt_stop_batch = None\<rparr>"

definition dispatch_tool_call ::
  "tool_call \<Rightarrow> 'j \<Rightarrow> (string option \<times> string option) option \<Rightarrow> 'j loop_event" where
  "dispatch_tool_call c args display_fields =
     EvToolCall (tc_id c) (tc_name c) args
       (Option.bind display_fields fst) (Option.bind display_fields snd)"

definition aborted_output :: "'j step_context \<Rightarrow> string \<Rightarrow> string" where
  "aborted_output st name =
     (if st_user_cancelled st
      then ''The user manually interrupted \"'' @ name @
           ''\" (and anything else running at the same time). This was a deliberate user action, '' @
           ''not a system error, timeout, or capacity limit. Do not retry automatically or guess '' @
           ''at the cause - wait for the user's next instruction.''
      else ''Tool \"'' @ name @ ''\" was aborted'')"

definition display_fields :: "runnable_execution \<Rightarrow> (string option \<times> string option)" where
  "display_fields ex =
     ((case ex_description ex of
         None \<Rightarrow> None
       | Some d \<Rightarrow> if length d > 0 then Some d else None), ex_display ex)"

subsection \<open>Hooks\<close>

definition run_prepare_hook ::
  "'j step_context \<Rightarrow> tool_call \<Rightarrow> 'j \<Rightarrow> 'j prepare_decision" where
  "run_prepare_hook st c args =
     (case lh_prepare (st_hooks st) of
        None \<Rightarrow> DecAllowed args None
      | Some hook \<Rightarrow>
          (case hook c args of
             Threw e \<Rightarrow>
               if je_is_abort e \<or> st_aborted st c AtPrepareCatch
               then DecHookFailed args
                 (''Tool \"'' @ tc_name c @ ''\" was aborted during prepareToolExecution hook'')
               else DecHookFailed args
                 (''prepareToolExecution hook failed for \"'' @ tc_name c @ ''\": '' @ je_message e)
           | Returned None \<Rightarrow> DecAllowed args None
           | Returned (Some h) \<Rightarrow>
               (let eff = opt_or (pr_updated_args h) args
                in if ar_block h = Some True
                   then DecBlocked eff (opt_or (ar_reason h)
                          (''Tool call \"'' @ tc_name c @ ''\" was blocked''))
                   else case ar_synthetic h of
                          Some r \<Rightarrow> DecSynthetic eff r
                        | None \<Rightarrow> DecAllowed eff (ar_metadata h))))"

definition block_with :: "string \<Rightarrow> authorize_result" where
  "block_with reason = \<lparr>ar_block = Some True, ar_reason = Some reason,
     ar_synthetic = None, ar_metadata = None\<rparr>"

definition run_authorize_hook ::
  "'j step_context \<Rightarrow> tool_call \<Rightarrow> 'j \<Rightarrow> runnable_execution \<Rightarrow> authorize_result option" where
  "run_authorize_hook st c args ex =
     (case lh_authorize (st_hooks st) of
        None \<Rightarrow> None
      | Some hook \<Rightarrow>
          (case hook c args ex of
             Returned r \<Rightarrow> r
           | Threw e \<Rightarrow>
               if je_is_abort e \<or> st_aborted st c AtAuthorizeCatch
               then Some (block_with
                 (''Tool \"'' @ tc_name c @ ''\" was aborted during authorizeToolExecution hook''))
               else Some (block_with
                 (''authorizeToolExecution hook failed for \"'' @ tc_name c @ ''\": '' @ je_message e))))"

subsection \<open>Running a call\<close>

definition grace_timeout_text :: "string \<Rightarrow> string" where
  "grace_timeout_text name = ''Tool \"'' @ name @ ''\" aborted by grace timeout (2000ms)''"

definition execute_tool ::
  "'j step_context \<Rightarrow> tool_call \<Rightarrow> string option \<Rightarrow> runnable_execution \<Rightarrow> raw_return outcome" where
  "execute_tool st c metadata ex =
     (if st_aborted st c AtExecute
      then Threw \<lparr>je_message = ''This operation was aborted'', je_is_abort = True, je_is_path_security = False\<rparr>
      else case ex_execute ex metadata of
             ExecuteSettles r \<Rightarrow> r
           | GraceTimeoutFires \<Rightarrow> Returned (RawResult (error_result (grace_timeout_text (tc_name c)))))"

definition run_runnable ::
  "'j step_context \<Rightarrow> tool_call \<Rightarrow> 'j \<Rightarrow> string option \<Rightarrow> runnable_execution \<Rightarrow> 'j pending_result" where
  "run_runnable st c args metadata ex =
     (if st_aborted st c AtRun then make_error_tool_result c args (aborted_output st (tc_name c))
      else case execute_tool st c metadata ex of
             Returned raw \<Rightarrow> make_tool_result c args (coerce_tool_result raw (tc_name c))
           | Threw e \<Rightarrow>
               (if je_is_abort e \<or> st_aborted st c AtExecuteCatch
                then make_error_tool_result c args (aborted_output st (tc_name c))
                else make_error_tool_result c args
                       (''Tool \"'' @ tc_name c @ ''\" failed: '' @ je_message e)))"

subsection \<open>Preparing a call\<close>

text \<open>
  \<open>prepareToolCall\<close> records one \<open>tool.call\<close> event and returns the task. \<open>settleError\<close> and
  \<open>settleSynthetic\<close> are its two local closures.
\<close>

definition settle_error ::
  "tool_call \<Rightarrow> 'j \<Rightarrow> string \<Rightarrow> (string option \<times> string option) option \<Rightarrow>
   'j loop_event \<times> 'j prepared_task" where
  "settle_error c args out flds =
     (dispatch_tool_call c args flds, resolved_task (make_error_tool_result c args out))"

definition settle_synthetic ::
  "tool_call \<Rightarrow> 'j \<Rightarrow> raw_return \<Rightarrow> (string option \<times> string option) option \<Rightarrow>
   'j loop_event \<times> 'j prepared_task" where
  "settle_synthetic c args raw flds =
     (let coerced = coerce_tool_result raw (tc_name c)
      in (dispatch_tool_call c args flds,
          (resolved_task (make_tool_result c args coerced))
            \<lparr>pt_stop_batch := Some (tool_result_stops_turn coerced)\<rparr>))"

text \<open>The part of \<open>prepareToolCall\<close> after \<open>resolveExecution\<close> has returned a runnable execution.\<close>

definition runnable_task ::
  "'j step_context \<Rightarrow> tool_call \<Rightarrow> 'j \<Rightarrow> string option \<Rightarrow> runnable_execution \<Rightarrow>
   'j loop_event \<times> 'j prepared_task" where
  "runnable_task st c args metadata ex =
     (dispatch_tool_call c args (Some (display_fields ex)),
      \<lparr>pt_accesses = opt_or (ex_accesses ex) accesses_all,
       pt_pending = run_runnable st c args metadata ex, pt_stop_batch = ex_stop_batch ex\<rparr>)"

definition prepare_runnable ::
  "'j step_context \<Rightarrow> tool_call \<Rightarrow> 'j \<Rightarrow> string option \<Rightarrow> runnable_execution \<Rightarrow>
   'j loop_event \<times> 'j prepared_task" where
  "prepare_runnable st c args metadata ex =
     (let flds = Some (display_fields ex);
          auth = run_authorize_hook st c args ex
      in if st_aborted st c AfterAuthorize
         then settle_error c args (aborted_output st (tc_name c)) flds
         else case auth of
           None \<Rightarrow> runnable_task st c args metadata ex
         | Some a \<Rightarrow>
             (if ar_block a = Some True
              then settle_error c args
                     (opt_or (ar_reason a) (''Tool call \"'' @ tc_name c @ ''\" was blocked'')) flds
              else case ar_synthetic a of
                     Some r \<Rightarrow> settle_synthetic c args r flds
                   | None \<Rightarrow>
                       runnable_task st c args
                         (case ar_metadata a of None \<Rightarrow> metadata | Some m \<Rightarrow> Some m) ex))"

definition prepare_allowed ::
  "'j step_context \<Rightarrow> tool_call \<Rightarrow> 'j executable_tool \<Rightarrow> 'j \<Rightarrow> string option \<Rightarrow>
   'j loop_event \<times> 'j prepared_task" where
  "prepare_allowed st c tool args metadata =
     (case et_validate tool args of
        Some v \<Rightarrow> settle_error c args
          (''Invalid args for tool \"'' @ tc_name c @ ''\" after prepareToolExecution hook: '' @ v) None
      | None \<Rightarrow>
          (case et_resolve tool args of
             Threw e \<Rightarrow> settle_error c args
               (if je_is_path_security e then je_message e
                else ''Tool \"'' @ tc_name c @ ''\" failed to resolve execution: '' @ je_message e) None
           | Returned execution \<Rightarrow>
               (let flds = (case execution of
                                ExecutionError r \<Rightarrow> None
                              | ExecutionRunnable ex \<Rightarrow> Some (display_fields ex))
                in if st_aborted st c AfterResolve
                   then settle_error c args (aborted_output st (tc_name c)) flds
                   else case execution of
                          ExecutionError r \<Rightarrow> settle_synthetic c args (RawResult r) None
                        | ExecutionRunnable ex \<Rightarrow> prepare_runnable st c args metadata ex)))"

fun prepare_tool_call :: "'j step_context \<Rightarrow> 'j preflighted \<Rightarrow> 'j loop_event \<times> 'j prepared_task" where
  "prepare_tool_call st (Rejected c args out) = settle_error c args out None"
| "prepare_tool_call st (Runnable c tool args) =
     (case run_prepare_hook st c args of
        DecBlocked a out \<Rightarrow> settle_error c a out None
      | DecHookFailed a out \<Rightarrow> settle_error c a out None
      | DecSynthetic a r \<Rightarrow> settle_synthetic c a r None
      | DecAllowed a metadata \<Rightarrow> prepare_allowed st c tool a metadata)"

definition skipped_text :: string where
  "skipped_text = ''Tool skipped because a previous tool call stopped the turn.''"

definition prepare_skipped :: "'j preflighted \<Rightarrow> 'j loop_event \<times> 'j prepared_task" where
  "prepare_skipped c =
     (dispatch_tool_call (call_of c) (args_of c) None,
      resolved_task (make_error_tool_result (call_of c) (args_of c) skipped_text))"

subsection \<open>Finalising a result\<close>

definition finalize_pending :: "'j step_context \<Rightarrow> 'j pending_result \<Rightarrow> 'j pending_result" where
  "finalize_pending st p =
     (case lh_finalize (st_hooks st) of
        None \<Rightarrow> p\<lparr>pd_result := normalize_tool_result (pd_result p)\<rparr>
      | Some hook \<Rightarrow>
          (case hook (pd_call p) (pd_args p) (pd_result p) of
             Returned out \<Rightarrow>
               (let eff = coerce_tool_result (opt_or out (RawResult (pd_result p))) (tc_name (pd_call p))
                in p\<lparr>pd_stop_turn := Some (pd_stop_turn p = Some True \<or> tool_result_stops_turn eff),
                     pd_result := normalize_tool_result eff\<rparr>)
           | Threw e \<Rightarrow>
               p\<lparr>pd_result := error_result
                   (if je_is_abort e \<or> st_aborted st (pd_call p) AtFinalizeCatch
                    then ''Tool \"'' @ tc_name (pd_call p) @ ''\" aborted during finalizeToolResult hook.''
                    else ''finalizeToolResult hook failed for \"'' @ tc_name (pd_call p) @ ''\": '' @ je_message e)\<rparr>))"

subsection \<open>The batch\<close>

text \<open>The preparation loop: the events, the tasks in provider order, and whether a call stopped the batch.\<close>

fun prepare_batch ::
  "'j step_context \<Rightarrow> 'j preflighted list \<Rightarrow> ('j loop_event list \<times> 'j prepared_task list) \<times> bool" where
  "prepare_batch st [] = (([], []), False)"
| "prepare_batch st (c # cs) =
     (let (ev, task) = prepare_tool_call st c
      in if pt_stop_batch task = Some True
         then ((ev # map (fst \<circ> prepare_skipped) cs, task # map (snd \<circ> prepare_skipped) cs), True)
         else let ((evs, tasks), stop) = prepare_batch st cs in ((ev # evs, task # tasks), stop))"

definition result_event :: "'j pending_result \<Rightarrow> 'j loop_event" where
  "result_event p = EvToolResult (tc_id (pd_call p)) (pd_result p)"

definition run_tool_call_batch :: "'j step_context \<Rightarrow> tool_call list \<Rightarrow> 'j loop_event list \<times> bool" where
  "run_tool_call_batch st tool_calls =
     (if tool_calls = [] then ([], False)
      else let ((evs, tasks), stopped) = prepare_batch st (map (preflight st) tool_calls);
               finals = map (\<lambda>t. finalize_pending st (pt_pending t)) tasks
           in (evs @ map result_event finals,
               stopped \<or> list_ex (\<lambda>p. pd_stop_turn p = Some True) finals))"

subsection \<open>Lemmas\<close>

lemma call_of_preflight [simp]: "call_of (preflight st c) = c"
  by (auto simp: preflight_def Let_def split: option.splits sum.splits)

lemmas settle_defs = settle_error_def settle_synthetic_def resolved_task_def
  make_error_tool_result_def make_tool_result_def Let_def

lemma settle_call [simp]:
  "pd_call (pt_pending (snd (settle_error c a out f))) = c"
  "pd_call (pt_pending (snd (settle_synthetic c a r f))) = c"
  "pd_call (run_runnable st c a m ex) = c"
  by (simp_all add: settle_defs run_runnable_def split: outcome.splits)

text \<open>A preparation answers for its own call: the event and the pending result name it.\<close>

fun event_is_call :: "'j loop_event \<Rightarrow> tool_call \<Rightarrow> bool" where
  "event_is_call (EvToolCall i n a d x) c = (i = tc_id c \<and> n = tc_name c)"
| "event_is_call (EvToolResult i r) c = False"

lemma dispatch_is_call [simp]: "event_is_call (dispatch_tool_call c a f) c"
  by (simp add: dispatch_tool_call_def)

lemma settle_event [simp]:
  "event_is_call (fst (settle_error c a out f)) c"
  "event_is_call (fst (settle_synthetic c a r f)) c"
  by (simp_all add: settle_defs)

lemma prepare_runnable_call:
  "pd_call (pt_pending (snd (prepare_runnable st c a m ex))) = c
   \<and> event_is_call (fst (prepare_runnable st c a m ex)) c"
  by (simp add: prepare_runnable_def runnable_task_def Let_def split: option.splits)

lemma prepare_allowed_call:
  "pd_call (pt_pending (snd (prepare_allowed st c tool a m))) = c
   \<and> event_is_call (fst (prepare_allowed st c tool a m)) c"
  by (simp add: prepare_allowed_def Let_def prepare_runnable_call
        split: option.splits outcome.splits tool_execution.splits)

lemma prepare_tool_call_call:
  "pd_call (pt_pending (snd (prepare_tool_call st c))) = call_of c
   \<and> event_is_call (fst (prepare_tool_call st c)) (call_of c)"
  by (cases c) (simp_all add: prepare_allowed_call split: prepare_decision.splits)

lemma prepare_skipped_call:
  "pd_call (pt_pending (snd (prepare_skipped c))) = call_of c
   \<and> event_is_call (fst (prepare_skipped c)) (call_of c)"
  by (simp add: prepare_skipped_def settle_defs)

lemma prepare_batch_calls:
  "prepare_batch st cs = ((evs, tasks), stop) \<Longrightarrow>
   map (\<lambda>t. pd_call (pt_pending t)) tasks = map call_of cs
   \<and> list_all2 event_is_call evs (map call_of cs)"
proof (induction cs arbitrary: evs tasks stop)
  case (Cons c cs)
  have sk: "map (\<lambda>t. pd_call (pt_pending t)) (map (snd \<circ> prepare_skipped) cs) = map call_of cs"
    "list_all2 event_is_call (map (fst \<circ> prepare_skipped) cs) (map call_of cs)"
    by (simp_all add: prepare_skipped_call list_all2_map1 list_all2_map2 list_all2_same)
  show ?case
    using Cons.prems Cons.IH prepare_tool_call_call [of st c] sk
    by (auto simp: Let_def split: prod.splits if_splits)
qed simp

lemma finalize_pending_call [simp]: "pd_call (finalize_pending st p) = pd_call p"
  by (simp add: finalize_pending_def Let_def split: option.splits outcome.splits)

lemma finalize_has_text: "has_text (tr_output (pd_result (finalize_pending st p)))"
  by (auto simp: finalize_pending_def Let_def normalize_tool_result_def plain_result_def
        normalize_output_has_text error_result_def split: option.splits outcome.splits)

lemma prepare_batch_stop:
  assumes "pt_stop_batch (snd (prepare_tool_call st c)) = Some True"
    and "\<forall>d \<in> set before. pt_stop_batch (snd (prepare_tool_call st d)) \<noteq> Some True"
  shows "prepare_batch st (before @ c # after) =
     ((map (fst \<circ> prepare_tool_call st) (before @ [c]) @ map (fst \<circ> prepare_skipped) after,
       map (snd \<circ> prepare_tool_call st) (before @ [c]) @ map (snd \<circ> prepare_skipped) after), True)"
  using assms by (induction before) (auto simp: Let_def split: prod.splits)

text \<open>What a batch records: one call per provider call in order, then their results in order.\<close>

definition batch_paired :: "tool_call list \<Rightarrow> 'j loop_event list \<Rightarrow> bool" where
  "batch_paired tool_calls evs \<longleftrightarrow> (\<exists>calls results. evs = calls @ results
     \<and> list_all2 event_is_call calls tool_calls
     \<and> list_all2 (\<lambda>ev c. \<exists>r. ev = EvToolResult (tc_id c) r \<and> has_text (tr_output r)) results tool_calls)"

lemma run_tool_call_batch_paired: "batch_paired tool_calls (fst (run_tool_call_batch st tool_calls))"
proof (cases "tool_calls = []")
  case True
  then show ?thesis
    by (simp add: run_tool_call_batch_def batch_paired_def)
next
  case False
  obtain evs tasks stop where b: "prepare_batch st (map (preflight st) tool_calls) = ((evs, tasks), stop)"
    by (metis prod.exhaust)
  let ?res = "map result_event (map (\<lambda>t. finalize_pending st (pt_pending t)) tasks)"
  have calls: "map (\<lambda>t. pd_call (pt_pending t)) tasks = tool_calls"
    and evs: "list_all2 event_is_call evs tool_calls"
    using prepare_batch_calls [OF b] by (simp_all add: comp_def)
  have "list_all2 (\<lambda>ev c. \<exists>r. ev = EvToolResult (tc_id c) r \<and> has_text (tr_output r)) ?res
          (map (\<lambda>t. pd_call (pt_pending t)) tasks)"
    by (auto simp: list_all2_map1 list_all2_map2 list_all2_same result_event_def finalize_has_text)
  then show ?thesis
    using False b evs unfolding calls unfolding batch_paired_def by (auto simp: run_tool_call_batch_def)
qed

subsection \<open>Properties\<close>

text \<open>
  C4: every recorded \<open>tool.call\<close> has its \<open>tool.result\<close>. The events of a batch are one
  \<open>tool.call\<close> per provider call in provider order, then one \<open>tool.result\<close> per provider call
  in the same order, each with text in it, whatever the tools, the hooks, the validator
  and the abort signal do.
\<close>

theorem batch_pairs_calls_with_results:
  "\<exists>calls results. fst (run_tool_call_batch st tool_calls) = calls @ results
     \<and> list_all2 event_is_call calls tool_calls
     \<and> list_all2 (\<lambda>ev c. \<exists>r. ev = EvToolResult (tc_id c) r \<and> has_text (tr_output r)) results tool_calls"
  using run_tool_call_batch_paired [of tool_calls st] by (simp add: batch_paired_def)

text \<open>
  A call that stops the batch is the last that runs. When preparation of a call asks
  the batch to stop, every later call is recorded and answered with the fixed skip error
  without its hooks, its tool or its validator being consulted, and the batch reports
  that the turn stops.
\<close>

theorem stopped_batch_skips_rest:
  assumes "pt_stop_batch (snd (prepare_tool_call st (preflight st c))) = Some True"
    and "\<forall>d \<in> set before. pt_stop_batch (snd (prepare_tool_call st (preflight st d))) \<noteq> Some True"
  shows "snd (run_tool_call_batch st (before @ c # after))
    \<and> (\<exists>tasks. snd (fst (prepare_batch st (map (preflight st) (before @ c # after)))) = tasks @
          map (\<lambda>d. resolved_task (make_error_tool_result d (args_of (preflight st d)) skipped_text)) after
        \<and> length tasks = Suc (length before))"
proof -
  note b = prepare_batch_stop [of st "preflight st c" "map (preflight st) before"
      "map (preflight st) after"]
  have "prepare_batch st (map (preflight st) (before @ c # after)) =
     ((map (fst \<circ> prepare_tool_call st) (map (preflight st) before @ [preflight st c])
         @ map (fst \<circ> prepare_skipped) (map (preflight st) after),
       map (snd \<circ> prepare_tool_call st) (map (preflight st) before @ [preflight st c])
         @ map (snd \<circ> prepare_skipped) (map (preflight st) after)), True)"
    using b assms by auto
  then show ?thesis
    by (auto simp: run_tool_call_batch_def prepare_skipped_def comp_def
        intro!: exI [of _ "map (snd \<circ> prepare_tool_call st) (map (preflight st) before @ [preflight st c])"])
qed

text \<open>
  The redaction boundary. When the finalize hook throws, what is recorded does not
  depend on the raw result of the tool.
\<close>

theorem failed_finalize_hides_output:
  assumes "lh_finalize (st_hooks st) = Some hook"
    and "hook (pd_call p) (pd_args p) r = Threw e" and "hook (pd_call p) (pd_args p) r' = Threw e"
  shows "pd_result (finalize_pending st (p\<lparr>pd_result := r\<rparr>)) =
         pd_result (finalize_pending st (p\<lparr>pd_result := r'\<rparr>))"
  using assms by (simp add: finalize_pending_def)

subsection \<open>Witnesses\<close>

text \<open>A step with one tool, whose calls stop the batch, and a finalize hook that throws.\<close>

definition sample_execution :: runnable_execution where
  "sample_execution = \<lparr>ex_accesses = Some accesses_none, ex_description = None, ex_display = None,
     ex_stop_batch = Some True, ex_execute = (\<lambda>_. ExecuteSettles (Returned RawNothing))\<rparr>"

definition sample_error :: js_error where
  "sample_error = \<lparr>je_message = ''boom'', je_is_abort = False, je_is_path_security = False\<rparr>"

definition sample_step :: "nat step_context" where
  "sample_step = \<lparr>st_tools = [\<lparr>et_name = ''T'', et_validate = (\<lambda>_. None),
       et_resolve = (\<lambda>_. Returned (ExecutionRunnable sample_execution))\<rparr>],
     st_hooks = \<lparr>lh_prepare = None, lh_authorize = None,
       lh_finalize = Some (\<lambda>c a r. Threw sample_error)\<rparr>,
     st_parse = (\<lambda>_. Inr 0), st_empty_args = 0, st_aborted = (\<lambda>_ _. False), st_user_cancelled = False\<rparr>"

definition sample_call :: "string \<Rightarrow> tool_call" where
  "sample_call i = \<lparr>tc_id = i, tc_name = ''T'', tc_arguments = None\<rparr>"

lemma sample_stops:
  "pt_stop_batch (snd (prepare_tool_call sample_step (preflight sample_step (sample_call i)))) = Some True"
  by (simp add: sample_step_def sample_call_def preflight_def parse_arguments_def run_prepare_hook_def
      prepare_allowed_def prepare_runnable_def run_authorize_hook_def runnable_task_def
      sample_execution_def)

theorem stopped_batch_skips_rest_witness:
  "snd (run_tool_call_batch sample_step [sample_call ''1'', sample_call ''2''])"
  using stopped_batch_skips_rest [of sample_step "sample_call ''1''" "[]" "[sample_call ''2'']"]
  by (simp add: sample_stops)

theorem failed_finalize_hides_output_witness:
  "pd_result (finalize_pending sample_step
       (make_tool_result (sample_call ''1'') 0 (plain_result (OutText ''secret'')))) =
   pd_result (finalize_pending sample_step
       (make_tool_result (sample_call ''1'') 0 (plain_result (OutText ''other''))))"
  using failed_finalize_hides_output
    [of sample_step "\<lambda>c a r. Threw sample_error"
       "make_tool_result (sample_call ''1'') 0 (plain_result (OutText ''other''))"
       "plain_result (OutText ''secret'')" sample_error "plain_result (OutText ''other'')"]
  by (simp add: sample_step_def make_tool_result_def tool_result_stops_turn_def plain_result_def)

end
