(* ===== verification/Json.thy ===== *)
theory Json
  imports Prelude "HOL-Library.List_Lexorder" "HOL-Library.Char_ord" "HOL-Library.Multiset"
begin

text \<open>
  JSON values and \<open>packages/agent-core/src/agent/turn/canonical-args.ts\<close>, which prints them
  with sorted keys so that equal arguments have equal keys in telemetry and in the
  duplicate detector. A number is kept as the text \<open>JSON.stringify\<close> prints for it; the
  properties of an object are listed in enumeration order and have distinct names.
\<close>

datatype json =
    JNull
  | JBool bool
  | JNum string
  | JStr string
  | JArr "json list"
  | JObj "(string \<times> json) list"

subsection \<open>Enumeration order of object properties\<close>

text \<open>
  JavaScript lists the array-index names first, in numeric order, and the others in
  creation order.
\<close>

definition digit_val :: "char \<Rightarrow> nat" where
  "digit_val c = of_char c - 48"

definition is_digit_char :: "char \<Rightarrow> bool" where
  "is_digit_char c = (48 \<le> (of_char c :: nat) \<and> (of_char c :: nat) \<le> 57)"

definition decimal_value :: "string \<Rightarrow> nat" where
  "decimal_value s = foldl (\<lambda>v c. 10 * v + digit_val c) 0 s"

definition is_index_name :: "string \<Rightarrow> bool" where
  "is_index_name s \<longleftrightarrow> s \<noteq> [] \<and> list_all is_digit_char s \<and> (hd s = CHR ''0'' \<longrightarrow> s = ''0'')
     \<and> decimal_value s < 2 ^ 32 - 1"

definition own_order :: "(string \<times> 'a) list \<Rightarrow> (string \<times> 'a) list" where
  "own_order kvs =
     sort_key (\<lambda>kv. decimal_value (fst kv)) (filter (\<lambda>kv. is_index_name (fst kv)) kvs)
     @ filter (\<lambda>kv. \<not> is_index_name (fst kv)) kvs"

subsection \<open>Canonical form and printing\<close>

text \<open>
  \<open>sortJsonValue\<close>: keys in \<open>toSorted()\<close> order are assigned to a fresh object. Assigning to
  \<open>__proto__\<close> of an object literal runs the inherited setter and creates no property.
\<close>

fun sort_json :: "json \<Rightarrow> json" where
  "sort_json (JArr vs) = JArr (map sort_json vs)"
| "sort_json (JObj kvs) = JObj (own_order
     (filter (\<lambda>kv. fst kv \<noteq> ''__proto__'') (sort_key fst (map (\<lambda>(k, v). (k, sort_json v)) kvs))))"
| "sort_json v = v"

definition hex_char :: "nat \<Rightarrow> char" where
  "hex_char n = (if n < 10 then char_of (48 + n) else char_of (87 + n))"

definition quote_char :: "char \<Rightarrow> string" where
  "quote_char c =
     (let n = of_char c :: nat
      in if n = 8 then [CHR 0x5C, CHR ''b''] else if n = 9 then [CHR 0x5C, CHR ''t'']
         else if n = 10 then [CHR 0x5C, CHR ''n''] else if n = 12 then [CHR 0x5C, CHR ''f'']
         else if n = 13 then [CHR 0x5C, CHR ''r''] else if n = 34 then [CHR 0x5C, CHR 0x22]
         else if n = 92 then [CHR 0x5C, CHR 0x5C]
         else if n < 32 then [CHR 0x5C, CHR ''u'', CHR ''0'', CHR ''0'', hex_char (n div 16), hex_char (n mod 16)]
         else [c])"

definition quote_string :: "string \<Rightarrow> string" where
  "quote_string s = CHR 0x22 # concat (map quote_char s) @ [CHR 0x22]"

fun json_stringify :: "json \<Rightarrow> string" where
  "json_stringify JNull = ''null''"
| "json_stringify (JBool b) = (if b then ''true'' else ''false'')"
| "json_stringify (JNum n) = n"
| "json_stringify (JStr s) = quote_string s"
| "json_stringify (JArr vs) = ''['' @ join_with '','' (map json_stringify vs) @ '']''"
| "json_stringify (JObj kvs) =
     ''{'' @ join_with '','' (map (\<lambda>(k, v). quote_string k @ '':'' @ json_stringify v) kvs) @ ''}''"

text \<open>\<open>canonicalTelemetryArgs\<close>; \<open>None\<close> is \<open>undefined\<close>, for which \<open>JSON.stringify\<close> gives no text.\<close>

fun canonical_args :: "json option \<Rightarrow> string" where
  "canonical_args None = ''undefined''"
| "canonical_args (Some v) = json_stringify (sort_json v)"

text \<open>Two argument values that differ only in the order of object properties, at any depth.\<close>

inductive same_args :: "json \<Rightarrow> json \<Rightarrow> bool" where
  same_refl: "same_args v v"
| same_arr: "list_all2 same_args vs ws \<Longrightarrow> same_args (JArr vs) (JArr ws)"
| same_obj: "list_all2 (rel_prod (=) same_args) kvs mid \<Longrightarrow> distinct (map fst mid) \<Longrightarrow>
     mset mid = mset kws \<Longrightarrow> same_args (JObj kvs) (JObj kws)"
monos list_all2_mono prod.rel_mono_strong

lemma sort_json_perm:
  assumes "mset kvs = mset kws" and "distinct (map fst kvs)"
  shows "sort_json (JObj kvs) = sort_json (JObj kws)"
proof -
  let ?f = "map (\<lambda>(k, v). (k, sort_json v)) :: (string \<times> json) list \<Rightarrow> _"
  have "distinct (map fst (?f kvs))"
    using assms(2) by (simp add: comp_def case_prod_beta)
  then have "inj_on fst (set (?f kvs))"
    by (simp only: distinct_map)
  then have "sort_key fst (?f kvs) = sort_key fst (?f kws)"
    using assms(1) by (intro sort_key_inj_key_eq) (simp_all add: mset_map)
  then show ?thesis
    by simp
qed

lemma proto_property_dropped:
  "canonical_args (Some (JObj [(''__proto__'', v)])) = canonical_args (Some (JObj []))"
  by (simp add: own_order_def)

text \<open>
  The canonical text does not depend on the order in which the model wrote the
  properties of an object, at any depth of nesting.
\<close>

theorem canonical_args_order_free:
  assumes "same_args v w"
  shows "canonical_args (Some v) = canonical_args (Some w)"
proof -
  have "sort_json v = sort_json w"
    using assms
  proof (induction rule: same_args.induct)
    case (same_arr vs ws)
    then have "map sort_json vs = map sort_json ws"
      by (auto simp: list_all2_conv_all_nth intro: nth_equalityI)
    then show ?case
      by simp
  next
    case (same_obj kvs mid kws)
    have "map (\<lambda>(k, v). (k, sort_json v)) kvs = map (\<lambda>(k, v). (k, sort_json v)) mid"
      using same_obj(1) by (auto simp: list_all2_conv_all_nth rel_prod_sel case_prod_beta intro: nth_equalityI)
    then have "sort_json (JObj kvs) = sort_json (JObj mid)"
      by simp
    also have "\<dots> = sort_json (JObj kws)"
      using same_obj(2,3) by (intro sort_json_perm)
    finally show ?case .
  qed simp
  then show ?thesis
    by simp
qed

theorem canonical_args_order_free_witness:
  "canonical_args (Some (JObj [(''b'', JNull), (''a'', JNum ''1'')])) =
   canonical_args (Some (JObj [(''a'', JNum ''1''), (''b'', JNull)]))"
  by (rule canonical_args_order_free [OF same_obj [of _ "[(''b'', JNull), (''a'', JNum ''1'')]"]])
     (simp_all add: same_refl)

end
