(* ===== verification/Tool_Dedup.thy ===== *)
theory Tool_Dedup
  imports Tool_Result Json
begin

text \<open>
  \<open>packages/agent-core/src/agent/turn/tool-dedup.ts\<close>: the class \<open>ToolCallDeduplicator\<close>. A
  call repeated within a step gets the first call's result; a call repeated across steps
  gets reminders that escalate with the streak, and finally stops the turn.

  A deferred is a numbered cell of \<open>dd_heap\<close>: \<open>None\<close> while its promise is pending. Awaiting a
  deferred is the outcome \<open>Await i\<close>, whose value is what the cell holds later.
\<close>

subsection \<open>Reminders\<close>

definition nl :: string where
  "nl = [CHR 0x0A]"

definition reminder_open :: string where
  "reminder_open = nl @ nl @ ''<system-reminder>'' @ nl"

definition reminder_close :: string where
  "reminder_close = nl @ ''</system-reminder>''"

definition reminder_text_1 :: string where
  "reminder_text_1 = reminder_open @
     ''You are repeating the exact same tool call with identical parameters.'' @
     '' Please carefully analyze the previous result. If the task is not yet complete,'' @
     '' try a different method or parameters instead of repeating the same call.'' @
     reminder_close"

definition make_reminder_text_2 :: "string \<Rightarrow> nat \<Rightarrow> json option \<Rightarrow> string" where
  "make_reminder_text_2 tool_name repeat_count args = reminder_open @
     ''You have repeatedly called the same tool with identical parameters many times.'' @ nl @
     ''Repeated tool call detected:'' @ nl @
     ''- tool: '' @ tool_name @ nl @
     ''- repeated_times: '' @ nat_to_string repeat_count @ nl @
     ''- arguments: '' @ canonical_args args @ nl @
     ''The previous repeated calls did not make progress. Do not call this exact same tool with the exact same arguments again.'' @ nl @
     ''Carefully inspect the latest tool result and choose a different next action, different parameters, or finish the task if enough evidence has been gathered.'' @
     reminder_close"

definition reminder_text_3 :: string where
  "reminder_text_3 = reminder_open @
     ''You are stuck in a dead end and have repeatedly made the same function call without progress.'' @ nl @
     ''Stop all function calls immediately. Do not call any tool in your next response.'' @ nl @
     ''In analysis, review the current execution state and identify why progress is blocked.'' @ nl @
     ''Then return a text-only summary to the user that reports the current problem, what has already been tried, and what information or decision is needed next.'' @
     reminder_close"

definition repeat_reminder_1_start :: nat where "repeat_reminder_1_start = 3"

definition repeat_reminder_2_start :: nat where "repeat_reminder_2_start = 5"

definition repeat_reminder_3_start :: nat where "repeat_reminder_3_start = 8"

definition repeat_force_stop_streak :: nat where "repeat_force_stop_streak = 12"

lemmas thresholds = repeat_reminder_1_start_def repeat_reminder_2_start_def
  repeat_reminder_3_start_def repeat_force_stop_streak_def

definition make_key :: "string \<Rightarrow> json option \<Rightarrow> string" where
  "make_key tool_name args = tool_name @ '' '' @ canonical_args args"

fun append_to_output :: "tool_output \<Rightarrow> string \<Rightarrow> tool_output" where
  "append_to_output (OutText t) reminder = OutText (t @ reminder)"
| "append_to_output (OutParts ps) reminder =
     OutParts (if ps = [] then ps @ [TextPart reminder]
               else case last ps of
                      TextPart t \<Rightarrow> butlast ps @ [TextPart (t @ reminder)]
                    | _ \<Rightarrow> ps @ [TextPart reminder])"

definition append_reminder :: "tool_result \<Rightarrow> string \<Rightarrow> tool_result" where
  "append_reminder r reminder =
     (if tr_is_error r = Some True
      then r\<lparr>tr_output := append_to_output (tr_output r) reminder, tr_is_error := Some True\<rparr>
      else r\<lparr>tr_output := append_to_output (tr_output r) reminder\<rparr>)"

definition force_stop_result :: "tool_result \<Rightarrow> string \<Rightarrow> tool_result" where
  "force_stop_result r reminder = (append_reminder r reminder)\<lparr>tr_stop_turn := Some True\<rparr>"

definition dedup_placeholder :: tool_result where
  "dedup_placeholder = plain_result (OutText [])"

subsection \<open>State\<close>

datatype repeat_action = ActNone | ActR1 | ActR2 | ActR3 | ActStop

record dedup =
  dd_deferreds :: "(string \<times> nat) list"
  dd_heap :: "nat \<Rightarrow> tool_result option"
  dd_next :: nat
  dd_calls :: "string list"
  dd_original :: "(string \<times> nat) list"
  dd_synthetic :: "string list"
  dd_key_by_id :: "(string \<times> string) list"
  dd_consecutive_key :: "string option"
  dd_consecutive_count :: nat

definition dedup_init :: dedup where
  "dedup_init = \<lparr>dd_deferreds = [], dd_heap = (\<lambda>_. None), dd_next = 0, dd_calls = [],
     dd_original = [], dd_synthetic = [], dd_key_by_id = [], dd_consecutive_key = None,
     dd_consecutive_count = 0\<rparr>"

text \<open>Resolving a promise a second time does nothing.\<close>

definition resolve_deferred ::
  "nat \<Rightarrow> tool_result \<Rightarrow> (nat \<Rightarrow> tool_result option) \<Rightarrow> (nat \<Rightarrow> tool_result option)" where
  "resolve_deferred i v h = (if h i = None then h(i := Some v) else h)"

definition lost_result :: tool_result where
  "lost_result = error_result ''Tool call deduplicated but original result was lost''"

subsection \<open>Operations\<close>

definition begin_step :: "dedup \<Rightarrow> dedup" where
  "begin_step d = d\<lparr>
     dd_heap := fold (\<lambda>(k, i) h. resolve_deferred i lost_result h) (dd_deferreds d) (dd_heap d),
     dd_deferreds := [], dd_calls := [], dd_original := [], dd_synthetic := [], dd_key_by_id := []\<rparr>"

text \<open>One step of both streak loops, in \<open>endStep\<close> and in \<open>finalizeResult\<close>.\<close>

fun streak_step :: "string option \<times> nat \<Rightarrow> string \<Rightarrow> string option \<times> nat" where
  "streak_step (last_key, streak) k =
     (if Some k = last_key then (last_key, streak + 1) else (Some k, 1))"

definition end_step :: "dedup \<Rightarrow> dedup" where
  "end_step d =
     (let (k, n) = foldl streak_step (dd_consecutive_key d, dd_consecutive_count d) (dd_calls d)
      in d\<lparr>dd_consecutive_key := k, dd_consecutive_count := n\<rparr>)"

definition check_same_step ::
  "dedup \<Rightarrow> string \<Rightarrow> string \<Rightarrow> json option \<Rightarrow> dedup \<times> tool_result option" where
  "check_same_step d call_id tool_name args =
     (let key = make_key tool_name args;
          index = length (dd_calls d);
          d1 = d\<lparr>dd_calls := dd_calls d @ [key], dd_key_by_id := AList.update call_id key (dd_key_by_id d)\<rparr>
      in case map_of (dd_deferreds d1) key of
           Some i \<Rightarrow> (d1\<lparr>dd_synthetic := set_add call_id (dd_synthetic d1)\<rparr>, Some dedup_placeholder)
         | None \<Rightarrow>
             (d1\<lparr>dd_deferreds := AList.update key (dd_next d1) (dd_deferreds d1),
                 dd_next := Suc (dd_next d1),
                 dd_original := AList.update call_id index (dd_original d1)\<rparr>, None))"

datatype finalized = Done tool_result | Await nat

definition repeat_action_of :: "nat \<Rightarrow> repeat_action" where
  "repeat_action_of streak =
     (if streak \<ge> repeat_force_stop_streak then ActStop
      else if streak \<ge> repeat_reminder_3_start then ActR3
      else if streak \<ge> repeat_reminder_2_start then ActR2
      else if streak \<ge> repeat_reminder_1_start then ActR1
      else ActNone)"

fun apply_action ::
  "repeat_action \<Rightarrow> string \<Rightarrow> nat \<Rightarrow> json option \<Rightarrow> tool_result \<Rightarrow> tool_result" where
  "apply_action ActNone tool_name streak args r = r"
| "apply_action ActR1 tool_name streak args r = append_reminder r reminder_text_1"
| "apply_action ActR2 tool_name streak args r =
     append_reminder r (make_reminder_text_2 tool_name streak args)"
| "apply_action ActR3 tool_name streak args r = append_reminder r reminder_text_3"
| "apply_action ActStop tool_name streak args r = force_stop_result r reminder_text_3"

text \<open>
  \<open>finalizeResult\<close>: the new state, the result or the awaited deferred, and the telemetry
  event (streak and action) when one is sent.
\<close>

definition finalize_result ::
  "dedup \<Rightarrow> string \<Rightarrow> string \<Rightarrow> json option \<Rightarrow> tool_result \<Rightarrow>
   dedup \<times> finalized \<times> (nat \<times> repeat_action) option" where
  "finalize_result d call_id tool_name args result =
     (case map_of (dd_key_by_id d) call_id of
        None \<Rightarrow> (d, Done result, None)
      | Some key \<Rightarrow>
          (let d1 = d\<lparr>dd_key_by_id := AList.delete call_id (dd_key_by_id d)\<rparr>
           in if call_id \<in> set (dd_synthetic d1)
              then (let d2 = d1\<lparr>dd_synthetic := removeAll call_id (dd_synthetic d1)\<rparr>
                    in case map_of (dd_deferreds d2) key of
                         None \<Rightarrow> (d2, Done result, None)
                       | Some i \<Rightarrow> (d2, Await i, None))
              else case map_of (dd_original d1) call_id of
                     None \<Rightarrow> (d1, Done result, None)
                   | Some index \<Rightarrow>
                       (let d2 = d1\<lparr>dd_original := AList.delete call_id (dd_original d1)\<rparr>;
                            streak = snd (foldl streak_step (dd_consecutive_key d2, dd_consecutive_count d2)
                                            (take (Suc index) (dd_calls d2)));
                            action = repeat_action_of streak;
                            final = apply_action action tool_name streak args result;
                            heap = (case map_of (dd_deferreds d2) key of
                                      None \<Rightarrow> dd_heap d2
                                    | Some i \<Rightarrow> resolve_deferred i final (dd_heap d2))
                        in (d2\<lparr>dd_heap := heap\<rparr>, Done final,
                            if streak \<ge> 2 then Some (streak, action) else None))))"

subsection \<open>The streak counter\<close>

text \<open>The specification: the number of equal keys at the end of the call history of the turn.\<close>

definition trailing_run :: "string \<Rightarrow> string list \<Rightarrow> nat" where
  "trailing_run k xs = length (takeWhile (\<lambda>x. x = k) (rev xs))"

lemma trailing_run_snoc [simp]:
  "trailing_run k (xs @ [x]) = (if x = k then Suc (trailing_run k xs) else 0)"
  by (simp add: trailing_run_def)

lemma trailing_run_Nil [simp]: "trailing_run k [] = 0"
  by (simp add: trailing_run_def)

lemma trailing_run_other: "xs \<noteq> [] \<Longrightarrow> last xs \<noteq> k \<Longrightarrow> trailing_run k xs = 0"
  by (cases xs rule: rev_cases) auto

lemma streak_fold:
  "foldl streak_step (None, 0) xs =
     (if xs = [] then (None, 0) else (Some (last xs), trailing_run (last xs) xs))"
proof (induction xs rule: rev_induct)
  case (snoc x xs)
  then show ?case
    by (auto simp: trailing_run_other)
qed simp

text \<open>The detector remembers of the completed steps exactly the end of their history.\<close>

definition counts :: "dedup \<Rightarrow> string list \<Rightarrow> bool" where
  "counts d hist \<longleftrightarrow>
     (dd_consecutive_key d, dd_consecutive_count d) = foldl streak_step (None, 0) hist"

lemma counts_init: "counts dedup_init []"
  by (simp add: counts_def dedup_init_def)

lemma counts_end_step: "counts d hist \<Longrightarrow> counts (end_step d) (hist @ dd_calls d)"
  by (simp add: counts_def end_step_def split: prod.splits)

lemma counts_begin_step [simp]: "counts (begin_step d) hist = counts d hist"
  by (simp add: counts_def begin_step_def)

lemma counts_check [simp]: "counts (fst (check_same_step d i n a)) hist = counts d hist"
  by (auto simp: counts_def check_same_step_def Let_def split: option.splits)

lemma streak_of_counts:
  assumes "counts d hist" and "i < length ks"
  shows "snd (foldl streak_step (dd_consecutive_key d, dd_consecutive_count d) (take (Suc i) ks)) =
         trailing_run (ks ! i) (hist @ take (Suc i) ks)"
proof -
  have "foldl streak_step (dd_consecutive_key d, dd_consecutive_count d) (take (Suc i) ks) =
        foldl streak_step (None, 0) (hist @ take (Suc i) ks)"
    using assms(1) by (simp add: counts_def)
  also have "snd \<dots> = trailing_run (ks ! i) (hist @ take (Suc i) ks)"
  proof -
    have xs: "hist @ take (Suc i) ks = (hist @ take i ks) @ [ks ! i]"
      using assms(2) by (simp add: take_Suc_conv_app_nth)
    show ?thesis
      unfolding xs streak_fold by (simp only: last_snoc snoc_eq_iff_butlast snd_conv if_False simp_thms)
  qed
  finally show ?thesis .
qed

subsection \<open>A step of the loop\<close>

text \<open>
  How the loop drives the detector in one step: \<open>beginStep\<close>, \<open>checkSameStep\<close> for each call in
  provider order, \<open>finalizeResult\<close> for each in the same order, \<open>endStep\<close>.
\<close>

record dedup_call =
  dc_id :: string
  dc_name :: string
  dc_args :: "json option"
  dc_raw :: tool_result

definition call_key :: "dedup_call \<Rightarrow> string" where
  "call_key c = make_key (dc_name c) (dc_args c)"

definition check_calls :: "dedup \<Rightarrow> dedup_call list \<Rightarrow> dedup" where
  "check_calls d cs = foldl (\<lambda>d c. fst (check_same_step d (dc_id c) (dc_name c) (dc_args c))) d cs"

fun finalize_calls :: "dedup \<Rightarrow> dedup_call list \<Rightarrow> dedup \<times> finalized list" where
  "finalize_calls d [] = (d, [])"
| "finalize_calls d (c # cs) =
     (let (d1, out, _) = finalize_result d (dc_id c) (dc_name c) (dc_args c) (dc_raw c);
          (d2, outs) = finalize_calls d1 cs
      in (d2, out # outs))"

definition dedup_step :: "dedup \<Rightarrow> dedup_call list \<Rightarrow> dedup \<times> finalized list" where
  "dedup_step d cs =
     (let (d2, outs) = finalize_calls (check_calls (begin_step d) cs) cs
      in (end_step d2, outs))"

fun value_of :: "dedup \<Rightarrow> finalized \<Rightarrow> tool_result option" where
  "value_of d (Done r) = Some r"
| "value_of d (Await i) = dd_heap d i"

text \<open>The specification of call \<open>i\<close>: the first call with its key, with the reminder its streak asks for.\<close>

definition first_index :: "string list \<Rightarrow> nat \<Rightarrow> nat" where
  "first_index ks i = length (takeWhile (\<lambda>k. k \<noteq> ks ! i) ks)"

definition expected_result :: "string list \<Rightarrow> dedup_call list \<Rightarrow> nat \<Rightarrow> tool_result" where
  "expected_result hist cs i =
     (let ks = map call_key cs; j = first_index ks i; c = cs ! j;
          streak = trailing_run (ks ! j) (hist @ take (Suc j) ks)
      in apply_action (repeat_action_of streak) (dc_name c) streak (dc_args c) (dc_raw c))"

lemma first_index_props:
  assumes "i < length ks"
  shows "first_index ks i \<le> i" and "first_index ks i < length ks"
    and "ks ! first_index ks i = ks ! i" and "ks ! i \<notin> set (take (first_index ks i) ks)"
proof -
  let ?p = "\<lambda>k. k \<noteq> ks ! i"
  have lt: "length (takeWhile ?p ks) < length ks"
  proof (rule ccontr)
    assume "\<not> length (takeWhile ?p ks) < length ks"
    then have "takeWhile ?p ks = ks"
      by (subst takeWhile_eq_take) simp
    then have "\<forall>k \<in> set ks. ?p k"
      by (simp add: takeWhile_eq_all_conv)
    with assms show False
      by auto
  qed
  then show "first_index ks i < length ks"
    by (simp add: first_index_def)
  show "ks ! first_index ks i = ks ! i"
    using nth_length_takeWhile [OF lt] by (simp add: first_index_def)
  show "ks ! i \<notin> set (take (first_index ks i) ks)"
    by (auto simp: first_index_def takeWhile_eq_take [symmetric] dest: set_takeWhileD)
  show "first_index ks i \<le> i"
  proof (rule ccontr)
    assume "\<not> first_index ks i \<le> i"
    then have "ks ! i \<in> set (take (first_index ks i) ks)"
      using assms by (auto simp: in_set_conv_nth)
    with \<open>ks ! i \<notin> set (take (first_index ks i) ks)\<close> show False
      by simp
  qed
qed

lemma first_index_new: "i < length ks \<Longrightarrow> ks ! i \<notin> set (take i ks) \<Longrightarrow> first_index ks i = i"
proof (rule ccontr)
  assume i: "i < length ks" and new: "ks ! i \<notin> set (take i ks)" and "first_index ks i \<noteq> i"
  then have "first_index ks i < i"
    using first_index_props(1) [OF i] by simp
  then have "ks ! first_index ks i \<in> set (take i ks)"
    using i by (auto simp: in_set_conv_nth)
  with new first_index_props(3) [OF i] show False
    by simp
qed

lemma expected_result_same:
  assumes "i < length cs" and "j < length cs" and "call_key (cs ! i) = call_key (cs ! j)"
  shows "expected_result hist cs i = expected_result hist cs j"
  using assms by (simp add: expected_result_def first_index_def)

text \<open>The registration phase: what the maps hold after the calls \<open>cs\<close> were checked.\<close>

definition registered :: "dedup \<Rightarrow> dedup_call list \<Rightarrow> bool" where
  "registered d cs \<longleftrightarrow>
     (let ks = map call_key cs
      in dd_calls d = ks
       \<and> (\<forall>i < length cs. map_of (dd_key_by_id d) (dc_id (cs ! i)) = Some (ks ! i)
            \<and> (dc_id (cs ! i) \<in> set (dd_synthetic d) \<longleftrightarrow> ks ! i \<in> set (take i ks))
            \<and> (ks ! i \<notin> set (take i ks) \<longrightarrow> map_of (dd_original d) (dc_id (cs ! i)) = Some i))
       \<and> set (dd_synthetic d) \<subseteq> dc_id ` set cs)"

text \<open>Each key of the step has a deferred of its own, still pending.\<close>

definition cells_for :: "dedup \<Rightarrow> string list \<Rightarrow> bool" where
  "cells_for d ks \<longleftrightarrow>
     dom (map_of (dd_deferreds d)) = set ks
   \<and> inj_on (map_of (dd_deferreds d)) (set ks)
   \<and> (\<forall>k i. map_of (dd_deferreds d) k = Some i \<longrightarrow> i < dd_next d \<and> dd_heap d i = None)"

definition heap_fresh :: "dedup \<Rightarrow> bool" where
  "heap_fresh d \<longleftrightarrow> (\<forall>i \<ge> dd_next d. dd_heap d i = None)"

lemma heap_fresh_init: "heap_fresh dedup_init"
  by (simp add: heap_fresh_def dedup_init_def)

text \<open>Cells are only ever numbered below \<open>dd_next\<close>.\<close>

definition cells_numbered :: "dedup \<Rightarrow> bool" where
  "cells_numbered d \<longleftrightarrow> (\<forall>(k, i) \<in> set (dd_deferreds d). i < dd_next d)"

lemma fold_resolve_other:
  "i \<notin> snd ` set xs \<Longrightarrow> fold (\<lambda>(k, j) h. resolve_deferred j v h) xs h i = h i"
  by (induction xs arbitrary: h) (auto simp: resolve_deferred_def)

lemma heap_fresh_begin:
  assumes "heap_fresh d" and "cells_numbered d"
  shows "heap_fresh (begin_step d)"
  unfolding heap_fresh_def
proof (intro allI impI)
  fix i
  assume i: "dd_next (begin_step d) \<le> i"
  then have "i \<notin> snd ` set (dd_deferreds d)"
    using assms(2) by (fastforce simp: cells_numbered_def begin_step_def)
  then show "dd_heap (begin_step d) i = None"
    using assms(1) i by (simp add: begin_step_def fold_resolve_other heap_fresh_def)
qed

lemma cells_numbered_check:
  "cells_numbered d \<Longrightarrow> cells_numbered (fst (check_same_step d i n a))"
  by (fastforce simp: cells_numbered_def check_same_step_def Let_def split: option.splits
      dest: subsetD [OF set_AList_update])

lemma registered_call:
  assumes "registered d cs" and "i < length cs"
  shows "map_of (dd_key_by_id d) (dc_id (cs ! i)) = Some (call_key (cs ! i))"
    and "dc_id (cs ! i) \<in> set (dd_synthetic d) \<longleftrightarrow> call_key (cs ! i) \<in> set (take i (map call_key cs))"
    and "call_key (cs ! i) \<notin> set (take i (map call_key cs)) \<Longrightarrow>
         map_of (dd_original d) (dc_id (cs ! i)) = Some i"
  using assms by (simp_all add: registered_def Let_def)

lemma check_cells:
  assumes "cells_for d ks" and "heap_fresh d"
  shows "cells_for (fst (check_same_step d i n a)) (ks @ [make_key n a])"
    and "heap_fresh (fst (check_same_step d i n a))"
proof -
  let ?k = "make_key n a"
  show "heap_fresh (fst (check_same_step d i n a))"
    using assms(2) by (auto simp: heap_fresh_def check_same_step_def Let_def split: option.splits)
  show "cells_for (fst (check_same_step d i n a)) (ks @ [?k])"
  proof (cases "map_of (dd_deferreds d) ?k")
    case None
    have "inj_on ((map_of (dd_deferreds d))(?k \<mapsto> dd_next d)) (insert ?k (set ks))"
    proof (rule inj_onI)
      fix x y
      assume *: "x \<in> insert ?k (set ks)" "y \<in> insert ?k (set ks)"
        "((map_of (dd_deferreds d))(?k \<mapsto> dd_next d)) x = ((map_of (dd_deferreds d))(?k \<mapsto> dd_next d)) y"
      have "map_of (dd_deferreds d) z \<noteq> Some (dd_next d)" for z
        using assms(1) by (auto simp: cells_for_def)
      then show "x = y"
        using * assms(1) by (auto simp: cells_for_def inj_on_def split: if_splits)
    qed
    with None assms show ?thesis
      by (auto simp: cells_for_def check_same_step_def Let_def update_conv' heap_fresh_def
          less_Suc_eq split: if_splits)
  next
    case (Some j)
    then have "?k \<in> set ks"
      using assms(1) by (metis cells_for_def domI)
    with Some assms show ?thesis
      by (simp add: cells_for_def check_same_step_def Let_def insert_absorb)
  qed
qed

lemma check_registered:
  assumes reg: "registered d cs" and new: "dc_id c \<notin> dc_id ` set cs"
    and dom: "dom (map_of (dd_deferreds d)) = set (map call_key cs)"
  shows "registered (fst (check_same_step d (dc_id c) (dc_name c) (dc_args c))) (cs @ [c])"
proof -
  let ?ks = "map call_key cs" and ?k = "call_key c" and ?id = "dc_id c"
  let ?d = "fst (check_same_step d (dc_id c) (dc_name c) (dc_args c))"
  have key: "make_key (dc_name c) (dc_args c) = ?k"
    by (simp add: call_key_def)
  have calls: "dd_calls d = ?ks" and syn: "set (dd_synthetic d) \<subseteq> dc_id ` set cs"
    using reg by (auto simp: registered_def Let_def)
  have nsyn: "?id \<notin> set (dd_synthetic d)"
    using syn new by auto
  have syn': "(map_of (dd_deferreds d) ?k = None) = (?k \<notin> set ?ks)"
    using dom by (auto simp: domIff)
  have old: "map_of (dd_key_by_id ?d) (dc_id (cs ! i)) = Some (call_key (cs ! i))
      \<and> (dc_id (cs ! i) \<in> set (dd_synthetic ?d) \<longleftrightarrow> call_key (cs ! i) \<in> set (take i ?ks))
      \<and> (call_key (cs ! i) \<notin> set (take i ?ks) \<longrightarrow> map_of (dd_original ?d) (dc_id (cs ! i)) = Some i)"
    if i: "i < length cs" for i
  proof -
    have "dc_id (cs ! i) \<noteq> ?id"
      using new i by (metis imageI nth_mem)
    then show ?thesis
      using registered_call [OF reg i]
      by (auto simp: check_same_step_def Let_def update_conv' split: option.splits)
  qed
  have new_call: "map_of (dd_key_by_id ?d) ?id = Some ?k
      \<and> (?id \<in> set (dd_synthetic ?d) \<longleftrightarrow> ?k \<in> set ?ks)
      \<and> (?k \<notin> set ?ks \<longrightarrow> map_of (dd_original ?d) ?id = Some (length cs))"
    using nsyn syn' calls
    by (auto simp: check_same_step_def Let_def key update_conv' split: option.splits)
  have "set (dd_synthetic ?d) \<subseteq> dc_id ` set (cs @ [c])" "dd_calls ?d = ?ks @ [?k]"
    using syn calls by (auto simp: check_same_step_def Let_def key split: option.splits)
  with old new_call show ?thesis
    by (auto simp: registered_def Let_def nth_append less_Suc_eq)
qed

lemma check_calls_registered:
  assumes "heap_fresh d" and "cells_numbered d" and "distinct (map dc_id cs)"
  shows "registered (check_calls (begin_step d) cs) cs
    \<and> cells_for (check_calls (begin_step d) cs) (map call_key cs)
    \<and> heap_fresh (check_calls (begin_step d) cs) \<and> cells_numbered (check_calls (begin_step d) cs)
    \<and> (counts (check_calls (begin_step d) cs) hist \<longleftrightarrow> counts d hist)"
  using assms(3)
proof (induction cs rule: rev_induct)
  case Nil
  have "heap_fresh (begin_step d)"
    using assms(1,2) by (rule heap_fresh_begin)
  then show ?case
    by (simp add: check_calls_def registered_def cells_for_def cells_numbered_def begin_step_def counts_def)
next
  case (snoc c cs)
  let ?d = "check_calls (begin_step d) cs"
  have step: "check_calls (begin_step d) (cs @ [c]) =
      fst (check_same_step ?d (dc_id c) (dc_name c) (dc_args c))"
    by (simp add: check_calls_def)
  have IH: "registered ?d cs" "cells_for ?d (map call_key cs)" "heap_fresh ?d"
      "counts ?d hist \<longleftrightarrow> counts d hist"
      "cells_numbered ?d"
    using snoc by auto
  then show ?case
    using snoc.prems check_registered [OF IH(1), of c] check_cells [OF IH(2,3)] cells_numbered_check [OF IH(5)]
    unfolding step by (auto simp: cells_for_def call_key_def)
qed

text \<open>The finalisation phase, after the first \<open>n\<close> calls.\<close>

definition finalizing :: "dedup \<Rightarrow> string list \<Rightarrow> dedup_call list \<Rightarrow> nat \<Rightarrow> bool" where
  "finalizing d hist cs n \<longleftrightarrow>
     (let ks = map call_key cs
      in dd_calls d = ks \<and> counts d hist
       \<and> (\<forall>i < length cs. n \<le> i \<longrightarrow>
              map_of (dd_key_by_id d) (dc_id (cs ! i)) = Some (ks ! i)
            \<and> (dc_id (cs ! i) \<in> set (dd_synthetic d) \<longleftrightarrow> ks ! i \<in> set (take i ks))
            \<and> (ks ! i \<notin> set (take i ks) \<longrightarrow> map_of (dd_original d) (dc_id (cs ! i)) = Some i))
       \<and> inj_on (map_of (dd_deferreds d)) (set ks)
       \<and> (\<forall>i < length cs. \<exists>c. map_of (dd_deferreds d) (ks ! i) = Some c
            \<and> dd_heap d c = (if ks ! i \<in> set (take n ks) then Some (expected_result hist cs i) else None)))"

lemma finalizing_start:
  assumes "registered d cs" and "cells_for d (map call_key cs)" and "counts d hist"
  shows "finalizing d hist cs 0"
proof -
  have "\<exists>c. map_of (dd_deferreds d) (call_key (cs ! i)) = Some c \<and> dd_heap d c = None"
    if "i < length cs" for i
  proof -
    have "call_key (cs ! i) \<in> dom (map_of (dd_deferreds d))"
      using assms(2) that by (simp add: cells_for_def)
    then obtain c where "map_of (dd_deferreds d) (call_key (cs ! i)) = Some c"
      by blast
    then show ?thesis
      using assms(2) by (auto simp: cells_for_def)
  qed
  then show ?thesis
    using assms registered_call [OF assms(1)]
    by (auto simp: finalizing_def Let_def registered_def cells_for_def)
qed

lemma take_Suc_keys: "n < length cs \<Longrightarrow>
    set (take (Suc n) (map call_key cs)) = insert (call_key (cs ! n)) (set (take n (map call_key cs)))"
  by (simp add: take_Suc_conv_app_nth)

lemma finalize_one:
  assumes fin: "finalizing d hist cs n" and n: "n < length cs" and ids: "distinct (map dc_id cs)"
    and res: "finalize_result d (dc_id (cs ! n)) (dc_name (cs ! n)) (dc_args (cs ! n)) (dc_raw (cs ! n)) = (d', out, t)"
  shows "finalizing d' hist cs (Suc n) \<and> dd_deferreds d' = dd_deferreds d
    \<and> (out = Done (expected_result hist cs n)
       \<or> (\<exists>c. out = Await c \<and> map_of (dd_deferreds d) (call_key (cs ! n)) = Some c))"
proof -
  let ?ks = "map call_key cs" and ?c = "cs ! n"
  have kn: "map_of (dd_key_by_id d) (dc_id ?c) = Some (call_key ?c)"
    and sy: "dc_id ?c \<in> set (dd_synthetic d) \<longleftrightarrow> call_key ?c \<in> set (take n ?ks)"
    and og: "call_key ?c \<notin> set (take n ?ks) \<Longrightarrow> map_of (dd_original d) (dc_id ?c) = Some n"
    and ca: "dd_calls d = ?ks" and co: "counts d hist"
    and inj: "inj_on (map_of (dd_deferreds d)) (set ?ks)"
    using fin n by (auto simp: finalizing_def Let_def)
  have later: "dc_id (cs ! i) \<noteq> dc_id ?c" if "Suc n \<le> i" "i < length cs" for i
    using ids that n by (auto simp: distinct_conv_nth)
  obtain cell where cell: "map_of (dd_deferreds d) (call_key ?c) = Some cell"
    and heap: "dd_heap d cell = (if call_key ?c \<in> set (take n ?ks) then Some (expected_result hist cs n) else None)"
    using fin n by (auto simp: finalizing_def Let_def)
  show ?thesis
  proof (cases "call_key ?c \<in> set (take n ?ks)")
    case True
    then have d': "d' = d\<lparr>dd_key_by_id := AList.delete (dc_id ?c) (dd_key_by_id d),
        dd_synthetic := removeAll (dc_id ?c) (dd_synthetic d)\<rparr>" and out: "out = Await cell"
      using res kn sy cell by (auto simp: finalize_result_def Let_def)
    have "finalizing d' hist cs (Suc n)"
      using fin later True n unfolding d'
      by (auto simp: finalizing_def Let_def counts_def js_map_simps take_Suc_keys insert_absorb)
    then show ?thesis
      using cell by (simp add: d' out)
  next
    case False
    let ?streak = "trailing_run (call_key ?c) (hist @ take (Suc n) ?ks)"
    have fi: "first_index ?ks n = n"
      using False n by (intro first_index_new) auto
    have ex: "expected_result hist cs n =
        apply_action (repeat_action_of ?streak) (dc_name ?c) ?streak (dc_args ?c) (dc_raw ?c)"
      using n by (simp add: expected_result_def Let_def fi)
    have st: "snd (foldl streak_step (dd_consecutive_key d, dd_consecutive_count d) (take (Suc n) (dd_calls d))) = ?streak"
      using streak_of_counts [OF co, of n ?ks] n by (simp add: ca)
    have d': "d' = d\<lparr>dd_key_by_id := AList.delete (dc_id ?c) (dd_key_by_id d),
        dd_original := AList.delete (dc_id ?c) (dd_original d),
        dd_heap := (dd_heap d)(cell := Some (expected_result hist cs n))\<rparr>"
      and out: "out = Done (expected_result hist cs n)"
      using res kn sy og [OF False] False cell heap st ex
      by (auto simp: finalize_result_def Let_def resolve_deferred_def)
    have cells: "\<exists>c. map_of (dd_deferreds d) (call_key (cs ! i)) = Some c
        \<and> ((dd_heap d)(cell := Some (expected_result hist cs n))) c =
           (if call_key (cs ! i) \<in> set (take (Suc n) ?ks) then Some (expected_result hist cs i) else None)"
      if i: "i < length cs" for i
    proof (cases "call_key (cs ! i) = call_key ?c")
      case True
      then show ?thesis
        using cell n expected_result_same [OF i n True, of hist] by (simp add: take_Suc_keys)
    next
      case neq: False
      obtain ci where ci: "map_of (dd_deferreds d) (call_key (cs ! i)) = Some ci"
        "dd_heap d ci = (if call_key (cs ! i) \<in> set (take n ?ks) then Some (expected_result hist cs i) else None)"
        using fin i by (auto simp: finalizing_def Let_def)
      have "ci \<noteq> cell"
      proof
        assume "ci = cell"
        then have "call_key (cs ! i) = call_key ?c"
          using inj_onD [OF inj, of "call_key (cs ! i)" "call_key ?c"] ci(1) cell i n by simp
        with neq show False ..
      qed
      with ci neq n show ?thesis
        by (simp add: take_Suc_keys)
    qed
    have "finalizing d' hist cs (Suc n)"
      using fin later cells unfolding d'
      by (auto simp: finalizing_def Let_def counts_def js_map_simps)
    then show ?thesis
      by (simp add: d' out)
  qed
qed

lemma finalize_calls_spec:
  assumes "finalizing d hist cs n" and "distinct (map dc_id cs)" and "n \<le> length cs"
    and "finalize_calls d (drop n cs) = (d', outs)"
  shows "finalizing d' hist cs (length cs) \<and> dd_deferreds d' = dd_deferreds d
    \<and> length outs = length cs - n
    \<and> (\<forall>i < length outs. value_of d' (outs ! i) = Some (expected_result hist cs (n + i)))"
  using assms
proof (induction "length cs - n" arbitrary: n d outs)
  case 0
  then show ?case
    by simp
next
  case (Suc m)
  then have n: "n < length cs" and dr: "drop n cs = cs ! n # drop (Suc n) cs"
    by (simp_all add: Cons_nth_drop_Suc)
  obtain d1 out t where r: "finalize_result d (dc_id (cs ! n)) (dc_name (cs ! n)) (dc_args (cs ! n))
      (dc_raw (cs ! n)) = (d1, out, t)"
    by (metis prod.exhaust)
  obtain outs1 where f: "finalize_calls d1 (drop (Suc n) cs) = (d', outs1)" and o: "outs = out # outs1"
    using Suc.prems(4) r by (auto simp: dr split: prod.splits)
  note one = finalize_one [OF Suc.prems(1) n Suc.prems(2) r]
  have ih: "finalizing d' hist cs (length cs) \<and> dd_deferreds d' = dd_deferreds d1
    \<and> length outs1 = length cs - Suc n
    \<and> (\<forall>i < length outs1. value_of d' (outs1 ! i) = Some (expected_result hist cs (Suc n + i)))"
    using Suc.hyps(2) n one Suc.prems(2) f by (intro Suc.hyps(1)) auto
  have "value_of d' out = Some (expected_result hist cs n)"
    using one ih n by (auto simp: finalizing_def Let_def)
  with ih one n show ?case
    by (auto simp: o nth_Cons split: nat.splits)
qed

lemma finalize_calls_frame:
  "finalize_calls d cs = (d', outs) \<Longrightarrow>
   dd_next d' = dd_next d \<and> dd_deferreds d' = dd_deferreds d
   \<and> (\<forall>i. i \<notin> ran (map_of (dd_deferreds d)) \<longrightarrow> dd_heap d' i = dd_heap d i)"
proof (induction cs arbitrary: d outs)
  case (Cons c cs)
  obtain d1 out t where r: "finalize_result d (dc_id c) (dc_name c) (dc_args c) (dc_raw c) = (d1, out, t)"
    by (metis prod.exhaust)
  obtain outs1 where f: "finalize_calls d1 cs = (d', outs1)"
    using Cons.prems r by (auto split: prod.splits)
  have "dd_next d1 = dd_next d \<and> dd_deferreds d1 = dd_deferreds d
     \<and> (\<forall>i. i \<notin> ran (map_of (dd_deferreds d)) \<longrightarrow> dd_heap d1 i = dd_heap d i)"
    using r by (auto simp: finalize_result_def Let_def resolve_deferred_def ranI
        split: option.splits if_splits)
  with Cons.IH [OF f] show ?case
    by simp
qed simp

text \<open>The state between two steps.\<close>

definition dedup_inv :: "dedup \<Rightarrow> string list \<Rightarrow> bool" where
  "dedup_inv d hist \<longleftrightarrow> counts d hist \<and> heap_fresh d \<and> cells_numbered d"

lemma cells_numbered_init: "cells_numbered dedup_init"
  by (simp add: cells_numbered_def dedup_init_def)

lemma dedup_inv_init: "dedup_inv dedup_init []"
  by (simp add: dedup_inv_def counts_init heap_fresh_init cells_numbered_init)

lemma end_step_frame [simp]:
  "dd_heap (end_step d) = dd_heap d" "dd_next (end_step d) = dd_next d"
  "dd_deferreds (end_step d) = dd_deferreds d"
  by (simp_all add: end_step_def split: prod.splits)

lemma dedup_step_spec:
  assumes inv: "dedup_inv d hist" and ids: "distinct (map dc_id cs)"
    and step: "dedup_step d cs = (d', outs)"
  shows "dedup_inv d' (hist @ map call_key cs) \<and> length outs = length cs
    \<and> (\<forall>i < length cs. value_of d' (outs ! i) = Some (expected_result hist cs i))"
proof -
  let ?d0 = "check_calls (begin_step d) cs"
  have reg: "registered ?d0 cs" "cells_for ?d0 (map call_key cs)" "heap_fresh ?d0"
    "cells_numbered ?d0" "counts ?d0 hist"
    using inv check_calls_registered [of d cs hist] ids by (auto simp: dedup_inv_def)
  obtain d2 where fin: "finalize_calls ?d0 (drop 0 cs) = (d2, outs)" and d': "d' = end_step d2"
    using step by (auto simp: dedup_step_def split: prod.splits)
  have spec: "finalizing d2 hist cs (length cs)" "length outs = length cs"
    "\<forall>i < length outs. value_of d2 (outs ! i) = Some (expected_result hist cs i)"
    using finalize_calls_spec [OF finalizing_start [OF reg(1,2,5)] ids _ fin] by auto
  have frame: "dd_next d2 = dd_next ?d0" "dd_deferreds d2 = dd_deferreds ?d0"
    "\<And>i. i \<notin> ran (map_of (dd_deferreds ?d0)) \<Longrightarrow> dd_heap d2 i = dd_heap ?d0 i"
    using finalize_calls_frame [of ?d0 cs d2 outs] fin by auto
  have "dd_heap d2 i = None" if i: "dd_next d2 \<le> i" for i
  proof -
    have "i \<notin> ran (map_of (dd_deferreds ?d0))"
      using reg(2) frame(1) i by (force simp: cells_for_def ran_def)
    then show ?thesis
      using reg(3) frame i by (simp add: heap_fresh_def)
  qed
  then have "heap_fresh d'" "cells_numbered d'"
    using reg(4) frame by (simp_all add: heap_fresh_def cells_numbered_def d')
  moreover have "counts d2 hist" "dd_calls d2 = map call_key cs"
    using spec(1) by (auto simp: finalizing_def Let_def)
  then have "counts d' (hist @ map call_key cs)"
    using counts_end_step [of d2 hist] by (simp add: d')
  moreover have "value_of d' o' = value_of d2 o'" for o'
    by (cases o') (simp_all add: d')
  ultimately show ?thesis
    using spec(2,3) by (simp add: dedup_inv_def)
qed

text \<open>A turn is a list of steps.\<close>

fun dedup_turn :: "dedup \<Rightarrow> dedup_call list list \<Rightarrow> dedup" where
  "dedup_turn d [] = d"
| "dedup_turn d (cs # css) = dedup_turn (fst (dedup_step d cs)) css"

lemma dedup_turn_inv:
  "dedup_inv d hist \<Longrightarrow> \<forall>cs \<in> set css. distinct (map dc_id cs) \<Longrightarrow>
   dedup_inv (dedup_turn d css) (hist @ concat (map (map call_key) css))"
proof (induction css arbitrary: d hist)
  case (Cons cs css)
  obtain d1 outs where s: "dedup_step d cs = (d1, outs)"
    by fastforce
  have "dedup_inv d1 (hist @ map call_key cs)"
    using dedup_step_spec [OF Cons.prems(1) _ s] Cons.prems(2) by simp
  then show ?case
    using Cons.IH [of d1 "hist @ map call_key cs"] Cons.prems(2) by (simp add: s)
qed simp

subsection \<open>Properties\<close>

text \<open>
  C29: the detector, as the loop drives it through a whole turn. In every step, each call
  gets the result of the first call of that step with the same tool and arguments, and
  that result carries the reminder for the number of consecutive identical calls in the
  whole turn up to it: none below 3, the three escalating texts from 3, 5 and 8, and from
  12 on a stop of the turn.
\<close>

theorem dedup_turn_results:
  assumes "\<forall>cs \<in> set before. distinct (map dc_id cs)" and "distinct (map dc_id cs)"
    and "dedup_step (dedup_turn dedup_init before) cs = (d', outs)" and "i < length cs"
  shows "value_of d' (outs ! i) =
    Some (expected_result (concat (map (map call_key) before)) cs i)"
proof -
  have "dedup_inv (dedup_turn dedup_init before) (concat (map (map call_key) before))"
    using dedup_turn_inv [OF dedup_inv_init assms(1)] by simp
  then show ?thesis
    using dedup_step_spec [OF _ assms(2,3)] assms(4) by simp
qed

lemma append_reminder_flags [simp]:
  "tr_is_error (append_reminder r x) = tr_is_error r"
  "tr_stop_turn (append_reminder r x) = tr_stop_turn r"
  by (simp_all add: append_reminder_def)

text \<open>
  A reminder changes what a result says, never whether it failed; and it stops the
  turn exactly from the twelfth consecutive repetition on, unless the tool itself did.
\<close>

theorem repeat_action_effect:
  "tr_is_error (apply_action (repeat_action_of n) name n args r) = tr_is_error r
   \<and> (tr_stop_turn (apply_action (repeat_action_of n) name n args r) =
       (if n \<ge> 12 then Some True else tr_stop_turn r))
   \<and> (n < 3 \<longleftrightarrow> repeat_action_of n = ActNone)"
  by (simp add: repeat_action_of_def thresholds force_stop_result_def)

definition sample_dedup_call :: "string \<Rightarrow> string \<Rightarrow> dedup_call" where
  "sample_dedup_call i out = \<lparr>dc_id = i, dc_name = ''Read'', dc_args = Some (JObj [(''path'', JStr ''a'')]),
     dc_raw = plain_result (OutText out)\<rparr>"

theorem dedup_turn_results_witness:
  "value_of (fst (dedup_step (dedup_turn dedup_init [[sample_dedup_call ''1'' ''x''], [sample_dedup_call ''2'' ''y'']])
       [sample_dedup_call ''3'' ''z'', sample_dedup_call ''4'' ''w'']))
     (snd (dedup_step (dedup_turn dedup_init [[sample_dedup_call ''1'' ''x''], [sample_dedup_call ''2'' ''y'']])
       [sample_dedup_call ''3'' ''z'', sample_dedup_call ''4'' ''w'']) ! 1) =
   Some (append_reminder (plain_result (OutText ''z'')) reminder_text_1)"
proof -
  let ?b = "[[sample_dedup_call ''1'' ''x''], [sample_dedup_call ''2'' ''y'']]"
  let ?cs = "[sample_dedup_call ''3'' ''z'', sample_dedup_call ''4'' ''w'']"
  have k: "call_key (sample_dedup_call i x) = call_key (sample_dedup_call j y)" for i j x y
    by (simp add: call_key_def sample_dedup_call_def)
  have "value_of (fst (dedup_step (dedup_turn dedup_init ?b) ?cs))
      (snd (dedup_step (dedup_turn dedup_init ?b) ?cs) ! 1) =
      Some (expected_result (concat (map (map call_key) ?b)) ?cs 1)"
    by (rule dedup_turn_results) (simp_all add: sample_dedup_call_def)
  also have "expected_result (concat (map (map call_key) ?b)) ?cs 1 =
      append_reminder (plain_result (OutText ''z'')) reminder_text_1"
    by (simp add: expected_result_def Let_def first_index_def k [of "''2''" "''y''" "''1''" "''x''"]
        k [of "''3''" "''z''" "''1''" "''x''"] k [of "''4''" "''w''" "''1''" "''x''"]
        trailing_run_def repeat_action_of_def thresholds)
       (simp add: sample_dedup_call_def)
  finally show ?thesis .
qed

end
