(* ===== verification/Permission_Rules.thy ===== *)
theory Permission_Rules
  imports Tool_Access
begin

text \<open>
  Permission rules and their patterns (\<open>agent/permission/types.ts\<close>,
  \<open>agent/permission/matches-rule.ts\<close>). A pattern is \<open>ToolName\<close> or \<open>ToolName(arguments)\<close>;
  glob matching of the tool name is the npm package \<open>picomatch\<close>, the argument \<open>is_match\<close>; the
  argument pattern is interpreted by the matcher that the tool execution provides.
\<close>

subsection \<open>Types\<close>

datatype permission_mode = Mode_Manual | Mode_Yolo | Mode_Auto

datatype rule_decision = Rule_Allow | Rule_Deny | Rule_Ask

datatype rule_scope = Turn_Override | Session_Runtime | Scope_Project | Scope_User

record permission_rule =
  rl_decision :: rule_decision
  rl_scope :: rule_scope
  rl_pattern :: string
  rl_reason :: "string option"

datatype match_strategy = Tool_Name_Only | Matches_Rule

record rule_match =
  rm_rule :: permission_rule
  rm_strategy :: match_strategy
  rm_has_args :: bool

type_synonym rule_matcher = "(string \<Rightarrow> bool) option"

record parsed_pattern =
  pp_tool :: string
  pp_args :: "string option"

subsection \<open>Patterns\<close>

definition quoted_pattern :: "string \<Rightarrow> string" where
  "quoted_pattern s = [CHR 0x22] @ s @ [CHR 0x22]"

definition parse_pattern :: "string \<Rightarrow> string + parsed_pattern" where
  "parse_pattern pattern =
     (let trimmed = js_trim pattern in
      if length trimmed = 0 then Inl ''permission pattern: empty string''
      else case index_of (CHR ''('') trimmed of
        None \<Rightarrow> Inr \<lparr>pp_tool = trimmed, pp_args = None\<rparr>
      | Some i \<Rightarrow>
          if \<not> ends_with trimmed '')''
          then Inl (''permission pattern: missing closing paren in '' @ quoted_pattern pattern)
          else
            let tool = take i trimmed; args = butlast (drop (i + 1) trimmed) in
            if length tool = 0
            then Inl (''permission pattern: empty tool name in '' @ quoted_pattern pattern)
            else if length args = 0 then Inr \<lparr>pp_tool = tool, pp_args = None\<rparr>
            else Inr \<lparr>pp_tool = tool, pp_args = Some args\<rparr>)"

definition match_rule ::
  "(string \<Rightarrow> string \<Rightarrow> bool) \<Rightarrow> permission_rule \<Rightarrow> string \<Rightarrow> rule_matcher \<Rightarrow> rule_match option" where
  "match_rule is_match rule tool matches =
     (case parse_pattern (rl_pattern rule) of
        Inl _ \<Rightarrow> None
      | Inr parsed \<Rightarrow>
          if pp_tool parsed \<noteq> ''*'' \<and> \<not> is_match tool (pp_tool parsed) then None
          else case pp_args parsed of
            None \<Rightarrow> Some \<lparr>rm_rule = rule, rm_strategy = Tool_Name_Only, rm_has_args = False\<rparr>
          | Some args \<Rightarrow>
              (case matches of
                 None \<Rightarrow> None
               | Some f \<Rightarrow>
                   if f args then Some \<lparr>rm_rule = rule, rm_strategy = Matches_Rule, rm_has_args = True\<rparr>
                   else None))"

subsection \<open>Rules built by tools\<close>

text \<open>\<open>tools/support/rule-match.ts\<close>: a session approval is stored as a literal pattern.\<close>

definition glob_special :: "char \<Rightarrow> bool" where
  "glob_special c = (c \<in> set (CHR 0x5C # ''*?[]{}()!+@|''))"

definition escape_rule_subject :: "string \<Rightarrow> string" where
  "escape_rule_subject s = concat (map (\<lambda>c. if glob_special c then [CHR 0x5C, c] else [c]) s)"

definition literal_rule_pattern :: "string \<Rightarrow> string \<Rightarrow> string" where
  "literal_rule_pattern tool subj = tool @ ''('' @ escape_rule_subject subj @ '')''"

text \<open>\<open>matchRuleSubjects\<close> with the positive matcher \<open>hit\<close>; a leading exclamation mark negates.\<close>

definition match_rule_subjects :: "(string \<Rightarrow> string \<Rightarrow> bool) \<Rightarrow> string \<Rightarrow> string list \<Rightarrow> bool" where
  "match_rule_subjects hit args subjects =
     (if length args = 0 then True
      else let negated = starts_with args ''!'';
               positive = (if negated then drop 1 args else args);
               h = list_ex (\<lambda>subj. hit positive subj) subjects
           in if negated then \<not> h else h)"

subsection \<open>What parsing gives back\<close>

lemma index_of_append: "c \<notin> set xs \<Longrightarrow> index_of c (xs @ c # ys) = Some (length xs)"
  by (induction xs) auto

lemma close_paren_not_space: "\<not> is_js_space (CHR '')'')"
  by code_simp

lemma parse_call_pattern:
  assumes "tool \<noteq> []" "\<not> is_js_space (hd tool)" "CHR ''('' \<notin> set tool"
  shows "parse_pattern (tool @ ''('' @ args @ '')'') =
    Inr \<lparr>pp_tool = tool, pp_args = (if args = [] then None else Some args)\<rparr>"
proof -
  have trimmed: "js_trim (tool @ ''('' @ args @ '')'') = tool @ ''('' @ args @ '')''"
    using assms(1,2) by (intro js_trim_id) (simp add: close_paren_not_space)
  have idx: "index_of (CHR ''('') (tool @ ''('' @ args @ '')'') = Some (length tool)"
    using index_of_append [OF assms(3), of "args @ '')''"] by simp
  have ends: "ends_with (tool @ ''('' @ args @ '')'') '')''"
    by (simp add: suffix_def)
  show ?thesis
    unfolding parse_pattern_def trimmed Let_def idx option.case using assms(1) ends by simp
qed

lemma parse_bare_pattern:
  assumes "tool \<noteq> []" "\<not> is_js_space (hd tool)" "\<not> is_js_space (last tool)" "CHR ''('' \<notin> set tool"
  shows "parse_pattern tool = Inr \<lparr>pp_tool = tool, pp_args = None\<rparr>"
  using assms by (simp add: parse_pattern_def js_trim_id index_of_None [THEN iffD2])

text \<open>
  The rule a tool builds for \<^emph>\<open>approve for this session\<close> is read back as it was written.
  For any subject and any tool name without an opening parenthesis and without surrounding
  white space, parsing the literal pattern gives the tool name and the escaped subject, or
  no argument pattern when the subject is empty; and the escaped subject is never taken for a
  negated pattern, so it matches what the glob matcher says it matches.
\<close>

theorem literal_pattern_roundtrip:
  assumes "tool \<noteq> []" and "\<not> is_js_space (hd tool)" and "CHR ''('' \<notin> set tool"
  shows "parse_pattern (literal_rule_pattern tool subj) =
      Inr \<lparr>pp_tool = tool, pp_args = (if subj = [] then None else Some (escape_rule_subject subj))\<rparr> \<and>
    match_rule_subjects hit (escape_rule_subject subj) ss =
      (if subj = [] then True else list_ex (\<lambda>s. hit (escape_rule_subject subj) s) ss)"
proof -
  have "\<not> starts_with (escape_rule_subject subj) ''!''"
  proof (cases subj)
    case (Cons c cs)
    have "glob_special (CHR ''!'')"
      by code_simp
    with Cons show ?thesis
      by (auto simp: escape_rule_subject_def)
  qed (simp add: escape_rule_subject_def)
  moreover have "escape_rule_subject subj = [] \<longleftrightarrow> subj = []"
    by (cases subj) (simp_all add: escape_rule_subject_def)
  ultimately show ?thesis
    using parse_call_pattern [OF assms, of "escape_rule_subject subj"]
    by (simp add: literal_rule_pattern_def match_rule_subjects_def Let_def)
qed

lemma literal_pattern_roundtrip_witness:
  "parse_pattern (literal_rule_pattern ''Bash'' ''rm (a)'') =
     Inr \<lparr>pp_tool = ''Bash'', pp_args = Some (''rm '' @ [CHR 0x5C] @ ''(a'' @ [CHR 0x5C] @ '')'')\<rparr>"
proof -
  have pre: "''Bash'' \<noteq> []" "\<not> is_js_space (hd ''Bash'')" "CHR ''('' \<notin> set ''Bash''"
    by code_simp+
  have esc: "escape_rule_subject ''rm (a)'' = ''rm '' @ [CHR 0x5C] @ ''(a'' @ [CHR 0x5C] @ '')''"
    by code_simp
  show ?thesis
    using literal_pattern_roundtrip [OF pre, of "''rm (a)''"] by (simp add: esc)
qed

text \<open>The declarative reading of a match.\<close>

lemma match_rule_Some:
  "match_rule is_match rule tool matches = Some m \<longleftrightarrow>
     (\<exists>parsed. parse_pattern (rl_pattern rule) = Inr parsed \<and>
        (pp_tool parsed = ''*'' \<or> is_match tool (pp_tool parsed)) \<and>
        (case pp_args parsed of
           None \<Rightarrow> m = \<lparr>rm_rule = rule, rm_strategy = Tool_Name_Only, rm_has_args = False\<rparr>
         | Some args \<Rightarrow> (\<exists>f. matches = Some f \<and> f args) \<and>
             m = \<lparr>rm_rule = rule, rm_strategy = Matches_Rule, rm_has_args = True\<rparr>))"
  by (auto simp: match_rule_def split: sum.splits option.splits if_splits)

lemma match_rule_rule: "match_rule is_match rule tool matches = Some m \<Longrightarrow> rm_rule m = rule"
  by (auto simp: match_rule_Some split: option.splits)

text \<open>
  Whether a rule matches depends on its pattern only: neither its decision, nor its scope,
  nor its reason takes part, a malformed pattern matches nothing, and a rule without
  arguments matches by tool name alone.
\<close>

theorem match_rule_pattern_only:
  "(match_rule is_match rule tool matches \<noteq> None) =
     (case parse_pattern (rl_pattern rule) of
        Inl _ \<Rightarrow> False
      | Inr parsed \<Rightarrow>
          (pp_tool parsed = ''*'' \<or> is_match tool (pp_tool parsed)) \<and>
          (case pp_args parsed of None \<Rightarrow> True
           | Some args \<Rightarrow> (case matches of None \<Rightarrow> False | Some f \<Rightarrow> f args)))"
  by (auto simp: match_rule_def split: sum.splits option.splits)

end
