(* ===== verification/Path_Access.thy ===== *)
theory Path_Access
  imports Prelude
begin

text \<open>
  The lexical path guard of the file tools (\<open>tools/policies/path-access.ts\<close> and
  \<open>tools/policies/sensitive.ts\<close>).

  The functions of the npm package \<open>pathe\<close> are the fields of the record \<open>pathe\<close>, an
  argument of every definition that uses one. A thrown \<open>PathSecurityError\<close> is the left
  summand. The default path class, which the source reads from \<open>process.platform\<close>, is
  always passed explicitly here.
\<close>

subsection \<open>Types\<close>

record pathe =
  pathe_normalize :: "string \<Rightarrow> string"
  pathe_is_absolute :: "string \<Rightarrow> bool"
  pathe_resolve :: "string \<Rightarrow> string \<Rightarrow> string"
  pathe_join :: "string \<Rightarrow> string \<Rightarrow> string"
  pathe_basename :: "string \<Rightarrow> string"
  pathe_dirname :: "string \<Rightarrow> string"

datatype path_class = Posix | Win32

datatype path_security_code = Path_Outside_Workspace | Path_Sensitive | Path_Invalid

datatype path_operation = Op_Read | Op_Write | Op_Search

datatype guard_mode = Absolute_Outside_Allowed | Guard_Disabled

record access_policy =
  ap_guard_mode :: guard_mode
  ap_check_sensitive :: bool

definition default_access_policy :: access_policy where
  "default_access_policy = \<lparr>ap_guard_mode = Absolute_Outside_Allowed, ap_check_sensitive = True\<rparr>"

record path_access =
  pa_path :: string
  pa_outside :: bool

record path_error =
  pe_code :: path_security_code
  pe_raw :: string
  pe_canonical :: string
  pe_message :: string

record workspace_config =
  wc_dir :: string
  wc_additional :: "string list"

record resolve_options =
  ro_operation :: path_operation
  ro_policy :: "access_policy option"
  ro_class :: path_class
  ro_home :: "string option"

subsection \<open>Sensitive files\<close>

definition sensitive_basenames :: "string list" where
  "sensitive_basenames = [''.env'', ''id_rsa'', ''id_ed25519'', ''id_ecdsa'', ''credentials'']"

definition sensitive_path_suffixes :: "string list list" where
  "sensitive_path_suffixes = [[''.aws'', ''credentials''], [''.gcp'', ''credentials'']]"

definition env_prefix :: string where
  "env_prefix = ''.env.''"

definition env_exemptions :: "string list" where
  "env_exemptions = [''.env.example'', ''.env.sample'', ''.env.template'']"

definition sensitive_basename_prefixes :: "string list" where
  "sensitive_basename_prefixes = [''id_rsa'', ''id_ed25519'', ''id_ecdsa'', ''credentials'']"

definition public_key_basenames :: "string list" where
  "public_key_basenames = [''id_rsa.pub'', ''id_ed25519.pub'', ''id_ecdsa.pub'']"

definition sensitive_dot_variants :: "string list" where
  "sensitive_dot_variants =
     [''.bak'', ''.backup'', ''.copy'', ''.disabled'', ''.key'', ''.old'', ''.orig'', ''.pem'',
      ''.save'', ''.tmp'']"

text \<open>One round of the loop over \<open>SENSITIVE_BASENAME_PREFIXES\<close>.\<close>

definition prefix_hit :: "string \<Rightarrow> string \<Rightarrow> bool" where
  "prefix_hit name p =
     (if name = p then True
      else if length name > length p \<and> starts_with name p
      then (let suff = drop (length p) name; nxt = hd suff
            in if nxt = CHR ''-'' \<or> nxt = CHR ''_'' then True
               else nxt = CHR ''.'' \<and> suff \<in> set sensitive_dot_variants)
      else False)"

definition suffix_hit :: "string \<Rightarrow> string list \<Rightarrow> bool" where
  "suffix_hit path parts =
     (let s = to_lower (join_with ''/'' parts)
      in ends_with path (''/'' @ s) \<or> js_includes path (''/'' @ s @ ''/''))"

definition is_sensitive_file :: "pathe \<Rightarrow> string \<Rightarrow> bool" where
  "is_sensitive_file pt path =
     (let name = to_lower (pathe_basename pt path); lpath = to_lower path
      in if name \<in> set env_exemptions then False
         else if name \<in> set public_key_basenames then False
         else if name \<in> set sensitive_basenames then True
         else if starts_with name env_prefix then True
         else if list_ex (prefix_hit name) sensitive_basename_prefixes then True
         else list_ex (suffix_hit lpath) sensitive_path_suffixes)"

subsection \<open>User paths\<close>

definition is_ascii_letter :: "char \<Rightarrow> bool" where
  "is_ascii_letter c =
     (let n = of_char c :: nat in (65 \<le> n \<and> n \<le> 90) \<or> (97 \<le> n \<and> n \<le> 122))"

definition ascii_upper :: "char \<Rightarrow> char" where
  "ascii_upper c =
     (let n = of_char c :: nat in if 97 \<le> n \<and> n \<le> 122 then char_of (n - 32) else c)"

fun is_win32_drive_relative :: "string \<Rightarrow> bool" where
  "is_win32_drive_relative (c # d # rest) =
     (is_ascii_letter c \<and> d = CHR '':'' \<and>
      (case rest of [] \<Rightarrow> True | e # _ \<Rightarrow> e \<noteq> CHR 0x5C \<and> e \<noteq> CHR ''/''))"
| "is_win32_drive_relative _ = False"

text \<open>The letter matched by \<open>([A-Za-z])(?:/|$)\<close> at the start of a string.\<close>

fun drive_letter :: "string \<Rightarrow> char option" where
  "drive_letter [] = None"
| "drive_letter (c # rest) =
     (if is_ascii_letter c \<and> (case rest of [] \<Rightarrow> True | e # _ \<Rightarrow> e = CHR ''/'') then Some c
      else None)"

definition drive_path :: "char \<Rightarrow> string \<Rightarrow> string" where
  "drive_path c rest = ascii_upper c # CHR '':'' # (if rest = [] then ''/'' else rest)"

definition normalize_user_path :: "path_class \<Rightarrow> string \<Rightarrow> string" where
  "normalize_user_path cls path =
     (if cls \<noteq> Win32 then path
      else if path = ''/'' then ''/''
      else if starts_with path ''//'' then path
      else (case (if starts_with path ''/cygdrive/''
                  then drive_letter (drop (length ''/cygdrive/'') path) else None) of
              Some c \<Rightarrow> drive_path c (drop (length (''/cygdrive/'' @ [c])) path)
            | None \<Rightarrow>
                (case (if starts_with path ''/'' then drive_letter (drop 1 path) else None) of
                   Some c \<Rightarrow> drive_path c (drop 2 path)
                 | None \<Rightarrow> path)))"

definition expand_user_path :: "pathe \<Rightarrow> string \<Rightarrow> string option \<Rightarrow> path_class \<Rightarrow> string" where
  "expand_user_path pt path home cls =
     (case home of None \<Rightarrow> path
      | Some h \<Rightarrow>
          (if path = ''~'' then h
           else if starts_with path ''~/'' \<or> (cls = Win32 \<and> starts_with path [CHR ''~'', CHR 0x5C])
           then pathe_join pt h (drop 2 path)
           else path))"

subsection \<open>Canonical paths and the workspace\<close>

definition quoted :: "string \<Rightarrow> string" where
  "quoted s = [CHR 0x22] @ s @ [CHR 0x22]"

definition path_invalid :: "string \<Rightarrow> string \<Rightarrow> string \<Rightarrow> path_error" where
  "path_invalid raw canonical msg =
     \<lparr>pe_code = Path_Invalid, pe_raw = raw, pe_canonical = canonical, pe_message = msg\<rparr>"

definition canonicalize_path :: "pathe \<Rightarrow> string \<Rightarrow> string \<Rightarrow> path_class \<Rightarrow> path_error + string" where
  "canonicalize_path pt path cwd cls =
     (if path = [] then Inl (path_invalid path path ''Path cannot be empty'')
      else
        let np = normalize_user_path cls path in
        if cls = Win32 \<and> is_win32_drive_relative np
        then Inl (path_invalid path np
               (quoted path @ '' is a drive-relative Windows path. Use an absolute path like C:''
                @ [CHR 0x5C] @ ''path or a path relative to the working directory.''))
        else if \<not> pathe_is_absolute pt np \<and> \<not> pathe_is_absolute pt cwd
        then Inl (path_invalid path np
               (''Cannot resolve '' @ quoted path @ '' against non-absolute cwd '' @ quoted cwd @ ''.''))
        else Inr (pathe_normalize pt
               (if pathe_is_absolute pt np then np else pathe_resolve pt cwd np)))"

definition is_within_directory :: "pathe \<Rightarrow> string \<Rightarrow> string \<Rightarrow> path_class \<Rightarrow> bool" where
  "is_within_directory pt candidate base cls =
     (let nc = pathe_normalize pt candidate;
          nb = pathe_normalize pt base;
          cc = (if cls = Win32 then to_lower nc else nc);
          cb = (if cls = Win32 then to_lower nb else nb)
      in if cc = cb then True
         else starts_with cc (if ends_with cb ''/'' then cb else cb @ ''/''))"

definition is_within_workspace :: "pathe \<Rightarrow> string \<Rightarrow> workspace_config \<Rightarrow> path_class \<Rightarrow> bool" where
  "is_within_workspace pt candidate cfg cls =
     (if is_within_directory pt candidate (wc_dir cfg) cls then True
      else list_ex (\<lambda>dir. is_within_directory pt candidate dir cls) (wc_additional cfg))"

definition operation_verb :: "path_operation \<Rightarrow> string" where
  "operation_verb op' =
     (case op' of Op_Write \<Rightarrow> ''write or edit a file'' | Op_Search \<Rightarrow> ''search''
      | Op_Read \<Rightarrow> ''read a file'')"

definition relative_outside_message :: "string \<Rightarrow> path_operation \<Rightarrow> string" where
  "relative_outside_message path op' =
     quoted path @ '' is not an absolute path. You must provide an absolute path to ''
     @ operation_verb op' @ '' outside the working directory.''"

definition sensitive_message :: "string \<Rightarrow> string" where
  "sensitive_message path =
     quoted path @ '' matches a sensitive-file pattern (env / credential / SSH key). ''
     @ ''Access is blocked to protect secrets.''"

definition resolve_path_access ::
  "pathe \<Rightarrow> string \<Rightarrow> string \<Rightarrow> workspace_config \<Rightarrow> resolve_options \<Rightarrow> path_error + path_access" where
  "resolve_path_access pt path cwd cfg opts =
     (let cls = ro_class opts;
          np = normalize_user_path cls path;
          expanded = expand_user_path pt np (ro_home opts) cls;
          raw_abs = pathe_is_absolute pt expanded
      in case canonicalize_path pt expanded cwd cls of
           Inl e \<Rightarrow> Inl e
         | Inr canonical \<Rightarrow>
             (let outside = (\<not> is_within_workspace pt canonical cfg cls);
                  policy = opt_or (ro_policy opts) default_access_policy
              in if ap_check_sensitive policy \<and> is_sensitive_file pt canonical
                 then Inl \<lparr>pe_code = Path_Sensitive, pe_raw = path, pe_canonical = canonical,
                          pe_message = sensitive_message path\<rparr>
                 else if outside \<and> ap_guard_mode policy = Absolute_Outside_Allowed \<and> \<not> raw_abs
                 then Inl \<lparr>pe_code = Path_Outside_Workspace, pe_raw = path,
                          pe_canonical = canonical,
                          pe_message = relative_outside_message path (ro_operation opts)\<rparr>
                 else Inr \<lparr>pa_path = canonical, pa_outside = outside\<rparr>))"

text \<open>
  \<open>resolvePathAccessPath\<close>: \<open>kaos.pathClass()\<close> and \<open>kaos.gethome()\<close> are the arguments \<open>cls\<close>
  and \<open>home\<close>; \<open>expandHome\<close> is already defaulted to true by its caller here.
\<close>

definition resolve_path_access_path ::
  "pathe \<Rightarrow> path_class \<Rightarrow> string \<Rightarrow> string \<Rightarrow> workspace_config \<Rightarrow> path_operation \<Rightarrow>
   access_policy option \<Rightarrow> bool \<Rightarrow> path_error + string" where
  "resolve_path_access_path pt cls home path cfg op' policy expand_home =
     map_sum id pa_path
       (resolve_path_access pt path (wc_dir cfg) cfg
          \<lparr>ro_operation = op', ro_policy = policy, ro_class = cls,
           ro_home = (if expand_home then Some home else None)\<rparr>)"

definition assert_path_allowed ::
  "pathe \<Rightarrow> string \<Rightarrow> string \<Rightarrow> workspace_config \<Rightarrow> path_operation \<Rightarrow> bool option \<Rightarrow> path_class \<Rightarrow>
   path_error + string" where
  "assert_path_allowed pt path cwd cfg mode check cls =
     map_sum id pa_path
       (resolve_path_access pt path cwd cfg
          \<lparr>ro_operation = mode,
           ro_policy = Some \<lparr>ap_guard_mode = Absolute_Outside_Allowed,
             ap_check_sensitive = opt_or check (ap_check_sensitive default_access_policy)\<rparr>,
           ro_class = cls, ro_home = None\<rparr>)"

subsection \<open>Path components\<close>

text \<open>The specification side: a path as the list of its slash separated components.\<close>

fun segments :: "string \<Rightarrow> string list" where
  "segments [] = [[]]"
| "segments (c # cs) =
     (if c = CHR ''/'' then [] # segments cs
      else (case segments cs of [] \<Rightarrow> [[c]] | s # ss \<Rightarrow> (c # s) # ss))"

definition fold_case :: "path_class \<Rightarrow> string \<Rightarrow> string" where
  "fold_case cls p = (if cls = Win32 then to_lower p else p)"

lemma segments_neq_Nil [simp]: "segments s \<noteq> []"
  by (cases s) (auto split: list.splits)

lemma prefix_hd_tl: "xs \<noteq> [] \<Longrightarrow> ys \<noteq> [] \<Longrightarrow> prefix xs ys \<longleftrightarrow> hd xs = hd ys \<and> prefix (tl xs) (tl ys)"
  by (cases xs; cases ys) auto

lemma segments_eq_Nil_hd: "hd (segments s) = [] \<longleftrightarrow> s = [] \<or> hd s = CHR ''/''"
  by (cases s) (auto split: list.splits)

lemma prefix_segments:
  "prefix (segments b) (segments c) \<longleftrightarrow> c = b \<or> prefix (b @ ''/'') c"
proof (induction b arbitrary: c)
  case Nil
  have "prefix [[]] (segments c) \<longleftrightarrow> hd (segments c) = []"
    by (auto simp: prefix_hd_tl)
  then show ?case
    using segments_eq_Nil_hd [of c] by (cases c) auto
next
  case (Cons x b)
  show ?case
  proof (cases c)
    case Nil
    then show ?thesis
      by (cases "x = CHR ''/''"; cases "segments b") auto
  next
    case (Cons y d)
    obtain sb tb where sb: "segments b = sb # tb"
      by (cases "segments b") auto
    obtain sd td where sd: "segments d = sd # td"
      by (cases "segments d") auto
    show ?thesis
      using Cons.IH [of d] Cons sb sd by (cases "x = CHR ''/''"; cases "y = CHR ''/''") auto
  qed
qed

lemma to_lower_ends_slash: "ends_with (to_lower s) ''/'' \<longleftrightarrow> ends_with s ''/''"
  by (cases s rule: rev_cases) (simp_all add: to_lower_def eq_commute [of "CHR ''/''"])

lemma is_within_directory_fold:
  "is_within_directory pt c b cls \<longleftrightarrow>
     fold_case cls (pathe_normalize pt c) = fold_case cls (pathe_normalize pt b) \<or>
     starts_with (fold_case cls (pathe_normalize pt c))
       (if ends_with (pathe_normalize pt b) ''/'' then fold_case cls (pathe_normalize pt b)
        else fold_case cls (pathe_normalize pt b) @ ''/'')"
  by (simp add: is_within_directory_def fold_case_def Let_def to_lower_ends_slash)

text \<open>
  \<open>isWithinDirectory\<close> compares whole components. For a base whose normal form has no
  trailing slash, a path lies inside it exactly when the components of the base are a prefix
  of the components of the path (both case folded on Windows), so that \<open>/workspace-evil\<close> is
  outside \<open>/workspace\<close>. The normaliser is an arbitrary parameter.
\<close>

theorem within_directory_components:
  assumes "\<not> ends_with (pathe_normalize pt base) ''/''"
  shows "is_within_directory pt candidate base cls \<longleftrightarrow>
    prefix (segments (fold_case cls (pathe_normalize pt base)))
      (segments (fold_case cls (pathe_normalize pt candidate)))"
  using assms by (simp add: is_within_directory_fold prefix_segments)

text \<open>A concrete POSIX instance of the package, used by the witnesses.\<close>

fun squash_segments :: "string list \<Rightarrow> string list \<Rightarrow> string list" where
  "squash_segments acc [] = rev acc"
| "squash_segments acc (s # ss) =
     (if s = [] \<or> s = ''.'' then squash_segments acc ss
      else if s = ''..'' then squash_segments (tl acc) ss
      else squash_segments (s # acc) ss)"

definition posix_normalize :: "string \<Rightarrow> string" where
  "posix_normalize p =
     (if starts_with p ''/'' then ''/'' @ join_with ''/'' (squash_segments [] (segments p))
      else join_with ''/'' (squash_segments [] (segments p)))"

definition posix_pathe :: pathe where
  "posix_pathe =
     \<lparr>pathe_normalize = posix_normalize,
      pathe_is_absolute = (\<lambda>p. starts_with p ''/''),
      pathe_resolve = (\<lambda>cwd p. posix_normalize (cwd @ ''/'' @ p)),
      pathe_join = (\<lambda>a b. posix_normalize (a @ ''/'' @ b)),
      pathe_basename = (\<lambda>p. last (segments p)),
      pathe_dirname = (\<lambda>p. if length (segments p) \<le> 2 then ''/'' else join_with ''/'' (butlast (segments p)))\<rparr>"

lemma within_directory_components_witness:
  "is_within_directory posix_pathe ''/work/a/../b'' ''/work'' Posix \<and>
   \<not> is_within_directory posix_pathe ''/work-evil/b'' ''/work'' Posix"
proof -
  have ok: "\<not> ends_with (pathe_normalize posix_pathe ''/work'') ''/''"
    by code_simp
  have "prefix (segments (fold_case Posix (pathe_normalize posix_pathe ''/work'')))
      (segments (fold_case Posix (pathe_normalize posix_pathe ''/work/a/../b'')))"
    by code_simp
  moreover have "\<not> prefix (segments (fold_case Posix (pathe_normalize posix_pathe ''/work'')))
      (segments (fold_case Posix (pathe_normalize posix_pathe ''/work-evil/b'')))"
    by code_simp
  ultimately show ?thesis
    by (simp add: within_directory_components [OF ok])
qed

lemma trailing_slash_base_excludes_itself:
  assumes "pathe_normalize pt ''/ws/'' = ''/ws/''" and "pathe_normalize pt ''/ws'' = ''/ws''"
  shows "\<not> is_within_directory pt ''/ws'' ''/ws/'' Posix"
  using assms by (simp add: is_within_directory_def)

subsection \<open>What a resolved path guarantees\<close>

lemma resolve_path_access_Inr:
  assumes "resolve_path_access pt path cwd cfg opts = Inr pa"
  defines "expanded \<equiv> expand_user_path pt (normalize_user_path (ro_class opts) path) (ro_home opts)
      (ro_class opts)"
    and "policy \<equiv> opt_or (ro_policy opts) default_access_policy"
  shows "canonicalize_path pt expanded cwd (ro_class opts) = Inr (pa_path pa)"
    and "pa_outside pa \<longleftrightarrow> \<not> is_within_workspace pt (pa_path pa) cfg (ro_class opts)"
    and "ap_check_sensitive policy \<Longrightarrow> \<not> is_sensitive_file pt (pa_path pa)"
    and "pa_outside pa \<Longrightarrow> ap_guard_mode policy = Absolute_Outside_Allowed \<Longrightarrow>
      pathe_is_absolute pt expanded"
  using assms(1) unfolding expanded_def policy_def
  by (simp_all add: resolve_path_access_def Let_def split: sum.splits if_splits) auto

lemma canonicalize_path_Inl: "canonicalize_path pt path cwd cls = Inl e \<Longrightarrow> pe_code e = Path_Invalid"
proof -
  have code: "pe_code (path_invalid a b m) = Path_Invalid" for a b m
    by (simp add: path_invalid_def)
  assume "canonicalize_path pt path cwd cls = Inl e"
  then have "\<exists>a b m. e = path_invalid a b m"
    by (simp add: canonicalize_path_def Let_def split: if_splits) blast+
  then show ?thesis
    by (auto simp: code)
qed

lemma resolve_path_access_Inl:
  assumes "resolve_path_access pt path cwd cfg opts = Inl e"
  shows "(pe_code e = Path_Invalid \<and> canonicalize_path pt (expand_user_path pt
            (normalize_user_path (ro_class opts) path) (ro_home opts) (ro_class opts)) cwd (ro_class opts) = Inl e) \<or>
         (pe_code e = Path_Sensitive \<and> is_sensitive_file pt (pe_canonical e)) \<or>
         (pe_code e = Path_Outside_Workspace \<and>
            \<not> is_within_workspace pt (pe_canonical e) cfg (ro_class opts))"
proof -
  define c where "c = canonicalize_path pt (expand_user_path pt
    (normalize_user_path (ro_class opts) path) (ro_home opts) (ro_class opts)) cwd (ro_class opts)"
  show ?thesis
  proof (cases c)
    case (Inl e')
    then show ?thesis
      using assms canonicalize_path_Inl
      by (simp add: resolve_path_access_def Let_def c_def)
  next
    case (Inr canonical)
    then have "e = \<lparr>pe_code = Path_Sensitive, pe_raw = path, pe_canonical = canonical,
                          pe_message = sensitive_message path\<rparr> \<and> is_sensitive_file pt canonical \<or>
        e = \<lparr>pe_code = Path_Outside_Workspace, pe_raw = path, pe_canonical = canonical,
               pe_message = relative_outside_message path (ro_operation opts)\<rparr> \<and>
          \<not> is_within_workspace pt canonical cfg (ro_class opts)"
      using assms by (simp add: resolve_path_access_def Let_def c_def split: if_splits)
    then show ?thesis
      by (elim disjE conjE) simp_all
  qed
qed

lemma within_workspace_dir:
  "is_within_workspace pt p cfg cls \<longleftrightarrow>
     (\<exists>dir \<in> set (wc_dir cfg # wc_additional cfg). is_within_directory pt p dir cls)"
  by (auto simp: is_within_workspace_def list_ex_iff)

text \<open>The paths \<open>expandUserPath\<close> replaces.\<close>

definition home_path :: "path_class \<Rightarrow> string \<Rightarrow> bool" where
  "home_path cls path \<longleftrightarrow>
     path = ''~'' \<or> starts_with path ''~/'' \<or> cls = Win32 \<and> starts_with path [CHR ''~'', CHR 0x5C]"

lemma drive_path_not_slash: "is_ascii_letter c \<Longrightarrow> hd (drive_path c rest) \<noteq> CHR ''/''"
proof -
  assume "is_ascii_letter c"
  then have "ascii_upper c \<noteq> CHR ''/''"
  proof (cases "97 \<le> (of_char c :: nat) \<and> (of_char c :: nat) \<le> 122")
    case True
    then have "(of_char (ascii_upper c) :: nat) = of_char c - 32"
      by (simp add: ascii_upper_def of_char_of less_imp_diff_less)
    with True show ?thesis
      by auto
  next
    case False
    with \<open>is_ascii_letter c\<close> show ?thesis
      by (auto simp: ascii_upper_def is_ascii_letter_def)
  qed
  then show ?thesis
    by (simp add: drive_path_def)
qed

lemma drive_letter_Some: "drive_letter s = Some c \<Longrightarrow> is_ascii_letter c"
  by (cases s) (auto split: if_splits)

lemma normalize_user_path_no_slash:
  "p \<noteq> [] \<Longrightarrow> hd p \<noteq> CHR ''/'' \<Longrightarrow> normalize_user_path cls p = p"
  by (cases p) (simp_all add: normalize_user_path_def)

lemma drive_path_not_home: "is_ascii_letter c \<Longrightarrow> \<not> home_path cls (drive_path c rest)"
proof -
  assume letter: "is_ascii_letter c"
  have "(of_char (ascii_upper c) :: nat) \<le> 122"
  proof (cases "97 \<le> (of_char c :: nat) \<and> (of_char c :: nat) \<le> 122")
    case True
    then have "(of_char (ascii_upper c) :: nat) = of_char c - 32"
      by (simp add: ascii_upper_def of_char_of less_imp_diff_less)
    with True show ?thesis
      by linarith
  next
    case False
    with letter show ?thesis
      by (auto simp: ascii_upper_def is_ascii_letter_def)
  qed
  then have "ascii_upper c \<noteq> CHR ''~''"
    by auto
  then show ?thesis
    by (auto simp: home_path_def drive_path_def)
qed

lemma home_after_normalizing:
  assumes "home_path cls (normalize_user_path cls path)"
  shows "home_path cls path"
proof -
  have "normalize_user_path cls path = path \<or>
      (\<exists>c rest. is_ascii_letter c \<and> normalize_user_path cls path = drive_path c rest)"
    by (auto simp: normalize_user_path_def dest: drive_letter_Some split: option.splits if_splits)
  then show ?thesis
    using assms drive_path_not_home by metis
qed

text \<open>A path inside a root by whole components, lexically.\<close>

definition inside_root :: "pathe \<Rightarrow> path_class \<Rightarrow> string \<Rightarrow> string \<Rightarrow> bool" where
  "inside_root pt cls root path \<longleftrightarrow>
     (let r = fold_case cls (pathe_normalize pt root)
      in prefix (segments (if ends_with r ''/'' then butlast r else r)) (segments (fold_case cls (pathe_normalize pt path))))"

lemma fold_case_ends_slash: "ends_with (fold_case cls r) ''/'' \<longleftrightarrow> ends_with r ''/''"
  by (simp add: fold_case_def to_lower_ends_slash)

lemma within_directory_inside_root:
  assumes "is_within_directory pt c b cls"
  shows "inside_root pt cls b c"
proof (cases "ends_with (pathe_normalize pt b) ''/''")
  case False
  then show ?thesis
    using assms by (simp add: is_within_directory_fold inside_root_def prefix_segments fold_case_ends_slash)
next
  case True
  then obtain r where r: "fold_case cls (pathe_normalize pt b) = r @ ''/''"
    using fold_case_ends_slash [of cls "pathe_normalize pt b"] by (auto simp: suffix_def)
  have "prefix (r @ ''/'') (fold_case cls (pathe_normalize pt c))"
    using assms True r by (auto simp: is_within_directory_fold)
  then show ?thesis
    using prefix_segments [of r "fold_case cls (pathe_normalize pt c)"]
    by (simp add: inside_root_def r)
qed

text \<open>
  C40: what the file tools may touch. When \<open>resolvePathAccessPath\<close> accepts a path for a tool (all of them
  run with the guard on), the path it returns is not a sensitive file, unless the tool switched that
  check off, and it lies, by whole components, in the workspace directory or an additional one. The
  only paths that may leave these roots are those the model wrote as absolute paths, and home paths
  (\<open>~\<close>, \<open>~/x\<close>) that the tool expands to an absolute path: no \<open>..\<close> of a relative path gets out,
  whatever the roots, the backend and the normaliser are. Symbolic links are not followed.
\<close>

theorem relative_path_stays_inside:
  assumes ok: "resolve_path_access_path pt cls home path cfg op' policy expand_home = Inr p"
    and guard: "ap_guard_mode (opt_or policy default_access_policy) = Absolute_Outside_Allowed"
  shows "(ap_check_sensitive (opt_or policy default_access_policy) \<longrightarrow> \<not> is_sensitive_file pt p) \<and>
    ((\<exists>root \<in> set (wc_dir cfg # wc_additional cfg). inside_root pt cls root p) \<or>
     pathe_is_absolute pt (normalize_user_path cls path) \<or>
     expand_home \<and> home_path cls path \<and> pathe_is_absolute pt (expand_user_path pt path (Some home) cls))"
proof -
  let ?home = "if expand_home then Some home else None"
  let ?opts = "\<lparr>ro_operation = op', ro_policy = policy, ro_class = cls, ro_home = ?home\<rparr>"
  obtain pa where pa: "resolve_path_access pt path (wc_dir cfg) cfg ?opts = Inr pa" and p: "p = pa_path pa"
    using ok by (cases "resolve_path_access pt path (wc_dir cfg) cfg ?opts") (auto simp: resolve_path_access_path_def)
  note facts = resolve_path_access_Inr [OF pa, simplified]
  have secret: "ap_check_sensitive (opt_or policy default_access_policy) \<longrightarrow> \<not> is_sensitive_file pt p"
    using facts(3) p by simp
  show ?thesis
  proof (cases "pa_outside pa")
    case False
    then have "is_within_workspace pt p cfg cls"
      using facts(2) p by simp
    then obtain root where "root \<in> set (wc_dir cfg # wc_additional cfg)" "is_within_directory pt p root cls"
      unfolding within_workspace_dir by (elim bexE)
    then show ?thesis
      using secret within_directory_inside_root by blast
  next
    case True
    then have abs: "pathe_is_absolute pt (expand_user_path pt (normalize_user_path cls path) ?home cls)"
      using facts(4) guard by simp
    have tilde: "normalize_user_path cls path = path" if "home_path cls path"
      using that by (intro normalize_user_path_no_slash) (auto simp: home_path_def prefix_def)
    have same: "expand_user_path pt (normalize_user_path cls path) ?home cls = normalize_user_path cls path"
      if "\<not> (expand_home \<and> home_path cls (normalize_user_path cls path))"
      using that by (auto simp: expand_user_path_def home_path_def)
    show ?thesis
    proof (cases "expand_home \<and> home_path cls (normalize_user_path cls path)")
      case False
      then show ?thesis
        using secret abs same by simp
    next
      case home: True
      then have "home_path cls path"
        by (rule home_after_normalizing [OF conjunct2])
      then show ?thesis
        using secret abs home tilde by auto
    qed
  qed
qed

lemma relative_path_stays_inside_witness:
  "inside_root posix_pathe Posix ''/work'' ''/work/b.txt'' \<and>
   resolve_path_access_path posix_pathe Posix ''/home/me'' ''~/notes''
     \<lparr>wc_dir = ''/work'', wc_additional = []\<rparr> Op_Write None True = Inr ''/home/me/notes'' \<and>
   resolve_path_access_path posix_pathe Posix ''/home/me'' ''../etc/passwd''
     \<lparr>wc_dir = ''/work'', wc_additional = []\<rparr> Op_Read None True \<noteq> Inr ''/etc/passwd''"
proof -
  let ?cfg = "\<lparr>wc_dir = ''/work'', wc_additional = []\<rparr>"
  have ok: "resolve_path_access_path posix_pathe Posix ''/home/me'' ''a/../b.txt'' ?cfg Op_Write None True = Inr ''/work/b.txt''"
    by code_simp
  have guard: "ap_guard_mode (opt_or None default_access_policy) = Absolute_Outside_Allowed"
    by code_simp
  have rel: "\<not> pathe_is_absolute posix_pathe (normalize_user_path Posix ''a/../b.txt'')" "\<not> home_path Posix ''a/../b.txt''"
    by code_simp+
  have "inside_root posix_pathe Posix ''/work'' ''/work/b.txt''"
    using relative_path_stays_inside [OF ok guard] rel by simp
  moreover have "resolve_path_access_path posix_pathe Posix ''/home/me'' ''~/notes'' ?cfg Op_Write None True =
      Inr ''/home/me/notes''"
    by code_simp
  moreover have "resolve_path_access_path posix_pathe Posix ''/home/me'' ''../etc/passwd'' ?cfg Op_Read None True \<noteq>
      Inr ''/etc/passwd''"
    by code_simp
  ultimately show ?thesis
    by blast
qed

subsection \<open>The secrets the guard recognises\<close>

lemma js_includes_iff: "js_includes s p \<longleftrightarrow> (\<exists>before after. s = before @ p @ after)"
proof (induction s)
  case (Cons c cs)
  have "(\<exists>before after. c # cs = before @ p @ after) \<longleftrightarrow>
      prefix p (c # cs) \<or> (\<exists>before after. cs = before @ p @ after)"
    by (auto simp: Cons_eq_append_conv prefix_def)
  with Cons show ?case
    by simp
qed simp

lemma prefix_hit_iff:
  "prefix_hit name k \<longleftrightarrow>
     (\<exists>rest. name = k @ rest \<and>
        (rest = [] \<or> hd rest = CHR ''-'' \<or> hd rest = CHR ''_'' \<or> rest \<in> set sensitive_dot_variants))"
proof -
  have dots: "rest \<in> set sensitive_dot_variants \<Longrightarrow> rest \<noteq> [] \<and> hd rest = CHR ''.''" for rest
    by (auto simp: sensitive_dot_variants_def)
  show ?thesis
    by (auto simp: prefix_hit_def Let_def prefix_def dest: dots)
qed

lemma suffix_hit_iff:
  "suffix_hit path parts \<longleftrightarrow>
     (\<exists>before after. path = before @ ''/'' @ to_lower (join_with ''/'' parts) @ after \<and>
        (after = [] \<or> hd after = CHR ''/''))"
  (is "_ \<longleftrightarrow> ?r")
proof
  assume "suffix_hit path parts"
  then show ?r
    by (auto simp: suffix_hit_def Let_def js_includes_iff suffix_def)
       (metis append_Nil2, metis append_Cons append_Nil append_assoc list.sel(1))
next
  assume ?r
  then obtain before after where p: "path = before @ ''/'' @ to_lower (join_with ''/'' parts) @ after"
    and a: "after = [] \<or> hd after = CHR ''/''"
    by blast
  show "suffix_hit path parts"
  proof (cases after)
    case Nil
    then show ?thesis
      using p by (simp add: suffix_hit_def Let_def suffix_def)
  next
    case (Cons c cs)
    with a p have "path = before @ (''/'' @ to_lower (join_with ''/'' parts) @ ''/'') @ cs"
      by simp
    then show ?thesis
      unfolding suffix_hit_def Let_def js_includes_iff by blast
  qed
qed

text \<open>The specification: a backup or renamed variant of a key file, a cloud credentials path.\<close>

definition key_variant :: "string \<Rightarrow> bool" where
  "key_variant name \<longleftrightarrow>
     (\<exists>k rest. k \<in> set sensitive_basename_prefixes \<and> name = k @ rest \<and>
        (rest = [] \<or> hd rest = CHR ''-'' \<or> hd rest = CHR ''_'' \<or> rest \<in> set sensitive_dot_variants))"

definition credentials_path :: "string \<Rightarrow> bool" where
  "credentials_path p \<longleftrightarrow>
     (\<exists>d before after. (d = ''.aws'' \<or> d = ''.gcp'') \<and>
        p = before @ ''/'' @ d @ ''/credentials'' @ after \<and> (after = [] \<or> hd after = CHR ''/''))"

lemma prefix_hits: "list_ex (prefix_hit n) sensitive_basename_prefixes \<longleftrightarrow> key_variant n"
  unfolding list_ex_iff prefix_hit_iff key_variant_def by blast

lemma suffix_hits: "list_ex (suffix_hit p) sensitive_path_suffixes \<longleftrightarrow> credentials_path p"
proof -
  have hit: "suffix_hit p [d, ''credentials''] \<longleftrightarrow>
      (\<exists>before after. p = before @ ''/'' @ d @ ''/credentials'' @ after \<and> (after = [] \<or> hd after = CHR ''/''))"
    if "to_lower d = d" for d
  proof -
    have "to_lower (join_with ''/'' [d, ''credentials'']) = d @ ''/credentials''"
      using that by (simp add: to_lower_append) code_simp
    then show ?thesis
      by (simp only: suffix_hit_iff append_assoc)
  qed
  have low: "to_lower ''.aws'' = ''.aws''" "to_lower ''.gcp'' = ''.gcp''"
    by code_simp+
  have "list_ex (suffix_hit p) sensitive_path_suffixes \<longleftrightarrow>
      suffix_hit p [''.aws'', ''credentials''] \<or> suffix_hit p [''.gcp'', ''credentials'']"
    by (simp add: sensitive_path_suffixes_def)
  then show ?thesis
    unfolding hit [OF low(1)] hit [OF low(2)] credentials_path_def by blast
qed

lemma basename_is_variant: "n \<in> set sensitive_basenames \<longleftrightarrow> n = ''.env'' \<or> n \<in> set sensitive_basename_prefixes"
  by (simp add: sensitive_basenames_def sensitive_basename_prefixes_def)

lemma key_is_variant: "n \<in> set sensitive_basename_prefixes \<Longrightarrow> key_variant n"
  unfolding key_variant_def by (rule exI [of _ n], rule exI [of _ "[]"]) simp

text \<open>
  What \<open>isSensitiveFile\<close> protects, without its loops: a file whose lower case name is
  neither an exempt example file nor a public key, and is \<open>.env\<close>, starts with \<open>.env.\<close>, or is
  a key name followed by nothing, by a dash or underscore variant or by a backup suffix;
  or a path that has \<open>.aws/credentials\<close> or \<open>.gcp/credentials\<close> as whole components.
\<close>

theorem is_sensitive_file_iff:
  "is_sensitive_file pt path \<longleftrightarrow>
     (let name = to_lower (pathe_basename pt path) in
      name \<notin> set env_exemptions \<and> name \<notin> set public_key_basenames \<and>
      (name = ''.env'' \<or> prefix ''.env.'' name \<or> key_variant name \<or> credentials_path (to_lower path)))"
  unfolding is_sensitive_file_def Let_def prefix_hits suffix_hits basename_is_variant env_prefix_def
  using key_is_variant [of "to_lower (pathe_basename pt path)"] by argo

text \<open>
  The Windows spelling of a user path (\<open>/c/x\<close>, \<open>/cygdrive/c/x\<close> become \<open>C:/x\<close>) is a normal
  form: \<open>resolvePathAccess\<close> applies \<open>normalizeUserPath\<close> before and again inside
  \<open>canonicalizePath\<close>, and the second application changes nothing.
\<close>

theorem normalize_user_path_idem:
  "normalize_user_path cls (normalize_user_path cls path) = normalize_user_path cls path"
proof -
  have "normalize_user_path cls path = path \<or>
      (\<exists>c rest. is_ascii_letter c \<and> normalize_user_path cls path = drive_path c rest)"
    by (auto simp: normalize_user_path_def dest: drive_letter_Some split: option.splits if_splits)
  then show ?thesis
  proof
    assume "\<exists>c rest. is_ascii_letter c \<and> normalize_user_path cls path = drive_path c rest"
    then obtain c rest where c: "is_ascii_letter c" and eq: "normalize_user_path cls path = drive_path c rest"
      by blast
    show ?thesis
      unfolding eq by (rule normalize_user_path_no_slash [OF _ drive_path_not_slash [OF c]])
        (simp add: drive_path_def)
  qed simp
qed

end
