(* ===== verification/Git_Worktree.thy ===== *)
theory Git_Worktree
  imports Path_Access "HOL-Library.Word"
begin

text \<open>
  \<open>tools/support/git-worktree.ts\<close>: the search for a git work tree above a directory. The
  calls of the \<open>Kaos\<close> interface, \<open>stat\<close> and \<open>readText\<close>, are a record of functions whose
  result says whether the call throws. The bitwise test of the file mode is on 32 bit words,
  as JavaScript's \<open>&\<close> is. A byte order mark is not a Latin-1 character, so the removal of
  one does nothing here.
\<close>

unbundle bit_operations_syntax

record kaos =
  ks_stat_mode :: "string \<Rightarrow> 32 word outcome"
  ks_read_text :: "string \<Rightarrow> string outcome"

record git_marker =
  gm_dot_git :: string
  gm_control_dir :: string

definition s_ifmt :: "32 word" where
  "s_ifmt = 0xF000"

definition s_ifdir :: "32 word" where
  "s_ifdir = 0x4000"

definition s_ifreg :: "32 word" where
  "s_ifreg = 0x8000"

definition is_mode :: "32 word \<Rightarrow> 32 word \<Rightarrow> bool" where
  "is_mode st mode = (st AND s_ifmt = mode)"

text \<open>\<open>split(/\r?\n/, 1)[0]\<close>.\<close>

definition first_line :: "string \<Rightarrow> string" where
  "first_line s =
     (let l = takeWhile (\<lambda>c. c \<noteq> CHR 0x0A) s
      in if length l < length s \<and> ends_with l [CHR 0x0D] then butlast l else l)"

definition parse_git_dir :: "pathe \<Rightarrow> string \<Rightarrow> string \<Rightarrow> string option" where
  "parse_git_dir pt content parent =
     (let line = js_trim (first_line (trim_start content))
      in if \<not> starts_with line ''gitdir:'' then None
         else let raw = js_trim (drop (length ''gitdir:'') line)
              in if raw = [] then None
                 else Some (pathe_normalize pt
                   (if pathe_is_absolute pt raw then raw else pathe_join pt parent raw)))"

definition probe_git_marker :: "pathe \<Rightarrow> kaos \<Rightarrow> string \<Rightarrow> string \<Rightarrow> git_marker option" where
  "probe_git_marker pt ks dot_git parent =
     (case ks_stat_mode ks dot_git of
        Threw _ \<Rightarrow> None
      | Returned mode \<Rightarrow>
          if is_mode mode s_ifdir then Some \<lparr>gm_dot_git = dot_git, gm_control_dir = dot_git\<rparr>
          else if \<not> is_mode mode s_ifreg then None
          else (case ks_read_text ks dot_git of
                  Threw _ \<Rightarrow> None
                | Returned content \<Rightarrow>
                    map_option (\<lambda>dir. \<lparr>gm_dot_git = dot_git, gm_control_dir = dir\<rparr>)
                      (parse_git_dir pt content parent)))"

text \<open>The loop of \<open>findGitWorkTreeMarker\<close>, with the number of rounds it has left.\<close>

fun climb :: "pathe \<Rightarrow> kaos \<Rightarrow> nat \<Rightarrow> string \<Rightarrow> git_marker option" where
  "climb pt ks 0 current = None"
| "climb pt ks (Suc n) current =
     (case probe_git_marker pt ks (pathe_join pt current ''.git'') current of
        Some hit \<Rightarrow> Some hit
      | None \<Rightarrow>
          (let parent = pathe_dirname pt current
           in if parent = current then None else climb pt ks n parent))"

definition find_git_marker :: "pathe \<Rightarrow> kaos \<Rightarrow> string \<Rightarrow> git_marker option" where
  "find_git_marker pt ks cwd =
     (if cwd = [] \<or> \<not> pathe_is_absolute pt cwd then None
      else climb pt ks 256 (pathe_normalize pt cwd))"

definition ancestor :: "pathe \<Rightarrow> nat \<Rightarrow> string \<Rightarrow> string" where
  "ancestor pt k dir = (pathe_dirname pt ^^ k) dir"

definition marker_at :: "pathe \<Rightarrow> kaos \<Rightarrow> string \<Rightarrow> git_marker option" where
  "marker_at pt ks dir = probe_git_marker pt ks (pathe_join pt dir ''.git'') dir"

lemma ancestor_simps [simp]:
  "ancestor pt 0 dir = dir"
  "ancestor pt (Suc k) dir = ancestor pt k (pathe_dirname pt dir)"
  by (simp_all add: ancestor_def funpow_swap1)

lemma ancestor_root: "pathe_dirname pt dir = dir \<Longrightarrow> ancestor pt k dir = dir"
  by (induction k) auto

lemma climb_iff:
  "climb pt ks n dir = Some m \<longleftrightarrow>
     (\<exists>k < n. marker_at pt ks (ancestor pt k dir) = Some m \<and>
        (\<forall>j < k. marker_at pt ks (ancestor pt j dir) = None))"
proof (induction n arbitrary: dir)
  case (Suc n)
  show ?case
  proof (cases "marker_at pt ks dir")
    case (Some hit)
    then show ?thesis
      by (auto simp: marker_at_def [symmetric] intro: exI [of _ 0] gr0I dest: spec [of _ 0])
  next
    case None
    show ?thesis
    proof (cases "pathe_dirname pt dir = dir")
      case True
      with None show ?thesis
        by (simp add: marker_at_def [symmetric] ancestor_root)
    next
      case False
      have "climb pt ks (Suc n) dir = climb pt ks n (pathe_dirname pt dir)"
        using None False by (simp add: marker_at_def [symmetric])
      then show ?thesis
        using None by (simp add: Suc.IH Ex_less_Suc2 All_less_Suc2 conj_commute)
    qed
  qed
qed simp

text \<open>
  The work tree found is the nearest one. For an absolute directory the search returns a
  marker exactly when one of its first 256 ancestors, itself included, has a \<open>.git\<close> directory
  or a readable \<open>.git\<close> file with a \<open>gitdir:\<close> line, and none of the directories below it has;
  stopping at the fixed point of \<open>dirname\<close> loses nothing.
\<close>

theorem git_marker_is_nearest:
  assumes "cwd \<noteq> []" and "pathe_is_absolute pt cwd"
  shows "find_git_marker pt ks cwd = Some m \<longleftrightarrow>
    (\<exists>k < 256. marker_at pt ks (ancestor pt k (pathe_normalize pt cwd)) = Some m \<and>
       (\<forall>j < k. marker_at pt ks (ancestor pt j (pathe_normalize pt cwd)) = None))"
  using assms by (simp add: find_git_marker_def climb_iff)

definition sample_kaos :: kaos where
  "sample_kaos =
     \<lparr>ks_stat_mode = (\<lambda>p. if p = ''/work/.git'' then Returned 0x41ED else Threw (plain_error ''ENOENT'')),
      ks_read_text = (\<lambda>p. Threw (plain_error ''EISDIR''))\<rparr>"

lemma git_marker_is_nearest_witness:
  "\<exists>k < 256. marker_at posix_pathe sample_kaos (ancestor posix_pathe k (pathe_normalize posix_pathe ''/work/src'')) =
     Some \<lparr>gm_dot_git = ''/work/.git'', gm_control_dir = ''/work/.git''\<rparr>"
proof -
  have start: "''/work/src'' \<noteq> []" "pathe_is_absolute posix_pathe ''/work/src''"
    by code_simp+
  have two: "climb posix_pathe sample_kaos (Suc (Suc n)) (pathe_normalize posix_pathe ''/work/src'') =
      Some \<lparr>gm_dot_git = ''/work/.git'', gm_control_dir = ''/work/.git''\<rparr>" for n
    by code_simp
  have "find_git_marker posix_pathe sample_kaos ''/work/src'' =
      Some \<lparr>gm_dot_git = ''/work/.git'', gm_control_dir = ''/work/.git''\<rparr>"
    using two [of 254] start by (simp add: find_git_marker_def eval_nat_numeral)
  then show ?thesis
    using git_marker_is_nearest [OF start] by blast
qed

end
