(* ===== verification/Agent_Modes.thy ===== *)
theory Agent_Modes
  imports Prelude
begin

text \<open>
  Plan mode (\<open>agent/plan/index.ts\<close>) and swarm mode (\<open>agent/swarm/index.ts\<close>): the two
  switches of an agent that the permission policies read. Both log what they do; a resume
  replays the log. The file system calls of plan mode are arguments that say whether each
  call throws; calls on other components are entries of an effect list.
\<close>

subsection \<open>Plan mode\<close>

record plan_state =
  ps_active :: bool
  ps_id :: "string option"
  ps_path :: "string option"

datatype plan_record =
    RecPlanEnter string
  | RecPlanCancel "string option"
  | RecPlanExit "string option"

datatype mode_effect =
    ClearPlanTracker
  | MakeDirectory string
  | WriteEmptyFile string
  | PushPlanUpdated bool
  | EmitStatus
  | AppendReminder string
  | PopReminder

text \<open>
  What plan mode uses of the agent: \<open>homedir\<close>, \<open>config.cwd\<close>, \<open>join\<close> and \<open>dirname\<close> of
  \<open>pathe\<close>, and what \<open>planTracker.clear\<close>, \<open>mkdir\<close>, \<open>writeText\<close> and \<open>readText\<close> do on this call.
\<close>

record plan_env =
  pv_homedir :: "string option"
  pv_cwd :: string
  pv_join :: "string \<Rightarrow> string \<Rightarrow> string"
  pv_dirname :: "string \<Rightarrow> string"
  pv_clear_tracker :: "unit outcome"
  pv_mkdir :: "string \<Rightarrow> unit outcome"
  pv_write :: "string \<Rightarrow> unit outcome"

definition plan_init :: plan_state where
  "plan_init = \<lparr>ps_active = False, ps_id = None, ps_path = None\<rparr>"

definition plan_file_path_for :: "plan_env \<Rightarrow> string \<Rightarrow> string" where
  "plan_file_path_for ev i =
     (let dir = (case pv_homedir ev of None \<Rightarrow> pv_join ev (pv_cwd ev) ''plan''
                 | Some h \<Rightarrow> pv_join ev h ''plans'')
      in pv_join ev dir (i @ ''.md''))"

definition plan_cancel :: "string option \<Rightarrow> plan_state \<Rightarrow> plan_state \<times> plan_record list \<times> mode_effect list" where
  "plan_cancel i s =
     (s\<lparr>ps_active := False, ps_id := None, ps_path := None\<rparr>, [RecPlanCancel i],
      [PushPlanUpdated False, ClearPlanTracker, EmitStatus])"

definition plan_exit :: "string option \<Rightarrow> plan_state \<Rightarrow> plan_state \<times> plan_record list \<times> mode_effect list" where
  "plan_exit i s =
     (s\<lparr>ps_active := False, ps_id := None, ps_path := None\<rparr>, [RecPlanExit i],
      [PushPlanUpdated False, EmitStatus])"

definition ensure_plan_directory :: "plan_env \<Rightarrow> string \<Rightarrow> unit outcome" where
  "ensure_plan_directory ev path = pv_mkdir ev (pv_dirname ev path)"

definition write_empty_plan_file :: "plan_env \<Rightarrow> string \<Rightarrow> unit outcome \<times> mode_effect list" where
  "write_empty_plan_file ev path =
     (case ensure_plan_directory ev path of
        Threw e \<Rightarrow> (Threw e, [])
      | Returned _ \<Rightarrow>
          (case pv_write ev path of
             Threw e \<Rightarrow> (Threw e, [MakeDirectory (pv_dirname ev path)])
           | Returned _ \<Rightarrow> (Returned (), [MakeDirectory (pv_dirname ev path), WriteEmptyFile path])))"

text \<open>
  \<open>enter\<close>: the \<open>try\<close> block, then the \<open>catch\<close> that cancels an entry already recorded and
  otherwise resets the fields.
\<close>

definition plan_enter ::
  "plan_env \<Rightarrow> string \<Rightarrow> bool \<Rightarrow> bool \<Rightarrow> plan_state \<Rightarrow>
   unit outcome \<times> plan_state \<times> plan_record list \<times> mode_effect list" where
  "plan_enter ev i create_file emit_status s =
     (if ps_active s then (Threw (plain_error ''Already in plan mode''), s, [], [])
      else case pv_clear_tracker ev of
        Threw e \<Rightarrow> (Threw e, s, [], [])
      | Returned _ \<Rightarrow>
          (let path = plan_file_path_for ev i;
               s1 = s\<lparr>ps_active := True, ps_id := Some i, ps_path := Some path\<rparr>
           in case ensure_plan_directory ev path of
                Threw e \<Rightarrow>
                  (Threw e, s1\<lparr>ps_active := False, ps_id := None, ps_path := None\<rparr>, [], [ClearPlanTracker])
              | Returned _ \<Rightarrow>
                  (let fx = [ClearPlanTracker, MakeDirectory (pv_dirname ev path)];
                       (r, wfx) = (if create_file then write_empty_plan_file ev path else (Returned (), []))
                   in case r of
                        Threw e \<Rightarrow>
                          (let (s2, recs, cfx) = plan_cancel (Some i) s1
                           in (Threw e, s2, [RecPlanEnter i] @ recs, fx @ wfx @ cfx))
                      | Returned _ \<Rightarrow>
                          (Returned (), s1, [RecPlanEnter i],
                           fx @ wfx @ (if emit_status then [EmitStatus] else [])))))"

definition plan_restore_enter :: "plan_env \<Rightarrow> string \<Rightarrow> plan_state \<Rightarrow> plan_state" where
  "plan_restore_enter ev i s =
     s\<lparr>ps_active := True, ps_id := Some i, ps_path := Some (plan_file_path_for ev i)\<rparr>"

text \<open>\<open>clear\<close> empties the plan file of an active plan; an empty path is falsy in JavaScript.\<close>

definition plan_clear :: "plan_env \<Rightarrow> plan_state \<Rightarrow> unit outcome \<times> mode_effect list" where
  "plan_clear ev s =
     (case ps_path s of
        None \<Rightarrow> (Returned (), [])
      | Some p \<Rightarrow> if p = [] then (Returned (), []) else write_empty_plan_file ev p)"

text \<open>
  \<open>data\<close>: the argument says how reading the file ends; \<open>Inl True\<close> is an error whose code is
  \<open>ENOENT\<close>, which reads as an empty plan.
\<close>

record plan_data =
  pd_id :: string
  pd_content :: string
  pd_path :: string

definition plan_data_of :: "(string \<Rightarrow> (bool \<times> js_error) + string) \<Rightarrow> plan_state \<Rightarrow> plan_data option outcome" where
  "plan_data_of read s =
     (case (ps_id s, ps_path s) of
        (Some i, Some p) \<Rightarrow>
          (if i = [] \<or> p = [] then Returned None
           else case read p of
                  Inr content \<Rightarrow> Returned (Some \<lparr>pd_id = i, pd_content = content, pd_path = p\<rparr>)
                | Inl (missing, e) \<Rightarrow>
                    if missing then Returned (Some \<lparr>pd_id = i, pd_content = [], pd_path = p\<rparr>)
                    else Threw e)
      | _ \<Rightarrow> Returned None)"

subsubsection \<open>Sessions of plan mode\<close>

datatype plan_op =
    OpPlanEnter plan_env string bool bool
  | OpPlanCancel "string option"
  | OpPlanExit "string option"

text \<open>
  A session runs in one agent, whose home directory, working directory and path functions
  do not change; whether file system calls throw does.
\<close>

definition in_agent :: "plan_env \<Rightarrow> plan_env \<Rightarrow> plan_env" where
  "in_agent ev ev' = ev'\<lparr>pv_homedir := pv_homedir ev, pv_cwd := pv_cwd ev, pv_join := pv_join ev\<rparr>"

fun plan_step :: "plan_env \<Rightarrow> plan_state \<Rightarrow> plan_op \<Rightarrow> plan_state \<times> plan_record list" where
  "plan_step ev s (OpPlanEnter ev' i create emit) =
     (let (_, s', recs, _) = plan_enter (in_agent ev ev') i create emit s in (s', recs))"
| "plan_step ev s (OpPlanCancel i) = (let (s', recs, _) = plan_cancel i s in (s', recs))"
| "plan_step ev s (OpPlanExit i) = (let (s', recs, _) = plan_exit i s in (s', recs))"

text \<open>The plan mode cases of \<open>restoreAgentRecord\<close>.\<close>

fun plan_restore :: "plan_env \<Rightarrow> plan_state \<Rightarrow> plan_record \<Rightarrow> plan_state" where
  "plan_restore ev s (RecPlanEnter i) = plan_restore_enter ev i s"
| "plan_restore ev s (RecPlanCancel i) = fst (plan_cancel i s)"
| "plan_restore ev s (RecPlanExit i) = fst (plan_exit i s)"

definition plan_inv :: "plan_env \<Rightarrow> plan_state \<Rightarrow> bool" where
  "plan_inv ev s =
     (if ps_active s then (case ps_id s of None \<Rightarrow> False | Some i \<Rightarrow> ps_path s = Some (plan_file_path_for ev i))
      else ps_id s = None \<and> ps_path s = None)"

lemma plan_file_path_in_agent [simp]: "plan_file_path_for (in_agent ev ev') i = plan_file_path_for ev i"
  by (simp add: plan_file_path_for_def in_agent_def split: option.split)

lemma plan_enter_cases:
  assumes "plan_enter ev i create emit s = (r, s', recs, fx)"
  obtains (refused) e where "r = Threw e" "s' = s" "recs = []"
  | (no_directory) e where "r = Threw e" "\<not> ps_active s"
      "s' = s\<lparr>ps_active := False, ps_id := None, ps_path := None\<rparr>" "recs = []"
  | (no_file) e where "r = Threw e" "\<not> ps_active s"
      "s' = s\<lparr>ps_active := False, ps_id := None, ps_path := None\<rparr>"
      "recs = [RecPlanEnter i, RecPlanCancel (Some i)]"
  | (entered) "r = Returned ()" "\<not> ps_active s"
      "s' = s\<lparr>ps_active := True, ps_id := Some i, ps_path := Some (plan_file_path_for ev i)\<rparr>"
      "recs = [RecPlanEnter i]"
proof (cases "ps_active s")
  case True
  with assms show thesis
    by (auto simp: plan_enter_def intro: refused)
next
  case inactive: False
  note [simp] = plan_enter_def inactive plan_cancel_def Let_def
  show thesis
  proof (cases "pv_clear_tracker ev")
    case (Threw e)
    with assms show thesis
      by (intro refused [of e]) auto
  next
    case cleared: (Returned u)
    show thesis
    proof (cases "ensure_plan_directory ev (plan_file_path_for ev i)")
      case (Threw e)
      with assms cleared show thesis
        by (intro no_directory [of e]) (auto simp: inactive)
    next
      case dir: (Returned u')
      show thesis
      proof (cases "fst (if create then write_empty_plan_file ev (plan_file_path_for ev i) else (Returned (), []))")
        case (Threw e)
        with assms cleared dir show thesis
          by (intro no_file [of e]) (auto simp: inactive split_beta)
      next
        case (Returned u'')
        with assms cleared dir show thesis
          by (intro entered) (auto simp: inactive split_beta)
      qed
    qed
  qed
qed

lemma plan_step_replays:
  assumes "plan_inv ev s"
  shows "plan_inv ev (fst (plan_step ev s a)) \<and>
    foldl (plan_restore ev) s (snd (plan_step ev s a)) = fst (plan_step ev s a)"
proof (cases a)
  case (OpPlanEnter ev' i create emit)
  obtain r s' recs fx where e: "plan_enter (in_agent ev ev') i create emit s = (r, s', recs, fx)"
    using prod_cases4 by blast
  from e show ?thesis
    by (cases rule: plan_enter_cases)
      (use assms e in \<open>auto simp: OpPlanEnter plan_inv_def plan_restore_enter_def plan_cancel_def\<close>)
qed (auto simp: plan_cancel_def plan_exit_def plan_inv_def)

interpretation plan_log: event_sourced "plan_step ev" "plan_restore ev" "plan_inv ev" id
  by unfold_locales (use plan_step_replays in \<open>auto simp del: plan_step.simps\<close>)

text \<open>
  Resuming plan mode. Whatever sequence of \<open>enter\<close>, \<open>cancel\<close> and \<open>exit\<close> an agent ran, and
  whichever of its directory and file calls threw, replaying the records it logged on a fresh
  plan mode rebuilds exactly the same activity, plan id and plan file path; and plan mode is
  active exactly while it has an id and the path that belongs to that id.
\<close>

theorem plan_mode_resume:
  "foldl (plan_restore ev) plan_init (snd (run_logged (plan_step ev) plan_init as)) =
     fst (run_logged (plan_step ev) plan_init as) \<and>
   plan_inv ev (fst (run_logged (plan_step ev) plan_init as))"
proof -
  have "plan_inv ev plan_init"
    by (simp add: plan_inv_def plan_init_def)
  then show ?thesis
    using plan_log.run_replays plan_log.run_logged_inv by simp
qed

text \<open>
  A plan mode that could not be entered is left. When \<open>enter\<close> throws, plan mode is as
  inactive or active as it was, an inactive agent keeps no plan id and no path, and no
  entry stays in the log without its cancellation.
\<close>

theorem failed_plan_enter:
  assumes "plan_enter ev i create emit s = (Threw e, s', recs, fx)" and "plan_inv ev s"
  shows "s' = s \<and> (recs = [] \<or> recs = [RecPlanEnter i, RecPlanCancel (Some i)])"
  using assms(1) by (cases rule: plan_enter_cases) (use assms(2) in \<open>auto simp: plan_inv_def\<close>)

definition sample_plan_env :: plan_env where
  "sample_plan_env =
     \<lparr>pv_homedir = Some ''/home'', pv_cwd = ''/work'', pv_join = (\<lambda>a b. a @ ''/'' @ b),
      pv_dirname = (\<lambda>p. ''/home/plans''), pv_clear_tracker = Returned (),
      pv_mkdir = (\<lambda>p. Returned ()), pv_write = (\<lambda>p. Threw (plain_error ''EACCES''))\<rparr>"

lemma failed_plan_enter_witness:
  "let (r, s, recs, fx) = plan_enter sample_plan_env ''p1'' True True plan_init
   in s = plan_init \<and> (recs = [] \<or> recs = [RecPlanEnter ''p1'', RecPlanCancel (Some ''p1'')])"
proof -
  obtain e s' recs fx where run: "plan_enter sample_plan_env ''p1'' True True plan_init = (Threw e, s', recs, fx)"
    by (simp add: plan_enter_def sample_plan_env_def plan_init_def write_empty_plan_file_def
        ensure_plan_directory_def plan_cancel_def Let_def)
  have inv: "plan_inv sample_plan_env plan_init"
    by code_simp
  show ?thesis
    using failed_plan_enter [OF run inv] by (simp add: run)
qed

subsection \<open>Swarm mode\<close>

datatype swarm_trigger = Trigger_Manual | Trigger_Task | Trigger_Tool

datatype swarm_record = RecSwarmEnter swarm_trigger | RecSwarmExit

type_synonym swarm_state = "swarm_trigger option"

definition swarm_enter :: "swarm_trigger \<Rightarrow> swarm_state \<Rightarrow> swarm_state \<times> swarm_record list \<times> mode_effect list" where
  "swarm_enter t s =
     (if s \<noteq> None then (s, [], [])
      else (Some t, [RecSwarmEnter t],
            (if t \<noteq> Trigger_Tool then [AppendReminder ''enter''] else []) @ [EmitStatus]))"

text \<open>
  \<open>exit\<close>: \<open>popped\<close> is what \<open>context.popMatchedMessage\<close> returns, whether the enter reminder was
  the last message and is gone; \<open>restoring\<close> is \<open>records.restoring\<close>.
\<close>

definition swarm_exit :: "bool \<Rightarrow> bool \<Rightarrow> swarm_state \<Rightarrow> swarm_state \<times> swarm_record list \<times> mode_effect list" where
  "swarm_exit popped restoring s =
     (case s of
        None \<Rightarrow> (s, [], [])
      | Some t \<Rightarrow>
          (None, [RecSwarmExit],
           [EmitStatus] @
           (if t = Trigger_Tool then []
            else if popped then [PopReminder]
            else if \<not> restoring then [AppendReminder ''exit''] else [])))"

definition swarm_is_active :: "swarm_state \<Rightarrow> bool" where
  "swarm_is_active s = (s \<noteq> None)"

definition swarm_should_auto_exit :: "swarm_state \<Rightarrow> bool" where
  "swarm_should_auto_exit s = (s = Some Trigger_Task \<or> s = Some Trigger_Tool)"

datatype swarm_op = OpSwarmEnter swarm_trigger | OpSwarmExit bool

fun swarm_apply :: "swarm_state \<Rightarrow> swarm_op \<Rightarrow> swarm_state \<times> swarm_record list \<times> mode_effect list" where
  "swarm_apply s (OpSwarmEnter t) = swarm_enter t s"
| "swarm_apply s (OpSwarmExit popped) = swarm_exit popped False s"

definition swarm_step :: "swarm_state \<Rightarrow> swarm_op \<Rightarrow> swarm_state \<times> swarm_record list" where
  "swarm_step s a = (let (s', recs, _) = swarm_apply s a in (s', recs))"

text \<open>The swarm mode cases of \<open>restoreAgentRecord\<close>; \<open>restoreEnter\<close> sets the trigger unconditionally.\<close>

fun swarm_restore :: "swarm_state \<Rightarrow> swarm_record \<Rightarrow> swarm_state" where
  "swarm_restore s (RecSwarmEnter t) = Some t"
| "swarm_restore s RecSwarmExit = fst (swarm_exit False True s)"

lemma swarm_step_replays: "foldl swarm_restore s (snd (swarm_step s a)) = fst (swarm_step s a)"
  by (cases a; cases s) (auto simp: swarm_step_def swarm_enter_def swarm_exit_def)

interpretation swarm_log: event_sourced swarm_step swarm_restore "\<lambda>_. True" id
  by unfold_locales (use swarm_step_replays in auto)

text \<open>The effects of a session on the model's context, in order.\<close>

fun swarm_effects :: "swarm_state \<Rightarrow> swarm_op list \<Rightarrow> mode_effect list" where
  "swarm_effects s [] = []"
| "swarm_effects s (a # as) =
     (let (s', _, fx) = swarm_apply s a in fx @ swarm_effects s' as)"

definition reminder_balance :: "mode_effect list \<Rightarrow> int" where
  "reminder_balance fx =
     int (count_list fx (AppendReminder ''enter'')) - int (count_list fx (AppendReminder ''exit'')) -
     int (count_list fx PopReminder)"

lemma count_list_append_fx: "reminder_balance (fx @ gx) = reminder_balance fx + reminder_balance gx"
  by (simp add: reminder_balance_def)

definition owes_reminder :: "swarm_state \<Rightarrow> int" where
  "owes_reminder s = (if s = Some Trigger_Manual \<or> s = Some Trigger_Task then 1 else 0)"

lemma swarm_apply_balance:
  "reminder_balance (snd (snd (swarm_apply s a))) = owes_reminder (fst (swarm_apply s a)) - owes_reminder s"
proof (cases a)
  case (OpSwarmEnter t)
  then show ?thesis
    by (cases t) (auto simp: swarm_enter_def reminder_balance_def owes_reminder_def)
next
  case (OpSwarmExit popped)
  then show ?thesis
    by (cases s; cases "the s") (auto simp: swarm_exit_def reminder_balance_def owes_reminder_def)
qed

lemma fst_swarm_step: "fst (swarm_step s a) = fst (swarm_apply s a)"
  by (simp add: swarm_step_def split_beta)

lemma swarm_effects_balance:
  "reminder_balance (swarm_effects s as) = owes_reminder (fst (run_logged swarm_step s as)) - owes_reminder s"
proof (induction as arbitrary: s)
  case Nil
  then show ?case
    by (simp add: run_logged_Nil reminder_balance_def)
next
  case (Cons a as)
  then show ?case
    by (simp add: run_logged_Cons fst_swarm_step split_beta Let_def count_list_append_fx swarm_apply_balance)
qed

text \<open>
  Swarm mode and its reminders. Replaying the log of any session rebuilds the trigger, and
  over the whole session every enter reminder put into the conversation is matched by one exit
  reminder or by its removal, except the one of a manual or task swarm that is still active.
\<close>

theorem swarm_mode_resume:
  "foldl swarm_restore None (snd (run_logged swarm_step None as)) = fst (run_logged swarm_step None as) \<and>
   reminder_balance (swarm_effects None as) = owes_reminder (fst (run_logged swarm_step None as))"
proof -
  have "owes_reminder None = 0"
    by (simp add: owes_reminder_def)
  then show ?thesis
    using swarm_log.run_replays [of None as] swarm_effects_balance [of None as] by simp
qed

end
