(* ===== verification/Permission_Policies.thy ===== *)
theory Permission_Policies
  imports Permission_Rules Git_Worktree Agent_Modes
begin

text \<open>
  The decision policies of \<open>agent/permission/policies\<close> and their order. A policy is a
  function of its environment, the state of the agent and the call; it has no opinion
  (\<open>None\<close>) or decides. The permission managers of an agent and of its ancestors are a list,
  the agent's own first, which is how \<open>parent\<close> is followed.

  Arguments of the model: the \<open>PreToolUse\<close> hook, \<open>picomatch\<close>, \<open>pathe\<close>, \<open>path.relative\<close> of Node,
  the \<open>Kaos\<close> backend. The policies awaited in between are taken to see one state. Telemetry is
  left out; the dash in two messages, which is not Latin-1, is a hyphen.
\<close>

subsection \<open>State and context\<close>

datatype reason_value = RV_String string | RV_Number nat | RV_Bool bool

type_synonym decision_reason = "(string \<times> reason_value) list"

record plan_option =
  po_label :: string
  po_description :: string

record plan_review =
  pw_plan :: string
  pw_path :: "string option"
  pw_options :: "plan_option list option"

datatype tool_display = Display_Plan_Review plan_review | Display_Goal_Start | Display_Other string

record permission_execution =
  xe_accesses :: "tool_accesses option"
  xe_display :: "tool_display option"
  xe_description :: "string option"
  xe_approval_rule :: string
  xe_matches :: rule_matcher

record permission_context =
  cx_name :: string
  cx_id :: string
  cx_batch :: "string list"
  cx_exec :: permission_execution

datatype resolver = Resolve_Plan plan_review | Resolve_Goal

datatype policy_result =
    P_Approve "decision_reason option" "string option"
  | P_Deny "decision_reason option" "string option"
  | P_Ask "decision_reason option" "resolver option"

record permission_manager =
  mg_override :: "permission_mode option"
  mg_rules :: "permission_rule list"
  mg_session :: "string list"

record agent_state =
  ag_own :: permission_manager
  ag_parents :: "permission_manager list"
  ag_plan :: plan_state
  ag_swarm :: swarm_state

record permission_env =
  en_is_sub :: bool
  en_cwd :: string
  en_dirs :: "string list"
  en_class :: path_class
  en_pathe :: pathe
  en_relative :: "path_class \<Rightarrow> string \<Rightarrow> string \<Rightarrow> string"
  en_kaos :: kaos
  en_is_match :: "string \<Rightarrow> string \<Rightarrow> bool"
  en_hook :: "permission_context \<Rightarrow> string option option outcome"
  en_aborted :: "js_error option"

fun manager_mode :: "permission_manager list \<Rightarrow> permission_mode" where
  "manager_mode [] = Mode_Manual"
| "manager_mode (m # parents) =
     (case mg_override m of Some mode \<Rightarrow> mode | None \<Rightarrow> manager_mode parents)"

fun effective_rules :: "permission_manager list \<Rightarrow> permission_rule list" where
  "effective_rules [] = []"
| "effective_rules (m # parents) = mg_rules m @ effective_rules parents"

fun session_patterns :: "permission_manager list \<Rightarrow> string list" where
  "session_patterns [] = []"
| "session_patterns (m # parents) = mg_session m @ session_patterns parents"

definition ag_managers :: "agent_state \<Rightarrow> permission_manager list" where
  "ag_managers st = ag_own st # ag_parents st"

definition ag_mode :: "agent_state \<Rightarrow> permission_mode" where
  "ag_mode st = manager_mode (ag_managers st)"

type_synonym policy = "permission_env \<Rightarrow> agent_state \<Rightarrow> permission_context \<Rightarrow> policy_result option"

definition approve :: policy_result where
  "approve = P_Approve None None"

subsection \<open>Accesses\<close>

definition file_accesses :: "permission_context \<Rightarrow> file_access list" where
  "file_accesses cx =
     (case xe_accesses (cx_exec cx) of
        None \<Rightarrow> []
      | Some accs \<Rightarrow> List.map_filter (\<lambda>a. case a of FileAccess f \<Rightarrow> Some f | AccessAll \<Rightarrow> None) accs)"

definition write_file_accesses :: "permission_context \<Rightarrow> file_access list" where
  "write_file_accesses cx =
     filter (\<lambda>a. fa_operation a = OpWrite \<or> fa_operation a = OpReadWrite) (file_accesses cx)"

fun operation_name :: "file_operation \<Rightarrow> string" where
  "operation_name OpRead = ''read''"
| "operation_name OpWrite = ''write''"
| "operation_name OpReadWrite = ''readwrite''"
| "operation_name OpSearch = ''search''"

definition file_access_reason :: "file_access \<Rightarrow> decision_reason \<Rightarrow> decision_reason" where
  "file_access_reason a extra =
     [(''file_access_operation'', RV_String (operation_name (fa_operation a))),
      (''recursive'', RV_Bool (fa_recursive a = Some True))] @ extra"

fun split_at :: "(char \<Rightarrow> bool) \<Rightarrow> string \<Rightarrow> string list" where
  "split_at p [] = [[]]"
| "split_at p (c # cs) =
     (if p c then [] # split_at p cs
      else (case split_at p cs of [] \<Rightarrow> [[c]] | s # ss \<Rightarrow> (c # s) # ss))"

definition relative_path_parts :: "permission_env \<Rightarrow> string \<Rightarrow> string \<Rightarrow> path_class \<Rightarrow> string list" where
  "relative_path_parts ev target cwd cls =
     filter (\<lambda>part. length part > 0)
       (split_at (\<lambda>c. c = CHR ''/'' \<or> c = CHR 0x5C) (en_relative ev cls cwd target))"

definition has_git_component :: "permission_env \<Rightarrow> string \<Rightarrow> string \<Rightarrow> path_class \<Rightarrow> bool" where
  "has_git_component ev target cwd cls =
     list_ex (\<lambda>part. to_lower part = ''.git'') (relative_path_parts ev target cwd cls)"

definition is_git_control_path :: "permission_env \<Rightarrow> string \<Rightarrow> git_marker \<Rightarrow> path_class \<Rightarrow> bool" where
  "is_git_control_path ev target marker cls =
     (is_within_directory (en_pathe ev) target (gm_dot_git marker) cls \<or>
      is_within_directory (en_pathe ev) target (gm_control_dir marker) cls)"

subsection \<open>Policies that deny\<close>

definition pre_tool_call_hook :: "permission_env \<Rightarrow> agent_state \<Rightarrow> permission_context \<Rightarrow> policy_result option outcome" where
  "pre_tool_call_hook ev st cx =
     (case en_hook ev cx of
        Threw e \<Rightarrow> Threw e
      | Returned blocked \<Rightarrow>
          (case en_aborted ev of
             Some e \<Rightarrow> Threw e
           | None \<Rightarrow>
               (case blocked of None \<Rightarrow> Returned None
                | Some reason \<Rightarrow> Returned (Some (P_Deny None reason)))))"

definition multiple_swarm_message :: "bool \<Rightarrow> string" where
  "multiple_swarm_message others =
     ''AgentSwarm must be called one swarm at a time. Multiple AgentSwarm calls are not forbidden, '' @
     ''but issue them sequentially: call one AgentSwarm, wait for its result, then call the next; '' @
     ''or merge the work into a single AgentSwarm when one swarm can cover it.'' @
     (if others then '' AgentSwarm also must not be combined with other tools in the same response.''
      else [])"

definition mixed_swarm_message :: string where
  "mixed_swarm_message =
     ''AgentSwarm must be the only tool call in a model response. Retry with a single AgentSwarm '' @
     ''call by itself, then call any other tools after it returns.''"

definition agent_swarm_exclusive_deny :: policy where
  "agent_swarm_exclusive_deny ev st cx =
     (let n = length (filter (\<lambda>name. name = ''AgentSwarm'') (cx_batch cx)); total = length (cx_batch cx)
      in if n = 0 then None
         else if n = 1 \<and> total = 1 then None
         else Some (P_Deny
           (Some [(''agent_swarm_tool_calls'', RV_Number n), (''tool_calls'', RV_Number total)])
           (Some (if n > 1 then multiple_swarm_message (total > n) else mixed_swarm_message))))"

definition auto_mode_ask_user_question_deny :: policy where
  "auto_mode_ask_user_question_deny ev st cx =
     (if ag_mode st \<noteq> Mode_Auto then None
      else if cx_name cx \<noteq> ''AskUserQuestion'' then None
      else Some (P_Deny None (Some
        ''AskUserQuestion is disabled while auto permission mode is active. Make a reasonable decision and continue without asking the user.'')))"

definition guard_writes_only_plan_file :: "permission_context \<Rightarrow> string \<Rightarrow> bool" where
  "guard_writes_only_plan_file cx plan_file =
     (let writes = write_file_accesses cx
      in if length writes = 0 then False else list_all (\<lambda>a. fa_path a = plan_file) writes)"

definition plan_write_denied_message :: "string option \<Rightarrow> string" where
  "plan_write_denied_message plan_file =
     ''Plan mode is active. You may only write to the current plan file: '' @
     opt_or plan_file ''(no plan file selected yet)'' @ ''. '' @
     ''Call ExitPlanMode to exit plan mode before editing other files.''"

definition plan_mode_guard_deny :: policy where
  "plan_mode_guard_deny ev st cx =
     (let tool = cx_name cx; plan = ag_plan st
      in if \<not> ps_active plan then None
         else if tool = ''Write'' \<or> tool = ''Edit'' then
           (case ps_path plan of
              None \<Rightarrow> Some (P_Deny None (Some (plan_write_denied_message (ps_path plan))))
            | Some p \<Rightarrow>
                if guard_writes_only_plan_file cx p then None
                else Some (P_Deny None (Some (plan_write_denied_message (ps_path plan)))))
         else if tool = ''TaskStop'' then
           Some (P_Deny None (Some
             ''TaskStop is not available in plan mode. Call ExitPlanMode to exit plan mode before stopping a background task.''))
         else if tool = ''CronCreate'' \<or> tool = ''CronDelete'' then
           Some (P_Deny None (Some (tool @
             '' is not available in plan mode because it would mutate scheduled work that runs after plan exit. Call ExitPlanMode first.'')))
         else None)"

definition user_configured_scope :: "rule_scope \<Rightarrow> bool" where
  "user_configured_scope s = (s \<in> {Turn_Override, Scope_Project, Scope_User})"

fun first_matching :: "(string \<Rightarrow> string \<Rightarrow> bool) \<Rightarrow> string \<Rightarrow> rule_matcher \<Rightarrow> rule_decision \<Rightarrow>
    permission_rule list \<Rightarrow> rule_match option" where
  "first_matching is_match tool matches d [] = None"
| "first_matching is_match tool matches d (r # rs) =
     (if rl_decision r \<noteq> d then first_matching is_match tool matches d rs
      else case match_rule is_match r tool matches of
        Some m \<Rightarrow> Some m
      | None \<Rightarrow> first_matching is_match tool matches d rs)"

definition first_matching_rule :: "permission_env \<Rightarrow> agent_state \<Rightarrow> permission_context \<Rightarrow> rule_decision \<Rightarrow> rule_match option" where
  "first_matching_rule ev st cx d =
     first_matching (en_is_match ev) (cx_name cx) (xe_matches (cx_exec cx)) d
       (filter (\<lambda>r. user_configured_scope (rl_scope r)) (effective_rules (ag_managers st)))"

fun strategy_name :: "match_strategy \<Rightarrow> string" where
  "strategy_name Tool_Name_Only = ''tool_name_only''"
| "strategy_name Matches_Rule = ''matches_rule''"

definition user_rule_reason :: "string \<Rightarrow> rule_match \<Rightarrow> decision_reason" where
  "user_rule_reason d m =
     [(''rule_decision'', RV_String d), (''has_rule_args'', RV_Bool (rm_has_args m)),
      (''match_strategy'', RV_String (strategy_name (rm_strategy m)))]"

definition reason_suffix :: "string option \<Rightarrow> string" where
  "reason_suffix r =
     (case r of None \<Rightarrow> [] | Some t \<Rightarrow> if length t > 0 then '' Reason: '' @ t else [])"

definition sub_agent_advice :: string where
  "sub_agent_advice =
     '' Try a different approach - don't retry the same call, don't attempt to bypass the restriction.''"

definition tool_quoted :: "string \<Rightarrow> string" where
  "tool_quoted name = ''Tool '' @ [CHR 0x22] @ name @ [CHR 0x22]"

definition rule_deny_message :: "string \<Rightarrow> string option \<Rightarrow> bool \<Rightarrow> string" where
  "rule_deny_message tool reason is_sub =
     (if is_sub then tool_quoted tool @ '' was denied.'' @ reason_suffix reason @ sub_agent_advice
      else tool_quoted tool @ '' was denied by permission rule.'' @ reason_suffix reason)"

definition user_configured_deny :: policy where
  "user_configured_deny ev st cx =
     map_option (\<lambda>m. P_Deny (Some (user_rule_reason ''deny'' m))
         (Some (rule_deny_message (cx_name cx) (rl_reason (rm_rule m)) (en_is_sub ev))))
       (first_matching_rule ev st cx Rule_Deny)"

definition user_configured_allow :: policy where
  "user_configured_allow ev st cx =
     map_option (\<lambda>m. P_Approve (Some (user_rule_reason ''allow'' m)) None)
       (first_matching_rule ev st cx Rule_Allow)"

definition user_configured_ask :: policy where
  "user_configured_ask ev st cx =
     map_option (\<lambda>m. P_Ask (Some (user_rule_reason ''ask'' m)) None)
       (first_matching_rule ev st cx Rule_Ask)"

subsection \<open>Policies that approve or ask\<close>

definition auto_mode_approve :: policy where
  "auto_mode_approve ev st cx = (if ag_mode st \<noteq> Mode_Auto then None else Some approve)"

definition session_rule :: "string \<Rightarrow> permission_rule" where
  "session_rule pattern =
     \<lparr>rl_decision = Rule_Allow, rl_scope = Session_Runtime, rl_pattern = pattern,
      rl_reason = Some ''approve for session''\<rparr>"

fun match_session_rule :: "(string \<Rightarrow> string \<Rightarrow> bool) \<Rightarrow> string \<Rightarrow> rule_matcher \<Rightarrow> string list \<Rightarrow> rule_match option" where
  "match_session_rule is_match tool matches [] = None"
| "match_session_rule is_match tool matches (p # ps) =
     (case match_rule is_match (session_rule p) tool matches of
        Some m \<Rightarrow> Some m
      | None \<Rightarrow> match_session_rule is_match tool matches ps)"

definition session_approval_history :: policy where
  "session_approval_history ev st cx =
     map_option (\<lambda>m. P_Approve (Some [(''has_rule_args'', RV_Bool (rm_has_args m)),
           (''match_strategy'', RV_String (strategy_name (rm_strategy m)))]) None)
       (match_session_rule (en_is_match ev) (cx_name cx) (xe_matches (cx_exec cx))
          (session_patterns (ag_managers st)))"

definition exit_plan_mode_review_ask :: policy where
  "exit_plan_mode_review_ask ev st cx =
     (if cx_name cx \<noteq> ''ExitPlanMode'' then None
      else if ag_mode st = Mode_Auto then None
      else if \<not> ps_active (ag_plan st) then None
      else case xe_display (cx_exec cx) of
        Some (Display_Plan_Review review) \<Rightarrow>
          if length (js_trim (pw_plan review)) = 0 then None
          else Some (P_Ask (Some [(''has_options'', RV_Bool (pw_options review \<noteq> None))])
                       (Some (Resolve_Plan review)))
      | _ \<Rightarrow> None)"

definition goal_start_review_ask :: policy where
  "goal_start_review_ask ev st cx =
     (if cx_name cx \<noteq> ''CreateGoal'' then None
      else if ag_mode st = Mode_Auto then None
      else if xe_display (cx_exec cx) \<noteq> Some Display_Goal_Start then None
      else Some (P_Ask None (Some Resolve_Goal)))"

definition approve_writes_only_plan_file :: "permission_context \<Rightarrow> string option \<Rightarrow> bool" where
  "approve_writes_only_plan_file cx plan_file =
     (case plan_file of None \<Rightarrow> False
      | Some p \<Rightarrow> list_all (\<lambda>a. fa_path a = p) (write_file_accesses cx))"

definition plan_mode_tool_approve :: policy where
  "plan_mode_tool_approve ev st cx =
     (let tool = cx_name cx; plan = ag_plan st
      in if tool = ''EnterPlanMode'' then Some approve
         else if (tool = ''Write'' \<or> tool = ''Edit'') \<and> ps_active plan \<and>
           approve_writes_only_plan_file cx (ps_path plan) then Some approve
         else if tool = ''ExitPlanMode'' then
           (if \<not> ps_active plan then Some approve
            else case xe_display (cx_exec cx) of
              Some (Display_Plan_Review review) \<Rightarrow>
                if length (js_trim (pw_plan review)) > 0 then None else Some approve
            | _ \<Rightarrow> Some approve)
         else None)"

definition sensitive_file_access_ask :: policy where
  "sensitive_file_access_ask ev st cx =
     map_option (\<lambda>a. P_Ask (Some (file_access_reason a [(''sensitive_path'', RV_Bool True)])) None)
       (List.find (\<lambda>a. is_sensitive_file (en_pathe ev) (fa_path a)) (file_accesses cx))"

definition git_control_path_access_ask :: policy where
  "git_control_path_access_ask ev st cx =
     (let cwd = en_cwd ev; cls = en_class ev; accs = file_accesses cx;
          asks = (\<lambda>a. P_Ask (Some (file_access_reason a [(''git_control_path'', RV_Bool True)])) None)
      in if length cwd = 0 then None
         else if length accs = 0 then None
         else case List.find (\<lambda>a. has_git_component ev (fa_path a) cwd cls) accs of
           Some a \<Rightarrow> Some (asks a)
         | None \<Rightarrow>
             (case find_git_marker (en_pathe ev) (en_kaos ev) cwd of
                None \<Rightarrow> None
              | Some marker \<Rightarrow>
                  map_option asks (List.find (\<lambda>a. is_git_control_path ev (fa_path a) marker cls) accs)))"

definition yolo_mode_approve :: policy where
  "yolo_mode_approve ev st cx = (if ag_mode st \<noteq> Mode_Yolo then None else Some approve)"

definition swarm_mode_agent_swarm_approve :: policy where
  "swarm_mode_agent_swarm_approve ev st cx =
     (if cx_name cx \<noteq> ''AgentSwarm'' then None
      else if \<not> swarm_is_active (ag_swarm st) then None
      else Some approve)"

definition default_approve_tools :: "string list" where
  "default_approve_tools =
     [''Read'', ''Grep'', ''Glob'', ''ReadMediaFile'', ''SetTodoList'', ''TodoList'', ''TaskList'',
      ''TaskOutput'', ''CronList'', ''WebSearch'', ''FetchURL'', ''Agent'', ''AskUserQuestion'',
      ''Skill'', ''GetGoal'', ''SetGoalBudget'', ''UpdateGoal'']"

definition default_tool_approve :: policy where
  "default_tool_approve ev st cx =
     (if cx_name cx \<notin> set default_approve_tools then None else Some approve)"

definition git_cwd_write_approve :: policy where
  "git_cwd_write_approve ev st cx =
     (let tool = cx_name cx; cwd = en_cwd ev; writes = write_file_accesses cx
      in if tool \<noteq> ''Write'' \<and> tool \<noteq> ''Edit'' then None
         else if en_class ev \<noteq> Posix then None
         else if length cwd = 0 then None
         else if length writes = 0 then None
         else if \<not> list_all (\<lambda>a. is_within_workspace (en_pathe ev) (fa_path a)
             \<lparr>wc_dir = cwd, wc_additional = en_dirs ev\<rparr> Posix) writes then None
         else case find_git_marker (en_pathe ev) (en_kaos ev) cwd of
           None \<Rightarrow> None
         | Some _ \<Rightarrow> Some approve)"

definition fallback_ask :: policy where
  "fallback_ask ev st cx = Some (P_Ask None None)"

text \<open>The policy of a side question, used in place of the chain by its own agent.\<close>

definition deny_all :: "string \<Rightarrow> policy" where
  "deny_all message ev st cx = Some (P_Deny (Some [(''source'', RV_String ''side_question'')]) (Some message))"

subsection \<open>The order\<close>

text \<open>The policies after the hook, which is the only one that can throw.\<close>

definition pure_policies :: "(string \<times> policy) list" where
  "pure_policies =
     [(''agent-swarm-exclusive-deny'', agent_swarm_exclusive_deny),
      (''auto-mode-ask-user-question-deny'', auto_mode_ask_user_question_deny),
      (''plan-mode-guard-deny'', plan_mode_guard_deny),
      (''user-configured-deny'', user_configured_deny),
      (''auto-mode-approve'', auto_mode_approve),
      (''session-approval-history'', session_approval_history),
      (''user-configured-ask'', user_configured_ask),
      (''user-configured-allow'', user_configured_allow),
      (''exit-plan-mode-review-ask'', exit_plan_mode_review_ask),
      (''goal-start-review-ask'', goal_start_review_ask),
      (''plan-mode-tool-approve'', plan_mode_tool_approve),
      (''sensitive-file-access-ask'', sensitive_file_access_ask),
      (''git-control-path-access-ask'', git_control_path_access_ask),
      (''yolo-mode-approve'', yolo_mode_approve),
      (''swarm-mode-agent-swarm-approve'', swarm_mode_agent_swarm_approve),
      (''default-tool-approve'', default_tool_approve),
      (''git-cwd-write-approve'', git_cwd_write_approve),
      (''fallback-ask'', fallback_ask)]"

definition decision_policies ::
  "(string \<times> (permission_env \<Rightarrow> agent_state \<Rightarrow> permission_context \<Rightarrow> policy_result option outcome)) list" where
  "decision_policies =
     (''pre-tool-call-hook'', pre_tool_call_hook) #
     map (\<lambda>(name, p). (name, \<lambda>ev st cx. Returned (p ev st cx))) pure_policies"

end
