(* ===== verification/Permission_Manager.thy ===== *)
theory Permission_Manager
  imports Permission_Policies Tool_Call
begin

text \<open>
  \<open>PermissionManager\<close> (\<open>agent/permission/index.ts\<close>): evaluating the chain of policies, asking
  for approval, applying what an approval resolves to, and the session approvals. The result
  is the one \<open>agent/turn\<close> returns from the authorize hook of the tool call loop, the
  \<open>authorize_result\<close> of \<open>Tool_Call\<close>.

  \<open>agent.rpc.requestApproval\<close> is an argument: it may throw, and because it is awaited it may
  return in another state of the agent. The closures \<open>resolveApproval\<close> of the two policies that
  have one are the constructors of \<open>resolver\<close>; no policy has a \<open>resolveError\<close>. Telemetry, the
  permission hooks and status events are left out.
\<close>

subsection \<open>Records and state changes\<close>

datatype approval_decision = Approved | Rejected | Cancelled

record approval_response =
  as_decision :: approval_decision
  as_session :: bool
  as_feedback :: "string option"
  as_label :: "string option"

record approval_record =
  av_call_id :: string
  av_tool :: string
  av_action :: string
  av_session_rule :: "string option"
  av_result :: approval_response

datatype agent_record =
    RecSetMode permission_mode
  | RecApproval approval_record
  | RecPlan plan_record

record approval_request =
  aq_call_id :: string
  aq_tool :: string
  aq_action :: string
  aq_display :: tool_display

text \<open>What the manager calls: the approval dialog, if any, and how \<open>planMode.exit\<close> ends.\<close>

record manager_env =
  me_policy :: permission_env
  me_request :: "(approval_request \<Rightarrow> agent_state \<Rightarrow> approval_response outcome \<times> agent_state) option"
  me_plan_exit :: "unit outcome"

definition set_mode :: "permission_mode \<Rightarrow> agent_state \<Rightarrow> agent_state \<times> agent_record list" where
  "set_mode mode st = (st\<lparr>ag_own := (ag_own st)\<lparr>mg_override := Some mode\<rparr>\<rparr>, [RecSetMode mode])"

definition record_approval :: "approval_record \<Rightarrow> agent_state \<Rightarrow> agent_state \<times> agent_record list" where
  "record_approval r st =
     (if as_decision (av_result r) \<noteq> Approved \<or> \<not> as_session (av_result r) then (st, [RecApproval r])
      else case av_session_rule r of
        None \<Rightarrow> (st, [RecApproval r])
      | Some pattern \<Rightarrow>
          (st\<lparr>ag_own := (ag_own st)\<lparr>mg_session := set_add pattern (mg_session (ag_own st))\<rparr>\<rparr>, [RecApproval r]))"

subsection \<open>Evaluating the chain\<close>

fun evaluate_policies ::
  "(string \<times> (permission_env \<Rightarrow> agent_state \<Rightarrow> permission_context \<Rightarrow> policy_result option outcome)) list \<Rightarrow>
   permission_env \<Rightarrow> agent_state \<Rightarrow> permission_context \<Rightarrow> (string \<times> policy_result) option outcome" where
  "evaluate_policies [] ev st cx = Returned None"
| "evaluate_policies ((name, p) # ps) ev st cx =
     (case p ev st cx of
        Threw e \<Rightarrow> Threw e
      | Returned (Some r) \<Rightarrow> Returned (Some (name, r))
      | Returned None \<Rightarrow> evaluate_policies ps ev st cx)"

subsection \<open>What an approval resolves to\<close>

definition result_with :: "bool \<Rightarrow> bool \<Rightarrow> string \<Rightarrow> tool_result" where
  "result_with is_error stop_turn out =
     \<lparr>tr_output = OutText out, tr_is_error = Some is_error,
      tr_stop_turn = (if stop_turn then Some True else None), tr_message = None, tr_truncated = None\<rparr>"

definition synthetic :: "tool_result \<Rightarrow> authorize_result" where
  "synthetic r = \<lparr>ar_block = None, ar_reason = None, ar_synthetic = Some (RawResult r), ar_metadata = None\<rparr>"

definition selected_option :: "plan_option list option \<Rightarrow> string option \<Rightarrow> plan_option option" where
  "selected_option opts label =
     (case (opts, label) of
        (Some os, Some l) \<Rightarrow> List.find (\<lambda>po. po_label po = l) os
      | _ \<Rightarrow> None)"

text \<open>\<open>exitPlanMode\<close>: the error of the exit becomes a tool error; otherwise plan mode is left.\<close>

definition exit_plan_mode :: "manager_env \<Rightarrow> agent_state \<Rightarrow> tool_result option \<times> agent_state \<times> agent_record list" where
  "exit_plan_mode me st =
     (case me_plan_exit me of
        Threw e \<Rightarrow> (Some (result_with True False (''Failed to exit plan mode: '' @ je_message e)), st, [])
      | Returned _ \<Rightarrow>
          (let (pl, recs, _) = plan_exit None (ag_plan st) in (None, st\<lparr>ag_plan := pl\<rparr>, map RecPlan recs)))"

definition newline :: string where
  "newline = [CHR 0x0A]"

definition approved_plan_output :: "plan_review \<Rightarrow> plan_option option \<Rightarrow> string" where
  "approved_plan_output review selected =
     ''Exited plan mode. '' @
     (case selected of None \<Rightarrow> []
      | Some po \<Rightarrow> ''Selected approach: '' @ po_label po @ newline @
          ''Execute ONLY the selected approach. Do not execute any unselected alternatives.'' @ newline @ newline) @
     ''Plan mode deactivated. All tools are now available.'' @ newline @
     (case pw_path review of None \<Rightarrow> [] | Some p \<Rightarrow> ''Plan saved to: '' @ p @ newline @ newline) @
     ''## Approved Plan:'' @ newline @ pw_plan review"

definition rejected_plan_result ::
  "manager_env \<Rightarrow> approval_response \<Rightarrow> agent_state \<Rightarrow> authorize_result \<times> agent_state \<times> agent_record list" where
  "rejected_plan_result me resp st =
     (if as_decision resp = Cancelled
      then (synthetic (result_with False False ''Plan approval dismissed. Plan mode remains active.''), st, [])
      else if as_label resp = Some ''Reject and Exit'' then
        (let (failed, st', recs) = exit_plan_mode me st
         in (synthetic (opt_or failed (result_with True True ''Plan rejected by user. Plan mode deactivated.'')),
             st', recs))
      else
        let feedback = opt_or (as_feedback resp) [] in
        if as_label resp = Some ''Revise'' \<or> length feedback > 0
        then (synthetic (result_with False False
               (if length feedback > 0
                then ''User rejected the plan. Feedback:'' @ newline @ newline @ feedback
                else ''User requested revisions. Plan mode remains active.'')), st, [])
        else (synthetic (result_with True True ''Plan rejected by user. Plan mode remains active.''), st, []))"

definition plan_approval_result ::
  "manager_env \<Rightarrow> plan_review \<Rightarrow> approval_response \<Rightarrow> agent_state \<Rightarrow>
   authorize_result \<times> agent_state \<times> agent_record list" where
  "plan_approval_result me review resp st =
     (if as_decision resp \<noteq> Approved then rejected_plan_result me resp st
      else
        let selected = selected_option (pw_options review) (as_label resp);
            (failed, st', recs) = exit_plan_mode me st
        in case failed of
             Some f \<Rightarrow> (synthetic f, st', recs)
           | None \<Rightarrow> (synthetic (result_with False False (approved_plan_output review selected)), st', recs))"

definition to_permission_mode :: "string option \<Rightarrow> permission_mode option" where
  "to_permission_mode label =
     (if label = Some ''auto'' then Some Mode_Auto
      else if label = Some ''yolo'' then Some Mode_Yolo
      else if label = Some ''manual'' then Some Mode_Manual
      else None)"

definition resolve_goal_start ::
  "approval_response \<Rightarrow> agent_state \<Rightarrow> agent_state \<times> agent_record list" where
  "resolve_goal_start resp st =
     (if as_decision resp \<noteq> Approved then (st, [])
      else case to_permission_mode (as_label resp) of
        None \<Rightarrow> (st, [])
      | Some mode \<Rightarrow> if mode \<noteq> ag_mode st then set_mode mode st else (st, []))"

fun resolve_approval ::
  "manager_env \<Rightarrow> resolver option \<Rightarrow> approval_response \<Rightarrow> agent_state \<Rightarrow>
   authorize_result option \<times> agent_state \<times> agent_record list" where
  "resolve_approval me None resp st = (None, st, [])"
| "resolve_approval me (Some (Resolve_Plan review)) resp st =
     (let (r, st', recs) = plan_approval_result me review resp st in (Some r, st', recs))"
| "resolve_approval me (Some Resolve_Goal) resp st =
     (let (st', recs) = resolve_goal_start resp st in (None, st', recs))"

subsection \<open>Asking\<close>

definition blocked_with :: "string \<Rightarrow> authorize_result" where
  "blocked_with reason =
     \<lparr>ar_block = Some True, ar_reason = Some reason, ar_synthetic = None, ar_metadata = None\<rparr>"

definition rejection_message :: "bool \<Rightarrow> string \<Rightarrow> approval_response \<Rightarrow> string" where
  "rejection_message is_sub tool resp =
     (let pre = (if as_decision resp = Cancelled
                 then tool_quoted tool @ '' was not run because the approval request was cancelled.''
                 else tool_quoted tool @ '' was not run because the user rejected the approval request.'')
      in pre @ reason_suffix (as_feedback resp) @ (if is_sub then sub_agent_advice else []))"

definition policy_deny_message :: "bool \<Rightarrow> string \<Rightarrow> string" where
  "policy_deny_message is_sub tool =
     tool_quoted tool @ '' was denied by permission policy.'' @ (if is_sub then sub_agent_advice else [])"

definition approval_request_of :: "permission_context \<Rightarrow> approval_request" where
  "approval_request_of cx =
     \<lparr>aq_call_id = cx_id cx, aq_tool = cx_name cx,
      aq_action = opt_or (xe_description (cx_exec cx)) (''Call '' @ cx_name cx),
      aq_display = opt_or (xe_display (cx_exec cx)) (Display_Other ''generic'')\<rparr>"

definition no_dialog_response :: approval_response where
  "no_dialog_response =
     \<lparr>as_decision = Approved, as_session = False, as_feedback = None, as_label = None\<rparr>"

text \<open>The part of \<open>requestToolApproval\<close> after the response is there.\<close>

definition after_response ::
  "manager_env \<Rightarrow> permission_context \<Rightarrow> resolver option \<Rightarrow> approval_response \<Rightarrow> agent_state \<Rightarrow>
   authorize_result option \<times> agent_state \<times> agent_record list" where
  "after_response me cx res resp st =
     (let rule = (if as_decision resp = Approved \<and> as_session resp
                  then Some (xe_approval_rule (cx_exec cx)) else None);
          (st1, recs1) = record_approval
            \<lparr>av_call_id = cx_id cx, av_tool = cx_name cx, av_action = aq_action (approval_request_of cx),
             av_session_rule = rule, av_result = resp\<rparr> st;
          (resolved, st2, recs2) = resolve_approval me res resp st1
      in case resolved of
           Some r \<Rightarrow> (Some r, st2, recs1 @ recs2)
         | None \<Rightarrow>
             if as_decision resp = Approved then (None, st2, recs1 @ recs2)
             else (Some (blocked_with (rejection_message (en_is_sub (me_policy me)) (cx_name cx) resp)),
                   st2, recs1 @ recs2))"

definition request_tool_approval ::
  "manager_env \<Rightarrow> permission_context \<Rightarrow> resolver option \<Rightarrow> agent_state \<Rightarrow>
   authorize_result option outcome \<times> agent_state \<times> agent_record list" where
  "request_tool_approval me cx res st =
     (case me_request me of
        None \<Rightarrow> (let (r, st', recs) = after_response me cx res no_dialog_response st in (Returned r, st', recs))
      | Some request \<Rightarrow>
          (case request (approval_request_of cx) st of
             (Threw e, st') \<Rightarrow> (Threw e, st', [])
           | (Returned resp, st') \<Rightarrow>
               (let (r, st'', recs) = after_response me cx res resp st' in (Returned r, st'', recs))))"

fun resolution_to_prepare ::
  "manager_env \<Rightarrow> permission_context \<Rightarrow> policy_result \<Rightarrow> agent_state \<Rightarrow>
   authorize_result option outcome \<times> agent_state \<times> agent_record list" where
  "resolution_to_prepare me cx (P_Approve reason metadata) st =
     (Returned (case metadata of None \<Rightarrow> None
        | Some d \<Rightarrow> Some \<lparr>ar_block = None, ar_reason = None, ar_synthetic = None, ar_metadata = Some d\<rparr>), st, [])"
| "resolution_to_prepare me cx (P_Deny reason message) st =
     (Returned (Some (blocked_with
        (opt_or message (policy_deny_message (en_is_sub (me_policy me)) (cx_name cx))))), st, [])"
| "resolution_to_prepare me cx (P_Ask reason res) st = request_tool_approval me cx res st"

definition before_tool_call ::
  "manager_env \<Rightarrow> permission_context \<Rightarrow> agent_state \<Rightarrow>
   authorize_result option outcome \<times> agent_state \<times> agent_record list" where
  "before_tool_call me cx st =
     (case evaluate_policies decision_policies (me_policy me) st cx of
        Threw e \<Rightarrow> (Threw e, st, [])
      | Returned None \<Rightarrow> (Returned None, st, [])
      | Returned (Some (name, r)) \<Rightarrow> resolution_to_prepare me cx r st)"

end
