(* ===== verification/Permission_Safety.thy ===== *)
theory Permission_Safety
  imports Permission_Manager
begin

text \<open>
  What the chain of permission policies guarantees: which calls are always denied, when the
  user is asked, what an answer does, what a session approval is worth afterwards, and that
  the log rebuilds the state. The contract of a first-match chain is the locale
  \<open>decision_chain\<close>, interpreted on the policies in the order of the source.
\<close>

subsection \<open>First-match chains\<close>

fun first_decision :: "('n \<times> ('s \<Rightarrow> 'r option)) list \<Rightarrow> 's \<Rightarrow> ('n \<times> 'r) option" where
  "first_decision [] s = None"
| "first_decision ((name, p) # ps) s =
     (case p s of Some r \<Rightarrow> Some (name, r) | None \<Rightarrow> first_decision ps s)"

lemma first_decision_Some:
  "first_decision ps s = Some (name, r) \<Longrightarrow>
     \<exists>i < length ps. fst (ps ! i) = name \<and> snd (ps ! i) s = Some r \<and> (\<forall>j < i. snd (ps ! j) s = None)"
proof (induction ps)
  case (Cons np ps)
  show ?case
  proof (cases "snd np s")
    case None
    with Cons.prems have "first_decision ps s = Some (name, r)"
      by (cases np) simp
    then obtain i where "i < length ps" "fst (ps ! i) = name" "snd (ps ! i) s = Some r"
      "\<forall>j < i. snd (ps ! j) s = None"
      using Cons.IH by blast
    with None show ?thesis
      by (intro exI [of _ "Suc i"]) (auto simp: less_Suc_eq_0_disj)
  next
    case (Some r')
    with Cons.prems show ?thesis
      by (cases np) (auto intro: exI [of _ 0])
  qed
qed simp

lemma first_decision_None: "first_decision ps s = None \<longleftrightarrow> (\<forall>np \<in> set ps. snd np s = None)"
  by (induction ps) (auto split: option.splits)

lemma first_decision_append:
  "first_decision (ps @ qs) s = (case first_decision ps s of Some d \<Rightarrow> Some d | None \<Rightarrow> first_decision qs s)"
  by (induction ps) (auto split: option.splits)

locale decision_chain =
  fixes chain :: "('n \<times> ('s \<Rightarrow> 'r option)) list"
  assumes distinct_names: "distinct (map fst chain)"
    and last_decides: "chain \<noteq> [] \<and> snd (last chain) s \<noteq> None"
begin

lemma decides: "first_decision chain s \<noteq> None"
proof -
  have "last chain \<in> set chain"
    using last_decides by (intro last_in_set) blast
  then show ?thesis
    unfolding first_decision_None using last_decides by blast
qed

lemma decided_by:
  assumes "first_decision chain s = Some (name, r)" "(name, p) \<in> set chain"
  shows "p s = Some r"
proof -
  obtain i where i: "i < length chain" "fst (chain ! i) = name" "snd (chain ! i) s = Some r"
    using first_decision_Some [OF assms(1)] by blast
  obtain j where j: "j < length chain" "chain ! j = (name, p)"
    using assms(2) by (auto simp: in_set_conv_nth)
  have "map fst chain ! i = map fst chain ! j"
    using i j by simp
  then have "i = j"
    using nth_eq_iff_index_eq [OF distinct_names, of i j] i(1) j(1) by simp
  with i j show ?thesis
    by simp
qed

lemma overruled:
  assumes "first_decision chain s = Some (name, r)" "chain = before @ (name', p) # after"
    and "p s = Some r'"
  shows "name \<in> set (map fst (before @ [(name', p)]))"
proof -
  have "first_decision chain s = first_decision (before @ [(name', p)]) s"
    unfolding assms(2) by (simp add: first_decision_append assms(3) split: option.split)
  with assms(1) have "first_decision (before @ [(name', p)]) s = Some (name, r)"
    by simp
  from first_decision_Some [OF this] obtain i
    where i: "i < length (before @ [(name', p)])" and n: "fst ((before @ [(name', p)]) ! i) = name"
    by (elim exE conjE)
  have "fst ((before @ [(name', p)]) ! i) \<in> fst ` set (before @ [(name', p)])"
    by (intro imageI nth_mem i)
  then show ?thesis
    unfolding n set_map .
qed

end

definition policy_chain :: "(string \<times> (permission_env \<times> agent_state \<times> permission_context \<Rightarrow> policy_result option)) list" where
  "policy_chain = map (\<lambda>(name, p). (name, \<lambda>(ev, st, cx). p ev st cx)) pure_policies"

interpretation permission_chain: decision_chain policy_chain
proof
  show "distinct (map fst policy_chain)"
    by (simp add: policy_chain_def pure_policies_def)
  show "policy_chain \<noteq> [] \<and> snd (last policy_chain) s \<noteq> None" for s
    by (cases s) (simp add: policy_chain_def pure_policies_def fallback_ask_def)
qed

lemma evaluate_pure:
  "evaluate_policies (map (\<lambda>(name, p). (name, \<lambda>ev st cx. Returned (p ev st cx))) ps) ev st cx =
     Returned (first_decision (map (\<lambda>(name, p). (name, \<lambda>(ev, st, cx). p ev st cx)) ps) (ev, st, cx))"
  by (induction ps) (auto split: option.splits)

lemma evaluate_decision:
  "evaluate_policies decision_policies ev st cx =
     (case pre_tool_call_hook ev st cx of
        Threw e \<Rightarrow> Threw e
      | Returned (Some r) \<Rightarrow> Returned (Some (''pre-tool-call-hook'', r))
      | Returned None \<Rightarrow> Returned (first_decision policy_chain (ev, st, cx)))"
  by (simp add: decision_policies_def evaluate_pure policy_chain_def split: outcome.splits option.splits)

lemma hook_denies: "pre_tool_call_hook ev st cx = Returned (Some r) \<Longrightarrow> \<exists>reason message. r = P_Deny reason message"
  by (auto simp: pre_tool_call_hook_def split: outcome.splits option.splits)

subsection \<open>Results that block\<close>

definition is_deny :: "policy_result \<Rightarrow> bool" where
  "is_deny r = (case r of P_Deny _ _ \<Rightarrow> True | _ \<Rightarrow> False)"

text \<open>The call did not get through: it threw, or it is blocked, and the state is as it was.\<close>

definition refused :: "authorize_result option outcome \<times> agent_state \<times> agent_record list \<Rightarrow> agent_state \<Rightarrow> bool" where
  "refused out st =
     ((\<exists>e. out = (Threw e, st, [])) \<or> (\<exists>reason. out = (Returned (Some (blocked_with reason)), st, [])))"

lemma threw_refused: "refused (Threw e, st, []) st"
  by (simp add: refused_def)

lemma deny_refused: "is_deny r \<Longrightarrow> refused (resolution_to_prepare me cx r st) st"
  by (cases r) (auto simp: is_deny_def refused_def)

definition decision_of :: "permission_env \<Rightarrow> agent_state \<Rightarrow> permission_context \<Rightarrow> policy_result" where
  "decision_of ev st cx = snd (the (first_decision policy_chain (ev, st, cx)))"

lemma before_tool_call_cases:
  obtains (hook_threw) e where "pre_tool_call_hook (me_policy me) st cx = Threw e"
      "before_tool_call me cx st = (Threw e, st, [])"
  | (hook_denied) r where "is_deny r" "before_tool_call me cx st = resolution_to_prepare me cx r st"
  | (decided) "pre_tool_call_hook (me_policy me) st cx = Returned None"
      "before_tool_call me cx st = resolution_to_prepare me cx (decision_of (me_policy me) st cx) st"
proof (cases "pre_tool_call_hook (me_policy me) st cx")
  case (Threw e)
  then show thesis
    by (intro hook_threw) (simp_all add: before_tool_call_def evaluate_decision)
next
  case hook: (Returned blocked)
  show thesis
  proof (cases blocked)
    case (Some r)
    have "is_deny r"
      using hook Some hook_denies [of "me_policy me" st cx r] by (auto simp: is_deny_def)
    with hook Some show thesis
      by (intro hook_denied [of r]) (simp_all add: before_tool_call_def evaluate_decision)
  next
    case None
    obtain name r where d: "first_decision policy_chain (me_policy me, st, cx) = Some (name, r)"
      using permission_chain.decides by fastforce
    with hook None show thesis
      by (intro decided) (simp_all add: before_tool_call_def evaluate_decision decision_of_def)
  qed
qed

text \<open>The four deny policies come first, then auto mode: the chain above the first approval.\<close>

lemma policy_chain_split:
  "policy_chain =
     map (\<lambda>(name, p). (name, \<lambda>(ev, st, cx). p ev st cx))
       [(''agent-swarm-exclusive-deny'', agent_swarm_exclusive_deny),
        (''auto-mode-ask-user-question-deny'', auto_mode_ask_user_question_deny),
        (''plan-mode-guard-deny'', plan_mode_guard_deny),
        (''user-configured-deny'', user_configured_deny)] @
     map (\<lambda>(name, p). (name, \<lambda>(ev, st, cx). p ev st cx)) (drop 4 pure_policies)"
  by (simp add: policy_chain_def pure_policies_def)

lemma deny_policies:
  "agent_swarm_exclusive_deny ev st cx = Some r \<Longrightarrow> is_deny r"
  "auto_mode_ask_user_question_deny ev st cx = Some r \<Longrightarrow> is_deny r"
  "plan_mode_guard_deny ev st cx = Some r \<Longrightarrow> is_deny r"
  "user_configured_deny ev st cx = Some r \<Longrightarrow> is_deny r"
  by (auto simp: agent_swarm_exclusive_deny_def auto_mode_ask_user_question_deny_def
      plan_mode_guard_deny_def user_configured_deny_def is_deny_def Let_def split: if_splits option.splits)

lemma deny_wins:
  assumes "agent_swarm_exclusive_deny ev st cx \<noteq> None \<or> auto_mode_ask_user_question_deny ev st cx \<noteq> None \<or>
    plan_mode_guard_deny ev st cx \<noteq> None \<or> user_configured_deny ev st cx \<noteq> None"
  shows "is_deny (decision_of ev st cx)"
  using assms deny_policies [of ev st cx]
  by (auto simp: decision_of_def policy_chain_split first_decision_append split: option.splits)

lemma deny_wins_refused:
  assumes "agent_swarm_exclusive_deny (me_policy me) st cx \<noteq> None \<or>
    auto_mode_ask_user_question_deny (me_policy me) st cx \<noteq> None \<or>
    plan_mode_guard_deny (me_policy me) st cx \<noteq> None \<or> user_configured_deny (me_policy me) st cx \<noteq> None"
  shows "refused (before_tool_call me cx st) st"
  by (cases rule: before_tool_call_cases [of me st cx])
     (simp_all add: threw_refused deny_refused deny_wins [OF assms])

subsection \<open>Calls that are always refused\<close>

lemma first_matching_finds:
  "r \<in> set rs \<Longrightarrow> rl_decision r = d \<Longrightarrow> match_rule is_match r tool matches \<noteq> None \<Longrightarrow>
     first_matching is_match tool matches d rs \<noteq> None"
  by (induction rs) (auto split: option.splits)

lemma first_matching_sound:
  "first_matching is_match tool matches d rs = Some m \<Longrightarrow>
     rm_rule m \<in> set rs \<and> rl_decision (rm_rule m) = d"
  by (induction rs) (auto split: if_splits option.splits dest: match_rule_rule)

text \<open>
  C2: A deny rule the user configured binds in every mode. If some manager of the agent, its
  own or one it inherits from, holds a matching deny rule with a project, user or turn scope,
  then a call of the tool is refused with the state and the log untouched: in auto and yolo
  mode, whatever was approved for the session, and without the user being asked.
\<close>

theorem deny_rule_always_refuses:
  assumes rule: "mgr \<in> set (ag_managers st)" "rl \<in> set (mg_rules mgr)"
    and deny: "rl_decision rl = Rule_Deny" "rl_scope rl \<noteq> Session_Runtime"
    and hit: "match_rule (en_is_match (me_policy me)) rl (cx_name cx) (xe_matches (cx_exec cx)) \<noteq> None"
  shows "refused (before_tool_call me cx st) st"
proof -
  have eff: "mgr \<in> set ms \<Longrightarrow> rl \<in> set (effective_rules ms)" for ms
    using rule(2) by (induction ms) auto
  have "user_configured_scope (rl_scope rl)"
    using deny(2) by (cases "rl_scope rl") (simp_all add: user_configured_scope_def)
  then have "first_matching_rule (me_policy me) st cx Rule_Deny \<noteq> None"
    unfolding first_matching_rule_def using eff [OF rule(1)] deny(1) hit
    by (intro first_matching_finds [of rl]) auto
  then show ?thesis
    by (intro deny_wins_refused) (simp add: user_configured_deny_def)
qed

definition sample_env :: permission_env where
  "sample_env =
     \<lparr>en_is_sub = False, en_cwd = ''/work'', en_dirs = [], en_class = Posix, en_pathe = posix_pathe,
      en_relative = (\<lambda>cls cwd target. drop (Suc (length cwd)) target),
      en_kaos = sample_kaos, en_is_match = (\<lambda>tool pat. tool = pat),
      en_hook = (\<lambda>cx. Returned None), en_aborted = None\<rparr>"

definition sample_manager_env :: "approval_response \<Rightarrow> manager_env" where
  "sample_manager_env resp =
     \<lparr>me_policy = sample_env, me_request = Some (\<lambda>q st. (Returned resp, st)), me_plan_exit = Returned ()\<rparr>"

definition sample_context :: "string \<Rightarrow> tool_accesses \<Rightarrow> tool_display option \<Rightarrow> permission_context" where
  "sample_context name accs display =
     \<lparr>cx_name = name, cx_id = ''call-1'', cx_batch = [name],
      cx_exec = \<lparr>xe_accesses = Some accs, xe_display = display, xe_description = None,
                 xe_approval_rule = name @ ''(x)'', xe_matches = Some (\<lambda>args. args = ''x'')\<rparr>\<rparr>"

definition sample_state :: "permission_mode \<Rightarrow> permission_rule list \<Rightarrow> string list \<Rightarrow> plan_state \<Rightarrow> agent_state" where
  "sample_state mode parent_rules session plan =
     \<lparr>ag_own = \<lparr>mg_override = Some mode, mg_rules = [], mg_session = session\<rparr>,
      ag_parents = [\<lparr>mg_override = None, mg_rules = parent_rules, mg_session = []\<rparr>],
      ag_plan = plan, ag_swarm = None\<rparr>"

definition deny_bash :: permission_rule where
  "deny_bash = \<lparr>rl_decision = Rule_Deny, rl_scope = Scope_User, rl_pattern = ''Bash(x)'', rl_reason = None\<rparr>"

lemma deny_rule_always_refuses_witness:
  "refused (before_tool_call (sample_manager_env no_dialog_response) (sample_context ''Bash'' [] None)
     (sample_state Mode_Auto [deny_bash] [''Bash''] plan_init)) (sample_state Mode_Auto [deny_bash] [''Bash''] plan_init)"
proof (rule deny_rule_always_refuses)
  show "\<lparr>mg_override = None, mg_rules = [deny_bash], mg_session = []\<rparr>
      \<in> set (ag_managers (sample_state Mode_Auto [deny_bash] [''Bash''] plan_init))"
    by (simp add: ag_managers_def sample_state_def)
  show "match_rule (en_is_match (me_policy (sample_manager_env no_dialog_response))) deny_bash
      (cx_name (sample_context ''Bash'' [] None)) (xe_matches (cx_exec (sample_context ''Bash'' [] None))) \<noteq> None"
    by code_simp
qed (simp_all add: deny_bash_def)

text \<open>
  \<open>AgentSwarm\<close> runs alone. Every call of a response that holds an \<open>AgentSwarm\<close> call and at
  least one other call is refused, in every mode and under every rule.
\<close>

theorem agent_swarm_runs_alone:
  assumes "''AgentSwarm'' \<in> set (cx_batch cx)" and "length (cx_batch cx) > 1"
  shows "refused (before_tool_call me cx st) st"
proof -
  have "filter (\<lambda>name. name = ''AgentSwarm'') (cx_batch cx) \<noteq> []"
    using assms(1) by (auto simp: filter_empty_conv)
  then have "agent_swarm_exclusive_deny (me_policy me) st cx \<noteq> None"
    using assms(2) by (simp add: agent_swarm_exclusive_deny_def Let_def)
  then show ?thesis
    by (intro deny_wins_refused) blast
qed

lemma agent_swarm_runs_alone_witness:
  "refused (before_tool_call (sample_manager_env no_dialog_response)
     ((sample_context ''Read'' [] None)\<lparr>cx_batch := [''Read'', ''AgentSwarm'']\<rparr>)
     (sample_state Mode_Yolo [] [] plan_init)) (sample_state Mode_Yolo [] [] plan_init)"
  by (rule agent_swarm_runs_alone) simp_all

text \<open>
  C31: Plan mode confines writing. While plan mode is active, a \<open>Write\<close> or \<open>Edit\<close> call that is not
  refused declares at least one written file, there is a current plan file, and every file
  it writes is that plan file.
\<close>

theorem plan_mode_confines_writes:
  assumes active: "ps_active (ag_plan st)" and tool: "cx_name cx = ''Write'' \<or> cx_name cx = ''Edit''"
    and passed: "\<not> refused (before_tool_call me cx st) st"
  shows "\<exists>p. ps_path (ag_plan st) = Some p \<and> write_file_accesses cx \<noteq> [] \<and>
    (\<forall>a \<in> set (write_file_accesses cx). fa_path a = p)"
proof -
  have "plan_mode_guard_deny (me_policy me) st cx = None"
    using passed deny_wins_refused [of me st cx] by blast
  then show ?thesis
    using active tool
    by (auto simp: plan_mode_guard_deny_def guard_writes_only_plan_file_def Let_def list_all_iff
        split: option.splits if_splits)
qed

definition planning :: plan_state where
  "planning = \<lparr>ps_active = True, ps_id = Some ''p'', ps_path = Some ''/home/plans/p.md''\<rparr>"

lemma plan_mode_confines_writes_witness:
  "\<exists>p. ps_path planning = Some p \<and>
     (\<forall>a \<in> set (write_file_accesses (sample_context ''Write'' (write_file ''/home/plans/p.md'') None)). fa_path a = p)"
proof -
  let ?me = "sample_manager_env no_dialog_response"
  let ?cx = "sample_context ''Write'' (write_file ''/home/plans/p.md'') None"
  let ?st = "sample_state Mode_Manual [] [] planning"
  have active: "ps_active (ag_plan ?st)" and plan: "ag_plan ?st = planning"
    by (simp_all add: sample_state_def planning_def)
  have tool: "cx_name ?cx = ''Write'' \<or> cx_name ?cx = ''Edit''"
    by (simp add: sample_context_def)
  have "fst (before_tool_call ?me ?cx ?st) = Returned None"
    by code_simp
  then have passed: "\<not> refused (before_tool_call ?me ?cx ?st) ?st"
    by (auto simp: refused_def)
  show ?thesis
    using plan_mode_confines_writes [OF active tool passed] by (auto simp: plan)
qed

end
