(* ===== verification/Permission_Approval.thy ===== *)
theory Permission_Approval
  imports Permission_Safety
begin

text \<open>
  When the user is asked and what the answer does: auto mode never asks, an answer that is not
  an approval never lets the call run, an approval for the session is remembered, the plan
  review decides about plan mode, and the log of a session rebuilds modes, session approvals
  and plan mode.
\<close>

subsection \<open>Who is asked\<close>

definition is_ask :: "policy_result \<Rightarrow> bool" where
  "is_ask r = (case r of P_Ask _ _ \<Rightarrow> True | _ \<Rightarrow> False)"

text \<open>The outcome does not depend on the dialog at all.\<close>

definition asks_nobody :: "manager_env \<Rightarrow> permission_context \<Rightarrow> agent_state \<Rightarrow> bool" where
  "asks_nobody me cx st \<longleftrightarrow>
     (\<forall>request. before_tool_call (me\<lparr>me_request := request\<rparr>) cx st = before_tool_call me cx st)"

lemma deny_not_ask: "is_deny r \<Longrightarrow> \<not> is_ask r"
  by (cases r) (simp_all add: is_deny_def is_ask_def)

lemma resolution_without_dialog:
  "\<not> is_ask r \<Longrightarrow> resolution_to_prepare (me\<lparr>me_request := request\<rparr>) cx r st = resolution_to_prepare me cx r st"
  by (cases r) (simp_all add: is_ask_def)

lemma asks_nobodyI:
  assumes "\<not> is_ask (decision_of (me_policy me) st cx)"
  shows "asks_nobody me cx st"
proof -
  have "before_tool_call (me\<lparr>me_request := request\<rparr>) cx st = before_tool_call me cx st" for request
  proof (cases "evaluate_policies decision_policies (me_policy me) st cx")
    case (Returned d)
    show ?thesis
    proof (cases d)
      case (Some nr)
      obtain name r where nr: "nr = (name, r)"
        by (cases nr)
      have "\<not> is_ask r"
        using Returned Some nr assms deny_not_ask [of r]
        by (auto simp: evaluate_decision decision_of_def is_deny_def
            dest: hook_denies split: outcome.splits option.splits)
      then show ?thesis
        using Returned Some nr by (simp add: before_tool_call_def resolution_without_dialog)
    qed (use Returned in \<open>simp add: before_tool_call_def\<close>)
  qed (simp add: before_tool_call_def)
  then show ?thesis
    by (simp add: asks_nobody_def)
qed

lemma policy_chain_early:
  "policy_chain =
     map (\<lambda>(name, p). (name, \<lambda>(ev, st, cx). p ev st cx))
       [(''agent-swarm-exclusive-deny'', agent_swarm_exclusive_deny),
        (''auto-mode-ask-user-question-deny'', auto_mode_ask_user_question_deny),
        (''plan-mode-guard-deny'', plan_mode_guard_deny),
        (''user-configured-deny'', user_configured_deny),
        (''auto-mode-approve'', auto_mode_approve),
        (''session-approval-history'', session_approval_history)] @
     map (\<lambda>(name, p). (name, \<lambda>(ev, st, cx). p ev st cx)) (drop 6 pure_policies)"
  by (simp add: policy_chain_def pure_policies_def)

lemma early_approvals:
  "auto_mode_approve ev st cx = Some r \<Longrightarrow> \<not> is_ask r"
  "session_approval_history ev st cx = Some r \<Longrightarrow> \<not> is_ask r"
  by (auto simp: auto_mode_approve_def session_approval_history_def approve_def is_ask_def split: if_splits)

lemma early_decision:
  assumes "auto_mode_approve ev st cx \<noteq> None \<or> session_approval_history ev st cx \<noteq> None"
  shows "\<not> is_ask (decision_of ev st cx)"
  using assms early_approvals [of ev st cx] deny_policies [of ev st cx, THEN deny_not_ask]
  by (auto simp: decision_of_def policy_chain_early first_decision_append split: option.splits)

lemma resolution_keeps_state:
  "\<not> is_ask r \<Longrightarrow> snd (resolution_to_prepare me cx r st) = (st, [])"
  by (cases r) (simp_all add: is_ask_def)

text \<open>
  Auto mode never asks. In auto permission mode the outcome of a call does not depend on
  the approval dialog, and neither the state nor the log changes.
\<close>

theorem auto_mode_never_asks:
  assumes "ag_mode st = Mode_Auto"
  shows "asks_nobody me cx st \<and> snd (before_tool_call me cx st) = (st, [])"
proof -
  have quiet: "\<not> is_ask (decision_of (me_policy me) st cx)"
    using assms by (intro early_decision) (simp add: auto_mode_approve_def)
  moreover have "snd (before_tool_call me cx st) = (st, [])"
    by (cases rule: before_tool_call_cases [of me st cx])
      (simp_all add: resolution_keeps_state quiet deny_not_ask)
  ultimately show ?thesis
    by (simp add: asks_nobodyI)
qed

lemma auto_mode_never_asks_witness:
  "asks_nobody (sample_manager_env no_dialog_response) (sample_context ''Bash'' [] None)
     (sample_state Mode_Auto [] [] plan_init)"
proof -
  have "ag_mode (sample_state Mode_Auto [] [] plan_init) = Mode_Auto"
    by code_simp
  from auto_mode_never_asks [OF this] show ?thesis
    by blast
qed

subsection \<open>Answers\<close>

lemma set_mode_session [simp]:
  "mg_session (ag_own (fst (set_mode mode st))) = mg_session (ag_own st)"
  "ag_parents (fst (set_mode mode st)) = ag_parents st"
  by (simp_all add: set_mode_def)

lemma exit_plan_mode_managers:
  assumes "exit_plan_mode me st = (failed, st', recs)"
  shows "ag_own st' = ag_own st \<and> ag_parents st' = ag_parents st \<and> ag_swarm st' = ag_swarm st"
  using assms by (auto simp: exit_plan_mode_def split_beta split: outcome.splits)

lemma rejected_plan_managers:
  assumes "rejected_plan_result me resp st = (a, st', recs)"
  shows "ag_own st' = ag_own st \<and> ag_parents st' = ag_parents st"
proof (cases "exit_plan_mode me st")
  case (fields failed st2 recs2)
  then show ?thesis
    using assms exit_plan_mode_managers [OF fields]
    by (auto simp: rejected_plan_result_def Let_def split: if_splits)
qed

lemma plan_approval_managers:
  assumes "plan_approval_result me review resp st = (a, st', recs)"
  shows "ag_own st' = ag_own st \<and> ag_parents st' = ag_parents st"
proof (cases "as_decision resp = Approved")
  case True
  show ?thesis
  proof (cases "exit_plan_mode me st")
    case (fields failed st2 recs2)
    then show ?thesis
      using assms True exit_plan_mode_managers [OF fields]
      by (auto simp: plan_approval_result_def Let_def split: option.splits)
  qed
next
  case False
  then show ?thesis
    using assms rejected_plan_managers by (simp add: plan_approval_result_def)
qed

lemma resolve_goal_managers:
  "mg_session (ag_own (fst (resolve_goal_start resp st))) = mg_session (ag_own st)"
  by (simp add: resolve_goal_start_def split: option.split)

lemma resolve_approval_session:
  assumes "resolve_approval me res resp st = (a, st', recs)"
  shows "mg_session (ag_own st') = mg_session (ag_own st)"
proof (cases "(me, res, resp, st)" rule: resolve_approval.cases)
  case (2 me' review resp' st2)
  obtain b st3 recs3 where run: "plan_approval_result me review resp st = (b, st3, recs3)"
    by (rule prod_cases3)
  have "st' = st3"
    using 2 assms run by simp
  then show ?thesis
    using plan_approval_managers [OF run] by simp
next
  case (3 me' resp' st2)
  then show ?thesis
    using assms resolve_goal_managers [of resp st] by (auto simp: split_beta)
qed (use assms in auto)

lemma resolve_approval_blocks:
  assumes "as_decision resp \<noteq> Approved" and "resolve_approval me res resp st = (Some a, st', recs)"
  shows "ar_synthetic a \<noteq> None"
proof (cases "(me, res, resp, st)" rule: resolve_approval.cases)
  case (2 me' review resp' st2)
  then have a: "a = fst (rejected_plan_result me resp st)"
    using assms by (auto simp: plan_approval_result_def split_beta)
  show ?thesis
    unfolding a by (simp add: rejected_plan_result_def Let_def split_beta synthetic_def)
qed (use assms in \<open>auto simp: split_beta\<close>)

text \<open>The tool is not run: the call is blocked or answered with a result of the policy.\<close>

definition not_run :: "authorize_result option outcome \<Rightarrow> bool" where
  "not_run out =
     (case out of
        Threw _ \<Rightarrow> True
      | Returned None \<Rightarrow> False
      | Returned (Some a) \<Rightarrow> ar_block a = Some True \<or> ar_synthetic a \<noteq> None)"

lemma before_tool_call_asked:
  assumes "pre_tool_call_hook (me_policy me) st cx = Returned None"
    and "decision_of (me_policy me) st cx = P_Ask reason res"
  shows "before_tool_call me cx st = request_tool_approval me cx res st"
proof -
  obtain name r where d: "first_decision policy_chain (me_policy me, st, cx) = Some (name, r)"
    using permission_chain.decides by fastforce
  then show ?thesis
    using assms by (simp add: before_tool_call_def evaluate_decision decision_of_def)
qed

text \<open>
  C3: An answer that is not an approval never lets the call run. When the chain asks and the
  dialog throws, or the user rejects or cancels, the call is blocked or answered by the policy
  itself, no session approval is stored, and a \<open>CreateGoal\<close> choice of mode is not applied.
\<close>

theorem unapproved_call_not_run:
  assumes ask: "pre_tool_call_hook (me_policy me) st cx = Returned None"
      "decision_of (me_policy me) st cx = P_Ask reason res"
    and dialog: "me_request me = Some request" "request (approval_request_of cx) st = (answer, st1)"
    and no: "\<forall>resp. answer = Returned resp \<longrightarrow> as_decision resp \<noteq> Approved"
  shows "not_run (fst (before_tool_call me cx st)) \<and>
    ag_own (fst (snd (before_tool_call me cx st))) = ag_own st1"
proof (cases answer)
  case (Threw e)
  then show ?thesis
    using dialog by (simp add: before_tool_call_asked [OF ask] request_tool_approval_def not_run_def)
next
  case (Returned resp)
  with no have rej: "as_decision resp \<noteq> Approved"
    by simp
  obtain a st2 recs where run: "resolve_approval me res resp st1 = (a, st2, recs)"
    by (rule prod_cases3)
  have own: "ag_own st2 = ag_own st1"
  proof (cases "(me, res, resp, st1)" rule: resolve_approval.cases)
    case (2 me' review resp' st')
    obtain b st3 recs3 where run': "plan_approval_result me review resp st1 = (b, st3, recs3)"
      by (rule prod_cases3)
    show ?thesis
      using 2 run run' plan_approval_managers [OF run'] by simp
  qed (use run rej in \<open>auto simp: resolve_goal_start_def\<close>)
  have "after_response me cx res resp st1 =
      (case a of Some r \<Rightarrow> (Some r, st2, RecApproval \<lparr>av_call_id = cx_id cx, av_tool = cx_name cx,
         av_action = aq_action (approval_request_of cx), av_session_rule = None, av_result = resp\<rparr> # recs)
       | None \<Rightarrow> (Some (blocked_with (rejection_message (en_is_sub (me_policy me)) (cx_name cx) resp)), st2,
         RecApproval \<lparr>av_call_id = cx_id cx, av_tool = cx_name cx,
         av_action = aq_action (approval_request_of cx), av_session_rule = None, av_result = resp\<rparr> # recs))"
    using rej run by (simp add: after_response_def record_approval_def Let_def split: option.split)
  then show ?thesis
    using Returned dialog own resolve_approval_blocks [OF rej] run
    by (cases a) (auto simp: before_tool_call_asked [OF ask] request_tool_approval_def not_run_def blocked_with_def)
qed

definition rejected :: approval_response where
  "rejected = \<lparr>as_decision = Rejected, as_session = True, as_feedback = None, as_label = Some ''yolo''\<rparr>"

lemma unapproved_call_not_run_witness:
  "not_run (fst (before_tool_call (sample_manager_env rejected) (sample_context ''Bash'' [] None)
     (sample_state Mode_Manual [] [] plan_init)))"
proof -
  let ?me = "sample_manager_env rejected"
  let ?cx = "sample_context ''Bash'' [] None"
  let ?st = "sample_state Mode_Manual [] [] plan_init"
  have hook: "pre_tool_call_hook (me_policy ?me) ?st ?cx = Returned None"
    by code_simp
  have ask: "decision_of (me_policy ?me) ?st ?cx = P_Ask None None"
    by code_simp
  have dialog: "me_request ?me = Some (\<lambda>q st. (Returned rejected, st))"
    by (simp add: sample_manager_env_def)
  have no: "\<forall>resp. Returned rejected = Returned resp \<longrightarrow> as_decision resp \<noteq> Approved"
    by (simp add: rejected_def)
  show ?thesis
    using unapproved_call_not_run [OF hook ask dialog refl no] by blast
qed

definition session_approved :: approval_response where
  "session_approved = \<lparr>as_decision = Approved, as_session = True, as_feedback = None, as_label = None\<rparr>"

subsection \<open>The plan review\<close>

definition leaves_plan_mode :: "approval_response \<Rightarrow> bool" where
  "leaves_plan_mode resp \<longleftrightarrow>
     as_decision resp = Approved \<or> as_decision resp = Rejected \<and> as_label resp = Some ''Reject and Exit''"

lemma decision_not_approved: "d \<noteq> Approved \<longleftrightarrow> d = Rejected \<or> d = Cancelled"
  by (cases d) simp_all

text \<open>
  The plan review decides alone about plan mode. After a review plan mode is off exactly
  when it was off, or the user approved or chose \<^emph>\<open>Reject and Exit\<close> and leaving succeeded; in
  every case the tool call is answered by the policy and the tool itself does not run.
\<close>

theorem plan_review_outcome:
  assumes "plan_approval_result me review resp st = (a, st', recs)"
  shows "(ps_active (ag_plan st') \<longleftrightarrow>
      ps_active (ag_plan st) \<and> \<not> (leaves_plan_mode resp \<and> me_plan_exit me = Returned ())) \<and>
    ar_synthetic a \<noteq> None \<and> ar_block a = None"
proof (cases "me_plan_exit me")
  case (Threw e)
  then show ?thesis
    using assms
    by (auto simp: plan_approval_result_def rejected_plan_result_def exit_plan_mode_def synthetic_def
        leaves_plan_mode_def Let_def split: if_splits)
next
  case (Returned u)
  then show ?thesis
    using assms
    by (cases "as_decision resp")
      (auto simp: plan_approval_result_def rejected_plan_result_def exit_plan_mode_def synthetic_def
        leaves_plan_mode_def plan_exit_def Let_def split: if_splits)
qed

lemma plan_review_outcome_witness:
  "\<not> ps_active (ag_plan (fst (snd (plan_approval_result (sample_manager_env session_approved)
     \<lparr>pw_plan = ''do it'', pw_path = None, pw_options = None\<rparr> session_approved
     (sample_state Mode_Manual [] [] planning)))))"
proof -
  let ?me = "sample_manager_env session_approved"
  let ?review = "\<lparr>pw_plan = ''do it'', pw_path = None, pw_options = None\<rparr>"
  let ?st = "sample_state Mode_Manual [] [] planning"
  obtain a st' recs where run: "plan_approval_result ?me ?review session_approved ?st = (a, st', recs)"
    by (rule prod_cases3)
  have "leaves_plan_mode session_approved" "me_plan_exit ?me = Returned ()"
    by (simp_all add: leaves_plan_mode_def session_approved_def sample_manager_env_def)
  then show ?thesis
    using plan_review_outcome [OF run] by (simp add: run)
qed

subsection \<open>Where the order differs from its comments\<close>

lemma no_swarm_no_deny:
  assumes "''AgentSwarm'' \<notin> set (cx_batch cx)"
  shows "agent_swarm_exclusive_deny ev st cx = None"
proof -
  have "filter (\<lambda>name. name = ''AgentSwarm'') (cx_batch cx) = []"
    using assms by (auto simp: filter_empty_conv)
  then show ?thesis
    by (simp add: agent_swarm_exclusive_deny_def)
qed

lemma no_early_decision:
  assumes "agent_swarm_exclusive_deny ev st cx = None" "auto_mode_ask_user_question_deny ev st cx = None"
    "plan_mode_guard_deny ev st cx = None" "user_configured_deny ev st cx = None"
    "auto_mode_approve ev st cx = None"
  shows "first_decision policy_chain (ev, st, cx) =
    first_decision (map (\<lambda>(name, p). (name, \<lambda>(ev, st, cx). p ev st cx)) (drop 5 pure_policies)) (ev, st, cx)"
  using assms by (simp add: policy_chain_def pure_policies_def)

text \<open>
  A session approval skips the plan review. If \<open>ExitPlanMode\<close> was approved for the session,
  then a later \<open>ExitPlanMode\<close> with a new plan to review is let through without asking, in
  manual and yolo mode: the policy of the session approvals stands before the review, although
  the comment beside the review says that it runs first so that this cannot happen.
\<close>

theorem session_approval_skips_plan_review:
  assumes call: "cx_name cx = ''ExitPlanMode''" "''AgentSwarm'' \<notin> set (cx_batch cx)"
    and quiet: "pre_tool_call_hook (me_policy me) st cx = Returned None"
      "first_matching_rule (me_policy me) st cx Rule_Deny = None"
    and granted: "p \<in> set (session_patterns (ag_managers st))"
      "match_rule (en_is_match (me_policy me)) (session_rule p) (cx_name cx) (xe_matches (cx_exec cx)) \<noteq> None"
  shows "before_tool_call me cx st = (Returned None, st, [])"
proof -
  have noswarm: "agent_swarm_exclusive_deny (me_policy me) st cx = None"
    by (rule no_swarm_no_deny) (rule call(2))
  have rest: "auto_mode_ask_user_question_deny (me_policy me) st cx = None"
    "plan_mode_guard_deny (me_policy me) st cx = None" "user_configured_deny (me_policy me) st cx = None"
    using call(1) quiet(2)
    by (simp_all add: auto_mode_ask_user_question_deny_def plan_mode_guard_deny_def Let_def user_configured_deny_def)
  have "q \<in> set ps \<Longrightarrow> match_rule im (session_rule q) tool m \<noteq> None \<Longrightarrow>
      match_session_rule im tool m ps \<noteq> None" for q ps im tool m
    by (induction ps) (auto split: option.splits)
  then obtain m where m: "match_session_rule (en_is_match (me_policy me)) (cx_name cx)
      (xe_matches (cx_exec cx)) (session_patterns (ag_managers st)) = Some m"
    using granted by blast
  have "\<exists>name reason. first_decision policy_chain (me_policy me, st, cx) = Some (name, P_Approve reason None)"
  proof (cases "auto_mode_approve (me_policy me) st cx")
    case None
    then show ?thesis
      unfolding no_early_decision [OF noswarm rest None]
      by (simp add: pure_policies_def session_approval_history_def m)
  next
    case (Some r)
    then have "r = P_Approve None None"
      by (simp add: auto_mode_approve_def approve_def split: if_splits)
    with Some show ?thesis
      using noswarm rest by (simp add: policy_chain_split first_decision_append pure_policies_def)
  qed
  then show ?thesis
    using quiet(1) by (auto simp: before_tool_call_def evaluate_decision)
qed

definition review_context :: permission_context where
  "review_context = sample_context ''ExitPlanMode'' []
     (Some (Display_Plan_Review \<lparr>pw_plan = ''a new plan'', pw_path = None, pw_options = None\<rparr>))"

lemma session_approval_skips_plan_review_witness:
  "before_tool_call (sample_manager_env rejected) review_context
     (sample_state Mode_Manual [] [''ExitPlanMode(x)''] planning) =
     (Returned None, sample_state Mode_Manual [] [''ExitPlanMode(x)''] planning, [])"
proof -
  let ?me = "sample_manager_env rejected"
  let ?st = "sample_state Mode_Manual [] [''ExitPlanMode(x)''] planning"
  have call: "cx_name review_context = ''ExitPlanMode''" "''AgentSwarm'' \<notin> set (cx_batch review_context)"
    by (simp_all add: review_context_def sample_context_def)
  have hook: "pre_tool_call_hook (me_policy ?me) ?st review_context = Returned None"
    by code_simp
  have quiet: "first_matching_rule (me_policy ?me) ?st review_context Rule_Deny = None"
    by code_simp
  have granted: "''ExitPlanMode(x)'' \<in> set (session_patterns (ag_managers ?st))"
    by (simp add: ag_managers_def sample_state_def)
  have hit: "match_rule (en_is_match (me_policy ?me)) (session_rule ''ExitPlanMode(x)'')
      (cx_name review_context) (xe_matches (cx_exec review_context)) \<noteq> None"
    by code_simp
  show ?thesis
    by (rule session_approval_skips_plan_review [OF call hook quiet granted hit])
qed

text \<open>
  Yolo mode still asks about secrets. With no rules, no session approvals and a silent
  hook, a call in yolo mode that touches a sensitive file is asked about, although the type's
  comment says that in yolo mode only deny rules can block and everything else is allowed.
\<close>

theorem yolo_mode_asks_for_secrets:
  assumes mode: "ag_mode st = Mode_Yolo" and plan: "\<not> ps_active (ag_plan st)"
    and norules: "effective_rules (ag_managers st) = []" "session_patterns (ag_managers st) = []"
    and quiet: "pre_tool_call_hook (me_policy me) st cx = Returned None"
    and tool: "cx_name cx \<in> {''Read'', ''Write'', ''Edit'', ''Bash''}" "''AgentSwarm'' \<notin> set (cx_batch cx)"
    and secret: "a \<in> set (file_accesses cx)" "is_sensitive_file (en_pathe (me_policy me)) (fa_path a)"
  shows "\<exists>reason. before_tool_call me cx st = request_tool_approval me cx None st \<and>
    decision_of (me_policy me) st cx = P_Ask (Some reason) None \<and> (''sensitive_path'', RV_Bool True) \<in> set reason"
proof -
  let ?ev = "me_policy me"
  have noswarm: "agent_swarm_exclusive_deny ?ev st cx = None"
    by (rule no_swarm_no_deny) (rule tool(2))
  have early: "auto_mode_ask_user_question_deny ?ev st cx = None" "plan_mode_guard_deny ?ev st cx = None"
    "user_configured_deny ?ev st cx = None" "auto_mode_approve ?ev st cx = None"
    using mode plan norules
    by (simp_all add: auto_mode_ask_user_question_deny_def plan_mode_guard_deny_def user_configured_deny_def
        first_matching_rule_def auto_mode_approve_def)
  have middle: "session_approval_history ?ev st cx = None" "user_configured_ask ?ev st cx = None"
    "user_configured_allow ?ev st cx = None"
    using norules by (simp_all add: session_approval_history_def user_configured_ask_def
        user_configured_allow_def first_matching_rule_def)
  have review: "exit_plan_mode_review_ask ?ev st cx = None" "goal_start_review_ask ?ev st cx = None"
    "plan_mode_tool_approve ?ev st cx = None"
    using tool(1) plan by (auto simp: exit_plan_mode_review_ask_def goal_start_review_ask_def
        plan_mode_tool_approve_def Let_def)
  obtain b where b: "List.find (\<lambda>a. is_sensitive_file (en_pathe ?ev) (fa_path a)) (file_accesses cx) = Some b"
    using secret by (cases "List.find (\<lambda>a. is_sensitive_file (en_pathe ?ev) (fa_path a)) (file_accesses cx)")
      (auto simp: find_None_iff)
  have "first_decision policy_chain (?ev, st, cx) = Some (''sensitive-file-access-ask'',
      P_Ask (Some (file_access_reason b [(''sensitive_path'', RV_Bool True)])) None)"
    unfolding no_early_decision [OF noswarm early]
    by (simp add: pure_policies_def middle review sensitive_file_access_ask_def b)
  then have ask: "decision_of ?ev st cx = P_Ask (Some (file_access_reason b [(''sensitive_path'', RV_Bool True)])) None"
    by (simp add: decision_of_def)
  then show ?thesis
    using before_tool_call_asked [OF quiet ask] by (simp add: file_access_reason_def)
qed

lemma yolo_mode_asks_for_secrets_witness:
  "\<exists>reason. decision_of sample_env (sample_state Mode_Yolo [] [] plan_init)
     (sample_context ''Read'' (read_file ''/work/.env'') None) = P_Ask (Some reason) None"
proof -
  let ?me = "sample_manager_env rejected"
  let ?cx = "sample_context ''Read'' (read_file ''/work/.env'') None"
  let ?st = "sample_state Mode_Yolo [] [] plan_init"
  let ?a = "\<lparr>fa_operation = OpRead, fa_path = ''/work/.env'', fa_recursive = None\<rparr>"
  have st: "ag_mode ?st = Mode_Yolo" "\<not> ps_active (ag_plan ?st)" "effective_rules (ag_managers ?st) = []"
    "session_patterns (ag_managers ?st) = []"
    by code_simp+
  have hook: "pre_tool_call_hook (me_policy ?me) ?st ?cx = Returned None"
    by code_simp
  have tool: "cx_name ?cx \<in> {''Read'', ''Write'', ''Edit'', ''Bash''}" "''AgentSwarm'' \<notin> set (cx_batch ?cx)"
    by (simp_all add: sample_context_def)
  have secret: "?a \<in> set (file_accesses ?cx)" "is_sensitive_file (en_pathe (me_policy ?me)) (fa_path ?a)"
    by code_simp+
  have "me_policy ?me = sample_env"
    by (simp add: sample_manager_env_def)
  then show ?thesis
    using yolo_mode_asks_for_secrets [OF st hook tool secret] by auto
qed

subsection \<open>The log\<close>

text \<open>
  What happens to permissions in a session: the user or the agent sets the mode, plan mode is entered,
  cancelled or left on its own (the commands of the user, the tools \<open>EnterPlanMode\<close> and
  \<open>ExitPlanMode\<close>), a call is checked, and the answer to a dialog arrives. A check is either over
  before anything else happens (\<open>OpToolCall\<close>), or its dialog stays open: a dialog that opens changes
  nothing, and whatever happens until its answer (\<open>OpAnswer\<close>) is a step of its own.
\<close>

datatype permission_op =
    OpSetMode permission_mode
  | OpPlan plan_op
  | OpToolCall manager_env permission_context
  | OpAnswer manager_env permission_context "resolver option" approval_response

text \<open>A dialog during which nothing else changes the agent.\<close>

definition undisturbed :: "manager_env \<Rightarrow> manager_env" where
  "undisturbed me = me\<lparr>me_request := map_option (\<lambda>request q st. (fst (request q st), st)) (me_request me)\<rparr>"

fun permission_step :: "plan_env \<Rightarrow> agent_state \<Rightarrow> permission_op \<Rightarrow> agent_state \<times> agent_record list" where
  "permission_step ev st (OpSetMode mode) = set_mode mode st"
| "permission_step ev st (OpPlan a) =
     (let (plan, recs) = plan_step ev (ag_plan st) a in (st\<lparr>ag_plan := plan\<rparr>, map RecPlan recs))"
| "permission_step ev st (OpToolCall me cx) = snd (before_tool_call (undisturbed me) cx st)"
| "permission_step ev st (OpAnswer me cx res resp) = snd (after_response me cx res resp st)"

text \<open>The permission and plan mode cases of \<open>restoreAgentRecord\<close>.\<close>

fun permission_restore :: "plan_env \<Rightarrow> agent_state \<Rightarrow> agent_record \<Rightarrow> agent_state" where
  "permission_restore ev st (RecSetMode mode) = fst (set_mode mode st)"
| "permission_restore ev st (RecApproval r) = fst (record_approval r st)"
| "permission_restore ev st (RecPlan pr) = st\<lparr>ag_plan := plan_restore ev (ag_plan st) pr\<rparr>"

text \<open>The records rebuild the state, and the id and the path of an active plan still belong together.\<close>

definition replays :: "plan_env \<Rightarrow> agent_state \<Rightarrow> agent_state \<times> agent_record list \<Rightarrow> bool" where
  "replays ev st out \<longleftrightarrow>
     foldl (permission_restore ev) st (snd out) = fst out \<and>
     (plan_inv ev (ag_plan st) \<longrightarrow> plan_inv ev (ag_plan (fst out)))"

lemma replays_simps:
  "replays ev st (st, [])"
  "replays ev st (set_mode mode st)"
  "replays ev st (record_approval r st)"
  by (simp_all add: replays_def set_mode_def record_approval_def split: option.split)

lemma replays_append:
  "replays ev st (st1, recs1) \<Longrightarrow> replays ev st1 (st2, recs2) \<Longrightarrow> replays ev st (st2, recs1 @ recs2)"
  by (simp add: replays_def)

lemma exit_plan_mode_replays: "replays ev st (snd (exit_plan_mode me st))"
  by (cases "me_plan_exit me") (simp_all add: exit_plan_mode_def replays_def plan_exit_def plan_inv_def Let_def)

lemma rejected_plan_replays: "replays ev st (snd (rejected_plan_result me resp st))"
proof (cases "exit_plan_mode me st")
  case (fields failed st' recs)
  then show ?thesis
    using exit_plan_mode_replays [of ev st me]
    by (simp add: rejected_plan_result_def Let_def replays_simps)
qed

lemma plan_approval_replays: "replays ev st (snd (plan_approval_result me review resp st))"
proof (cases "exit_plan_mode me st")
  case (fields failed st' recs)
  then show ?thesis
    using exit_plan_mode_replays [of ev st me] rejected_plan_replays
    by (simp add: plan_approval_result_def Let_def split: option.split)
qed

lemma resolve_approval_replays: "replays ev st (snd (resolve_approval me res resp st))"
proof (cases "(me, res, resp, st)" rule: resolve_approval.cases)
  case (2 me' review resp' st')
  then show ?thesis
    using plan_approval_replays [of ev st me review resp] by (simp add: split_beta)
next
  case (3 me' resp' st')
  have "replays ev st (resolve_goal_start resp st)"
    by (simp add: resolve_goal_start_def replays_simps split: option.split)
  with 3 show ?thesis
    by (simp add: split_beta)
qed (simp add: replays_simps)

lemma after_response_replays: "replays ev st (snd (after_response me cx res resp st))"
proof -
  define r where "r = \<lparr>av_call_id = cx_id cx, av_tool = cx_name cx,
    av_action = aq_action (approval_request_of cx),
    av_session_rule = (if as_decision resp = Approved \<and> as_session resp
                  then Some (xe_approval_rule (cx_exec cx)) else None), av_result = resp\<rparr>"
  obtain st1 recs1 where one: "record_approval r st = (st1, recs1)"
    by (rule prod.exhaust)
  obtain a st2 recs2 where two: "resolve_approval me res resp st1 = (a, st2, recs2)"
    by (rule prod_cases3)
  have "snd (after_response me cx res resp st) = (st2, recs1 @ recs2)"
    using one two by (simp add: after_response_def Let_def r_def split: option.split)
  moreover have "replays ev st (st1, recs1)"
    using replays_simps(3) [of ev st r] one by simp
  moreover have "replays ev st1 (st2, recs2)"
    using resolve_approval_replays [of ev st1 me res resp] two by simp
  ultimately show ?thesis
    using replays_append by metis
qed

lemma request_replays: "replays ev st (snd (request_tool_approval (undisturbed me) cx res st))"
proof (cases "me_request me")
  case None
  then show ?thesis
    using after_response_replays [of ev st "undisturbed me" cx res no_dialog_response]
    by (simp add: request_tool_approval_def undisturbed_def split_beta)
next
  case (Some request)
  show ?thesis
  proof (cases "fst (request (approval_request_of cx) st)")
    case (Threw e)
    with Some show ?thesis
      by (simp add: request_tool_approval_def undisturbed_def replays_simps)
  next
    case (Returned resp)
    with Some show ?thesis
      using after_response_replays [of ev st "undisturbed me" cx res resp]
      by (simp add: request_tool_approval_def undisturbed_def split_beta)
  qed
qed

lemma resolution_replays: "replays ev st (snd (resolution_to_prepare (undisturbed me) cx r st))"
  by (cases r) (simp_all add: replays_simps request_replays)

lemma restore_plan_records:
  "foldl (permission_restore ev) st (map RecPlan recs) = st\<lparr>ag_plan := foldl (plan_restore ev) (ag_plan st) recs\<rparr>"
  by (induction recs arbitrary: st) simp_all

lemma permission_step_replays:
  assumes "plan_inv ev (ag_plan st)"
  shows "replays ev st (permission_step ev st a)"
proof (cases a)
  case (OpPlan b)
  then show ?thesis
    using plan_step_replays [OF assms, of b] by (simp add: replays_def restore_plan_records split_beta del: plan_step.simps)
next
  case (OpToolCall me cx)
  have "replays ev st (snd (before_tool_call (undisturbed me) cx st))"
    by (cases rule: before_tool_call_cases [of "undisturbed me" st cx])
      (simp_all add: replays_simps resolution_replays)
  with OpToolCall show ?thesis
    by simp
qed (simp_all add: replays_simps after_response_replays)

interpretation permission_log: event_sourced "permission_step ev" "permission_restore ev"
    "\<lambda>st. plan_inv ev (ag_plan st)" id
  by unfold_locales (use permission_step_replays [unfolded replays_def] in auto)




subsection \<open>Session approvals last\<close>

lemma restore_keeps_approvals:
  "set (mg_session (ag_own st)) \<subseteq> set (mg_session (ag_own (foldl (permission_restore ev) st recs)))"
proof (induction recs arbitrary: st)
  case (Cons r recs)
  have "set (mg_session (ag_own st)) \<subseteq> set (mg_session (ag_own (permission_restore ev st r)))"
    by (cases r) (auto simp: record_approval_def split: option.split)
  then show ?case
    using Cons.IH [of "permission_restore ev st r"] by (simp only: foldl_Cons)
qed simp

lemma session_keeps_approvals:
  assumes "plan_inv ev (ag_plan st)"
  shows "set (mg_session (ag_own st)) \<subseteq> set (mg_session (ag_own (fst (run_logged (permission_step ev) st as))))"
proof -
  have "id (foldl (permission_restore ev) st (snd (run_logged (permission_step ev) st as))) =
      id (fst (run_logged (permission_step ev) st as))"
    by (rule permission_log.run_replays) (rule assms)
  then show ?thesis
    using restore_keeps_approvals [of st ev "snd (run_logged (permission_step ev) st as)"] by simp
qed

lemma matching_pattern_found:
  "p \<in> set ps \<Longrightarrow> match_rule im (session_rule p) tool m \<noteq> None \<Longrightarrow> match_session_rule im tool m ps \<noteq> None"
  by (induction ps) (auto split: option.splits)

text \<open>
  C32: An approval for the session is remembered. After the answer to a dialog that approves a call
  for the session, and after whatever then happens in the session (changes of the mode, plan mode
  entered, cancelled or left, other calls and answers), a call whose name and arguments match the
  approval rule of that execution is not asked about, in any permission mode and even under a
  matching ask rule. \<open>ExitPlanMode\<close> is left out: its review is meant to come back, which
  \<open>session_approval_skips_plan_review\<close> is about.
\<close>

theorem session_approval_remembered:
  assumes yes: "as_decision resp = Approved" "as_session resp"
    and plan: "plan_inv ev (ag_plan st)"
    and answered: "st' = fst (permission_step ev st (OpAnswer me cx res resp))"
    and goes_on: "now = fst (run_logged (permission_step ev) st' as)"
    and again: "match_rule (en_is_match (me_policy me')) (session_rule (xe_approval_rule (cx_exec cx)))
        (cx_name cx') (xe_matches (cx_exec cx')) \<noteq> None" "cx_name cx' \<noteq> ''ExitPlanMode''"
  shows "asks_nobody me' cx' now"
proof -
  let ?rule = "xe_approval_rule (cx_exec cx)"
  let ?st = "st\<lparr>ag_own := (ag_own st)\<lparr>mg_session := set_add ?rule (mg_session (ag_own st))\<rparr>\<rparr>"
  obtain a st2 recs2 where res: "resolve_approval me res resp ?st = (a, st2, recs2)"
    by (rule prod_cases3)
  have "st' = st2"
    unfolding answered using yes res
    by (simp add: after_response_def record_approval_def Let_def split: option.split)
  then have "?rule \<in> set (mg_session (ag_own st'))"
    using resolve_approval_session [OF res] by simp
  moreover have "plan_inv ev (ag_plan st')"
    using permission_step_replays [OF plan] plan unfolding answered replays_def by blast
  ultimately have "?rule \<in> set (session_patterns (ag_managers now))"
    using session_keeps_approvals [of ev st' as] goes_on by (auto simp: ag_managers_def)
  then have "session_approval_history (me_policy me') now cx' \<noteq> None"
    using matching_pattern_found [OF _ again(1)] by (auto simp: session_approval_history_def)
  then show ?thesis
    by (intro asks_nobodyI early_decision) blast
qed

theorem session_approval_remembered_witness:
  "asks_nobody (sample_manager_env rejected) (sample_context ''Bash'' [] None)
     (sample_state Mode_Manual [] [''Bash(x)''] planning)"
proof -
  let ?st = "sample_state Mode_Yolo [] [] plan_init"
  let ?answer = "OpAnswer (sample_manager_env session_approved) (sample_context ''Bash'' [] None) None session_approved"
  let ?rest = "[OpSetMode Mode_Manual, OpPlan (OpPlanEnter sample_plan_env ''p'' False True)]"
  have yes: "as_decision session_approved = Approved" "as_session session_approved"
    by (simp_all add: session_approved_def)
  have inv: "plan_inv sample_plan_env (ag_plan ?st)"
    by code_simp
  have now: "sample_state Mode_Manual [] [''Bash(x)''] planning =
      fst (run_logged (permission_step sample_plan_env) (fst (permission_step sample_plan_env ?st ?answer)) ?rest)"
    by code_simp
  have again: "match_rule (en_is_match (me_policy (sample_manager_env rejected)))
      (session_rule (xe_approval_rule (cx_exec (sample_context ''Bash'' [] None))))
      (cx_name (sample_context ''Bash'' [] None)) (xe_matches (cx_exec (sample_context ''Bash'' [] None))) \<noteq> None"
    by code_simp
  show ?thesis
    by (rule session_approval_remembered [OF yes inv refl now again]) (simp add: sample_context_def)
qed

end
