(* ===== verification/Goal_Mode.thy ===== *)
theory Goal_Mode
  imports Prelude "HOL-Library.Product_Order"
begin

text \<open>
  Goal mode (\<open>agent/goal/index.ts\<close>): the one durable goal of an agent, its lifecycle, its
  usage accounting and its budget report. Every operation is synchronous up to its return, so
  its reads of \<open>Date.now()\<close> are one time \<open>now\<close>, in milliseconds; times may go backwards. Each
  operation gives its result or error, the new state, the records it logs and the events it
  emits. Telemetry is left out, and so are the payloads of the orchestration hooks.
\<close>

subsection \<open>Types\<close>

datatype goal_status = Goal_Active | Goal_Paused | Goal_Blocked | Goal_Complete

datatype goal_actor = Actor_User | Actor_Model | Actor_Runtime | Actor_System

record budget_limits =
  bl_tokens :: "int option"
  bl_turns :: "int option"
  bl_wall :: "int option"

definition no_limits :: budget_limits where
  "no_limits = \<lparr>bl_tokens = None, bl_turns = None, bl_wall = None\<rparr>"

record goal =
  gs_id :: string
  gs_objective :: string
  gs_criterion :: "string option"
  gs_status :: goal_status
  gs_turns :: int
  gs_tokens :: int
  gs_wall :: int
  gs_resumed :: "int option"
  gs_limits :: budget_limits
  gs_reason :: "string option"

record budget_report =
  br_token_budget :: "int option"
  br_turn_budget :: "int option"
  br_wall_budget :: "int option"
  br_remaining_tokens :: "int option"
  br_remaining_turns :: "int option"
  br_remaining_wall :: "int option"
  br_token_reached :: bool
  br_turn_reached :: bool
  br_wall_reached :: bool
  br_over :: bool

record goal_snapshot =
  sn_id :: string
  sn_objective :: string
  sn_criterion :: "string option"
  sn_status :: goal_status
  sn_turns :: int
  sn_tokens :: int
  sn_wall :: int
  sn_budget :: budget_report
  sn_reason :: "string option"

datatype change_kind = Change_Created | Change_Lifecycle | Change_Completion

record goal_change =
  ch_kind :: change_kind
  ch_status :: "goal_status option"
  ch_reason :: "string option"
  ch_stats :: "(int \<times> int \<times> int) option"
  ch_actor :: "goal_actor option"

record goal_update =
  gu_status :: "goal_status option"
  gu_tokens :: "int option"
  gu_turns :: "int option"
  gu_wall :: "int option"
  gu_limits :: "budget_limits option"
  gu_reason :: "string option"
  gu_actor :: "goal_actor option"

datatype goal_record =
    RecGoalCreate string string "string option"
  | RecGoalUpdate goal_update
  | RecGoalClear
  | RecForked

datatype goal_error =
    Goal_Not_Found | Goal_Objective_Empty | Goal_Objective_Too_Long | Goal_Already_Exists
  | Goal_Status_Invalid goal_status | Goal_Not_Resumable goal_status

datatype goal_event =
    EvGoalUpdated "goal_snapshot option" "goal_change option"
  | EvReplayPushed goal_snapshot goal_change
  | EvRegistryGoalActive bool
  | EvHook string
  | EvResetSkills
  | EvGoalReminder string

type_synonym 'a goal_out = "(goal_error + 'a) \<times> goal option \<times> goal_record list \<times> goal_event list"

subsection \<open>Time, budget and snapshots\<close>

definition live_wall_clock :: "goal \<Rightarrow> int \<Rightarrow> int" where
  "live_wall_clock g now =
     (case (gs_status g, gs_resumed g) of
        (Goal_Active, Some since) \<Rightarrow> gs_wall g + max 0 (now - since)
      | _ \<Rightarrow> gs_wall g)"

definition remaining :: "int option \<Rightarrow> int \<Rightarrow> int option" where
  "remaining budget used = map_option (\<lambda>b. max 0 (b - used)) budget"

definition reached :: "int option \<Rightarrow> int \<Rightarrow> bool" where
  "reached budget used = (case budget of None \<Rightarrow> False | Some b \<Rightarrow> used \<ge> b)"

definition compute_budget_report :: "goal \<Rightarrow> int \<Rightarrow> budget_report" where
  "compute_budget_report g now =
     (let limits = gs_limits g; wall = live_wall_clock g now;
          tok = reached (bl_tokens limits) (gs_tokens g);
          trn = reached (bl_turns limits) (gs_turns g);
          wal = reached (bl_wall limits) wall
      in \<lparr>br_token_budget = bl_tokens limits, br_turn_budget = bl_turns limits, br_wall_budget = bl_wall limits,
          br_remaining_tokens = remaining (bl_tokens limits) (gs_tokens g),
          br_remaining_turns = remaining (bl_turns limits) (gs_turns g),
          br_remaining_wall = remaining (bl_wall limits) wall,
          br_token_reached = tok, br_turn_reached = trn, br_wall_reached = wal,
          br_over = (tok \<or> trn \<or> wal)\<rparr>)"

definition to_snapshot :: "goal \<Rightarrow> int \<Rightarrow> goal_snapshot" where
  "to_snapshot g now =
     \<lparr>sn_id = gs_id g, sn_objective = gs_objective g, sn_criterion = gs_criterion g,
      sn_status = gs_status g, sn_turns = gs_turns g, sn_tokens = gs_tokens g,
      sn_wall = live_wall_clock g now, sn_budget = compute_budget_report g now, sn_reason = gs_reason g\<rparr>"

definition stats_of :: "goal \<Rightarrow> int \<Rightarrow> int \<times> int \<times> int" where
  "stats_of g now = (gs_turns g, gs_tokens g, live_wall_clock g now)"

text \<open>\<open>applyStatus\<close>: leaving \<open>active\<close> folds the running interval, entering it anchors a new one.\<close>

definition fold_interval :: "goal \<Rightarrow> int \<Rightarrow> goal" where
  "fold_interval g now =
     (case (gs_status g, gs_resumed g) of
        (Goal_Active, Some since) \<Rightarrow>
          g\<lparr>gs_wall := gs_wall g + max 0 (now - since), gs_resumed := None\<rparr>
      | _ \<Rightarrow> g)"

definition apply_status :: "goal_status \<Rightarrow> int \<Rightarrow> goal \<Rightarrow> goal" where
  "apply_status status now g =
     (let g1 = fold_interval g now;
          g2 = (if status = Goal_Active then g1\<lparr>gs_resumed := Some now\<rparr> else g1)
      in g2\<lparr>gs_status := status\<rparr>)"

subsection \<open>Records\<close>

definition empty_update :: goal_update where
  "empty_update =
     \<lparr>gu_status = None, gu_tokens = None, gu_turns = None, gu_wall = None, gu_limits = None,
      gu_reason = None, gu_actor = None\<rparr>"

definition status_update :: "goal \<Rightarrow> goal_actor \<Rightarrow> string option \<Rightarrow> int \<Rightarrow> goal_record" where
  "status_update g actor reason now =
     RecGoalUpdate (empty_update\<lparr>gu_status := Some (gs_status g), gu_reason := reason,
       gu_wall := Some (live_wall_clock g now), gu_actor := Some actor\<rparr>)"

definition lifecycle :: "goal_status \<Rightarrow> string option \<Rightarrow> goal_actor option \<Rightarrow> goal_change" where
  "lifecycle status reason actor =
     \<lparr>ch_kind = Change_Lifecycle, ch_status = Some status, ch_reason = reason, ch_stats = None, ch_actor = actor\<rparr>"

definition completion :: "goal \<Rightarrow> string option \<Rightarrow> goal_actor option \<Rightarrow> int \<Rightarrow> goal_change" where
  "completion g reason actor now =
     \<lparr>ch_kind = Change_Completion, ch_status = Some Goal_Complete, ch_reason = reason,
      ch_stats = Some (stats_of g now), ch_actor = actor\<rparr>"

definition clear_internal :: "bool \<Rightarrow> goal option \<Rightarrow> goal option \<times> goal_record list \<times> goal_event list" where
  "clear_internal emit s =
     (case s of None \<Rightarrow> (s, [], [])
      | Some g \<Rightarrow> (None, [RecGoalClear], if emit then [EvGoalUpdated None None] else []))"

subsection \<open>Operations\<close>

definition goal_max_objective :: nat where
  "goal_max_objective = 4000"

definition normalize_criterion :: "string option \<Rightarrow> string option" where
  "normalize_criterion v =
     (case v of None \<Rightarrow> None | Some c \<Rightarrow> let t = js_trim c in if length t > 0 then Some t else None)"

text \<open>\<open>createGoal\<close>; \<open>fresh\<close> is the \<open>randomUUID()\<close>.\<close>

definition create_goal ::
  "string \<Rightarrow> int \<Rightarrow> string \<Rightarrow> string option \<Rightarrow> bool \<Rightarrow> goal option \<Rightarrow> goal_snapshot goal_out" where
  "create_goal fresh now raw criterion replace s =
     (let objective = js_trim raw in
      if length objective = 0 then (Inl Goal_Objective_Empty, s, [], [])
      else if length objective > goal_max_objective then (Inl Goal_Objective_Too_Long, s, [], [])
      else if s \<noteq> None \<and> \<not> replace then (Inl Goal_Already_Exists, s, [], [])
      else
        let (_, recs, evs) = clear_internal True s;
            crit = normalize_criterion criterion;
            g = \<lparr>gs_id = fresh, gs_objective = objective, gs_criterion = crit, gs_status = Goal_Active,
                 gs_turns = 0, gs_tokens = 0, gs_wall = 0, gs_resumed = Some now,
                 gs_limits = no_limits, gs_reason = None\<rparr>
        in (Inr (to_snapshot g now), Some g, recs @ [RecGoalCreate fresh objective crit],
            evs @ [EvGoalUpdated (Some (to_snapshot g now)) None, EvRegistryGoalActive True, EvHook ''goal.started'']))"

text \<open>The common body of \<open>pauseGoal\<close> and \<open>pauseActiveGoal\<close>, on an active goal.\<close>

definition pause_now :: "int \<Rightarrow> string option \<Rightarrow> goal_actor \<Rightarrow> goal \<Rightarrow> goal \<times> goal_record list \<times> goal_event list" where
  "pause_now now reason actor g =
     (let g' = (apply_status Goal_Paused now g)\<lparr>gs_reason := reason\<rparr>
      in (g', [status_update g' actor reason now],
          [EvGoalUpdated (Some (to_snapshot g' now)) (Some (lifecycle Goal_Paused reason (Some actor))),
           EvRegistryGoalActive False, EvHook ''goal.paused'']))"

definition pause_goal :: "int \<Rightarrow> string option \<Rightarrow> goal_actor \<Rightarrow> goal option \<Rightarrow> goal_snapshot goal_out" where
  "pause_goal now reason actor s =
     (case s of
        None \<Rightarrow> (Inl Goal_Not_Found, s, [], [])
      | Some g \<Rightarrow>
          if gs_status g = Goal_Paused then (Inr (to_snapshot g now), s, [], [])
          else if gs_status g \<noteq> Goal_Active then (Inl (Goal_Status_Invalid (gs_status g)), s, [], [])
          else (let (g', recs, evs) = pause_now now reason actor g
                in (Inr (to_snapshot g' now), Some g', recs, evs)))"

definition pause_active_goal ::
  "int \<Rightarrow> string option \<Rightarrow> goal_actor \<Rightarrow> goal option \<Rightarrow> goal_snapshot option goal_out" where
  "pause_active_goal now reason actor s =
     (case s of
        None \<Rightarrow> (Inr None, s, [], [])
      | Some g \<Rightarrow>
          if gs_status g \<noteq> Goal_Active then (Inr None, s, [], [])
          else (let (g', recs, evs) = pause_now now reason actor g
                in (Inr (Some (to_snapshot g' now)), Some g', recs, evs)))"

definition pause_on_interrupt :: "int \<Rightarrow> string option \<Rightarrow> goal option \<Rightarrow> goal_snapshot option goal_out" where
  "pause_on_interrupt now reason s = pause_active_goal now reason Actor_User s"

definition resume_goal :: "int \<Rightarrow> string option \<Rightarrow> goal_actor \<Rightarrow> goal option \<Rightarrow> goal_snapshot goal_out" where
  "resume_goal now reason actor s =
     (case s of
        None \<Rightarrow> (Inl Goal_Not_Found, s, [], [])
      | Some g \<Rightarrow>
          if gs_status g = Goal_Active then (Inr (to_snapshot g now), s, [], [])
          else if gs_status g \<noteq> Goal_Paused \<and> gs_status g \<noteq> Goal_Blocked
          then (Inl (Goal_Not_Resumable (gs_status g)), s, [], [])
          else
            let g' = apply_status Goal_Active now (g\<lparr>gs_reason := None\<rparr>)
            in (Inr (to_snapshot g' now), Some g', [status_update g' actor reason now],
                [EvGoalUpdated (Some (to_snapshot g' now)) (Some (lifecycle Goal_Active reason (Some actor)))]))"

text \<open>\<open>{ ...limits, ...input }\<close>: a limit given in the input overrides.\<close>

definition merge_limits :: "budget_limits \<Rightarrow> budget_limits \<Rightarrow> budget_limits" where
  "merge_limits old new =
     \<lparr>bl_tokens = (case bl_tokens new of None \<Rightarrow> bl_tokens old | Some b \<Rightarrow> Some b),
      bl_turns = (case bl_turns new of None \<Rightarrow> bl_turns old | Some b \<Rightarrow> Some b),
      bl_wall = (case bl_wall new of None \<Rightarrow> bl_wall old | Some b \<Rightarrow> Some b)\<rparr>"

definition set_budget_limits :: "int \<Rightarrow> budget_limits \<Rightarrow> goal option \<Rightarrow> goal_snapshot goal_out" where
  "set_budget_limits now limits s =
     (case s of
        None \<Rightarrow> (Inl Goal_Not_Found, s, [], [])
      | Some g \<Rightarrow>
          let g' = g\<lparr>gs_limits := merge_limits (gs_limits g) limits\<rparr>
          in (Inr (to_snapshot g' now), Some g',
              [RecGoalUpdate (empty_update\<lparr>gu_limits := Some (gs_limits g')\<rparr>)],
              [EvGoalUpdated (Some (to_snapshot g' now)) None]))"

definition cancel_goal :: "int \<Rightarrow> goal_actor \<Rightarrow> goal option \<Rightarrow> goal_snapshot goal_out" where
  "cancel_goal now actor s =
     (case s of
        None \<Rightarrow> (Inl Goal_Not_Found, s, [], [])
      | Some g \<Rightarrow>
          let (s', recs, evs) = clear_internal True s
          in (Inr (to_snapshot g now), s', recs,
              evs @ (if actor = Actor_User then [EvGoalReminder ''goal_cancelled''] else [])))"

definition mark_blocked :: "int \<Rightarrow> string option \<Rightarrow> goal_actor \<Rightarrow> goal option \<Rightarrow> goal_snapshot option goal_out" where
  "mark_blocked now reason actor s =
     (case s of
        None \<Rightarrow> (Inr None, s, [], [])
      | Some g \<Rightarrow>
          if gs_status g \<noteq> Goal_Active then (Inr None, s, [], [])
          else
            let g' = (apply_status Goal_Blocked now g)\<lparr>gs_reason := reason\<rparr>
            in (Inr (Some (to_snapshot g' now)), Some g', [status_update g' actor reason now],
                [EvGoalUpdated (Some (to_snapshot g' now)) (Some (lifecycle Goal_Blocked reason (Some actor))),
                 EvRegistryGoalActive False, EvHook ''goal.blocked'']))"

definition mark_complete :: "int \<Rightarrow> string option \<Rightarrow> goal_actor \<Rightarrow> goal option \<Rightarrow> goal_snapshot option goal_out" where
  "mark_complete now reason actor s =
     (case s of
        None \<Rightarrow> (Inr None, s, [], [])
      | Some g \<Rightarrow>
          if gs_status g \<noteq> Goal_Active then (Inr None, s, [], [])
          else
            let g' = (apply_status Goal_Complete now g)\<lparr>gs_reason := reason\<rparr>;
                snapshot = to_snapshot g' now;
                (s', recs, evs) = clear_internal True (Some g')
            in (Inr (Some snapshot), s', [status_update g' actor reason now] @ recs,
                [EvGoalUpdated (Some snapshot) (Some (completion g' reason (Some actor) now)),
                 EvRegistryGoalActive False, EvResetSkills, EvHook ''goal.completed''] @ evs))"

definition record_token_usage :: "int \<Rightarrow> int \<Rightarrow> goal option \<Rightarrow> goal_snapshot option goal_out" where
  "record_token_usage now delta s =
     (case s of
        None \<Rightarrow> (Inr None, s, [], [])
      | Some g \<Rightarrow>
          if gs_status g \<noteq> Goal_Active then (Inr None, s, [], [])
          else
            let g' = g\<lparr>gs_tokens := gs_tokens g + max 0 delta\<rparr>
            in (Inr (Some (to_snapshot g' now)), Some g',
                [RecGoalUpdate (empty_update\<lparr>gu_tokens := Some (gs_tokens g')\<rparr>)], []))"

definition increment_turn :: "int \<Rightarrow> goal option \<Rightarrow> goal_snapshot option goal_out" where
  "increment_turn now s =
     (case s of
        None \<Rightarrow> (Inr None, s, [], [])
      | Some g \<Rightarrow>
          if gs_status g \<noteq> Goal_Active then (Inr None, s, [], [])
          else
            let g' = g\<lparr>gs_turns := gs_turns g + 1\<rparr>
            in (Inr (Some (to_snapshot g' now)), Some g',
                [RecGoalUpdate (empty_update\<lparr>gu_turns := Some (gs_turns g')\<rparr>)],
                [EvGoalUpdated (Some (to_snapshot g' now)) None]))"

definition get_goal :: "int \<Rightarrow> goal option \<Rightarrow> goal_snapshot option" where
  "get_goal now s = map_option (\<lambda>g. to_snapshot g now) s"

definition get_active_goal :: "int \<Rightarrow> goal option \<Rightarrow> goal_snapshot option" where
  "get_active_goal now s =
     (case s of None \<Rightarrow> None | Some g \<Rightarrow> if gs_status g \<noteq> Goal_Active then None else Some (to_snapshot g now))"

subsection \<open>Resuming\<close>

definition restore_create :: "int \<Rightarrow> string \<Rightarrow> string \<Rightarrow> string option \<Rightarrow> goal option \<times> goal_event list" where
  "restore_create now i objective criterion =
     (let g = \<lparr>gs_id = i, gs_objective = objective, gs_criterion = criterion, gs_status = Goal_Active,
               gs_turns = 0, gs_tokens = 0, gs_wall = 0, gs_resumed = None,
               gs_limits = no_limits, gs_reason = None\<rparr>
      in (Some g, [EvReplayPushed (to_snapshot g now)
            \<lparr>ch_kind = Change_Created, ch_status = None, ch_reason = None, ch_stats = None, ch_actor = None\<rparr>]))"

definition restore_status :: "goal_update \<Rightarrow> goal \<Rightarrow> goal" where
  "restore_status u g =
     (case gu_status u of
        None \<Rightarrow> g
      | Some st \<Rightarrow> g\<lparr>gs_status := st, gs_resumed := None,
                     gs_reason := (if st = Goal_Active then None else gu_reason u)\<rparr>)"

definition restore_counters :: "goal_update \<Rightarrow> goal \<Rightarrow> goal" where
  "restore_counters u g =
     (let g1 = (case gu_turns u of None \<Rightarrow> g | Some n \<Rightarrow> g\<lparr>gs_turns := n\<rparr>);
          g2 = (case gu_tokens u of None \<Rightarrow> g1 | Some n \<Rightarrow> g1\<lparr>gs_tokens := n\<rparr>);
          g3 = (case gu_wall u of None \<Rightarrow> g2 | Some n \<Rightarrow> g2\<lparr>gs_wall := n, gs_resumed := None\<rparr>)
      in (case gu_limits u of None \<Rightarrow> g3 | Some l \<Rightarrow> g3\<lparr>gs_limits := l\<rparr>))"

definition restore_update :: "int \<Rightarrow> goal_update \<Rightarrow> goal option \<Rightarrow> goal option \<times> goal_event list" where
  "restore_update now u s =
     (case s of
        None \<Rightarrow> (s, [])
      | Some g \<Rightarrow>
          let g' = restore_counters u (restore_status u g)
          in (Some g',
              (case gu_status u of
                 None \<Rightarrow> []
               | Some st \<Rightarrow> [EvReplayPushed (to_snapshot g' now)
                   (if st = Goal_Complete then completion g' (gu_reason u) (gu_actor u) now
                    else lifecycle st (gu_reason u) (gu_actor u))])))"

definition restore_forked :: "goal option \<Rightarrow> goal option \<times> goal_event list" where
  "restore_forked s = (None, if s \<noteq> None then [EvGoalReminder ''goal_fork_cleared''] else [])"

fun goal_restore :: "goal option \<Rightarrow> goal_record \<Rightarrow> goal option" where
  "goal_restore s (RecGoalCreate i objective criterion) = fst (restore_create 0 i objective criterion)"
| "goal_restore s (RecGoalUpdate u) = fst (restore_update 0 u s)"
| "goal_restore s RecGoalClear = None"
| "goal_restore s RecForked = fst (restore_forked s)"

definition normalize_after_replay :: "int \<Rightarrow> goal option \<Rightarrow> goal option \<times> goal_record list" where
  "normalize_after_replay now s =
     (case s of
        None \<Rightarrow> (s, [])
      | Some g \<Rightarrow>
          let g0 = g\<lparr>gs_resumed := None\<rparr> in
          if gs_status g0 = Goal_Complete then
            (let (s', recs, _) = clear_internal False (Some g0) in (s', recs))
          else if gs_status g0 = Goal_Active then
            (let reason = Some ''Paused after agent resume'';
                 g' = (apply_status Goal_Paused now g0)\<lparr>gs_reason := reason\<rparr>
             in (Some g', [status_update g' Actor_Runtime reason now]))
          else (Some g0, []))"

subsection \<open>Sessions\<close>

text \<open>The operations that keep the current goal, and those that put another or none in its place.\<close>

datatype goal_work =
    OpPause "string option" goal_actor
  | OpPauseActive "string option" goal_actor
  | OpInterrupt "string option"
  | OpResume "string option" goal_actor
  | OpLimits budget_limits
  | OpBlocked "string option" goal_actor
  | OpTokens int
  | OpTurn

datatype goal_op =
    OpWork goal_work
  | OpCreate string string "string option" bool
  | OpCancel goal_actor
  | OpComplete "string option" goal_actor

definition out_log :: "'a goal_out \<Rightarrow> goal option \<times> goal_record list" where
  "out_log out = (case out of (_, s, recs, _) \<Rightarrow> (s, recs))"

fun work_step :: "int \<Rightarrow> goal option \<Rightarrow> goal_work \<Rightarrow> goal option \<times> goal_record list" where
  "work_step now s (OpPause reason actor) = out_log (pause_goal now reason actor s)"
| "work_step now s (OpPauseActive reason actor) = out_log (pause_active_goal now reason actor s)"
| "work_step now s (OpInterrupt reason) = out_log (pause_on_interrupt now reason s)"
| "work_step now s (OpResume reason actor) = out_log (resume_goal now reason actor s)"
| "work_step now s (OpLimits limits) = out_log (set_budget_limits now limits s)"
| "work_step now s (OpBlocked reason actor) = out_log (mark_blocked now reason actor s)"
| "work_step now s (OpTokens delta) = out_log (record_token_usage now delta s)"
| "work_step now s OpTurn = out_log (increment_turn now s)"

text \<open>A step of a session happens at a time.\<close>

fun goal_step :: "goal option \<Rightarrow> int \<times> goal_op \<Rightarrow> goal option \<times> goal_record list" where
  "goal_step s (now, OpWork w) = work_step now s w"
| "goal_step s (now, OpCreate fresh raw criterion replace) = out_log (create_goal fresh now raw criterion replace s)"
| "goal_step s (now, OpCancel actor) = out_log (cancel_goal now actor s)"
| "goal_step s (now, OpComplete reason actor) = out_log (mark_complete now reason actor s)"

subsection \<open>The invariant and the log\<close>

definition goal_ok :: "goal \<Rightarrow> bool" where
  "goal_ok g \<longleftrightarrow>
     gs_status g \<noteq> Goal_Complete \<and> (gs_resumed g \<noteq> None \<longrightarrow> gs_status g = Goal_Active) \<and>
     0 \<le> gs_turns g \<and> 0 \<le> gs_tokens g \<and> 0 \<le> gs_wall g \<and>
     gs_objective g \<noteq> [] \<and> length (gs_objective g) \<le> goal_max_objective"

definition goal_inv :: "goal option \<Rightarrow> bool" where
  "goal_inv s = (case s of None \<Rightarrow> True | Some g \<Rightarrow> goal_ok g)"

text \<open>What a resume rebuilds: everything but the anchor of the running interval.\<close>

definition goal_view :: "goal option \<Rightarrow> goal option" where
  "goal_view s = map_option (\<lambda>g. g\<lparr>gs_resumed := None\<rparr>) s"

lemma goal_inv_simps [simp]: "goal_inv None" "goal_inv (Some g) = goal_ok g"
  by (simp_all add: goal_inv_def)

lemma goal_view_simps [simp]:
  "goal_view None = None" "goal_view (Some g) = Some (g\<lparr>gs_resumed := None\<rparr>)"
  by (simp_all add: goal_view_def)

lemma fold_interval_simps:
  "gs_status (fold_interval g now) = gs_status g"
  "gs_wall (fold_interval g now) = live_wall_clock g now"
  "gs_resumed (fold_interval g now) = (if gs_status g = Goal_Active then None else gs_resumed g)"
  "gs_turns (fold_interval g now) = gs_turns g"
  "gs_tokens (fold_interval g now) = gs_tokens g"
  "gs_objective (fold_interval g now) = gs_objective g"
  "gs_id (fold_interval g now) = gs_id g"
  by (auto simp: fold_interval_def live_wall_clock_def split: goal_status.split option.split)

lemma apply_status_simps:
  "gs_status (apply_status st now g) = st"
  "gs_wall (apply_status st now g) = live_wall_clock g now"
  "gs_resumed (apply_status st now g) =
     (if st = Goal_Active then Some now else if gs_status g = Goal_Active then None else gs_resumed g)"
  "gs_turns (apply_status st now g) = gs_turns g"
  "gs_tokens (apply_status st now g) = gs_tokens g"
  "gs_objective (apply_status st now g) = gs_objective g"
  "gs_id (apply_status st now g) = gs_id g"
  by (simp_all add: apply_status_def Let_def fold_interval_simps)

lemma live_wall_not_active: "gs_status g \<noteq> Goal_Active \<Longrightarrow> live_wall_clock g now = gs_wall g"
  by (cases "gs_status g") (simp_all add: live_wall_clock_def)

lemma live_wall_nonneg: "0 \<le> gs_wall g \<Longrightarrow> 0 \<le> live_wall_clock g now"
  by (auto simp: live_wall_clock_def split: goal_status.split option.split)

lemma live_wall_anchored: "gs_resumed g = Some now \<Longrightarrow> live_wall_clock g now = gs_wall g"
  by (auto simp: live_wall_clock_def split: goal_status.split)

lemma live_wall_apply_status: "live_wall_clock (apply_status st now g) now = live_wall_clock g now"
proof (cases "st = Goal_Active")
  case True
  then show ?thesis
    by (simp add: live_wall_anchored apply_status_simps)
next
  case False
  then show ?thesis
    by (simp add: live_wall_not_active apply_status_simps)
qed

lemma live_wall_reason [simp]:
  "live_wall_clock (g\<lparr>gs_reason := r\<rparr>) now = live_wall_clock g now"
  "live_wall_clock (g\<lparr>gs_limits := l\<rparr>) now = live_wall_clock g now"
  "live_wall_clock (g\<lparr>gs_tokens := n\<rparr>) now = live_wall_clock g now"
  "live_wall_clock (g\<lparr>gs_turns := n\<rparr>) now = live_wall_clock g now"
  by (simp_all add: live_wall_clock_def split: goal_status.split option.split)

lemma goal_ok_apply:
  assumes "goal_ok g" "st \<noteq> Goal_Complete" "gs_status g = Goal_Active \<or> st = Goal_Active"
  shows "goal_ok ((apply_status st now g)\<lparr>gs_reason := r\<rparr>)"
  using assms live_wall_nonneg [of g now] by (auto simp: goal_ok_def apply_status_simps)

lemmas goal_ops =
  pause_goal_def pause_active_goal_def pause_on_interrupt_def pause_now_def resume_goal_def
  set_budget_limits_def cancel_goal_def mark_blocked_def mark_complete_def record_token_usage_def
  increment_turn_def clear_internal_def out_log_def

lemma goal_ok_reason [simp]: "goal_ok (g\<lparr>gs_reason := r\<rparr>) = goal_ok g" "goal_ok (g\<lparr>gs_limits := l\<rparr>) = goal_ok g"
  by (simp_all add: goal_ok_def)

lemma work_step_inv:
  assumes "goal_inv s"
  shows "goal_inv (fst (work_step now s w))"
proof (cases s)
  case None
  then show ?thesis
    by (cases w) (simp_all add: goal_ops)
next
  case (Some g)
  then have ok: "goal_ok g"
    using assms by simp
  note paused = goal_ok_apply [OF ok, where st = Goal_Paused and now = now]
    and blocked = goal_ok_apply [OF ok, where st = Goal_Blocked and now = now]
  have resumed: "goal_ok (apply_status Goal_Active now (g\<lparr>gs_reason := None\<rparr>))"
    using goal_ok_apply [where g = "g\<lparr>gs_reason := None\<rparr>" and st = Goal_Active and now = now
        and r = "gs_reason (apply_status Goal_Active now (g\<lparr>gs_reason := None\<rparr>))"] ok by simp
  show ?thesis
  proof (cases w)
    case (OpTokens d)
    have "goal_ok (g\<lparr>gs_tokens := gs_tokens g + max 0 d\<rparr>)"
      using ok by (simp add: goal_ok_def)
    then show ?thesis
      using Some ok OpTokens by (simp add: goal_ops Let_def)
  next
    case OpTurn
    have "goal_ok (g\<lparr>gs_turns := gs_turns g + 1\<rparr>)"
      using ok by (simp add: goal_ok_def)
    then show ?thesis
      using Some ok OpTurn by (simp add: goal_ops Let_def)
  qed (use Some ok paused blocked resumed in \<open>simp_all add: goal_ops Let_def\<close>)
qed

lemma js_trim_Nil: "js_trim [] = []"
  by (simp add: js_trim_def trim_start_def)

lemma create_goal_ok:
  assumes "goal_inv s"
  shows "goal_inv (fst (out_log (create_goal fresh now raw criterion replace s)))"
  using assms by (simp add: create_goal_def Let_def out_log_def split_beta goal_ok_def)

lemma goal_step_inv: "goal_inv s \<Longrightarrow> goal_inv (fst (goal_step s a))"
proof (cases "(s, a)" rule: goal_step.cases)
  case (1 s' now w)
  assume "goal_inv s"
  with 1 show ?thesis
    using work_step_inv by simp
next
  case (2 s' now fresh raw criterion replace)
  assume "goal_inv s"
  with 2 show ?thesis
    using create_goal_ok by simp
qed (auto simp: goal_ops Let_def split: option.splits)

subsection \<open>Replaying\<close>

lemma same_view_goal:
  assumes "goal_view s = goal_view t"
  obtains "s = None" "t = None" | g h where "s = Some g" "t = Some h" "g\<lparr>gs_resumed := None\<rparr> = h\<lparr>gs_resumed := None\<rparr>"
  using assms by (cases s; cases t) auto

lemma same_goal: "g\<lparr>gs_resumed := None\<rparr> = h\<lparr>gs_resumed := None\<rparr> \<Longrightarrow> h = g\<lparr>gs_resumed := gs_resumed h\<rparr>"
  by (cases g; cases h) simp

lemma restore_update_resumed:
  "(restore_counters u (restore_status u (g\<lparr>gs_resumed := x\<rparr>)))\<lparr>gs_resumed := None\<rparr> =
   (restore_counters u (restore_status u g))\<lparr>gs_resumed := None\<rparr>"
  by (simp add: restore_counters_def restore_status_def Let_def split: option.split)

lemma goal_restore_cong:
  assumes "goal_view s = goal_view t"
  shows "goal_view (goal_restore s r) = goal_view (goal_restore t r)"
proof (cases r)
  case (RecGoalUpdate u)
  from assms show ?thesis
  proof (cases rule: same_view_goal)
    case (2 g h)
    obtain x where h: "h = g\<lparr>gs_resumed := x\<rparr>"
      using same_goal [OF 2(3)] by blast
    show ?thesis
      using 2(1,2) restore_update_resumed [where u = u and g = g and x = x]
      by (simp add: RecGoalUpdate restore_update_def Let_def h)
  qed simp
qed (simp_all add: restore_create_def restore_forked_def)

lemmas restore_defs =
  status_update_def empty_update_def restore_update_def restore_status_def restore_counters_def
  apply_status_def fold_interval_def live_wall_clock_def

lemma restore_stopped:
  assumes "st \<noteq> Goal_Active"
  shows "goal_view (goal_restore (Some g) (status_update ((apply_status st now g)\<lparr>gs_reason := r\<rparr>) actor r now)) =
    goal_view (Some ((apply_status st now g)\<lparr>gs_reason := r\<rparr>))"
  using assms by (cases g; cases st)
    (simp_all add: restore_defs Let_def split: goal_status.split option.split)

lemma restore_resumed:
  "goal_view (goal_restore (Some g) (status_update (apply_status Goal_Active now (g\<lparr>gs_reason := None\<rparr>)) actor r now)) =
     goal_view (Some (apply_status Goal_Active now (g\<lparr>gs_reason := None\<rparr>)))"
  by (cases g) (simp add: restore_defs Let_def split: goal_status.split option.split)

lemma work_step_replays:
  "goal_view (foldl goal_restore s (snd (work_step now s w))) = goal_view (fst (work_step now s w))"
proof (cases s)
  case None
  then show ?thesis
    by (cases w) (simp_all add: goal_ops)
next
  case (Some g)
  show ?thesis
  proof (cases w)
    case (OpLimits l)
    then show ?thesis
      using Some by (simp add: goal_ops Let_def empty_update_def restore_update_def restore_status_def restore_counters_def)
  next
    case (OpTokens d)
    then show ?thesis
      using Some by (simp add: goal_ops Let_def empty_update_def restore_update_def restore_status_def restore_counters_def)
  next
    case OpTurn
    then show ?thesis
      using Some by (simp add: goal_ops Let_def empty_update_def restore_update_def restore_status_def restore_counters_def)
  qed (use Some in \<open>simp_all add: goal_ops Let_def restore_stopped restore_resumed del: goal_restore.simps\<close>)
qed

lemma create_goal_replays:
  "goal_view (foldl goal_restore s (snd (out_log (create_goal fresh now raw criterion replace s)))) =
     goal_view (fst (out_log (create_goal fresh now raw criterion replace s)))"
  by (cases s) (simp_all add: create_goal_def Let_def out_log_def clear_internal_def restore_create_def)

lemma goal_step_replays: "goal_view (foldl goal_restore s (snd (goal_step s a))) = goal_view (fst (goal_step s a))"
proof (cases "(s, a)" rule: goal_step.cases)
  case (1 s' now w)
  then show ?thesis
    using work_step_replays by simp
next
  case (2 s' now fresh raw criterion replace)
  then show ?thesis
    using create_goal_replays by simp
qed (auto simp: goal_ops Let_def split: option.splits)

interpretation goal_log: event_sourced goal_step goal_restore goal_inv goal_view
  by unfold_locales (rule goal_step_inv goal_step_replays goal_restore_cong, assumption?)+

text \<open>
  C11: Goal mode survives a restart. After any session of goal operations, started with no goal,
  replaying the log on a fresh agent rebuilds the goal up to its running interval: the same
  id, objective, status, counters, accumulated time, limits and reason. If the process died
  after any number of records, the replay followed by \<open>normalizeAfterReplay\<close> leaves no goal or
  a goal that is paused or blocked with no interval running.
\<close>

theorem goal_survives_restart:
  "goal_view (foldl goal_restore None (snd (run_logged goal_step None ops))) =
     goal_view (fst (run_logged goal_step None ops)) \<and>
   (case fst (normalize_after_replay now (foldl goal_restore None (take k (snd (run_logged goal_step None ops))))) of
      None \<Rightarrow> True
    | Some g \<Rightarrow> (gs_status g = Goal_Paused \<or> gs_status g = Goal_Blocked) \<and> gs_resumed g = None)"
proof (intro conjI)
  show "goal_view (foldl goal_restore None (snd (run_logged goal_step None ops))) =
     goal_view (fst (run_logged goal_step None ops))"
    by (rule goal_log.run_replays) simp
  have "case fst (normalize_after_replay now s) of None \<Rightarrow> True
    | Some g \<Rightarrow> (gs_status g = Goal_Paused \<or> gs_status g = Goal_Blocked) \<and> gs_resumed g = None" for s
    by (cases s; cases "gs_status (the s)")
      (simp_all add: normalize_after_replay_def Let_def clear_internal_def apply_status_simps)
  then show "case fst (normalize_after_replay now (foldl goal_restore None (take k (snd (run_logged goal_step None ops))))) of
      None \<Rightarrow> True
    | Some g \<Rightarrow> (gs_status g = Goal_Paused \<or> gs_status g = Goal_Blocked) \<and> gs_resumed g = None" .
qed

text \<open>
  A goal at rest. In every state a session reaches, \<open>complete\<close> is never the status of the
  stored goal, a time interval runs only while the goal is active, the counters are not
  negative and the objective is not empty and within the length limit.
\<close>

theorem goal_at_rest:
  "case fst (run_logged goal_step None ops) of
     None \<Rightarrow> True
   | Some g \<Rightarrow>
       gs_status g \<noteq> Goal_Complete \<and> (gs_resumed g \<noteq> None \<longrightarrow> gs_status g = Goal_Active) \<and>
       0 \<le> gs_turns g \<and> 0 \<le> gs_tokens g \<and> 0 \<le> gs_wall g \<and>
       gs_objective g \<noteq> [] \<and> length (gs_objective g) \<le> goal_max_objective"
proof -
  have "goal_inv (fst (run_logged goal_step None ops))"
    by (rule goal_log.run_logged_inv) simp
  then show ?thesis
    by (simp add: goal_inv_def goal_ok_def split: option.splits)
qed

lemma goal_at_rest_witness:
  "case fst (run_logged goal_step None [(5, OpCreate ''id'' ''win'' None False), (9, OpWork OpTurn)]) of
     None \<Rightarrow> False | Some g \<Rightarrow> gs_status g \<noteq> Goal_Complete \<and> gs_turns g = 1"
proof -
  have run: "map_option gs_turns (fst (run_logged goal_step None
      [(5, OpCreate ''id'' ''win'' None False), (9, OpWork OpTurn)])) = Some 1"
    by code_simp
  show ?thesis
    using goal_at_rest [of "[(5, OpCreate ''id'' ''win'' None False), (9, OpWork OpTurn)]"] run
    by (simp split: option.splits)
qed

subsection \<open>Usage\<close>

definition usage :: "goal option \<Rightarrow> int \<times> int \<times> int" where
  "usage s = (case s of None \<Rightarrow> (0, 0, 0) | Some g \<Rightarrow> (gs_turns g, gs_tokens g, gs_wall g))"

lemma live_wall_ge: "gs_wall g \<le> live_wall_clock g now"
  by (auto simp: live_wall_clock_def split: goal_status.split option.split)

lemma work_step_goal:
  obtains (none) "s = None" "fst (work_step now s w) = None"
  | (goal) g g' where "s = Some g" "fst (work_step now s w) = Some g'" "gs_id g' = gs_id g"
      "gs_turns g \<le> gs_turns g'" "gs_tokens g \<le> gs_tokens g'" "gs_wall g \<le> gs_wall g'"
      "live_wall_clock g' now = live_wall_clock g now"
proof (cases s)
  case None
  then show thesis
    by (intro none) (cases w; simp add: goal_ops)+
next
  case (Some g)
  have "\<exists>g'. fst (work_step now s w) = Some g' \<and> gs_id g' = gs_id g \<and> gs_turns g \<le> gs_turns g' \<and>
      gs_tokens g \<le> gs_tokens g' \<and> gs_wall g \<le> gs_wall g' \<and> live_wall_clock g' now = live_wall_clock g now"
    using live_wall_ge [of g now]
    by (cases w) (simp_all add: Some goal_ops Let_def apply_status_simps live_wall_apply_status)
  with Some show thesis
    using goal by blast
qed

interpretation goal_usage: monotone_machine "\<lambda>s (now, w). fst (work_step now s w)" goal_inv usage
proof
  fix s :: "goal option" and a :: "int \<times> goal_work"
  obtain now w where a: "a = (now, w)"
    by (cases a)
  show "goal_inv s \<Longrightarrow> goal_inv (case a of (now, w) \<Rightarrow> fst (work_step now s w))"
    by (simp add: a work_step_inv)
  show "usage s \<le> usage (case a of (now, w) \<Rightarrow> fst (work_step now s w))"
    unfolding a prod.case by (cases rule: work_step_goal [of s now w]) (simp_all add: usage_def)
qed

definition work_session :: "goal option \<Rightarrow> (int \<times> goal_work) list \<Rightarrow> goal option" where
  "work_session s ws = foldl (\<lambda>s (now, w). fst (work_step now s w)) s ws"

lemma work_session_Cons: "work_session s ((now, w) # ws) = work_session (fst (work_step now s w)) ws"
  by (simp add: work_session_def)

lemma live_wall_advance:
  assumes "t \<le> t'"
  shows "live_wall_clock g t \<le> live_wall_clock g t' \<and> live_wall_clock g t' - live_wall_clock g t \<le> t' - t"
  using assms by (auto simp: live_wall_clock_def split: goal_status.split option.split)

lemma wall_clock_step:
  assumes "sorted (t0 # map fst ws @ [t1])"
  shows "\<exists>h. work_session (Some g) ws = Some h \<and> gs_id h = gs_id g \<and>
    live_wall_clock g t0 \<le> live_wall_clock h t1 \<and>
    live_wall_clock h t1 - live_wall_clock g t0 \<le> t1 - t0"
  using assms
proof (induction ws arbitrary: g t0)
  case Nil
  then show ?case
    using live_wall_advance [of t0 t1 g] by (simp add: work_session_def)
next
  case (Cons a ws)
  obtain now w where a: "a = (now, w)"
    by (cases a)
  obtain g' where g': "fst (work_step now (Some g) w) = Some g'" "gs_id g' = gs_id g"
      "live_wall_clock g' now = live_wall_clock g now"
    by (cases rule: work_step_goal [of "Some g" now w]) auto
  have "sorted (now # map fst ws @ [t1])" "t0 \<le> now"
    using Cons.prems a by simp_all
  moreover obtain h where "work_session (Some g') ws = Some h" "gs_id h = gs_id g'"
      "live_wall_clock g' now \<le> live_wall_clock h t1" "live_wall_clock h t1 - live_wall_clock g' now \<le> t1 - now"
    using Cons.IH [OF calculation(1), of g'] by blast
  ultimately show ?case
    using g' live_wall_advance [of t0 now g] by (simp add: a work_session_Cons)
qed

text \<open>
  The clock of a goal. Through any pauses, resumptions, blocks and accounting at
  non-decreasing times, the goal stays the same one, its turn and token counters and its
  stored time never decrease, and the reported active time never runs backwards and never
  counts more than the time that passed.
\<close>

theorem goal_clock:
  assumes "sorted (t0 # map fst ws @ [t1])" and "goal_ok g"
  shows "\<exists>h. work_session (Some g) ws = Some h \<and> gs_id h = gs_id g \<and>
    gs_turns g \<le> gs_turns h \<and> gs_tokens g \<le> gs_tokens h \<and> gs_wall g \<le> gs_wall h \<and>
    live_wall_clock g t0 \<le> live_wall_clock h t1 \<and>
    live_wall_clock h t1 - live_wall_clock g t0 \<le> t1 - t0"
proof -
  obtain h where h: "work_session (Some g) ws = Some h" and rest: "gs_id h = gs_id g"
      "live_wall_clock g t0 \<le> live_wall_clock h t1" "live_wall_clock h t1 - live_wall_clock g t0 \<le> t1 - t0"
    using wall_clock_step [OF assms(1), of g] by blast
  have "usage (Some g) \<le> usage (work_session (Some g) ws)"
    unfolding work_session_def by (rule goal_usage.run_mono) (simp add: assms(2))
  then show ?thesis
    using h rest by (auto simp: usage_def)
qed

definition sample_goal :: goal where
  "sample_goal =
     \<lparr>gs_id = ''g1'', gs_objective = ''ship it'', gs_criterion = None, gs_status = Goal_Active,
      gs_turns = 0, gs_tokens = 0, gs_wall = 0, gs_resumed = Some 100, gs_limits = no_limits, gs_reason = None\<rparr>"

lemma goal_clock_witness:
  "\<exists>h. work_session (Some sample_goal) [(150, OpPause None Actor_User), (400, OpResume None Actor_User)] = Some h \<and>
     live_wall_clock h 410 \<le> 310"
proof -
  have times: "sorted ((100::int) # map fst [(150, OpPause None Actor_User), (400, OpResume None Actor_User)] @ [410])"
    by simp
  have ok: "goal_ok sample_goal"
    by code_simp
  have "live_wall_clock sample_goal 100 = 0"
    by code_simp
  then show ?thesis
    using goal_clock [OF times ok] by auto
qed

text \<open>
  Only an active goal is charged, and only by the accounting operations. A goal that is not
  active keeps its turns, its tokens and its time whatever operation is applied to it, and an
  active one is charged exactly the positive part of the token delta, or one turn.
\<close>

theorem only_active_goal_charged:
  "(gs_status g \<noteq> Goal_Active \<longrightarrow>
      usage (fst (work_step now (Some g) w)) = usage (Some g)) \<and>
   (gs_status g = Goal_Active \<longrightarrow>
      usage (fst (work_step now (Some g) (OpTokens d))) = (gs_turns g, gs_tokens g + max 0 d, gs_wall g) \<and>
      usage (fst (work_step now (Some g) OpTurn)) = (gs_turns g + 1, gs_tokens g, gs_wall g))"
  by (cases w) (auto simp: usage_def goal_ops Let_def apply_status_simps live_wall_not_active)

lemma only_active_goal_charged_witness:
  "usage (fst (work_step 7 (Some (sample_goal\<lparr>gs_status := Goal_Paused\<rparr>)) (OpTokens 50))) = (0, 0, 0) \<and>
   usage (fst (work_step 7 (Some sample_goal) (OpTokens 50))) = (0, 50, 0)"
  using only_active_goal_charged [of "sample_goal\<lparr>gs_status := Goal_Paused\<rparr>" 7 "OpTokens 50" 50]
    only_active_goal_charged [of sample_goal 7 "OpTokens 50" 50]
  by (simp add: sample_goal_def usage_def)

text \<open>
  The budget report is exact: a limit is reported as reached exactly when it is set and
  nothing of it remains, the goal is over budget exactly when one of the three is reached, and
  what is used and what remains make up a limit that is not exceeded.
\<close>

theorem budget_report_exact:
  "let r = compute_budget_report g now in
     (br_token_reached r \<longleftrightarrow> br_remaining_tokens r = Some 0) \<and>
     (br_turn_reached r \<longleftrightarrow> br_remaining_turns r = Some 0) \<and>
     (br_wall_reached r \<longleftrightarrow> br_remaining_wall r = Some 0) \<and>
     (br_over r \<longleftrightarrow> Some 0 \<in> {br_remaining_tokens r, br_remaining_turns r, br_remaining_wall r}) \<and>
     (\<forall>b. bl_tokens (gs_limits g) = Some b \<longrightarrow>
        br_remaining_tokens r = Some (if gs_tokens g \<le> b then b - gs_tokens g else 0))"
proof -
  have key: "reached b u \<longleftrightarrow> remaining b u = Some 0" for b u
    by (cases b) (auto simp: reached_def remaining_def)
  have rem: "remaining (Some b) u = Some (if u \<le> b then b - u else 0)" for b u
    by (simp add: remaining_def)
  show ?thesis
    by (auto simp: compute_budget_report_def Let_def key rem)
qed

lemma budget_report_exact_witness:
  "br_over (compute_budget_report (sample_goal\<lparr>gs_limits := no_limits\<lparr>bl_wall := Some 60\<rparr>\<rparr>) 160)"
proof -
  let ?r = "compute_budget_report (sample_goal\<lparr>gs_limits := no_limits\<lparr>bl_wall := Some 60\<rparr>\<rparr>) 160"
  have "br_remaining_wall ?r = Some 0"
    by code_simp
  then show ?thesis
    using budget_report_exact [of "sample_goal\<lparr>gs_limits := no_limits\<lparr>bl_wall := Some 60\<rparr>\<rparr>" 160]
    by (simp add: Let_def)
qed

subsection \<open>The flag of the task registry\<close>

text \<open>\<open>SessionTaskRegistry.setGoalActive\<close>: the flag after the events of an operation.\<close>

fun registry_flag :: "bool \<Rightarrow> goal_event list \<Rightarrow> bool" where
  "registry_flag b [] = b"
| "registry_flag b (EvRegistryGoalActive a # evs) = registry_flag a evs"
| "registry_flag b (_ # evs) = registry_flag b evs"

text \<open>
  The registry's flag goes stale. The task registry is told that a goal is active when one
  is created and that none is when it stops, but not when it is resumed or cancelled: after
  a pause and a resumption the goal is active while the flag is false, and after a cancellation
  there is no goal while the flag keeps its value.
\<close>

theorem registry_flag_goes_stale:
  assumes "gs_status g = Goal_Active"
  shows "let (_, s1, _, evs1) = pause_goal t1 r1 a1 (Some g);
             (_, s2, _, evs2) = resume_goal t2 r2 a2 s1;
             (_, s3, _, evs3) = cancel_goal t3 a3 (Some g)
         in map_option gs_status s2 = Some Goal_Active \<and> \<not> registry_flag True (evs1 @ evs2) \<and>
            s3 = None \<and> registry_flag b evs3 = b"
  using assms by (simp add: goal_ops Let_def apply_status_simps)

lemma registry_flag_goes_stale_witness:
  "let (_, s1, _, evs1) = pause_goal 150 None Actor_User (Some sample_goal);
       (_, s2, _, evs2) = resume_goal 400 None Actor_User s1
   in map_option gs_status s2 = Some Goal_Active \<and> \<not> registry_flag True (evs1 @ evs2)"
  using registry_flag_goes_stale [of sample_goal 150 None Actor_User 400 None Actor_User 500 Actor_User True]
  by (simp add: sample_goal_def Let_def split_beta)

end
