(* ===== verification/Task_Registry.thy ===== *)
theory Task_Registry
  imports Prelude "HOL-Library.Multiset"
begin

text \<open>
  \<open>SessionTaskRegistry\<close> (\<open>session/task-registry.ts\<close>): the task list shared by the agents of a
  session, with dependencies. The \<open>Map\<close> of tasks is an association list in insertion order;
  \<open>Date.now()\<close> is the argument \<open>now\<close>. The unblock events, which the source defers to a
  microtask, are the last events of the operation that queues them. Reading and writing the
  JSON file are outside; what is written and read is the list of tasks and the counter. A status
  is \<open>None\<close> where JavaScript has \<open>undefined\<close>; a field of an update is \<open>None\<close> where the caller leaves
  the key out, and \<open>Some None\<close> where the key is there with the value \<open>undefined\<close>. The tools of
  \<open>tools/builtin/collaboration/task-registry.ts\<close> call the operations.
\<close>

subsection \<open>State\<close>

datatype task_status = Task_Pending | Task_In_Progress | Task_Completed | Task_Failed | Task_Blocked

record task =
  tk_id :: string
  tk_title :: string
  tk_description :: "string option"
  tk_assignee :: "string option"
  tk_status :: "task_status option"
  tk_deps :: "string list"
  tk_created :: nat
  tk_updated :: nat
  tk_result :: "string option"

record task_updates =
  tu_title :: "string option"
  tu_description :: "string option option"
  tu_assignee :: "string option option"
  tu_status :: "task_status option option"
  tu_result :: "string option option"

datatype registry_event =
    EvTaskCreated string task_status nat nat bool
  | EvTaskFinished string task_status
  | EvTaskUnblocked string

record registry =
  rg_tasks :: "(string \<times> task) list"
  rg_counter :: nat
  rg_has_goal :: bool

definition registry_init :: registry where
  "registry_init = \<lparr>rg_tasks = [], rg_counter = 0, rg_has_goal = False\<rparr>"

definition set_goal_active :: "bool \<Rightarrow> registry \<Rightarrow> registry" where
  "set_goal_active a rg = rg\<lparr>rg_has_goal := a\<rparr>"

subsection \<open>Blocked tasks\<close>

fun deps_blocked :: "(string \<times> task) list \<Rightarrow> string list \<Rightarrow> bool" where
  "deps_blocked tasks [] = False"
| "deps_blocked tasks (d # ds) =
     (case map_of tasks d of
        None \<Rightarrow> True
      | Some dep \<Rightarrow> if tk_status dep \<noteq> Some Task_Completed then True else deps_blocked tasks ds)"

text \<open>One round of the loop of \<open>recomputeBlockedStatuses\<close>, then the loop over the entries.\<close>

definition recompute_one ::
  "nat \<Rightarrow> (string \<times> task) list \<times> string list \<Rightarrow> string \<Rightarrow> (string \<times> task) list \<times> string list" where
  "recompute_one now acc i =
     (let (tasks, unblocked) = acc in
      case map_of tasks i of
        None \<Rightarrow> acc
      | Some t \<Rightarrow>
          (let should = deps_blocked tasks (tk_deps t) in
           if should \<and> tk_status t \<noteq> Some Task_Blocked
           then (AList.update i (t\<lparr>tk_status := Some Task_Blocked, tk_updated := now\<rparr>) tasks, unblocked)
           else if \<not> should \<and> tk_status t = Some Task_Blocked
           then (AList.update i (t\<lparr>tk_status := Some Task_Pending, tk_updated := now\<rparr>) tasks, unblocked @ [i])
           else acc))"

definition recompute_blocked :: "nat \<Rightarrow> (string \<times> task) list \<Rightarrow> (string \<times> task) list \<times> string list" where
  "recompute_blocked now tasks = foldl (recompute_one now) (tasks, []) (map fst tasks)"

definition unblock_events :: "(string \<times> task) list \<Rightarrow> string list \<Rightarrow> registry_event list" where
  "unblock_events tasks ids = map EvTaskUnblocked (filter (\<lambda>i. map_of tasks i \<noteq> None) ids)"

subsection \<open>Operations\<close>

definition task_key :: "nat \<Rightarrow> nat \<Rightarrow> string" where
  "task_key n now = ''task_'' @ nat_to_string n @ ''_'' @ nat_to_string now"

definition create_task ::
  "nat \<Rightarrow> string \<Rightarrow> string option \<Rightarrow> string option \<Rightarrow> string list option \<Rightarrow> registry \<Rightarrow>
   task \<times> registry \<times> registry_event list" where
  "create_task now title description assignee dependencies rg =
     (let n = rg_counter rg + 1;
          i = task_key n now;
          deps = opt_or dependencies [];
          status = (if deps_blocked (rg_tasks rg) deps then Task_Blocked else Task_Pending);
          t = \<lparr>tk_id = i, tk_title = title, tk_description = description, tk_assignee = assignee,
               tk_status = Some status, tk_deps = deps, tk_created = now, tk_updated = now, tk_result = None\<rparr>;
          (tasks, unblocked) = recompute_blocked now (AList.update i t (rg_tasks rg))
      in (t, rg\<lparr>rg_tasks := tasks, rg_counter := n\<rparr>,
          EvTaskCreated i status (length deps) (length tasks) (rg_has_goal rg) # unblock_events tasks unblocked))"

text \<open>\<open>{ ...existing, ...updates, updatedAt }\<close>: a key that is there overwrites, whatever its value.\<close>

definition apply_updates :: "nat \<Rightarrow> task_updates \<Rightarrow> task \<Rightarrow> task" where
  "apply_updates now u t =
     t\<lparr>tk_title := opt_or (tu_title u) (tk_title t),
       tk_description := opt_or (tu_description u) (tk_description t),
       tk_assignee := opt_or (tu_assignee u) (tk_assignee t),
       tk_status := opt_or (tu_status u) (tk_status t),
       tk_updated := now,
       tk_result := opt_or (tu_result u) (tk_result t)\<rparr>"

text \<open>\<open>updates.status\<close>: \<open>undefined\<close> where the key is missing as well.\<close>

definition given_status :: "task_updates \<Rightarrow> task_status option" where
  "given_status u = opt_or (tu_status u) None"

definition update_task ::
  "nat \<Rightarrow> string \<Rightarrow> task_updates \<Rightarrow> registry \<Rightarrow> task option \<times> registry \<times> registry_event list" where
  "update_task now i u rg =
     (case map_of (rg_tasks rg) i of
        None \<Rightarrow> (None, rg, [])
      | Some existing \<Rightarrow>
          (let updated = apply_updates now u existing;
               tasks1 = AList.update i updated (rg_tasks rg)
           in case given_status u of
                None \<Rightarrow> (Some updated, rg\<lparr>rg_tasks := tasks1\<rparr>, [])
              | Some st \<Rightarrow>
                  (let (tasks2, unblocked) = recompute_blocked now tasks1
                   in (Some updated, rg\<lparr>rg_tasks := tasks2\<rparr>,
                       (if st = Task_Completed \<or> st = Task_Failed then [EvTaskFinished i st] else []) @
                       unblock_events tasks2 unblocked))))"

text \<open>What \<open>UpdateTaskTool\<close> passes: three keys, each with the argument or with \<open>undefined\<close>.\<close>

definition tool_updates :: "task_status option \<Rightarrow> string option \<Rightarrow> string option \<Rightarrow> task_updates" where
  "tool_updates status assignee result =
     \<lparr>tu_title = None, tu_description = None, tu_assignee = Some assignee, tu_status = Some status,
      tu_result = Some result\<rparr>"

definition get_task :: "string \<Rightarrow> registry \<Rightarrow> task option" where
  "get_task i rg = map_of (rg_tasks rg) i"

definition list_tasks :: "task_status option \<Rightarrow> string option \<Rightarrow> registry \<Rightarrow> task list" where
  "list_tasks status assignee rg =
     (let r0 = map snd (rg_tasks rg);
          r1 = (case status of None \<Rightarrow> r0 | Some st \<Rightarrow> filter (\<lambda>t. tk_status t = Some st) r0);
          r2 = (case assignee of None \<Rightarrow> r1 | Some a \<Rightarrow> filter (\<lambda>t. tk_assignee t = Some a) r1)
      in sort_key tk_created r2)"

definition delete_task :: "nat \<Rightarrow> string \<Rightarrow> registry \<Rightarrow> bool \<times> registry" where
  "delete_task now i rg =
     (if map_of (rg_tasks rg) i = None then (False, rg)
      else (True, rg\<lparr>rg_tasks := fst (recompute_blocked now (AList.delete i (rg_tasks rg)))\<rparr>))"

definition count_status :: "task_status \<Rightarrow> task list \<Rightarrow> nat" where
  "count_status st ts = length (filter (\<lambda>t. tk_status t = Some st) ts)"

definition registry_snapshot :: "registry \<Rightarrow> task list \<times> nat \<times> (task_status \<Rightarrow> nat)" where
  "registry_snapshot rg =
     (let all = map snd (rg_tasks rg) in (all, length all, \<lambda>st. count_status st all))"

definition save_registry :: "registry \<Rightarrow> task list \<times> nat" where
  "save_registry rg = (map snd (rg_tasks rg), rg_counter rg)"

definition load_registry :: "task list \<times> nat \<Rightarrow> registry \<Rightarrow> registry" where
  "load_registry data rg =
     rg\<lparr>rg_tasks := foldl (\<lambda>al t. AList.update (tk_id t) t al) (rg_tasks rg) (fst data),
        rg_counter := snd data\<rparr>"

subsection \<open>The recomputation reaches a consistent list\<close>

definition settled :: "(string \<times> task) list \<Rightarrow> string \<Rightarrow> bool" where
  "settled tasks i \<longleftrightarrow>
     (\<forall>t. map_of tasks i = Some t \<longrightarrow> (tk_status t = Some Task_Blocked \<longleftrightarrow> deps_blocked tasks (tk_deps t)))"

definition consistent :: "(string \<times> task) list \<Rightarrow> bool" where
  "consistent tasks \<longleftrightarrow> (\<forall>i. settled tasks i)"

text \<open>The names a task's dependencies have in the map stand before it.\<close>

definition shape :: "string \<times> task \<Rightarrow> string \<times> string list \<times> string" where
  "shape p = (fst p, tk_deps (snd p), tk_id (snd p))"

fun deps_before :: "(string \<times> string list \<times> string) list \<Rightarrow> bool" where
  "deps_before [] = True"
| "deps_before ((i, ds, k) # rest) = (set ds \<inter> set (i # map fst rest) = {} \<and> deps_before rest)"

definition deps_first :: "(string \<times> task) list \<Rightarrow> bool" where
  "deps_first tasks = deps_before (map shape tasks)"

lemma deps_blocked_iff:
  "deps_blocked tasks ds \<longleftrightarrow> (\<exists>d \<in> set ds. \<forall>dep. map_of tasks d = Some dep \<longrightarrow> tk_status dep \<noteq> Some Task_Completed)"
  by (induction ds) (auto split: option.splits)

lemma deps_blocked_cong:
  assumes "\<And>d. d \<in> set ds \<Longrightarrow> map_of tasks d = map_of tasks' d"
  shows "deps_blocked tasks ds = deps_blocked tasks' ds"
  using assms by (simp add: deps_blocked_iff)

text \<open>What a round leaves: the keys, the dependencies, and every other entry.\<close>

definition same_shape :: "(string \<times> task) list \<Rightarrow> (string \<times> task) list \<Rightarrow> bool" where
  "same_shape tasks tasks' \<longleftrightarrow> map shape tasks = map shape tasks'"

lemma same_shape_refl [simp]: "same_shape tasks tasks"
  by (simp add: same_shape_def)

lemma same_shape_trans: "same_shape a b \<Longrightarrow> same_shape b c \<Longrightarrow> same_shape a c"
  by (simp add: same_shape_def)

lemma same_shape_update:
  "map_of tasks i = Some t \<Longrightarrow> tk_deps t' = tk_deps t \<Longrightarrow> tk_id t' = tk_id t \<Longrightarrow>
     same_shape tasks (AList.update i t' tasks)"
  by (induction tasks) (auto simp: same_shape_def shape_def split: if_splits)

lemma same_shape_keys: "same_shape tasks tasks' \<Longrightarrow> map fst tasks = map fst tasks'"
proof -
  have "map fst (map shape xs) = map fst xs" for xs
    by (simp add: shape_def)
  then show "same_shape tasks tasks' \<Longrightarrow> map fst tasks = map fst tasks'"
    unfolding same_shape_def by metis
qed

lemma deps_first_shape: "same_shape tasks tasks' \<Longrightarrow> deps_first tasks \<Longrightarrow> deps_first tasks'"
  by (simp add: same_shape_def deps_first_def)

lemma same_shape_lookup:
  "same_shape tasks tasks' \<Longrightarrow> map_option tk_deps (map_of tasks i) = map_option tk_deps (map_of tasks' i)"
  unfolding same_shape_def
proof (induction tasks arbitrary: tasks')
  case (Cons p tasks)
  then obtain p' rest where tasks': "tasks' = p' # rest" "shape p = shape p'" "map shape tasks = map shape rest"
    by (cases tasks') auto
  then have "fst p = fst p'" "tk_deps (snd p) = tk_deps (snd p')"
    by (simp_all add: shape_def)
  with Cons.IH [OF tasks'(3)] tasks'(1) show ?case
    by (cases p; cases p') simp
qed simp

lemma deps_first_Cons:
  "deps_first ((i, t) # tasks) \<longleftrightarrow> set (tk_deps t) \<inter> set (i # map fst tasks) = {} \<and> deps_first tasks"
proof -
  have "map fst (map shape tasks) = map fst tasks"
    by (simp add: shape_def)
  then show ?thesis
    by (simp add: deps_first_def shape_def comp_def)
qed

lemma recompute_one_effect:
  "same_shape (fst acc) (fst (recompute_one now acc i)) \<and>
   (\<forall>j. j \<noteq> i \<longrightarrow> map_of (fst (recompute_one now acc i)) j = map_of (fst acc) j)"
  by (cases acc) (auto simp: recompute_one_def Let_def js_map_simps intro: same_shape_update split: option.split)

lemma recompute_one_settles:
  assumes "\<And>t. map_of (fst acc) i = Some t \<Longrightarrow> i \<notin> set (tk_deps t)"
  shows "settled (fst (recompute_one now acc i)) i"
proof (cases acc)
  case (Pair tasks unblocked)
  show ?thesis
  proof (cases "map_of tasks i")
    case None
    then show ?thesis
      using Pair by (simp add: recompute_one_def settled_def)
  next
    case (Some t)
    have "i \<notin> set (tk_deps t)"
      using assms Pair Some by simp
    then have upd: "deps_blocked (AList.update i t' tasks) (tk_deps t) = deps_blocked tasks (tk_deps t)" for t'
      by (intro deps_blocked_cong) (auto simp: js_map_simps)
    show ?thesis
      using Pair Some upd by (auto simp: recompute_one_def settled_def Let_def js_map_simps)
  qed
qed

lemma settled_other:
  assumes "settled tasks j" "map_of tasks' j = map_of tasks j"
    and "\<And>t d. map_of tasks j = Some t \<Longrightarrow> d \<in> set (tk_deps t) \<Longrightarrow> map_of tasks' d = map_of tasks d"
  shows "settled tasks' j"
  unfolding settled_def
proof (intro allI impI)
  fix t
  assume "map_of tasks' j = Some t"
  then have t: "map_of tasks j = Some t"
    using assms(2) by simp
  have "deps_blocked tasks' (tk_deps t) = deps_blocked tasks (tk_deps t)"
    using assms(3) [OF t] by (rule deps_blocked_cong)
  then show "tk_status t = Some Task_Blocked \<longleftrightarrow> deps_blocked tasks' (tk_deps t)"
    using assms(1) t by (simp add: settled_def)
qed

lemma deps_of_key:
  assumes "deps_first tasks" "distinct (map fst tasks)" "map fst tasks = ks @ j # ls" "map_of tasks j = Some t"
  shows "set (tk_deps t) \<inter> set (j # ls) = {}"
  using assms
proof (induction tasks arbitrary: ks)
  case (Cons p tasks)
  obtain i u where p: "p = (i, u)"
    by (cases p)
  show ?case
  proof (cases ks)
    case Nil
    then show ?thesis
      using Cons.prems p by (auto simp: deps_first_Cons)
  next
    case (Cons k ks')
    then have "k = i" "map fst tasks = ks' @ j # ls"
      using Cons.prems(3) p by simp_all
    moreover have "j \<noteq> i"
      using Cons.prems(2) p calculation by auto
    ultimately show ?thesis
      using Cons.IH [of ks'] Cons.prems p by (simp add: deps_first_Cons)
  qed
qed simp

lemma recompute_keys:
  assumes "deps_first tasks" "distinct (map fst tasks)" "map fst tasks = ks @ ls"
  shows "same_shape tasks (fst (foldl (recompute_one now) (tasks, []) ks)) \<and>
    (\<forall>j \<in> set ks. settled (fst (foldl (recompute_one now) (tasks, []) ks)) j)"
  using assms(3)
proof (induction ks arbitrary: ls rule: rev_induct)
  case (snoc i ks)
  define acc where "acc = foldl (recompute_one now) (tasks, []) ks"
  have IH: "same_shape tasks (fst acc)" "\<forall>j \<in> set ks. settled (fst acc) j"
    using snoc.IH [of "i # ls"] snoc.prems by (simp_all add: acc_def)
  have keys: "map fst (fst acc) = ks @ i # ls"
    using same_shape_keys [OF IH(1)] snoc.prems by simp
  have acc_ok: "deps_first (fst acc)" "distinct (map fst (fst acc))"
    using assms(1,2) IH(1) deps_first_shape same_shape_keys by metis+
  note effect = recompute_one_effect [of acc now i]
  have "settled (fst (recompute_one now acc i)) i"
    using deps_of_key [OF acc_ok keys] by (intro recompute_one_settles) auto
  moreover have "settled (fst (recompute_one now acc i)) j" if j: "j \<in> set ks" for j
  proof (rule settled_other)
    obtain k1 k2 where ks: "ks = k1 @ j # k2"
      using j by (meson split_list)
    have "j \<noteq> i"
      using acc_ok(2) keys j by auto
    then show "map_of (fst (recompute_one now acc i)) j = map_of (fst acc) j"
      using effect by blast
    show "settled (fst acc) j"
      using IH(2) j by blast
    fix t d
    assume t: "map_of (fst acc) j = Some t" and d: "d \<in> set (tk_deps t)"
    have "set (tk_deps t) \<inter> set (j # k2 @ i # ls) = {}"
      using deps_of_key [OF acc_ok, of k1 j "k2 @ i # ls" t] keys ks t by simp
    with d have "d \<noteq> i"
      by auto
    then show "map_of (fst (recompute_one now acc i)) d = map_of (fst acc) d"
      using effect by blast
  qed
  ultimately show ?case
    using effect IH(1) same_shape_trans by (auto simp: acc_def [symmetric])
qed simp

lemma recompute_consistent:
  assumes "deps_first tasks" "distinct (map fst tasks)"
  shows "consistent (fst (recompute_blocked now tasks)) \<and> same_shape tasks (fst (recompute_blocked now tasks))"
proof -
  have r: "same_shape tasks (fst (recompute_blocked now tasks))"
    "\<forall>j \<in> set (map fst tasks). settled (fst (recompute_blocked now tasks)) j"
    using recompute_keys [OF assms, of "map fst tasks" "[]" now] by (simp_all add: recompute_blocked_def)
  moreover have "settled (fst (recompute_blocked now tasks)) j" if "j \<notin> set (map fst tasks)" for j
  proof -
    have "map_of (fst (recompute_blocked now tasks)) j = None"
      using that same_shape_keys [OF r(1)] by (simp add: map_of_eq_None_iff)
    then show ?thesis
      by (simp add: settled_def)
  qed
  ultimately show ?thesis
    unfolding consistent_def by blast
qed

subsection \<open>Fresh identifiers\<close>

lemma nat_to_string_rec:
  "nat_to_string n = (if n < 10 then [char_of (48 + n)] else nat_to_string (n div 10) @ [char_of (48 + n mod 10)])"
  by (simp add: nat_to_string.simps [of n])

definition digit_value :: "char \<Rightarrow> nat" where
  "digit_value c = of_char c - 48"

lemma digit_value_char: "d < 10 \<Longrightarrow> digit_value (char_of (48 + d)) = d"
  by (simp add: digit_value_def of_char_of)

lemma nat_to_string_value: "foldl (\<lambda>a c. a * 10 + digit_value c) 0 (nat_to_string n) = n"
proof (induction n rule: nat_to_string.induct)
  case (1 n)
  show ?case
  proof (cases "n < 10")
    case True
    then show ?thesis
      by (subst nat_to_string_rec) (simp add: digit_value_char)
  next
    case False
    then have "foldl (\<lambda>a c. a * 10 + digit_value c) 0 (nat_to_string n) =
        (n div 10) * 10 + digit_value (char_of (48 + n mod 10))"
      using 1 by (subst nat_to_string_rec) simp
    then show ?thesis
      by (simp add: digit_value_char)
  qed
qed

lemma nat_to_string_digits: "c \<in> set (nat_to_string n) \<Longrightarrow> c \<noteq> CHR ''_''"
proof (induction n rule: nat_to_string.induct)
  case (1 n)
  have digit: "d < 10 \<Longrightarrow> (char_of (48 + d :: nat) :: char) \<noteq> CHR ''_''" for d
  proof
    assume "d < 10" "(char_of (48 + d :: nat) :: char) = CHR ''_''"
    then have "(of_char (char_of (48 + d :: nat) :: char) :: nat) = of_char (CHR ''_'')"
      by simp
    then show False
      using \<open>d < 10\<close> by (simp add: of_char_of)
  qed
  show ?case
  proof (cases "n < 10")
    case True
    then have "set (nat_to_string n) = {char_of (48 + n)}"
      by (subst nat_to_string_rec) simp
    then show ?thesis
      using 1(2) digit True by auto
  next
    case False
    then have "set (nat_to_string n) = insert (char_of (48 + n mod 10)) (set (nat_to_string (n div 10)))"
      by (subst nat_to_string_rec) simp
    then show ?thesis
      using 1 False digit [of "n mod 10"] by auto
  qed
qed

text \<open>The number an identifier of the registry carries, and the strings no later identifier equals.\<close>

definition key_number :: "string \<Rightarrow> nat" where
  "key_number i = foldl (\<lambda>a c. a * 10 + digit_value c) 0 (takeWhile (\<lambda>c. c \<noteq> CHR ''_'') (drop 5 i))"

definition names_past :: "nat \<Rightarrow> string \<Rightarrow> bool" where
  "names_past n i \<longleftrightarrow> (prefix ''task_'' i \<longrightarrow> key_number i \<le> n)"

lemma key_number_key: "key_number (task_key n now) = n"
proof -
  have "takeWhile (\<lambda>c. c \<noteq> CHR ''_'') (nat_to_string n @ CHR ''_'' # rest) = nat_to_string n" for rest
    using nat_to_string_digits [of _ n] by (subst takeWhile_append2) auto
  then show ?thesis
    by (simp add: key_number_def task_key_def nat_to_string_value)
qed

subsection \<open>Sessions of the registry\<close>

text \<open>
  The operations of a session; \<open>Reg_Update\<close> is the call of \<open>UpdateTaskTool\<close>, and a restart saves
  the registry and loads it into a fresh one.
\<close>

datatype registry_op =
    Reg_Goal bool
  | Reg_Create nat string "string option" "string option" "string list option"
  | Reg_Update nat string "task_status option" "string option" "string option"
  | Reg_Delete nat string
  | Reg_Restart

fun registry_step :: "registry \<Rightarrow> registry_op \<Rightarrow> registry" where
  "registry_step rg (Reg_Goal a) = set_goal_active a rg"
| "registry_step rg (Reg_Create now title description assignee deps) =
     fst (snd (create_task now title description assignee deps rg))"
| "registry_step rg (Reg_Update now i status assignee result) =
     fst (snd (update_task now i (tool_updates status assignee result) rg))"
| "registry_step rg (Reg_Delete now i) = snd (delete_task now i rg)"
| "registry_step rg Reg_Restart = load_registry (save_registry rg) registry_init"

text \<open>No dependency is an identifier the registry has yet to give out.\<close>

fun deps_of_past :: "registry \<Rightarrow> registry_op \<Rightarrow> bool" where
  "deps_of_past rg (Reg_Create now title description assignee deps) = list_all (names_past (rg_counter rg)) (opt_or deps [])"
| "deps_of_past rg op = True"

text \<open>The operations after which the registry has gone over its blocked tasks.\<close>

fun recomputes :: "registry \<Rightarrow> registry_op \<Rightarrow> bool" where
  "recomputes rg (Reg_Create now title description assignee deps) = True"
| "recomputes rg (Reg_Update now i status assignee result) = (status \<noteq> None \<and> get_task i rg \<noteq> None)"
| "recomputes rg (Reg_Delete now i) = (get_task i rg \<noteq> None)"
| "recomputes rg op = False"

definition shape_ok :: "nat \<Rightarrow> string \<times> task \<Rightarrow> bool" where
  "shape_ok n p \<longleftrightarrow>
     fst p = tk_id (snd p) \<and> names_past n (fst p) \<and> (\<forall>d \<in> set (tk_deps (snd p)). names_past n d)"

definition registry_inv :: "registry \<Rightarrow> bool" where
  "registry_inv rg \<longleftrightarrow>
     distinct (map fst (rg_tasks rg)) \<and> deps_first (rg_tasks rg) \<and>
     (\<forall>p \<in> set (rg_tasks rg). shape_ok (rg_counter rg) p)"

lemma names_past_mono: "names_past n i \<Longrightarrow> n \<le> m \<Longrightarrow> names_past m i"
  unfolding names_past_def by auto

lemma names_past_fresh: "\<not> names_past n (task_key (Suc n) now)" "names_past n (task_key n now)"
  by (simp_all add: names_past_def key_number_key task_key_def [of _ now, THEN arg_cong [of _ _ "prefix ''task_''"]])

lemma shape_ok_list:
  assumes "same_shape tasks tasks'"
  shows "(\<forall>p \<in> set tasks. shape_ok n p) \<longleftrightarrow> (\<forall>p \<in> set tasks'. shape_ok n p)"
proof -
  define ok where "ok = (\<lambda>(i, ds, k). i = k \<and> names_past n i \<and> (\<forall>d \<in> set ds. names_past n d))"
  have all: "(\<forall>p \<in> set ts. shape_ok n p) \<longleftrightarrow> list_all ok (map shape ts)" for ts
    by (induction ts) (simp_all add: shape_def shape_ok_def ok_def)
  show ?thesis
    unfolding all using assms by (simp only: same_shape_def)
qed

lemma recompute_inv:
  assumes "distinct (map fst tasks)" "deps_first tasks" "\<forall>p \<in> set tasks. shape_ok n p"
  shows "registry_inv \<lparr>rg_tasks = fst (recompute_blocked now tasks), rg_counter = n, rg_has_goal = b\<rparr>"
    and "consistent (fst (recompute_blocked now tasks))"
proof -
  have c: "consistent (fst (recompute_blocked now tasks))" "same_shape tasks (fst (recompute_blocked now tasks))"
    using recompute_consistent [OF assms(2,1)] by blast+
  show "registry_inv \<lparr>rg_tasks = fst (recompute_blocked now tasks), rg_counter = n, rg_has_goal = b\<rparr>"
    unfolding registry_inv_def
    using c assms same_shape_keys [OF c(2)] deps_first_shape [OF c(2)] shape_ok_list [OF c(2)] by simp
  show "consistent (fst (recompute_blocked now tasks))"
    by (rule c)
qed

lemma deps_first_append:
  assumes "deps_first tasks" "i \<notin> set (tk_deps t)" "\<forall>p \<in> set tasks. i \<notin> set (tk_deps (snd p))"
  shows "deps_first (tasks @ [(i, t)])"
  using assms
proof (induction tasks)
  case Nil
  then show ?case
    by (simp add: deps_first_def shape_def)
next
  case (Cons p tasks)
  then show ?case
    by (cases p) (simp add: deps_first_Cons)
qed

lemma update_fresh: "i \<notin> set (map fst al) \<Longrightarrow> AList.update i t al = al @ [(i, t)]"
  by (induction al) auto

lemma create_task_inv:
  assumes inv: "registry_inv rg" and past: "list_all (names_past (rg_counter rg)) (opt_or deps [])"
  shows "registry_inv (fst (snd (create_task now title description assignee deps rg)))"
    and "consistent (rg_tasks (fst (snd (create_task now title description assignee deps rg))))"
proof -
  let ?n = "rg_counter rg"
  let ?i = "task_key (Suc ?n) now"
  let ?rg = "fst (snd (create_task now title description assignee deps rg))"
  define t where "t = \<lparr>tk_id = ?i, tk_title = title, tk_description = description, tk_assignee = assignee,
    tk_status = Some (if deps_blocked (rg_tasks rg) (opt_or deps []) then Task_Blocked else Task_Pending),
    tk_deps = opt_or deps [], tk_created = now, tk_updated = now, tk_result = None\<rparr>"
  have ok: "distinct (map fst (rg_tasks rg))" "deps_first (rg_tasks rg)" "\<forall>p \<in> set (rg_tasks rg). shape_ok ?n p"
    using inv by (simp_all add: registry_inv_def)
  have deps: "\<forall>d \<in> set (tk_deps t). names_past ?n d"
    using past by (simp add: t_def list_all_iff)
  have new: "?i \<notin> set (map fst (rg_tasks rg))"
    using ok(3) names_past_fresh(1) [of ?n now] by (auto simp: shape_ok_def)
  have new_deps: "?i \<notin> set (tk_deps t)" "\<forall>p \<in> set (rg_tasks rg). ?i \<notin> set (tk_deps (snd p))"
    using deps names_past_fresh(1) [of ?n now] ok(3) by (auto simp: shape_ok_def)
  have upd: "AList.update ?i t (rg_tasks rg) = rg_tasks rg @ [(?i, t)]"
    using new by (rule update_fresh)
  have "shape_ok (Suc ?n) (?i, t)"
    using deps names_past_mono [of ?n _ "Suc ?n"] names_past_fresh(2) by (auto simp: shape_ok_def t_def)
  moreover have "shape_ok (Suc ?n) p" if "p \<in> set (rg_tasks rg)" for p
    using ok(3) that names_past_mono [of ?n _ "Suc ?n"] by (auto simp: shape_ok_def)
  ultimately have keep: "distinct (map fst (AList.update ?i t (rg_tasks rg)))" "deps_first (AList.update ?i t (rg_tasks rg))"
      "\<forall>p \<in> set (AList.update ?i t (rg_tasks rg)). shape_ok (Suc ?n) p"
    unfolding upd using ok new new_deps by (auto intro: deps_first_append)
  have after: "rg_tasks ?rg = fst (recompute_blocked now (AList.update ?i t (rg_tasks rg)))" "rg_counter ?rg = Suc ?n"
    by (simp_all add: create_task_def Let_def split_beta t_def)
  show "registry_inv ?rg"
    using recompute_inv(1) [OF keep, of now] by (simp add: after registry_inv_def)
  show "consistent (rg_tasks ?rg)"
    using recompute_inv(2) [OF keep, of now] by (simp add: after)
qed

lemma apply_updates_shape: "tk_deps (apply_updates now u t) = tk_deps t" "tk_id (apply_updates now u t) = tk_id t"
  by (simp_all add: apply_updates_def)

lemma update_task_inv:
  assumes inv: "registry_inv rg"
  shows "registry_inv (fst (snd (update_task now i u rg)))"
    and "given_status u \<noteq> None \<Longrightarrow> get_task i rg \<noteq> None \<Longrightarrow>
      consistent (rg_tasks (fst (snd (update_task now i u rg))))"
proof -
  have both: "registry_inv (fst (snd (update_task now i u rg))) \<and>
      (given_status u \<noteq> None \<longrightarrow> consistent (rg_tasks (fst (snd (update_task now i u rg)))))"
    if "map_of (rg_tasks rg) i = Some t" for t
  proof -
    let ?tasks = "AList.update i (apply_updates now u t) (rg_tasks rg)"
    have sh: "same_shape (rg_tasks rg) ?tasks"
      by (rule same_shape_update [OF that]) (simp_all add: apply_updates_shape)
    have ok: "distinct (map fst ?tasks)" "deps_first ?tasks" "\<forall>p \<in> set ?tasks. shape_ok (rg_counter rg) p"
      using inv same_shape_keys [OF sh] deps_first_shape [OF sh] shape_ok_list [OF sh]
      by (simp_all add: registry_inv_def)
    show ?thesis
      using recompute_inv [OF ok, of now] ok that
      by (simp add: update_task_def registry_inv_def Let_def split_beta split: option.split)
  qed
  then show "registry_inv (fst (snd (update_task now i u rg)))"
    using inv by (cases "map_of (rg_tasks rg) i") (simp_all add: update_task_def)
  show "given_status u \<noteq> None \<Longrightarrow> get_task i rg \<noteq> None \<Longrightarrow>
      consistent (rg_tasks (fst (snd (update_task now i u rg))))"
    using both by (auto simp: get_task_def)
qed

lemma deps_first_delete: "deps_first tasks \<Longrightarrow> deps_first (AList.delete i tasks)"
proof (induction tasks)
  case Nil
  then show ?case
    by simp
next
  case (Cons p tasks)
  have "set (map fst (AList.delete i tasks)) \<subseteq> set (map fst tasks)"
    by (auto simp: AList.delete_eq)
  with Cons show ?case
    by (cases p) (auto simp: deps_first_Cons)
qed

lemma delete_task_inv:
  assumes inv: "registry_inv rg"
  shows "registry_inv (snd (delete_task now i rg))"
    and "get_task i rg \<noteq> None \<Longrightarrow> consistent (rg_tasks (snd (delete_task now i rg)))"
proof -
  have ok: "distinct (map fst (AList.delete i (rg_tasks rg)))" "deps_first (AList.delete i (rg_tasks rg))"
      "\<forall>p \<in> set (AList.delete i (rg_tasks rg)). shape_ok (rg_counter rg) p"
    using inv deps_first_delete [of "rg_tasks rg" i] distinct_delete [of "rg_tasks rg" i]
    by (auto simp: registry_inv_def AList.delete_eq)
  show "registry_inv (snd (delete_task now i rg))"
    using recompute_inv(1) [OF ok, of now] inv by (simp add: delete_task_def registry_inv_def)
  show "get_task i rg \<noteq> None \<Longrightarrow> consistent (rg_tasks (snd (delete_task now i rg)))"
    using recompute_inv(2) [OF ok, of now] by (auto simp: delete_task_def get_task_def)
qed

lemma load_fresh:
  assumes "distinct (map fst al @ map tk_id ts)"
  shows "foldl (\<lambda>al t. AList.update (tk_id t) t al) al ts = al @ map (\<lambda>t. (tk_id t, t)) ts"
  using assms
proof (induction ts arbitrary: al)
  case (Cons t ts)
  then have "AList.update (tk_id t) t al = al @ [(tk_id t, t)]"
    by (intro update_fresh) auto
  with Cons show ?case
    by simp
qed simp

lemma load_save:
  assumes "registry_inv rg"
  shows "load_registry (save_registry rg) registry_init = rg\<lparr>rg_has_goal := False\<rparr>"
proof -
  have ids: "\<forall>p \<in> set (rg_tasks rg). fst p = tk_id (snd p)" and dist: "distinct (map fst (rg_tasks rg))"
    using assms by (auto simp: registry_inv_def shape_ok_def)
  have keys: "map tk_id (map snd (rg_tasks rg)) = map fst (rg_tasks rg)"
    using ids by simp
  have fresh: "distinct (map fst ([] :: (string \<times> task) list) @ map tk_id (map snd (rg_tasks rg)))"
    unfolding keys using dist by simp
  have "foldl (\<lambda>al t. AList.update (tk_id t) t al) [] (map snd (rg_tasks rg)) =
      map (\<lambda>t. (tk_id t, t)) (map snd (rg_tasks rg))"
    using load_fresh [OF fresh] by simp
  also have "\<dots> = rg_tasks rg"
    using ids by (simp add: comp_def) (metis (no_types, lifting) map_idI prod.collapse)
  finally show ?thesis
    by (simp add: load_registry_def save_registry_def registry_init_def)
qed

lemma registry_step_inv:
  assumes "registry_inv rg" "deps_of_past rg op"
  shows "registry_inv (registry_step rg op)"
proof (cases op)
  case Reg_Restart
  have "registry_inv (rg\<lparr>rg_has_goal := False\<rparr>)"
    using assms(1) by (simp add: registry_inv_def)
  then show ?thesis
    by (simp add: Reg_Restart load_save [OF assms(1)])
next
  case (Reg_Goal a)
  then show ?thesis
    using assms(1) by (simp add: registry_inv_def set_goal_active_def)
qed (use assms in \<open>simp_all add: create_task_inv(1) update_task_inv(1) delete_task_inv(1)\<close>)

interpretation registry_session: guarded_machine registry_step deps_of_past registry_inv
  by unfold_locales (rule registry_step_inv)

lemma registry_init_inv: "registry_inv registry_init"
  by (simp add: registry_inv_def registry_init_def deps_first_def)

lemma session_inv:
  "allowed_run registry_step deps_of_past registry_init ops \<Longrightarrow> registry_inv (foldl registry_step registry_init ops)"
  using registry_session.allowed_run_inv [OF registry_init_inv] .

lemma recomputes_consistent:
  assumes "registry_inv rg" "deps_of_past rg op" "recomputes rg op"
  shows "consistent (rg_tasks (registry_step rg op))"
  using assms by (cases op) (simp_all add: create_task_inv(2) update_task_inv(2) delete_task_inv(2)
    given_status_def tool_updates_def)

subsection \<open>What the registry promises\<close>

lemma consistent_iff:
  assumes "consistent (rg_tasks rg)" and "get_task i rg = Some t"
  shows "tk_status t = Some Task_Blocked \<longleftrightarrow>
    (\<exists>d \<in> set (tk_deps t). \<forall>dep. get_task d rg = Some dep \<longrightarrow> tk_status dep \<noteq> Some Task_Completed)"
  using assms by (simp add: consistent_def settled_def get_task_def deps_blocked_iff)

text \<open>
  C30: blocked means blocked, whenever the registry has just gone over its tasks. Take any session
  of creations, updates through the tool, deletions and restarts in which no task is given a
  dependency whose identifier the registry has yet to give out; a dependency may be missing
  altogether. After an operation that recomputes (a creation, the deletion of a task that is
  there, an update that gives a status) every task has the status \<open>blocked\<close> exactly when one of
  its dependencies is missing or not completed: one pass in insertion order settles every
  dependent. An update that gives no status does not recompute, and unblocks the task it is for
  (\<open>update_without_status_unblocks\<close>).
\<close>

theorem blocked_iff_dependency_open:
  assumes "allowed_run registry_step deps_of_past registry_init (ops @ [op])"
    and "recomputes (foldl registry_step registry_init ops) op"
    and "rg = foldl registry_step registry_init (ops @ [op])" and "get_task i rg = Some t"
  shows "tk_status t = Some Task_Blocked \<longleftrightarrow>
    (\<exists>d \<in> set (tk_deps t). \<forall>dep. get_task d rg = Some dep \<longrightarrow> tk_status dep \<noteq> Some Task_Completed)"
proof (rule consistent_iff)
  have "registry_inv (foldl registry_step registry_init ops)" "deps_of_past (foldl registry_step registry_init ops) op"
    using assms(1) session_inv by (simp_all add: allowed_run_append)
  then show "consistent (rg_tasks rg)"
    using assms(2,3) recomputes_consistent by simp
qed (rule assms(4))

definition first_id :: string where
  "first_id = task_key 1 5"

definition second_id :: string where
  "second_id = task_key 2 6"

definition sample_ops :: "registry_op list" where
  "sample_ops = [Reg_Create 5 ''build'' None None None, Reg_Create 6 ''deploy'' None None (Some [first_id])]"

definition sample_registry :: registry where
  "sample_registry = foldl registry_step registry_init sample_ops"

definition finished_registry :: registry where
  "finished_registry =
     foldl registry_step sample_registry
       [Reg_Update 7 first_id (Some Task_Completed) None None, Reg_Update 8 second_id (Some Task_Completed) None None]"

lemma sample_allowed: "allowed_run registry_step deps_of_past registry_init sample_ops"
  by code_simp

lemma sample_inv: "registry_inv sample_registry" "registry_inv finished_registry"
proof -
  show sample: "registry_inv sample_registry"
    unfolding sample_registry_def using sample_allowed by (rule session_inv)
  show "registry_inv finished_registry"
    unfolding finished_registry_def by (rule registry_session.allowed_run_inv [OF sample]) simp
qed

lemma blocked_iff_dependency_open_witness:
  "\<exists>t. get_task second_id sample_registry = Some t \<and> tk_status t = Some Task_Blocked"
proof -
  let ?ops = "[Reg_Create 5 ''build'' None None None]"
  let ?op = "Reg_Create 6 ''deploy'' None None (Some [first_id])"
  have run: "allowed_run registry_step deps_of_past registry_init (?ops @ [?op])"
      "sample_registry = foldl registry_step registry_init (?ops @ [?op])"
    using sample_allowed by (simp_all add: sample_ops_def sample_registry_def del: registry_step.simps deps_of_past.simps)
  have deps: "map_option tk_deps (get_task second_id sample_registry) = Some [first_id]"
    by code_simp
  have open': "map_option tk_status (get_task first_id sample_registry) = Some (Some Task_Pending)"
    by code_simp
  obtain t where t: "get_task second_id sample_registry = Some t" "tk_deps t = [first_id]"
    using deps by auto
  have "recomputes (foldl registry_step registry_init ?ops) ?op"
    by simp
  from blocked_iff_dependency_open [OF run(1) this run(2) t(1)] show ?thesis
    using t open' by auto
qed

text \<open>
  Assigning a blocked task unblocks it. \<open>UpdateTaskTool\<close> hands over \<open>status\<close>, \<open>assignee\<close> and
  \<open>result\<close> whether or not they were given, and a key with the value \<open>undefined\<close> overwrites the
  field: a task assigned without a status has no status afterwards, loses its result, is listed
  under no status and is left out of the counts.
\<close>

theorem update_without_status_unblocks:
  assumes "get_task i rg = Some t"
  shows "case update_task now i (tool_updates None (Some who) None) rg of
    (u, rg', evs) \<Rightarrow>
      get_task i rg' = Some (t\<lparr>tk_assignee := Some who, tk_status := None, tk_result := None, tk_updated := now\<rparr>) \<and>
      u = get_task i rg' \<and> evs = []"
  using assms by (simp add: update_task_def get_task_def tool_updates_def given_status_def apply_updates_def js_map_simps Let_def)

lemma update_without_status_unblocks_witness:
  "\<exists>t. get_task second_id sample_registry = Some t \<and> tk_status t = Some Task_Blocked \<and>
    map_option tk_status (get_task second_id
      (fst (snd (update_task 9 second_id (tool_updates None (Some ''coder'') None) sample_registry)))) = Some None"
proof -
  have "map_option tk_status (get_task second_id sample_registry) = Some (Some Task_Blocked)"
    by code_simp
  then obtain t where t: "get_task second_id sample_registry = Some t" "tk_status t = Some Task_Blocked"
    by auto
  from update_without_status_unblocks [OF t(1), of 9 "''coder''"] show ?thesis
    using t by (auto split: prod.splits)
qed

definition completed_in :: "(string \<times> task) list \<Rightarrow> string \<Rightarrow> bool" where
  "completed_in tasks j \<longleftrightarrow> (\<exists>u. map_of tasks j = Some u \<and> tk_status u = Some Task_Completed)"

lemma recompute_one_completed: "completed_in (fst (recompute_one now acc i)) j \<Longrightarrow> completed_in (fst acc) j"
  by (cases acc) (auto simp: recompute_one_def Let_def js_map_simps completed_in_def split: option.splits if_splits)

lemma recompute_completed: "completed_in (fst (recompute_blocked now tasks)) j \<Longrightarrow> completed_in tasks j"
proof -
  have "completed_in (fst (foldl (recompute_one now) acc ks)) j \<Longrightarrow> completed_in (fst acc) j" for acc ks
  proof (induction ks arbitrary: acc)
    case (Cons k ks)
    from Cons.IH [of "recompute_one now acc k"] Cons.prems have "completed_in (fst (recompute_one now acc k)) j"
      by simp
    then show ?case
      by (rule recompute_one_completed)
  qed simp
  from this [of "(tasks, [])"] show "completed_in (fst (recompute_blocked now tasks)) j \<Longrightarrow> completed_in tasks j"
    by (simp add: recompute_blocked_def)
qed

lemma completed_while_blocked:
  assumes inv: "registry_inv rg" and t: "get_task i rg = Some t" and d: "d \<in> set (tk_deps t)"
    and present: "get_task d rg = Some dep" "d \<noteq> i" and still_open: "tk_status dep \<noteq> Some Task_Completed"
  shows "case update_task now i (tool_updates (Some Task_Completed) None result) rg of
    (u, rg', evs) \<Rightarrow> map_option tk_status u = Some (Some Task_Completed) \<and> EvTaskFinished i Task_Completed \<in> set evs \<and>
      map_option tk_status (get_task i rg') = Some (Some Task_Blocked)"
proof -
  let ?u = "tool_updates (Some Task_Completed) None result"
  let ?t = "apply_updates now ?u t"
  let ?tasks = "AList.update i ?t (rg_tasks rg)"
  let ?rg = "rg\<lparr>rg_tasks := fst (recompute_blocked now ?tasks)\<rparr>"
  have run: "update_task now i ?u rg = (Some ?t, ?rg, [EvTaskFinished i Task_Completed] @
      unblock_events (fst (recompute_blocked now ?tasks)) (snd (recompute_blocked now ?tasks)))"
    using t by (simp add: update_task_def get_task_def tool_updates_def given_status_def split_beta Let_def)
  have given: "given_status ?u \<noteq> None"
    by (simp add: tool_updates_def given_status_def)
  have status: "tk_status ?t = Some Task_Completed"
    by (simp add: apply_updates_def tool_updates_def given_status_def)
  have sh0: "same_shape (rg_tasks rg) ?tasks"
    using t by (intro same_shape_update [of _ _ t]) (simp_all add: get_task_def apply_updates_shape)
  have settled: "consistent (rg_tasks ?rg)"
    using update_task_inv(2) [OF inv given, of i now] t by (simp add: run)
  have "same_shape ?tasks (fst (recompute_blocked now ?tasks))"
    using inv same_shape_keys [OF sh0] deps_first_shape [OF sh0]
    by (intro recompute_consistent [THEN conjunct2]) (simp_all add: registry_inv_def)
  then have "map_option tk_deps (get_task i ?rg) = Some (tk_deps t)"
    using same_shape_lookup [of ?tasks _ i] by (simp add: get_task_def js_map_simps apply_updates_shape)
  then obtain t' where t': "get_task i ?rg = Some t'" "tk_deps t' = tk_deps t"
    by auto
  have "\<not> completed_in ?tasks d"
    using present still_open by (simp add: completed_in_def get_task_def js_map_simps)
  then have "\<not> completed_in (rg_tasks ?rg) d"
    using recompute_completed by auto
  then have "tk_status t' = Some Task_Blocked"
    using consistent_iff [OF settled t'(1)] d t'(2) by (auto simp: completed_in_def get_task_def)
  then show ?thesis
    using t' status by (simp add: run)
qed

text \<open>
  Finished work is lost. Recomputing the blocked tasks overwrites any status: deleting a
  dependency makes every task that depends on it blocked, the completed and running ones
  too; and completing a task whose dependency is open returns and announces a completed task
  that the registry keeps as blocked.
\<close>

theorem finished_status_lost:
  assumes inv: "registry_inv rg" and t: "get_task i rg = Some t" and d: "d \<in> set (tk_deps t)"
    and present: "get_task d rg = Some dep" "d \<noteq> i"
  shows "(\<exists>t'. get_task i (snd (delete_task now d rg)) = Some t' \<and> tk_status t' = Some Task_Blocked) \<and>
    (tk_status dep \<noteq> Some Task_Completed \<longrightarrow>
      (case update_task now i (tool_updates (Some Task_Completed) None result) rg of
         (u, rg', evs) \<Rightarrow> map_option tk_status u = Some (Some Task_Completed) \<and> EvTaskFinished i Task_Completed \<in> set evs \<and>
           map_option tk_status (get_task i rg') = Some (Some Task_Blocked)))"
proof
  have settled: "consistent (rg_tasks (snd (delete_task now d rg)))"
    using delete_task_inv(2) [OF inv, of d now] present(1) by simp
  let ?tasks = "AList.delete d (rg_tasks rg)"
  have sh: "same_shape ?tasks (fst (recompute_blocked now ?tasks))"
    using inv by (intro recompute_consistent [THEN conjunct2] deps_first_delete)
      (simp_all add: registry_inv_def distinct_delete)
  have lookup: "map_option tk_deps (map_of (fst (recompute_blocked now ?tasks)) j) = map_option tk_deps (map_of ?tasks j)" for j
    using same_shape_lookup [OF sh] by simp
  have after: "rg_tasks (snd (delete_task now d rg)) = fst (recompute_blocked now ?tasks)"
    using present(1) by (simp add: delete_task_def get_task_def)
  have "map_option tk_deps (get_task i (snd (delete_task now d rg))) = Some (tk_deps t)"
    using t present(2) by (simp add: get_task_def after lookup js_map_simps)
  then obtain t' where t': "get_task i (snd (delete_task now d rg)) = Some t'" "tk_deps t' = tk_deps t"
    by auto
  have "map_option tk_deps (get_task d (snd (delete_task now d rg))) = None"
    by (simp add: get_task_def after lookup js_map_simps)
  then have "get_task d (snd (delete_task now d rg)) = None"
    by simp
  then have "tk_status t' = Some Task_Blocked"
    using consistent_iff [OF settled t'(1)] d t'(2) by fastforce
  then show "\<exists>t'. get_task i (snd (delete_task now d rg)) = Some t' \<and> tk_status t' = Some Task_Blocked"
    using t' by blast
qed (rule impI, rule completed_while_blocked [OF inv t d present])

lemma finished_status_lost_witness:
  "(\<exists>t. get_task second_id finished_registry = Some t \<and> tk_status t = Some Task_Completed) \<and>
   (\<exists>t'. get_task second_id (snd (delete_task 9 first_id finished_registry)) = Some t' \<and> tk_status t' = Some Task_Blocked)"
proof -
  have finished: "map_option (\<lambda>t. (tk_deps t, tk_status t)) (get_task second_id finished_registry) =
      Some ([first_id], Some Task_Completed)"
    by code_simp
  have first: "get_task first_id finished_registry \<noteq> None" "first_id \<noteq> second_id"
    by code_simp+
  obtain t where t: "get_task second_id finished_registry = Some t" "tk_deps t = [first_id]" "tk_status t = Some Task_Completed"
    using finished by auto
  obtain dep where dep: "get_task first_id finished_registry = Some dep"
    using first(1) by auto
  have "first_id \<in> set (tk_deps t)"
    using t(2) by simp
  from finished_status_lost [OF sample_inv(2) t(1) this dep first(2), of 9]
  show ?thesis
    using t by blast
qed

text \<open>
  Saving and loading. Loading what the registry of a session saved into a fresh registry gives
  back the same tasks in the same order and the same counter; only the flag of the active
  goal is reset.
\<close>

theorem registry_save_load:
  assumes "allowed_run registry_step deps_of_past registry_init ops" and "rg = foldl registry_step registry_init ops"
  shows "load_registry (save_registry rg) registry_init = rg\<lparr>rg_has_goal := False\<rparr>"
  using session_inv [OF assms(1)] unfolding assms(2) by (rule load_save)

lemma registry_save_load_witness:
  "load_registry (save_registry sample_registry) registry_init = sample_registry\<lparr>rg_has_goal := False\<rparr>"
  by (rule registry_save_load [OF sample_allowed sample_registry_def])

text \<open>
  The listing is complete and ordered. \<open>list\<close> returns exactly the tasks of the registry that
  have the wanted status and assignee, as often as they occur, ordered by creation time, and
  the counts of the snapshot with the tasks that have no status add up to its total.
\<close>

theorem list_and_snapshot:
  "(\<forall>t. count_list (list_tasks st who rg) t =
      (if (case st of None \<Rightarrow> True | Some s \<Rightarrow> tk_status t = Some s) \<and> (case who of None \<Rightarrow> True | Some a \<Rightarrow> tk_assignee t = Some a)
       then count_list (map snd (rg_tasks rg)) t else 0)) \<and>
   sorted (map tk_created (list_tasks st who rg)) \<and>
   (case registry_snapshot rg of (all, n, by_status) \<Rightarrow>
      n = by_status Task_Pending + by_status Task_In_Progress + by_status Task_Completed +
        by_status Task_Failed + by_status Task_Blocked + length (filter (\<lambda>t. tk_status t = None) all))"
proof (intro conjI allI)
  have sorted_count: "count_list (sort_key tk_created xs) t = count_list xs t" for xs t
    by (metis count_mset mset_sort)
  have filtered: "count_list (filter p xs) t = (if p t then count_list xs t else 0)" for p xs t
    by (induction xs) auto
  show "count_list (list_tasks st who rg) t =
      (if (case st of None \<Rightarrow> True | Some s \<Rightarrow> tk_status t = Some s) \<and> (case who of None \<Rightarrow> True | Some a \<Rightarrow> tk_assignee t = Some a)
       then count_list (map snd (rg_tasks rg)) t else 0)" for t
    unfolding list_tasks_def Let_def sorted_count
    by (cases st; cases who) (simp_all add: filtered)
  show "sorted (map tk_created (list_tasks st who rg))"
    by (simp add: list_tasks_def Let_def)
  have "length ts = count_status Task_Pending ts + count_status Task_In_Progress ts + count_status Task_Completed ts +
      count_status Task_Failed ts + count_status Task_Blocked ts + length (filter (\<lambda>t. tk_status t = None) ts)" for ts
  proof (induction ts)
    case (Cons t ts)
    show ?case
    proof (cases "tk_status t")
      case (Some st)
      then show ?thesis
        using Cons by (cases st) (simp_all add: count_status_def)
    qed (use Cons in \<open>simp add: count_status_def\<close>)
  qed (simp add: count_status_def)
  from this [of "map snd (rg_tasks rg)"] show "case registry_snapshot rg of (all, n, by_status) \<Rightarrow>
      n = by_status Task_Pending + by_status Task_In_Progress + by_status Task_Completed +
        by_status Task_Failed + by_status Task_Blocked + length (filter (\<lambda>t. tk_status t = None) all)"
    by (simp only: registry_snapshot_def Let_def prod.case)
qed

end
