(* ===== verification/Subagent_Batch.thy ===== *)
theory Subagent_Batch
  imports Prelude
begin

text \<open>
  \<open>SubagentBatch\<close> (\<open>session/subagent-batch.ts\<close>): runs a list of subagent tasks with a launch
  ramp, a rate-limit phase with a shrinking and recovering capacity, and results in input
  order. What happens outside is an event: the launcher answers, an attempt reports ready or
  settles, a timer fires, an abort signal is raised. Each event carries the time of its
  handler in milliseconds.

  Task states are shared objects in the source; here they are a list, and the queue and the
  attempts refer to them by index. An attempt has its own number, as the object identity in
  the source, so a late callback of an old attempt finds nothing. The delay of the npm package
  \<open>retry\<close> is the argument \<open>delay\<close>; an infinite time is \<open>None\<close>. The usage of a completion is left
  opaque, and so is the data of a task (\<open>'d\<close>).
\<close>

subsection \<open>State\<close>

definition initial_launch_limit :: nat where
  "initial_launch_limit = 5"

definition initial_launch_interval :: int where
  "initial_launch_interval = 700"

definition rate_limit_retry_base :: int where
  "rate_limit_retry_base = 3000"

definition capacity_shrink_interval :: int where
  "capacity_shrink_interval = 2000"

definition capacity_recovery_interval :: int where
  "capacity_recovery_interval = 3 * 60 * 1000"

record 'd batch_task =
  bk_data :: 'd
  bk_resume :: "string option"
  bk_timeout :: "int option"
  bk_signal :: "nat option"

datatype sub_status = Sub_Completed | Sub_Failed | Sub_Aborted

datatype sub_state = Sub_Started | Sub_Not_Started

record 'd sub_result =
  sr_task :: "'d batch_task"
  sr_agent :: "string option"
  sr_status :: sub_status
  sr_state :: "sub_state option"
  sr_result :: "string option"
  sr_usage :: "string option"
  sr_error :: "string option"

record task_state =
  ts_agent :: "string option"
  ts_retry_agent :: "string option"
  ts_retry_count :: nat
  ts_ready_at :: int
  ts_started :: bool

text \<open>\<open>at_abort\<close> is the reason with which the attempt's controller was aborted: a user cancellation or not.\<close>

record attempt =
  at_id :: nat
  at_index :: nat
  at_ready :: bool
  at_timed_out :: bool
  at_abort :: "bool option"

datatype launch = Launch_Retry string | Launch_Resume string | Launch_Spawn

datatype 'd batch_end = Resolved "'d sub_result list" | Batch_Rejected

record 'd batch =
  bt_tasks :: "'d batch_task list"
  bt_max :: "nat option"
  bt_states :: "task_state list"
  bt_pending :: "nat list"
  bt_results :: "'d sub_result option list"
  bt_active :: "attempt list"
  bt_next_id :: nat
  bt_launches :: "(nat \<times> launch) list"
  bt_suspended :: "(nat \<times> string) list"
  bt_signals :: "(nat \<times> bool) list"
  bt_controller :: "bool option"
  bt_normal_count :: nat
  bt_normal_timer :: "int option"
  bt_rate_timer :: "int option"
  bt_started :: bool
  bt_finished :: bool
  bt_end :: "'d batch_end option"
  bt_rate_mode :: bool
  bt_success_count :: nat
  bt_capacity :: nat
  bt_last_limit :: "int option"
  bt_last_shrink :: "int option"
  bt_last_recovery :: "int option"
  bt_interval :: int
  bt_next_launch :: int

definition initial_task_state :: task_state where
  "initial_task_state =
     \<lparr>ts_agent = None, ts_retry_agent = None, ts_retry_count = 0, ts_ready_at = 0, ts_started = False\<rparr>"

definition batch_init :: "'d batch_task list \<Rightarrow> nat option \<Rightarrow> 'd batch" where
  "batch_init tasks cap =
     \<lparr>bt_tasks = tasks, bt_max = cap, bt_states = map (\<lambda>_. initial_task_state) tasks,
      bt_pending = [0..<length tasks], bt_results = map (\<lambda>_. None) tasks, bt_active = [], bt_next_id = 0,
      bt_launches = [], bt_suspended = [], bt_signals = [], bt_controller = None, bt_normal_count = 0,
      bt_normal_timer = None, bt_rate_timer = None, bt_started = False, bt_finished = False, bt_end = None,
      bt_rate_mode = False, bt_success_count = 0, bt_capacity = 1, bt_last_limit = None,
      bt_last_shrink = None, bt_last_recovery = None, bt_interval = rate_limit_retry_base, bt_next_launch = 0\<rparr>"

text \<open>The first signal of a task is the signal of the batch.\<close>

definition batch_signal :: "'d batch \<Rightarrow> nat option" where
  "batch_signal b = (case List.find (\<lambda>t. bk_signal t \<noteq> None) (bt_tasks b) of None \<Rightarrow> None | Some t \<Rightarrow> bk_signal t)"

subsection \<open>Ending\<close>

text \<open>\<open>cleanup\<close> clears both timers and the set of attempts.\<close>

definition batch_cleanup :: "'d batch \<Rightarrow> 'd batch" where
  "batch_cleanup b = b\<lparr>bt_normal_timer := None, bt_rate_timer := None, bt_active := []\<rparr>"

definition batch_finish :: "'d sub_result list \<Rightarrow> 'd batch \<Rightarrow> 'd batch" where
  "batch_finish rs b =
     (if bt_finished b then b else batch_cleanup (b\<lparr>bt_finished := True, bt_end := Some (Resolved rs)\<rparr>))"

definition batch_fail :: "'d batch \<Rightarrow> 'd batch" where
  "batch_fail b =
     (if bt_finished b then b else batch_cleanup (b\<lparr>bt_finished := True, bt_end := Some Batch_Rejected\<rparr>))"

definition all_done :: "'d batch \<Rightarrow> bool" where
  "all_done b = list_all (\<lambda>r. r \<noteq> None) (bt_results b)"

definition cancelled_text :: "bool \<Rightarrow> string" where
  "cancelled_text started =
     ''The user manually interrupted this subagent batch before this subagent '' @
     (if started then ''finished.'' else ''was started.'')"

definition cancelled_result :: "'d batch_task \<Rightarrow> task_state \<Rightarrow> 'd sub_result" where
  "cancelled_result t s =
     (if ts_started s \<or> ts_agent s \<noteq> None
      then \<lparr>sr_task = t, sr_agent = ts_agent s, sr_status = Sub_Aborted, sr_state = Some Sub_Started,
            sr_result = None, sr_usage = None, sr_error = Some (cancelled_text True)\<rparr>
      else \<lparr>sr_task = t, sr_agent = None, sr_status = Sub_Aborted, sr_state = Some Sub_Not_Started,
            sr_result = None, sr_usage = None, sr_error = Some (cancelled_text False)\<rparr>)"

definition cancellation_results :: "'d batch \<Rightarrow> 'd sub_result list" where
  "cancellation_results b =
     map (\<lambda>(t, s, r). case r of Some res \<Rightarrow> res | None \<Rightarrow> cancelled_result t s)
       (zip (bt_tasks b) (zip (bt_states b) (bt_results b)))"

definition finish_with_user_cancellation :: "'d batch \<Rightarrow> 'd batch" where
  "finish_with_user_cancellation b =
     (if bt_finished b then b else batch_finish (cancellation_results b) b)"

definition batch_abort :: "bool \<Rightarrow> 'd batch \<Rightarrow> 'd batch" where
  "batch_abort is_user b =
     (let b1 = b\<lparr>bt_controller := (case bt_controller b of None \<Rightarrow> Some is_user | Some r \<Rightarrow> Some r)\<rparr>
      in if is_user then finish_with_user_cancellation b1 else batch_fail b1)"

subsection \<open>Launching\<close>

definition launch_of :: "'d batch \<Rightarrow> nat \<Rightarrow> launch" where
  "launch_of b i =
     (case ts_retry_agent (bt_states b ! i) of
        Some a \<Rightarrow> Launch_Retry a
      | None \<Rightarrow> (case bk_resume (bt_tasks b ! i) of Some a \<Rightarrow> Launch_Resume a | None \<Rightarrow> Launch_Spawn))"

definition task_signal_reason :: "'d batch \<Rightarrow> nat \<Rightarrow> bool option" where
  "task_signal_reason b i =
     (case bk_signal (bt_tasks b ! i) of None \<Rightarrow> None | Some sig \<Rightarrow> map_of (bt_signals b) sig)"

text \<open>
  \<open>startAttempt\<close> up to the call of the launcher, which an attempt whose controller is already
  aborted does not make (\<open>throwIfAborted\<close>).
\<close>

definition start_attempt :: "nat \<Rightarrow> 'd batch \<Rightarrow> 'd batch" where
  "start_attempt i b =
     (if bt_finished b \<or> bt_controller b \<noteq> None then b
      else
        let a = \<lparr>at_id = bt_next_id b, at_index = i, at_ready = False, at_timed_out = False,
                 at_abort = task_signal_reason b i\<rparr>
        in b\<lparr>bt_active := bt_active b @ [a], bt_next_id := Suc (bt_next_id b),
             bt_launches := (if at_abort a = None then bt_launches b @ [(i, launch_of b i)] else bt_launches b)\<rparr>)"

definition at_concurrency_limit :: "'d batch \<Rightarrow> bool" where
  "at_concurrency_limit b = (case bt_max b of None \<Rightarrow> False | Some c \<Rightarrow> length (bt_active b) \<ge> c)"

text \<open>\<open>startAttempt(pending.shift())\<close>, then the count of normal launches.\<close>

definition launch_next :: "'d batch \<Rightarrow> 'd batch" where
  "launch_next b =
     (let b1 = start_attempt (hd (bt_pending b)) (b\<lparr>bt_pending := tl (bt_pending b)\<rparr>)
      in b1\<lparr>bt_normal_count := Suc (bt_normal_count b1)\<rparr>)"

definition may_ramp :: "'d batch \<Rightarrow> bool" where
  "may_ramp b =
     (bt_normal_count b < initial_launch_limit \<and> bt_pending b \<noteq> [] \<and> \<not> bt_rate_mode b \<and> \<not> at_concurrency_limit b)"

lemma pending_start_attempt [simp]: "bt_pending (start_attempt i b) = bt_pending b"
  by (simp add: start_attempt_def Let_def)

function normal_ramp :: "'d batch \<Rightarrow> 'd batch" where
  "normal_ramp b = (if may_ramp b then normal_ramp (launch_next b) else b)"
  by pat_completeness auto
termination
  by (relation "measure (\<lambda>b. length (bt_pending b))")
    (auto simp: may_ramp_def launch_next_def Let_def)

declare normal_ramp.simps [simp del]

definition schedule_normal :: "int \<Rightarrow> 'd batch \<Rightarrow> 'd batch" where
  "schedule_normal now b =
     (let b1 = normal_ramp b
      in if bt_pending b1 = [] \<or> bt_rate_mode b1 \<or> bt_normal_timer b1 \<noteq> None \<or> at_concurrency_limit b1 then b1
         else b1\<lparr>bt_normal_timer := Some (now + initial_launch_interval)\<rparr>)"

subsection \<open>The rate-limit phase\<close>

definition time_min :: "int option \<Rightarrow> int option \<Rightarrow> int option" where
  "time_min x y =
     (case (x, y) of (None, _) \<Rightarrow> y | (_, None) \<Rightarrow> x | (Some a, Some b) \<Rightarrow> Some (min a b))"

definition time_max :: "int \<Rightarrow> int option \<Rightarrow> int option" where
  "time_max a y = map_option (max a) y"

definition later_than :: "int option \<Rightarrow> int \<Rightarrow> bool" where
  "later_than x now = (case x of None \<Rightarrow> True | Some a \<Rightarrow> a > now)"

definition next_recovery_at :: "'d batch \<Rightarrow> int option" where
  "next_recovery_at b =
     (if bt_pending b = [] then None
      else case bt_last_limit b of
        None \<Rightarrow> None
      | Some t \<Rightarrow> Some (max t (opt_or (bt_last_recovery b) 0) + capacity_recovery_interval))"

definition next_pending_ready_at :: "'d batch \<Rightarrow> int option" where
  "next_pending_ready_at b =
     foldl (\<lambda>t i. time_min t (Some (ts_ready_at (bt_states b ! i)))) None (bt_pending b)"

definition recover_capacity :: "int \<Rightarrow> 'd batch \<Rightarrow> 'd batch" where
  "recover_capacity now b =
     (if later_than (next_recovery_at b) now then b
      else b\<lparr>bt_capacity := bt_capacity b + 1, bt_last_recovery := Some now,
             bt_next_launch := min (bt_next_launch b) now\<rparr>)"

text \<open>\<open>scheduleRateLimitWakeup\<close>: an infinite or past time arms no timer.\<close>

definition schedule_wakeup :: "int option \<Rightarrow> int \<Rightarrow> 'd batch \<Rightarrow> 'd batch" where
  "schedule_wakeup wake now b =
     (case wake of None \<Rightarrow> b | Some t \<Rightarrow> if t \<le> now then b else b\<lparr>bt_rate_timer := Some t\<rparr>)"

definition schedule_next_wakeup :: "int \<Rightarrow> 'd batch \<Rightarrow> 'd batch" where
  "schedule_next_wakeup now b =
     (if bt_pending b = [] then b
      else schedule_wakeup
        (if length (bt_active b) \<ge> bt_capacity b then next_recovery_at b
         else time_min (time_max (bt_next_launch b) (next_pending_ready_at b)) (next_recovery_at b)) now b)"

definition schedule_rate :: "int \<Rightarrow> 'd batch \<Rightarrow> 'd batch" where
  "schedule_rate now b0 =
     (let b1 = b0\<lparr>bt_rate_timer := None\<rparr> in
      if bt_pending b1 = [] then b1
      else
        let b = recover_capacity now b1 in
        if length (bt_active b) \<ge> bt_capacity b then schedule_wakeup (next_recovery_at b) now b
        else
          let wake = time_min (time_max (bt_next_launch b) (next_pending_ready_at b)) (next_recovery_at b) in
          if later_than wake now then schedule_wakeup wake now b
          else case find_index (\<lambda>i. ts_ready_at (bt_states b ! i) \<le> now) (bt_pending b) of
            None \<Rightarrow> b
          | Some k \<Rightarrow>
              let b2 = start_attempt (bt_pending b ! k)
                    (b\<lparr>bt_pending := take k (bt_pending b) @ drop (Suc k) (bt_pending b)\<rparr>)
              in schedule_next_wakeup now (b2\<lparr>bt_next_launch := now + bt_interval b2\<rparr>))"

definition schedule :: "int \<Rightarrow> 'd batch \<Rightarrow> 'd batch" where
  "schedule now b =
     (if bt_finished b then b
      else if all_done b then batch_finish (map the (bt_results b)) b
      else if bt_controller b \<noteq> None then b
      else if bt_rate_mode b then schedule_rate now b
      else schedule_normal now b)"

definition shrink_capacity :: "int \<Rightarrow> bool \<Rightarrow> 'd batch \<Rightarrow> 'd batch" where
  "shrink_capacity now force b =
     (if \<not> force \<and> (case bt_last_shrink b of None \<Rightarrow> False | Some t \<Rightarrow> now - t < capacity_shrink_interval) then b
      else b\<lparr>bt_capacity := max 1 (bt_capacity b - 1), bt_last_shrink := Some now\<rparr>)"

definition enter_rate_mode :: "int \<Rightarrow> 'd batch \<Rightarrow> 'd batch" where
  "enter_rate_mode now b =
     (if \<not> bt_rate_mode b
      then shrink_capacity now True
        (b\<lparr>bt_rate_mode := True, bt_normal_timer := None, bt_capacity := max 1 (bt_success_count b),
           bt_next_launch := max (bt_next_launch b) (now + rate_limit_retry_base)\<rparr>)
      else shrink_capacity now False b)"

definition requeue_rate_limited :: "(nat \<Rightarrow> int) \<Rightarrow> int \<Rightarrow> attempt \<Rightarrow> string \<Rightarrow> 'd batch \<Rightarrow> 'd batch" where
  "requeue_rate_limited delay now a agent b =
     (let i = at_index a;
          s = bt_states b ! i;
          count = Suc (ts_retry_count s);
          retry_delay = delay (count - 1);
          s' = s\<lparr>ts_agent := Some agent, ts_retry_agent := Some agent, ts_retry_count := count,
                 ts_ready_at := now + retry_delay\<rparr>;
          b1 = enter_rate_mode now
            (b\<lparr>bt_states := (bt_states b)[i := s'], bt_suspended := bt_suspended b @ [(i, agent)],
               bt_last_limit := Some now, bt_pending := i # bt_pending b\<rparr>)
      in if \<not> at_ready a
         then (let interval = max (bt_interval b1 * 2) retry_delay
               in b1\<lparr>bt_interval := interval, bt_next_launch := max (bt_next_launch b1) (now + interval)\<rparr>)
         else b1\<lparr>bt_next_launch := max (bt_next_launch b1) (now + rate_limit_retry_base)\<rparr>)"

subsection \<open>Attempts\<close>

text \<open>How an attempt ends: the launcher throws, or the completion returns or throws.\<close>

datatype settlement =
    Launcher_Threw string
  | Completion_Returned string string
  | Completion_Threw string bool

datatype 'd attempt_outcome = Outcome_Result "'d sub_result" | Outcome_Rate_Limited string string

definition attempt_error_message :: "'d batch \<Rightarrow> attempt \<Rightarrow> string \<Rightarrow> sub_status \<Rightarrow> string" where
  "attempt_error_message b a err status =
     (if at_timed_out a \<and> bk_timeout (bt_tasks b ! at_index a) \<noteq> None then ''Subagent timed out.''
      else if status = Sub_Aborted then ''The user manually interrupted this subagent batch.''
      else err)"

definition failed_attempt_outcome :: "'d batch \<Rightarrow> attempt \<Rightarrow> string \<Rightarrow> 'd sub_result" where
  "failed_attempt_outcome b a err =
     (let i = at_index a;
          status = (if at_abort a = Some True then Sub_Aborted else Sub_Failed);
          agent = ts_agent (bt_states b ! i)
      in \<lparr>sr_task = bt_tasks b ! i, sr_agent = agent, sr_status = status,
          sr_state = Some (if agent = None then Sub_Not_Started else Sub_Started),
          sr_result = None, sr_usage = None, sr_error = Some (attempt_error_message b a err status)\<rparr>)"

definition attempt_outcome :: "'d batch \<Rightarrow> attempt \<Rightarrow> settlement \<Rightarrow> 'd attempt_outcome" where
  "attempt_outcome b a st =
     (let i = at_index a; agent = ts_agent (bt_states b ! i) in
      case st of
        Launcher_Threw e \<Rightarrow> Outcome_Result (failed_attempt_outcome b a e)
      | Completion_Returned res usage \<Rightarrow>
          Outcome_Result \<lparr>sr_task = bt_tasks b ! i, sr_agent = agent, sr_status = Sub_Completed,
            sr_state = None, sr_result = Some res, sr_usage = Some usage, sr_error = None\<rparr>
      | Completion_Threw e limited \<Rightarrow>
          if limited then Outcome_Rate_Limited (opt_or agent []) (attempt_error_message b a e Sub_Failed)
          else Outcome_Result (failed_attempt_outcome b a e))"

definition is_only_unfinished :: "'d batch \<Rightarrow> nat \<Rightarrow> bool" where
  "is_only_unfinished b i = list_all (\<lambda>j. j = i \<or> bt_results b ! j \<noteq> None) [0..<length (bt_results b)]"

definition release_attempt :: "nat \<Rightarrow> 'd batch \<Rightarrow> 'd batch" where
  "release_attempt aid b = b\<lparr>bt_active := filter (\<lambda>a. at_id a \<noteq> aid) (bt_active b)\<rparr>"

definition set_result :: "nat \<Rightarrow> 'd sub_result \<Rightarrow> 'd batch \<Rightarrow> 'd batch" where
  "set_result i r b = b\<lparr>bt_results := (bt_results b)[i := Some r]\<rparr>"

definition handle_outcome :: "(nat \<Rightarrow> int) \<Rightarrow> int \<Rightarrow> attempt \<Rightarrow> 'd attempt_outcome \<Rightarrow> 'd batch \<Rightarrow> 'd batch" where
  "handle_outcome delay now a out b =
     (let i = at_index a; b1 = release_attempt (at_id a) b in
      if bt_finished b1 then b1
      else schedule now
        (case out of
           Outcome_Result r \<Rightarrow> set_result i r b1
         | Outcome_Rate_Limited agent err \<Rightarrow>
             if is_only_unfinished b1 i
             then set_result i \<lparr>sr_task = bt_tasks b ! i, sr_agent = Some agent, sr_status = Sub_Failed,
               sr_state = Some Sub_Started, sr_result = None, sr_usage = None, sr_error = Some err\<rparr> b1
             else requeue_rate_limited delay now a agent b1))"

definition handle_attempt_error :: "int \<Rightarrow> attempt \<Rightarrow> string \<Rightarrow> 'd batch \<Rightarrow> 'd batch" where
  "handle_attempt_error now a err b =
     (let i = at_index a; b1 = release_attempt (at_id a) b in
      if bt_finished b1 then b1
      else schedule now (set_result i \<lparr>sr_task = bt_tasks b ! i, sr_agent = ts_agent (bt_states b ! i),
        sr_status = Sub_Failed, sr_state = None, sr_result = None, sr_usage = None, sr_error = Some err\<rparr> b1))"

definition update_attempt :: "nat \<Rightarrow> (attempt \<Rightarrow> attempt) \<Rightarrow> 'd batch \<Rightarrow> 'd batch" where
  "update_attempt aid f b = b\<lparr>bt_active := map (\<lambda>a. if at_id a = aid then f a else a) (bt_active b)\<rparr>"

definition mark_ready :: "int \<Rightarrow> attempt \<Rightarrow> 'd batch \<Rightarrow> 'd batch" where
  "mark_ready now a b =
     (if bt_finished b \<or> at_ready a then b
      else
        let i = at_index a;
            b1 = (update_attempt (at_id a) (\<lambda>a. a\<lparr>at_ready := True\<rparr>) b)
              \<lparr>bt_states := (bt_states b)[i := (bt_states b ! i)\<lparr>ts_started := True\<rparr>]\<rparr>
        in if \<not> bt_rate_mode b1 then b1\<lparr>bt_success_count := Suc (bt_success_count b1)\<rparr>
           else schedule now (b1\<lparr>bt_interval := rate_limit_retry_base,
                                 bt_next_launch := now + rate_limit_retry_base\<rparr>))"

subsection \<open>Events\<close>

datatype batch_event =
    Ev_Run int
  | Ev_Handle nat string
  | Ev_Ready int nat
  | Ev_Settled int nat settlement
  | Ev_Attempt_Error int nat string
  | Ev_Timeout nat
  | Ev_Signal nat bool
  | Ev_Normal_Timer int
  | Ev_Rate_Timer int

definition find_attempt :: "nat \<Rightarrow> 'd batch \<Rightarrow> attempt option" where
  "find_attempt aid b = List.find (\<lambda>a. at_id a = aid) (bt_active b)"

definition batch_run :: "int \<Rightarrow> 'd batch \<Rightarrow> 'd batch" where
  "batch_run now b =
     (if bt_started b then b
      else
        let b1 = b\<lparr>bt_started := True\<rparr> in
        if bt_states b1 = [] then batch_finish [] b1
        else case (case batch_signal b1 of None \<Rightarrow> None | Some sig \<Rightarrow> map_of (bt_signals b1) sig) of
          Some is_user \<Rightarrow> batch_abort is_user b1
        | None \<Rightarrow> schedule now b1)"

text \<open>The callback of the launch timer.\<close>

definition normal_timer_fires :: "int \<Rightarrow> 'd batch \<Rightarrow> 'd batch" where
  "normal_timer_fires now b0 =
     (let b = b0\<lparr>bt_normal_timer := None\<rparr> in
      if bt_finished b \<or> bt_rate_mode b \<or> bt_pending b = [] then b
      else if at_concurrency_limit b then b
      else schedule now (launch_next b))"

fun batch_step :: "(nat \<Rightarrow> int) \<Rightarrow> 'd batch \<Rightarrow> batch_event \<Rightarrow> 'd batch" where
  "batch_step delay b (Ev_Run now) = batch_run now b"
| "batch_step delay b (Ev_Handle aid agent) =
     (case find_attempt aid b of
        None \<Rightarrow> b
      | Some a \<Rightarrow> b\<lparr>bt_states := (bt_states b)[at_index a := (bt_states b ! at_index a)\<lparr>ts_agent := Some agent\<rparr>]\<rparr>)"
| "batch_step delay b (Ev_Ready now aid) =
     (case find_attempt aid b of None \<Rightarrow> b | Some a \<Rightarrow> mark_ready now a b)"
| "batch_step delay b (Ev_Settled now aid st) =
     (case find_attempt aid b of None \<Rightarrow> b | Some a \<Rightarrow> handle_outcome delay now a (attempt_outcome b a st) b)"
| "batch_step delay b (Ev_Attempt_Error now aid err) =
     (case find_attempt aid b of None \<Rightarrow> b | Some a \<Rightarrow> handle_attempt_error now a err b)"
| "batch_step delay b (Ev_Timeout aid) =
     update_attempt aid (\<lambda>a. a\<lparr>at_timed_out := True,
       at_abort := (case at_abort a of None \<Rightarrow> Some False | Some r \<Rightarrow> Some r)\<rparr>) b"
| "batch_step delay b (Ev_Signal sig is_user) =
     (if map_of (bt_signals b) sig \<noteq> None then b
      else
        let b1 = b\<lparr>bt_signals := (sig, is_user) # bt_signals b\<rparr> in
        if bt_started b \<and> \<not> bt_finished b \<and> batch_signal b = Some sig then batch_abort is_user b1
        else b1\<lparr>bt_active := map (\<lambda>a. if bk_signal (bt_tasks b ! at_index a) = Some sig \<and> at_abort a = None
               then a\<lparr>at_abort := Some is_user\<rparr> else a) (bt_active b1)\<rparr>)"
| "batch_step delay b (Ev_Normal_Timer now) =
     (if bt_normal_timer b = None then b else normal_timer_fires now b)"
| "batch_step delay b (Ev_Rate_Timer now) =
     (if bt_rate_timer b = None then b else schedule now (b\<lparr>bt_rate_timer := None\<rparr>))"

subsection \<open>What each piece leaves alone\<close>

lemma schedule_wakeup_frame [simp]:
  "bt_tasks (schedule_wakeup w now b) = bt_tasks b" "bt_max (schedule_wakeup w now b) = bt_max b"
  "bt_states (schedule_wakeup w now b) = bt_states b" "bt_pending (schedule_wakeup w now b) = bt_pending b"
  "bt_results (schedule_wakeup w now b) = bt_results b" "bt_active (schedule_wakeup w now b) = bt_active b"
  "bt_next_id (schedule_wakeup w now b) = bt_next_id b" "bt_controller (schedule_wakeup w now b) = bt_controller b"
  "bt_started (schedule_wakeup w now b) = bt_started b" "bt_finished (schedule_wakeup w now b) = bt_finished b"
  "bt_end (schedule_wakeup w now b) = bt_end b" "bt_rate_mode (schedule_wakeup w now b) = bt_rate_mode b"
  "bt_capacity (schedule_wakeup w now b) = bt_capacity b" "bt_last_limit (schedule_wakeup w now b) = bt_last_limit b"
  "bt_normal_timer (schedule_wakeup w now b) = bt_normal_timer b" "bt_normal_count (schedule_wakeup w now b) = bt_normal_count b"
  by (simp_all add: schedule_wakeup_def split: option.split)

lemma schedule_next_wakeup_frame [simp]:
  "bt_tasks (schedule_next_wakeup now b) = bt_tasks b" "bt_max (schedule_next_wakeup now b) = bt_max b"
  "bt_states (schedule_next_wakeup now b) = bt_states b" "bt_pending (schedule_next_wakeup now b) = bt_pending b"
  "bt_results (schedule_next_wakeup now b) = bt_results b" "bt_active (schedule_next_wakeup now b) = bt_active b"
  "bt_next_id (schedule_next_wakeup now b) = bt_next_id b" "bt_controller (schedule_next_wakeup now b) = bt_controller b"
  "bt_started (schedule_next_wakeup now b) = bt_started b" "bt_finished (schedule_next_wakeup now b) = bt_finished b"
  "bt_end (schedule_next_wakeup now b) = bt_end b" "bt_rate_mode (schedule_next_wakeup now b) = bt_rate_mode b"
  "bt_capacity (schedule_next_wakeup now b) = bt_capacity b" "bt_last_limit (schedule_next_wakeup now b) = bt_last_limit b"
  "bt_normal_timer (schedule_next_wakeup now b) = bt_normal_timer b"
  by (simp_all add: schedule_next_wakeup_def)

lemma recover_capacity_frame [simp]:
  "bt_tasks (recover_capacity now b) = bt_tasks b" "bt_max (recover_capacity now b) = bt_max b"
  "bt_states (recover_capacity now b) = bt_states b" "bt_pending (recover_capacity now b) = bt_pending b"
  "bt_results (recover_capacity now b) = bt_results b" "bt_active (recover_capacity now b) = bt_active b"
  "bt_next_id (recover_capacity now b) = bt_next_id b" "bt_controller (recover_capacity now b) = bt_controller b"
  "bt_started (recover_capacity now b) = bt_started b" "bt_finished (recover_capacity now b) = bt_finished b"
  "bt_end (recover_capacity now b) = bt_end b" "bt_rate_mode (recover_capacity now b) = bt_rate_mode b"
  "bt_last_limit (recover_capacity now b) = bt_last_limit b" "bt_normal_timer (recover_capacity now b) = bt_normal_timer b"
  "bt_rate_timer (recover_capacity now b) = bt_rate_timer b" "bt_interval (recover_capacity now b) = bt_interval b"
  "bt_capacity b \<le> bt_capacity (recover_capacity now b)"
  by (simp_all add: recover_capacity_def)

lemma shrink_capacity_frame [simp]:
  "bt_tasks (shrink_capacity now f b) = bt_tasks b" "bt_max (shrink_capacity now f b) = bt_max b"
  "bt_states (shrink_capacity now f b) = bt_states b" "bt_pending (shrink_capacity now f b) = bt_pending b"
  "bt_results (shrink_capacity now f b) = bt_results b" "bt_active (shrink_capacity now f b) = bt_active b"
  "bt_next_id (shrink_capacity now f b) = bt_next_id b" "bt_controller (shrink_capacity now f b) = bt_controller b"
  "bt_started (shrink_capacity now f b) = bt_started b" "bt_finished (shrink_capacity now f b) = bt_finished b"
  "bt_end (shrink_capacity now f b) = bt_end b" "bt_rate_mode (shrink_capacity now f b) = bt_rate_mode b"
  "bt_last_limit (shrink_capacity now f b) = bt_last_limit b" "bt_normal_timer (shrink_capacity now f b) = bt_normal_timer b"
  "bt_rate_timer (shrink_capacity now f b) = bt_rate_timer b"
  "0 < bt_capacity b \<Longrightarrow> 0 < bt_capacity (shrink_capacity now f b)"
  by (simp_all add: shrink_capacity_def less_max_iff_disj)

lemma enter_rate_mode_frame [simp]:
  "bt_tasks (enter_rate_mode now b) = bt_tasks b" "bt_max (enter_rate_mode now b) = bt_max b"
  "bt_states (enter_rate_mode now b) = bt_states b" "bt_pending (enter_rate_mode now b) = bt_pending b"
  "bt_results (enter_rate_mode now b) = bt_results b" "bt_active (enter_rate_mode now b) = bt_active b"
  "bt_next_id (enter_rate_mode now b) = bt_next_id b" "bt_controller (enter_rate_mode now b) = bt_controller b"
  "bt_started (enter_rate_mode now b) = bt_started b" "bt_finished (enter_rate_mode now b) = bt_finished b"
  "bt_end (enter_rate_mode now b) = bt_end b" "bt_rate_mode (enter_rate_mode now b) = True"
  "bt_last_limit (enter_rate_mode now b) = bt_last_limit b"
  "0 < bt_capacity b \<Longrightarrow> 0 < bt_capacity (enter_rate_mode now b)"
  "bt_normal_timer (enter_rate_mode now b) = (if bt_rate_mode b then bt_normal_timer b else None)"
  by (auto simp: enter_rate_mode_def)

lemma batch_finish_frame [simp]:
  "bt_tasks (batch_finish rs b) = bt_tasks b" "bt_max (batch_finish rs b) = bt_max b"
  "bt_states (batch_finish rs b) = bt_states b" "bt_pending (batch_finish rs b) = bt_pending b"
  "bt_results (batch_finish rs b) = bt_results b" "bt_next_id (batch_finish rs b) = bt_next_id b"
  "bt_controller (batch_finish rs b) = bt_controller b" "bt_started (batch_finish rs b) = bt_started b"
  "bt_finished (batch_finish rs b) = True" "bt_rate_mode (batch_finish rs b) = bt_rate_mode b"
  "bt_capacity (batch_finish rs b) = bt_capacity b" "bt_last_limit (batch_finish rs b) = bt_last_limit b"
  by (simp_all add: batch_finish_def batch_cleanup_def)

subsection \<open>The invariant\<close>

definition slots_ok :: "'d batch \<Rightarrow> bool" where
  "slots_ok b \<longleftrightarrow>
     length (bt_states b) = length (bt_tasks b) \<and> length (bt_results b) = length (bt_tasks b) \<and>
     distinct (bt_pending b @ map at_index (bt_active b)) \<and>
     distinct (map at_id (bt_active b)) \<and> (\<forall>a \<in> set (bt_active b). at_id a < bt_next_id b) \<and>
     (\<forall>i < length (bt_tasks b). \<forall>r. bt_results b ! i = Some r \<longrightarrow> sr_task r = bt_tasks b ! i) \<and>
     (\<not> bt_finished b \<longrightarrow> set (bt_pending b) \<union> at_index ` set (bt_active b) =
        {i. i < length (bt_tasks b) \<and> bt_results b ! i = None})"

definition modes_ok :: "'d batch \<Rightarrow> bool" where
  "modes_ok b \<longleftrightarrow>
     0 < bt_capacity b \<and>
     (bt_rate_mode b \<longrightarrow> bt_last_limit b \<noteq> None \<and> bt_normal_timer b = None) \<and>
     (bt_controller b \<noteq> None \<longrightarrow> bt_finished b) \<and>
     (bt_finished b \<longleftrightarrow> bt_end b \<noteq> None) \<and>
     (bt_finished b \<longrightarrow> bt_active b = [] \<and> bt_normal_timer b = None \<and> bt_rate_timer b = None)"

definition ends_ok :: "'d batch \<Rightarrow> bool" where
  "ends_ok b \<longleftrightarrow> (\<forall>rs. bt_end b = Some (Resolved rs) \<longrightarrow> map sr_task rs = bt_tasks b)"

definition capped :: "'d batch \<Rightarrow> bool" where
  "capped b \<longleftrightarrow> (\<forall>c. bt_max b = Some c \<longrightarrow> \<not> bt_rate_mode b \<longrightarrow> length (bt_active b) \<le> c)"

text \<open>The batch waits for something: an attempt or a timer.\<close>

definition waits :: "'d batch \<Rightarrow> bool" where
  "waits b \<longleftrightarrow> bt_active b \<noteq> [] \<or> bt_normal_timer b \<noteq> None \<or> bt_rate_timer b \<noteq> None"

definition alive :: "'d batch \<Rightarrow> bool" where
  "alive b \<longleftrightarrow> (bt_started b \<and> \<not> bt_finished b \<longrightarrow> \<not> all_done b \<and> waits b)"

definition core_ok :: "'d batch \<Rightarrow> bool" where
  "core_ok b \<longleftrightarrow> slots_ok b \<and> modes_ok b \<and> ends_ok b \<and> capped b \<and> bt_max b \<noteq> Some 0"

definition batch_inv :: "'d batch \<Rightarrow> bool" where
  "batch_inv b \<longleftrightarrow> core_ok b \<and> alive b \<and> (\<not> bt_started b \<longrightarrow> bt_active b = [] \<and> \<not> bt_finished b \<and>
     \<not> bt_rate_mode b \<and> bt_normal_timer b = None \<and> bt_rate_timer b = None)"

lemma batch_init_inv: "cap \<noteq> Some 0 \<Longrightarrow> batch_inv (batch_init tasks cap)"
  by (auto simp: batch_inv_def core_ok_def slots_ok_def modes_ok_def ends_ok_def capped_def alive_def batch_init_def)

subsection \<open>Launching keeps the slots\<close>

text \<open>A batch that is still open: not finished, its controller not aborted.\<close>

definition is_open :: "'d batch \<Rightarrow> bool" where
  "is_open b \<longleftrightarrow> \<not> bt_finished b \<and> bt_controller b = None"

lemma start_attempt_open:
  assumes "is_open b"
  obtains a where "at_index a = i" "at_id a = bt_next_id b"
    "bt_active (start_attempt i b) = bt_active b @ [a]" "bt_next_id (start_attempt i b) = Suc (bt_next_id b)"
proof -
  let ?a = "\<lparr>at_id = bt_next_id b, at_index = i, at_ready = False, at_timed_out = False,
    at_abort = task_signal_reason b i\<rparr>"
  show thesis
    by (rule that [of ?a]) (use assms in \<open>simp_all add: is_open_def start_attempt_def Let_def\<close>)
qed

lemma start_attempt_frame [simp]:
  "bt_tasks (start_attempt i b) = bt_tasks b" "bt_max (start_attempt i b) = bt_max b"
  "bt_states (start_attempt i b) = bt_states b" "bt_results (start_attempt i b) = bt_results b"
  "bt_controller (start_attempt i b) = bt_controller b" "bt_started (start_attempt i b) = bt_started b"
  "bt_finished (start_attempt i b) = bt_finished b" "bt_end (start_attempt i b) = bt_end b"
  "bt_rate_mode (start_attempt i b) = bt_rate_mode b" "bt_capacity (start_attempt i b) = bt_capacity b"
  "bt_last_limit (start_attempt i b) = bt_last_limit b" "bt_normal_timer (start_attempt i b) = bt_normal_timer b"
  "bt_rate_timer (start_attempt i b) = bt_rate_timer b" "bt_normal_count (start_attempt i b) = bt_normal_count b"
  "bt_interval (start_attempt i b) = bt_interval b"
  by (simp_all add: start_attempt_def Let_def)

lemma start_attempt_slots:
  assumes ok: "slots_ok b" and op: "is_open b" and split: "bt_pending b = xs @ i # ys"
  shows "slots_ok (start_attempt i (b\<lparr>bt_pending := xs @ ys\<rparr>))"
proof -
  let ?b = "b\<lparr>bt_pending := xs @ ys\<rparr>"
  have "is_open ?b"
    using op by (simp add: is_open_def)
  then obtain a where a: "at_index a = i" "at_id a = bt_next_id b"
      "bt_active (start_attempt i ?b) = bt_active b @ [a]" "bt_next_id (start_attempt i ?b) = Suc (bt_next_id b)"
    by (rule start_attempt_open) simp
  have "set (xs @ ys) \<union> at_index ` set (bt_active b @ [a]) = set (bt_pending b) \<union> at_index ` set (bt_active b)"
    using split a(1) by auto
  moreover have "distinct ((xs @ ys) @ map at_index (bt_active b @ [a]))"
    using ok split a(1) by (auto simp: slots_ok_def)
  moreover have "distinct (map at_id (bt_active b @ [a]))" "\<forall>c \<in> set (bt_active b @ [a]). at_id c < Suc (bt_next_id b)"
    using ok a(2) by (auto simp: slots_ok_def)
  ultimately show ?thesis
    using ok unfolding slots_ok_def a(3,4) by simp
qed

lemma start_attempt_active:
  "bt_active (start_attempt i b) = bt_active b \<or>
   (\<exists>a. bt_active (start_attempt i b) = bt_active b @ [a] \<and> at_index a = i)"
  unfolding start_attempt_def Let_def by simp

lemma launch_next_frame [simp]:
  "bt_tasks (launch_next b) = bt_tasks b" "bt_max (launch_next b) = bt_max b"
  "bt_results (launch_next b) = bt_results b" "bt_controller (launch_next b) = bt_controller b"
  "bt_started (launch_next b) = bt_started b" "bt_finished (launch_next b) = bt_finished b"
  "bt_end (launch_next b) = bt_end b" "bt_rate_mode (launch_next b) = bt_rate_mode b"
  "bt_capacity (launch_next b) = bt_capacity b" "bt_last_limit (launch_next b) = bt_last_limit b"
  "bt_normal_timer (launch_next b) = bt_normal_timer b" "bt_rate_timer (launch_next b) = bt_rate_timer b"
  "bt_pending (launch_next b) = tl (bt_pending b)"
  by (simp_all add: launch_next_def Let_def)

lemma slots_normal_count [simp]: "slots_ok (b\<lparr>bt_normal_count := n\<rparr>) = slots_ok b"
  by (simp add: slots_ok_def)

lemma launch_next_core:
  assumes ok: "core_ok b" and op: "is_open b" and pend: "bt_pending b \<noteq> []" and cap: "\<not> at_concurrency_limit b"
  shows "core_ok (launch_next b) \<and> is_open (launch_next b) \<and> bt_active (launch_next b) \<noteq> []"
proof -
  obtain i ys where split: "bt_pending b = i # ys"
    using pend by (cases "bt_pending b") auto
  let ?b = "b\<lparr>bt_pending := ys\<rparr>"
  have next': "launch_next b = (start_attempt i ?b)\<lparr>bt_normal_count := Suc (bt_normal_count b)\<rparr>"
    using split by (simp add: launch_next_def Let_def)
  have slots: "slots_ok (launch_next b)"
    using start_attempt_slots [of b "[]" i ys] ok op split unfolding next' core_ok_def by simp
  have "is_open ?b"
    using op by (simp add: is_open_def)
  then obtain a where "bt_active (start_attempt i ?b) = bt_active b @ [a]"
    by (rule start_attempt_open) simp
  then have act: "bt_active (launch_next b) = bt_active b @ [a]"
    unfolding next' by simp
  have "capped (launch_next b)"
    using cap unfolding capped_def act by (auto simp: at_concurrency_limit_def)
  moreover have "modes_ok (launch_next b)"
    using ok op unfolding core_ok_def modes_ok_def is_open_def by simp
  moreover have "ends_ok (launch_next b)"
    using ok by (simp add: core_ok_def ends_ok_def)
  moreover have "is_open (launch_next b)"
    using op by (simp add: is_open_def)
  ultimately show ?thesis
    using slots ok act by (simp add: core_ok_def)
qed

lemma normal_ramp_inv:
  assumes "P b" and "\<And>b. P b \<Longrightarrow> may_ramp b \<Longrightarrow> P (launch_next b)"
  shows "P (normal_ramp b) \<and> \<not> may_ramp (normal_ramp b)"
  using assms(1)
proof (induction b rule: normal_ramp.induct)
  case (1 b)
  then show ?case
    using assms(2) by (subst (1 2) normal_ramp.simps) simp
qed

subsection \<open>Scheduling keeps the invariant and never stalls\<close>

lemma slots_timers [simp]:
  "slots_ok (b\<lparr>bt_normal_timer := t\<rparr>) = slots_ok b" "slots_ok (b\<lparr>bt_rate_timer := t\<rparr>) = slots_ok b"
  "slots_ok (b\<lparr>bt_next_launch := n\<rparr>) = slots_ok b" "slots_ok (b\<lparr>bt_started := s\<rparr>) = slots_ok b"
  "slots_ok (b\<lparr>bt_interval := n\<rparr>) = slots_ok b" "slots_ok (b\<lparr>bt_success_count := c\<rparr>) = slots_ok b"
  by (simp_all add: slots_ok_def)

lemma capped_timers [simp]:
  "capped (b\<lparr>bt_normal_timer := t\<rparr>) = capped b" "capped (b\<lparr>bt_rate_timer := t\<rparr>) = capped b"
  "capped (b\<lparr>bt_next_launch := n\<rparr>) = capped b" "capped (b\<lparr>bt_started := s\<rparr>) = capped b"
  "capped (b\<lparr>bt_interval := n\<rparr>) = capped b" "capped (b\<lparr>bt_success_count := c\<rparr>) = capped b"
  by (simp_all add: capped_def)

lemma ends_timers [simp]:
  "ends_ok (b\<lparr>bt_normal_timer := t\<rparr>) = ends_ok b" "ends_ok (b\<lparr>bt_rate_timer := t\<rparr>) = ends_ok b"
  "ends_ok (b\<lparr>bt_next_launch := n\<rparr>) = ends_ok b" "ends_ok (b\<lparr>bt_started := s\<rparr>) = ends_ok b"
  "ends_ok (b\<lparr>bt_interval := n\<rparr>) = ends_ok b" "ends_ok (b\<lparr>bt_success_count := c\<rparr>) = ends_ok b"
  by (simp_all add: ends_ok_def)

lemma modes_timers:
  "modes_ok b \<Longrightarrow> modes_ok (b\<lparr>bt_next_launch := n\<rparr>)" "modes_ok b \<Longrightarrow> modes_ok (b\<lparr>bt_started := s\<rparr>)"
  "modes_ok b \<Longrightarrow> modes_ok (b\<lparr>bt_interval := i\<rparr>)" "modes_ok b \<Longrightarrow> modes_ok (b\<lparr>bt_success_count := c\<rparr>)"
  "modes_ok b \<Longrightarrow> modes_ok (b\<lparr>bt_rate_timer := None\<rparr>)" "modes_ok b \<Longrightarrow> modes_ok (b\<lparr>bt_normal_timer := None\<rparr>)"
  "modes_ok b \<Longrightarrow> \<not> bt_finished b \<Longrightarrow> modes_ok (b\<lparr>bt_rate_timer := t\<rparr>)"
  "modes_ok b \<Longrightarrow> \<not> bt_finished b \<Longrightarrow> \<not> bt_rate_mode b \<Longrightarrow> modes_ok (b\<lparr>bt_normal_timer := t\<rparr>)"
  by (auto simp: modes_ok_def)

lemma core_timers:
  "core_ok b \<Longrightarrow> core_ok (b\<lparr>bt_next_launch := n\<rparr>)" "core_ok b \<Longrightarrow> core_ok (b\<lparr>bt_started := s\<rparr>)"
  "core_ok b \<Longrightarrow> core_ok (b\<lparr>bt_interval := i\<rparr>)" "core_ok b \<Longrightarrow> core_ok (b\<lparr>bt_success_count := c\<rparr>)"
  "core_ok b \<Longrightarrow> core_ok (b\<lparr>bt_rate_timer := None\<rparr>)" "core_ok b \<Longrightarrow> core_ok (b\<lparr>bt_normal_timer := None\<rparr>)"
  "core_ok b \<Longrightarrow> \<not> bt_finished b \<Longrightarrow> core_ok (b\<lparr>bt_rate_timer := t\<rparr>)"
  "core_ok b \<Longrightarrow> \<not> bt_finished b \<Longrightarrow> \<not> bt_rate_mode b \<Longrightarrow> core_ok (b\<lparr>bt_normal_timer := t\<rparr>)"
  by (simp_all add: core_ok_def modes_timers)

lemma core_wakeup:
  assumes "core_ok b" "\<not> bt_finished b"
  shows "core_ok (schedule_wakeup w now b)" "core_ok (schedule_next_wakeup now b)"
proof -
  have one: "core_ok (schedule_wakeup v now b)" for v
    using assms by (simp add: schedule_wakeup_def core_timers split: option.split)
  show "core_ok (schedule_wakeup w now b)" "core_ok (schedule_next_wakeup now b)"
    using one assms(1) by (simp_all add: schedule_next_wakeup_def)
qed

lemma core_recover: "core_ok b \<Longrightarrow> core_ok (recover_capacity now b)"
  by (auto simp: recover_capacity_def core_ok_def slots_ok_def modes_ok_def ends_ok_def capped_def)

lemma recovery_later:
  assumes "bt_pending b \<noteq> []" "bt_last_limit b \<noteq> None"
  shows "\<exists>t. next_recovery_at (recover_capacity now b) = Some t \<and> now < t"
proof -
  obtain l where l: "bt_last_limit b = Some l"
    using assms(2) by blast
  have "next_recovery_at b = Some (max l (opt_or (bt_last_recovery b) 0) + capacity_recovery_interval)"
    using assms(1) l by (simp add: next_recovery_at_def)
  then show ?thesis
    using assms(1) l by (auto simp: recover_capacity_def later_than_def next_recovery_at_def capacity_recovery_interval_def)
qed

lemma ready_pending:
  assumes "foldl (\<lambda>t i. time_min t (Some (f i))) t0 xs = Some r" "\<forall>t. t0 = Some t \<longrightarrow> now < t" "r \<le> now"
  shows "\<exists>i \<in> set xs. f i \<le> now"
  using assms
proof (induction xs arbitrary: t0)
  case (Cons x xs)
  show ?case
  proof (cases "f x \<le> now")
    case False
    then have "\<forall>t. time_min t0 (Some (f x)) = Some t \<longrightarrow> now < t"
      using Cons.prems(2) by (auto simp: time_min_def split: option.splits)
    with Cons.IH [of "time_min t0 (Some (f x))"] Cons.prems show ?thesis
      by auto
  qed simp
qed simp

lemma schedule_rate_core:
  assumes ok: "core_ok b" and op: "is_open b" and rate: "bt_rate_mode b" and pend: "bt_pending b \<noteq> []"
  shows "core_ok (schedule_rate now b) \<and> waits (schedule_rate now b)"
proof -
  define b1 where "b1 = recover_capacity now (b\<lparr>bt_rate_timer := None\<rparr>)"
  have core1: "core_ok b1"
    unfolding b1_def using ok by (intro core_recover core_timers)
  have fields: "\<not> bt_finished b1" "bt_controller b1 = None" "bt_pending b1 = bt_pending b" "bt_rate_mode b1"
    using op rate by (simp_all add: b1_def is_open_def)
  have limit: "bt_last_limit b \<noteq> None"
    using ok rate by (simp add: core_ok_def modes_ok_def)
  obtain rec where rec: "next_recovery_at b1 = Some rec" "now < rec"
    using recovery_later [of "b\<lparr>bt_rate_timer := None\<rparr>" now] pend limit by (auto simp: b1_def)
  have wake: "waits (schedule_wakeup (Some t) now b1)" if "now < t" for t
    using that by (simp add: waits_def schedule_wakeup_def)
  let ?wake = "time_min (time_max (bt_next_launch b1) (next_pending_ready_at b1)) (next_recovery_at b1)"
  obtain wk where wk: "?wake = Some wk"
    using rec(1) by (cases "time_max (bt_next_launch b1) (next_pending_ready_at b1)") (simp_all add: time_min_def)
  show ?thesis
  proof (cases "length (bt_active b1) \<ge> bt_capacity b1")
    case True
    then have "schedule_rate now b = schedule_wakeup (next_recovery_at b1) now b1"
      using pend by (simp add: schedule_rate_def b1_def Let_def)
    then show ?thesis
      using core_wakeup [OF core1 fields(1)] wake [OF rec(2)] rec(1) by simp
  next
    case below: False
    show ?thesis
    proof (cases "later_than ?wake now")
      case True
      then have "schedule_rate now b = schedule_wakeup (Some wk) now b1"
        using pend below wk by (simp add: schedule_rate_def b1_def [symmetric] Let_def)
      moreover have "now < wk"
        using True wk by (simp add: later_than_def)
      ultimately show ?thesis
        using core_wakeup [OF core1 fields(1)] wake by simp
    next
      case False
      then have "wk \<le> now"
        using wk by (simp add: later_than_def)
      then obtain r where r: "next_pending_ready_at b1 = Some r" "r \<le> now"
        using wk rec by (auto simp: time_min_def time_max_def split: option.splits)
      then have "\<exists>i \<in> set (bt_pending b1). ts_ready_at (bt_states b1 ! i) \<le> now"
        using ready_pending [of "\<lambda>i. ts_ready_at (bt_states b1 ! i)" None "bt_pending b1" r now]
        by (simp add: next_pending_ready_at_def)
      then obtain k where k: "find_index (\<lambda>i. ts_ready_at (bt_states b1 ! i) \<le> now) (bt_pending b1) = Some k"
        by (cases "find_index (\<lambda>i. ts_ready_at (bt_states b1 ! i) \<le> now) (bt_pending b1)")
          (auto simp: find_index_None)
      then have "k < length (bt_pending b1)"
        using find_index_Some by blast
      then have split: "bt_pending b1 = take k (bt_pending b1) @ (bt_pending b1 ! k) # drop (Suc k) (bt_pending b1)"
        by (simp add: id_take_nth_drop)
      let ?bp = "b1\<lparr>bt_pending := take k (bt_pending b1) @ drop (Suc k) (bt_pending b1)\<rparr>"
      define b2 where "b2 = start_attempt (bt_pending b1 ! k) ?bp"
      have "is_open ?bp" "is_open b1"
        using fields by (simp_all add: is_open_def)
      then obtain a where act: "bt_active b2 = bt_active b1 @ [a]"
        unfolding b2_def by (rule_tac start_attempt_open [of ?bp]) auto
      have "slots_ok b2"
        unfolding b2_def using core1 split \<open>is_open b1\<close> by (intro start_attempt_slots) (auto simp: core_ok_def)
      moreover have "modes_ok b2" "ends_ok b2" "capped b2" "bt_max b2 \<noteq> Some 0"
        using core1 fields unfolding b2_def core_ok_def modes_ok_def ends_ok_def capped_def by simp_all
      ultimately have "core_ok (b2\<lparr>bt_next_launch := now + bt_interval b2\<rparr>)"
        by (intro core_timers) (simp add: core_ok_def)
      moreover have "\<not> bt_finished b2"
        using fields by (simp add: b2_def)
      ultimately have "core_ok (schedule_next_wakeup now (b2\<lparr>bt_next_launch := now + bt_interval b2\<rparr>))"
        by (intro core_wakeup) simp_all
      moreover have "schedule_rate now b = schedule_next_wakeup now (b2\<lparr>bt_next_launch := now + bt_interval b2\<rparr>)"
        using pend below False k by (simp add: schedule_rate_def b1_def [symmetric] b2_def Let_def)
      ultimately show ?thesis
        by (simp add: waits_def act)
    qed
  qed
qed

lemma schedule_normal_core:
  assumes ok: "core_ok b" and op: "is_open b" and mode: "\<not> bt_rate_mode b"
    and busy: "bt_pending b \<noteq> [] \<or> bt_active b \<noteq> []"
  shows "core_ok (schedule_normal now b) \<and> waits (schedule_normal now b)"
proof -
  define b1 where "b1 = normal_ramp b"
  have ramp: "(core_ok b1 \<and> is_open b1 \<and> \<not> bt_rate_mode b1 \<and> (bt_pending b1 \<noteq> [] \<or> bt_active b1 \<noteq> [])) \<and>
      \<not> may_ramp b1"
    unfolding b1_def
  proof (rule normal_ramp_inv)
    fix c :: "'a batch"
    assume "core_ok c \<and> is_open c \<and> \<not> bt_rate_mode c \<and> (bt_pending c \<noteq> [] \<or> bt_active c \<noteq> [])" "may_ramp c"
    then show "core_ok (launch_next c) \<and> is_open (launch_next c) \<and> \<not> bt_rate_mode (launch_next c) \<and>
        (bt_pending (launch_next c) \<noteq> [] \<or> bt_active (launch_next c) \<noteq> [])"
      using launch_next_core [of c] by (simp add: may_ramp_def)
  qed (use assms in simp)
  then have fin: "\<not> bt_finished b1"
    by (simp add: is_open_def)
  have nonzero: "at_concurrency_limit b1 \<Longrightarrow> bt_active b1 \<noteq> []"
    using ramp by (auto simp: at_concurrency_limit_def core_ok_def split: option.splits)
  show ?thesis
  proof (cases "bt_pending b1 = [] \<or> bt_rate_mode b1 \<or> bt_normal_timer b1 \<noteq> None \<or> at_concurrency_limit b1")
    case True
    then have "schedule_normal now b = b1"
      unfolding schedule_normal_def Let_def b1_def [symmetric] by (rule if_P)
    moreover have "waits b1"
      using True ramp nonzero by (auto simp: waits_def)
    ultimately show ?thesis
      using ramp by simp
  next
    case False
    then have "schedule_normal now b = b1\<lparr>bt_normal_timer := Some (now + initial_launch_interval)\<rparr>"
      unfolding schedule_normal_def Let_def b1_def [symmetric] by (rule if_not_P)
    then show ?thesis
      using ramp core_timers(8) [of b1] fin by (simp add: waits_def)
  qed
qed

lemma batch_finish_core:
  assumes "core_ok b" "map sr_task rs = bt_tasks b"
  shows "core_ok (batch_finish rs b)"
  using assms
  by (auto simp: batch_finish_def batch_cleanup_def core_ok_def slots_ok_def modes_ok_def ends_ok_def capped_def)

lemma done_results:
  assumes "slots_ok b" "all_done b"
  shows "map sr_task (map the (bt_results b)) = bt_tasks b"
proof (rule nth_equalityI)
  show "length (map sr_task (map the (bt_results b))) = length (bt_tasks b)"
    using assms by (simp add: slots_ok_def)
  fix i
  assume "i < length (map sr_task (map the (bt_results b)))"
  then have i: "i < length (bt_results b)" "i < length (bt_tasks b)"
    using assms(1) by (simp_all add: slots_ok_def)
  then obtain r where "bt_results b ! i = Some r"
    using assms(2) by (auto simp: all_done_def list_all_length)
  then show "map sr_task (map the (bt_results b)) ! i = bt_tasks b ! i"
    using assms(1) i by (simp add: slots_ok_def)
qed

lemma not_done_busy:
  assumes "slots_ok b" "\<not> bt_finished b" "\<not> all_done b"
  shows "bt_pending b \<noteq> [] \<or> bt_active b \<noteq> []"
proof -
  obtain i where "i < length (bt_results b)" "bt_results b ! i = None"
    using assms(3) by (auto simp: all_done_def list_all_length)
  then have "i \<in> set (bt_pending b) \<union> at_index ` set (bt_active b)"
    using assms(1,2) by (simp add: slots_ok_def)
  then show ?thesis
    by auto
qed

lemma normal_ramp_keeps:
  "bt_results (normal_ramp b) = bt_results b \<and> bt_started (normal_ramp b) = bt_started b \<and>
   bt_tasks (normal_ramp b) = bt_tasks b"
proof -
  have "(bt_results (normal_ramp b) = bt_results b \<and> bt_started (normal_ramp b) = bt_started b \<and>
      bt_tasks (normal_ramp b) = bt_tasks b) \<and> \<not> may_ramp (normal_ramp b)"
    by (rule normal_ramp_inv) simp_all
  then show ?thesis
    by blast
qed

lemma schedule_keeps:
  "bt_results (schedule now b) = bt_results b" "bt_started (schedule now b) = bt_started b"
  "bt_tasks (schedule now b) = bt_tasks b"
proof -
  have "bt_results (schedule_normal now b) = bt_results b \<and> bt_started (schedule_normal now b) = bt_started b \<and>
      bt_tasks (schedule_normal now b) = bt_tasks b"
    using normal_ramp_keeps [of b] by (simp add: schedule_normal_def Let_def)
  moreover have "bt_results (schedule_rate now b) = bt_results b \<and> bt_started (schedule_rate now b) = bt_started b \<and>
      bt_tasks (schedule_rate now b) = bt_tasks b"
    by (simp add: schedule_rate_def Let_def split: option.split)
  ultimately show "bt_results (schedule now b) = bt_results b" "bt_started (schedule now b) = bt_started b"
    "bt_tasks (schedule now b) = bt_tasks b"
    by (simp_all add: schedule_def)
qed

text \<open>The work horse: after \<open>schedule\<close> the batch is finished or waits for something.\<close>

lemma schedule_inv:
  assumes ok: "core_ok b" and started: "bt_started b"
  shows "batch_inv (schedule now b)"
proof -
  have keep: "bt_started (schedule now b)"
    using started by (simp add: schedule_keeps)
  have "core_ok (schedule now b) \<and> alive (schedule now b)"
  proof (cases "bt_finished b")
    case True
    then show ?thesis
      using ok by (simp add: schedule_def alive_def)
  next
    case open': False
    then have ctrl: "bt_controller b = None"
      using ok by (auto simp: core_ok_def modes_ok_def)
    show ?thesis
    proof (cases "all_done b")
      case True
      then show ?thesis
        using ok open' done_results [of b] batch_finish_core [OF ok]
        by (simp add: schedule_def alive_def core_ok_def)
    next
      case False
      then have busy: "bt_pending b \<noteq> [] \<or> bt_active b \<noteq> []"
        using ok open' not_done_busy by (auto simp: core_ok_def)
      have op: "is_open b"
        using open' ctrl by (simp add: is_open_def)
      show ?thesis
      proof (cases "bt_rate_mode b")
        case True
        show ?thesis
        proof (cases "bt_pending b = []")
          case True
          then have "schedule now b = b\<lparr>bt_rate_timer := None\<rparr>"
            using \<open>bt_rate_mode b\<close> open' ctrl False by (simp add: schedule_def schedule_rate_def Let_def)
          then show ?thesis
            using ok busy True False core_timers(5) [OF ok] by (simp add: alive_def waits_def all_done_def)
        next
          case pend: False
          have run: "schedule now b = schedule_rate now b"
            using \<open>bt_rate_mode b\<close> open' ctrl False by (simp add: schedule_def)
          then show ?thesis
            using schedule_rate_core [OF ok op \<open>bt_rate_mode b\<close> pend, of now] False
              schedule_keeps [of now b] by (simp add: alive_def all_done_def)
        qed
      next
        case mode: False
        have run: "schedule now b = schedule_normal now b"
          using mode open' ctrl False by (simp add: schedule_def)
        then show ?thesis
          using schedule_normal_core [OF ok op mode busy, of now] False schedule_keeps [of now b] open'
          by (simp add: alive_def all_done_def)
      qed
    qed
  qed
  then show ?thesis
    using keep by (simp add: batch_inv_def)
qed

subsection \<open>Every event keeps the invariant\<close>

lemma core_attempts:
  assumes ok: "core_ok b" and same: "\<And>a. at_id (f a) = at_id a \<and> at_index (f a) = at_index a"
  shows "core_ok (b\<lparr>bt_active := map f (bt_active b)\<rparr>)"
proof -
  have "at_index \<circ> f = at_index" "at_id \<circ> f = at_id"
    using same by (simp_all add: fun_eq_iff)
  moreover have "at_index ` f ` set (bt_active b) = at_index ` set (bt_active b)"
    using same by (simp add: image_image)
  ultimately have "slots_ok (b\<lparr>bt_active := map f (bt_active b)\<rparr>)"
    using ok same unfolding core_ok_def slots_ok_def by simp
  then show ?thesis
    using ok by (auto simp: core_ok_def modes_ok_def ends_ok_def capped_def)
qed

lemma core_states:
  "core_ok b \<Longrightarrow> length ss = length (bt_states b) \<Longrightarrow> core_ok (b\<lparr>bt_states := ss\<rparr>)"
  "core_ok b \<Longrightarrow> core_ok (b\<lparr>bt_signals := sg\<rparr>)"
  by (auto simp: core_ok_def slots_ok_def modes_ok_def ends_ok_def capped_def)

lemma find_attempt_Some: "find_attempt aid b = Some a \<Longrightarrow> a \<in> set (bt_active b)"
  by (auto simp: find_attempt_def find_Some_iff)

text \<open>Where one attempt of several leaves: its slot is free again, the other slots are the same.\<close>

lemma release_slots:
  assumes ok: "slots_ok b" and a: "a \<in> set (bt_active b)"
  shows "distinct (bt_pending b @ map at_index (bt_active (release_attempt (at_id a) b)))"
    and "at_index a \<notin> set (bt_pending b)"
    and "at_index ` set (bt_active (release_attempt (at_id a) b)) = at_index ` set (bt_active b) - {at_index a}"
    and "distinct (map at_id (bt_active (release_attempt (at_id a) b)))"
    and "\<forall>c \<in> set (bt_active (release_attempt (at_id a) b)). at_id c < bt_next_id b"
proof -
  have ids: "inj_on at_id (set (bt_active b))" "inj_on at_index (set (bt_active b))"
    using ok by (simp_all add: slots_ok_def distinct_map)
  show "distinct (bt_pending b @ map at_index (bt_active (release_attempt (at_id a) b)))"
    using ok by (auto simp: slots_ok_def release_attempt_def distinct_map_filter)
  show "at_index a \<notin> set (bt_pending b)"
    using ok a by (auto simp: slots_ok_def)
  show "at_index ` set (bt_active (release_attempt (at_id a) b)) = at_index ` set (bt_active b) - {at_index a}"
    using ids a by (auto simp: release_attempt_def dest: inj_onD)
  show "distinct (map at_id (bt_active (release_attempt (at_id a) b)))"
    using ok by (simp add: slots_ok_def release_attempt_def distinct_map_filter)
  show "\<forall>c \<in> set (bt_active (release_attempt (at_id a) b)). at_id c < bt_next_id b"
    using ok by (simp add: slots_ok_def release_attempt_def)
qed

lemma slots_cover:
  assumes "slots_ok b" "\<not> bt_finished b"
  shows "set (bt_pending b) \<union> at_index ` set (bt_active b) =
    {i. i < length (bt_tasks b) \<and> bt_results b ! i = None}"
proof -
  have "\<not> bt_finished b \<longrightarrow> set (bt_pending b) \<union> at_index ` set (bt_active b) =
      {i. i < length (bt_tasks b) \<and> bt_results b ! i = None}"
    using assms(1) unfolding slots_ok_def by (elim conjE)
  then show ?thesis
    using assms(2) by (rule mp)
qed

lemma attempt_open:
  assumes "core_ok b" "a \<in> set (bt_active b)"
  shows "\<not> bt_finished b" "bt_controller b = None"
proof -
  show fin: "\<not> bt_finished b"
    using assms unfolding core_ok_def modes_ok_def by auto
  then show "bt_controller b = None"
    using assms(1) unfolding core_ok_def modes_ok_def by auto
qed

lemma attempt_slot:
  assumes "core_ok b" "a \<in> set (bt_active b)"
  shows "at_index a < length (bt_tasks b)" "bt_results b ! at_index a = None"
proof -
  have "slots_ok b"
    using assms(1) by (simp add: core_ok_def)
  have "at_index a \<in> set (bt_pending b) \<union> at_index ` set (bt_active b)"
    using assms(2) by simp
  then have "at_index a \<in> {i. i < length (bt_tasks b) \<and> bt_results b ! i = None}"
    by (simp only: slots_cover [OF \<open>slots_ok b\<close> attempt_open(1) [OF assms]])
  then show "at_index a < length (bt_tasks b)" "bt_results b ! at_index a = None"
    by simp_all
qed

lemma release_frame [simp]:
  "bt_tasks (release_attempt i b) = bt_tasks b" "bt_max (release_attempt i b) = bt_max b"
  "bt_states (release_attempt i b) = bt_states b" "bt_pending (release_attempt i b) = bt_pending b"
  "bt_results (release_attempt i b) = bt_results b" "bt_next_id (release_attempt i b) = bt_next_id b"
  "bt_controller (release_attempt i b) = bt_controller b" "bt_started (release_attempt i b) = bt_started b"
  "bt_finished (release_attempt i b) = bt_finished b" "bt_end (release_attempt i b) = bt_end b"
  "bt_rate_mode (release_attempt i b) = bt_rate_mode b" "bt_capacity (release_attempt i b) = bt_capacity b"
  "bt_last_limit (release_attempt i b) = bt_last_limit b" "bt_normal_timer (release_attempt i b) = bt_normal_timer b"
  "bt_rate_timer (release_attempt i b) = bt_rate_timer b"
  "length (bt_active (release_attempt i b)) \<le> length (bt_active b)"
  by (simp_all add: release_attempt_def)

lemma set_result_frame [simp]:
  "bt_tasks (set_result i r b) = bt_tasks b" "bt_max (set_result i r b) = bt_max b"
  "bt_states (set_result i r b) = bt_states b" "bt_pending (set_result i r b) = bt_pending b"
  "bt_results (set_result i r b) = (bt_results b)[i := Some r]" "bt_next_id (set_result i r b) = bt_next_id b"
  "bt_controller (set_result i r b) = bt_controller b" "bt_started (set_result i r b) = bt_started b"
  "bt_finished (set_result i r b) = bt_finished b" "bt_end (set_result i r b) = bt_end b"
  "bt_rate_mode (set_result i r b) = bt_rate_mode b" "bt_capacity (set_result i r b) = bt_capacity b"
  "bt_last_limit (set_result i r b) = bt_last_limit b" "bt_normal_timer (set_result i r b) = bt_normal_timer b"
  "bt_rate_timer (set_result i r b) = bt_rate_timer b" "bt_active (set_result i r b) = bt_active b"
  by (simp_all add: set_result_def)

lemma settle_core:
  assumes ok: "core_ok b" and a: "a \<in> set (bt_active b)" and r: "sr_task r = bt_tasks b ! at_index a"
  shows "core_ok (set_result (at_index a) r (release_attempt (at_id a) b))" (is "core_ok ?c")
proof -
  have slots: "slots_ok b"
    using ok by (simp add: core_ok_def)
  note free = release_slots [OF slots a]
  have len: "length (bt_results b) = length (bt_tasks b)"
    using slots by (simp add: slots_ok_def)
  have here: "at_index a < length (bt_tasks b)"
    by (rule attempt_slot [OF ok a])
  have "set (bt_pending b) \<union> (at_index ` set (bt_active b) - {at_index a}) =
      {i. i < length (bt_tasks b) \<and> bt_results b ! i = None} - {at_index a}"
    using free(2) by (simp add: slots_cover [OF slots attempt_open(1) [OF ok a], symmetric] Un_Diff)
  also have "\<dots> = {i. i < length (bt_tasks b) \<and> (bt_results b)[at_index a := Some r] ! i = None}"
    using len here by (auto simp: nth_list_update split: if_splits)
  finally have cover: "set (bt_pending ?c) \<union> at_index ` set (bt_active ?c) =
      {i. i < length (bt_tasks ?c) \<and> bt_results ?c ! i = None}"
    by (simp add: free(3))
  have "\<forall>i < length (bt_tasks b). \<forall>q. (bt_results b)[at_index a := Some r] ! i = Some q \<longrightarrow> sr_task q = bt_tasks b ! i"
    using slots r len here by (auto simp: slots_ok_def nth_list_update)
  then have "slots_ok ?c"
    using slots free(1,4,5) cover unfolding slots_ok_def set_result_frame release_frame length_list_update
    by (intro conjI) (assumption | blast)+
  moreover have "capped ?c"
    using ok le_trans [OF release_frame(16) [of "at_id a" b]] by (simp add: core_ok_def capped_def)
  moreover have "modes_ok ?c"
    using ok attempt_open [OF ok a] by (auto simp: core_ok_def modes_ok_def)
  ultimately show ?thesis
    using ok by (simp add: core_ok_def ends_ok_def)
qed

lemma requeue_frame [simp]:
  "bt_tasks (requeue_rate_limited delay now a agent b) = bt_tasks b"
  "bt_max (requeue_rate_limited delay now a agent b) = bt_max b"
  "length (bt_states (requeue_rate_limited delay now a agent b)) = length (bt_states b)"
  "bt_results (requeue_rate_limited delay now a agent b) = bt_results b"
  "bt_pending (requeue_rate_limited delay now a agent b) = at_index a # bt_pending b"
  "bt_active (requeue_rate_limited delay now a agent b) = bt_active b"
  "bt_next_id (requeue_rate_limited delay now a agent b) = bt_next_id b"
  "bt_controller (requeue_rate_limited delay now a agent b) = bt_controller b"
  "bt_started (requeue_rate_limited delay now a agent b) = bt_started b"
  "bt_finished (requeue_rate_limited delay now a agent b) = bt_finished b"
  "bt_end (requeue_rate_limited delay now a agent b) = bt_end b"
  "bt_rate_mode (requeue_rate_limited delay now a agent b) = True"
  "bt_last_limit (requeue_rate_limited delay now a agent b) = Some now"
  by (simp_all add: requeue_rate_limited_def Let_def)

lemma requeue_modes:
  "0 < bt_capacity b \<Longrightarrow> 0 < bt_capacity (requeue_rate_limited delay now a agent b)"
  "bt_rate_mode b \<longrightarrow> bt_normal_timer b = None \<Longrightarrow>
   bt_normal_timer (requeue_rate_limited delay now a agent b) = None"
  by (simp_all add: requeue_rate_limited_def Let_def)

lemma requeue_core:
  assumes ok: "core_ok b" and a: "a \<in> set (bt_active b)"
  shows "core_ok (requeue_rate_limited delay now a agent (release_attempt (at_id a) b))" (is "core_ok ?c")
proof -
  have slots: "slots_ok b"
    using ok by (simp add: core_ok_def)
  note free = release_slots [OF slots a]
  have "at_index a \<in> at_index ` set (bt_active b)"
    using a by simp
  then have "set (bt_pending ?c) \<union> at_index ` set (bt_active ?c) = set (bt_pending b) \<union> at_index ` set (bt_active b)"
    by (auto simp: free(3))
  then have cover: "set (bt_pending ?c) \<union> at_index ` set (bt_active ?c) =
      {i. i < length (bt_tasks ?c) \<and> bt_results ?c ! i = None}"
    by (simp only: slots_cover [OF slots attempt_open(1) [OF ok a]] requeue_frame release_frame)
  have "at_index a \<notin> at_index ` set (bt_active (release_attempt (at_id a) b))"
    by (simp add: free(3))
  then have "distinct (bt_pending ?c @ map at_index (bt_active ?c))"
    using free(1,2) by simp
  moreover have "length (bt_states ?c) = length (bt_tasks ?c)" "length (bt_results ?c) = length (bt_tasks ?c)"
      "\<forall>i < length (bt_tasks ?c). \<forall>r. bt_results ?c ! i = Some r \<longrightarrow> sr_task r = bt_tasks ?c ! i"
    using slots by (simp_all add: slots_ok_def)
  moreover have "distinct (map at_id (bt_active ?c))" "\<forall>d \<in> set (bt_active ?c). at_id d < bt_next_id ?c"
    using free(4,5) by simp_all
  ultimately have "slots_ok ?c"
    unfolding slots_ok_def using cover by blast
  moreover have "0 < bt_capacity ?c" "bt_normal_timer ?c = None"
    using ok by (auto simp: core_ok_def modes_ok_def intro!: requeue_modes)
  then have "modes_ok ?c"
    using ok attempt_open [OF ok a] by (auto simp: core_ok_def modes_ok_def)
  moreover have "capped ?c" "ends_ok ?c" "bt_max ?c \<noteq> Some 0"
    using ok by (simp_all add: core_ok_def capped_def ends_ok_def)
  ultimately show ?thesis
    by (simp add: core_ok_def)
qed

lemma attempt_started: "batch_inv b \<Longrightarrow> a \<in> set (bt_active b) \<Longrightarrow> bt_started b"
  by (auto simp: batch_inv_def)

lemma attempt_outcome_task:
  "attempt_outcome b a st = Outcome_Result r \<Longrightarrow> sr_task r = bt_tasks b ! at_index a"
  by (auto simp: attempt_outcome_def failed_attempt_outcome_def Let_def split: settlement.splits if_splits)

lemma handle_outcome_inv:
  assumes inv: "batch_inv b" and a: "a \<in> set (bt_active b)"
    and task: "\<And>r. out = Outcome_Result r \<Longrightarrow> sr_task r = bt_tasks b ! at_index a"
  shows "batch_inv (handle_outcome delay now a out b)"
proof -
  have ok: "core_ok b"
    using inv by (simp add: batch_inv_def)
  have started: "bt_started b"
    using inv a by (rule attempt_started)
  note settled = settle_core [OF ok a]
  show ?thesis
  proof (cases out)
    case (Outcome_Result r)
    then have "handle_outcome delay now a out b = schedule now (set_result (at_index a) r (release_attempt (at_id a) b))"
      using attempt_open(1) [OF ok a] by (simp add: handle_outcome_def Let_def)
    then show ?thesis
      using schedule_inv [OF settled [OF task [OF Outcome_Result]]] started by simp
  next
    case (Outcome_Rate_Limited agent err)
    let ?r = "\<lparr>sr_task = bt_tasks b ! at_index a, sr_agent = Some agent, sr_status = Sub_Failed,
      sr_state = Some Sub_Started, sr_result = None, sr_usage = None, sr_error = Some err\<rparr>"
    have "handle_outcome delay now a out b = schedule now
        (if is_only_unfinished (release_attempt (at_id a) b) (at_index a)
         then set_result (at_index a) ?r (release_attempt (at_id a) b)
         else requeue_rate_limited delay now a agent (release_attempt (at_id a) b))"
      using attempt_open(1) [OF ok a] Outcome_Rate_Limited by (simp add: handle_outcome_def Let_def)
    moreover have "core_ok (set_result (at_index a) ?r (release_attempt (at_id a) b))"
      by (rule settled) simp
    ultimately show ?thesis
      using requeue_core [OF ok a] started by (simp add: schedule_inv)
  qed
qed

lemma handle_attempt_error_inv:
  assumes inv: "batch_inv b" and a: "a \<in> set (bt_active b)"
  shows "batch_inv (handle_attempt_error now a err b)"
proof -
  have ok: "core_ok b"
    using inv by (simp add: batch_inv_def)
  show ?thesis
    using schedule_inv [OF settle_core [OF ok a]] attempt_open(1) [OF ok a] attempt_started [OF inv a]
    by (simp add: handle_attempt_error_def Let_def)
qed

lemma cancellation_tasks:
  assumes "slots_ok b"
  shows "map sr_task (cancellation_results b) = bt_tasks b"
proof (rule nth_equalityI)
  show "length (map sr_task (cancellation_results b)) = length (bt_tasks b)"
    using assms by (simp add: cancellation_results_def slots_ok_def)
  fix i
  assume "i < length (map sr_task (cancellation_results b))"
  then show "map sr_task (cancellation_results b) ! i = bt_tasks b ! i"
    using assms by (auto simp: cancellation_results_def slots_ok_def cancelled_result_def split: option.split)
qed

lemma end_core:
  assumes "core_ok b" "\<not> bt_finished b" "\<forall>rs. e = Resolved rs \<longrightarrow> map sr_task rs = bt_tasks b"
  shows "core_ok (batch_cleanup (b\<lparr>bt_controller := c, bt_finished := True, bt_end := Some e\<rparr>))"
  using assms unfolding batch_cleanup_def core_ok_def slots_ok_def modes_ok_def ends_ok_def capped_def by auto

lemma batch_abort_inv:
  assumes ok: "core_ok b" and started: "bt_started b" and fin: "\<not> bt_finished b"
  shows "batch_inv (batch_abort u b)"
proof -
  let ?c = "case bt_controller b of None \<Rightarrow> Some u | Some r \<Rightarrow> Some r"
  have "cancellation_results (b\<lparr>bt_controller := ?c\<rparr>) = cancellation_results b"
    by (simp add: cancellation_results_def)
  then have run: "batch_abort u b = batch_cleanup (b\<lparr>bt_controller := ?c, bt_finished := True,
      bt_end := Some (if u then Resolved (cancellation_results b) else Batch_Rejected)\<rparr>)"
    using fin by (simp add: batch_abort_def finish_with_user_cancellation_def batch_finish_def batch_fail_def Let_def)
  have "core_ok (batch_abort u b)"
    unfolding run using ok fin cancellation_tasks [of b] by (intro end_core) (auto simp: core_ok_def)
  moreover have "bt_finished (batch_abort u b)" "bt_started (batch_abort u b)"
    unfolding run using started by (simp_all add: batch_cleanup_def)
  ultimately show ?thesis
    by (simp add: batch_inv_def alive_def)
qed

lemma batch_run_inv:
  assumes inv: "batch_inv b"
  shows "batch_inv (batch_run now b)"
proof (cases "bt_started b")
  case False
  let ?b = "b\<lparr>bt_started := True\<rparr>"
  have ok: "core_ok ?b" and fin: "\<not> bt_finished b"
    using inv False by (auto simp: batch_inv_def intro: core_timers)
  show ?thesis
  proof (cases "bt_states b = []")
    case True
    then have "bt_tasks b = []"
      using inv by (simp add: batch_inv_def core_ok_def slots_ok_def)
    then show ?thesis
      using batch_finish_core [OF ok, of "[]"] False True by (simp add: batch_run_def Let_def batch_inv_def alive_def)
  next
    case states: False
    show ?thesis
      using batch_abort_inv [OF ok] schedule_inv [OF ok] False states fin
      by (simp add: batch_run_def Let_def split: option.split)
  qed
qed (use inv in \<open>simp add: batch_run_def\<close>)

lemma core_update_attempt:
  assumes "core_ok b" "\<And>a. at_id (f a) = at_id a \<and> at_index (f a) = at_index a"
  shows "core_ok (update_attempt aid f b)"
  unfolding update_attempt_def by (rule core_attempts) (use assms in simp_all)

text \<open>An event that touches neither the slots nor the timers leaves the batch waiting.\<close>

lemma quiet_inv:
  assumes inv: "batch_inv b" and ok: "core_ok c"
    and same: "bt_started c = bt_started b" "bt_finished c = bt_finished b" "bt_results c = bt_results b"
      "length (bt_active c) = length (bt_active b)" "bt_normal_timer c = bt_normal_timer b"
      "bt_rate_timer c = bt_rate_timer b" "bt_rate_mode c = bt_rate_mode b"
  shows "batch_inv c"
proof -
  have "bt_active c = [] \<longleftrightarrow> bt_active b = []"
    using same(4) by (metis length_0_conv)
  then show ?thesis
    using inv ok unfolding batch_inv_def alive_def waits_def all_done_def same by simp
qed

lemma mark_ready_inv:
  assumes inv: "batch_inv b" and a: "a \<in> set (bt_active b)"
  shows "batch_inv (mark_ready now a b)"
proof -
  define b1 where "b1 = (update_attempt (at_id a) (\<lambda>a. a\<lparr>at_ready := True\<rparr>) b)
      \<lparr>bt_states := (bt_states b)[at_index a := (bt_states b ! at_index a)\<lparr>ts_started := True\<rparr>]\<rparr>"
  have "core_ok (update_attempt (at_id a) (\<lambda>a. a\<lparr>at_ready := True\<rparr>) b)"
    using inv by (intro core_update_attempt) (simp_all add: batch_inv_def)
  then have ok: "core_ok b1"
    unfolding b1_def by (rule core_states) (simp add: update_attempt_def)
  have same: "bt_started b1 = bt_started b" "bt_finished b1 = bt_finished b" "bt_results b1 = bt_results b"
      "length (bt_active b1) = length (bt_active b)" "bt_normal_timer b1 = bt_normal_timer b"
      "bt_rate_timer b1 = bt_rate_timer b" "bt_rate_mode b1 = bt_rate_mode b"
    by (simp_all add: b1_def update_attempt_def)
  have "mark_ready now a b = (if bt_finished b \<or> at_ready a then b
      else if \<not> bt_rate_mode b1 then b1\<lparr>bt_success_count := Suc (bt_success_count b1)\<rparr>
      else schedule now (b1\<lparr>bt_interval := rate_limit_retry_base, bt_next_launch := now + rate_limit_retry_base\<rparr>))"
    by (simp add: mark_ready_def b1_def Let_def)
  moreover have "batch_inv (b1\<lparr>bt_success_count := n\<rparr>)" for n
    by (rule quiet_inv [OF inv core_timers(4) [OF ok]]) (simp_all add: same)
  moreover have "core_ok (b1\<lparr>bt_interval := i, bt_next_launch := n\<rparr>)" for i n
    by (intro core_timers ok)
  then have "batch_inv (schedule now (b1\<lparr>bt_interval := i, bt_next_launch := n\<rparr>))" for i n
    by (rule schedule_inv) (use attempt_started [OF inv a] same in simp)
  ultimately show ?thesis
    using inv by simp
qed

lemma normal_timer_inv:
  assumes inv: "batch_inv b" and timer: "bt_normal_timer b \<noteq> None"
  shows "batch_inv (normal_timer_fires now b)"
proof -
  let ?b = "b\<lparr>bt_normal_timer := None\<rparr>"
  have ok: "core_ok ?b"
    using inv by (intro core_timers) (simp add: batch_inv_def)
  have open': "\<not> bt_finished b" "\<not> bt_rate_mode b" "bt_started b" "bt_controller b = None"
    using inv timer unfolding batch_inv_def core_ok_def modes_ok_def by auto
  have undone: "\<not> all_done ?b"
    using inv open' by (simp add: batch_inv_def alive_def all_done_def)
  have busy: "bt_pending b \<noteq> [] \<or> bt_active b \<noteq> []"
    using not_done_busy [of ?b] ok undone open' by (simp add: core_ok_def)
  show ?thesis
  proof (cases "bt_pending b = [] \<or> at_concurrency_limit ?b")
    case True
    then have "normal_timer_fires now b = ?b"
      by (auto simp: normal_timer_fires_def Let_def)
    moreover have "bt_active b \<noteq> []"
      using True busy ok by (auto simp: at_concurrency_limit_def core_ok_def split: option.splits)
    ultimately show ?thesis
      using ok undone open' by (simp add: batch_inv_def alive_def waits_def)
  next
    case False
    then have "normal_timer_fires now b = schedule now (launch_next ?b)"
      using open' by (simp add: normal_timer_fires_def Let_def)
    moreover have "core_ok (launch_next ?b)"
      using launch_next_core [OF ok] False open' by (simp add: is_open_def)
    ultimately show ?thesis
      using schedule_inv [of "launch_next ?b" now] open' by simp
  qed
qed

lemma signal_inv:
  assumes inv: "batch_inv b"
  shows "batch_inv (batch_step delay b (Ev_Signal sig u))"
proof -
  define b1 where "b1 = b\<lparr>bt_signals := (sig, u) # bt_signals b\<rparr>"
  define f :: "attempt \<Rightarrow> attempt" where "f = (\<lambda>a. if bk_signal (bt_tasks b ! at_index a) = Some sig \<and> at_abort a = None
      then a\<lparr>at_abort := Some u\<rparr> else a)"
  have ok: "core_ok b1"
    unfolding b1_def using inv by (intro core_states) (simp add: batch_inv_def)
  have run: "batch_step delay b (Ev_Signal sig u) =
      (if map_of (bt_signals b) sig \<noteq> None then b
       else if bt_started b \<and> \<not> bt_finished b \<and> batch_signal b = Some sig then batch_abort u b1
       else b1\<lparr>bt_active := map f (bt_active b1)\<rparr>)"
    by (simp add: b1_def f_def Let_def)
  have "core_ok (b1\<lparr>bt_active := map f (bt_active b1)\<rparr>)"
    using ok by (rule core_attempts) (simp add: f_def)
  then have "batch_inv (b1\<lparr>bt_active := map f (bt_active b1)\<rparr>)"
    by (rule quiet_inv [OF inv]) (simp_all add: b1_def)
  moreover have "bt_started b \<and> \<not> bt_finished b \<Longrightarrow> batch_inv (batch_abort u b1)"
    using batch_abort_inv [OF ok] by (simp add: b1_def)
  ultimately show ?thesis
    unfolding run using inv by simp
qed

lemma batch_step_inv:
  assumes inv: "batch_inv b"
  shows "batch_inv (batch_step delay b ev)"
proof -
  have ok: "core_ok b"
    using inv by (simp add: batch_inv_def)
  note found = find_attempt_Some
  show ?thesis
  proof (cases ev)
    case (Ev_Handle aid agent)
    have "batch_inv (b\<lparr>bt_states := ss\<rparr>)" if "length ss = length (bt_states b)" for ss
      by (rule quiet_inv [OF inv core_states(1) [OF ok that]]) simp_all
    then show ?thesis
      using inv by (simp add: Ev_Handle split: option.split)
  next
    case (Ev_Settled now aid st)
    show ?thesis
      using inv found by (auto simp: Ev_Settled split: option.split intro!: handle_outcome_inv dest: attempt_outcome_task)
  next
    case (Ev_Timeout aid)
    let ?f = "\<lambda>a. a\<lparr>at_timed_out := True, at_abort := (case at_abort a of None \<Rightarrow> Some False | Some r \<Rightarrow> Some r)\<rparr>"
    have "core_ok (update_attempt aid ?f b)"
      using ok by (rule core_update_attempt) simp
    then have "batch_inv (update_attempt aid ?f b)"
      by (rule quiet_inv [OF inv]) (simp_all add: update_attempt_def)
    then show ?thesis
      by (simp add: Ev_Timeout)
  next
    case (Ev_Rate_Timer now)
    have "bt_rate_timer b \<noteq> None \<Longrightarrow> bt_started b"
      using inv by (auto simp: batch_inv_def)
    then show ?thesis
      using inv schedule_inv [OF core_timers(5) [OF ok]] by (simp add: Ev_Rate_Timer)
  next
    case (Ev_Signal sig u)
    then show ?thesis
      using signal_inv [OF inv] by simp
  qed (use inv found in \<open>auto split: option.split
      intro: batch_run_inv mark_ready_inv handle_attempt_error_inv normal_timer_inv\<close>)
qed

interpretation batch_machine: machine "batch_step delay" batch_inv
  by unfold_locales (rule batch_step_inv)

subsection \<open>Reachable batches\<close>

definition batch_after :: "(nat \<Rightarrow> int) \<Rightarrow> 'd batch_task list \<Rightarrow> nat option \<Rightarrow> batch_event list \<Rightarrow> 'd batch" where
  "batch_after delay tasks cap evs = foldl (batch_step delay) (batch_init tasks cap) evs"

lemma batch_after_inv: "cap \<noteq> Some 0 \<Longrightarrow> batch_inv (batch_after delay tasks cap evs)"
  unfolding batch_after_def by (rule batch_machine.run_inv) (rule batch_init_inv)

lemma schedule_max: "bt_max (schedule now b) = bt_max b"
proof -
  have "bt_max (normal_ramp b) = bt_max b \<and> \<not> may_ramp (normal_ramp b)"
    by (rule normal_ramp_inv) simp_all
  then have "bt_max (schedule_normal now b) = bt_max b"
    by (simp add: schedule_normal_def Let_def)
  moreover have "bt_max (schedule_rate now b) = bt_max b"
    by (simp add: schedule_rate_def Let_def split: option.split)
  ultimately show ?thesis
    by (simp add: schedule_def)
qed

lemma batch_abort_keeps [simp]:
  "bt_tasks (batch_abort u b) = bt_tasks b" "bt_max (batch_abort u b) = bt_max b"
  by (simp_all add: batch_abort_def finish_with_user_cancellation_def batch_fail_def batch_cleanup_def Let_def)

lemma batch_step_keeps: "bt_tasks (batch_step delay b ev) = bt_tasks b \<and> bt_max (batch_step delay b ev) = bt_max b"
proof (cases ev)
  case (Ev_Settled now aid st)
  then show ?thesis
    by (simp add: handle_outcome_def Let_def schedule_keeps schedule_max split: option.split attempt_outcome.split)
next
  case (Ev_Ready now aid)
  then show ?thesis
    by (simp add: mark_ready_def Let_def schedule_keeps schedule_max update_attempt_def split: option.split)
next
  case (Ev_Run now)
  then show ?thesis
    by (simp add: batch_run_def Let_def schedule_keeps schedule_max split: option.split)
qed (simp_all add: handle_attempt_error_def normal_timer_fires_def update_attempt_def Let_def schedule_keeps
      schedule_max split: option.split)

lemma batch_after_keeps [simp]:
  "bt_tasks (batch_after delay tasks cap evs) = tasks" "bt_max (batch_after delay tasks cap evs) = cap"
proof -
  have "bt_tasks (foldl (batch_step delay) b evs) = bt_tasks b \<and> bt_max (foldl (batch_step delay) b evs) = bt_max b"
    for b :: "'a batch"
    by (induction evs arbitrary: b) (simp_all add: batch_step_keeps)
  then show "bt_tasks (batch_after delay tasks cap evs) = tasks" "bt_max (batch_after delay tasks cap evs) = cap"
    unfolding batch_after_def by (simp_all add: batch_init_def)
qed

lemma ended_step:
  assumes inv: "batch_inv b" and e: "bt_end b = Some e"
  shows "bt_end (batch_step delay b ev) = Some e"
proof -
  have fin: "bt_finished b" "bt_active b = []" "bt_normal_timer b = None" "bt_rate_timer b = None" "bt_started b"
    using inv e unfolding batch_inv_def core_ok_def modes_ok_def by auto
  then have "find_attempt aid b = None" for aid
    by (simp add: find_attempt_def)
  then show ?thesis
    using fin e by (cases ev) (simp_all add: batch_run_def update_attempt_def Let_def)
qed

lemma ended_run: "batch_inv b \<Longrightarrow> bt_end b = Some e \<Longrightarrow> bt_end (foldl (batch_step delay) b evs) = Some e"
  by (induction evs arbitrary: b) (simp_all add: ended_step batch_step_inv)

subsection \<open>Properties\<close>

definition sample_task :: "unit batch_task" where
  "sample_task = \<lparr>bk_data = (), bk_resume = None, bk_timeout = None, bk_signal = Some 0\<rparr>"

text \<open>
  C10: a batch never stalls. After any sequence of events, a batch that was run and has not
  ended still has a task without a result, and an attempt in flight or an armed timer that will
  give it its next event. This holds in the launch ramp, at the concurrency cap and in the
  rate-limit phase with every back-off and capacity recovery.
\<close>

theorem batch_never_stalls:
  assumes "cap \<noteq> Some 0" and "b = batch_after delay tasks cap evs" and "bt_started b" and "\<not> bt_finished b"
  shows "waits b \<and> \<not> all_done b"
  using batch_after_inv [OF assms(1), of delay tasks evs] assms(2-4) by (simp add: batch_inv_def alive_def)

theorem batch_never_stalls_witness:
  "waits (batch_after (\<lambda>n. 3000) [sample_task, sample_task] (Some 2)
     [Ev_Run 0, Ev_Handle 0 ''a'', Ev_Settled 5 0 (Completion_Threw ''limit'' True)])"
  by (rule batch_never_stalls [THEN conjunct1, OF _ refl]) code_simp+

text \<open>
  C28: the results of a batch are one per task and in the order of the tasks, whatever the
  order in which the attempts settled, whether the batch completed or the user cancelled it;
  and once the batch has ended no later event (a late completion, a timer, a signal) changes
  what it returned.
\<close>

theorem batch_results_in_order:
  assumes "cap \<noteq> Some 0" and "bt_end (batch_after delay tasks cap evs) = Some (Resolved rs)"
  shows "map sr_task rs = tasks \<and> bt_end (batch_after delay tasks cap (evs @ late)) = Some (Resolved rs)"
proof
  have inv: "batch_inv (batch_after delay tasks cap evs)"
    using assms(1) by (rule batch_after_inv)
  then show "map sr_task rs = tasks"
    using assms(2) by (simp add: batch_inv_def core_ok_def ends_ok_def)
  show "bt_end (batch_after delay tasks cap (evs @ late)) = Some (Resolved rs)"
    using ended_run [OF inv assms(2)] by (simp add: batch_after_def)
qed

theorem batch_results_in_order_witness:
  "\<exists>rs :: unit sub_result list. map sr_task rs = [sample_task, sample_task\<lparr>bk_resume := Some ''x''\<rparr>] \<and>
     map sr_result rs = [Some ''one'', Some ''two'']"
proof -
  let ?evs = "[Ev_Run 0, Ev_Handle 0 ''a'', Ev_Handle 1 ''b'', Ev_Settled 5 1 (Completion_Returned ''two'' []),
    Ev_Settled 6 0 (Completion_Returned ''one'' [])]"
  let ?tasks = "[sample_task, sample_task\<lparr>bk_resume := Some ''x''\<rparr>]"
  obtain rs where rs: "bt_end (batch_after (\<lambda>n. 0) ?tasks None ?evs) = Some (Resolved rs)"
      "map sr_result rs = [Some ''one'', Some ''two'']"
  proof (rule that)
    show "bt_end (batch_after (\<lambda>n. 0) ?tasks None ?evs) = Some (Resolved
        [\<lparr>sr_task = sample_task, sr_agent = Some ''a'', sr_status = Sub_Completed, sr_state = None,
          sr_result = Some ''one'', sr_usage = Some [], sr_error = None\<rparr>,
         \<lparr>sr_task = sample_task\<lparr>bk_resume := Some ''x''\<rparr>, sr_agent = Some ''b'', sr_status = Sub_Completed,
          sr_state = None, sr_result = Some ''two'', sr_usage = Some [], sr_error = None\<rparr>])"
      by code_simp
  qed simp
  have "map sr_task rs = ?tasks"
    using batch_results_in_order [OF _ rs(1), THEN conjunct1] by simp
  with rs(2) show ?thesis
    by (intro exI [of _ rs] conjI)
qed

text \<open>
  No task is lost and none runs twice. While a batch is open, each task without a result
  is in exactly one place, the queue or one attempt, and a task with a result is in neither;
  the number of attempts never exceeds the configured cap outside the rate-limit phase, and
  the capacity of the rate-limit phase is never zero.
\<close>

theorem batch_slots:
  assumes "cap \<noteq> Some 0" and "b = batch_after delay tasks cap evs" and "\<not> bt_finished b"
  shows "distinct (bt_pending b @ map at_index (bt_active b)) \<and>
    set (bt_pending b @ map at_index (bt_active b)) = {i. i < length tasks \<and> bt_results b ! i = None} \<and>
    (\<forall>c. cap = Some c \<and> \<not> bt_rate_mode b \<longrightarrow> length (bt_active b) \<le> c) \<and> 0 < bt_capacity b"
proof (intro conjI)
  have ok: "core_ok b"
    using batch_after_inv [OF assms(1), of delay tasks evs] assms(2) by (simp add: batch_inv_def)
  have keeps: "bt_tasks b = tasks" "bt_max b = cap"
    using assms(2) by simp_all
  show "distinct (bt_pending b @ map at_index (bt_active b))"
    using ok unfolding core_ok_def slots_ok_def by (elim conjE)
  show "set (bt_pending b @ map at_index (bt_active b)) = {i. i < length tasks \<and> bt_results b ! i = None}"
    using slots_cover [of b] ok assms(3) keeps by (simp add: core_ok_def)
  show "\<forall>c. cap = Some c \<and> \<not> bt_rate_mode b \<longrightarrow> length (bt_active b) \<le> c" "0 < bt_capacity b"
    using ok keeps by (simp_all add: core_ok_def capped_def modes_ok_def)
qed

theorem batch_slots_witness:
  "distinct (bt_pending (batch_after (\<lambda>n. 0) [sample_task, sample_task, sample_task] (Some 2) [Ev_Run 0]))"
proof -
  have fin: "\<not> bt_finished (batch_after (\<lambda>n. 0) [sample_task, sample_task, sample_task] (Some 2) [Ev_Run 0])"
    by code_simp
  show ?thesis
    using batch_slots [OF _ refl fin, THEN conjunct1] by simp
qed

text \<open>
  When the user cancels, the batch ends at once with every finished task's own result kept
  and every other task aborted, marked started exactly where its subagent was handed out or
  reported ready, and no attempt and no timer is kept.
\<close>

theorem batch_user_cancellation:
  assumes "cap \<noteq> Some 0" and "b = batch_after delay tasks cap evs" and "\<not> bt_finished b"
  shows "\<exists>rs. bt_end (batch_abort True b) = Some (Resolved rs) \<and> length rs = length tasks \<and>
    (\<forall>i < length tasks. case bt_results b ! i of
       Some r \<Rightarrow> rs ! i = r
     | None \<Rightarrow> sr_status (rs ! i) = Sub_Aborted \<and> sr_task (rs ! i) = tasks ! i \<and>
         (sr_state (rs ! i) = Some Sub_Started \<longleftrightarrow>
            ts_started (bt_states b ! i) \<or> ts_agent (bt_states b ! i) \<noteq> None)) \<and>
    bt_active (batch_abort True b) = [] \<and> bt_normal_timer (batch_abort True b) = None \<and>
    bt_rate_timer (batch_abort True b) = None"
proof (intro exI conjI)
  have slots: "slots_ok b"
    using batch_after_inv [OF assms(1), of delay tasks evs] assms(2) by (simp add: batch_inv_def core_ok_def)
  then have len: "length (bt_states b) = length tasks" "length (bt_results b) = length tasks" "bt_tasks b = tasks"
    using assms(2) by (simp_all add: slots_ok_def)
  have keep: "cancellation_results (b\<lparr>bt_controller := c\<rparr>) = cancellation_results b" for c
    by (simp add: cancellation_results_def)
  show "bt_end (batch_abort True b) = Some (Resolved (cancellation_results b))"
      "bt_active (batch_abort True b) = []" "bt_normal_timer (batch_abort True b) = None"
      "bt_rate_timer (batch_abort True b) = None"
    using assms(3) by (simp_all add: batch_abort_def finish_with_user_cancellation_def batch_finish_def
      batch_cleanup_def keep Let_def)
  show "length (cancellation_results b) = length tasks"
    by (simp add: cancellation_results_def len)
  show "\<forall>i < length tasks. case bt_results b ! i of
       Some r \<Rightarrow> cancellation_results b ! i = r
     | None \<Rightarrow> sr_status (cancellation_results b ! i) = Sub_Aborted \<and>
         sr_task (cancellation_results b ! i) = tasks ! i \<and>
         (sr_state (cancellation_results b ! i) = Some Sub_Started \<longleftrightarrow>
            ts_started (bt_states b ! i) \<or> ts_agent (bt_states b ! i) \<noteq> None)"
    by (auto simp: cancellation_results_def cancelled_result_def len split: option.split)
qed

theorem batch_user_cancellation_witness:
  "\<exists>rs. bt_end (batch_abort True (batch_after (\<lambda>n. 0) [sample_task, sample_task] (Some 1)
     [Ev_Run 0, Ev_Handle 0 ''a''])) = Some (Resolved rs) \<and>
     sr_state (rs ! 0) = Some Sub_Started \<and> sr_state (rs ! 1) \<noteq> Some Sub_Started"
proof -
  let ?b = "batch_after (\<lambda>n. 0) [sample_task, sample_task] (Some 1) [Ev_Run 0, Ev_Handle 0 ''a'']"
  have cap: "Some (1::nat) \<noteq> Some 0"
    by simp
  have fin: "\<not> bt_finished ?b"
    by code_simp
  obtain rs where e: "bt_end (batch_abort True ?b) = Some (Resolved rs)" and
      all: "\<forall>i < length [sample_task, sample_task]. case bt_results ?b ! i of
       Some r \<Rightarrow> rs ! i = r
     | None \<Rightarrow> sr_status (rs ! i) = Sub_Aborted \<and> sr_task (rs ! i) = [sample_task, sample_task] ! i \<and>
         (sr_state (rs ! i) = Some Sub_Started \<longleftrightarrow>
            ts_started (bt_states ?b ! i) \<or> ts_agent (bt_states ?b ! i) \<noteq> None)"
    using batch_user_cancellation [OF cap refl fin] by (elim exE conjE) (rule that)
  have facts: "bt_results ?b ! 0 = None" "bt_results ?b ! 1 = None" "ts_agent (bt_states ?b ! 0) = Some ''a''"
      "ts_agent (bt_states ?b ! 1) = None" "\<not> ts_started (bt_states ?b ! 1)"
    by code_simp+
  have "sr_state (rs ! 0) = Some Sub_Started"
    using all [rule_format, of 0] by (simp only: facts) simp
  moreover have "sr_state (rs ! 1) \<noteq> Some Sub_Started"
    using all [rule_format, of 1] by (simp only: facts) simp
  ultimately show ?thesis
    using e by blast
qed

text \<open>
  The rate-limit phase is throttled. One call of its scheduler starts at most one attempt,
  only while the attempts in flight are fewer than the capacity, only of the first queued task
  whose own back-off has passed, and only once the launch interval has passed, unless that very
  call gained a slot by the recovery of the capacity.
\<close>

theorem schedule_rate_throttled:
  assumes "bt_last_limit b \<noteq> None"
  shows "bt_active (schedule_rate now b) = bt_active b \<or>
    (\<exists>a k. bt_active (schedule_rate now b) = bt_active b @ [a] \<and>
       length (bt_active (schedule_rate now b)) \<le> bt_capacity (schedule_rate now b) \<and>
       find_index (\<lambda>i. ts_ready_at (bt_states b ! i) \<le> now) (bt_pending b) = Some k \<and>
       at_index a = bt_pending b ! k \<and>
       (bt_next_launch b \<le> now \<or> bt_capacity (schedule_rate now b) = Suc (bt_capacity b)))"
proof -
  define b1 where "b1 = recover_capacity now (b\<lparr>bt_rate_timer := None\<rparr>)"
  have fields: "bt_active b1 = bt_active b" "bt_pending b1 = bt_pending b" "bt_states b1 = bt_states b"
    by (simp_all add: b1_def)
  let ?ready = "\<lambda>i. ts_ready_at (bt_states b ! i) \<le> now"
  let ?bp = "\<lambda>k. b1\<lparr>bt_pending := take k (bt_pending b1) @ drop (Suc k) (bt_pending b1)\<rparr>"
  let ?b2 = "\<lambda>k. start_attempt (bt_pending b1 ! k) (?bp k)"
  let ?wake = "time_min (time_max (bt_next_launch b1) (next_pending_ready_at b1)) (next_recovery_at b1)"
  have run: "schedule_rate now b =
      (if bt_pending (b\<lparr>bt_rate_timer := None\<rparr>) = [] then b\<lparr>bt_rate_timer := None\<rparr>
       else if length (bt_active b1) \<ge> bt_capacity b1 then schedule_wakeup (next_recovery_at b1) now b1
       else if later_than ?wake now then schedule_wakeup ?wake now b1
       else case find_index (\<lambda>i. ts_ready_at (bt_states b1 ! i) \<le> now) (bt_pending b1) of None \<Rightarrow> b1
       | Some k \<Rightarrow> schedule_next_wakeup now ((?b2 k)\<lparr>bt_next_launch := now + bt_interval (?b2 k)\<rparr>))"
    unfolding schedule_rate_def Let_def b1_def by (rule refl)
  show ?thesis
  proof (cases "bt_pending (b\<lparr>bt_rate_timer := None\<rparr>) = [] \<or> length (bt_active b1) \<ge> bt_capacity b1 \<or>
      later_than ?wake now")
    case True
    then have "bt_active (schedule_rate now b) = bt_active b"
      unfolding run by (auto simp: fields)
    then show ?thesis ..
  next
    case False
    then have go: "schedule_rate now b = (case find_index ?ready (bt_pending b) of None \<Rightarrow> b1
       | Some k \<Rightarrow> schedule_next_wakeup now ((?b2 k)\<lparr>bt_next_launch := now + bt_interval (?b2 k)\<rparr>))"
      unfolding run by (simp only: de_Morgan_disj if_False fields)
    obtain rec where "next_recovery_at b1 = Some rec" "now < rec"
      using recovery_later [of "b\<lparr>bt_rate_timer := None\<rparr>" now] False assms by (auto simp: b1_def)
    then have "bt_next_launch b1 \<le> now"
      using False by (auto simp: later_than_def time_min_def time_max_def split: option.splits)
    then have paced: "bt_next_launch b \<le> now \<or> bt_capacity b1 = Suc (bt_capacity b)"
      by (auto simp: b1_def recover_capacity_def split: if_splits)
    show ?thesis
    proof (cases "find_index ?ready (bt_pending b)")
      case None
      then show ?thesis
        by (simp add: go fields)
    next
      case (Some k)
      have cap: "bt_capacity (schedule_rate now b) = bt_capacity b1"
          "bt_active (schedule_rate now b) = bt_active (?b2 k)"
        by (simp_all add: go Some)
      consider "bt_active (?b2 k) = bt_active b"
        | a where "bt_active (?b2 k) = bt_active b @ [a]" "at_index a = bt_pending b ! k"
        using start_attempt_active [of "bt_pending b1 ! k" "?bp k"] by (auto simp: fields)
      then show ?thesis
        using Some False paced by cases (auto simp: cap fields)
    qed
  qed
qed

theorem schedule_rate_throttled_witness:
  "\<exists>b :: unit batch. bt_active (schedule_rate 5 b) \<noteq> bt_active b \<and>
     length (bt_active (schedule_rate 5 b)) \<le> bt_capacity (schedule_rate 5 b)"
proof -
  let ?b = "(batch_init [sample_task] None)\<lparr>bt_started := True, bt_rate_mode := True, bt_last_limit := Some 0\<rparr>"
  have "bt_last_limit ?b \<noteq> None" "bt_active (schedule_rate 5 ?b) \<noteq> bt_active ?b"
    by code_simp+
  then have "length (bt_active (schedule_rate 5 ?b)) \<le> bt_capacity (schedule_rate 5 ?b)"
    using schedule_rate_throttled [of ?b 5] by blast
  then show ?thesis
    using \<open>bt_active (schedule_rate 5 ?b) \<noteq> bt_active ?b\<close> by (intro exI conjI)
qed

end
