(* ===== verification/Turn_Loop.thy ===== *)
theory Turn_Loop
  imports Tool_Call
begin

text \<open>
  The loop of one agent turn: \<open>packages/agent-core/src/loop/run-turn.ts\<close> (steps until the model
  stops), \<open>turn-step.ts\<close> (one provider call with its tools) and \<open>retry.ts\<close> (attempts of one
  provider call). The tools of a step run by \<open>run_tool_call_batch\<close> of \<open>Tool_Call\<close>.

  What the loop calls is an argument, indexed by the number of the step: the hooks, the message
  builder, the provider, the host's usage recorder, the delays of the npm package \<open>retry\<close>. The
  abort signal changes while the turn runs, so each place that reads it reads
  \<open>te_aborted place\<close>. Event dispatch is taken not to throw, and logging is left out. A turn
  without a step limit may never end, so the loop is a partial function and \<open>None\<close> means that
  it does not return.
\<close>

subsection \<open>Values\<close>

record token_usage =
  tu_input_other :: int
  tu_output :: int
  tu_cache_read :: int
  tu_cache_creation :: int

definition empty_usage :: token_usage where
  "empty_usage = \<lparr>tu_input_other = 0, tu_output = 0, tu_cache_read = 0, tu_cache_creation = 0\<rparr>"

definition add_usage :: "token_usage \<Rightarrow> token_usage \<Rightarrow> token_usage" where
  "add_usage a b = \<lparr>tu_input_other = tu_input_other a + tu_input_other b, tu_output = tu_output a + tu_output b,
     tu_cache_read = tu_cache_read a + tu_cache_read b,
     tu_cache_creation = tu_cache_creation a + tu_cache_creation b\<rparr>"

text \<open>A thrown value: its name is the type when it is not an \<open>Error\<close>.\<close>

record loop_error =
  le_instance :: bool
  le_name :: string
  le_message :: string
  le_status :: "int option"
  le_max_steps :: bool

definition is_abort_error :: "loop_error \<Rightarrow> bool" where
  "is_abort_error e \<longleftrightarrow> le_instance e \<and> le_name e = ''AbortError''"

definition max_steps_error :: "int \<Rightarrow> loop_error" where
  "max_steps_error m = \<lparr>le_instance = True, le_name = ''KimiError'',
     le_message = ''Turn exceeded maxSteps='' @ nat_to_string (nat m) @
       ''. If max_steps_per_turn is too small, raise it in config.toml (loop_control.max_steps_per_turn), '' @
       ''or run \"/update-config\" to update it, then \"/reload\".'',
     le_status = None, le_max_steps = True\<rparr>"

definition plain_loop_error :: "string \<Rightarrow> loop_error" where
  "plain_loop_error msg = \<lparr>le_instance = True, le_name = ''Error'', le_message = msg, le_status = None,
     le_max_steps = False\<rparr>"

datatype step_stop = End_Turn | Max_Tokens | Tool_Use | Filtered | Paused | Unknown_Stop

datatype turn_stop = Stopped step_stop | Turn_Aborted

datatype finish_reason =
  Fin_Completed | Fin_Tool_Calls | Fin_Truncated | Fin_Filtered | Fin_Paused | Fin_Other

record llm_response =
  lr_tool_calls :: "tool_call list"
  lr_finish :: "finish_reason option"
  lr_raw_finish :: "string option"
  lr_usage :: token_usage
  lr_timing :: "(int \<times> int) option"

datatype interrupt_reason = Int_Aborted | Int_Max_Steps | Int_Error

datatype stream_event =
    Text_Delta string
  | Thinking_Delta string
  | Call_Delta string "string option" "string option"
  | Content_Part string

datatype 'j turn_event =
    Step_Begin nat
  | Step_Stream nat stream_event
  | Step_Retrying nat nat nat int int string string "int option"
  | Step_Tool nat "'j loop_event"
  | Step_End nat token_usage step_stop "finish_reason option" "string option" "int option" "int option"
  | Turn_Interrupted interrupt_reason nat "nat option" "string option"

text \<open>The places where the loop reads the signal, with the number of the step (and of the attempt).\<close>

datatype turn_read =
    At_Loop nat
  | After_Before_Hook nat
  | After_Messages nat
  | Before_Retry nat nat
  | At_Sleep nat nat
  | During_Sleep nat nat
  | After_Tools nat
  | At_Catch

record before_result =
  br_block :: "bool option"
  br_reason :: "string option"

record ('j, 'm) turn_env =
  te_before :: "(nat \<Rightarrow> loop_error + before_result option) option"
  te_build :: "nat \<Rightarrow> loop_error + 'm"
  te_chat :: "nat \<Rightarrow> nat \<Rightarrow> 'm \<Rightarrow> stream_event list \<times> (loop_error + llm_response)"
  te_retryable :: "(loop_error \<Rightarrow> bool) option"
  te_max_attempts :: "int option"
  te_delays :: "nat \<Rightarrow> int \<Rightarrow> int list"
  te_record :: "(nat \<Rightarrow> token_usage \<Rightarrow> loop_error + bool option) option"
  te_step_context :: "nat \<Rightarrow> 'j step_context"
  te_after :: "(nat \<Rightarrow> token_usage \<Rightarrow> step_stop \<Rightarrow> loop_error + bool option) option"
  te_continue :: "(nat \<Rightarrow> token_usage \<Rightarrow> step_stop \<Rightarrow> loop_error + bool option) option"
  te_aborted :: "turn_read \<Rightarrow> bool"
  te_reason :: loop_error
  te_max_steps :: "int option"

record 'j turn_state =
  tl_usage :: token_usage
  tl_events :: "'j turn_event list"

text \<open>Running on after a statement that may throw.\<close>

definition and_then :: "'s \<times> ('e + 'a) \<Rightarrow> ('s \<Rightarrow> 'a \<Rightarrow> 's \<times> ('e + 'b)) \<Rightarrow> 's \<times> ('e + 'b)" where
  "and_then r k = (case r of (s, Inl e) \<Rightarrow> (s, Inl e) | (s, Inr a) \<Rightarrow> k s a)"

definition emit :: "'j turn_event list \<Rightarrow> 'j turn_state \<Rightarrow> 'j turn_state" where
  "emit evs s = s\<lparr>tl_events := tl_events s @ evs\<rparr>"

definition throw_if_aborted ::
  "('j, 'm) turn_env \<Rightarrow> turn_read \<Rightarrow> 'j turn_state \<Rightarrow> 'j turn_state \<times> (loop_error + unit)" where
  "throw_if_aborted env place s = (s, if te_aborted env place then Inl (te_reason env) else Inr ())"

subsection \<open>One provider call with its attempts\<close>

definition default_max_attempts :: int where
  "default_max_attempts = 3"

definition chat_attempt ::
  "('j, 'm) turn_env \<Rightarrow> nat \<Rightarrow> 'm \<Rightarrow> nat \<Rightarrow> 'j turn_state \<Rightarrow> 'j turn_state \<times> (loop_error + llm_response)" where
  "chat_attempt env n msgs attempt s =
     (let (streamed, r) = te_chat env n attempt msgs in (emit (map (Step_Stream n) streamed) s, r))"

text \<open>
  \<open>abortable\<close> rejects with the reason of the signal, or with a new abort error where the reason is
  not an \<open>Error\<close> or is the default one.
\<close>

definition abort_error :: loop_error where
  "abort_error = \<lparr>le_instance = True, le_name = ''AbortError'', le_message = ''Aborted'', le_status = None,
     le_max_steps = False\<rparr>"

definition abort_reason :: "('j, 'm) turn_env \<Rightarrow> loop_error" where
  "abort_reason env =
     (if le_instance (te_reason env) \<and>
         \<not> (le_name (te_reason env) = ''AbortError'' \<and> le_message (te_reason env) = ''This operation was aborted'')
      then te_reason env else abort_error)"

definition sleep_for_retry ::
  "('j, 'm) turn_env \<Rightarrow> nat \<Rightarrow> nat \<Rightarrow> 'j turn_state \<Rightarrow> 'j turn_state \<times> (loop_error + unit)" where
  "sleep_for_retry env n attempt s =
     and_then (throw_if_aborted env (At_Sleep n attempt) s)
       (\<lambda>s _. (s, if te_aborted env (During_Sleep n attempt) then Inl (abort_reason env) else Inr ()))"

function retry_loop ::
  "('j, 'm) turn_env \<Rightarrow> nat \<Rightarrow> 'm \<Rightarrow> (loop_error \<Rightarrow> bool) \<Rightarrow> int \<Rightarrow> nat \<Rightarrow> 'j turn_state \<Rightarrow>
   'j turn_state \<times> (loop_error + llm_response)" where
  "retry_loop env n msgs retryable limit attempt s =
     (let (s1, r) = chat_attempt env n msgs attempt s in
      case r of
        Inr resp \<Rightarrow> (s1, Inr resp)
      | Inl e \<Rightarrow>
          if int attempt \<ge> limit \<or> \<not> retryable e then (s1, Inl e)
          else
            let delay = (let ds = te_delays env n limit in if attempt - 1 < length ds then ds ! (attempt - 1) else 0)
            in and_then (throw_if_aborted env (Before_Retry n attempt) s1)
                (\<lambda>s2 _. and_then
                   (sleep_for_retry env n attempt
                     (emit [Step_Retrying n attempt (Suc attempt) limit delay (le_name e) (le_message e) (le_status e)] s2))
                   (\<lambda>s3 _. retry_loop env n msgs retryable limit (Suc attempt) s3)))"
  by pat_completeness auto
termination
  by (relation "measure (\<lambda>(env, n, msgs, rt, limit, attempt, s). nat (limit - int attempt))") auto

declare retry_loop.simps [simp del]

definition chat_with_retry ::
  "('j, 'm) turn_env \<Rightarrow> nat \<Rightarrow> 'm \<Rightarrow> 'j turn_state \<Rightarrow> 'j turn_state \<times> (loop_error + llm_response)" where
  "chat_with_retry env n msgs s =
     (let limit = opt_or (te_max_attempts env) default_max_attempts in
      case te_retryable env of
        None \<Rightarrow> chat_attempt env n msgs 1 s
      | Some retryable \<Rightarrow>
          if limit \<le> 1 then chat_attempt env n msgs 1 s
          else retry_loop env n msgs retryable limit 1 s)"

subsection \<open>One step\<close>

definition derive_step_stop_reason :: "llm_response \<Rightarrow> step_stop" where
  "derive_step_stop_reason r =
     (case lr_finish r of
        Some Fin_Truncated \<Rightarrow> Max_Tokens
      | Some Fin_Filtered \<Rightarrow> Filtered
      | Some Fin_Paused \<Rightarrow> Paused
      | Some Fin_Other \<Rightarrow> Unknown_Stop
      | Some Fin_Completed \<Rightarrow> (if length (lr_tool_calls r) > 0 then Tool_Use else End_Turn)
      | None \<Rightarrow> (if length (lr_tool_calls r) > 0 then Tool_Use else End_Turn)
      | Some Fin_Tool_Calls \<Rightarrow> (if length (lr_tool_calls r) > 0 then Tool_Use else Unknown_Stop))"

definition step_end_diagnostics ::
  "llm_response \<Rightarrow> step_stop \<Rightarrow> finish_reason option \<times> string option" where
  "step_end_diagnostics r stop =
     (if lr_finish r = Some Fin_Completed \<and> stop = End_Turn \<or> lr_finish r = Some Fin_Tool_Calls \<and> stop = Tool_Use
      then (None, None) else (lr_finish r, lr_raw_finish r))"

definition run_before_hook ::
  "('j, 'm) turn_env \<Rightarrow> nat \<Rightarrow> 'j turn_state \<Rightarrow> 'j turn_state \<times> (loop_error + unit)" where
  "run_before_hook env n s =
     (case te_before env of
        None \<Rightarrow> (s, Inr ())
      | Some hook \<Rightarrow>
          (s, case hook n of
                Inl e \<Rightarrow> Inl e
              | Inr None \<Rightarrow> Inr ()
              | Inr (Some b) \<Rightarrow>
                  if br_block b = Some True
                  then Inl (plain_loop_error (opt_or (br_reason b) (''Step '' @ nat_to_string n @ '' was blocked'')))
                  else Inr ()))"

text \<open>\<open>recordStepUsage\<close> of the turn: the usage is added before the host is told.\<close>

definition record_step_usage ::
  "('j, 'm) turn_env \<Rightarrow> nat \<Rightarrow> token_usage \<Rightarrow> 'j turn_state \<Rightarrow> 'j turn_state \<times> (loop_error + bool option)" where
  "record_step_usage env n u s =
     (s\<lparr>tl_usage := add_usage (tl_usage s) u\<rparr>,
      case te_record env of None \<Rightarrow> Inr None | Some host \<Rightarrow> host n u)"

definition after_hook_stops :: "('j, 'm) turn_env \<Rightarrow> nat \<Rightarrow> token_usage \<Rightarrow> step_stop \<Rightarrow> bool" where
  "after_hook_stops env n u stop =
     (case te_after env of
        None \<Rightarrow> False
      | Some hook \<Rightarrow> (case hook n u stop of Inl e \<Rightarrow> False | Inr r \<Rightarrow> r = Some True))"

text \<open>The part of a step after the provider has answered.\<close>

definition finish_step ::
  "('j, 'm) turn_env \<Rightarrow> nat \<Rightarrow> llm_response \<Rightarrow> 'j turn_state \<Rightarrow>
   'j turn_state \<times> (loop_error + token_usage \<times> step_stop)" where
  "finish_step env n resp s =
     and_then (record_step_usage env n (lr_usage resp) s) (\<lambda>s1 res.
       let stop_usage = (res = Some True);
           reason = derive_step_stop_reason resp;
           eff0 = (if stop_usage \<and> reason = Tool_Use then End_Turn else reason);
           (s2, eff) =
             (if eff0 = Tool_Use
              then let (evs, stop_turn) = run_tool_call_batch (te_step_context env n) (lr_tool_calls resp)
                   in (emit (map (Step_Tool n) evs) s1, if stop_turn then End_Turn else eff0)
              else (s1, eff0))
       in and_then (throw_if_aborted env (After_Tools n) s2) (\<lambda>s3 _.
            let (fin, raw) = step_end_diagnostics resp eff;
                s4 = emit [Step_End n (lr_usage resp) eff fin raw
                             (map_option fst (lr_timing resp)) (map_option snd (lr_timing resp))] s3;
                stop_step = stop_usage \<or> after_hook_stops env n (lr_usage resp) eff
            in (s4, Inr (lr_usage resp, if stop_step \<and> eff = Tool_Use then End_Turn else eff))))"

definition execute_loop_step ::
  "('j, 'm) turn_env \<Rightarrow> nat \<Rightarrow> 'j turn_state \<Rightarrow> 'j turn_state \<times> (loop_error + token_usage \<times> step_stop)" where
  "execute_loop_step env n s =
     and_then (run_before_hook env n s) (\<lambda>s1 _.
     and_then (throw_if_aborted env (After_Before_Hook n) s1) (\<lambda>s2 _.
     and_then (s2, te_build env n) (\<lambda>s3 msgs.
     and_then (throw_if_aborted env (After_Messages n) s3) (\<lambda>s4 _.
     and_then (chat_with_retry env n msgs (emit [Step_Begin n] s4)) (\<lambda>s5 resp.
     finish_step env n resp s5)))))"

subsection \<open>The turn\<close>

text \<open>
  The body of \<open>try\<close>: the state, the number of steps, the step that was active and what the body
  ends with.
\<close>

partial_function (option) turn_loop ::
  "('j, 'm) turn_env \<Rightarrow> nat \<Rightarrow> 'j turn_state \<Rightarrow>
   ('j turn_state \<times> nat \<times> nat option \<times> (loop_error + step_stop)) option" where
  "turn_loop env steps s =
     (if te_aborted env (At_Loop steps) then Some (s, steps, None, Inl (te_reason env))
      else if (case te_max_steps env of None \<Rightarrow> False | Some m \<Rightarrow> m > 0 \<and> int steps \<ge> m)
      then Some (s, steps, None, Inl (max_steps_error (the (te_max_steps env))))
      else
        let n = Suc steps; (s1, r) = execute_loop_step env n s in
        case r of
          Inl e \<Rightarrow> Some (s1, n, Some n, Inl e)
        | Inr (u, stop) \<Rightarrow>
            if stop = Tool_Use then turn_loop env n s1
            else case te_continue env of
              None \<Rightarrow> Some (s1, n, None, Inr stop)
            | Some hook \<Rightarrow>
                (case hook n u stop of
                   Inl e \<Rightarrow> Some (s1, n, None, Inl e)
                 | Inr c \<Rightarrow> if c = Some True then turn_loop env n s1 else Some (s1, n, None, Inr stop)))"

declare turn_loop.simps [code]

definition initial_turn :: "'j turn_state" where
  "initial_turn = \<lparr>tl_usage = empty_usage, tl_events = []\<rparr>"

definition run_turn ::
  "('j, 'm) turn_env \<Rightarrow> ('j turn_event list \<times> (loop_error + turn_stop \<times> nat \<times> token_usage)) option" where
  "run_turn env =
     map_option (\<lambda>(s, steps, active, r).
       case r of
         Inr stop \<Rightarrow> (tl_events s, Inr (Stopped stop, steps, tl_usage s))
       | Inl e \<Rightarrow>
           if is_abort_error e \<or> te_aborted env At_Catch
           then (tl_events s @ [Turn_Interrupted Int_Aborted steps active None],
                 Inr (Turn_Aborted, steps, tl_usage s))
           else (tl_events s @ [Turn_Interrupted (if le_max_steps e then Int_Max_Steps else Int_Error)
                                  steps active (Some (le_message e))], Inl e))
       (turn_loop env 0 initial_turn)"

subsection \<open>What a step records\<close>

lemma and_then_simps [simp]:
  "and_then (s, Inl e) k = (s, Inl e)" "and_then (s, Inr a) k = k s a"
  by (simp_all add: and_then_def)

lemma and_then_Inr:
  "and_then r k = (s', Inr b) \<longleftrightarrow> (\<exists>s a. r = (s, Inr a) \<and> k s a = (s', Inr b))"
  by (cases r; cases "snd r") (auto simp: and_then_def)

lemma and_then_Inl:
  "and_then r k = (s', Inl e) \<longleftrightarrow> r = (s', Inl e) \<or> (\<exists>s a. r = (s, Inr a) \<and> k s a = (s', Inl e))"
  by (cases r; cases "snd r") (auto simp: and_then_def)

lemma emit_simps [simp]:
  "tl_events (emit evs s) = tl_events s @ evs" "tl_usage (emit evs s) = tl_usage s"
  by (simp_all add: emit_def)

fun is_chat_event :: "nat \<Rightarrow> 'j turn_event \<Rightarrow> bool" where
  "is_chat_event n (Step_Stream m _) = (m = n)"
| "is_chat_event n (Step_Retrying m _ _ _ _ _ _ _) = (m = n)"
| "is_chat_event n _ = False"

text \<open>A statement that adds only events of the provider call and leaves the usage alone.\<close>

definition chats :: "nat \<Rightarrow> 'j turn_state \<Rightarrow> 'j turn_state \<Rightarrow> bool" where
  "chats n s s' \<longleftrightarrow> tl_usage s' = tl_usage s \<and>
     (\<exists>evs. tl_events s' = tl_events s @ evs \<and> list_all (is_chat_event n) evs)"

lemma chats_refl [simp]: "chats n s s"
  by (simp add: chats_def)

lemma chats_trans: "chats n s t \<Longrightarrow> chats n t u \<Longrightarrow> chats n s u"
  by (auto simp: chats_def)

lemma chats_emit: "list_all (is_chat_event n) evs \<Longrightarrow> chats n s (emit evs s)"
  by (auto simp: chats_def)

lemma chat_attempt_chats: "chat_attempt env n msgs k s = (s', r) \<Longrightarrow> chats n s s'"
  by (auto simp: chat_attempt_def Let_def list_all_length split: prod.splits intro!: chats_emit)

lemma throw_if_aborted_state: "fst (throw_if_aborted env place s) = s"
  by (simp add: throw_if_aborted_def)

lemma sleep_for_retry_state: "fst (sleep_for_retry env n k s) = s"
  by (simp add: sleep_for_retry_def throw_if_aborted_def)

text \<open>
  A failed attempt that is not the last either stops at the signal or goes on to the next
  attempt in a state with only provider events more.
\<close>

lemma retry_loop_cases:
  assumes "retry_loop env n msgs retryable limit k s = (s', r)"
  obtains (answered) resp where "snd (te_chat env n k msgs) = Inr resp" "r = Inr resp" "chats n s s'"
  | (gave_up) e where "snd (te_chat env n k msgs) = Inl e" "r = Inl e" "chats n s s'"
      "int k \<ge> limit \<or> \<not> retryable e"
  | (stopped) e where "snd (te_chat env n k msgs) = Inl e" "retryable e" "int k < limit" "chats n s s'"
      "r = Inl (te_reason env) \<or> r = Inl (abort_reason env)"
  | (again) e s1 where "snd (te_chat env n k msgs) = Inl e" "retryable e" "int k < limit" "chats n s s1"
      "retry_loop env n msgs retryable limit (Suc k) s1 = (s', r)"
proof -
  obtain s1 q where q: "chat_attempt env n msgs k s = (s1, q)"
    by (cases "chat_attempt env n msgs k s") auto
  then have first: "chats n s s1" "snd (te_chat env n k msgs) = q"
    by (auto simp: chat_attempt_chats chat_attempt_def Let_def split: prod.splits)
  show thesis
  proof (cases q)
    case (Inr resp)
    then have "r = Inr resp" "s' = s1"
      using assms q by (subst (asm) retry_loop.simps; simp)+
    then show thesis
      using first Inr by (intro answered) auto
  next
    case (Inl e)
    show thesis
    proof (cases "int k \<ge> limit \<or> \<not> retryable e")
      case True
      then have "r = Inl e" "s' = s1"
        using assms q Inl by (subst (asm) retry_loop.simps; simp)+
      then show thesis
        using first Inl True by (intro gave_up) auto
    next
      case False
      let ?ds = "te_delays env n limit"
      let ?s2 = "emit [Step_Retrying n k (Suc k) limit (if k - 1 < length ?ds then ?ds ! (k - 1) else 0)
        (le_name e) (le_message e) (le_status e)] s1"
      have "chats n s ?s2"
        by (rule chats_trans [OF first(1) chats_emit]) simp
      then show thesis
        using assms q first Inl False stopped again [of e ?s2]
        by (subst (asm) retry_loop.simps) (simp add: throw_if_aborted_def sleep_for_retry_def Let_def split: if_splits)
    qed
  qed
qed

lemma retry_loop_chats: "retry_loop env n msgs retryable limit k s = (s', r) \<Longrightarrow> chats n s s'"
proof (induction "nat (limit - int k)" arbitrary: k s rule: less_induct)
  case less
  from less.prems show ?case
  proof (cases rule: retry_loop_cases)
    case (again e s1)
    have "chats n s1 s'"
      using again(3) by (intro less.hyps [OF _ again(5)]) simp
    with again(4) show ?thesis
      by (rule chats_trans)
  qed auto
qed

lemma chat_with_retry_chats: "chat_with_retry env n msgs s = (s', r) \<Longrightarrow> chats n s s'"
  by (auto simp: chat_with_retry_def Let_def split: option.splits if_splits
      dest: chat_attempt_chats retry_loop_chats)

text \<open>
  A step leaves at most an opened step behind when it throws; when it returns it is sealed by
  its \<open>step.end\<close>. Where tools ran, their calls and results are paired.
\<close>

definition step_opened :: "nat \<Rightarrow> 'j turn_event list \<Rightarrow> bool" where
  "step_opened n evs \<longleftrightarrow> (\<exists>chat tools calls. evs = Step_Begin n # chat @ map (Step_Tool n) tools \<and>
     list_all (is_chat_event n) chat \<and> batch_paired calls tools)"

definition step_sealed :: "nat \<Rightarrow> token_usage \<Rightarrow> 'j turn_event list \<Rightarrow> bool" where
  "step_sealed n u evs \<longleftrightarrow> (\<exists>opened stop fin raw lat dur. evs = opened @ [Step_End n u stop fin raw lat dur] \<and>
     step_opened n opened)"

lemma no_tools_paired [simp]: "batch_paired [] []"
  by (auto simp: batch_paired_def)

lemma finish_step_effect:
  assumes "finish_step env n resp s = (s', r)"
  shows "tl_usage s' = add_usage (tl_usage s) (lr_usage resp) \<and>
    (\<exists>tools calls rest. tl_events s' = tl_events s @ map (Step_Tool n) tools @ rest \<and> batch_paired calls tools \<and>
       (derive_step_stop_reason resp \<noteq> Tool_Use \<longrightarrow> tools = []) \<and>
       (case r of
          Inl e \<Rightarrow> rest = []
        | Inr (u, stop) \<Rightarrow> u = lr_usage resp \<and> (\<exists>eff fin raw lat dur. rest = [Step_End n u eff fin raw lat dur])))"
proof -
  obtain s1 q where q: "record_step_usage env n (lr_usage resp) s = (s1, q)"
    by (cases "record_step_usage env n (lr_usage resp) s") auto
  then have s1: "s1 = s\<lparr>tl_usage := add_usage (tl_usage s) (lr_usage resp)\<rparr>"
    by (simp add: record_step_usage_def)
  show ?thesis
  proof (cases q)
    case (Inl e)
    then show ?thesis
      using assms q s1 by (auto simp: finish_step_def intro!: exI [of _ "[]"])
  next
    case (Inr res)
    define eff0 where "eff0 = (if res = Some True \<and> derive_step_stop_reason resp = Tool_Use then End_Turn
      else derive_step_stop_reason resp)"
    define batch where "batch = run_tool_call_batch (te_step_context env n) (lr_tool_calls resp)"
    define tools where "tools = (if eff0 = Tool_Use then fst batch else [])"
    define eff where "eff = (if eff0 = Tool_Use then (if snd batch then End_Turn else eff0) else eff0)"
    have run: "finish_step env n resp s =
      and_then (throw_if_aborted env (After_Tools n) (emit (map (Step_Tool n) tools) s1)) (\<lambda>s3 _.
        let (fin, raw) = step_end_diagnostics resp eff;
            s4 = emit [Step_End n (lr_usage resp) eff fin raw
                         (map_option fst (lr_timing resp)) (map_option snd (lr_timing resp))] s3;
            stop_step = (res = Some True) \<or> after_hook_stops env n (lr_usage resp) eff
        in (s4, Inr (lr_usage resp, if stop_step \<and> eff = Tool_Use then End_Turn else eff)))"
      unfolding finish_step_def q Inr and_then_simps Let_def eff0_def [symmetric]
      by (cases "eff0 = Tool_Use") (auto simp: tools_def eff_def batch_def emit_def split: prod.splits)
    have paired: "batch_paired (if eff0 = Tool_Use then lr_tool_calls resp else []) tools"
        "derive_step_stop_reason resp \<noteq> Tool_Use \<longrightarrow> tools = []"
      by (simp_all add: tools_def batch_def run_tool_call_batch_paired eff0_def)
    show ?thesis
    proof (cases "te_aborted env (After_Tools n)")
      case True
      then show ?thesis
        using assms paired unfolding run throw_if_aborted_def s1
        by (intro conjI exI [of _ tools] exI [of _ "if eff0 = Tool_Use then lr_tool_calls resp else []"]
            exI [of _ "[]"]) auto
    next
      case False
      obtain fin raw where diag: "step_end_diagnostics resp eff = (fin, raw)"
        by (cases "step_end_diagnostics resp eff") auto
      let ?sealed = "Step_End n (lr_usage resp) eff fin raw
        (map_option fst (lr_timing resp)) (map_option snd (lr_timing resp))"
      show ?thesis
        using assms paired False unfolding run throw_if_aborted_def s1
        by (intro conjI exI [of _ tools] exI [of _ "if eff0 = Tool_Use then lr_tool_calls resp else []"]
            exI [of _ "[?sealed]"]) (auto simp: diag Let_def)
    qed
  qed
qed

lemma execute_loop_step_effect:
  assumes "execute_loop_step env n s = (s', r)"
  shows "\<exists>evs. tl_events s' = tl_events s @ evs \<and>
    (case r of
       Inr (u, stop) \<Rightarrow> step_sealed n u evs \<and> tl_usage s' = add_usage (tl_usage s) u
     | Inl e \<Rightarrow> (evs = [] \<or> step_opened n evs) \<and>
         (\<exists>us. length us \<le> 1 \<and> tl_usage s' = foldl add_usage (tl_usage s) us))"
proof -
  have before: "fst (run_before_hook env n s) = s"
    by (simp add: run_before_hook_def split: option.split)
  consider (unopened) e where "s' = s" "r = Inl e"
    | (opened) msgs s5 q where "chat_with_retry env n msgs (emit [Step_Begin n] s) = (s5, q)"
        "(s', r) = and_then (s5, q) (\<lambda>s5 resp. finish_step env n resp s5)"
    using assms before unfolding execute_loop_step_def throw_if_aborted_def
    by (cases "run_before_hook env n s"; cases "te_build env n"; cases "snd (run_before_hook env n s)";
        cases "te_aborted env (After_Before_Hook n)"; cases "te_aborted env (After_Messages n)")
      (auto, metis prod.exhaust_sel)
  then show ?thesis
  proof cases
    case unopened
    then show ?thesis
      by (auto intro!: exI [of _ "[]"])
  next
    case opened
    then obtain chat where chat: "tl_events s5 = tl_events s @ Step_Begin n # chat" "list_all (is_chat_event n) chat"
        "tl_usage s5 = tl_usage s"
      using chat_with_retry_chats [OF opened(1)] by (auto simp: chats_def)
    show ?thesis
    proof (cases q)
      case (Inl e)
      have "step_opened n (Step_Begin n # chat)"
        using chat(2) unfolding step_opened_def by (intro exI [of _ chat] exI [of _ "[]"]) simp
      then show ?thesis
        using opened(2) Inl chat by (auto intro!: exI [of _ "[]"])
    next
      case (Inr resp)
      then have fin: "finish_step env n resp s5 = (s', r)"
        using opened(2) by simp
      from finish_step_effect [OF fin] obtain tools calls rest where rest:
          "tl_usage s' = add_usage (tl_usage s5) (lr_usage resp)"
          "tl_events s' = tl_events s5 @ map (Step_Tool n) tools @ rest" "batch_paired calls tools"
          "case r of Inl e \<Rightarrow> rest = []
           | Inr (u, stop) \<Rightarrow> u = lr_usage resp \<and> (\<exists>eff fin raw lat dur. rest = [Step_End n u eff fin raw lat dur])"
        by blast
      have op: "step_opened n (Step_Begin n # chat @ map (Step_Tool n) tools)"
        using chat(2) rest(3) unfolding step_opened_def by blast
      show ?thesis
      proof (cases r)
        case (Inl e)
        then show ?thesis
          using op rest chat by (auto intro!: exI [of _ "[lr_usage resp]"])
      next
        case (Inr us)
        then obtain stop where "us = (lr_usage resp, stop)" "\<exists>eff fin raw lat dur.
            rest = [Step_End n (lr_usage resp) eff fin raw lat dur]"
          using rest(4) by (cases us) auto
        then show ?thesis
          using op rest chat Inr unfolding step_sealed_def by auto
      qed
    qed
  qed
qed

subsection \<open>What a turn records\<close>

inductive sealed_steps :: "nat \<Rightarrow> token_usage \<Rightarrow> 'j turn_event list \<Rightarrow> bool" where
  sealed_Nil: "sealed_steps 0 empty_usage []"
| sealed_snoc: "sealed_steps n u evs \<Longrightarrow> step_sealed (Suc n) v more_evs \<Longrightarrow>
    sealed_steps (Suc n) (add_usage u v) (evs @ more_evs)"

text \<open>How the body of a turn may end.\<close>

definition turn_ends ::
  "'j turn_state \<times> nat \<times> nat option \<times> (loop_error + step_stop) \<Rightarrow> bool" where
  "turn_ends out \<longleftrightarrow> (case out of (s, n, active, r) \<Rightarrow>
     (case r of Inl e \<Rightarrow> True | Inr stop \<Rightarrow> stop \<noteq> Tool_Use \<and> active = None) \<and>
     (case active of
        None \<Rightarrow> sealed_steps n (tl_usage s) (tl_events s)
      | Some k \<Rightarrow> k = n \<and> (\<exists>m u evs rest us. n = Suc m \<and> sealed_steps m u evs \<and> tl_events s = evs @ rest \<and>
          (rest = [] \<or> step_opened n rest) \<and> length us \<le> 1 \<and> tl_usage s = foldl add_usage u us)))"

lemma turn_loop_effect:
  assumes "turn_loop env steps s = Some out"
  shows "sealed_steps steps (tl_usage s) (tl_events s) \<longrightarrow> turn_ends out"
  using assms
proof (rule turn_loop.raw_induct [rotated])
  fix loop :: "('a, 'b) turn_env \<Rightarrow> nat \<Rightarrow> 'a turn_state \<Rightarrow>
    ('a turn_state \<times> nat \<times> nat option \<times> (loop_error + step_stop)) option"
  fix env :: "('a, 'b) turn_env" and steps and s :: "'a turn_state" and out
  assume IH: "\<And>env steps s out. loop env steps s = Some out \<Longrightarrow>
      sealed_steps steps (tl_usage s) (tl_events s) \<longrightarrow> turn_ends out"
    and body: "(if te_aborted env (At_Loop steps) then Some (s, steps, None, Inl (te_reason env))
      else if (case te_max_steps env of None \<Rightarrow> False | Some m \<Rightarrow> m > 0 \<and> int steps \<ge> m)
      then Some (s, steps, None, Inl (max_steps_error (the (te_max_steps env))))
      else
        let n = Suc steps; (s1, r) = execute_loop_step env n s in
        case r of
          Inl e \<Rightarrow> Some (s1, n, Some n, Inl e)
        | Inr (u, stop) \<Rightarrow>
            if stop = Tool_Use then loop env n s1
            else case te_continue env of
              None \<Rightarrow> Some (s1, n, None, Inr stop)
            | Some hook \<Rightarrow>
                (case hook n u stop of
                   Inl e \<Rightarrow> Some (s1, n, None, Inl e)
                 | Inr c \<Rightarrow> if c = Some True then loop env n s1 else Some (s1, n, None, Inr stop))) = Some out"
  show "sealed_steps steps (tl_usage s) (tl_events s) \<longrightarrow> turn_ends out"
  proof
    assume sealed: "sealed_steps steps (tl_usage s) (tl_events s)"
    obtain s1 r where step: "execute_loop_step env (Suc steps) s = (s1, r)"
      by (cases "execute_loop_step env (Suc steps) s") auto
    obtain evs where evs: "tl_events s1 = tl_events s @ evs" and
      effect: "case r of
         Inr (u, stop) \<Rightarrow> step_sealed (Suc steps) u evs \<and> tl_usage s1 = add_usage (tl_usage s) u
       | Inl e \<Rightarrow> (evs = [] \<or> step_opened (Suc steps) evs) \<and>
           (\<exists>us. length us \<le> 1 \<and> tl_usage s1 = foldl add_usage (tl_usage s) us)"
      using execute_loop_step_effect [OF step] by blast
    consider "out = (s, steps, None, Inl (te_reason env))"
      | m where "out = (s, steps, None, Inl (max_steps_error m))"
      | e where "r = Inl e" "out = (s1, Suc steps, Some (Suc steps), Inl e)"
      | u stop where "r = Inr (u, stop)"
          "loop env (Suc steps) s1 = Some out \<or>
           (\<exists>q. out = (s1, Suc steps, None, q) \<and> (\<forall>stop. q = Inr stop \<longrightarrow> stop \<noteq> Tool_Use))"
      using body step by (auto split: if_splits sum.splits prod.splits option.splits)
    then show "turn_ends out"
    proof cases
      case 3
      then show ?thesis
        using effect evs sealed by (auto simp: turn_ends_def)
    next
      case 4
      then have "sealed_steps (Suc steps) (tl_usage s1) (tl_events s1)"
        using effect evs sealed by (simp add: sealed_snoc)
      from 4(2) show ?thesis
      proof
        assume "loop env (Suc steps) s1 = Some out"
        then show ?thesis
          using IH \<open>sealed_steps (Suc steps) _ _\<close> by blast
      next
        assume "\<exists>q. out = (s1, Suc steps, None, q) \<and> (\<forall>stop. q = Inr stop \<longrightarrow> stop \<noteq> Tool_Use)"
        then show ?thesis
          using \<open>sealed_steps (Suc steps) _ _\<close> by (auto simp: turn_ends_def split: sum.split)
      qed
    qed (use sealed in \<open>simp_all add: turn_ends_def\<close>)
  qed
qed

lemma turn_body_ends: "turn_loop env 0 initial_turn = Some out \<Longrightarrow> turn_ends out"
  using turn_loop_effect [of env 0 initial_turn out] by (simp add: initial_turn_def sealed_Nil)

subsection \<open>A step limit ends the turn\<close>

lemma turn_loop_bounded:
  assumes "te_max_steps env = Some m" "0 < m"
  shows "\<exists>s' n active r. turn_loop env steps s = Some (s', n, active, r) \<and> int n \<le> max m (int steps)"
proof (induction "nat (m - int steps)" arbitrary: steps s rule: less_induct)
  case less
  show ?case
  proof (cases "te_aborted env (At_Loop steps) \<or> int steps \<ge> m")
    case True
    then show ?thesis
      using assms by (subst turn_loop.simps) auto
  next
    case False
    have again: "\<exists>s' n active r. turn_loop env (Suc steps) t = Some (s', n, active, r) \<and> int n \<le> max m (int steps)" for t
      using less.hyps [of "Suc steps" t] False by fastforce
    have low: "int (Suc steps) \<le> max m (int steps)"
      using False by simp
    obtain s1 r where step: "execute_loop_step env (Suc steps) s = (s1, r)"
      by (cases "execute_loop_step env (Suc steps) s") auto
    show ?thesis
      using assms False again [of s1] low
      by (subst turn_loop.simps) (auto simp: step Let_def simp del: of_nat_Suc split: sum.split prod.split option.split)
  qed
qed

subsection \<open>Properties\<close>

text \<open>
  C5: the record of a turn is well formed, however the turn ends. It is a sequence of sealed
  steps numbered from one, each opened by its \<open>step.begin\<close>, closed by its \<open>step.end\<close> and holding
  its tool calls all answered in order. A turn that completes ends there, with a stop reason
  that is never \<open>tool_use\<close>, the number of its steps and the sum of their usages. A turn that is
  aborted or fails has at most one unsealed step more, whose tool calls are still all answered,
  and then the interruption.
\<close>

theorem turn_record_well_formed:
  assumes "run_turn env = Some (evs, r)"
  shows "\<exists>m u sealed. sealed_steps m u sealed \<and> (case r of
      Inr (Stopped stop, steps, usage) \<Rightarrow> evs = sealed \<and> stop \<noteq> Tool_Use \<and> steps = m \<and> usage = u
    | Inr (Turn_Aborted, steps, usage) \<Rightarrow> (\<exists>opened active us. (opened = [] \<or> step_opened (Suc m) opened) \<and>
        evs = sealed @ opened @ [Turn_Interrupted Int_Aborted steps active None] \<and>
        length us \<le> 1 \<and> usage = foldl add_usage u us)
    | Inl e \<Rightarrow> (\<exists>opened reason steps active. (opened = [] \<or> step_opened (Suc m) opened) \<and>
        evs = sealed @ opened @ [Turn_Interrupted reason steps active (Some (le_message e))]))"
proof -
  obtain s n active q where loop: "turn_loop env 0 initial_turn = Some (s, n, active, q)" and
      out: "(evs, r) = (case q of
         Inr stop \<Rightarrow> (tl_events s, Inr (Stopped stop, n, tl_usage s))
       | Inl e \<Rightarrow>
           if is_abort_error e \<or> te_aborted env At_Catch
           then (tl_events s @ [Turn_Interrupted Int_Aborted n active None], Inr (Turn_Aborted, n, tl_usage s))
           else (tl_events s @ [Turn_Interrupted (if le_max_steps e then Int_Max_Steps else Int_Error)
                                  n active (Some (le_message e))], Inl e))"
    using assms by (auto simp: run_turn_def)
  have ends: "turn_ends (s, n, active, q)"
    by (rule turn_body_ends [OF loop])
  show ?thesis
  proof (cases q)
    case (Inr stop)
    then show ?thesis
      using out ends by (auto simp: turn_ends_def)
  next
    case (Inl e)
    obtain m u sealed opened us where parts: "sealed_steps m u sealed" "tl_events s = sealed @ opened"
        "opened = [] \<or> step_opened (Suc m) opened" "length us \<le> 1" "tl_usage s = foldl add_usage u us"
    proof (cases active)
      case None
      then show thesis
        using ends that [of n "tl_usage s" "tl_events s" "[]" "[]"] by (simp add: turn_ends_def)
    next
      case (Some k)
      then show thesis
        using ends that by (auto simp: turn_ends_def)
    qed
    show ?thesis
      by (intro exI [of _ m] exI [of _ u] exI [of _ sealed])
        (use out Inl parts in \<open>auto split: if_splits\<close>)
  qed
qed

text \<open>
  C39: a turn with a step limit returns, whatever the model, the hooks and the tools do, and it
  makes no more steps than the limit. (Without a limit the loop may go on for ever; the model
  then has no value.)
\<close>

theorem limited_turn_returns:
  assumes "te_max_steps env = Some m" and "0 < m"
  shows "\<exists>evs r. run_turn env = Some (evs, r) \<and>
    (\<forall>stop steps usage. r = Inr (stop, steps, usage) \<longrightarrow> int steps \<le> m)"
proof -
  obtain s n active q where "turn_loop env 0 initial_turn = Some (s, n, active, q)" "int n \<le> m"
    using turn_loop_bounded [OF assms, of 0 initial_turn] assms(2) by auto
  then show ?thesis
    by (auto simp: run_turn_def split: sum.split)
qed

text \<open>
  What the attempts of a provider call come to. A response is the answer of some attempt
  within the limit, all earlier attempts having failed with an error the provider declares
  retryable. A failure is the error of such an attempt that was the last allowed or not
  retryable, or the stop of the signal while more attempts were left.
\<close>

theorem retry_outcome:
  assumes "chat_with_retry env n msgs s = (s', r)"
  shows "\<exists>k. 0 < k \<and> int k \<le> max 1 (opt_or (te_max_attempts env) default_max_attempts) \<and>
    (\<forall>j. 0 < j \<and> j < k \<longrightarrow> (\<exists>e retryable. snd (te_chat env n j msgs) = Inl e \<and>
       te_retryable env = Some retryable \<and> retryable e)) \<and>
    (case r of
       Inr resp \<Rightarrow> snd (te_chat env n k msgs) = Inr resp
     | Inl e \<Rightarrow> snd (te_chat env n k msgs) = Inl e \<and>
           (te_retryable env = None \<or> \<not> the (te_retryable env) e \<or>
            int k = max 1 (opt_or (te_max_attempts env) default_max_attempts)) \<or>
         int k < opt_or (te_max_attempts env) default_max_attempts \<and> (e = te_reason env \<or> e = abort_reason env))"
proof -
  let ?limit = "opt_or (te_max_attempts env) default_max_attempts"
  let ?goal = "\<lambda>k. int k \<le> max 1 ?limit \<and>
    (case r of
       Inr resp \<Rightarrow> snd (te_chat env n k msgs) = Inr resp
     | Inl e \<Rightarrow> snd (te_chat env n k msgs) = Inl e \<and>
           (te_retryable env = None \<or> \<not> the (te_retryable env) e \<or> int k = max 1 ?limit) \<or>
         int k < ?limit \<and> (e = te_reason env \<or> e = abort_reason env))"
  have loop: "\<exists>k \<ge> k0. ?goal k \<and> (\<forall>j. k0 \<le> j \<and> j < k \<longrightarrow> (\<exists>e. snd (te_chat env n j msgs) = Inl e \<and> rt e))"
    if "te_retryable env = Some rt" "1 < ?limit" "int k0 \<le> ?limit" "retry_loop env n msgs rt ?limit k0 t = (s', r)"
    for rt k0 t
    using that(3,4)
  proof (induction "nat (?limit - int k0)" arbitrary: k0 t rule: less_induct)
    case less
    from less.prems(2) show ?case
    proof (cases rule: retry_loop_cases)
      case (again e t1)
      then have "\<exists>k \<ge> Suc k0. ?goal k \<and> (\<forall>j. Suc k0 \<le> j \<and> j < k \<longrightarrow> (\<exists>e. snd (te_chat env n j msgs) = Inl e \<and> rt e))"
        by (intro less.hyps) auto
      then obtain k where "Suc k0 \<le> k" "?goal k"
          "\<forall>j. Suc k0 \<le> j \<and> j < k \<longrightarrow> (\<exists>e. snd (te_chat env n j msgs) = Inl e \<and> rt e)"
        by blast
      moreover have "\<forall>j. k0 \<le> j \<and> j < k \<longrightarrow> (\<exists>e. snd (te_chat env n j msgs) = Inl e \<and> rt e)"
        using calculation(3) again(1,2) by (metis le_neq_implies_less Suc_leI)
      ultimately show ?thesis
        by (intro exI [of _ k]) auto
    qed (use that less.prems(1) in \<open>auto intro!: exI [of _ k0]\<close>)
  qed
  show ?thesis
  proof (cases "\<exists>rt. te_retryable env = Some rt \<and> 1 < ?limit")
    case True
    then obtain rt where rt: "te_retryable env = Some rt" "1 < ?limit"
      by blast
    then have "retry_loop env n msgs rt ?limit 1 s = (s', r)"
      using assms by (simp add: chat_with_retry_def Let_def)
    then obtain k where "1 \<le> k" "?goal k" "\<forall>j. 1 \<le> j \<and> j < k \<longrightarrow> (\<exists>e. snd (te_chat env n j msgs) = Inl e \<and> rt e)"
      using loop [OF rt, of 1 s] rt by auto
    then show ?thesis
      using rt by (intro exI [of _ k]) (auto simp: Suc_le_eq)
  next
    case False
    then have "chat_attempt env n msgs 1 s = (s', r)" "te_retryable env = None \<or> ?limit \<le> 1"
      using assms by (auto simp: chat_with_retry_def Let_def split: option.splits if_splits)
    then show ?thesis
      by (intro exI [of _ 1]) (auto simp: chat_attempt_def Let_def split: prod.splits sum.split)
  qed
qed

text \<open>
  A response the provider reports as truncated, filtered, paused or otherwise ended never
  runs tools, even when it carries tool calls: nothing is recorded but the end of the step, and
  the tools and their hooks are not consulted.
\<close>

theorem diagnosed_response_runs_no_tools:
  assumes "lr_finish resp \<in> {Some Fin_Truncated, Some Fin_Filtered, Some Fin_Paused, Some Fin_Other}"
    and "finish_step env n resp s = (s', r)"
  shows "(\<exists>rest. tl_events s' = tl_events s @ rest \<and> list_all (\<lambda>ev. \<exists>u stop fin raw lat dur.
      ev = Step_End n u stop fin raw lat dur) rest) \<and>
    finish_step (env\<lparr>te_step_context := ctx\<rparr>) n resp s = (s', r)"
proof
  have no: "derive_step_stop_reason resp \<noteq> Tool_Use"
    using assms(1) by (auto simp: derive_step_stop_reason_def)
  show "\<exists>rest. tl_events s' = tl_events s @ rest \<and> list_all (\<lambda>ev. \<exists>u stop fin raw lat dur.
      ev = Step_End n u stop fin raw lat dur) rest"
    using finish_step_effect [OF assms(2)] no by (cases r) auto
  have "finish_step (env\<lparr>te_step_context := ctx\<rparr>) n resp s = finish_step env n resp s"
    using no by (simp add: finish_step_def record_step_usage_def throw_if_aborted_def after_hook_stops_def
        and_then_def Let_def split: option.split sum.split prod.split)
  then show "finish_step (env\<lparr>te_step_context := ctx\<rparr>) n resp s = (s', r)"
    using assms(2) by simp
qed

subsection \<open>Witnesses\<close>

text \<open>
  A turn of two steps: the first provider call fails once and then asks for a tool, the second
  answers with text.
\<close>

definition sample_response :: "tool_call list \<Rightarrow> finish_reason option \<Rightarrow> llm_response" where
  "sample_response cs fin = \<lparr>lr_tool_calls = cs, lr_finish = fin, lr_raw_finish = None,
     lr_usage = \<lparr>tu_input_other = 10, tu_output = 2, tu_cache_read = 0, tu_cache_creation = 0\<rparr>, lr_timing = None\<rparr>"

definition sample_turn :: "bool \<Rightarrow> (nat, unit) turn_env" where
  "sample_turn stopped = \<lparr>te_before = None, te_build = (\<lambda>_. Inr ()),
     te_chat = (\<lambda>n k _. if n = 1 \<and> k = 1 then ([Text_Delta ''x''], Inl (plain_loop_error ''busy''))
       else ([], Inr (sample_response (if n = 1 then [sample_call ''a''] else []) None))),
     te_retryable = Some (\<lambda>_. True), te_max_attempts = None, te_delays = (\<lambda>_ _. [300, 600]), te_record = None,
     te_step_context = (\<lambda>_. sample_step\<lparr>st_tools := []\<rparr>), te_after = None, te_continue = None,
     te_aborted = (\<lambda>place. stopped \<and> place = After_Tools 1), te_reason = abort_error, te_max_steps = Some 9\<rparr>"

lemma sample_turn_run:
  "map_option snd (run_turn (sample_turn False)) = Some (Inr (Stopped End_Turn, 2,
     \<lparr>tu_input_other = 20, tu_output = 4, tu_cache_read = 0, tu_cache_creation = 0\<rparr>))"
  "map_option snd (run_turn (sample_turn True)) = Some (Inr (Turn_Aborted, 1,
     \<lparr>tu_input_other = 10, tu_output = 2, tu_cache_read = 0, tu_cache_creation = 0\<rparr>))"
  by code_simp+

theorem turn_record_well_formed_witness:
  "\<exists>evs :: nat turn_event list. \<exists>u. sealed_steps 2 u evs \<and> tu_output u = 4"
proof -
  let ?u = "\<lparr>tu_input_other = 20, tu_output = 4, tu_cache_read = 0, tu_cache_creation = 0\<rparr>"
  obtain evs where "run_turn (sample_turn False) = Some (evs, Inr (Stopped End_Turn, 2, ?u))"
    using sample_turn_run(1) by auto
  from turn_record_well_formed [OF this] have "sealed_steps 2 ?u evs"
    by auto
  then show ?thesis
    by (intro exI [of _ evs] exI [of _ ?u]) simp
qed

theorem limited_turn_returns_witness:
  "\<exists>evs r. run_turn (sample_turn True) = Some (evs, r)"
  using limited_turn_returns [of "sample_turn True" 9] by (auto simp: sample_turn_def)

theorem retry_outcome_witness:
  "\<exists>k. 0 < k \<and> int k \<le> 3 \<and>
     snd (te_chat (sample_turn False) 1 k ()) = Inr (sample_response [sample_call ''a''] None)"
proof -
  obtain s' where "chat_with_retry (sample_turn False) 1 () initial_turn =
      (s', Inr (sample_response [sample_call ''a''] None))"
  proof
    show "chat_with_retry (sample_turn False) 1 () initial_turn =
      (fst (chat_with_retry (sample_turn False) 1 () initial_turn), Inr (sample_response [sample_call ''a''] None))"
      by (rule prod_eqI, simp) code_simp
  qed
  from retry_outcome [OF this] show ?thesis
    by (auto simp: sample_turn_def default_max_attempts_def)
qed

theorem diagnosed_response_runs_no_tools_witness:
  "\<exists>rest. tl_events (fst (finish_step (sample_turn False) 1 (sample_response [sample_call ''a''] (Some Fin_Filtered))
     initial_turn)) = tl_events initial_turn @ rest \<and>
     list_all (\<lambda>ev. \<exists>u stop fin raw lat dur. ev = Step_End 1 u stop fin raw lat dur) rest"
proof -
  have "lr_finish (sample_response [sample_call ''a''] (Some Fin_Filtered)) \<in>
      {Some Fin_Truncated, Some Fin_Filtered, Some Fin_Paused, Some Fin_Other}"
    by (simp add: sample_response_def)
  from diagnosed_response_runs_no_tools [OF this surjective_pairing, THEN conjunct1] show ?thesis .
qed

end
