(* ===== verification/Context_Memory.thy ===== *)
theory Context_Memory
  imports Turn_Loop Json
begin

text \<open>
  The conversation an agent keeps: \<open>packages/agent-core/src/agent/context/index.ts\<close>
  (\<open>ContextMemory\<close>), the token estimates of \<open>utils/tokens.ts\<close>, the cutoff of
  \<open>agent/compaction/micro.ts\<close> that the context resets, and the cases of \<open>restoreAgentRecord\<close>
  (\<open>agent/records/index.ts\<close>) that rebuild it.

  A message of the history is an object that an open step goes on filling, so the history
  pairs each message with the number of its object and \<open>openSteps\<close> maps a step to a number.
  The estimate of a message is the function without its cache. What the context tells other
  parts (the replay builder, injections, background tasks, the status line) is left out. Each
  operation has one \<open>now\<close>, which is also the time of its records.
\<close>

subsection \<open>Messages\<close>

datatype msg_role = Role_System | Role_User | Role_Assistant | Role_Tool

record ctx_call =
  cc_id :: string
  cc_name :: string
  cc_arguments :: "string option"

datatype prompt_origin =
    Origin_User
  | Origin_Skill_Activation string
  | Origin_Injection string
  | Origin_Shell_Command bool "bool option"
  | Origin_Compaction_Summary
  | Origin_System_Trigger string
  | Origin_Background_Task string string string
  | Origin_Cron_Job string
  | Origin_Cron_Missed nat
  | Origin_Hook_Result string
  | Origin_Retry

record context_message =
  cm_role :: msg_role
  cm_name :: "string option"
  cm_content :: "content_part list"
  cm_calls :: "ctx_call list"
  cm_call_id :: "string option"
  cm_partial :: "bool option"
  cm_origin :: "prompt_origin option"
  cm_error :: "bool option"

definition plain_message :: "msg_role \<Rightarrow> content_part list \<Rightarrow> prompt_origin option \<Rightarrow> context_message" where
  "plain_message role content origin =
     \<lparr>cm_role = role, cm_name = None, cm_content = content, cm_calls = [], cm_call_id = None,
      cm_partial = None, cm_origin = origin, cm_error = None\<rparr>"

subsection \<open>Token estimates\<close>

definition estimate_tokens :: "string \<Rightarrow> int" where
  "estimate_tokens text =
     (let ascii = length (filter (\<lambda>c. of_char c \<le> (127::nat)) text)
      in int ((ascii + 3) div 4) + int (length text - ascii))"

fun estimate_part :: "content_part \<Rightarrow> int" where
  "estimate_part (TextPart t) = estimate_tokens t"
| "estimate_part (ThinkPart t _) = estimate_tokens t"
| "estimate_part _ = 0"

definition estimate_parts :: "content_part list \<Rightarrow> int" where
  "estimate_parts ps = sum_list (map estimate_part ps)"

fun role_name :: "msg_role \<Rightarrow> string" where
  "role_name Role_System = ''system''"
| "role_name Role_User = ''user''"
| "role_name Role_Assistant = ''assistant''"
| "role_name Role_Tool = ''tool''"

definition estimate_message :: "context_message \<Rightarrow> int" where
  "estimate_message m =
     estimate_tokens (role_name (cm_role m)) + estimate_parts (cm_content m) +
     sum_list (map (\<lambda>c. estimate_tokens (cc_name c) +
       estimate_tokens (case cc_arguments c of None \<Rightarrow> ''null'' | Some a \<Rightarrow> quote_string a)) (cm_calls m))"

definition estimate_messages :: "context_message list \<Rightarrow> int" where
  "estimate_messages ms = sum_list (map estimate_message ms)"

subsection \<open>State and records\<close>

datatype ctx_event =
    Ctx_Step_Begin string
  | Ctx_Step_End string "token_usage option"
  | Ctx_Content_Part string content_part
  | Ctx_Tool_Call string string string "string option"
  | Ctx_Tool_Result string tool_result

record compaction_result =
  cr_summary :: string
  cr_compacted_count :: nat
  cr_tokens_before :: int
  cr_tokens_after :: int

datatype ctx_record =
    Rec_Append_Message context_message
  | Rec_Loop_Event ctx_event
  | Rec_Clear
  | Rec_Undo int
  | Rec_Apply_Compaction compaction_result
  | Rec_Micro_Apply nat

record context_memory =
  cx_history :: "(nat \<times> context_message) list"
  cx_next :: nat
  cx_token_count :: int
  cx_covered :: nat
  cx_open_steps :: "(string \<times> nat) list"
  cx_pending :: "string list"
  cx_deferred :: "context_message list"
  cx_last_assistant :: "int option"
  cx_cutoff :: nat

definition empty_context :: context_memory where
  "empty_context = \<lparr>cx_history = [], cx_next = 0, cx_token_count = 0, cx_covered = 0, cx_open_steps = [],
     cx_pending = [], cx_deferred = [], cx_last_assistant = None, cx_cutoff = 0\<rparr>"

abbreviation history :: "context_memory \<Rightarrow> context_message list" where
  "history s \<equiv> map snd (cx_history s)"

definition token_count_with_pending :: "context_memory \<Rightarrow> int" where
  "token_count_with_pending s = cx_token_count s + estimate_messages (drop (cx_covered s) (history s))"

subsection \<open>Appending\<close>

definition push_one :: "int \<Rightarrow> context_message \<Rightarrow> context_memory \<Rightarrow> context_memory" where
  "push_one now m s =
     s\<lparr>cx_history := cx_history s @ [(cx_next s, m)], cx_next := Suc (cx_next s),
       cx_last_assistant := (if cm_role m = Role_Assistant then Some now else cx_last_assistant s)\<rparr>"

definition push_history :: "int \<Rightarrow> context_message list \<Rightarrow> context_memory \<Rightarrow> context_memory" where
  "push_history now ms s = foldl (\<lambda>s m. push_one now m s) s ms"

definition flush_deferred :: "int \<Rightarrow> context_memory \<Rightarrow> context_memory" where
  "flush_deferred now s =
     (if cx_pending s \<noteq> [] \<or> cx_deferred s = [] then s
      else (push_history now (cx_deferred s) s)\<lparr>cx_deferred := []\<rparr>)"

definition append_message :: "int \<Rightarrow> context_message \<Rightarrow> context_memory \<Rightarrow> context_memory \<times> ctx_record list" where
  "append_message now m s =
     (if cx_pending s \<noteq> [] then s\<lparr>cx_deferred := cx_deferred s @ [m]\<rparr> else push_history now [m] s,
      [Rec_Append_Message m])"

definition user_message :: "content_part list \<Rightarrow> prompt_origin \<Rightarrow> context_message" where
  "user_message content origin = plain_message Role_User content (Some origin)"

definition append_user_message ::
  "int \<Rightarrow> content_part list \<Rightarrow> prompt_origin \<Rightarrow> context_memory \<Rightarrow> context_memory \<times> ctx_record list" where
  "append_user_message now content origin s =
     (if content = [] then (s, []) else append_message now (user_message content origin) s)"

definition newline :: string where
  "newline = [CHR 0x0A]"

definition append_system_reminder ::
  "int \<Rightarrow> string \<Rightarrow> prompt_origin \<Rightarrow> context_memory \<Rightarrow> context_memory \<times> ctx_record list" where
  "append_system_reminder now content origin =
     append_message now (user_message
       [TextPart (''<system-reminder>'' @ newline @ js_trim content @ newline @ ''</system-reminder>'')] origin)"

definition append_local_command_stdout ::
  "int \<Rightarrow> string \<Rightarrow> context_memory \<Rightarrow> context_memory \<times> ctx_record list" where
  "append_local_command_stdout now content =
     append_message now (user_message
       [TextPart (''<local-command-stdout>'' @ newline @ js_trim content @ newline @ ''</local-command-stdout>'')]
       (Origin_Injection ''local-command-stdout''))"

text \<open>\<open>escapeXml\<close> replaces one character after the other, the ampersand first.\<close>

definition replace_all :: "char \<Rightarrow> string \<Rightarrow> string \<Rightarrow> string" where
  "replace_all c by s = concat (map (\<lambda>d. if d = c then by else [d]) s)"

definition escape_xml :: "string \<Rightarrow> string" where
  "escape_xml s =
     replace_all (CHR 0x22) ''&quot;'' (replace_all (CHR ''>'') ''&gt;''
       (replace_all (CHR ''<'') ''&lt;'' (replace_all (CHR ''&'') ''&amp;'' s)))"

definition append_bash_input :: "int \<Rightarrow> string \<Rightarrow> context_memory \<Rightarrow> context_memory \<times> ctx_record list" where
  "append_bash_input now command =
     append_message now (user_message
       [TextPart (''<bash-input>'' @ newline @ escape_xml command @ newline @ ''</bash-input>'')]
       (Origin_Shell_Command True None))"

definition append_bash_output ::
  "int \<Rightarrow> string \<Rightarrow> string \<Rightarrow> bool option \<Rightarrow> context_memory \<Rightarrow> context_memory \<times> ctx_record list" where
  "append_bash_output now out err is_error =
     append_message now (user_message
       [TextPart (''<bash-stdout>'' @ escape_xml out @ ''</bash-stdout><bash-stderr>'' @ escape_xml err @ ''</bash-stderr>'')]
       (Origin_Shell_Command False (if is_error = Some True then Some True else None)))"

definition pop_matched_message ::
  "(prompt_origin option \<Rightarrow> bool) \<Rightarrow> context_memory \<Rightarrow> context_memory \<times> bool" where
  "pop_matched_message matcher s =
     (if cx_deferred s \<noteq> []
      then if matcher (cm_origin (last (cx_deferred s)))
           then (s\<lparr>cx_deferred := butlast (cx_deferred s)\<rparr>, True) else (s, False)
      else if cx_history s = [] then (s, False)
      else if matcher (cm_origin (snd (last (cx_history s))))
           then (s\<lparr>cx_history := butlast (cx_history s)\<rparr>, True) else (s, False))"

subsection \<open>Tool results for the model\<close>

definition tool_error_status :: string where
  "tool_error_status = ''<system>ERROR: Tool execution failed.</system>''"

definition tool_empty_status :: string where
  "tool_empty_status = ''<system>Tool output is empty.</system>''"

definition tool_empty_error_status :: string where
  "tool_empty_error_status = ''<system>ERROR: Tool execution failed. Tool output is empty.</system>''"

definition tool_interrupted_output :: string where
  "tool_interrupted_output =
     ''Tool execution was interrupted before its result was recorded. '' @
     ''Do not assume the tool completed successfully.''"

definition is_empty_output_text :: "string \<Rightarrow> bool" where
  "is_empty_output_text out \<longleftrightarrow> length out = 0 \<or> js_trim out = tool_output_empty"

fun tool_result_output_for_model :: "tool_result \<Rightarrow> content_part list" where
  "tool_result_output_for_model r =
     (case tr_output r of
        OutText out \<Rightarrow>
          [TextPart
            (if tr_is_error r = Some True
             then if length out = 0 then tool_empty_error_status
                  else if starts_with (trim_start out) ''<system>ERROR:'' then out
                  else tool_error_status @ newline @ out
             else if is_empty_output_text out then tool_empty_status else out)]
      | OutParts ps \<Rightarrow>
          if length ps = 0
          then [TextPart (if tr_is_error r = Some True then tool_empty_error_status else tool_empty_status)]
          else if tr_is_error r = Some True then TextPart tool_error_status # ps
          else ps)"

definition tool_message :: "string \<Rightarrow> tool_result \<Rightarrow> context_message" where
  "tool_message call_id r =
     (plain_message Role_Tool (tool_result_output_for_model r) None)
       \<lparr>cm_call_id := Some call_id, cm_error := tr_is_error r\<rparr>"

definition interrupted_result :: tool_result where
  "interrupted_result = error_result tool_interrupted_output"

subsection \<open>Loop events\<close>

definition apply_tool_result :: "int \<Rightarrow> string \<Rightarrow> tool_result \<Rightarrow> context_memory \<Rightarrow> context_memory" where
  "apply_tool_result now call_id r s =
     (if call_id \<notin> set (cx_pending s) then s
      else let s1 = push_history now [tool_message call_id r] s
           in flush_deferred now (s1\<lparr>cx_pending := removeAll call_id (cx_pending s1)\<rparr>))"

text \<open>\<open>closePendingToolResults\<close>: one synthesised result per pending call, each with its own record.\<close>

definition close_pending :: "int \<Rightarrow> context_memory \<Rightarrow> context_memory \<times> ctx_record list" where
  "close_pending now s =
     (foldl (\<lambda>s i. apply_tool_result now i interrupted_result s) s (cx_pending s),
      map (\<lambda>i. Rec_Loop_Event (Ctx_Tool_Result i interrupted_result)) (cx_pending s))"

definition update_message ::
  "nat \<Rightarrow> (context_message \<Rightarrow> context_message) \<Rightarrow> context_memory \<Rightarrow> context_memory" where
  "update_message k f s = s\<lparr>cx_history := map (\<lambda>(i, m). if i = k then (i, f m) else (i, m)) (cx_history s)\<rparr>"

definition total_usage :: "token_usage \<Rightarrow> int" where
  "total_usage u = tu_cache_read u + tu_cache_creation u + tu_input_other u + tu_output u"

definition end_step_usage :: "nat option \<Rightarrow> token_usage \<Rightarrow> context_memory \<Rightarrow> context_memory" where
  "end_step_usage open_step u s =
     (let covered = (case open_step of
            None \<Rightarrow> length (cx_history s)
          | Some k \<Rightarrow> (case find_index (\<lambda>(i, m). i = k) (cx_history s) of
              None \<Rightarrow> length (cx_history s) | Some j \<Rightarrow> j + 1))
      in s\<lparr>cx_token_count :=
             (if total_usage u > 0 then total_usage u
              else cx_token_count s + estimate_messages (take (covered - cx_covered s) (drop (cx_covered s) (history s)))),
           cx_covered := covered\<rparr>)"

definition unknown_step :: "string \<Rightarrow> string \<Rightarrow> string" where
  "unknown_step what step =
     ''Received '' @ what @ '' for unknown step_uuid '' @ [CHR 0x27] @ step @ [CHR 0x27] @ '' (no open step_begin)''"

fun apply_loop_event :: "int \<Rightarrow> ctx_event \<Rightarrow> context_memory \<Rightarrow> (context_memory \<times> ctx_record list) \<times> string option" where
  "apply_loop_event now (Ctx_Step_Begin uuid) s =
     (let (s1, recs) = close_pending now s;
          s2 = push_history now [plain_message Role_Assistant [] None] s1
      in ((s2\<lparr>cx_open_steps := AList.update uuid (cx_next s1) (cx_open_steps s2)\<rparr>, recs), None))"
| "apply_loop_event now (Ctx_Step_End uuid usage) s =
     (let open_step = map_of (cx_open_steps s) uuid;
          s1 = s\<lparr>cx_open_steps := AList.delete uuid (cx_open_steps s)\<rparr>;
          s2 = (case usage of None \<Rightarrow> s1 | Some u \<Rightarrow> end_step_usage open_step u s1)
      in ((flush_deferred now s2, []), None))"
| "apply_loop_event now (Ctx_Content_Part step part) s =
     (case map_of (cx_open_steps s) step of
        None \<Rightarrow> ((s, []), Some (unknown_step ''content_part'' step))
      | Some k \<Rightarrow> ((update_message k (\<lambda>m. m\<lparr>cm_content := cm_content m @ [part]\<rparr>) s, []), None))"
| "apply_loop_event now (Ctx_Tool_Call step call_id name args) s =
     (case map_of (cx_open_steps s) step of
        None \<Rightarrow> ((s, []), Some (unknown_step ''tool_call'' step))
      | Some k \<Rightarrow>
          (((update_message k (\<lambda>m. m\<lparr>cm_calls := cm_calls m @ [\<lparr>cc_id = call_id, cc_name = name, cc_arguments = args\<rparr>]\<rparr>) s)
             \<lparr>cx_pending := set_add call_id (cx_pending s)\<rparr>, []), None))"
| "apply_loop_event now (Ctx_Tool_Result call_id r) s = ((apply_tool_result now call_id r s, []), None)"

text \<open>\<open>appendLoopEvent\<close>: the event is logged first, the synthesised results of a step boundary after it.\<close>

definition append_loop_event :: "int \<Rightarrow> ctx_event \<Rightarrow> context_memory \<Rightarrow> (context_memory \<times> ctx_record list) \<times> string option" where
  "append_loop_event now ev s =
     (let ((s1, recs), err) = apply_loop_event now ev s in ((s1, Rec_Loop_Event ev # recs), err))"

definition finish_resume :: "int \<Rightarrow> context_memory \<Rightarrow> context_memory \<times> ctx_record list" where
  "finish_resume now s = close_pending now (s\<lparr>cx_open_steps := []\<rparr>)"

subsection \<open>Clearing, undoing, compacting\<close>

definition micro_reset :: "nat \<Rightarrow> context_memory \<Rightarrow> context_memory" where
  "micro_reset max_cutoff s = s\<lparr>cx_cutoff := min (cx_cutoff s) max_cutoff\<rparr>"

definition micro_apply :: "nat \<Rightarrow> context_memory \<Rightarrow> context_memory \<times> ctx_record list" where
  "micro_apply k s = (s\<lparr>cx_cutoff := k\<rparr>, [Rec_Micro_Apply k])"

definition clear_context :: "context_memory \<Rightarrow> context_memory \<times> ctx_record list" where
  "clear_context s =
     (micro_reset 0 (s\<lparr>cx_history := [], cx_token_count := 0, cx_covered := 0, cx_open_steps := [],
        cx_pending := [], cx_deferred := [], cx_last_assistant := None\<rparr>), [Rec_Clear])"

definition is_real_user_prompt :: "context_message \<Rightarrow> bool" where
  "is_real_user_prompt m \<longleftrightarrow>
     cm_role m = Role_User \<and>
     (case cm_origin m of
        None \<Rightarrow> True
      | Some Origin_User \<Rightarrow> True
      | Some (Origin_Skill_Activation trigger) \<Rightarrow> trigger = ''user-slash''
      | _ \<Rightarrow> False)"

fun is_injection :: "prompt_origin option \<Rightarrow> bool" where
  "is_injection (Some (Origin_Injection v)) = True"
| "is_injection _ = False"

text \<open>
  The loop of \<open>undo\<close> over the history from its end (the first argument is reversed): what stays,
  the covered count, the token count, the prompts removed, whether it stopped at a summary.
\<close>

fun undo_scan ::
  "(nat \<times> context_message) list \<Rightarrow> int \<Rightarrow> nat \<Rightarrow> int \<Rightarrow> int \<Rightarrow>
   (nat \<times> context_message) list \<times> nat \<times> int \<times> int \<times> bool" where
  "undo_scan [] wanted covered tokens removed = ([], covered, tokens, removed, False)"
| "undo_scan ((k, m) # older) wanted covered tokens removed =
     (if is_injection (cm_origin m)
      then let (kept, c, t, r, st) = undo_scan older wanted covered tokens removed in (kept @ [(k, m)], c, t, r, st)
      else if cm_origin m = Some Origin_Compaction_Summary then (rev ((k, m) # older), covered, tokens, removed, True)
      else
        let covered' = (if length older < covered then covered - 1 else covered);
            tokens' = (if length older < covered then tokens - estimate_message m else tokens)
        in if is_real_user_prompt m
           then if removed + 1 \<ge> wanted then (rev older, covered', tokens', removed + 1, False)
                else undo_scan older wanted covered' tokens' (removed + 1)
           else undo_scan older wanted covered' tokens' removed)"

definition format_prompt_count :: "int \<Rightarrow> string" where
  "format_prompt_count n = nat_to_string (nat n) @ '' '' @ (if n = 1 then ''prompt'' else ''prompts'')"

definition undo_unavailable :: "int \<Rightarrow> int \<Rightarrow> bool \<Rightarrow> string" where
  "undo_unavailable requested undoable stopped =
     ''Cannot undo '' @ format_prompt_count requested @ ''; only '' @ format_prompt_count undoable @
     '' can be undone in the active context'' @ (if stopped then '' after the last compaction'' else []) @ ''.''"

definition undo :: "bool \<Rightarrow> int \<Rightarrow> context_memory \<Rightarrow> (context_memory \<times> ctx_record list) \<times> string option" where
  "undo restoring wanted s =
     (if wanted \<le> 0 then ((s, []), None)
      else if cx_history s = [] then ((s, []), None)
      else
        let (kept, c, t, r, st) = undo_scan (rev (cx_history s)) wanted (cx_covered s) (cx_token_count s) 0;
            s1 = micro_reset (length kept)
                   (s\<lparr>cx_history := kept, cx_covered := c, cx_token_count := t, cx_open_steps := [],
                      cx_pending := [], cx_deferred := []\<rparr>)
        in ((s1, [Rec_Undo wanted]),
            if \<not> restoring \<and> (st \<or> r < wanted) then Some (undo_unavailable wanted r st) else None))"

definition apply_compaction :: "int \<Rightarrow> compaction_result \<Rightarrow> context_memory \<Rightarrow> context_memory \<times> ctx_record list" where
  "apply_compaction now res s =
     (let summary = plain_message Role_Assistant [TextPart (cr_summary res)] (Some Origin_Compaction_Summary);
          s1 = flush_deferred now
                 (s\<lparr>cx_history := (cx_next s, summary) # drop (cr_compacted_count res) (cx_history s),
                    cx_next := Suc (cx_next s), cx_open_steps := []\<rparr>)
      in (micro_reset 0 (s1\<lparr>cx_token_count := cr_tokens_after res, cx_covered := length (cx_history s1)\<rparr>),
          [Rec_Apply_Compaction res]))"

subsection \<open>Operations and their replay\<close>

datatype ctx_op =
    Op_Append int context_message
  | Op_Loop_Event int ctx_event
  | Op_Clear
  | Op_Undo int
  | Op_Apply_Compaction int compaction_result
  | Op_Micro_Apply nat

fun ctx_step :: "context_memory \<Rightarrow> ctx_op \<Rightarrow> context_memory \<times> (int \<times> ctx_record) list" where
  "ctx_step s (Op_Append now m) = (let (s', recs) = append_message now m s in (s', map (Pair now) recs))"
| "ctx_step s (Op_Loop_Event now ev) =
     (let ((s', recs), err) = append_loop_event now ev s in (s', map (Pair now) recs))"
| "ctx_step s Op_Clear = (let (s', recs) = clear_context s in (s', map (Pair 0) recs))"
| "ctx_step s (Op_Undo wanted) = (let ((s', recs), err) = undo False wanted s in (s', map (Pair 0) recs))"
| "ctx_step s (Op_Apply_Compaction now res) = (let (s', recs) = apply_compaction now res s in (s', map (Pair now) recs))"
| "ctx_step s (Op_Micro_Apply k) = (let (s', recs) = micro_apply k s in (s', map (Pair 0) recs))"

text \<open>\<open>restoreAgentRecord\<close>: nothing is logged while restoring.\<close>

fun ctx_restore :: "context_memory \<Rightarrow> int \<times> ctx_record \<Rightarrow> context_memory \<times> string option" where
  "ctx_restore s (now, Rec_Append_Message m) = (fst (append_message now m s), None)"
| "ctx_restore s (now, Rec_Loop_Event ev) = (let ((s', recs), err) = apply_loop_event now ev s in (s', err))"
| "ctx_restore s (now, Rec_Clear) = (fst (clear_context s), None)"
| "ctx_restore s (now, Rec_Undo wanted) = (let ((s', recs), err) = undo True wanted s in (s', err))"
| "ctx_restore s (now, Rec_Apply_Compaction res) = (fst (apply_compaction now res s), None)"
| "ctx_restore s (now, Rec_Micro_Apply k) = (fst (micro_apply k s), None)"

text \<open>The loop of the replay over the records: the first error ends it and is thrown on.\<close>

fun ctx_replay :: "context_memory \<Rightarrow> (int \<times> ctx_record) list \<Rightarrow> string + context_memory" where
  "ctx_replay s [] = Inr s"
| "ctx_replay s (r # rs) =
     (case ctx_restore s r of (s', None) \<Rightarrow> ctx_replay s' rs | (s', Some e) \<Rightarrow> Inl e)"

text \<open>The error of the first loop event the session refused while it was live.\<close>

fun refusal :: "context_memory \<Rightarrow> ctx_op \<Rightarrow> string option" where
  "refusal s (Op_Loop_Event now ev) = snd (append_loop_event now ev s)"
| "refusal s _ = None"

fun first_refusal :: "context_memory \<Rightarrow> ctx_op list \<Rightarrow> string option" where
  "first_refusal s [] = None"
| "first_refusal s (op # ops) =
     (case refusal s op of Some e \<Rightarrow> Some e | None \<Rightarrow> first_refusal (fst (ctx_step s op)) ops)"

subsection \<open>What each piece leaves alone\<close>

lemma push_one_frame [simp]:
  "cx_pending (push_one now m s) = cx_pending s" "cx_deferred (push_one now m s) = cx_deferred s"
  "cx_open_steps (push_one now m s) = cx_open_steps s" "cx_covered (push_one now m s) = cx_covered s"
  "cx_token_count (push_one now m s) = cx_token_count s" "cx_cutoff (push_one now m s) = cx_cutoff s"
  "cx_history (push_one now m s) = cx_history s @ [(cx_next s, m)]" "cx_next (push_one now m s) = Suc (cx_next s)"
  by (simp_all add: push_one_def)

lemma push_history_Nil [simp]: "push_history now [] s = s"
  by (simp add: push_history_def)

lemma push_history_Cons: "push_history now (m # ms) s = push_history now ms (push_one now m s)"
  by (simp add: push_history_def)

lemma push_history_frame [simp]:
  "cx_pending (push_history now ms s) = cx_pending s" "cx_deferred (push_history now ms s) = cx_deferred s"
  "cx_open_steps (push_history now ms s) = cx_open_steps s" "cx_covered (push_history now ms s) = cx_covered s"
  "cx_token_count (push_history now ms s) = cx_token_count s" "cx_cutoff (push_history now ms s) = cx_cutoff s"
  "cx_history (push_history now ms s) = cx_history s @ zip [cx_next s..<cx_next s + length ms] ms"
  "cx_next (push_history now ms s) = cx_next s + length ms"
proof -
  have "cx_pending (push_history now ms s) = cx_pending s \<and> cx_deferred (push_history now ms s) = cx_deferred s \<and>
    cx_open_steps (push_history now ms s) = cx_open_steps s \<and> cx_covered (push_history now ms s) = cx_covered s \<and>
    cx_token_count (push_history now ms s) = cx_token_count s \<and> cx_cutoff (push_history now ms s) = cx_cutoff s \<and>
    cx_history (push_history now ms s) = cx_history s @ zip [cx_next s..<cx_next s + length ms] ms \<and>
    cx_next (push_history now ms s) = cx_next s + length ms"
    by (induction ms arbitrary: s) (simp_all add: push_history_Cons upt_rec)
  then show "cx_pending (push_history now ms s) = cx_pending s" "cx_deferred (push_history now ms s) = cx_deferred s"
    "cx_open_steps (push_history now ms s) = cx_open_steps s" "cx_covered (push_history now ms s) = cx_covered s"
    "cx_token_count (push_history now ms s) = cx_token_count s" "cx_cutoff (push_history now ms s) = cx_cutoff s"
    "cx_history (push_history now ms s) = cx_history s @ zip [cx_next s..<cx_next s + length ms] ms"
    "cx_next (push_history now ms s) = cx_next s + length ms"
    by blast+
qed

lemma flush_deferred_pending [simp]: "cx_pending (flush_deferred now s) = cx_pending s"
  by (simp add: flush_deferred_def)

lemma apply_tool_result_pending [simp]:
  "cx_pending (apply_tool_result now i r s) = removeAll i (cx_pending s)"
  by (simp add: apply_tool_result_def Let_def)

text \<open>After a step boundary no call is pending, and results logged for it later are ignored.\<close>

lemma close_pending_empty [simp]: "cx_pending (fst (close_pending now s)) = []"
proof -
  have "cx_pending (foldl (\<lambda>s i. apply_tool_result now i interrupted_result s) s xs) =
      filter (\<lambda>i. i \<notin> set xs) (cx_pending s)" for xs
    by (induction xs arbitrary: s) (auto simp: removeAll_filter_not_eq intro: filter_cong)
  then show ?thesis
    by (simp add: close_pending_def)
qed

lemma restore_stale_results:
  assumes "cx_pending s = []"
  shows "ctx_replay s (map (Pair now) (map (\<lambda>i. Rec_Loop_Event (Ctx_Tool_Result i r)) xs)) = Inr s"
  by (induction xs) (simp_all add: apply_tool_result_def assms)

lemma ctx_replay_append:
  "ctx_replay s (xs @ ys) = (case ctx_replay s xs of Inl e \<Rightarrow> Inl e | Inr t \<Rightarrow> ctx_replay t ys)"
  by (induction xs arbitrary: s) (auto split: prod.split option.split)

lemma update_message_frame [simp]:
  "cx_pending (update_message k f s) = cx_pending s" "cx_deferred (update_message k f s) = cx_deferred s"
  "cx_open_steps (update_message k f s) = cx_open_steps s" "cx_covered (update_message k f s) = cx_covered s"
  "cx_next (update_message k f s) = cx_next s"
  by (simp_all add: update_message_def)

lemma ctx_step_replays:
  "ctx_replay s (snd (ctx_step s op)) =
     (case refusal s op of None \<Rightarrow> Inr (fst (ctx_step s op)) | Some e \<Rightarrow> Inl e)"
proof (cases op)
  case (Op_Loop_Event now ev)
  show ?thesis
  proof (cases ev)
    case (Ctx_Step_Begin uuid)
    let ?s = "fst (fst (apply_loop_event now ev s))"
    have "cx_pending ?s = []"
      by (simp add: Ctx_Step_Begin Let_def split_def)
    then have "ctx_replay ?s (map (Pair now) (snd (close_pending now s))) = Inr ?s"
      unfolding close_pending_def snd_conv by (rule restore_stale_results)
    then show ?thesis
      by (simp add: Op_Loop_Event Ctx_Step_Begin append_loop_event_def Let_def split_def)
  qed (simp_all add: Op_Loop_Event append_loop_event_def Let_def split: option.split)
qed (simp_all add: append_message_def clear_context_def undo_def apply_compaction_def micro_apply_def Let_def split_def)

lemma ctx_run_replays:
  "ctx_replay s (snd (run_logged ctx_step s ops)) =
     (case first_refusal s ops of None \<Rightarrow> Inr (fst (run_logged ctx_step s ops)) | Some e \<Rightarrow> Inl e)"
proof (induction ops arbitrary: s)
  case (Cons op ops)
  show ?case
    by (cases "refusal s op") (simp_all add: run_logged_Cons ctx_replay_append ctx_step_replays Cons.IH split: option.split)
qed (simp add: run_logged_Nil)

subsection \<open>The exchange protocol\<close>

text \<open>
  Reading a history from its start: the calls still unanswered, \<open>None\<close> where a result answers no
  open call, a message stands inside an open exchange, or a message that is not the assistant's
  has calls.
\<close>

fun exchange :: "string list \<Rightarrow> context_message list \<Rightarrow> string list option" where
  "exchange pend [] = Some pend"
| "exchange pend (m # ms) =
     (if cm_role m = Role_Tool
      then (case cm_call_id m of
              None \<Rightarrow> None
            | Some i \<Rightarrow> if i \<in> set pend then exchange (removeAll i pend) ms else None)
      else if pend \<noteq> [] \<or> cm_calls m \<noteq> [] \<and> cm_role m \<noteq> Role_Assistant then None
      else exchange (map cc_id (cm_calls m)) ms)"

lemma exchange_append:
  "exchange p (xs @ ys) = (case exchange p xs of None \<Rightarrow> None | Some q \<Rightarrow> exchange q ys)"
  by (induction p xs rule: exchange.induct) (auto split: option.split)

lemma exchange_snoc:
  "exchange p (xs @ [m]) =
     (case exchange p xs of
        None \<Rightarrow> None
      | Some q \<Rightarrow>
          if cm_role m = Role_Tool
          then (case cm_call_id m of None \<Rightarrow> None | Some i \<Rightarrow> if i \<in> set q then Some (removeAll i q) else None)
          else if q \<noteq> [] \<or> cm_calls m \<noteq> [] \<and> cm_role m \<noteq> Role_Assistant then None
          else Some (map cc_id (cm_calls m)))"
  by (simp add: exchange_append split: option.split)

definition simple_message :: "context_message \<Rightarrow> bool" where
  "simple_message m \<longleftrightarrow> cm_role m \<noteq> Role_Tool \<and> cm_calls m = []"

lemma exchange_simple: "list_all simple_message ms \<Longrightarrow> exchange [] ms = Some []"
  by (induction ms) (simp_all add: simple_message_def)

text \<open>The documented invariant, with what it needs of the objects.\<close>

definition context_inv :: "context_memory \<Rightarrow> bool" where
  "context_inv s \<longleftrightarrow>
     exchange [] (history s) = Some (cx_pending s) \<and> distinct (cx_pending s) \<and>
     (cx_deferred s \<noteq> [] \<longrightarrow> cx_pending s \<noteq> []) \<and> list_all simple_message (cx_deferred s) \<and>
     (\<forall>m \<in> set (history s). cm_origin m \<noteq> None \<longrightarrow> simple_message m)"

definition objects_inv :: "context_memory \<Rightarrow> bool" where
  "objects_inv s \<longleftrightarrow>
     distinct (map fst (cx_history s)) \<and> (\<forall>(k, m) \<in> set (cx_history s). k < cx_next s) \<and>
     (\<forall>(u, k) \<in> set (cx_open_steps s). k < cx_next s \<and>
        (\<forall>m. (k, m) \<in> set (cx_history s) \<longrightarrow> cm_role m = Role_Assistant \<and> cm_origin m = None))"

text \<open>
  What the callers keep to: only simple messages are appended; a call belongs to the step that
  ends the history and has a new identifier; compaction cuts where no exchange is open.
\<close>

fun op_allowed :: "context_memory \<Rightarrow> ctx_op \<Rightarrow> bool" where
  "op_allowed s (Op_Append now m) = simple_message m"
| "op_allowed s (Op_Loop_Event now (Ctx_Tool_Call step i name args)) =
     (case map_of (cx_open_steps s) step of
        None \<Rightarrow> True
      | Some k \<Rightarrow> cx_history s \<noteq> [] \<and> fst (last (cx_history s)) = k \<and> i \<notin> set (cx_pending s))"
| "op_allowed s (Op_Apply_Compaction now res) =
     (exchange [] (take (cr_compacted_count res) (history s)) = Some [])"
| "op_allowed s _ = True"

text \<open>
  A conversation: the recorded operations, the messages taken back without a record
  (\<open>popMatchedMessage\<close>, with the predicate of the caller), and the end of a resume. The
  predicates of the source look for an origin and refuse a message that has none.
\<close>

datatype conv_op =
    Recorded ctx_op
  | Take_Back "prompt_origin option \<Rightarrow> bool"
  | End_Resume int

fun conv_step :: "context_memory \<Rightarrow> conv_op \<Rightarrow> context_memory" where
  "conv_step s (Recorded op) = fst (ctx_step s op)"
| "conv_step s (Take_Back matcher) = fst (pop_matched_message matcher s)"
| "conv_step s (End_Resume now) = fst (finish_resume now s)"

fun conv_allowed :: "context_memory \<Rightarrow> conv_op \<Rightarrow> bool" where
  "conv_allowed s (Recorded op) = op_allowed s op"
| "conv_allowed s (Take_Back matcher) = (\<not> matcher None)"
| "conv_allowed s (End_Resume now) = True"

abbreviation keeps_protocol :: "context_memory \<Rightarrow> conv_op list \<Rightarrow> bool" where
  "keeps_protocol \<equiv> allowed_run conv_step conv_allowed"

subsection \<open>Every operation keeps the protocol\<close>

definition context_core :: "context_memory \<Rightarrow> bool" where
  "context_core s \<longleftrightarrow>
     exchange [] (history s) = Some (cx_pending s) \<and> distinct (cx_pending s) \<and>
     list_all simple_message (cx_deferred s) \<and>
     (\<forall>m \<in> set (history s). cm_origin m \<noteq> None \<longrightarrow> simple_message m)"

lemma context_inv_core: "context_inv s \<longleftrightarrow> context_core s \<and> (cx_deferred s \<noteq> [] \<longrightarrow> cx_pending s \<noteq> [])"
  by (auto simp: context_inv_def context_core_def)

lemma history_push [simp]: "history (push_history now ms s) = history s @ ms"
  by simp

lemma core_push:
  assumes "context_core s" "cx_pending s = []" "list_all simple_message ms"
  shows "context_core (push_history now ms s)"
  using assms unfolding context_core_def history_push
  by (auto simp: exchange_append exchange_simple list_all_iff)

lemma core_deferred: "context_core s \<Longrightarrow> context_core (s\<lparr>cx_deferred := []\<rparr>)"
  by (simp add: context_core_def)

lemma flush_inv:
  assumes core: "context_core s"
  shows "context_inv (flush_deferred now s)"
proof (cases "cx_pending s \<noteq> [] \<or> cx_deferred s = []")
  case True
  then show ?thesis
    using core by (auto simp: flush_deferred_def context_inv_core)
next
  case False
  then have "flush_deferred now s = (push_history now (cx_deferred s) s)\<lparr>cx_deferred := []\<rparr>"
    by (simp add: flush_deferred_def)
  moreover have "context_core ((push_history now (cx_deferred s) s)\<lparr>cx_deferred := []\<rparr>)"
    using core False by (intro core_deferred core_push) (simp_all add: context_core_def)
  ultimately show ?thesis
    by (simp add: context_inv_core)
qed

lemma append_message_inv:
  assumes "context_inv s" "simple_message m"
  shows "context_inv (fst (append_message now m s))"
proof (cases "cx_pending s = []")
  case True
  then show ?thesis
    using assms core_push [of s "[m]" now] by (simp add: append_message_def context_inv_core)
next
  case False
  then show ?thesis
    using assms by (simp add: append_message_def context_inv_def)
qed

lemma core_result:
  assumes core: "context_core s" and i: "i \<in> set (cx_pending s)"
  shows "context_core ((push_history now [tool_message i r] s)\<lparr>cx_pending := removeAll i (cx_pending s)\<rparr>)"
  using assms unfolding context_core_def
  by (auto simp: exchange_snoc tool_message_def plain_message_def distinct_removeAll)

lemma apply_tool_result_inv: "context_inv s \<Longrightarrow> context_inv (apply_tool_result now i r s)"
  using flush_inv [OF core_result [of s i now r]]
  by (simp add: apply_tool_result_def Let_def context_inv_core)

lemma close_pending_inv: "context_inv s \<Longrightarrow> context_inv (fst (close_pending now s))"
proof -
  have "context_inv s \<Longrightarrow> context_inv (foldl (\<lambda>s i. apply_tool_result now i interrupted_result s) s xs)" for xs
    by (induction xs arbitrary: s) (simp_all add: apply_tool_result_inv)
  then show "context_inv s \<Longrightarrow> context_inv (fst (close_pending now s))"
    by (simp add: close_pending_def)
qed

lemma inv_open_steps [simp]: "context_inv (s\<lparr>cx_open_steps := x\<rparr>) = context_inv s"
    "context_core (s\<lparr>cx_open_steps := x\<rparr>) = context_core s"
  by (simp_all add: context_inv_def context_core_def)

lemma step_begin_inv: "context_inv s \<Longrightarrow> context_inv (fst (fst (apply_loop_event now (Ctx_Step_Begin u) s)))"
  using close_pending_inv [of s now] core_push [of "fst (close_pending now s)" "[plain_message Role_Assistant [] None]" now]
  by (simp add: Let_def split_def context_inv_core simple_message_def plain_message_def)

lemma end_step_usage_covered:
  "cx_covered (end_step_usage k u s) \<le> length (cx_history s)"
  by (auto simp: end_step_usage_def Let_def dest: find_index_Some split: option.split)

lemma end_step_usage_core: "context_core s \<Longrightarrow> context_core (end_step_usage k u s)"
  using end_step_usage_covered [of k u s] by (simp add: context_core_def end_step_usage_def Let_def)

lemma step_end_inv: "context_inv s \<Longrightarrow> context_inv (fst (fst (apply_loop_event now (Ctx_Step_End u usage) s)))"
  by (auto simp: Let_def context_inv_core [of s] split: option.split intro!: flush_inv end_step_usage_core)

text \<open>What the protocol sees of a message.\<close>

definition shape :: "context_message \<Rightarrow> msg_role \<times> string option \<times> ctx_call list \<times> prompt_origin option" where
  "shape m = (cm_role m, cm_call_id m, cm_calls m, cm_origin m)"

lemma exchange_shape: "map shape xs = map shape ys \<Longrightarrow> exchange p xs = exchange p ys"
proof (induction xs arbitrary: p ys)
  case (Cons x xs)
  then obtain y ys' where "ys = y # ys'" "shape x = shape y" "map shape xs = map shape ys'"
    by (cases ys) auto
  moreover have "exchange q xs = exchange q ys'" for q
    using \<open>map shape xs = map shape ys'\<close> by (rule Cons.IH)
  moreover have "cm_role x = cm_role y" "cm_call_id x = cm_call_id y" "cm_calls x = cm_calls y"
    using \<open>shape x = shape y\<close> by (simp_all add: shape_def)
  ultimately show ?case
    by (simp split: option.split)
qed simp

lemma content_part_inv: "context_inv s \<Longrightarrow> context_inv (update_message k (\<lambda>m. m\<lparr>cm_content := f m\<rparr>) s)"
proof -
  assume inv: "context_inv s"
  let ?s = "update_message k (\<lambda>m. m\<lparr>cm_content := f m\<rparr>) s"
  have "map shape (history ?s) = map shape (history s)"
    by (auto simp: update_message_def shape_def)
  then have "exchange [] (history ?s) = exchange [] (history s)"
    by (rule exchange_shape)
  moreover have "\<forall>m \<in> set (history ?s). cm_origin m \<noteq> None \<longrightarrow> simple_message m"
    using inv by (force simp: update_message_def context_inv_def simple_message_def split: if_splits)
  moreover have "length (cx_history ?s) = length (cx_history s)"
    by (simp add: update_message_def)
  ultimately show ?thesis
    using inv by (simp add: context_inv_def)
qed

lemma update_last:
  assumes "objects_inv s" "cx_history s = pre @ [(k, m)]"
  shows "cx_history (update_message k f s) = pre @ [(k, f m)]"
proof -
  have "k \<notin> fst ` set pre"
    using assms by (auto simp: objects_inv_def)
  then have "map (\<lambda>(i, m). if i = k then (i, f m) else (i, m)) pre = pre"
    by (intro map_idI) force
  then show ?thesis
    using assms(2) by (simp add: update_message_def)
qed

lemma tool_call_inv:
  assumes inv: "context_inv s" and obj: "objects_inv s" and k: "map_of (cx_open_steps s) step = Some k"
    and last: "cx_history s \<noteq> []" "fst (last (cx_history s)) = k" and new: "i \<notin> set (cx_pending s)"
  shows "context_inv ((update_message k (\<lambda>m. m\<lparr>cm_calls := cm_calls m @ [\<lparr>cc_id = i, cc_name = n, cc_arguments = a\<rparr>]\<rparr>) s)
    \<lparr>cx_pending := set_add i (cx_pending s)\<rparr>)"
proof -
  obtain pre m where pre: "cx_history s = pre @ [(k, m)]"
    using last by (metis append_butlast_last_id prod.collapse)
  have role: "cm_role m = Role_Assistant" "cm_origin m = None"
    using obj map_of_SomeD [OF k] pre by (fastforce simp: objects_inv_def)+
  have "exchange [] (map snd pre) = Some []" "cx_pending s = map cc_id (cm_calls m)"
    using inv pre role by (auto simp: context_inv_def exchange_snoc split: option.splits if_splits)
  then show ?thesis
    using inv pre role new update_last [OF obj pre]
    by (auto simp: context_inv_def exchange_snoc set_add_def)
qed

lemma undo_scan_keeps:
  assumes "undo_scan xs wanted c t r = (kept, c', t', r', st)"
    and "exchange [] (map snd (rev xs)) \<noteq> None" "\<forall>(k, m) \<in> set xs. cm_origin m \<noteq> None \<longrightarrow> simple_message m"
    and "c \<le> length xs + extra"
  shows "exchange [] (map snd kept) = Some [] \<and> set kept \<subseteq> set xs \<and>
    (distinct (map fst xs) \<longrightarrow> distinct (map fst kept)) \<and> c' \<le> length kept + extra"
  using assms
proof (induction xs arbitrary: c t r kept c' t' r' st extra)
  case (Cons x older)
  obtain k m where x: "x = (k, m)"
    by force
  obtain q where q: "exchange [] (map snd (rev older)) = Some q"
    using Cons.prems(2) by (auto simp: x exchange_snoc split: option.splits)
  show ?case
  proof (cases "is_injection (cm_origin m)")
    case True
    then have "simple_message m"
      using Cons.prems(3) x by (cases "cm_origin m") auto
    obtain kept1 where rest: "undo_scan older wanted c t r = (kept1, c', t', r', st)" "kept = kept1 @ [(k, m)]"
      using Cons.prems(1) True x by (auto split: prod.splits)
    have "exchange [] (map snd kept1) = Some [] \<and> set kept1 \<subseteq> set older \<and>
        (distinct (map fst older) \<longrightarrow> distinct (map fst kept1)) \<and> c' \<le> length kept1 + Suc extra"
      using Cons.prems q by (intro Cons.IH [OF rest(1)]) auto
    then show ?thesis
      using rest(2) x \<open>simple_message m\<close> by (auto simp: exchange_snoc simple_message_def)
  next
    case noinj: False
    show ?thesis
    proof (cases "cm_origin m = Some Origin_Compaction_Summary")
      case True
      then have "kept = rev (x # older)" "c' = c"
        using Cons.prems(1) noinj x by auto
      moreover have "exchange [] (map snd (rev (x # older))) = Some []"
        using Cons.prems(2,3) True x q by (auto simp: exchange_snoc simple_message_def split: if_splits)
      ultimately show ?thesis
        using Cons.prems(4) by (simp add: rev_map [symmetric])
    next
      case False
      define d where "d = (if length older < c then c - 1 else c)"
      have d: "d \<le> length older + extra"
        using Cons.prems(4) by (auto simp: d_def)
      show ?thesis
      proof (cases "is_real_user_prompt m \<and> r + 1 \<ge> wanted")
        case True
        then have "kept = rev older" "c' = d"
          using Cons.prems(1) noinj False x by (auto simp: d_def Let_def)
        moreover have "q = []"
          using Cons.prems(2) True q x by (auto simp: exchange_snoc is_real_user_prompt_def split: if_splits)
        ultimately show ?thesis
          using q d by (auto simp: rev_map [symmetric])
      next
        case stay: False
        then obtain t1 r1 where rest: "undo_scan older wanted d t1 r1 = (kept, c', t', r', st)"
          using Cons.prems(1) noinj False x by (auto simp: d_def Let_def split: if_splits)
        have "exchange [] (map snd kept) = Some [] \<and> set kept \<subseteq> set older \<and>
            (distinct (map fst older) \<longrightarrow> distinct (map fst kept)) \<and> c' \<le> length kept + extra"
          using Cons.prems q d by (intro Cons.IH [OF rest]) auto
        then show ?thesis
          using x by auto
      qed
    qed
  qed
qed simp

lemma undo_inv:
  assumes inv: "context_inv s" and obj: "objects_inv s"
  shows "context_inv (fst (fst (undo restoring wanted s)))" "objects_inv (fst (fst (undo restoring wanted s)))"
proof -
  obtain kept c t r st where scan: "undo_scan (rev (cx_history s)) wanted (cx_covered s) (cx_token_count s) 0 = (kept, c, t, r, st)"
    by (cases "undo_scan (rev (cx_history s)) wanted (cx_covered s) (cx_token_count s) 0") auto
  have facts: "exchange [] (map snd kept) = Some [] \<and> set kept \<subseteq> set (rev (cx_history s)) \<and>
      (distinct (map fst (rev (cx_history s))) \<longrightarrow> distinct (map fst kept)) \<and> c \<le> length kept + cx_covered s"
    by (rule undo_scan_keeps [OF scan]) (use inv in \<open>auto simp: context_inv_def\<close>)
  define s1 where "s1 = micro_reset (length kept)
    (s\<lparr>cx_history := kept, cx_covered := c, cx_token_count := t, cx_open_steps := [], cx_pending := [], cx_deferred := []\<rparr>)"
  have "context_inv s1"
    using facts inv by (auto simp: s1_def micro_reset_def context_inv_def)
  moreover have "objects_inv s1"
    using facts obj by (auto simp: s1_def micro_reset_def objects_inv_def rev_map [symmetric])
  moreover have "fst (fst (undo restoring wanted s)) = (if wanted \<le> 0 \<or> cx_history s = [] then s else s1)"
    by (simp add: undo_def scan s1_def Let_def)
  ultimately show "context_inv (fst (fst (undo restoring wanted s)))" "objects_inv (fst (fst (undo restoring wanted s)))"
    using inv obj by simp_all
qed

lemma exchange_drop:
  assumes "exchange [] (take n ms) = Some []" "exchange [] ms = Some p"
  shows "exchange [] (drop n ms) = Some p"
  using assms exchange_append [of "[]" "take n ms" "drop n ms"] by simp

lemma push_history_covered:
  "push_history now ms (u\<lparr>cx_covered := n\<rparr>) = (push_history now ms u)\<lparr>cx_covered := n\<rparr>"
proof (induction ms arbitrary: u)
  case (Cons m ms)
  have "push_one now m (u\<lparr>cx_covered := n\<rparr>) = (push_one now m u)\<lparr>cx_covered := n\<rparr>"
    by (simp add: push_one_def)
  with Cons.IH show ?case
    by (simp add: push_history_Cons)
qed simp

lemma compaction_inv:
  assumes inv: "context_inv s" and cut: "exchange [] (take (cr_compacted_count res) (history s)) = Some []"
  shows "context_inv (fst (apply_compaction now res s))"
proof -
  define summary where "summary = plain_message Role_Assistant [TextPart (cr_summary res)] (Some Origin_Compaction_Summary)"
  define s0 where "s0 = s\<lparr>cx_history := (cx_next s, summary) # drop (cr_compacted_count res) (cx_history s),
    cx_next := Suc (cx_next s), cx_open_steps := [], cx_covered := 0\<rparr>"
  have "exchange [] (history s0) = Some (cx_pending s)"
    using exchange_drop [OF cut] inv
    by (simp add: s0_def summary_def plain_message_def context_inv_def drop_map)
  moreover have "\<forall>m \<in> set (history s0). cm_origin m \<noteq> None \<longrightarrow> simple_message m"
    using inv set_drop_subset [of "cr_compacted_count res" "cx_history s"]
    by (force simp: s0_def summary_def plain_message_def context_inv_def simple_message_def)
  ultimately have "context_inv (flush_deferred now s0)"
    using inv by (intro flush_inv) (simp add: context_core_def context_inv_def s0_def)
  moreover have "flush_deferred now (s0\<lparr>cx_covered := n\<rparr>) = (flush_deferred now s0)\<lparr>cx_covered := n\<rparr>" for n
  proof -
    have "push_history now ms (u\<lparr>cx_covered := n\<rparr>) = (push_history now ms u)\<lparr>cx_covered := n\<rparr>" for ms u
      by (rule push_history_covered)
    then show ?thesis
      by (simp add: flush_deferred_def)
  qed
  from this [of "cx_covered s"] have "fst (apply_compaction now res s) = micro_reset 0 ((flush_deferred now s0)
      \<lparr>cx_token_count := cr_tokens_after res, cx_covered := length (cx_history (flush_deferred now s0))\<rparr>)"
    by (simp add: apply_compaction_def s0_def summary_def Let_def)
  ultimately show ?thesis
    by (simp add: context_inv_def micro_reset_def)
qed

lemma objectsD:
  assumes "objects_inv s"
  shows "distinct (map fst (cx_history s))" "(k, m) \<in> set (cx_history s) \<Longrightarrow> k < cx_next s"
    "(u, k) \<in> set (cx_open_steps s) \<Longrightarrow> k < cx_next s"
    "(u, k) \<in> set (cx_open_steps s) \<Longrightarrow> (k, m) \<in> set (cx_history s) \<Longrightarrow>
       cm_role m = Role_Assistant \<and> cm_origin m = None"
  using assms unfolding objects_inv_def by blast+

lemma objectsI:
  assumes "distinct (map fst (cx_history s))" "\<And>k m. (k, m) \<in> set (cx_history s) \<Longrightarrow> k < cx_next s"
    and "\<And>u k. (u, k) \<in> set (cx_open_steps s) \<Longrightarrow> k < cx_next s"
    and "\<And>u k m. (u, k) \<in> set (cx_open_steps s) \<Longrightarrow> (k, m) \<in> set (cx_history s) \<Longrightarrow>
       cm_role m = Role_Assistant \<and> cm_origin m = None"
  shows "objects_inv s"
  using assms unfolding objects_inv_def by blast

lemma objects_push_one:
  assumes "objects_inv s"
  shows "objects_inv (push_one now m s)"
proof (rule objectsI)
  show "distinct (map fst (cx_history (push_one now m s)))"
    using objectsD(1,2) [OF assms] by force
next
  fix u k m'
  assume "(u, k) \<in> set (cx_open_steps (push_one now m s))" "(k, m') \<in> set (cx_history (push_one now m s))"
  then have k: "(u, k) \<in> set (cx_open_steps s)" and m': "(k, m') \<in> set (cx_history s) \<or> k = cx_next s"
    by auto
  then have "k \<noteq> cx_next s"
    using objectsD(3) [OF assms k] by simp
  then show "cm_role m' = Role_Assistant \<and> cm_origin m' = None"
    using m' objectsD(4) [OF assms k] by blast
qed (use objectsD(2,3) [OF assms] in \<open>auto simp: less_Suc_eq\<close>)

lemma objects_more:
  assumes "objects_inv s"
  shows "objects_inv (push_history now ms s)"
  using assms
proof (induction ms arbitrary: s)
  case (Cons m ms)
  have "objects_inv (push_one now m s)"
    using Cons.prems by (rule objects_push_one)
  then show ?case
    using Cons.IH by (simp add: push_history_Cons)
qed simp

lemma objects_fields [simp]:
  "objects_inv (s\<lparr>cx_pending := p\<rparr>) = objects_inv s" "objects_inv (s\<lparr>cx_deferred := d\<rparr>) = objects_inv s"
  "objects_inv (s\<lparr>cx_token_count := t\<rparr>) = objects_inv s" "objects_inv (s\<lparr>cx_covered := n\<rparr>) = objects_inv s"
  "objects_inv (s\<lparr>cx_cutoff := n\<rparr>) = objects_inv s"
  by (simp_all add: objects_inv_def)

lemma objects_flush: "objects_inv s \<Longrightarrow> objects_inv (flush_deferred now s)"
  by (simp add: flush_deferred_def objects_more)

lemma objects_result: "objects_inv s \<Longrightarrow> objects_inv (apply_tool_result now i r s)"
  unfolding apply_tool_result_def Let_def by (cases "i \<in> set (cx_pending s)") (simp_all add: objects_flush objects_more)

lemma objects_close: "objects_inv s \<Longrightarrow> objects_inv (fst (close_pending now s))"
proof -
  have "objects_inv s \<Longrightarrow> objects_inv (foldl (\<lambda>s i. apply_tool_result now i interrupted_result s) s xs)" for xs
    by (induction xs arbitrary: s) (simp_all add: objects_result)
  then show "objects_inv s \<Longrightarrow> objects_inv (fst (close_pending now s))"
    by (simp add: close_pending_def)
qed

lemma objects_update:
  assumes obj: "objects_inv s" and same: "\<And>m. cm_role (f m) = cm_role m \<and> cm_origin (f m) = cm_origin m"
  shows "objects_inv (update_message k f s)"
proof (rule objectsI)
  have old: "\<exists>m'. (j, m') \<in> set (cx_history s) \<and> cm_role m' = cm_role m \<and> cm_origin m' = cm_origin m"
    if "(j, m) \<in> set (cx_history (update_message k f s))" for j m
    using that same by (auto simp: update_message_def split: if_splits)
  have "map fst (cx_history (update_message k f s)) = map fst (cx_history s)"
    by (auto simp: update_message_def)
  then show "distinct (map fst (cx_history (update_message k f s)))"
    using objectsD(1) [OF obj] by simp
  show "j < cx_next (update_message k f s)" if "(j, m) \<in> set (cx_history (update_message k f s))" for j m
    using old [OF that] objectsD(2) [OF obj] by auto
  show "j < cx_next (update_message k f s)" if "(u, j) \<in> set (cx_open_steps (update_message k f s))" for u j
    using that objectsD(3) [OF obj] by simp
  show "cm_role m = Role_Assistant \<and> cm_origin m = None"
    if "(u, j) \<in> set (cx_open_steps (update_message k f s))" "(j, m) \<in> set (cx_history (update_message k f s))" for u j m
    using old [OF that(2)] that(1) objectsD(4) [OF obj] by fastforce
qed

lemma objects_open:
  assumes obj: "objects_inv s"
  shows "objects_inv ((push_history now [plain_message Role_Assistant [] None] s)
    \<lparr>cx_open_steps := AList.update u (cx_next s) (cx_open_steps s)\<rparr>)" (is "objects_inv ?t")
proof (rule objectsI)
  note pushed = objectsD [OF objects_more [OF obj, of now "[plain_message Role_Assistant [] None]"]]
  have steps: "set (cx_open_steps ?t) \<subseteq> insert (u, cx_next s) (set (cx_open_steps s))"
    by (simp add: set_AList_update)
  show "distinct (map fst (cx_history ?t))"
    using pushed(1) by simp
  show "k < cx_next ?t" if "(k, m) \<in> set (cx_history ?t)" for k m
    using pushed(2) that by simp
  show "k < cx_next ?t" if "(v, k) \<in> set (cx_open_steps ?t)" for v k
    using steps that objectsD(3) [OF obj] by (fastforce simp: less_Suc_eq)
  show "cm_role m = Role_Assistant \<and> cm_origin m = None"
    if k: "(v, k) \<in> set (cx_open_steps ?t)" and m: "(k, m) \<in> set (cx_history ?t)" for v k m
  proof -
    consider "(k, m) \<in> set (cx_history s)" | "k = cx_next s" "m = plain_message Role_Assistant [] None"
      using m by auto
    then show ?thesis
    proof cases
      case 1
      then have "(v, k) \<in> set (cx_open_steps s)"
        using steps k objectsD(2) [OF obj] by blast
      then show ?thesis
        using 1 objectsD(4) [OF obj] by blast
    qed (simp add: plain_message_def)
  qed
qed

lemma objects_close_step:
  assumes "objects_inv s"
  shows "objects_inv (s\<lparr>cx_open_steps := AList.delete u (cx_open_steps s)\<rparr>)"
  using objectsD [OF assms] by (intro objectsI) (auto simp: AList.delete_eq)

lemma objects_loop_event: "objects_inv s \<Longrightarrow> objects_inv (fst (fst (apply_loop_event now ev s)))"
proof (cases ev)
  case (Ctx_Step_Begin u)
  assume "objects_inv s"
  from objects_open [OF objects_close [OF this, where now = now], where now = now and u = u] show ?thesis
    by (simp add: Ctx_Step_Begin Let_def split_def)
next
  case (Ctx_Step_End u usage)
  assume "objects_inv s"
  from objects_close_step [OF this] show ?thesis
    by (simp add: Ctx_Step_End Let_def end_step_usage_def objects_flush split: option.split)
qed (auto simp: objects_update objects_result split: option.split)

lemma objects_compaction: "objects_inv s \<Longrightarrow> objects_inv (fst (apply_compaction now res s))"
proof -
  assume obj: "objects_inv s"
  let ?summary = "plain_message Role_Assistant [TextPart (cr_summary res)] (Some Origin_Compaction_Summary)"
  let ?h = "drop (cr_compacted_count res) (cx_history s)"
  have sub: "set ?h \<subseteq> set (cx_history s)" "distinct (map fst ?h)"
    using obj by (simp_all add: set_drop_subset objects_inv_def drop_map [symmetric])
  have "cx_next s \<notin> fst ` set ?h"
    using sub obj unfolding objects_inv_def by fastforce
  then have "objects_inv (s\<lparr>cx_history := (cx_next s, ?summary) # ?h, cx_next := Suc (cx_next s), cx_open_steps := []\<rparr>)"
    using obj sub unfolding objects_inv_def by (fastforce simp: less_Suc_eq)
  then show ?thesis
    by (simp add: apply_compaction_def Let_def micro_reset_def objects_flush)
qed

definition context_ok :: "context_memory \<Rightarrow> bool" where
  "context_ok s \<longleftrightarrow> context_inv s \<and> objects_inv s"

lemma loop_event_inv:
  assumes "context_ok s" "op_allowed s (Op_Loop_Event now ev)"
  shows "context_inv (fst (fst (apply_loop_event now ev s)))"
proof (cases ev)
  case (Ctx_Step_Begin u)
  then show ?thesis
    using assms(1) step_begin_inv [of s now u] by (simp only: context_ok_def)
next
  case (Ctx_Step_End u usage)
  then show ?thesis
    using assms(1) step_end_inv [of s now u usage] by (simp only: context_ok_def)
next
  case (Ctx_Tool_Call step i n a)
  then show ?thesis
    using assms by (auto simp: context_ok_def intro!: tool_call_inv split: option.split)
qed (use assms(1) in \<open>auto simp: context_ok_def content_part_inv apply_tool_result_inv split: option.split\<close>)

lemma ctx_step_ok:
  assumes ok: "context_ok s" and allowed: "op_allowed s op"
  shows "context_ok (fst (ctx_step s op))"
proof (cases op)
  case (Op_Append now m)
  have "context_ok (fst (append_message now m s))"
    using ok allowed Op_Append append_message_inv [of s m now] objects_more [of s now "[m]"]
    by (simp add: context_ok_def append_message_def)
  then show ?thesis
    by (simp add: Op_Append split_def Let_def)
next
  case (Op_Loop_Event now ev)
  have "context_ok (fst (fst (apply_loop_event now ev s)))"
    using ok allowed Op_Loop_Event loop_event_inv [of s now ev] objects_loop_event [of s now ev]
    by (simp add: context_ok_def)
  then show ?thesis
    by (simp add: Op_Loop_Event append_loop_event_def split_def Let_def)
next
  case Op_Clear
  then show ?thesis
    by (simp add: clear_context_def micro_reset_def Let_def context_ok_def context_inv_def objects_inv_def)
next
  case (Op_Undo wanted)
  have "context_ok (fst (fst (undo False wanted s)))"
    using ok undo_inv by (simp add: context_ok_def)
  then show ?thesis
    by (simp add: Op_Undo split_def Let_def)
next
  case (Op_Apply_Compaction now res)
  have "context_ok (fst (apply_compaction now res s))"
    using ok allowed Op_Apply_Compaction compaction_inv objects_compaction by (simp add: context_ok_def)
  then show ?thesis
    by (simp add: Op_Apply_Compaction split_def Let_def)
next
  case (Op_Micro_Apply k)
  then show ?thesis
    using ok by (simp add: micro_apply_def Let_def context_ok_def context_inv_def)
qed

text \<open>Taking a message back removes a simple one, so no exchange is opened or closed by it.\<close>

lemma pop_history_ok:
  assumes ok: "context_ok s" and cx: "cx_history s = pre @ [(k, m)]" and m: "cm_origin m \<noteq> None"
  shows "context_ok (s\<lparr>cx_history := pre\<rparr>)"
proof -
  have "simple_message m"
    using ok cx m by (auto simp: context_ok_def context_inv_def)
  then have "exchange [] (map snd pre) = Some (cx_pending s)"
    using ok cx by (auto simp: context_ok_def context_inv_def exchange_snoc simple_message_def split: option.splits if_splits)
  moreover have "objects_inv (s\<lparr>cx_history := pre\<rparr>)"
    using ok cx unfolding context_ok_def objects_inv_def by auto
  ultimately show ?thesis
    using ok cx by (auto simp: context_ok_def context_inv_def)
qed

lemma pop_matched_ok:
  assumes ok: "context_ok s" and tagged: "\<not> matcher None"
  shows "context_ok (fst (pop_matched_message matcher s))"
proof (cases "cx_deferred s = []")
  case False
  then obtain d m where "cx_deferred s = d @ [m]"
    by (metis append_butlast_last_id)
  then have "context_ok (s\<lparr>cx_deferred := butlast (cx_deferred s)\<rparr>)"
    using ok by (simp add: context_ok_def context_inv_def)
  then show ?thesis
    using ok False by (simp add: pop_matched_message_def)
next
  case True
  show ?thesis
  proof (cases "cx_history s" rule: rev_cases)
    case (snoc pre x)
    obtain k m where x: "x = (k, m)"
      by force
    have "matcher (cm_origin m) \<Longrightarrow> cm_origin m \<noteq> None"
      using tagged by metis
    then show ?thesis
      using ok True snoc pop_history_ok [OF ok, of pre k m] by (simp add: pop_matched_message_def x)
  qed (use ok True in \<open>simp add: pop_matched_message_def\<close>)
qed

lemma finish_resume_ok: "context_ok s \<Longrightarrow> context_ok (fst (finish_resume now s))"
proof -
  assume ok: "context_ok s"
  then have "objects_inv (s\<lparr>cx_open_steps := []\<rparr>)"
    by (simp add: context_ok_def objects_inv_def)
  then show "context_ok (fst (finish_resume now s))"
    using ok unfolding finish_resume_def
    by (simp add: context_ok_def close_pending_inv objects_close del: close_pending_empty)
qed

lemma conv_step_ok: "context_ok s \<Longrightarrow> conv_allowed s op \<Longrightarrow> context_ok (conv_step s op)"
  by (cases op) (simp_all add: ctx_step_ok pop_matched_ok finish_resume_ok del: op_allowed.simps ctx_step.simps)

interpretation conversation: guarded_machine conv_step conv_allowed context_ok
  by unfold_locales (rule conv_step_ok)

subsection \<open>Messages are kept in order\<close>

definition said :: "context_memory \<Rightarrow> context_message list" where
  "said s = filter (\<lambda>m. cm_origin m \<noteq> None) (history s) @ cx_deferred s"

fun op_says :: "ctx_op \<Rightarrow> context_message list" where
  "op_says (Op_Append now m) = [m]"
| "op_says _ = []"

text \<open>The operations of a running turn: messages with an origin, and loop events.\<close>

fun turn_op :: "ctx_op \<Rightarrow> bool" where
  "turn_op (Op_Append now m) = (cm_origin m \<noteq> None)"
| "turn_op (Op_Loop_Event now ev) = True"
| "turn_op _ = False"

definition deferred_tagged :: "context_memory \<Rightarrow> bool" where
  "deferred_tagged s \<longleftrightarrow> list_all (\<lambda>m. cm_origin m \<noteq> None) (cx_deferred s)"

lemma said_flush:
  "deferred_tagged s \<Longrightarrow> said (flush_deferred now s) = said s \<and> deferred_tagged (flush_deferred now s)"
  unfolding flush_deferred_def said_def deferred_tagged_def
  by (auto simp: list_all_iff history_push [unfolded push_history_frame] simp del: push_history_frame(7)
      intro: filter_True)

lemma said_result: "deferred_tagged s \<Longrightarrow>
    said (apply_tool_result now i r s) = said s \<and> deferred_tagged (apply_tool_result now i r s)"
  unfolding apply_tool_result_def Let_def
  using said_flush [of "(push_history now [tool_message i r] s)\<lparr>cx_pending := removeAll i (cx_pending s)\<rparr>" now]
  by (auto simp: said_def deferred_tagged_def tool_message_def plain_message_def)

lemma said_close: "deferred_tagged s \<Longrightarrow>
    said (fst (close_pending now s)) = said s \<and> deferred_tagged (fst (close_pending now s))"
proof -
  have "deferred_tagged s \<Longrightarrow>
      said (foldl (\<lambda>s i. apply_tool_result now i interrupted_result s) s xs) = said s \<and>
      deferred_tagged (foldl (\<lambda>s i. apply_tool_result now i interrupted_result s) s xs)" for xs
    by (induction xs arbitrary: s) (simp_all add: said_result)
  then show "deferred_tagged s \<Longrightarrow>
      said (fst (close_pending now s)) = said s \<and> deferred_tagged (fst (close_pending now s))"
    by (simp add: close_pending_def)
qed

lemma said_update:
  assumes "objects_inv s" "map_of (cx_open_steps s) u = Some k" "\<And>m. cm_origin (f m) = cm_origin m"
  shows "filter (\<lambda>m. cm_origin m \<noteq> None) (history (update_message k f s)) =
    filter (\<lambda>m. cm_origin m \<noteq> None) (history s)"
proof -
  have "\<forall>m. (k, m) \<in> set (cx_history s) \<longrightarrow> cm_origin m = None"
    using objectsD(4) [OF assms(1) map_of_SomeD [OF assms(2)]] by blast
  moreover have "\<forall>m. (k, m) \<in> set h \<longrightarrow> cm_origin m = None \<Longrightarrow>
      filter (\<lambda>m. cm_origin m \<noteq> None) (map snd (map (\<lambda>(i, m). if i = k then (i, f m) else (i, m)) h)) =
      filter (\<lambda>m. cm_origin m \<noteq> None) (map snd h)" for h
  proof (induction h)
    case (Cons p h)
    have "filter (\<lambda>m. cm_origin m \<noteq> None) (map snd (map (\<lambda>(i, m). if i = k then (i, f m) else (i, m)) h)) =
        filter (\<lambda>m. cm_origin m \<noteq> None) (map snd h)"
      by (rule Cons.IH) (meson Cons.prems list.set_intros(2))
    moreover obtain i m where p: "p = (i, m)"
      by force
    moreover have "i = k \<Longrightarrow> cm_origin m = None"
      using Cons.prems p by (metis list.set_intros(1))
    moreover have "cm_origin (f m) = cm_origin m"
      by (rule assms(3))
    ultimately show ?case
      by (cases "i = k")
        (simp_all only: list.map filter.simps prod.case snd_conv simp_thms if_True if_False)
  qed simp
  ultimately show ?thesis
    by (simp add: update_message_def)
qed

lemma said_loop_event:
  assumes obj: "objects_inv s" and tagged: "deferred_tagged s"
  shows "said (fst (fst (apply_loop_event now ev s))) = said s \<and> deferred_tagged (fst (fst (apply_loop_event now ev s)))"
proof (cases ev)
  case (Ctx_Step_Begin u)
  then show ?thesis
    using said_close [OF tagged, of now]
    by (simp add: Let_def split_def said_def deferred_tagged_def plain_message_def)
next
  case (Ctx_Step_End u usage)
  define s1 where "s1 = (case usage of None \<Rightarrow> s\<lparr>cx_open_steps := AList.delete u (cx_open_steps s)\<rparr>
    | Some w \<Rightarrow> end_step_usage (map_of (cx_open_steps s) u) w (s\<lparr>cx_open_steps := AList.delete u (cx_open_steps s)\<rparr>))"
  have "said s1 = said s \<and> deferred_tagged s1"
    using tagged by (simp add: s1_def said_def deferred_tagged_def end_step_usage_def Let_def split: option.split)
  then show ?thesis
    using said_flush [of s1 now] by (simp add: Ctx_Step_End s1_def Let_def)
next
  case (Ctx_Content_Part u part)
  then show ?thesis
    using said_update [OF obj, of u _ "\<lambda>m. m\<lparr>cm_content := cm_content m @ [part]\<rparr>"] tagged
    by (auto simp: said_def deferred_tagged_def split: option.split)
next
  case (Ctx_Tool_Call u i n a)
  then show ?thesis
    using said_update [OF obj, of u _ "\<lambda>m. m\<lparr>cm_calls := cm_calls m @ [\<lparr>cc_id = i, cc_name = n, cc_arguments = a\<rparr>]\<rparr>"] tagged
    by (auto simp: said_def deferred_tagged_def split: option.split)
qed (simp add: said_result tagged)

lemma said_step:
  assumes "context_ok s" "deferred_tagged s" "turn_op op" "op_allowed s op"
  shows "said (fst (ctx_step s op)) = said s @ op_says op \<and> deferred_tagged (fst (ctx_step s op))"
proof (cases op)
  case (Op_Append now m)
  have "cx_pending s = [] \<Longrightarrow> cx_deferred s = []"
    using assms(1) by (auto simp: context_ok_def context_inv_def)
  then show ?thesis
    using assms Op_Append by (auto simp: append_message_def said_def deferred_tagged_def Let_def)
next
  case (Op_Loop_Event now ev)
  then show ?thesis
    using said_loop_event [of s now ev] assms
    by (simp add: append_loop_event_def split_def Let_def context_ok_def)
qed (use assms(3) in auto)

lemma said_run:
  assumes "context_ok s" "deferred_tagged s" "list_all turn_op ops" "keeps_protocol s (map Recorded ops)"
  shows "said (foldl conv_step s (map Recorded ops)) = said s @ concat (map op_says ops)"
  using assms
proof (induction ops arbitrary: s)
  case (Cons op ops)
  then have "said (conv_step s (Recorded op)) = said s @ op_says op \<and> deferred_tagged (conv_step s (Recorded op))"
    using said_step [of s op] by (simp del: op_allowed.simps ctx_step.simps)
  then show ?case
    using Cons.IH [of "conv_step s (Recorded op)"] Cons.prems conv_step_ok [of s "Recorded op"]
    by (simp del: op_allowed.simps ctx_step.simps)
qed simp

lemma empty_context_ok: "context_ok empty_context" "deferred_tagged empty_context"
  by (simp_all add: context_ok_def context_inv_def objects_inv_def empty_context_def deferred_tagged_def)

subsection \<open>Undo counts prompts\<close>

definition prompts :: "(nat \<times> context_message) list \<Rightarrow> nat" where
  "prompts h = length (filter (is_real_user_prompt \<circ> snd) h)"

lemma injection_no_prompt: "is_injection (cm_origin m) \<Longrightarrow> \<not> is_real_user_prompt m"
  by (cases "cm_origin m" rule: is_injection.cases) (auto simp: is_real_user_prompt_def)

lemma undo_scan_prompts:
  "undo_scan xs wanted c t r = (kept, c', t', r', st) \<Longrightarrow> r < wanted \<Longrightarrow>
   int (prompts kept) + r' = int (prompts xs) + r \<and> r' \<le> wanted \<and> (st \<longrightarrow> r' < wanted) \<and>
   filter (\<lambda>x. is_injection (cm_origin (snd x))) kept = filter (\<lambda>x. is_injection (cm_origin (snd x))) (rev xs)"
proof (induction xs arbitrary: c t r kept c' t' r' st)
  case (Cons x older)
  obtain k m where x: "x = (k, m)"
    by force
  have prompts_rev: "prompts (rev ys) = prompts ys" for ys
    by (simp add: prompts_def rev_filter [symmetric])
  consider (inj) kept1 where "is_injection (cm_origin m)" "undo_scan older wanted c t r = (kept1, c', t', r', st)"
      "kept = kept1 @ [(k, m)]"
    | (summary) "\<not> is_injection (cm_origin m)" "kept = rev (x # older)" "r' = r"
    | (last) "\<not> is_injection (cm_origin m)" "is_real_user_prompt m" "kept = rev older" "r' = r + 1" "\<not> st"
    | (prompt) c1 t1 where "\<not> is_injection (cm_origin m)" "is_real_user_prompt m" "r + 1 < wanted"
        "undo_scan older wanted c1 t1 (r + 1) = (kept, c', t', r', st)"
    | (other) c1 t1 where "\<not> is_injection (cm_origin m)" "\<not> is_real_user_prompt m"
        "undo_scan older wanted c1 t1 r = (kept, c', t', r', st)"
  proof (cases "is_injection (cm_origin m)")
    case True
    then obtain kept1 where "undo_scan older wanted c t r = (kept1, c', t', r', st)" "kept = kept1 @ [(k, m)]"
      using Cons.prems(1) by (cases "undo_scan older wanted c t r") (auto simp: x)
    with True show thesis
      by (rule inj)
  next
    case noinj: False
    show thesis
    proof (cases "cm_origin m = Some Origin_Compaction_Summary")
      case True
      then show thesis
        using Cons.prems(1) noinj by (intro summary) (auto simp: x)
    next
      case False
      define c1 where "c1 = (if length older < c then c - 1 else c)"
      define t1 where "t1 = (if length older < c then t - estimate_message m else t)"
      have run: "(if is_real_user_prompt m
           then if r + 1 \<ge> wanted then (rev older, c1, t1, r + 1, False) else undo_scan older wanted c1 t1 (r + 1)
           else undo_scan older wanted c1 t1 r) = (kept, c', t', r', st)"
        using Cons.prems(1) noinj False
        unfolding x c1_def t1_def undo_scan.simps Let_def by (simp only: if_False)
      show thesis
      proof (cases "is_real_user_prompt m")
        case True
        then show thesis
          using run noinj last prompt by (cases "r + 1 \<ge> wanted") simp_all
      next
        case False
        then show thesis
          using run noinj other by simp
      qed
    qed
  qed
  then show ?case
  proof cases
    case inj
    then show ?thesis
      using Cons.IH [OF inj(2) Cons.prems(2)] injection_no_prompt [of m] by (simp add: x prompts_def)
  next
    case summary
    then show ?thesis
      using Cons.prems(2) by (simp add: prompts_rev del: rev.simps)
  next
    case last
    then show ?thesis
      using Cons.prems(2) by (simp add: prompts_rev) (simp add: prompts_def x)
  next
    case prompt
    then show ?thesis
      using Cons.IH [OF prompt(4,3)] by (simp add: x prompts_def)
  next
    case other
    then show ?thesis
      using Cons.IH [OF other(3) Cons.prems(2)] by (simp add: x prompts_def)
  qed
qed (simp add: prompts_def)

subsection \<open>Properties\<close>

text \<open>
  C6: the documented invariant of the conversation. Take any sequence of recorded operations
  (messages, loop events, undos, clears, compactions, cutoffs), of messages taken back and of
  ends of a resume, that keeps to the protocol of the callers: only plain messages are appended,
  a recorded call is new and belongs to the step whose message still ends the history, a
  compaction cuts where no exchange is open, and only tagged messages are taken back. Then a tool
  call of the history is always followed by the results of its exchange before any other message;
  the calls still waiting at the end of the history are exactly the pending identifiers; and
  messages are held back only while a call is pending. The protocol is a hypothesis, and callers
  break it: see \<open>shell_command_tears_exchange\<close>.
\<close>

theorem context_exchange_invariant:
  assumes "keeps_protocol empty_context ops"
    and "s = foldl conv_step empty_context ops"
  shows "exchange [] (history s) = Some (cx_pending s) \<and> distinct (cx_pending s) \<and>
    (cx_deferred s \<noteq> [] \<longrightarrow> cx_pending s \<noteq> [])"
  using conversation.allowed_run_inv [OF empty_context_ok(1) assms(1)] assms(2)
  unfolding context_ok_def context_inv_def by blast

text \<open>
  C9: a conversation of recorded operations survives a restart, unless the session refused a loop
  event. Replaying the records a session logged rebuilds the same history, pending calls,
  held-back messages, open steps, token counts and cutoff; results synthesised at a step boundary
  are logged beside the boundary that makes them again, and their second copy is ignored. But an
  event is logged before it is checked: when one was refused in the session (a part or a call of
  a step that is not open), the replay throws the error of the first one refused, whatever
  followed it. Messages taken back are not recorded and are not among these operations.
\<close>

theorem context_resume:
  "ctx_replay empty_context (snd (run_logged ctx_step empty_context ops)) =
     (case first_refusal empty_context ops of
        None \<Rightarrow> Inr (fst (run_logged ctx_step empty_context ops))
      | Some e \<Rightarrow> Inl e)"
  by (rule ctx_run_replays)

text \<open>
  No message is lost or reordered by the turn it arrives in. Over any run of appended
  messages and loop events that keeps to the protocol, the messages appended stand, in order,
  in the history or wait behind it; when no call is pending, all of them are in the history.
\<close>

theorem messages_kept_in_order:
  assumes "list_all turn_op ops" and "keeps_protocol empty_context (map Recorded ops)"
    and "s = foldl conv_step empty_context (map Recorded ops)"
  shows "filter (\<lambda>m. cm_origin m \<noteq> None) (history s) @ cx_deferred s = concat (map op_says ops) \<and>
    (cx_pending s = [] \<longrightarrow> cx_deferred s = [])"
proof
  have "said s = said empty_context @ concat (map op_says ops)"
    using said_run [OF empty_context_ok assms(1,2)] assms(3) by simp
  then show "filter (\<lambda>m. cm_origin m \<noteq> None) (history s) @ cx_deferred s = concat (map op_says ops)"
    by (simp add: said_def empty_context_def)
  show "cx_pending s = [] \<longrightarrow> cx_deferred s = []"
    using conversation.allowed_run_inv [OF empty_context_ok(1) assms(2)] assms(3)
    by (auto simp: context_ok_def context_inv_def)
qed

text \<open>
  Undoing prompts. When \<open>undo\<close> of a positive number of prompts reports no error, exactly that
  many prompts have left the history; when it reports an error, fewer have. In both cases the
  injected reminders all stay, in order, and no call is left waiting.
\<close>

theorem undo_removes_prompts:
  assumes "0 < wanted" and "cx_history s \<noteq> []" and "undo False wanted s = ((s', recs), err)"
  shows "(err = None \<longrightarrow> int (prompts (cx_history s')) = int (prompts (cx_history s)) - wanted) \<and>
    (err \<noteq> None \<longrightarrow> int (prompts (cx_history s')) > int (prompts (cx_history s)) - wanted) \<and>
    filter (is_injection \<circ> cm_origin) (history s') = filter (is_injection \<circ> cm_origin) (history s) \<and>
    cx_pending s' = []"
proof -
  obtain kept c t r st where scan: "undo_scan (rev (cx_history s)) wanted (cx_covered s) (cx_token_count s) 0 = (kept, c, t, r, st)"
    by (cases "undo_scan (rev (cx_history s)) wanted (cx_covered s) (cx_token_count s) 0") auto
  have counts: "int (prompts kept) + r = int (prompts (cx_history s)) \<and> r \<le> wanted \<and> (st \<longrightarrow> r < wanted) \<and>
      filter (\<lambda>x. is_injection (cm_origin (snd x))) kept = filter (\<lambda>x. is_injection (cm_origin (snd x))) (cx_history s)"
    using undo_scan_prompts [OF scan assms(1)] by (simp add: prompts_def rev_filter [symmetric])
  have "cx_history s' = kept" "cx_pending s' = []" "err = None \<longrightarrow> \<not> r < wanted"
      "err \<noteq> None \<longrightarrow> st \<or> r < wanted"
    using assms scan by (auto simp: undo_def Let_def micro_reset_def split: if_splits)
  moreover have "filter (is_injection \<circ> cm_origin) (map snd h) = map snd (filter (\<lambda>x. is_injection (cm_origin (snd x))) h)"
    for h :: "(nat \<times> context_message) list"
    by (simp add: filter_map comp_def)
  ultimately show ?thesis
    using counts by auto
qed

text \<open>
  After a resume the conversation can be sent again. Whatever the crash left, ending the
  resume closes the last exchange: every call of the history is answered, the ones without a
  result by the notice that the tool was interrupted, and no message is held back any more.
\<close>

theorem finish_resume_closes:
  assumes "keeps_protocol empty_context ops" and "s = foldl conv_step empty_context ops"
  shows "exchange [] (history (fst (finish_resume now s))) = Some [] \<and> cx_deferred (fst (finish_resume now s)) = [] \<and>
    cx_open_steps (fst (finish_resume now s)) = [] \<and>
    snd (finish_resume now s) = map (\<lambda>i. Rec_Loop_Event (Ctx_Tool_Result i interrupted_result)) (cx_pending s)"
proof -
  let ?t = "fst (finish_resume now s)"
  have "context_inv (s\<lparr>cx_open_steps := []\<rparr>)"
    using conversation.allowed_run_inv [OF empty_context_ok(1) assms(1)] assms(2) by (simp add: context_ok_def)
  then have inv: "context_inv ?t"
    unfolding finish_resume_def by (rule close_pending_inv)
  have pend: "cx_pending ?t = []"
    by (simp add: finish_resume_def)
  have "cx_open_steps (apply_tool_result now i r u) = cx_open_steps u" for i r u
    by (simp add: apply_tool_result_def flush_deferred_def Let_def)
  then have "cx_open_steps (foldl (\<lambda>u i. apply_tool_result now i interrupted_result u) u xs) = cx_open_steps u" for u xs
    by (induction xs arbitrary: u) simp_all
  then have "cx_open_steps ?t = []"
    by (simp add: finish_resume_def close_pending_def)
  then show ?thesis
    using inv pend by (auto simp: context_inv_def) (simp add: finish_resume_def close_pending_def)
qed

subsection \<open>Witnesses\<close>

text \<open>A prompt, a step with two calls, a message during the exchange, one result.\<close>

definition sample_ops :: "ctx_op list" where
  "sample_ops =
     [Op_Append 1 (user_message [TextPart ''hi''] Origin_User), Op_Loop_Event 2 (Ctx_Step_Begin ''u''),
      Op_Loop_Event 3 (Ctx_Tool_Call ''u'' ''a'' ''Read'' None), Op_Loop_Event 3 (Ctx_Tool_Call ''u'' ''b'' ''Read'' None),
      Op_Append 4 (user_message [TextPart ''wait''] Origin_User),
      Op_Loop_Event 5 (Ctx_Tool_Result ''a'' (plain_result (OutText ''ok'')))]"

definition sample_talk :: context_memory where
  "sample_talk = foldl conv_step empty_context (map Recorded sample_ops)"

lemma sample_talk_keeps: "keeps_protocol empty_context (map Recorded sample_ops)"
  by code_simp

lemma sample_talk_pending: "cx_pending sample_talk = [''b'']"
  by code_simp

definition taken_back_ops :: "conv_op list" where
  "taken_back_ops =
     map Recorded sample_ops @
     [Recorded (Op_Append 6 (user_message [TextPart ''swarm''] (Origin_Injection ''swarm_mode''))),
      Take_Back (\<lambda>og. og = Some (Origin_Injection ''swarm_mode'')), End_Resume 7]"

theorem context_exchange_invariant_witness:
  "exchange [] (history (foldl conv_step empty_context taken_back_ops)) = Some [] \<and>
   length (history (foldl conv_step empty_context taken_back_ops)) = 5"
proof -
  have "cx_pending (foldl conv_step empty_context taken_back_ops) = []"
      "length (history (foldl conv_step empty_context taken_back_ops)) = 5"
    by code_simp+
  moreover have "keeps_protocol empty_context taken_back_ops"
    by code_simp
  ultimately show ?thesis
    using context_exchange_invariant [of taken_back_ops, OF _ refl] by simp
qed

text \<open>
  The protocol of the callers is needed, and one caller does not keep to it: a \<open>!\<close> shell command
  of the user is put into the conversation at once (\<open>runShellCommand\<close>). Between the beginning of a
  step and its call it comes to stand behind the message of the step, and the results of the
  call then follow the shell command instead of the call.
\<close>

definition shell_command_ops :: "ctx_op list" where
  "shell_command_ops =
     [Op_Append 1 (user_message [TextPart ''hi''] Origin_User), Op_Loop_Event 2 (Ctx_Step_Begin ''u''),
      Op_Append 3 (user_message [TextPart ''<bash-input>''] (Origin_Shell_Command True None)),
      Op_Loop_Event 4 (Ctx_Tool_Call ''u'' ''a'' ''Read'' None),
      Op_Loop_Event 5 (Ctx_Tool_Result ''a'' (plain_result (OutText ''ok'')))]"

theorem shell_command_tears_exchange:
  "exchange [] (history (foldl conv_step empty_context (map Recorded shell_command_ops))) = None \<and>
   map cm_role (history (foldl conv_step empty_context (map Recorded shell_command_ops))) =
     [Role_User, Role_Assistant, Role_User, Role_Tool]"
  by code_simp

text \<open>
  A refused event costs the session its resume: a part that arrives after the context was cleared
  is refused, but it stands in the log, and no replay gets past it.
\<close>

theorem refused_event_ends_replay:
  "let ops = [Op_Loop_Event 1 (Ctx_Step_Begin ''u''), Op_Clear,
              Op_Loop_Event 2 (Ctx_Content_Part ''u'' (TextPart ''late'')),
              Op_Append 3 (user_message [TextPart ''hi''] Origin_User)];
       (s, recs) = run_logged ctx_step empty_context ops
   in length (history s) = 1 \<and> ctx_replay empty_context recs = Inl (unknown_step ''content_part'' ''u'')"
  by code_simp

theorem messages_kept_in_order_witness:
  "filter (\<lambda>m. cm_origin m \<noteq> None) (history sample_talk) @ cx_deferred sample_talk =
   [user_message [TextPart ''hi''] Origin_User, user_message [TextPart ''wait''] Origin_User]"
proof -
  have "list_all turn_op sample_ops"
    by code_simp
  from messages_kept_in_order [OF this sample_talk_keeps sample_talk_def, THEN conjunct1] show ?thesis
    by (simp add: sample_ops_def)
qed

theorem undo_removes_prompts_witness:
  "prompts (cx_history (fst (fst (undo False 1 (foldl conv_step empty_context (map Recorded (take 1 sample_ops))))))) = 0"
proof -
  let ?s = "foldl conv_step empty_context (map Recorded (take 1 sample_ops))"
  obtain s' recs err where run: "undo False 1 ?s = ((s', recs), err)"
    by (metis prod.collapse)
  have facts: "cx_history ?s \<noteq> []" "snd (undo False 1 ?s) = None" "prompts (cx_history ?s) = 1"
    by code_simp+
  then have "err = None"
    using run by simp
  then have "int (prompts (cx_history s')) = 0"
    using undo_removes_prompts [OF _ facts(1) run] facts(3) by simp
  then show ?thesis
    unfolding run by simp
qed

theorem finish_resume_closes_witness:
  "exchange [] (history (fst (finish_resume 9 sample_talk))) = Some []"
  using finish_resume_closes [OF sample_talk_keeps sample_talk_def, of 9] by simp

end
