(* ===== verification/Context_Projection.thy ===== *)
theory Context_Projection
  imports Complex_Main Context_Memory
begin

text \<open>
  What the model is sent of a conversation: \<open>packages/agent-core/src/agent/context/projector.ts\<close>
  (dropping empty parts and messages, merging neighbouring user prompts, cutting an open tool
  exchange off the end) after the clearing of old tool results by \<open>agent/compaction/micro.ts\<close>.
  The lemmas show that the projection keeps the exchange protocol of \<open>Context_Memory\<close> and equals
  a specification by groups of prompts.
\<close>

subsection \<open>Micro compaction\<close>

record micro_config =
  mi_keep_recent :: nat
  mi_min_content_tokens :: int
  mi_cache_missed_ms :: int
  mi_marker :: string
  mi_min_usage_ratio :: rat

definition default_micro_config :: micro_config where
  "default_micro_config =
     \<lparr>mi_keep_recent = 20, mi_min_content_tokens = 100, mi_cache_missed_ms = 60 * 60 * 1000,
      mi_marker = ''[Old tool result content cleared]'', mi_min_usage_ratio = 1 / 2\<rparr>"

definition clears :: "micro_config \<Rightarrow> nat \<Rightarrow> nat \<Rightarrow> context_message \<Rightarrow> bool" where
  "clears cfg cutoff i m \<longleftrightarrow>
     i < cutoff \<and> cm_role m = Role_Tool \<and> cm_call_id m \<noteq> None \<and>
     estimate_parts (cm_content m) \<ge> mi_min_content_tokens cfg"

fun compact_from :: "micro_config \<Rightarrow> nat \<Rightarrow> nat \<Rightarrow> context_message list \<Rightarrow> context_message list" where
  "compact_from cfg cutoff i [] = []"
| "compact_from cfg cutoff i (m # ms) =
     (if clears cfg cutoff i m then m\<lparr>cm_content := [TextPart (mi_marker cfg)]\<rparr> else m) #
     compact_from cfg cutoff (Suc i) ms"

definition micro_compact :: "bool \<Rightarrow> micro_config \<Rightarrow> nat \<Rightarrow> context_message list \<Rightarrow> context_message list" where
  "micro_compact enabled cfg cutoff ms = (if enabled then compact_from cfg cutoff 0 ms else ms)"

text \<open>\<open>detect\<close>: the cutoff moves when the provider's cache has gone cold and the context is large.\<close>

definition micro_detect ::
  "bool \<Rightarrow> micro_config \<Rightarrow> int \<Rightarrow> int option \<Rightarrow> context_memory \<Rightarrow> context_memory \<times> ctx_record list" where
  "micro_detect enabled cfg now max_context s =
     (if \<not> enabled then (s, [])
      else case cx_last_assistant s of
        None \<Rightarrow> (s, [])
      | Some at_time \<Rightarrow>
          if now - at_time < mi_cache_missed_ms cfg then (s, [])
          else
            let ratio = (case max_context of
                  Some m \<Rightarrow> if m > 0 then rat_of_int (token_count_with_pending s) / rat_of_int m else 1
                | None \<Rightarrow> 1)
            in if ratio < mi_min_usage_ratio cfg then (s, [])
               else micro_apply (length (cx_history s) - mi_keep_recent cfg) s)"

subsection \<open>Projection\<close>

fun is_text_part :: "content_part \<Rightarrow> bool" where
  "is_text_part (TextPart t) = True"
| "is_text_part _ = False"

fun is_empty_text :: "content_part \<Rightarrow> bool" where
  "is_empty_text (TextPart t) = (length t = 0)"
| "is_empty_text _ = False"

definition empty_tool_content :: string where
  "empty_tool_content = ''Tool result message content cannot be empty after removing empty text blocks.''"

definition prepare_message :: "context_message \<Rightarrow> string + context_message option" where
  "prepare_message m =
     (if cm_partial m = Some True then Inr None
      else
        let next_m = m\<lparr>cm_content := filter (\<lambda>p. \<not> is_empty_text p) (cm_content m)\<rparr>
        in if cm_role next_m = Role_Tool \<and> length (cm_content next_m) = 0 then Inl empty_tool_content
           else if length (cm_content next_m) = 0 \<and> length (cm_calls next_m) = 0 then Inr None
           else Inr (Some next_m))"

definition can_merge :: "context_message \<Rightarrow> bool" where
  "can_merge m \<longleftrightarrow> cm_role m = Role_User \<and> cm_origin m = Some Origin_User"

definition text_only :: "context_message \<Rightarrow> string" where
  "text_only m = joined_text (cm_content m)"

definition non_text :: "context_message \<Rightarrow> content_part list" where
  "non_text m = filter (\<lambda>p. \<not> is_text_part p) (cm_content m)"

definition merge_two :: "context_message \<Rightarrow> context_message \<Rightarrow> context_message" where
  "merge_two a b =
     plain_message Role_User
       (TextPart (text_only a @ newline @ newline @ text_only b) # non_text a @ non_text b) (cm_origin a)"

text \<open>The loop of \<open>mergeAdjacentUserMessages\<close>; the last message of the output is merged into.\<close>

definition merge_onto :: "context_message list \<Rightarrow> context_message \<Rightarrow> context_message list" where
  "merge_onto out m =
     (if can_merge m \<and> out \<noteq> [] \<and> can_merge (last out) then butlast out @ [merge_two (last out) m]
      else out @ [m])"

fun merge_loop :: "context_message list \<Rightarrow> context_message list \<Rightarrow> string + context_message list" where
  "merge_loop out [] = Inr out"
| "merge_loop out (m # ms) =
     (case prepare_message m of
        Inl e \<Rightarrow> Inl e
      | Inr None \<Rightarrow> merge_loop out ms
      | Inr (Some p) \<Rightarrow> merge_loop (merge_onto out p) ms)"

definition strip_metadata :: "context_message \<Rightarrow> context_message" where
  "strip_metadata m = m\<lparr>cm_origin := None, cm_error := None\<rparr>"

definition project_messages :: "context_message list \<Rightarrow> string + context_message list" where
  "project_messages hist =
     (case merge_loop [] hist of Inl e \<Rightarrow> Inl e | Inr out \<Rightarrow> Inr (map strip_metadata out))"

text \<open>\<open>ContextMemory.project\<close>.\<close>

definition context_project ::
  "bool \<Rightarrow> micro_config \<Rightarrow> context_memory \<Rightarrow> context_message list \<Rightarrow> string + context_message list" where
  "context_project enabled cfg s ms = project_messages (micro_compact enabled cfg (cx_cutoff s) ms)"

text \<open>
  \<open>trimTrailingOpenToolExchange\<close>: the scan runs from the end, so on the reversed history; it
  gives the number of messages before the first assistant message with an unanswered call.
\<close>

fun first_incomplete :: "string list \<Rightarrow> nat option \<Rightarrow> context_message list \<Rightarrow> nat option" where
  "first_incomplete ids found [] = found"
| "first_incomplete ids found (m # older) =
     (case cm_call_id m of
        Some i \<Rightarrow>
          if cm_role m = Role_Tool \<and> i \<noteq> [] then first_incomplete (set_add i ids) found older
          else if cm_role m = Role_Assistant \<and> length (cm_calls m) > 0 \<and>
              \<not> list_all (\<lambda>c. cc_id c \<in> set ids) (cm_calls m)
          then first_incomplete ids (Some (length older)) older
          else first_incomplete ids found older
      | None \<Rightarrow>
          if cm_role m = Role_Assistant \<and> length (cm_calls m) > 0 \<and>
              \<not> list_all (\<lambda>c. cc_id c \<in> set ids) (cm_calls m)
          then first_incomplete ids (Some (length older)) older
          else first_incomplete ids found older)"

definition trim_trailing_open :: "context_message list \<Rightarrow> context_message list" where
  "trim_trailing_open hist =
     (case first_incomplete [] None (rev hist) of None \<Rightarrow> hist | Some n \<Rightarrow> take n hist)"

text \<open>
  \<open>useProjectedHistoryFrom\<close>: a context starts from what another one would send. The micro
  compaction of the source is used; what is pushed is not logged.
\<close>

definition use_projected_history_from ::
  "int \<Rightarrow> bool \<Rightarrow> micro_config \<Rightarrow> context_memory \<Rightarrow> context_memory \<Rightarrow>
   string + context_memory \<times> ctx_record list" where
  "use_projected_history_from now enabled cfg source s =
     (let (s1, recs) = clear_context s in
      case context_project enabled cfg source (history source) of
        Inl e \<Rightarrow> Inl e
      | Inr out \<Rightarrow> Inr (push_history now (trim_trailing_open out) s1, recs))"

subsection \<open>The projection keeps the protocol\<close>

lemma compact_shape: "map shape (compact_from cfg cutoff i ms) = map shape ms"
  by (induction cfg cutoff i ms rule: compact_from.induct) (simp_all add: shape_def)

lemma exchange_compact: "exchange p (micro_compact enabled cfg cutoff ms) = exchange p ms"
  by (simp add: micro_compact_def exchange_shape [OF compact_shape])

definition mergeable_plain :: "context_message list \<Rightarrow> bool" where
  "mergeable_plain out \<longleftrightarrow> (\<forall>m \<in> set out. can_merge m \<longrightarrow> cm_calls m = [])"

lemma merge_two_simps [simp]:
  "can_merge (merge_two a b) \<longleftrightarrow> cm_origin a = Some Origin_User" "cm_calls (merge_two a b) = []"
  "cm_role (merge_two a b) = Role_User"
  by (simp_all add: merge_two_def plain_message_def can_merge_def)

lemma exchange_last_user:
  assumes "exchange [] (pre @ [m]) = Some p" "can_merge m"
  shows "p = [] \<and> exchange [] pre = Some [] \<and> cm_calls m = []"
  using assms by (auto simp: exchange_snoc can_merge_def split: option.splits if_splits)

lemma exchange_merge_onto:
  assumes "exchange [] (out @ [m]) = Some p"
  shows "exchange [] (merge_onto out m) = Some p"
proof (cases "can_merge m \<and> out \<noteq> [] \<and> can_merge (last out)")
  case True
  then obtain pre u where out: "out = pre @ [u]" "can_merge u" "can_merge m"
    by (metis append_butlast_last_id)
  have m: "p = []" "exchange [] out = Some []"
    using exchange_last_user [OF assms] True by simp_all
  then have "exchange [] pre = Some []"
    using exchange_last_user [of pre u] out by simp
  then show ?thesis
    using True m by (simp add: merge_onto_def out exchange_snoc)
next
  case False
  then show ?thesis
    using assms by (auto simp: merge_onto_def)
qed

lemma prepare_shape:
  assumes "prepare_message m = Inr (Some q)"
  shows "shape q = shape m"
  using assms by (auto simp: prepare_message_def shape_def Let_def split: if_splits)

lemma exchange_one:
  "shape q = shape m \<Longrightarrow> exchange p (xs @ q # ys) = exchange p (xs @ m # ys)"
  by (rule exchange_shape) simp

lemma exchange_Cons_silent:
  assumes "exchange [] (out @ m # ms) = Some p" "cm_role m \<noteq> Role_Tool" "cm_calls m = []"
  shows "exchange [] (out @ ms) = Some p"
  using assms by (auto simp: exchange_append split: option.splits if_splits)

lemma exchange_merge_loop:
  assumes "merge_loop out ms = Inr res" "exchange [] (out @ ms) = Some p" "\<forall>m \<in> set ms. cm_partial m = Some True \<longrightarrow> simple_message m"
  shows "exchange [] res = Some p"
  using assms
proof (induction out ms rule: merge_loop.induct)
  case (2 out m ms)
  show ?case
  proof (cases "prepare_message m")
    case (Inl e)
    then show ?thesis
      using "2.prems"(1) by simp
  next
    case (Inr r)
    show ?thesis
    proof (cases r)
      case None
      then have "cm_role m \<noteq> Role_Tool" "cm_calls m = []"
        using Inr "2.prems"(3) by (auto simp: prepare_message_def simple_message_def Let_def split: if_splits)
      then have "exchange [] (out @ ms) = Some p"
        using exchange_Cons_silent "2.prems"(2) by blast
      then show ?thesis
        using "2.IH"(1) [OF Inr None] "2.prems" Inr None by simp
    next
      case (Some q)
      have "exchange [] ((out @ [q]) @ ms) = Some p"
        using "2.prems"(2) exchange_one [OF prepare_shape [OF Inr [unfolded Some]], of "[]" out ms] by simp
      then obtain p1 where "exchange [] (out @ [q]) = Some p1" "exchange p1 ms = Some p"
        by (auto simp only: exchange_append [of _ "out @ [q]"] split: option.splits)
      then have "exchange [] (merge_onto out q @ ms) = Some p"
        using exchange_merge_onto by (simp add: exchange_append)
      then show ?thesis
        using "2.IH"(2) [OF Inr Some] "2.prems" Inr Some by simp
    qed
  qed
qed simp

lemma exchange_strip: "exchange p (map strip_metadata ms) = exchange p ms"
  by (induction p ms rule: exchange.induct) (auto simp: strip_metadata_def split: option.split)

subsection \<open>The specification by groups\<close>

text \<open>Maximal runs of prompts of the user, everything else alone.\<close>

fun groups :: "context_message list \<Rightarrow> context_message list list" where
  "groups [] = []"
| "groups (m # ms) =
     (case groups ms of
        [] \<Rightarrow> [[m]]
      | g # gs \<Rightarrow> if can_merge m \<and> can_merge (hd g) then (m # g) # gs else [m] # g # gs)"

definition merge_group :: "context_message list \<Rightarrow> context_message" where
  "merge_group g =
     (case g of
        [m] \<Rightarrow> m
      | _ \<Rightarrow> plain_message Role_User
          (TextPart (join_with (newline @ newline) (map text_only g)) # concat (map non_text g)) (Some Origin_User))"

definition is_dropped_error :: "context_message \<Rightarrow> bool" where
  "is_dropped_error m \<longleftrightarrow> (case prepare_message m of Inl e \<Rightarrow> True | Inr q \<Rightarrow> False)"

definition prepared :: "context_message list \<Rightarrow> context_message list" where
  "prepared ms = List.map_filter (\<lambda>m. case prepare_message m of Inl e \<Rightarrow> None | Inr q \<Rightarrow> q) ms"

definition spec_project :: "context_message list \<Rightarrow> string + context_message list" where
  "spec_project ms =
     (if list_ex is_dropped_error ms then Inl empty_tool_content
      else Inr (map strip_metadata (map merge_group (groups (prepared ms)))))"

lemma prepare_error: "prepare_message m = Inl e \<Longrightarrow> e = empty_tool_content"
  by (auto simp: prepare_message_def Let_def split: if_splits)

lemma prepared_simps:
  "prepared [] = []"
  "prepared (m # ms) = (case prepare_message m of Inr (Some q) \<Rightarrow> q # prepared ms | _ \<Rightarrow> prepared ms)"
  by (simp_all add: prepared_def map_filter_def split: sum.split option.split)

lemma merge_loop_fold:
  "merge_loop out ms =
     (if list_ex is_dropped_error ms then Inl empty_tool_content else Inr (foldl merge_onto out (prepared ms)))"
  by (induction out ms rule: merge_loop.induct)
    (auto simp: prepared_simps is_dropped_error_def dest: prepare_error split: sum.split option.split)

lemma groups_nonempty: "g \<in> set (groups ms) \<Longrightarrow> g \<noteq> []"
  by (induction ms arbitrary: g) (auto split: list.splits if_splits)

lemma groups_Nil [simp]: "groups ms = [] \<longleftrightarrow> ms = []"
  by (cases ms) (auto split: list.split)

lemma concat_groups: "concat (groups ms) = ms"
  by (induction ms) (auto split: list.splits)

lemma last_groups: "ms \<noteq> [] \<Longrightarrow> last (last (groups ms)) = last ms"
proof -
  assume ms: "ms \<noteq> []"
  then have "groups ms \<noteq> []" "last (groups ms) \<noteq> []"
    using groups_nonempty [of "last (groups ms)" ms] by auto
  moreover have "concat (groups ms) = concat (butlast (groups ms)) @ last (groups ms)"
    using \<open>groups ms \<noteq> []\<close> by (metis append_butlast_last_id concat.simps concat_append append_Nil2)
  ultimately show ?thesis
    by (metis concat_groups last_appendR)
qed

lemma groups_snoc:
  "groups (ms @ [m]) =
     (if ms \<noteq> [] \<and> can_merge (last ms) \<and> can_merge m
      then butlast (groups ms) @ [last (groups ms) @ [m]] else groups ms @ [[m]])"
proof (induction ms)
  case (Cons a ms)
  show ?case
  proof (cases "ms = []")
    case False
    then obtain g gs where g: "groups ms = g # gs"
      by (cases "groups ms") auto
    have "g \<noteq> []"
      using groups_nonempty [of g ms] g by simp
    then show ?thesis
      using Cons.IH False g by (cases gs) (auto simp: hd_append)
  qed simp
qed simp

text \<open>In a group of more than one message all are prompts of the user.\<close>

lemma groups_long: "g \<in> set (groups ms) \<Longrightarrow> length g > 1 \<Longrightarrow> \<forall>m \<in> set g. can_merge m"
proof (induction ms arbitrary: g)
  case (Cons a ms)
  show ?case
  proof (cases "groups ms")
    case groups: (Cons h hs)
    then have "h \<noteq> []"
      using groups_nonempty [of h ms] by simp
    then have h: "\<forall>m \<in> set h. can_merge m" if "can_merge (hd h)"
      using that Cons.IH [of h] groups by (cases h; cases "tl h") auto
    show ?thesis
    proof (cases "can_merge a \<and> can_merge (hd h)")
      case True
      then have "g = a # h \<or> g \<in> set (groups ms)"
        using Cons.prems groups by auto
      then show ?thesis
        using True h Cons.IH [of g] Cons.prems(2) by auto
    next
      case False
      then have "g = [a] \<or> g \<in> set (groups ms)"
        using Cons.prems groups by auto
      then show ?thesis
        using Cons.IH [of g] Cons.prems(2) by auto
    qed
  qed (use Cons.prems in simp)
qed simp

lemma groups_mergeable:
  assumes "g \<in> set (groups ms)" "can_merge (last g)"
  shows "\<forall>m \<in> set g. can_merge m"
proof (cases "length g > 1")
  case False
  then show ?thesis
    using groups_nonempty [OF assms(1)] assms(2) by (cases g) (auto simp: not_less)
qed (use groups_long assms in blast)

lemma joined_text_append [simp]: "joined_text (xs @ ys) = joined_text xs @ joined_text ys"
  by (simp add: joined_text_def map_filter_def)

lemma joined_text_Cons: "joined_text (x # xs) = (case x of TextPart t \<Rightarrow> t | _ \<Rightarrow> []) @ joined_text xs"
  by (cases x) (simp_all add: joined_text_def map_filter_def)

lemma joined_text_Nil [simp]: "joined_text [] = []"
  by (simp add: joined_text_def map_filter_def)

lemma joined_text_rest [simp]: "joined_text (filter (\<lambda>p. \<not> is_text_part p) ps) = []"
proof (induction ps)
  case (Cons p ps)
  then show ?case
    by (cases p) (simp_all add: joined_text_Cons)
qed simp

lemma joined_non_text [simp]: "joined_text (non_text m) = []"
  by (simp add: non_text_def)

lemma joined_non_texts [simp]: "joined_text (concat (map non_text g)) = []"
  by (induction g) simp_all

lemma filter_non_text [simp]: "filter (\<lambda>p. \<not> is_text_part p) (non_text m) = non_text m"
  by (simp add: non_text_def)

lemma filter_non_texts [simp]:
  "filter (\<lambda>p. \<not> is_text_part p) (concat (map non_text g)) = concat (map non_text g)"
  by (induction g) simp_all

lemma merge_group_one [simp]: "merge_group [m] = m"
  by (simp add: merge_group_def)

lemma merge_group_more:
  "g \<noteq> [] \<Longrightarrow>
   merge_group (g @ [m]) =
     plain_message Role_User
       (TextPart (join_with (newline @ newline) (map text_only (g @ [m]))) # concat (map non_text (g @ [m])))
       (Some Origin_User)"
  by (cases g; cases "tl g") (simp_all add: merge_group_def)

lemma text_only_merge_group:
  "g \<noteq> [] \<Longrightarrow> text_only (merge_group g) = join_with (newline @ newline) (map text_only g)"
  by (cases g rule: rev_cases; cases "butlast g = []")
    (simp_all add: merge_group_more text_only_def plain_message_def joined_text_Cons)

lemma non_text_merge_group: "g \<noteq> [] \<Longrightarrow> non_text (merge_group g) = concat (map non_text g)"
  by (cases g rule: rev_cases; cases "butlast g = []")
    (simp_all add: merge_group_more non_text_def plain_message_def)

lemma origin_merge_group:
  "g \<noteq> [] \<Longrightarrow> \<forall>m \<in> set g. can_merge m \<Longrightarrow> cm_origin (merge_group g) = Some Origin_User"
  by (cases g rule: rev_cases; cases "butlast g = []")
    (simp_all add: merge_group_more plain_message_def can_merge_def)

lemma can_merge_group:
  assumes "g \<in> set (groups ms)"
  shows "can_merge (merge_group g) \<longleftrightarrow> can_merge (last g)"
proof (cases g rule: rev_cases)
  case Nil
  then show ?thesis
    using assms groups_nonempty [of g ms] by simp
next
  case (snoc h m)
  show ?thesis
  proof (cases "h = []")
    case False
    then show ?thesis
      using groups_long [OF assms] snoc by (simp add: merge_group_more plain_message_def can_merge_def)
  qed (simp add: snoc)
qed

lemma join_with_snoc: "xs \<noteq> [] \<Longrightarrow> join_with sep (xs @ [x]) = join_with sep xs @ sep @ x"
  by (induction sep xs rule: join_with.induct) simp_all

lemma merge_two_group:
  assumes "g \<noteq> []" "\<forall>m \<in> set g. can_merge m"
  shows "merge_two (merge_group g) m = merge_group (g @ [m])"
  using assms
  by (simp add: merge_two_def text_only_merge_group non_text_merge_group origin_merge_group merge_group_more
      join_with_snoc)

lemma merge_fold: "foldl merge_onto [] ms = map merge_group (groups ms)"
proof (induction ms rule: rev_induct)
  case (snoc m ms)
  show ?case
  proof (cases "ms = []")
    case False
    then have split: "groups ms = butlast (groups ms) @ [last (groups ms)]"
      by simp
    then have mem: "last (groups ms) \<in> set (groups ms)"
      by (metis in_set_conv_decomp)
    have last: "can_merge (merge_group (last (groups ms))) \<longleftrightarrow> can_merge (last ms)"
      using can_merge_group [OF mem] last_groups [OF False] by simp
    have two: "merge_two (merge_group (last (groups ms))) m = merge_group (last (groups ms) @ [m])"
      if "can_merge (last ms)"
      using that merge_two_group groups_nonempty [OF mem] groups_mergeable [OF mem] last_groups [OF False] by simp
    have "foldl merge_onto [] (ms @ [m]) = merge_onto (map merge_group (groups ms)) m"
      by (simp add: snoc.IH)
    also have "\<dots> = map merge_group (groups (ms @ [m]))"
      using False by (simp add: merge_onto_def groups_snoc last_map last two map_butlast)
    finally show ?thesis .
  qed (simp add: merge_onto_def)
qed simp

text \<open>
  C38: What the model is sent equals the specification by groups: empty text parts are dropped and
  with them the messages that become empty, each maximal run of neighbouring prompts of the user
  becomes one prompt (their texts joined by a blank line, then their other parts in order), every
  other message stays alone and in its place, and a tool result left without content is an error.
\<close>

theorem projection_by_groups: "project_messages hist = spec_project hist"
  by (simp add: project_messages_def spec_project_def merge_loop_fold merge_fold)

subsection \<open>Cutting an open exchange off\<close>

definition ids_of :: "context_message \<Rightarrow> string list" where
  "ids_of m = map cc_id (cm_calls m)"

definition named_calls :: "context_message list \<Rightarrow> bool" where
  "named_calls hist \<longleftrightarrow> list_all (\<lambda>m. [] \<notin> set (ids_of m)) hist"

lemma named_snoc [simp]: "named_calls (hist @ [m]) \<longleftrightarrow> named_calls hist \<and> [] \<notin> set (ids_of m)"
  by (simp add: named_calls_def)

lemma exchange_snocE:
  assumes "exchange p (pre @ [m]) = Some r"
  obtains (result) q i where "exchange p pre = Some q" "cm_role m = Role_Tool" "cm_call_id m = Some i"
      "i \<in> set q" "r = removeAll i q"
  | (message) "exchange p pre = Some []" "cm_role m \<noteq> Role_Tool" "r = ids_of m"
      "ids_of m \<noteq> [] \<longrightarrow> cm_role m = Role_Assistant"
  using assms by (auto simp: exchange_snoc ids_of_def split: option.splits if_splits)

lemma pending_named: "exchange [] hist = Some q \<Longrightarrow> named_calls hist \<Longrightarrow> [] \<notin> set q"
proof (induction hist arbitrary: q rule: rev_induct)
  case (snoc m pre)
  show ?case
    by (rule exchange_snocE [OF snoc.prems(1)]) (use snoc in auto)
qed (simp add: exchange.simps)

lemma answered_ids: "list_all (\<lambda>c. cc_id c \<in> set ids) (cm_calls m) \<longleftrightarrow> set (ids_of m) \<subseteq> set ids"
  by (auto simp: ids_of_def list_all_iff)

lemma no_calls: "cm_calls m = [] \<longleftrightarrow> ids_of m = []"
  by (simp add: ids_of_def)

lemma first_incomplete_result:
  assumes "cm_role m = Role_Tool" "cm_call_id m = Some i" "i \<noteq> []"
  shows "first_incomplete ids found (m # older) = first_incomplete (set_add i ids) found older"
  using assms by simp

lemma first_incomplete_other:
  assumes "cm_role m \<noteq> Role_Tool" "ids_of m \<noteq> [] \<longrightarrow> cm_role m = Role_Assistant"
  shows "first_incomplete ids found (m # older) =
    first_incomplete ids (if set (ids_of m) \<subseteq> set ids then found else Some (length older)) older"
  using assms by (auto simp: answered_ids no_calls split: option.split)

text \<open>A history whose open calls are all answered later is not cut.\<close>

lemma first_incomplete_closed:
  "exchange [] hist = Some q \<Longrightarrow> named_calls hist \<Longrightarrow> set q \<subseteq> set ids \<Longrightarrow>
   first_incomplete ids found (rev hist) = found"
proof (induction hist arbitrary: q ids rule: rev_induct)
  case (snoc m pre)
  show ?case
  proof (rule exchange_snocE [OF snoc.prems(1)])
    fix q' i assume m: "exchange [] pre = Some q'" "cm_role m = Role_Tool" "cm_call_id m = Some i"
      "i \<in> set q'" "q = removeAll i q'"
    then have "i \<noteq> []"
      using pending_named [of pre q'] snoc.prems(2) by auto
    then show ?thesis
      using snoc.IH [OF m(1), of "set_add i ids"] snoc.prems m by (auto simp: first_incomplete_result)
  next
    assume m: "exchange [] pre = Some []" "cm_role m \<noteq> Role_Tool" "q = ids_of m"
      "ids_of m \<noteq> [] \<longrightarrow> cm_role m = Role_Assistant"
    show ?thesis
      using snoc.IH [OF m(1), of ids] snoc.prems m by (simp add: first_incomplete_other [OF m(2,4)] del: first_incomplete.simps)
  qed
qed simp

text \<open>A history with a call that nothing answers is cut before the message that makes it.\<close>

lemma first_incomplete_open:
  "exchange [] hist = Some q \<Longrightarrow> named_calls hist \<Longrightarrow> \<not> set q \<subseteq> set ids \<Longrightarrow>
   \<exists>pre m tail. hist = pre @ m # tail \<and> first_incomplete ids found (rev hist) = Some (length pre) \<and>
     exchange [] pre = Some [] \<and> cm_role m = Role_Assistant \<and> set q \<subseteq> set (ids_of m) \<and>
     list_all (\<lambda>t. cm_role t = Role_Tool) tail"
proof (induction hist arbitrary: q ids rule: rev_induct)
  case (snoc m pre)
  show ?case
  proof (rule exchange_snocE [OF snoc.prems(1)])
    fix q' i assume m: "exchange [] pre = Some q'" "cm_role m = Role_Tool" "cm_call_id m = Some i"
      "i \<in> set q'" "q = removeAll i q'"
    then have "i \<noteq> []"
      using pending_named [of pre q'] snoc.prems(2) by auto
    have wanted: "named_calls pre" "\<not> set q' \<subseteq> set (set_add i ids)"
      using snoc.prems(2,3) m(5) by auto
    then obtain a u tail where a: "pre = a @ u # tail"
        "first_incomplete (set_add i ids) found (rev pre) = Some (length a)"
        "exchange [] a = Some []" "cm_role u = Role_Assistant" "set q' \<subseteq> set (ids_of u)"
        "list_all (\<lambda>t. cm_role t = Role_Tool) tail"
      using snoc.IH [OF m(1) wanted] by blast
    have "first_incomplete ids found (rev (pre @ [m])) = Some (length a)"
      using a(2) \<open>i \<noteq> []\<close> m by (simp add: first_incomplete_result del: first_incomplete.simps)
    then show ?thesis
      using a m by (intro exI [of _ a] exI [of _ u] exI [of _ "tail @ [m]"]) auto
  next
    assume m: "exchange [] pre = Some []" "cm_role m \<noteq> Role_Tool" "q = ids_of m"
      "ids_of m \<noteq> [] \<longrightarrow> cm_role m = Role_Assistant"
    have "first_incomplete ids (Some (length pre)) (rev pre) = Some (length pre)"
      using first_incomplete_closed [OF m(1)] snoc.prems(2) by simp
    then have "first_incomplete ids found (rev (pre @ [m])) = Some (length pre)"
      using m snoc.prems(3) by (simp add: first_incomplete_other [OF m(2,4)] del: first_incomplete.simps)
    then show ?thesis
      using m snoc.prems(3) by (intro exI [of _ pre] exI [of _ m] exI [of _ "[]"]) auto
  qed
qed simp

text \<open>
  Cutting a trailing open exchange. On a conversation that keeps the exchange protocol,
  \<open>trimTrailingOpenToolExchange\<close> changes nothing when every call is answered; otherwise it cuts
  exactly the last exchange off, the assistant message that made the calls and the results that
  had arrived, and what is left has every call answered.
\<close>

theorem trailing_exchange_trimmed:
  assumes "exchange [] hist = Some q" and "named_calls hist"
  shows "exchange [] (trim_trailing_open hist) = Some [] \<and> (q = [] \<longrightarrow> trim_trailing_open hist = hist) \<and>
    (q \<noteq> [] \<longrightarrow> (\<exists>m tail. hist = trim_trailing_open hist @ m # tail \<and> cm_role m = Role_Assistant \<and>
       set q \<subseteq> set (ids_of m) \<and> list_all (\<lambda>t. cm_role t = Role_Tool) tail))"
proof (cases "q = []")
  case True
  then show ?thesis
    using first_incomplete_closed [OF assms, of "[]" None] assms(1) by (simp add: trim_trailing_open_def)
next
  case False
  then obtain pre m tail where cut: "hist = pre @ m # tail" "first_incomplete [] None (rev hist) = Some (length pre)"
      "exchange [] pre = Some []" "cm_role m = Role_Assistant" "set q \<subseteq> set (ids_of m)"
      "list_all (\<lambda>t. cm_role t = Role_Tool) tail"
    using first_incomplete_open [OF assms, of "[]" None] by auto
  then have "trim_trailing_open hist = pre"
    by (simp add: trim_trailing_open_def)
  then show ?thesis
    using cut False by auto
qed

subsection \<open>What the model is sent\<close>

lemma project_messages_exchange:
  assumes "exchange [] hist = Some p" "\<forall>m \<in> set hist. cm_partial m = Some True \<longrightarrow> simple_message m"
    "project_messages hist = Inr out"
  shows "exchange [] out = Some p"
  using assms exchange_merge_loop [of "[]" hist _ p]
  by (auto simp: project_messages_def exchange_strip split: sum.splits)

lemma partial_compact:
  "m \<in> set (micro_compact enabled cfg cutoff ms) \<Longrightarrow>
   \<exists>n \<in> set ms. cm_partial m = cm_partial n \<and> shape m = shape n"
proof -
  have "m \<in> set (compact_from cfg cutoff i ms) \<Longrightarrow>
      \<exists>n \<in> set ms. cm_partial m = cm_partial n \<and> shape m = shape n" for i
    by (induction cfg cutoff i ms rule: compact_from.induct) (auto simp: shape_def split: if_splits)
  then show "m \<in> set (micro_compact enabled cfg cutoff ms) \<Longrightarrow>
      \<exists>n \<in> set ms. cm_partial m = cm_partial n \<and> shape m = shape n"
    by (auto simp: micro_compact_def split: if_splits)
qed

lemma context_project_exchange:
  assumes "exchange [] ms = Some p" "\<forall>m \<in> set ms. cm_partial m = Some True \<longrightarrow> simple_message m"
    and "context_project enabled cfg s ms = Inr out"
  shows "exchange [] out = Some p"
proof -
  have "exchange [] (micro_compact enabled cfg (cx_cutoff s) ms) = Some p"
    using assms(1) by (simp only: exchange_compact)
  moreover have "\<forall>m \<in> set (micro_compact enabled cfg (cx_cutoff s) ms). cm_partial m = Some True \<longrightarrow> simple_message m"
    using partial_compact assms(2) by (fastforce simp: shape_def simple_message_def)
  ultimately show ?thesis
    using project_messages_exchange [OF _ _ assms(3) [unfolded context_project_def]] by blast
qed

text \<open>
  C8: projecting a conversation never makes an orphan. Take any history, reached in whatever way,
  in which the exchanges are whole up to the calls of \<open>p\<close> that still wait, and in which a message
  marked partial is a plain one. When its projection for the model succeeds, whatever was
  cleared by the micro compaction, the request answers the calls the history answers and leaves
  open exactly the calls of \<open>p\<close>: clearing old results, dropping empty messages and merging
  prompts never separate a tool call from its result. That the history has whole exchanges is a
  hypothesis; C6 says when it holds.
\<close>

theorem sent_messages_keep_protocol:
  assumes "exchange [] hist = Some p"
    and "list_all (\<lambda>m. cm_partial m = Some True \<longrightarrow> simple_message m) hist"
    and "context_project enabled cfg s hist = Inr out"
  shows "exchange [] out = Some p"
  using assms(2) by (intro context_project_exchange [OF assms(1) _ assms(3)]) (simp add: list_all_iff)

lemma named_merge_onto:
  "named_calls out \<Longrightarrow> [] \<notin> set (ids_of m) \<Longrightarrow> named_calls (merge_onto out m)"
  by (cases out rule: rev_cases) (auto simp: merge_onto_def ids_of_def named_calls_def)

lemma named_merge_loop: "merge_loop out ms = Inr res \<Longrightarrow> named_calls out \<Longrightarrow> named_calls ms \<Longrightarrow> named_calls res"
proof (induction out ms rule: merge_loop.induct)
  case (2 out m ms)
  then have m: "[] \<notin> set (ids_of m)" "named_calls ms"
    by (simp_all add: named_calls_def)
  show ?case
  proof (cases "prepare_message m")
    case (Inr r)
    show ?thesis
    proof (cases r)
      case (Some q)
      then have "[] \<notin> set (ids_of q)"
        using m prepare_shape [of m q] Inr by (simp add: shape_def ids_of_def)
      then have "named_calls (merge_onto out q)"
        using "2.prems"(2) by (rule named_merge_onto [rotated])
      then show ?thesis
        using "2.IH"(2) [OF Inr Some] "2.prems"(1) m Inr Some by simp
    qed (use "2.IH"(1) "2.prems" m Inr in simp)
  qed (use "2.prems" in simp)
qed simp

lemma named_shape: "map shape xs = map shape ys \<Longrightarrow> named_calls xs = named_calls ys"
proof -
  have "named_calls xs \<longleftrightarrow> list_all (\<lambda>(r, i, calls, og). [] \<notin> set (map cc_id calls)) (map shape xs)" for xs
    by (simp add: named_calls_def ids_of_def shape_def list_all_iff)
  then show "map shape xs = map shape ys \<Longrightarrow> named_calls xs = named_calls ys"
    by simp
qed

lemma named_project:
  assumes "named_calls ms" "context_project enabled cfg s ms = Inr out"
  shows "named_calls out"
proof -
  have "named_calls (micro_compact enabled cfg (cx_cutoff s) ms)"
    using assms(1) named_shape [OF compact_shape [of cfg "cx_cutoff s" 0 ms]] by (simp add: micro_compact_def)
  moreover have "named_calls (map strip_metadata xs) = named_calls xs" for xs
    by (simp add: named_calls_def list_all_iff strip_metadata_def ids_of_def)
  ultimately show ?thesis
    using assms(2) named_merge_loop [of "[]"]
    by (auto simp: context_project_def project_messages_def named_calls_def split: sum.splits)
qed

text \<open>
  A context that starts from another one starts closed. Whatever exchange the source has open
  (the side agent may be started by one of the calls of that exchange), the history it hands over
  has every call answered, and the new context waits for no result and holds no message back.
\<close>

theorem handed_over_history_closed:
  assumes "exchange [] (history source) = Some p"
    and "list_all (\<lambda>m. cm_partial m = Some True \<longrightarrow> simple_message m) (history source)"
    and "named_calls (history source)"
    and "use_projected_history_from now enabled cfg source s = Inr (s', recs)"
  shows "exchange [] (history s') = Some [] \<and> cx_pending s' = [] \<and> cx_deferred s' = []"
proof -
  obtain out where out: "context_project enabled cfg source (history source) = Inr out"
    and s': "s' = push_history now (trim_trailing_open out) (fst (clear_context s))"
    using assms(4) by (auto simp: use_projected_history_from_def Let_def split: sum.splits prod.splits)
  have "\<forall>m \<in> set (history source). cm_partial m = Some True \<longrightarrow> simple_message m"
    using assms(2) unfolding list_all_iff .
  then have sent: "exchange [] out = Some p"
    using context_project_exchange assms(1) out by blast
  have "exchange [] (trim_trailing_open out) = Some []"
  proof (cases "p = []")
    case True
    then show ?thesis
      using first_incomplete_closed [OF sent named_project [OF assms(3) out], of "[]" None] sent
      by (simp add: trim_trailing_open_def)
  next
    case False
    then obtain pre m tail where "out = pre @ m # tail" "first_incomplete [] None (rev out) = Some (length pre)"
        "exchange [] pre = Some []"
      using first_incomplete_open [OF sent named_project [OF assms(3) out], of "[]" None] by auto
    then show ?thesis
      by (simp add: trim_trailing_open_def)
  qed
  moreover have "fst (clear_context s) = micro_reset 0 (s\<lparr>cx_history := [], cx_token_count := 0, cx_covered := 0,
      cx_open_steps := [], cx_pending := [], cx_deferred := [], cx_last_assistant := None\<rparr>)"
    by (simp add: clear_context_def)
  ultimately show ?thesis
    by (simp add: s' micro_reset_def del: history_push)
qed

subsection \<open>Witnesses\<close>

definition sample_exchange :: "context_message list" where
  "sample_exchange =
     [user_message [TextPart ''go''] Origin_User,
      (plain_message Role_Assistant [TextPart ''on it''] None)
        \<lparr>cm_calls := [\<lparr>cc_id = ''a'', cc_name = ''Read'', cc_arguments = None\<rparr>, \<lparr>cc_id = ''b'', cc_name = ''Read'', cc_arguments = None\<rparr>]\<rparr>,
      tool_message ''a'' (plain_result (OutText ''ok''))]"

theorem trailing_exchange_trimmed_witness:
  "length (trim_trailing_open sample_exchange) = 1 \<and> exchange [] (trim_trailing_open sample_exchange) = Some []"
proof -
  have "exchange [] sample_exchange = Some [''b'']" "named_calls sample_exchange"
    by code_simp+
  moreover have "length (trim_trailing_open sample_exchange) = 1"
    by code_simp
  ultimately show ?thesis
    using trailing_exchange_trimmed [of sample_exchange "[''b'']"] by simp
qed

theorem sent_messages_keep_protocol_witness:
  "\<exists>out. context_project False default_micro_config sample_talk
     (history sample_talk) = Inr out \<and> exchange [] out = Some [''b'']"
proof -
  let ?s = "sample_talk"
  have s: "list_all (\<lambda>m. cm_partial m = Some True \<longrightarrow> simple_message m) (history ?s)"
    by code_simp
  have pend: "exchange [] (history ?s) = Some [''b'']"
    by code_simp
  have "case context_project False default_micro_config ?s (history ?s) of Inl e \<Rightarrow> False | Inr out \<Rightarrow> True"
    by code_simp
  then obtain out where "context_project False default_micro_config ?s (history ?s) = Inr out"
    by (auto split: sum.splits)
  then show ?thesis
    using sent_messages_keep_protocol [OF pend s] by blast
qed

theorem handed_over_history_closed_witness:
  "\<exists>s'. use_projected_history_from 9 False default_micro_config sample_talk
     empty_context = Inr (s', [Rec_Clear]) \<and> exchange [] (history s') = Some []"
proof -
  let ?s = "sample_talk"
  have whole: "exchange [] (history ?s) = Some [''b'']"
    by code_simp
  have plain: "list_all (\<lambda>m. cm_partial m = Some True \<longrightarrow> simple_message m) (history ?s)" "named_calls (history ?s)"
    by code_simp+
  have "case use_projected_history_from 9 False default_micro_config ?s empty_context of
      Inl e \<Rightarrow> False | Inr (s', recs) \<Rightarrow> recs = [Rec_Clear]"
    by code_simp
  then obtain s' where "use_projected_history_from 9 False default_micro_config ?s empty_context = Inr (s', [Rec_Clear])"
    by (auto split: sum.splits)
  then show ?thesis
    using handed_over_history_closed [OF whole plain] by blast
qed

end
