(* ===== verification/Compaction.thy ===== *)
theory Compaction
  imports Complex_Main Context_Projection
begin

text \<open>
  Where a conversation is cut when it is summarised: the strategies of
  \<open>packages/agent-core/src/agent/compaction/strategy.ts\<close> and \<open>smart-strategy.ts\<close>, one round of
  \<open>full.ts\<close> (requests, retries, the check that the history was not changed meanwhile, the
  application of the result) and the gates that start, block and cancel a compaction.

  Ratios are exact rationals and \<open>Infinity\<close> is \<open>None\<close>. The provider's answers, the state of the
  conversation at each suspension, the cancellation and the text of the todo list and of the plan
  tracker are parameters of a round.
\<close>

subsection \<open>The default strategy\<close>

record compaction_config =
  cp_trigger_ratio :: rat
  cp_block_ratio :: rat
  cp_reserved_context_size :: int
  cp_max_compaction_per_turn :: "nat option"
  cp_max_recent_messages :: nat
  cp_max_recent_user_messages :: "nat option"
  cp_max_recent_size_ratio :: rat
  cp_min_overflow_reduction_ratio :: rat

definition default_compaction_config :: compaction_config where
  "default_compaction_config =
     \<lparr>cp_trigger_ratio = 85 / 100, cp_block_ratio = 85 / 100, cp_reserved_context_size = 50000,
      cp_max_compaction_per_turn = None, cp_max_recent_messages = 4, cp_max_recent_user_messages = None,
      cp_max_recent_size_ratio = 1 / 5, cp_min_overflow_reduction_ratio = 1 / 20\<rparr>"

datatype compaction_source = Manual_Compaction | Auto_Compaction

definition should_use_reserved_context :: "compaction_config \<Rightarrow> int \<Rightarrow> int \<Rightarrow> bool" where
  "should_use_reserved_context cfg max_size used \<longleftrightarrow>
     cp_reserved_context_size cfg > 0 \<and> cp_reserved_context_size cfg < max_size \<and>
     used + cp_reserved_context_size cfg \<ge> max_size"

definition should_compact :: "compaction_config \<Rightarrow> int \<Rightarrow> int \<Rightarrow> bool" where
  "should_compact cfg max_size used \<longleftrightarrow>
     (if max_size \<le> 0 then False
      else rat_of_int used \<ge> rat_of_int max_size * cp_trigger_ratio cfg \<or>
        should_use_reserved_context cfg max_size used)"

definition should_block :: "compaction_config \<Rightarrow> int \<Rightarrow> int \<Rightarrow> bool" where
  "should_block cfg max_size used \<longleftrightarrow>
     (if max_size \<le> 0 then False
      else rat_of_int used \<ge> rat_of_int max_size * cp_block_ratio cfg \<or>
        should_use_reserved_context cfg max_size used)"

definition message_at :: "context_message list \<Rightarrow> nat \<Rightarrow> context_message option" where
  "message_at ms i = (if i < length ms then Some (ms ! i) else None)"

text \<open>The scan of \<open>prefixEndsWithOpenToolExchange\<close>, on the reversed prefix.\<close>

fun open_scan :: "nat \<Rightarrow> context_message list \<Rightarrow> bool" where
  "open_scan results [] = False"
| "open_scan results (m # older) =
     (if cm_role m = Role_Tool then open_scan (Suc results) older
      else cm_role m = Role_Assistant \<and> length (cm_calls m) > results)"

definition prefix_ends_open :: "context_message list \<Rightarrow> nat \<Rightarrow> bool" where
  "prefix_ends_open ms i =
     (if map_option cm_role (message_at ms i) \<noteq> Some Role_Tool then False
      else open_scan 0 (rev (take (Suc i) ms)))"

definition can_split_after :: "context_message list \<Rightarrow> nat \<Rightarrow> bool" where
  "can_split_after ms i =
     (case message_at ms i of
        None \<Rightarrow> False
      | Some m \<Rightarrow>
          if cm_role m = Role_User then False
          else if cm_role m = Role_Assistant \<and> length (cm_calls m) > 0 then False
          else if map_option cm_role (message_at ms (Suc i)) = Some Role_Tool then False
          else if prefix_ends_open ms i then False
          else True)"

fun fit_scan :: "context_message list \<Rightarrow> int \<Rightarrow> nat \<Rightarrow> nat \<Rightarrow> int \<Rightarrow> nat option \<Rightarrow> nat" where
  "fit_scan ms max_size wanted 0 tokens best = opt_or best wanted"
| "fit_scan ms max_size wanted (Suc k) tokens best =
     (let tokens' = tokens - estimate_message (ms ! Suc k) in
      if \<not> can_split_after ms k then fit_scan ms max_size wanted k tokens' best
      else if tokens' \<le> max_size then Suc k
      else fit_scan ms max_size wanted k tokens' (Some (Suc k)))"

definition fit_compact_count :: "int \<Rightarrow> context_message list \<Rightarrow> nat \<Rightarrow> nat" where
  "fit_compact_count max_size ms wanted =
     (if max_size \<le> 0 \<or> wanted \<le> 0 then wanted
      else
        let tokens = estimate_messages (take wanted ms)
        in if tokens \<le> max_size then wanted else fit_scan ms max_size wanted (wanted - 1) tokens None)"

fun manual_scan :: "context_message list \<Rightarrow> nat \<Rightarrow> nat option" where
  "manual_scan ms 0 = None"
| "manual_scan ms (Suc k) = (if can_split_after ms (Suc k) then Some (Suc k + 1) else manual_scan ms k)"

definition reaches :: "nat \<Rightarrow> nat option \<Rightarrow> bool" where
  "reaches n limit = (case limit of None \<Rightarrow> False | Some k \<Rightarrow> n \<ge> k)"

function auto_scan ::
  "compaction_config \<Rightarrow> int \<Rightarrow> context_message list \<Rightarrow> nat \<Rightarrow> nat \<Rightarrow> int \<Rightarrow> nat option \<Rightarrow> nat option" where
  "auto_scan cfg max_size ms recent users tokens best =
     (if recent < length ms
      then
        let split = length ms - recent - 1;
            m2 = ms ! (length ms - recent);
            users' = (if cm_role m2 = Role_User then users + 1 else users);
            tokens' = tokens + estimate_message m2;
            best' = (if can_split_after ms split then Some (split + 1) else best)
        in if (recent \<ge> cp_max_recent_messages cfg \<or> reaches users' (cp_max_recent_user_messages cfg) \<or>
               rat_of_int tokens' \<ge> rat_of_int max_size * cp_max_recent_size_ratio cfg) \<and> best' \<noteq> None
           then best'
           else auto_scan cfg max_size ms (Suc recent) users' tokens' best'
      else best)"
  by pat_completeness auto
termination
  by (relation "measure (\<lambda>(cfg, max_size, ms, recent, users, tokens, best). length ms - recent)") auto

declare auto_scan.simps [simp del]

definition compute_compact_count ::
  "compaction_config \<Rightarrow> int \<Rightarrow> context_message list \<Rightarrow> compaction_source \<Rightarrow> nat" where
  "compute_compact_count cfg max_size ms source =
     (case source of
        Manual_Compaction \<Rightarrow>
          (case manual_scan ms (length ms - 1) of None \<Rightarrow> 0 | Some n \<Rightarrow> fit_compact_count max_size ms n)
      | Auto_Compaction \<Rightarrow>
          fit_compact_count max_size ms (opt_or (auto_scan cfg max_size ms 1 0 0 None) 0))"

fun reduce_scan :: "context_message list \<Rightarrow> int \<Rightarrow> nat \<Rightarrow> int \<Rightarrow> nat option \<Rightarrow> nat" where
  "reduce_scan ms least 0 reduced best = opt_or best (length ms)"
| "reduce_scan ms least (Suc k) reduced best =
     (let i = Suc k; reduced' = reduced + estimate_message (ms ! (i + 1)) in
      if can_split_after ms i
      then if reduced' \<ge> least then i + 1 else reduce_scan ms least k reduced' (Some (i + 1))
      else reduce_scan ms least k reduced' best)"

definition reduce_compact_on_overflow :: "compaction_config \<Rightarrow> int \<Rightarrow> context_message list \<Rightarrow> nat" where
  "reduce_compact_on_overflow cfg max_size ms =
     reduce_scan ms (max 1 \<lceil>rat_of_int max_size * cp_min_overflow_reduction_ratio cfg\<rceil>) (length ms - 2) 0 None"

definition check_after_step :: "compaction_config \<Rightarrow> bool" where
  "check_after_step cfg \<longleftrightarrow> cp_trigger_ratio cfg \<noteq> cp_block_ratio cfg"

subsection \<open>The strategy with protected messages\<close>

definition is_protected_message :: "context_message \<Rightarrow> bool" where
  "is_protected_message m =
     (if (case cm_origin m of
            Some (Origin_Injection v) \<Rightarrow> True
          | Some (Origin_System_Trigger n) \<Rightarrow> True
          | Some Origin_Compaction_Summary \<Rightarrow> True
          | _ \<Rightarrow> False) then True
      else if cm_role m = Role_User
      then js_includes ''<system-reminder>'' (text_only m) \<or> js_includes ''<system>'' (text_only m)
      else False)"

definition is_protected_prefix :: "context_message list \<Rightarrow> nat \<Rightarrow> bool" where
  "is_protected_prefix ms n =
     (if n \<le> 0 then False
      else (case message_at ms (n - 1) of None \<Rightarrow> False | Some m \<Rightarrow> is_protected_message m) \<or>
        (case message_at ms n of None \<Rightarrow> False | Some m \<Rightarrow> is_protected_message m))"

fun find_previous_split :: "context_message list \<Rightarrow> nat \<Rightarrow> nat option" where
  "find_previous_split ms 0 = None"
| "find_previous_split ms (Suc k) =
     (if \<not> is_protected_prefix ms (Suc k) then Some (Suc k) else find_previous_split ms k)"

lemma find_previous_split_le: "find_previous_split ms k = Some p \<Longrightarrow> p \<le> k"
  by (induction ms k rule: find_previous_split.induct) (auto split: if_splits)

function avoid_protected :: "context_message list \<Rightarrow> nat \<Rightarrow> nat" where
  "avoid_protected ms n =
     (if n > 0
      then if is_protected_prefix ms n
           then (case find_previous_split ms (n - 1) of
                   None \<Rightarrow> 0
                 | Some p \<Rightarrow> if p \<le> 0 then 0 else avoid_protected ms p)
           else n
      else n)"
  by pat_completeness auto
termination
  by (relation "measure snd") (auto dest: find_previous_split_le)

declare avoid_protected.simps [simp del]

definition smart_compact_count ::
  "compaction_config \<Rightarrow> int \<Rightarrow> context_message list \<Rightarrow> compaction_source \<Rightarrow> nat" where
  "smart_compact_count cfg max_size ms source =
     (let n = compute_compact_count cfg max_size ms source in if n = 0 then 0 else avoid_protected ms n)"

definition smart_reduce_on_overflow :: "compaction_config \<Rightarrow> int \<Rightarrow> context_message list \<Rightarrow> nat" where
  "smart_reduce_on_overflow cfg max_size ms =
     (let n = reduce_compact_on_overflow cfg max_size ms in if n = 0 then 0 else avoid_protected ms n)"

subsection \<open>A split closes every exchange before it\<close>

definition split_point :: "context_message list \<Rightarrow> nat \<Rightarrow> bool" where
  "split_point ms n = (case n of 0 \<Rightarrow> True | Suc k \<Rightarrow> can_split_after ms k)"

lemma open_scan_pending:
  "exchange [] pre = Some q \<Longrightarrow> length q > n \<Longrightarrow> open_scan n (rev pre)"
proof (induction pre arbitrary: q n rule: rev_induct)
  case (snoc m pre)
  show ?case
  proof (rule exchange_snocE [OF snoc.prems(1)])
    fix q' i assume m: "exchange [] pre = Some q'" "cm_role m = Role_Tool" "i \<in> set q'" "q = removeAll i q'"
    then have "length q' > Suc n"
      using snoc.prems(2) length_removeAll_less [of i q'] by simp
    then show ?thesis
      using snoc.IH [OF m(1)] m(2) by simp
  next
    assume "cm_role m \<noteq> Role_Tool" "q = ids_of m" "ids_of m \<noteq> [] \<longrightarrow> cm_role m = Role_Assistant"
    then show ?thesis
      using snoc.prems(2) by (cases "ids_of m") (auto simp: ids_of_def)
  qed
qed simp

lemma can_split_closed:
  assumes "exchange [] ms = Some p" "can_split_after ms k"
  shows "exchange [] (take (Suc k) ms) = Some []"
proof -
  have k: "k < length ms"
    using assms(2) by (auto simp: can_split_after_def message_at_def split: if_splits)
  obtain q where q: "exchange [] (take (Suc k) ms) = Some q"
    using assms(1) exchange_append [of "[]" "take (Suc k) ms" "drop (Suc k) ms"] by (auto split: option.splits)
  have last: "take (Suc k) ms = take k ms @ [ms ! k]"
    using k by (rule take_Suc_conv_app_nth)
  have "q = []"
  proof (rule exchange_snocE [OF q [unfolded last]])
    fix q' i assume tool: "cm_role (ms ! k) = Role_Tool"
    then have "\<not> open_scan 0 (rev (take (Suc k) ms))"
      using assms(2) k by (auto simp: can_split_after_def message_at_def prefix_ends_open_def split: if_splits)
    then show "q = []"
      using open_scan_pending [OF q, of 0] by auto
  next
    assume "cm_role (ms ! k) \<noteq> Role_Tool" "q = ids_of (ms ! k)"
      "ids_of (ms ! k) \<noteq> [] \<longrightarrow> cm_role (ms ! k) = Role_Assistant"
    moreover have "cm_role (ms ! k) \<noteq> Role_Assistant \<or> cm_calls (ms ! k) = []"
      using assms(2) k by (auto simp: can_split_after_def message_at_def split: if_splits)
    ultimately show "q = []"
      by (cases "cm_calls (ms ! k)") (simp_all add: ids_of_def)
  qed
  then show ?thesis
    using q by simp
qed

lemma split_point_closed:
  "exchange [] ms = Some p \<Longrightarrow> split_point ms n \<Longrightarrow> exchange [] (take n ms) = Some []"
  by (cases n) (auto simp: split_point_def can_split_closed)

lemma split_point_le: "split_point ms n \<Longrightarrow> n \<le> length ms"
  by (cases n) (auto simp: split_point_def can_split_after_def message_at_def split: if_splits)

lemma fit_scan_split:
  "split_point ms (opt_or best wanted) \<Longrightarrow> split_point ms (fit_scan ms max_size wanted k tokens best)"
  by (induction ms max_size wanted k tokens best rule: fit_scan.induct) (auto simp: split_point_def Let_def)

lemma fit_split: "split_point ms wanted \<Longrightarrow> split_point ms (fit_compact_count max_size ms wanted)"
  by (simp add: fit_compact_count_def fit_scan_split Let_def)

lemma manual_scan_split: "manual_scan ms k = Some n \<Longrightarrow> split_point ms n"
  by (induction ms k rule: manual_scan.induct) (auto simp: split_point_def split: if_splits)

lemma auto_scan_step:
  fixes best :: "nat option" and ms :: "context_message list"
  assumes "recent < length ms"
  defines "best' \<equiv> (if can_split_after ms (length ms - recent - 1) then Some (length ms - recent) else best)"
  obtains stop users' tokens' where "auto_scan cfg max_size ms recent users tokens best =
    (if stop \<and> best' \<noteq> None then best' else auto_scan cfg max_size ms (Suc recent) users' tokens' best')"
proof -
  have "length ms - recent = length ms - recent - 1 + 1"
    using assms(1) by simp
  then have best': "best' = (if can_split_after ms (length ms - recent - 1) then Some (length ms - recent - 1 + 1) else best)"
    by (simp only: best'_def)
  let ?users = "if cm_role (ms ! (length ms - recent)) = Role_User then users + 1 else users"
  let ?tokens = "tokens + estimate_message (ms ! (length ms - recent))"
  let ?stop = "recent \<ge> cp_max_recent_messages cfg \<or> reaches ?users (cp_max_recent_user_messages cfg) \<or>
    rat_of_int ?tokens \<ge> rat_of_int max_size * cp_max_recent_size_ratio cfg"
  have "auto_scan cfg max_size ms recent users tokens best =
      (if ?stop \<and> best' \<noteq> None then best' else auto_scan cfg max_size ms (Suc recent) ?users ?tokens best')"
    using assms(1) unfolding best' by (subst auto_scan.simps) (simp only: Let_def if_True)
  then show thesis
    by (rule that)
qed

lemma auto_scan_split:
  "(\<And>n. best = Some n \<Longrightarrow> split_point ms n \<and> n < length ms) \<Longrightarrow>
   auto_scan cfg max_size ms recent users tokens best = Some n \<Longrightarrow> recent > 0 \<Longrightarrow>
   split_point ms n \<and> n < length ms"
proof (induction "length ms - recent" arbitrary: recent users tokens best)
  case 0
  then show ?case
    by (simp add: auto_scan.simps)
next
  case (Suc k)
  then have less: "recent < length ms"
    by simp
  define best' where "best' = (if can_split_after ms (length ms - recent - 1) then Some (length ms - recent) else best)"
  have "split_point ms (length ms - recent)" if "can_split_after ms (length ms - recent - 1)"
    using that less by (cases "length ms - recent") (simp_all add: split_point_def)
  then have best': "split_point ms n \<and> n < length ms" if "best' = Some n" for n
    using that Suc.prems(1) [of n] Suc.prems(3) less by (auto simp: best'_def split: if_splits)
  obtain stop users' tokens' where step: "auto_scan cfg max_size ms recent users tokens best =
      (if stop \<and> best' \<noteq> None then best' else auto_scan cfg max_size ms (Suc recent) users' tokens' best')"
    unfolding best'_def using less by (rule auto_scan_step)
  have rest: "k = length ms - Suc recent"
    using Suc.hyps(2) by simp
  show ?case
  proof (cases "stop \<and> best' \<noteq> None")
    case True
    then show ?thesis
      using Suc.prems(2) step best' by simp
  next
    case False
    then have "auto_scan cfg max_size ms (Suc recent) users' tokens' best' = Some n"
      using Suc.prems(2) unfolding step by (simp only: if_False)
    then show ?thesis
      using Suc.hyps(1) [OF rest, of best'] best' by blast
  qed
qed

lemma reduce_scan_split:
  "(\<And>n. best = Some n \<Longrightarrow> split_point ms n) \<Longrightarrow>
   split_point ms (reduce_scan ms least k reduced best) \<or> reduce_scan ms least k reduced best = length ms"
proof (induction ms least k reduced best rule: reduce_scan.induct)
  case (1 ms least reduced best)
  then show ?case
    by (cases best) simp_all
next
  case (2 ms least k reduced best)
  show ?case
  proof (cases "can_split_after ms (Suc k)")
    case True
    then have "split_point ms (Suc k + 1)"
      by (simp add: split_point_def)
    then show ?thesis
      using True 2(1) [OF refl refl True] by (simp add: Let_def)
  next
    case False
    then show ?thesis
      using 2(2) [OF refl refl False] 2(3) by (simp add: Let_def)
  qed
qed

lemma reduce_split:
  "split_point ms (reduce_compact_on_overflow cfg max_size ms) \<or>
   reduce_compact_on_overflow cfg max_size ms = length ms"
  unfolding reduce_compact_on_overflow_def by (rule reduce_scan_split) simp

lemma reduce_le: "reduce_compact_on_overflow cfg max_size ms \<le> length ms"
  using reduce_split [of ms cfg max_size] split_point_le by auto

lemma compute_split: "split_point ms (compute_compact_count cfg max_size ms source)"
proof (cases source)
  case Manual_Compaction
  then show ?thesis
    using manual_scan_split [of ms "length ms - 1"] fit_split
    by (simp add: compute_compact_count_def split_point_def [of ms 0] split: option.split)
next
  case Auto_Compaction
  have "split_point ms (opt_or (auto_scan cfg max_size ms 1 0 0 None) 0)"
    using auto_scan_split [of None ms cfg max_size 1 0 0]
    by (cases "auto_scan cfg max_size ms 1 0 0 None") (simp_all add: split_point_def [of ms 0])
  then show ?thesis
    by (simp add: compute_compact_count_def Auto_Compaction fit_split)
qed

lemma fit_scan_le: "k < wanted \<Longrightarrow> opt_or best wanted \<le> wanted \<Longrightarrow> fit_scan ms max_size wanted k tokens best \<le> wanted"
  by (induction ms max_size wanted k tokens best rule: fit_scan.induct) (auto simp: Let_def)

lemma fit_le: "fit_compact_count max_size ms wanted \<le> wanted"
  by (simp add: fit_compact_count_def fit_scan_le Let_def)

lemma compute_auto_keeps_recent:
  assumes "compute_compact_count cfg max_size ms Auto_Compaction > 0"
  shows "compute_compact_count cfg max_size ms Auto_Compaction < length ms"
  using assms auto_scan_split [of None ms cfg max_size 1 0 0]
    fit_le [of max_size ms "opt_or (auto_scan cfg max_size ms 1 0 0 None) 0"]
  by (cases "auto_scan cfg max_size ms 1 0 0 None") (auto simp: compute_compact_count_def)

subsection \<open>Fitting the window\<close>

definition safe_splits :: "context_message list \<Rightarrow> nat \<Rightarrow> nat list" where
  "safe_splits ms wanted = filter (\<lambda>n. can_split_after ms (n - 1)) [1..<wanted]"

text \<open>The largest safe split that fits; when none fits the smallest; when there is none the whole.\<close>

definition best_split :: "int \<Rightarrow> context_message list \<Rightarrow> nat \<Rightarrow> nat list \<Rightarrow> nat" where
  "best_split max_size ms wanted safe =
     (let fitting = filter (\<lambda>n. estimate_messages (take n ms) \<le> max_size) safe
      in if fitting \<noteq> [] then last fitting else if safe \<noteq> [] then hd safe else wanted)"

definition fit_spec :: "int \<Rightarrow> context_message list \<Rightarrow> nat \<Rightarrow> nat" where
  "fit_spec max_size ms wanted =
     (if max_size \<le> 0 \<or> wanted = 0 \<or> estimate_messages (take wanted ms) \<le> max_size then wanted
      else best_split max_size ms wanted (safe_splits ms wanted))"

lemma estimate_take_Suc:
  "k < length ms \<Longrightarrow> estimate_messages (take (Suc k) ms) - estimate_message (ms ! k) = estimate_messages (take k ms)"
  by (simp add: estimate_messages_def take_Suc_conv_app_nth)

lemma fit_scan_best:
  "Suc k \<le> length ms \<Longrightarrow> tokens = estimate_messages (take (Suc k) ms) \<Longrightarrow>
   fit_scan ms max_size wanted k tokens best = best_split max_size ms (opt_or best wanted) (safe_splits ms (Suc k))"
proof (induction ms max_size wanted k tokens best rule: fit_scan.induct)
  case (1 ms max_size wanted tokens best)
  then show ?case
    by (simp add: best_split_def safe_splits_def)
next
  case (2 ms max_size wanted k tokens best)
  have less: "Suc k \<le> length ms" "tokens - estimate_message (ms ! Suc k) = estimate_messages (take (Suc k) ms)"
    using 2(3,4) estimate_take_Suc [of "Suc k" ms] by simp_all
  have safe: "safe_splits ms (Suc (Suc k)) = safe_splits ms (Suc k) @ (if can_split_after ms k then [Suc k] else [])"
    by (simp add: safe_splits_def)
  show ?case
  proof (cases "can_split_after ms k")
    case split: True
    show ?thesis
    proof (cases "estimate_messages (take (Suc k) ms) \<le> max_size")
      case True
      then show ?thesis
        using split less(2) by (simp add: safe best_split_def Let_def)
    next
      case False
      then show ?thesis
        using split 2(2) [OF refl _ _ less] less(2) by (simp add: safe best_split_def Let_def)
    qed
  next
    case False
    then show ?thesis
      using 2(1) [OF refl _ less] by (simp add: safe Let_def)
  qed
qed

text \<open>
  The reduction to the context window, with its running size and one pass from the end, gives
  what the specification asks for: the whole prefix when it fits, else the longest safe shorter
  prefix that fits, else the shortest safe prefix, else the prefix itself.
\<close>

theorem fit_meets_spec:
  assumes "wanted \<le> length ms"
  shows "fit_compact_count max_size ms wanted = fit_spec max_size ms wanted"
proof (cases wanted)
  case 0
  then show ?thesis
    by (simp add: fit_compact_count_def fit_spec_def)
next
  case (Suc k)
  then show ?thesis
    using fit_scan_best [of k ms "estimate_messages (take wanted ms)" max_size wanted None] assms
    by (simp add: fit_compact_count_def fit_spec_def Let_def)
qed

subsection \<open>One round\<close>

definition max_compaction_attempts :: nat where
  "max_compaction_attempts = 5"

datatype generate_error =
    Gen_Context_Overflow loop_error
  | Gen_Empty_Response loop_error
  | Gen_Truncated
  | Gen_Other bool loop_error

record generate_response =
  gr_finish :: "finish_reason option"
  gr_content :: "content_part list"

datatype round_failure = Failed_Projection string | Failed_Generate generate_error | Failed_Sleep

record round_env =
  ce_config :: compaction_config
  ce_max_size :: int
  ce_micro_enabled :: bool
  ce_micro_config :: micro_config
  ce_instruction :: string
  ce_generate :: "nat \<Rightarrow> context_message list \<Rightarrow> generate_error + generate_response"
  ce_context :: "nat \<Rightarrow> context_memory"
  ce_hook_aborted :: bool
  ce_sleep_aborted :: "nat \<Rightarrow> bool"
  ce_answered :: context_memory
  ce_plan_summary :: string
  ce_todo_list :: "string option"

text \<open>
  The original history is an array of references: what it shows later is what the objects hold
  then. An object the conversation dropped keeps what it held.
\<close>

definition seen_in :: "context_memory \<Rightarrow> (nat \<times> context_message) list \<Rightarrow> context_message list" where
  "seen_in cx objects = map (\<lambda>(k, m). opt_or (map_of (cx_history cx) k) m) objects"

definition extract_compaction_summary :: "generate_response \<Rightarrow> generate_error + string" where
  "extract_compaction_summary r =
     (let summary = joined_text (gr_content r)
      in if length (js_trim summary) = 0
         then Inl (Gen_Empty_Response (plain_loop_error ''The compaction response did not contain a non-empty summary.''))
         else Inr summary)"

text \<open>The body of the inner \<open>try\<close>.\<close>

definition request_summary ::
  "round_env \<Rightarrow> nat \<Rightarrow> context_message list \<Rightarrow> generate_error + string" where
  "request_summary env retry request =
     (case ce_generate env retry request of
        Inl e \<Rightarrow> Inl e
      | Inr r \<Rightarrow> if gr_finish r = Some Fin_Truncated then Inl Gen_Truncated else extract_compaction_summary r)"

fun reduces_prefix :: "generate_error \<Rightarrow> bool" where
  "reduces_prefix (Gen_Context_Overflow e) = True"
| "reduces_prefix (Gen_Empty_Response e) = True"
| "reduces_prefix Gen_Truncated = True"
| "reduces_prefix (Gen_Other r e) = False"

fun retries_prefix :: "generate_error \<Rightarrow> bool" where
  "retries_prefix (Gen_Other retryable e) = retryable"
| "retries_prefix e = False"

definition summary_request :: "round_env \<Rightarrow> context_message list \<Rightarrow> context_message list" where
  "summary_request env projected = projected @ [plain_message Role_User [TextPart (ce_instruction env)] None]"

text \<open>The loop of attempts: the requests sent, and the summary with the number of messages it covers.\<close>

function summary_attempts ::
  "round_env \<Rightarrow> (nat \<times> context_message) list \<Rightarrow> nat \<Rightarrow> nat \<Rightarrow>
   context_message list list \<times> (round_failure + string \<times> nat)" where
  "summary_attempts env orig n retry =
     (let to_compact = seen_in (ce_context env retry) (take n orig) in
      case context_project (ce_micro_enabled env) (ce_micro_config env) (ce_context env retry) to_compact of
        Inl e \<Rightarrow> ([], Inl (Failed_Projection e))
      | Inr projected \<Rightarrow>
          let request = summary_request env projected in
          case request_summary env retry request of
            Inr summary \<Rightarrow> ([request], Inr (summary, n))
          | Inl e \<Rightarrow>
              let n' = (if reduces_prefix e
                        then reduce_compact_on_overflow (ce_config env) (ce_max_size env) to_compact else n)
              in if \<not> reduces_prefix e \<and> \<not> retries_prefix e then ([request], Inl (Failed_Generate e))
                 else if retry + 1 \<ge> max_compaction_attempts then ([request], Inl (Failed_Generate e))
                 else if ce_sleep_aborted env retry then ([request], Inl Failed_Sleep)
                 else let (reqs, res) = summary_attempts env orig n' (retry + 1) in (request # reqs, res))"
  by pat_completeness auto
termination
  by (relation "measure (\<lambda>(env, orig, n, retry). max_compaction_attempts - retry)") auto

declare summary_attempts.simps [simp del]

definition post_process_summary :: "round_env \<Rightarrow> string \<Rightarrow> string" where
  "post_process_summary env summary =
     join_with (newline @ newline)
       (js_trim summary # (if length (ce_plan_summary env) > 0 then [ce_plan_summary env] else []) @
        (case ce_todo_list env of None \<Rightarrow> [] | Some t \<Rightarrow> [t]))"

datatype round_outcome =
    Round_Aborted
  | Round_Cancelled
  | Round_Failed round_failure
  | Round_Applied compaction_result context_memory

fun failure_aborts :: "round_failure \<Rightarrow> bool" where
  "failure_aborts (Failed_Generate (Gen_Other r e)) = is_abort_error e"
| "failure_aborts Failed_Sleep = True"
| "failure_aborts f = False"

definition history_unchanged :: "(nat \<times> context_message) list \<Rightarrow> (nat \<times> context_message) list \<Rightarrow> bool" where
  "history_unchanged orig new \<longleftrightarrow> length new \<ge> length orig \<and> map fst (take (length orig) new) = map fst orig"

definition compaction_round ::
  "round_env \<Rightarrow> int \<Rightarrow> context_memory \<Rightarrow> nat \<Rightarrow> context_message list list \<times> round_outcome" where
  "compaction_round env now s wanted =
     (let orig = cx_history s in
      if ce_hook_aborted env then ([], Round_Aborted)
      else
        let (reqs, res) = summary_attempts env orig wanted 0 in
        (reqs,
         case res of
           Inl f \<Rightarrow> if failure_aborts f then Round_Aborted else Round_Failed f
         | Inr (summary, n) \<Rightarrow>
             let cur = ce_answered env in
             if \<not> history_unchanged orig (cx_history cur) then Round_Cancelled
             else
               let text = post_process_summary env summary;
                   result = \<lparr>cr_summary = text, cr_compacted_count = n,
                     cr_tokens_before = estimate_messages (map snd orig),
                     cr_tokens_after = estimate_tokens text + estimate_messages (seen_in cur (drop n orig))\<rparr>
               in Round_Applied result (fst (apply_compaction now result cur))))"

subsection \<open>Starting, blocking and cancelling\<close>

record compaction_state =
  fc_count_in_turn :: nat
  fc_compacting :: "bool option"

datatype compaction_event =
    Started_Compaction compaction_source "string option" nat
  | Cancelled_Compaction
  | Completed_Compaction

datatype compaction_error = Compaction_Unable | Compaction_Limit nat

text \<open>\<open>begin\<close>; the count handed to the worker is in the event. Replaying only shows the compaction.\<close>

definition begin_compaction ::
  "compaction_config \<Rightarrow> int \<Rightarrow> bool \<Rightarrow> context_message list \<Rightarrow> compaction_source \<Rightarrow> string option \<Rightarrow>
   compaction_state \<Rightarrow> (compaction_state \<times> compaction_event list) \<times> compaction_error option" where
  "begin_compaction cfg max_size restoring hist source instruction fc =
     (if fc_compacting fc \<noteq> None then ((fc, []), None)
      else
        let fc1 = (if source = Manual_Compaction then fc\<lparr>fc_count_in_turn := 0\<rparr>
                   else fc\<lparr>fc_count_in_turn := fc_count_in_turn fc + 1\<rparr>)
        in if (case cp_max_compaction_per_turn cfg of None \<Rightarrow> False | Some k \<Rightarrow> fc_count_in_turn fc1 > k)
           then ((fc1, []), None)
           else if restoring then ((fc1, []), None)
           else
             let n = compute_compact_count cfg max_size hist source
             in if n = 0 then ((fc1, []), Some Compaction_Unable)
                else ((fc1\<lparr>fc_compacting := Some False\<rparr>, [Started_Compaction source instruction n]), None))"

definition cancel_compaction :: "compaction_state \<Rightarrow> compaction_state \<times> compaction_event list" where
  "cancel_compaction fc =
     (if fc_compacting fc = None then (fc, []) else (fc\<lparr>fc_compacting := None\<rparr>, [Cancelled_Compaction]))"

definition mark_completed :: "compaction_state \<Rightarrow> compaction_state \<times> compaction_event list" where
  "mark_completed fc = (fc\<lparr>fc_compacting := None\<rparr>, [Completed_Compaction])"

definition reset_for_turn :: "compaction_state \<Rightarrow> compaction_state" where
  "reset_for_turn fc = fc\<lparr>fc_count_in_turn := 0\<rparr>"

definition begin_auto_compaction ::
  "compaction_config \<Rightarrow> int \<Rightarrow> bool \<Rightarrow> context_message list \<Rightarrow> bool \<Rightarrow> compaction_state \<Rightarrow>
   (compaction_state \<times> compaction_event list) \<times> (compaction_error + bool)" where
  "begin_auto_compaction cfg max_size restoring hist throws fc =
     (if fc_compacting fc \<noteq> None then ((fc, []), Inr True)
      else case cp_max_compaction_per_turn cfg of
        Some k \<Rightarrow>
          if fc_count_in_turn fc \<ge> k
          then if throws then ((fc, []), Inl (Compaction_Limit k)) else ((fc, []), Inr False)
          else (let (r, err) = begin_compaction cfg max_size restoring hist Auto_Compaction None fc
                in (r, case err of Some e \<Rightarrow> Inl e | None \<Rightarrow> Inr (fc_compacting (fst r) \<noteq> None)))
      | None \<Rightarrow>
          (let (r, err) = begin_compaction cfg max_size restoring hist Auto_Compaction None fc
           in (r, case err of Some e \<Rightarrow> Inl e | None \<Rightarrow> Inr (fc_compacting (fst r) \<noteq> None))))"

definition check_auto_compaction ::
  "compaction_config \<Rightarrow> int \<Rightarrow> bool \<Rightarrow> context_memory \<Rightarrow> bool \<Rightarrow> compaction_state \<Rightarrow>
   (compaction_state \<times> compaction_event list) \<times> (compaction_error + bool)" where
  "check_auto_compaction cfg max_size restoring s throws fc =
     (if fc_compacting fc \<noteq> None then ((fc, []), Inr True)
      else if \<not> should_compact cfg max_size (token_count_with_pending s) then ((fc, []), Inr False)
      else begin_auto_compaction cfg max_size restoring (history s) throws fc)"

text \<open>\<open>block\<close> up to its suspension: whether the turn waits, and the mark that it does.\<close>

definition block_on_compaction :: "compaction_state \<Rightarrow> compaction_state \<times> bool" where
  "block_on_compaction fc =
     (case fc_compacting fc of None \<Rightarrow> (fc, False) | Some b \<Rightarrow> (fc\<lparr>fc_compacting := Some True\<rparr>, True))"

definition before_step_compaction ::
  "compaction_config \<Rightarrow> int \<Rightarrow> bool \<Rightarrow> context_memory \<Rightarrow> compaction_state \<Rightarrow>
   (compaction_state \<times> compaction_event list) \<times> (compaction_error + bool)" where
  "before_step_compaction cfg max_size restoring s fc =
     (case check_auto_compaction cfg max_size restoring s True fc of
        (r, Inl e) \<Rightarrow> (r, Inl e)
      | ((fc1, evs), Inr b) \<Rightarrow>
          if should_block cfg max_size (token_count_with_pending s)
          then (let (fc2, waits) = block_on_compaction fc1 in ((fc2, evs), Inr waits))
          else ((fc1, evs), Inr False))"

definition after_step_compaction ::
  "compaction_config \<Rightarrow> int \<Rightarrow> bool \<Rightarrow> context_memory \<Rightarrow> compaction_state \<Rightarrow>
   (compaction_state \<times> compaction_event list) \<times> (compaction_error + bool)" where
  "after_step_compaction cfg max_size restoring s fc =
     (if check_after_step cfg then check_auto_compaction cfg max_size restoring s False fc else ((fc, []), Inr False))"

text \<open>\<open>handleOverflowError\<close>: \<open>None\<close> when the error is thrown on.\<close>

definition handle_overflow_error ::
  "compaction_config \<Rightarrow> int \<Rightarrow> bool \<Rightarrow> context_message list \<Rightarrow> compaction_state \<Rightarrow>
   (compaction_state \<times> compaction_event list) \<times> (compaction_error option + bool)" where
  "handle_overflow_error cfg max_size restoring hist fc =
     (case begin_auto_compaction cfg max_size restoring hist True fc of
        (r, Inl e) \<Rightarrow> (r, Inl (Some e))
      | ((fc1, evs), Inr started) \<Rightarrow>
          if \<not> started \<and> fc_compacting fc1 = None then ((fc1, evs), Inl None)
          else (let (fc2, waits) = block_on_compaction fc1 in ((fc2, evs), Inr waits)))"

subsection \<open>A round keeps the protocol\<close>

lemma length_seen_in [simp]: "length (seen_in cx xs) = length xs"
  by (simp add: seen_in_def)

lemma seen_in_take: "seen_in cx (take n xs) = take n (seen_in cx xs)"
  by (simp add: seen_in_def take_map)

lemma seen_in_le:
  "seen_in cx (take wanted xs) = take wanted ms \<Longrightarrow> n \<le> wanted \<Longrightarrow> seen_in cx (take n xs) = take n ms"
  by (metis min.absorb1 seen_in_take take_take)

lemma reduce_closed:
  assumes "exchange [] ms = Some []"
  shows "exchange [] (take (reduce_compact_on_overflow cfg max_size ms) ms) = Some []"
  using reduce_split [of ms cfg max_size] split_point_closed [OF assms] assms by auto

lemma summary_request_closed:
  "exchange [] projected = Some [] \<Longrightarrow> exchange [] (summary_request env projected) = Some []"
  by (simp add: summary_request_def exchange_append plain_message_def)

definition reads_as :: "round_env \<Rightarrow> (nat \<times> context_message) list \<Rightarrow> nat \<Rightarrow> bool" where
  "reads_as env orig wanted \<longleftrightarrow>
     (\<forall>k. seen_in (ce_context env k) (take wanted orig) = take wanted (map snd orig))"

lemma summary_attempts_closed:
  "summary_attempts env orig n retry = (reqs, res) \<Longrightarrow> reads_as env orig wanted \<Longrightarrow> n \<le> wanted \<Longrightarrow>
   exchange [] (take n (map snd orig)) = Some [] \<Longrightarrow>
   (\<forall>m \<in> set (map snd orig). cm_partial m = Some True \<longrightarrow> simple_message m) \<Longrightarrow>
   list_all (\<lambda>q. exchange [] q = Some []) reqs \<and>
   (\<forall>summary n'. res = Inr (summary, n') \<longrightarrow> n' \<le> n \<and> exchange [] (take n' (map snd orig)) = Some [])"
proof (induction "max_compaction_attempts - retry" arbitrary: n retry reqs res rule: less_induct)
  case less
  note prems = less.prems
  have seen: "seen_in (ce_context env retry) (take n orig) = take n (map snd orig)"
    using prems(2) seen_in_le [OF _ prems(3)] unfolding reads_as_def by blast
  note run = prems(1) [unfolded summary_attempts.simps [of env orig n retry] Let_def seen]
  show ?case
  proof (cases "context_project (ce_micro_enabled env) (ce_micro_config env) (ce_context env retry) (take n (map snd orig))")
    case (Inl e)
    then show ?thesis
      using run by auto
  next
    case projected: (Inr projected)
    have "\<forall>m \<in> set (take n (map snd orig)). cm_partial m = Some True \<longrightarrow> simple_message m"
      using prems(5) by (meson in_set_takeD)
    then have "exchange [] projected = Some []"
      using context_project_exchange prems(4) projected by blast
    then have request: "exchange [] (summary_request env projected) = Some []"
      by (rule summary_request_closed)
    show ?thesis
    proof (cases "request_summary env retry (summary_request env projected)")
      case (Inr summary)
      then show ?thesis
        using run projected request prems(4) by auto
    next
      case (Inl e)
      let ?n' = "if reduces_prefix e
        then reduce_compact_on_overflow (ce_config env) (ce_max_size env) (take n (map snd orig)) else n"
      show ?thesis
      proof (cases "(\<not> reduces_prefix e \<and> \<not> retries_prefix e) \<or> retry + 1 \<ge> max_compaction_attempts \<or> ce_sleep_aborted env retry")
        case True
        then show ?thesis
          using run projected Inl request by (auto split: if_splits)
      next
        case False
        obtain reqs' res' where rest: "summary_attempts env orig ?n' (retry + 1) = (reqs', res')"
          by (cases "summary_attempts env orig ?n' (retry + 1)")
        then have out: "reqs = summary_request env projected # reqs'" "res = res'"
          using run projected Inl False by (auto split: if_splits)
        have n': "?n' \<le> n"
          using reduce_le [of "ce_config env" "ce_max_size env" "take n (map snd orig)"] by simp
        have "take (reduce_compact_on_overflow cfg top (take n xs)) (take n xs) =
            take (reduce_compact_on_overflow cfg top (take n xs)) xs" for cfg top and xs :: "context_message list"
          using reduce_le [of cfg top "take n xs"] by simp
        then have "exchange [] (take (reduce_compact_on_overflow cfg top (take n (map snd orig))) (map snd orig)) = Some []"
          for cfg top
          using reduce_closed [OF prems(4), of cfg top] by simp
        then have closed: "exchange [] (take ?n' (map snd orig)) = Some []"
          using prems(4) by simp
        have "list_all (\<lambda>q. exchange [] q = Some []) reqs' \<and>
            (\<forall>summary m. res' = Inr (summary, m) \<longrightarrow> m \<le> ?n' \<and> exchange [] (take m (map snd orig)) = Some [])"
          by (rule less.hyps [OF _ rest prems(2) _ closed prems(5)]) (use False n' prems(3) in auto)
        then show ?thesis
          using out request n' by auto
      qed
    qed
  qed
qed

lemma seen_in_keys:
  "map fst xs = map fst ys \<Longrightarrow> set ys \<subseteq> set (cx_history cx) \<Longrightarrow> distinct (map fst (cx_history cx)) \<Longrightarrow>
   seen_in cx xs = map snd ys"
proof (induction xs arbitrary: ys)
  case (Cons x xs)
  then obtain y ys' where ys: "ys = y # ys'" "fst x = fst y" "map fst xs = map fst ys'"
    by (cases ys) auto
  then have "map_of (cx_history cx) (fst x) = Some (snd y)"
    using Cons.prems(2,3) by (simp add: map_of_eq_Some_iff)
  moreover have "seen_in cx xs = map snd ys'"
    using Cons ys by simp
  ultimately show ?case
    by (simp add: seen_in_def ys(1) split_def)
qed (simp add: seen_in_def)

lemma unchanged_contents:
  assumes "history_unchanged orig (cx_history cx)" "distinct (map fst (cx_history cx))" "n \<le> length orig"
    and "seen_in cx (take n orig) = take n (map snd orig)"
  shows "take n (history cx) = take n (map snd orig)"
proof -
  let ?new = "cx_history cx"
  have "map fst (take n ?new) = take n (map fst (take (length orig) ?new))"
    using assms(3) by (simp add: take_map [symmetric] min_def)
  also have "\<dots> = map fst (take n orig)"
    using assms(1) by (simp add: history_unchanged_def take_map)
  finally have "seen_in cx (take n orig) = map snd (take n ?new)"
    using assms(2) by (intro seen_in_keys) (auto dest: in_set_takeD)
  then show ?thesis
    using assms(4) by (simp only: take_map)
qed

text \<open>
  C7: a full compaction with the default strategy, the only one the agent builds, does not tear a
  tool call from its results. Take a conversation that satisfies the invariant of C6 and the count
  the strategy computes for it; let attempts fail, be retried and shrink the prefix in any way the
  provider makes them; and let the conversation have gone on, when the summary is there, to
  another one that satisfies the invariant. If the summarised messages have kept their contents
  meanwhile, every request sent to the provider is closed, at most the planned prefix is replaced,
  and the conversation after the replacement satisfies the invariant again, with the same calls
  waiting. Without that hypothesis a manual compaction can orphan a result
  (\<open>manual_compaction_can_orphan\<close>), and the other strategy of the source can split an exchange
  (\<open>smart_split_tears_exchange\<close>).
\<close>

theorem compaction_keeps_protocol:
  assumes "context_ok s"
    and "list_all (\<lambda>m. cm_partial m = Some True \<longrightarrow> simple_message m) (history s)"
    and "wanted = compute_compact_count (ce_config env) (ce_max_size env) (history s) source"
    and "reads_as env (cx_history s) wanted"
    and "context_ok (ce_answered env)"
    and "seen_in (ce_answered env) (take wanted (cx_history s)) = take wanted (history s)"
    and "compaction_round env now s wanted = (reqs, Round_Applied res t)"
  shows "list_all (\<lambda>q. exchange [] q = Some []) reqs \<and> cr_compacted_count res \<le> wanted \<and>
    context_ok t \<and> exchange [] (history t) = Some (cx_pending (ce_answered env))"
proof -
  let ?cur = "ce_answered env"
  have s_inv: "exchange [] (history s) = Some (cx_pending s)"
    using assms(1) by (simp add: context_ok_def context_inv_def)
  have split: "split_point (history s) wanted"
    unfolding assms(3) by (rule compute_split)
  then have closed: "exchange [] (take wanted (history s)) = Some []"
    by (rule split_point_closed [OF s_inv])
  have plain: "\<forall>m \<in> set (history s). cm_partial m = Some True \<longrightarrow> simple_message m"
    using assms(2) by (simp add: list_all_iff)
  have distinct: "distinct (map fst (cx_history ?cur))"
    using assms(5) by (simp add: context_ok_def objects_inv_def)
  obtain summary n where run: "summary_attempts env (cx_history s) wanted 0 = (reqs, Inr (summary, n))"
    and unchanged: "history_unchanged (cx_history s) (cx_history ?cur)"
    and res: "cr_compacted_count res = n" and t: "t = fst (apply_compaction now res ?cur)"
    using assms(7) by (auto simp: compaction_round_def Let_def split: if_splits prod.splits sum.splits)
  have attempts: "list_all (\<lambda>q. exchange [] q = Some []) reqs" "n \<le> wanted"
      "exchange [] (take n (history s)) = Some []"
    using summary_attempts_closed [OF run assms(4) order_refl closed plain] by auto
  have "n \<le> length (cx_history s)"
    using attempts(2) split_point_le [OF split] by simp
  then have "take n (history ?cur) = take n (history s)"
    using unchanged distinct attempts(2) assms(6) seen_in_le by (intro unchanged_contents) blast+
  then have "exchange [] (take (cr_compacted_count res) (history ?cur)) = Some []"
    using attempts(3) res by simp
  then have "context_ok t"
    using assms(5) compaction_inv objects_compaction by (simp add: t context_ok_def)
  moreover have "cx_pending t = cx_pending ?cur"
    by (simp add: t apply_compaction_def Let_def micro_reset_def)
  ultimately show ?thesis
    using attempts res by (auto simp: context_ok_def context_inv_def)
qed

subsection \<open>Compactions of a turn\<close>

datatype gate_event =
    Gate_Manual "string option" "context_message list"
  | Gate_Before_Step context_memory
  | Gate_After_Step context_memory
  | Gate_Overflow "context_message list"
  | Gate_Cancel
  | Gate_Finished
  | Gate_New_Turn

fun gate_step ::
  "compaction_config \<Rightarrow> int \<Rightarrow> compaction_state \<times> compaction_event list \<Rightarrow> gate_event \<Rightarrow>
   compaction_state \<times> compaction_event list" where
  "gate_step cfg window (fc, evs) (Gate_Manual instruction hist) =
     (let ((fc', new), err) = begin_compaction cfg window False hist Manual_Compaction instruction fc in (fc', evs @ new))"
| "gate_step cfg window (fc, evs) (Gate_Before_Step s) =
     (let ((fc', new), r) = before_step_compaction cfg window False s fc in (fc', evs @ new))"
| "gate_step cfg window (fc, evs) (Gate_After_Step s) =
     (let ((fc', new), r) = after_step_compaction cfg window False s fc in (fc', evs @ new))"
| "gate_step cfg window (fc, evs) (Gate_Overflow hist) =
     (let ((fc', new), r) = handle_overflow_error cfg window False hist fc in (fc', evs @ new))"
| "gate_step cfg window (fc, evs) Gate_Cancel = (let (fc', new) = cancel_compaction fc in (fc', evs @ new))"
| "gate_step cfg window (fc, evs) Gate_Finished =
     (if fc_compacting fc = None then (fc, evs) else let (fc', new) = mark_completed fc in (fc', evs @ new))"
| "gate_step cfg window (fc, evs) Gate_New_Turn = (reset_for_turn fc, evs)"

fun is_start :: "compaction_event \<Rightarrow> bool" where
  "is_start (Started_Compaction src i n) = True"
| "is_start e = False"

fun well_gated :: "bool \<Rightarrow> compaction_event list \<Rightarrow> bool option" where
  "well_gated running [] = Some running"
| "well_gated running (e # es) =
     (if is_start e then if running then None else well_gated True es
      else if running then well_gated False es else None)"

lemma well_gated_append:
  "well_gated r (xs @ ys) = (case well_gated r xs of None \<Rightarrow> None | Some q \<Rightarrow> well_gated q ys)"
  by (induction r xs rule: well_gated.induct) auto

definition gate_inv :: "compaction_config \<Rightarrow> compaction_state \<times> compaction_event list \<Rightarrow> bool" where
  "gate_inv cfg st \<longleftrightarrow>
     (case cp_max_compaction_per_turn cfg of None \<Rightarrow> True | Some k \<Rightarrow> fc_count_in_turn (fst st) \<le> k) \<and>
     well_gated False (snd st) = Some (fc_compacting (fst st) \<noteq> None)"

text \<open>What one call may do: nothing to a running compaction, or start one, within the limit.\<close>

definition gate_move :: "compaction_config \<Rightarrow> compaction_state \<Rightarrow> compaction_state \<Rightarrow> compaction_event list \<Rightarrow> bool" where
  "gate_move cfg fc fc' new \<longleftrightarrow>
     (case cp_max_compaction_per_turn cfg of
        None \<Rightarrow> True | Some k \<Rightarrow> fc_count_in_turn fc \<le> k \<longrightarrow> fc_count_in_turn fc' \<le> k) \<and>
     well_gated (fc_compacting fc \<noteq> None) new = Some (fc_compacting fc' \<noteq> None)"

lemma gate_move_inv: "gate_inv cfg (fc, evs) \<Longrightarrow> gate_move cfg fc fc' new \<Longrightarrow> gate_inv cfg (fc', evs @ new)"
  by (auto simp: gate_inv_def gate_move_def well_gated_append split: option.splits)

lemma begin_manual_move:
  "gate_move cfg fc (fst (fst (begin_compaction cfg window r hist Manual_Compaction i fc)))
     (snd (fst (begin_compaction cfg window r hist Manual_Compaction i fc)))"
  by (auto simp: begin_compaction_def gate_move_def Let_def split: option.split)

lemma begin_auto_move:
  "gate_move cfg fc (fst (fst (begin_auto_compaction cfg window r hist throws fc)))
     (snd (fst (begin_auto_compaction cfg window r hist throws fc)))"
  by (auto simp: begin_auto_compaction_def begin_compaction_def gate_move_def Let_def split: option.split)

lemma gate_move_refl: "gate_move cfg fc fc []"
  by (simp add: gate_move_def split: option.split)

lemma check_auto_move:
  "gate_move cfg fc (fst (fst (check_auto_compaction cfg window r s throws fc)))
     (snd (fst (check_auto_compaction cfg window r s throws fc)))"
  by (simp add: check_auto_compaction_def begin_auto_move gate_move_refl)

lemma block_move:
  "gate_move cfg fc (fst (block_on_compaction fc1)) new \<longleftrightarrow> gate_move cfg fc fc1 new"
  by (auto simp: block_on_compaction_def gate_move_def split: option.split)

lemma before_step_move:
  "gate_move cfg fc (fst (fst (before_step_compaction cfg window r s fc)))
     (snd (fst (before_step_compaction cfg window r s fc)))"
proof -
  obtain fc1 evs res where check: "check_auto_compaction cfg window r s True fc = ((fc1, evs), res)"
    by (cases "check_auto_compaction cfg window r s True fc") auto
  then have "gate_move cfg fc fc1 evs"
    using check_auto_move [of cfg fc window r s True] by simp
  then show ?thesis
    by (cases res) (simp_all add: before_step_compaction_def check split_def Let_def block_move)
qed

lemma overflow_move:
  "gate_move cfg fc (fst (fst (handle_overflow_error cfg window r hist fc)))
     (snd (fst (handle_overflow_error cfg window r hist fc)))"
proof -
  obtain fc1 evs res where auto_begin: "begin_auto_compaction cfg window r hist True fc = ((fc1, evs), res)"
    by (cases "begin_auto_compaction cfg window r hist True fc") auto
  then have "gate_move cfg fc fc1 evs"
    using begin_auto_move [of cfg fc window r hist True] by simp
  then show ?thesis
    by (cases res) (simp_all add: handle_overflow_error_def auto_begin split_def Let_def block_move)
qed

lemma after_step_move:
  "gate_move cfg fc (fst (fst (after_step_compaction cfg window r s fc)))
     (snd (fst (after_step_compaction cfg window r s fc)))"
  by (simp add: after_step_compaction_def check_auto_move gate_move_refl)

lemma gate_step_inv:
  assumes "gate_inv cfg st"
  shows "gate_inv cfg (gate_step cfg window st e)"
proof -
  obtain fc evs where st: "st = (fc, evs)"
    by (cases st)
  note move = gate_move_inv [OF assms [unfolded st]]
  show ?thesis
  proof (cases e)
    case (Gate_Manual i hist)
    then show ?thesis
      using move [OF begin_manual_move [of cfg fc window False hist i]] by (simp add: st split_def Let_def)
  next
    case (Gate_Before_Step s)
    then show ?thesis
      using move [OF before_step_move [of cfg fc window False s]] by (simp add: st split_def Let_def)
  next
    case (Gate_After_Step s)
    then show ?thesis
      using move [OF after_step_move [of cfg fc window False s]] by (simp add: st split_def Let_def)
  next
    case (Gate_Overflow hist)
    then show ?thesis
      using move [OF overflow_move [of cfg fc window False hist]] by (simp add: st split_def Let_def)
  next
    case Gate_Cancel
    then show ?thesis
      using assms by (auto simp: st cancel_compaction_def gate_inv_def well_gated_append split: option.splits)
  next
    case Gate_Finished
    then show ?thesis
      using assms by (auto simp: st mark_completed_def gate_inv_def well_gated_append split: option.splits)
  next
    case Gate_New_Turn
    then show ?thesis
      using assms by (auto simp: st reset_for_turn_def gate_inv_def split: option.split)
  qed
qed

interpretation compaction_gates: machine "gate_step cfg window" "gate_inv cfg" for cfg window
  by unfold_locales (rule gate_step_inv)

definition idle_compaction :: compaction_state where
  "idle_compaction = \<lparr>fc_count_in_turn = 0, fc_compacting = None\<rparr>"

text \<open>
  One compaction at a time, and a bounded number of them. However manual requests, steps,
  overflows, cancellations and new turns are mixed, a compaction starts only when the last one has
  ended, each end belongs to one start, and the automatic compactions counted since the turn or a
  manual one began never exceed the configured limit.
\<close>

theorem one_compaction_at_a_time:
  assumes "foldl (gate_step cfg window) (idle_compaction, []) es = (fc, evs)"
  shows "well_gated False evs = Some (fc_compacting fc \<noteq> None) \<and>
    (case cp_max_compaction_per_turn cfg of None \<Rightarrow> True | Some k \<Rightarrow> fc_count_in_turn fc \<le> k)"
proof -
  have "gate_inv cfg (idle_compaction, [])"
    by (simp add: gate_inv_def idle_compaction_def split: option.split)
  from compaction_gates.run_inv [OF this, of window es] show ?thesis
    by (simp add: assms gate_inv_def split: option.splits)
qed

subsection \<open>Witnesses and limits\<close>

definition long_ops :: "ctx_op list" where
  "long_ops =
     [Op_Append 1 (user_message [TextPart ''hi''] Origin_User), Op_Loop_Event 2 (Ctx_Step_Begin ''u''),
      Op_Loop_Event 3 (Ctx_Tool_Call ''u'' ''a'' ''Read'' None),
      Op_Loop_Event 4 (Ctx_Tool_Result ''a'' (plain_result (OutText ''ok''))),
      Op_Loop_Event 5 (Ctx_Step_End ''u'' None),
      Op_Append 6 (user_message [TextPart ''again''] Origin_User), Op_Loop_Event 7 (Ctx_Step_Begin ''v'')]"

definition long_talk :: context_memory where
  "long_talk = foldl conv_step empty_context (map Recorded long_ops)"

lemma long_talk_ok: "context_ok long_talk"
  unfolding long_talk_def by (rule conversation.allowed_run_inv [OF empty_context_ok(1)]) code_simp

definition sample_round :: "context_memory \<Rightarrow> context_memory \<Rightarrow> round_env" where
  "sample_round s cur =
     \<lparr>ce_config = default_compaction_config, ce_max_size = 1000, ce_micro_enabled = False,
      ce_micro_config = default_micro_config, ce_instruction = ''summarise'',
      ce_generate = (\<lambda>k req. if k = 0 then Inl (Gen_Other True (plain_loop_error ''429''))
                             else Inr \<lparr>gr_finish = Some Fin_Completed, gr_content = [TextPart ''all done'']\<rparr>),
      ce_context = (\<lambda>k. s), ce_hook_aborted = False, ce_sleep_aborted = (\<lambda>k. False), ce_answered = cur,
      ce_plan_summary = [], ce_todo_list = None\<rparr>"

definition applied_count :: "round_outcome \<Rightarrow> nat option" where
  "applied_count r = (case r of Round_Applied res t \<Rightarrow> Some (cr_compacted_count res) | _ \<Rightarrow> None)"

theorem compaction_keeps_protocol_witness:
  "\<exists>reqs res t. compaction_round (sample_round long_talk
       long_talk) 9 long_talk 3 =
       (reqs, Round_Applied res t) \<and> length reqs = 2 \<and> list_all (\<lambda>q. exchange [] q = Some []) reqs"
proof -
  define s where "s = long_talk"
  define env where "env = sample_round s s"
  have run: "applied_count (snd (compaction_round env 9 s 3)) = Some 3 \<and> length (fst (compaction_round env 9 s 3)) = 2"
    unfolding env_def s_def by code_simp
  then obtain reqs res t where round: "compaction_round env 9 s 3 = (reqs, Round_Applied res t)" "length reqs = 2"
    by (cases "compaction_round env 9 s 3") (auto simp: applied_count_def split: round_outcome.splits)
  have wanted: "3 = compute_compact_count default_compaction_config 1000 (history s) Auto_Compaction"
    unfolding s_def by code_simp
  have plain: "list_all (\<lambda>m. cm_partial m = Some True \<longrightarrow> simple_message m) (history s)"
    unfolding s_def by code_simp
  have "seen_in s (take 3 (cx_history s)) = take 3 (history s)"
    unfolding s_def by code_simp
  then have seen: "seen_in (ce_answered env) (take 3 (cx_history s)) = take 3 (history s)"
      "reads_as env (cx_history s) 3"
    by (simp_all add: env_def sample_round_def reads_as_def)
  have ok: "context_ok s" "context_ok (ce_answered env)"
    using long_talk_ok by (simp_all add: env_def s_def sample_round_def)
  have "3 = compute_compact_count (ce_config env) (ce_max_size env) (history s) Auto_Compaction"
    using wanted by (simp add: env_def sample_round_def)
  from compaction_keeps_protocol [OF ok(1) plain this seen(2) ok(2) seen(1) round(1)]
  have "list_all (\<lambda>q. exchange [] q = Some []) reqs"
    by blast
  then show ?thesis
    using round unfolding env_def s_def by blast
qed

theorem fit_meets_spec_witness:
  "fit_compact_count 10 (history long_talk) 3 =
   fit_spec 10 (history long_talk) 3"
proof -
  have "3 \<le> length (history long_talk)"
    by code_simp
  then show ?thesis
    by (rule fit_meets_spec)
qed

theorem one_compaction_at_a_time_witness:
  "\<exists>fc evs. foldl (gate_step default_compaction_config 1000) (idle_compaction, [])
     [Gate_Manual None (history long_talk), Gate_Manual None [], Gate_Cancel] = (fc, evs) \<and>
   well_gated False evs = Some (fc_compacting fc \<noteq> None)"
proof -
  obtain fc evs where run: "foldl (gate_step default_compaction_config 1000) (idle_compaction, [])
     [Gate_Manual None (history long_talk), Gate_Manual None [], Gate_Cancel] = (fc, evs)"
    by fastforce
  then show ?thesis
    using one_compaction_at_a_time [OF run] by blast
qed

definition open_step_ops :: "ctx_op list" where
  "open_step_ops = [Op_Append 1 (user_message [TextPart ''hi''] Origin_User), Op_Loop_Event 2 (Ctx_Step_Begin ''u'')]"

text \<open>
  The hypothesis on the contents of the summarised messages is needed. A manual compaction may be
  asked for while a step is open: the split after the step's still empty message is allowed, and
  when the step then makes a call, the applied summary removes the call and leaves its result.
\<close>

theorem manual_compaction_can_orphan:
  "let s = foldl conv_step empty_context (map Recorded open_step_ops);
       cur = conv_step s (Recorded (Op_Loop_Event 3 (Ctx_Tool_Call ''u'' ''a'' ''Read'' None)));
       n = compute_compact_count default_compaction_config 1000 (history s) Manual_Compaction
   in case snd (compaction_round (sample_round s cur) 4 s n) of
        Round_Applied res t \<Rightarrow>
          exchange [] (history t) \<noteq> Some (cx_pending t) \<and>
          exchange [] (history (apply_tool_result 5 ''a'' (plain_result (OutText ''ok'')) t)) = None
      | _ \<Rightarrow> False"
  by code_simp

text \<open>
  The strategy with protected messages does not keep exchanges whole: it steps back from a
  protected message to the nearest split that is not protected, without asking whether that
  split is safe.
\<close>

definition protected_history :: "context_message list" where
  "protected_history =
     [user_message [TextPart ''go''] Origin_User,
      (plain_message Role_Assistant [] None)
        \<lparr>cm_calls := [\<lparr>cc_id = ''a'', cc_name = ''Read'', cc_arguments = None\<rparr>]\<rparr>,
      tool_message ''a'' (plain_result (OutText ''ok'')),
      user_message [TextPart ''note''] (Origin_Injection ''goal''),
      plain_message Role_Assistant [TextPart ''ok''] None]"

theorem smart_split_tears_exchange:
  "exchange [] protected_history = Some [] \<and>
   compute_compact_count default_compaction_config 100000 protected_history Auto_Compaction = 3 \<and>
   smart_compact_count default_compaction_config 100000 protected_history Auto_Compaction = 2 \<and>
   exchange [] (take 2 protected_history) = Some [''a'']"
  by code_simp

end
