(* ===== verification/Calendar.thy ===== *)
theory Calendar
  imports Prelude
begin

text \<open>
  The calendar of JavaScript's \<open>Date\<close> as far as the cron code uses it. A moment is a number of
  milliseconds; \<open>getMonth\<close>, \<open>getDate\<close>, \<open>getDay\<close>, \<open>getHours\<close>, \<open>getMinutes\<close> read its local time,
  which here is the moment shifted by a fixed offset of whole minutes (no change of offset during
  the year). The functions follow the definitions of the language standard (\<open>DayFromYear\<close>,
  \<open>YearFromTime\<close>, \<open>MonthFromTime\<close>, \<open>DateFromTime\<close>, \<open>WeekDay\<close>, \<open>MakeDay\<close>); the theorems say where
  months, days, hours and minutes begin and end.
\<close>

subsection \<open>Years\<close>

definition days_from_year :: "int \<Rightarrow> int" where
  "days_from_year y = 365 * (y - 1970) + (y - 1969) div 4 - (y - 1901) div 100 + (y - 1601) div 400"

definition is_leap_year :: "int \<Rightarrow> bool" where
  "is_leap_year y \<longleftrightarrow> y mod 4 = 0 \<and> (y mod 100 \<noteq> 0 \<or> y mod 400 = 0)"

text \<open>The largest year that begins at or before the day; the estimate is off by one at most.\<close>

definition year_of_day :: "int \<Rightarrow> int" where
  "year_of_day d =
     (let e = 1970 + (400 * d) div 146097 in
      if days_from_year e > d then e - 1 else if days_from_year (e + 1) \<le> d then e + 1 else e)"

lemma succ_div: "0 < n \<Longrightarrow> (a + 1) div n = a div n + (if n dvd a + 1 then 1 else (0 :: int))"
proof -
  assume n: "0 < n"
  show ?thesis
  proof (cases "n dvd a + 1")
    case True
    then obtain k where "a + 1 = n * k" ..
    then have a: "a = n * (k - 1) + (n - 1)"
      by (simp add: algebra_simps)
    have "a div n = k - 1"
      unfolding a using n by (intro int_div_pos_eq [where r = "n - 1"]) auto
    moreover have "(a + 1) div n = k"
      using n \<open>a + 1 = n * k\<close> by simp
    ultimately show ?thesis
      using True by simp
  next
    case False
    then have "(a + 1) mod n \<noteq> 0"
      by (simp add: dvd_eq_mod_eq_0)
    then have "a mod n + 1 < n"
      using n pos_mod_bound [of n a] by (metis add.commute mod_add_right_eq mod_self order_less_le zless_imp_add1_zle)
    then have "(a + 1) div n = a div n"
      using n by (intro int_div_pos_eq [where r = "a mod n + 1"]) (simp_all add: algebra_simps)
    then show ?thesis
      using False by simp
  qed
qed

lemma leap_count:
  "C \<longrightarrow> B \<Longrightarrow> B \<longrightarrow> A \<Longrightarrow> L \<longleftrightarrow> A \<and> (\<not> B \<or> C) \<Longrightarrow>
   (if A then 1 else 0) - (if B then 1 else 0) + (if C then 1 else 0) = (if L then 1 else (0 :: int))"
  by (cases A; cases B; cases C) simp_all

lemma days_from_year_Suc: "days_from_year (y + 1) = days_from_year y + 365 + (if is_leap_year y then 1 else 0)"
proof -
  have shift: "4 dvd y - 1968 \<longleftrightarrow> 4 dvd y" "100 dvd y - 1900 \<longleftrightarrow> 100 dvd y" "400 dvd y - 1600 \<longleftrightarrow> 400 dvd y"
    by presburger+
  have nested: "400 dvd y \<longrightarrow> 100 dvd y" "100 dvd y \<longrightarrow> 4 dvd y"
    using dvd_trans [of 100 400 y] dvd_trans [of 4 100 y] by simp_all
  let ?a = "if 4 dvd y then 1 else (0 :: int)" and ?b = "if 100 dvd y then 1 else (0 :: int)"
    and ?c = "if 400 dvd y then 1 else (0 :: int)"
  have a: "(y + 1 - 1969) div 4 = (y - 1969) div 4 + ?a"
    using succ_div [of 4 "y - 1969"] shift(1) by (simp add: algebra_simps)
  have b: "(y + 1 - 1901) div 100 = (y - 1901) div 100 + ?b"
    using succ_div [of 100 "y - 1901"] shift(2) by (simp add: algebra_simps)
  have c: "(y + 1 - 1601) div 400 = (y - 1601) div 400 + ?c"
    using succ_div [of 400 "y - 1601"] shift(3) by (simp add: algebra_simps)
  have sum: "365 * (y + 1 - 1970) + (p + a) - (q + b) + (r + c) =
      365 * (y - 1970) + p - q + r + 365 + (a - b + c)" for p q r a b c :: int
    by simp
  have "days_from_year (y + 1) = days_from_year y + 365 + (?a - ?b + ?c)"
    unfolding days_from_year_def a b c by (rule sum)
  moreover have "is_leap_year y \<longleftrightarrow> 4 dvd y \<and> (\<not> 100 dvd y \<or> 400 dvd y)"
    by (simp only: is_leap_year_def dvd_eq_mod_eq_0)
  then have "?a - ?b + ?c = (if is_leap_year y then 1 else 0)"
    by (rule leap_count [OF nested])
  ultimately show ?thesis
    by (simp only:)
qed

lemma days_from_year_mono: "y \<le> z \<Longrightarrow> days_from_year y \<le> days_from_year z"
proof (induction "nat (z - y)" arbitrary: z)
  case (Suc n)
  then have "days_from_year y \<le> days_from_year (z - 1)"
    by simp
  then show ?case
    using days_from_year_Suc [of "z - 1"] by (simp split: if_splits)
qed simp

lemma div_bounds:
  assumes "(0 :: int) < n"
  shows "n * (a div n) \<le> a" "n * (a div n) \<ge> a - (n - 1)"
  using assms pos_mod_sign [of n a] pos_mod_bound [of n a] mult_div_mod_eq [of n a] by linarith+

lemma days_from_year_bounds:
  "400 * days_from_year y \<ge> 146097 * (y - 1970) - 506" "400 * days_from_year y \<le> 146097 * (y - 1970) + 589"
proof -
  note b = div_bounds [of 4 "y - 1969"] div_bounds [of 100 "y - 1901"] div_bounds [of 400 "y - 1601"]
  show "400 * days_from_year y \<ge> 146097 * (y - 1970) - 506"
    using b unfolding days_from_year_def by simp
  show "400 * days_from_year y \<le> 146097 * (y - 1970) + 589"
    using b unfolding days_from_year_def by simp
qed

lemma year_of_day_bounds: "days_from_year (year_of_day d) \<le> d \<and> d < days_from_year (year_of_day d + 1)"
proof -
  define e where "e = 1970 + (400 * d) div 146097"
  have e: "146097 * (e - 1970) \<le> 400 * d" "400 * d < 146097 * (e - 1970) + 146097"
    unfolding e_def using div_bounds [of 146097 "400 * d"] by simp_all
  have "400 * days_from_year (e - 1) \<le> 400 * d"
    using e(1) days_from_year_bounds(2) [of "e - 1"] by simp
  moreover have "400 * d < 400 * days_from_year (e + 2)"
    using e(2) days_from_year_bounds(1) [of "e + 2"] by simp
  ultimately show ?thesis
    unfolding year_of_day_def e_def [symmetric] Let_def by (auto simp: algebra_simps)
qed

lemma year_of_day_unique: "days_from_year y \<le> d \<Longrightarrow> d < days_from_year (y + 1) \<Longrightarrow> year_of_day d = y"
proof -
  assume y: "days_from_year y \<le> d" "d < days_from_year (y + 1)"
  let ?z = "year_of_day d"
  have "\<not> y + 1 \<le> ?z"
    using days_from_year_mono [of "y + 1" ?z] year_of_day_bounds [of d] y by linarith
  moreover have "\<not> ?z + 1 \<le> y"
    using days_from_year_mono [of "?z + 1" y] year_of_day_bounds [of d] y by linarith
  ultimately show ?thesis
    by simp
qed

subsection \<open>Months\<close>

text \<open>The days of the year before the month (0 is January, 12 the whole year).\<close>

definition days_before_month :: "bool \<Rightarrow> int \<Rightarrow> int" where
  "days_before_month leap m =
     (let l = (if leap then 1 else 0) in
      if m \<le> 0 then 0 else if m = 1 then 31 else if m = 2 then 59 + l else if m = 3 then 90 + l
      else if m = 4 then 120 + l else if m = 5 then 151 + l else if m = 6 then 181 + l
      else if m = 7 then 212 + l else if m = 8 then 243 + l else if m = 9 then 273 + l
      else if m = 10 then 304 + l else if m = 11 then 334 + l else 365 + l)"

definition month_from_day :: "bool \<Rightarrow> int \<Rightarrow> int" where
  "month_from_day leap n =
     (let l = (if leap then 1 else 0) in
      if n < 31 then 0 else if n < 59 + l then 1 else if n < 90 + l then 2 else if n < 120 + l then 3
      else if n < 151 + l then 4 else if n < 181 + l then 5 else if n < 212 + l then 6
      else if n < 243 + l then 7 else if n < 273 + l then 8 else if n < 304 + l then 9
      else if n < 334 + l then 10 else 11)"

lemma month_from_day_bounds:
  assumes "0 \<le> n" "n < days_before_month leap 12"
  shows "0 \<le> month_from_day leap n" "month_from_day leap n \<le> 11"
    "days_before_month leap (month_from_day leap n) \<le> n"
    "n < days_before_month leap (month_from_day leap n + 1)"
  using assms by (auto simp: month_from_day_def days_before_month_def Let_def split: if_splits)

lemma month_from_day_same:
  assumes "0 \<le> n" "n \<le> k" "k < days_before_month leap (month_from_day leap n + 1)"
  shows "month_from_day leap k = month_from_day leap n"
  using assms by (auto simp: month_from_day_def days_before_month_def Let_def split: if_splits)

lemma days_before_month_12: "days_before_month leap 12 = (if leap then 366 else 365)"
  by (simp add: days_before_month_def)

definition year_month_start :: "int \<Rightarrow> int \<Rightarrow> int" where
  "year_month_start y m = days_from_year y + days_before_month (is_leap_year y) m"

definition month_of_day :: "int \<Rightarrow> int" where
  "month_of_day d = (let y = year_of_day d in month_from_day (is_leap_year y) (d - days_from_year y))"

definition date_of_day :: "int \<Rightarrow> int" where
  "date_of_day d = d - year_month_start (year_of_day d) (month_of_day d) + 1"

text \<open>The first day of the next month.\<close>

definition next_month_start :: "int \<Rightarrow> int" where
  "next_month_start d = year_month_start (year_of_day d) (month_of_day d + 1)"

lemma day_of_year_bounds:
  "0 \<le> d - days_from_year (year_of_day d)"
  "d - days_from_year (year_of_day d) < days_before_month (is_leap_year (year_of_day d)) 12"
  using year_of_day_bounds [of d] days_from_year_Suc [of "year_of_day d"] days_before_month_12 [of "is_leap_year (year_of_day d)"]
  by auto

lemma month_of_day_bounds: "0 \<le> month_of_day d \<and> month_of_day d \<le> 11"
  using month_from_day_bounds [OF day_of_year_bounds] by (simp add: month_of_day_def Let_def)

lemma date_of_day_pos: "1 \<le> date_of_day d"
  using month_from_day_bounds(3) [OF day_of_year_bounds, of d]
  by (simp add: date_of_day_def year_month_start_def month_of_day_def Let_def)

lemma date_of_day_le: "date_of_day d \<le> 31"
proof -
  have "days_before_month leap (m + 1) - days_before_month leap m \<le> 31" if "0 \<le> m" "m \<le> 11" for leap m
    using that by (auto simp: days_before_month_def Let_def split: if_splits)
  note step = this [OF month_from_day_bounds(1,2) [OF day_of_year_bounds, of d], of "is_leap_year (year_of_day d)"]
  have "date_of_day d = d - days_from_year (year_of_day d) - days_before_month (is_leap_year (year_of_day d)) (month_of_day d) + 1"
    by (simp add: date_of_day_def year_month_start_def)
  then show ?thesis
    using step month_from_day_bounds(4) [OF day_of_year_bounds, of d] unfolding month_of_day_def Let_def by linarith
qed

lemma next_month_later: "d < next_month_start d"
  using month_from_day_bounds(4) [OF day_of_year_bounds, of d]
  by (simp add: next_month_start_def year_month_start_def month_of_day_def Let_def)

lemma days_before_month_le_12: "m \<le> 12 \<Longrightarrow> days_before_month leap m \<le> days_before_month leap 12"
  by (simp add: days_before_month_def Let_def)

text \<open>The month and the year do not change before the next month begins.\<close>

lemma same_month:
  assumes "d \<le> k" "k < next_month_start d"
  shows "year_of_day k = year_of_day d" "month_of_day k = month_of_day d"
proof -
  let ?y = "year_of_day d"
  have "k < days_from_year ?y + days_before_month (is_leap_year ?y) 12"
    using assms(2) days_before_month_le_12 [of "month_of_day d + 1" "is_leap_year ?y"] month_of_day_bounds [of d]
    by (simp add: next_month_start_def year_month_start_def)
  then have "k < days_from_year (?y + 1)"
    using days_from_year_Suc [of ?y] by (simp add: days_before_month_12 split: if_splits)
  moreover have "days_from_year ?y \<le> k"
    using year_of_day_bounds [of d] assms(1) by simp
  ultimately show year: "year_of_day k = ?y"
    by (intro year_of_day_unique)
  show "month_of_day k = month_of_day d"
    using month_from_day_same [of "d - days_from_year ?y" "k - days_from_year ?y" "is_leap_year ?y"]
      day_of_year_bounds(1) [of d] assms
    by (simp add: month_of_day_def Let_def year next_month_start_def year_month_start_def)
qed

lemma month_cases:
  "0 \<le> m \<Longrightarrow> m \<le> 11 \<Longrightarrow> m = 0 \<or> m = 1 \<or> m = 2 \<or> m = 3 \<or> m = 4 \<or> m = 5 \<or> m = 6 \<or> m = 7 \<or> m = 8 \<or>
    m = 9 \<or> m = 10 \<or> m = (11 :: int)"
  by presburger

lemma days_before_month_less:
  assumes "0 \<le> m" "m \<le> 11"
  shows "days_before_month leap m < days_before_month leap 12"
  using month_cases [OF assms] by (elim disjE) (simp_all add: days_before_month_def)

lemma month_from_start:
  assumes "0 \<le> m" "m \<le> 11"
  shows "month_from_day leap (days_before_month leap m) = m"
proof -
  show ?thesis
    using month_cases [OF assms] by (elim disjE) (simp_all add: month_from_day_def days_before_month_def)
qed

lemma first_of_month:
  "month_of_day (next_month_start d) = (month_of_day d + 1) mod 12 \<and> date_of_day (next_month_start d) = 1"
proof -
  let ?y = "year_of_day d" and ?m = "month_of_day d" and ?n = "next_month_start d"
  have m: "0 \<le> ?m" "?m \<le> 11"
    using month_of_day_bounds [of d] by simp_all
  show ?thesis
  proof (cases "?m = 11")
    case True
    then have n: "?n = days_from_year (?y + 1)"
      by (simp add: next_month_start_def year_month_start_def days_from_year_Suc days_before_month_12)
    have "year_of_day ?n = ?y + 1"
      using days_from_year_Suc [of "?y + 1"] by (intro year_of_day_unique) (simp_all add: n)
    then show ?thesis
      using True n by (simp add: month_of_day_def date_of_day_def year_month_start_def month_from_day_def
          days_before_month_def Let_def)
  next
    case False
    then have less: "?m + 1 \<le> 11"
      using m by simp
    have "days_before_month (is_leap_year ?y) (?m + 1) < days_before_month (is_leap_year ?y) 12"
      using less m by (intro days_before_month_less) simp_all
    then have "?n < days_from_year (?y + 1)"
      using days_from_year_Suc [of ?y]
      by (simp add: next_month_start_def year_month_start_def days_before_month_12 split: if_splits)
    moreover have "days_from_year ?y \<le> ?n"
      using year_of_day_bounds [of d] next_month_later [of d] by simp
    ultimately have year: "year_of_day ?n = ?y"
      by (intro year_of_day_unique)
    have "month_from_day leap (days_before_month leap (?m + 1)) = ?m + 1" for leap
      using less m by (intro month_from_start) simp_all
    then show ?thesis
      using year less m
      by (simp add: month_of_day_def date_of_day_def next_month_start_def year_month_start_def Let_def)
  qed
qed

subsection \<open>The fields of a moment\<close>

text \<open>The argument is the local time in milliseconds.\<close>

definition ms_per_minute :: int where
  "ms_per_minute = 60000"

definition ms_per_hour :: int where
  "ms_per_hour = 3600000"

definition ms_per_day :: int where
  "ms_per_day = 86400000"

definition get_month :: "int \<Rightarrow> int" where
  "get_month t = month_of_day (t div ms_per_day)"

definition get_date :: "int \<Rightarrow> int" where
  "get_date t = date_of_day (t div ms_per_day)"

definition get_day :: "int \<Rightarrow> int" where
  "get_day t = (t div ms_per_day + 4) mod 7"

definition get_hours :: "int \<Rightarrow> int" where
  "get_hours t = t mod ms_per_day div ms_per_hour"

definition get_minutes :: "int \<Rightarrow> int" where
  "get_minutes t = t mod ms_per_hour div ms_per_minute"

definition floor_minute :: "int \<Rightarrow> int" where
  "floor_minute t = t - t mod ms_per_minute"

definition next_month :: "int \<Rightarrow> int" where
  "next_month t = next_month_start (t div ms_per_day) * ms_per_day"

definition next_day :: "int \<Rightarrow> int" where
  "next_day t = (t div ms_per_day + 1) * ms_per_day"

definition next_hour :: "int \<Rightarrow> int" where
  "next_hour t = (t div ms_per_hour + 1) * ms_per_hour"

definition next_minute :: "int \<Rightarrow> int" where
  "next_minute t = (t div ms_per_minute + 1) * ms_per_minute"

lemmas ms_defs = ms_per_minute_def ms_per_hour_def ms_per_day_def

lemma next_multiple_later: "0 < n \<Longrightarrow> (t :: int) < (t div n + 1) * n"
  using div_bounds(2) [of n t] by (simp add: algebra_simps)

lemma same_div:
  fixes n t u :: int
  assumes "0 < n" "t \<le> u" "u < k * n"
  shows "t div n \<le> u div n" "u div n < k"
proof -
  show "t div n \<le> u div n"
    using assms(1,2) by (simp add: zdiv_mono1)
  have "u div n * n < k * n"
    using assms(3) div_bounds(1) [OF assms(1), of u] by (simp only: mult.commute [of _ n])
  then show "u div n < k"
    using assms(1) by simp
qed

lemma mod_div_mult: "0 < (n :: int) \<Longrightarrow> 0 < k \<Longrightarrow> t mod (n * k) div n = t div n mod k"
  by (simp add: zmod_zmult2_eq)

lemma hours_alt: "get_hours t = t div ms_per_hour mod 24"
  using mod_div_mult [of ms_per_hour 24 t] by (simp add: get_hours_def ms_defs)

lemma minutes_alt: "get_minutes t = t div ms_per_minute mod 60"
  using mod_div_mult [of ms_per_minute 60 t] by (simp add: get_minutes_def ms_defs)

text \<open>Which fields stay the same up to the start of the next unit.\<close>

lemma next_month_later_ms: "t < next_month t"
proof -
  have "(t div ms_per_day + 1) * ms_per_day \<le> next_month t"
    using next_month_later [of "t div ms_per_day"] unfolding next_month_def
    by (intro mult_right_mono) (simp_all add: ms_defs)
  then show ?thesis
    using next_multiple_later [of ms_per_day t] by (simp add: ms_defs)
qed

lemma within_month: "t \<le> u \<Longrightarrow> u < next_month t \<Longrightarrow> get_month u = get_month t"
  using same_div [of ms_per_day t u] same_month(2) by (simp add: get_month_def next_month_def ms_defs)

lemma within_day:
  assumes "t \<le> u" "u < next_day t"
  shows "get_month u = get_month t" "get_date u = get_date t" "get_day u = get_day t"
proof -
  have "u div ms_per_day = t div ms_per_day"
    using same_div [of ms_per_day t u "t div ms_per_day + 1"] assms by (simp add: next_day_def ms_defs)
  then show "get_month u = get_month t" "get_date u = get_date t" "get_day u = get_day t"
    by (simp_all add: get_month_def get_date_def get_day_def)
qed

lemma within_hour: "t \<le> u \<Longrightarrow> u < next_hour t \<Longrightarrow> get_hours u = get_hours t"
  using same_div [of ms_per_hour t u "t div ms_per_hour + 1"]
  by (simp add: hours_alt next_hour_def ms_defs)

lemma within_minute: "t \<le> u \<Longrightarrow> u < next_minute t \<Longrightarrow> get_minutes u = get_minutes t"
  using same_div [of ms_per_minute t u "t div ms_per_minute + 1"]
  by (simp add: minutes_alt next_minute_def ms_defs)

lemma next_later: "t < next_day t" "t < next_hour t" "t < next_minute t"
  using next_multiple_later [of ms_per_day t] next_multiple_later [of ms_per_hour t]
    next_multiple_later [of ms_per_minute t]
  by (simp_all add: next_day_def next_hour_def next_minute_def ms_defs)

lemma next_on_minute:
  "ms_per_minute dvd next_month t" "ms_per_minute dvd next_day t" "ms_per_minute dvd next_hour t"
  "ms_per_minute dvd next_minute t" "ms_per_minute dvd floor_minute t"
proof -
  have "ms_per_minute dvd k * ms_per_day" "ms_per_minute dvd k * ms_per_hour" for k
    by (intro dvd_mult; simp add: ms_defs)+
  then show "ms_per_minute dvd next_month t" "ms_per_minute dvd next_day t" "ms_per_minute dvd next_hour t"
    by (simp_all add: next_month_def next_day_def next_hour_def)
  show "ms_per_minute dvd next_minute t"
    by (simp add: next_minute_def)
  show "ms_per_minute dvd floor_minute t"
    by (simp add: floor_minute_def dvd_minus_mod)
qed

lemma floor_minute_bounds: "floor_minute t \<le> t" "t < floor_minute t + ms_per_minute"
  using pos_mod_sign [of ms_per_minute t] pos_mod_bound [of ms_per_minute t]
  by (simp_all add: floor_minute_def ms_defs)

text \<open>A minute after the floor of a moment is after the moment only from the next one on.\<close>

lemma grid_after: "n * j \<le> t \<Longrightarrow> t < n * j + n \<Longrightarrow> 0 < n \<Longrightarrow> t < n * k \<longleftrightarrow> n * j + n \<le> n * (k :: int)"
proof
  assume "n * j \<le> t" "0 < n" "t < n * k"
  then have "n * j < n * k"
    by (simp only: order.strict_trans1)
  then have "j < k"
    using \<open>0 < n\<close> by simp
  then have "n * (j + 1) \<le> n * k"
    using \<open>0 < n\<close> by (intro mult_left_mono) simp_all
  then show "n * j + n \<le> n * k"
    by (simp add: algebra_simps)
qed simp

lemma minute_after: "ms_per_minute dvd u \<Longrightarrow> t < u \<longleftrightarrow> floor_minute t + ms_per_minute \<le> u"
proof -
  assume "ms_per_minute dvd u"
  then obtain k where k: "u = ms_per_minute * k" ..
  obtain j where j: "floor_minute t = ms_per_minute * j"
    using next_on_minute(5) [of t] by (auto simp: dvd_def)
  show ?thesis
    using grid_after [of ms_per_minute j t k] floor_minute_bounds [of t] unfolding k j by (simp add: ms_defs)
qed

end
