(* ===== verification/Cron_Expr.thy ===== *)
theory Cron_Expr
  imports Complex_Main Calendar Json
begin

text \<open>
  Cron expressions: \<open>packages/agent-core/src/tools/cron/cron-expr.ts\<close>, the parser of the five
  fields, the search for the next time that matches and the summary for people. A parsed field
  is the list of its values in the order they were added, as a JavaScript set enumerates them.
  The local time is the moment shifted by the fixed offset that is an argument of the search.
\<close>

subsection \<open>Parsing\<close>

record cron_expr =
  cn_raw :: string
  cn_minutes :: "int list"
  cn_hours :: "int list"
  cn_days_of_month :: "int list"
  cn_months :: "int list"
  cn_days_of_week :: "int list"
  cn_dom_wildcard :: bool
  cn_dow_wildcard :: bool

definition is_digit :: "char \<Rightarrow> bool" where
  "is_digit c \<longleftrightarrow> c \<in> set ''0123456789''"

definition parse_decimal :: "string \<Rightarrow> int" where
  "parse_decimal s = foldl (\<lambda>n c. 10 * n + (of_char c - 48)) 0 s"

definition int_to_string :: "int \<Rightarrow> string" where
  "int_to_string n = (if n < 0 then ''-'' @ nat_to_string (nat (- n)) else nat_to_string (nat n))"

definition parse_cron_int :: "string \<Rightarrow> string \<Rightarrow> string \<Rightarrow> string + int" where
  "parse_cron_int raw name role =
     (if \<not> (raw \<noteq> [] \<and> list_all is_digit raw)
      then Inl (''cron '' @ name @ '' '' @ role @ '' must be a non-negative integer with digits only (got '' @
             quote_string raw @ '')'')
      else Inr (parse_decimal raw))"

text \<open>
  The loop \<open>for (v = lo; v <= hi; v += step) out.add(v)\<close>; the parser lets only positive steps
  through.
\<close>

function add_steps :: "int list \<Rightarrow> int \<Rightarrow> int \<Rightarrow> int \<Rightarrow> int list" where
  "add_steps out v hi step = (if v \<le> hi \<and> 0 < step then add_steps (set_add v out) (v + step) hi step else out)"
  by pat_completeness auto
termination
  by (relation "measure (\<lambda>(out, v, hi, step). nat (hi + 1 - v))") auto

declare add_steps.simps [simp del]

definition dquoted :: "string \<Rightarrow> string" where
  "dquoted s = [CHR 0x22] @ s @ [CHR 0x22]"

text \<open>The part before the step: its bounds, and whether the term is one bare value.\<close>

definition range_bounds ::
  "string \<Rightarrow> bool \<Rightarrow> int \<Rightarrow> int \<Rightarrow> string \<Rightarrow> string + int \<times> int" where
  "range_bounds range_part stepped lowest highest name =
     (if range_part = ''*'' then Inr (lowest, highest)
      else case index_of (CHR ''-'') range_part of
        None \<Rightarrow>
          (case parse_cron_int range_part name ''value'' of
             Inl e \<Rightarrow> Inl e
           | Inr single \<Rightarrow>
               if single < lowest \<or> single > highest
               then Inl (''cron '' @ name @ '' value '' @ int_to_string single @ '' out of range '' @
                      int_to_string lowest @ ''..'' @ int_to_string highest)
               else if stepped then Inr (single, highest) else Inr (single, single))
      | Some dash \<Rightarrow>
          (case parse_cron_int (take dash range_part) name ''range lower bound'' of
             Inl e \<Rightarrow> Inl e
           | Inr lo \<Rightarrow>
               (case parse_cron_int (drop (dash + 1) range_part) name ''range upper bound'' of
                  Inl e \<Rightarrow> Inl e
                | Inr hi \<Rightarrow>
                    if lo < lowest \<or> hi > highest \<or> lo > hi
                    then Inl (''cron '' @ name @ '' range '' @ int_to_string lo @ ''-'' @ int_to_string hi @
                           '' out of bounds (must be '' @ int_to_string lowest @ ''..'' @ int_to_string highest @
                           '', ascending)'')
                    else Inr (lo, hi))))"

text \<open>The step of a term and what stands before it.\<close>

definition split_step :: "string \<Rightarrow> string \<Rightarrow> string + string \<times> int \<times> bool" where
  "split_step term name =
     (case index_of (CHR ''/'') term of
        None \<Rightarrow> Inr (term, 1, False)
      | Some slash \<Rightarrow>
          let step_str = drop (slash + 1) term in
          if step_str = [] then Inl (''cron '' @ name @ '' step is empty in '' @ dquoted term)
          else case parse_cron_int step_str name ''step'' of
            Inl e \<Rightarrow> Inl e
          | Inr parsed \<Rightarrow>
              if parsed \<le> 0 then Inl (''cron '' @ name @ '' step must be a positive integer (got '' @ dquoted step_str @ '')'')
              else if take slash term = []
              then Inl (''cron '' @ name @ '' step needs a range or '' @ dquoted ''*'' @ '' before '' @ dquoted ''/'' @
                     '' in '' @ dquoted term)
              else Inr (take slash term, parsed, True))"

definition add_term :: "int list \<Rightarrow> string \<Rightarrow> int \<Rightarrow> int \<Rightarrow> string \<Rightarrow> string + int list" where
  "add_term out term lowest highest name =
     (case split_step term name of
        Inl e \<Rightarrow> Inl e
      | Inr (range_part, step, stepped) \<Rightarrow>
          (case range_bounds range_part stepped lowest highest name of
             Inl e \<Rightarrow> Inl e
           | Inr (lo, hi) \<Rightarrow> Inr (add_steps out lo hi step)))"

fun add_terms :: "int list \<Rightarrow> string list \<Rightarrow> int \<Rightarrow> int \<Rightarrow> string \<Rightarrow> string + int list" where
  "add_terms out [] lowest highest name = Inr out"
| "add_terms out (t # ts) lowest highest name =
     (if t = [] then Inl (''cron '' @ name @ '' field has empty term in list'')
      else case add_term out t lowest highest name of
        Inl e \<Rightarrow> Inl e
      | Inr out' \<Rightarrow> add_terms out' ts lowest highest name)"

definition parse_field :: "string \<Rightarrow> int \<Rightarrow> int \<Rightarrow> string \<Rightarrow> string + int list" where
  "parse_field field lowest highest name =
     (if field = [] then Inl (''cron '' @ name @ '' field is empty'')
      else case add_terms [] (split_on (CHR '','') field) lowest highest name of
        Inl e \<Rightarrow> Inl e
      | Inr out \<Rightarrow> if out = [] then Inl (''cron '' @ name @ '' field matches no values'') else Inr out)"

definition is_wildcard :: "string \<Rightarrow> bool" where
  "is_wildcard field \<longleftrightarrow> field = ''*''"

text \<open>\<open>split\<close> at runs of white space; the text has none at its ends.\<close>

fun split_space :: "string \<Rightarrow> string list" where
  "split_space [] = [[]]"
| "split_space (d # ds) =
     (if is_js_space d
      then (case ds of [] \<Rightarrow> [[], []] | e # es \<Rightarrow> if is_js_space e then split_space ds else [] # split_space ds)
      else case split_space ds of [] \<Rightarrow> [[d]] | w # ws \<Rightarrow> (d # w) # ws)"

definition fold_sunday :: "int list \<Rightarrow> int list" where
  "fold_sunday vs = foldl (\<lambda>out v. set_add (if v = 7 then 0 else v) out) [] vs"

definition parse_cron_expression :: "string \<Rightarrow> string + cron_expr" where
  "parse_cron_expression expr =
     (let trimmed = js_trim expr in
      if trimmed = [] then Inl ''cron expression is empty''
      else case split_space trimmed of
        [f1, f2, f3, f4, f5] \<Rightarrow>
          (case parse_field f1 0 59 ''minute'' of Inl e \<Rightarrow> Inl e | Inr minutes \<Rightarrow>
           case parse_field f2 0 23 ''hour'' of Inl e \<Rightarrow> Inl e | Inr hours \<Rightarrow>
           case parse_field f3 1 31 ''day-of-month'' of Inl e \<Rightarrow> Inl e | Inr doms \<Rightarrow>
           case parse_field f4 1 12 ''month'' of Inl e \<Rightarrow> Inl e | Inr months \<Rightarrow>
           case parse_field f5 0 7 ''day-of-week'' of Inl e \<Rightarrow> Inl e | Inr dows \<Rightarrow>
             Inr \<lparr>cn_raw = trimmed, cn_minutes = minutes, cn_hours = hours, cn_days_of_month = doms,
                  cn_months = months, cn_days_of_week = fold_sunday dows,
                  cn_dom_wildcard = is_wildcard f3, cn_dow_wildcard = is_wildcard f5\<rparr>)
      | parts \<Rightarrow>
          Inl (''cron expression must have exactly 5 fields (minute hour day-of-month month day-of-week); got '' @
             nat_to_string (length parts)))"

subsection \<open>The next time that matches\<close>

definition day_matches :: "cron_expr \<Rightarrow> int \<Rightarrow> bool" where
  "day_matches e t =
     (let dom_ok = get_date t \<in> set (cn_days_of_month e); dow_ok = get_day t \<in> set (cn_days_of_week e) in
      if cn_dom_wildcard e \<and> cn_dow_wildcard e then True
      else if cn_dom_wildcard e then dow_ok
      else if cn_dow_wildcard e then dom_ok
      else dom_ok \<or> dow_ok)"

text \<open>The body of the loop: where the search goes on, \<open>None\<close> when the candidate matches.\<close>

definition cron_jump :: "cron_expr \<Rightarrow> int \<Rightarrow> int option" where
  "cron_jump e t =
     (if get_month t + 1 \<notin> set (cn_months e) then Some (next_month t)
      else if \<not> day_matches e t then Some (next_day t)
      else if get_hours t \<notin> set (cn_hours e) then Some (next_hour t)
      else if get_minutes t \<notin> set (cn_minutes e) then Some (next_minute t)
      else None)"

definition hard_iteration_cap :: int where
  "hard_iteration_cap = 10000000"

function search :: "(int \<Rightarrow> int option) \<Rightarrow> int \<Rightarrow> int \<Rightarrow> int \<Rightarrow> int option" where
  "search jump deadline iterations t =
     (if t \<le> deadline \<and> iterations < hard_iteration_cap
      then (case jump t of None \<Rightarrow> Some t | Some t' \<Rightarrow> search jump deadline (iterations + 1) t')
      else None)"
  by pat_completeness auto
termination
  by (relation "measure (\<lambda>(jump, deadline, iterations, t). nat (hard_iteration_cap - iterations))") auto

declare search.simps [simp del]

definition next_run_within :: "int \<Rightarrow> cron_expr \<Rightarrow> int \<Rightarrow> int \<Rightarrow> int option" where
  "next_run_within offset e from_ms cap_minutes =
     (let start = floor_minute (from_ms + offset) + ms_per_minute;
          deadline = from_ms + cap_minutes * ms_per_minute
      in map_option (\<lambda>t. t - offset) (search (cron_jump e) (deadline + offset) 0 start))"

definition search_minutes :: int where
  "search_minutes = 5 * 366 * 24 * 60"

definition compute_next_run :: "int \<Rightarrow> cron_expr \<Rightarrow> int \<Rightarrow> int option" where
  "compute_next_run offset e from_ms = next_run_within offset e from_ms search_minutes"

definition has_fire_within_years :: "int \<Rightarrow> cron_expr \<Rightarrow> rat \<Rightarrow> int \<Rightarrow> bool" where
  "has_fire_within_years offset e years from_ms \<longleftrightarrow>
     next_run_within offset e from_ms (max 1 \<lfloor>years * 366 * 24 * 60\<rfloor>) \<noteq> None"

subsection \<open>The search finds the first match\<close>

definition cron_matches :: "cron_expr \<Rightarrow> int \<Rightarrow> bool" where
  "cron_matches e t \<longleftrightarrow>
     get_month t + 1 \<in> set (cn_months e) \<and> day_matches e t \<and>
     get_hours t \<in> set (cn_hours e) \<and> get_minutes t \<in> set (cn_minutes e)"

text \<open>
  A search that jumps over stretches without a match. The unit is the grid the jumps keep to; the
  iteration cap does not matter when the window has fewer steps of the grid.
\<close>

locale jump_search =
  fixes jump :: "int \<Rightarrow> int option" and hit :: "int \<Rightarrow> bool" and grid :: int
  assumes grid_pos: "0 < grid"
    and jump_None: "jump t = None \<longleftrightarrow> hit t"
    and jump_later: "jump t = Some t' \<Longrightarrow> t < t'"
    and jump_grid: "jump t = Some t' \<Longrightarrow> grid dvd t'"
    and jump_skips: "jump t = Some t' \<Longrightarrow> t \<le> u \<Longrightarrow> u < t' \<Longrightarrow> \<not> hit u"
begin

lemma grid_step: "grid dvd t \<Longrightarrow> grid dvd t' \<Longrightarrow> t < t' \<Longrightarrow> t + grid \<le> t'"
  using grid_after [of grid "t div grid" t "t' div grid"] grid_pos by simp

lemma search_Some:
  "search jump deadline n t = Some r \<Longrightarrow> t \<le> r \<and> r \<le> deadline \<and> hit r \<and> (\<forall>u. t \<le> u \<and> u < r \<longrightarrow> \<not> hit u)"
proof (induction "nat (hard_iteration_cap - n)" arbitrary: n t rule: less_induct)
  case less
  have run: "t \<le> deadline" "n < hard_iteration_cap"
      "(case jump t of None \<Rightarrow> Some t | Some t' \<Rightarrow> search jump deadline (n + 1) t') = Some r"
    using less.prems by (subst (asm) search.simps; simp split: if_splits)+
  show ?case
  proof (cases "jump t")
    case None
    then have "hit t"
      using jump_None [of t] by simp
    then show ?thesis
      using run None by auto
  next
    case (Some t')
    then have "t' \<le> r \<and> r \<le> deadline \<and> hit r \<and> (\<forall>u. t' \<le> u \<and> u < r \<longrightarrow> \<not> hit u)"
      using less.hyps [of "n + 1" t'] run by simp
    moreover have "\<not> hit u" if "t \<le> u" "u < t'" for u
      using jump_skips [OF Some that] .
    ultimately show ?thesis
      using jump_later [OF Some] by (metis linorder_not_le order.strict_trans2 order.strict_implies_order)
  qed
qed

lemma search_grid: "search jump deadline n t = Some r \<Longrightarrow> grid dvd t \<Longrightarrow> grid dvd r"
proof (induction "nat (hard_iteration_cap - n)" arbitrary: n t rule: less_induct)
  case less
  have run: "n < hard_iteration_cap" "(case jump t of None \<Rightarrow> Some t | Some t' \<Rightarrow> search jump deadline (n + 1) t') = Some r"
    using less.prems(1) by (subst (asm) search.simps; simp split: if_splits)+
  show ?case
  proof (cases "jump t")
    case (Some t')
    then show ?thesis
      using less.hyps [of "n + 1" t'] run jump_grid [OF Some] by simp
  qed (use run less.prems(2) in simp)
qed

lemma search_None:
  "search jump deadline n t = None \<Longrightarrow> grid dvd t \<Longrightarrow> deadline < t + grid * (hard_iteration_cap - n) \<Longrightarrow>
   t \<le> u \<Longrightarrow> u \<le> deadline \<Longrightarrow> \<not> hit u"
proof (induction "nat (hard_iteration_cap - n)" arbitrary: n t rule: less_induct)
  case less
  have n: "n < hard_iteration_cap"
  proof (rule ccontr)
    assume "\<not> n < hard_iteration_cap"
    then have "grid * (hard_iteration_cap - n) \<le> 0"
      using grid_pos by (intro mult_nonneg_nonpos) simp_all
    then show False
      using less.prems by simp
  qed
  then obtain t' where t': "jump t = Some t'" "search jump deadline (n + 1) t' = None"
    using less.prems(1,4,5) by (subst (asm) search.simps) (auto split: option.splits)
  show ?case
  proof (cases "u < t'")
    case True
    then show ?thesis
      using jump_skips [OF t'(1) less.prems(4)] by simp
  next
    case False
    have "t + grid \<le> t'"
      using grid_step [OF less.prems(2) jump_grid [OF t'(1)] jump_later [OF t'(1)]] .
    then have "deadline < t' + grid * (hard_iteration_cap - (n + 1))"
      using less.prems(3) by (simp add: algebra_simps)
    then show ?thesis
      using less.hyps [of "n + 1" t'] n t' jump_grid [OF t'(1)] less.prems(5) False by simp
  qed
qed

end

lemma cron_jump_None: "cron_jump e t = None \<longleftrightarrow> cron_matches e t"
  by (simp add: cron_jump_def cron_matches_def)

lemma cron_jump_Some:
  assumes "cron_jump e t = Some t'"
  shows "t < t'" "ms_per_minute dvd t'" "t \<le> u \<Longrightarrow> u < t' \<Longrightarrow> \<not> cron_matches e u"
proof -
  consider "get_month t + 1 \<notin> set (cn_months e)" "t' = next_month t"
    | "\<not> day_matches e t" "t' = next_day t"
    | "get_hours t \<notin> set (cn_hours e)" "t' = next_hour t"
    | "get_minutes t \<notin> set (cn_minutes e)" "t' = next_minute t"
    using assms by (auto simp: cron_jump_def split: if_splits)
  then have "t < t' \<and> ms_per_minute dvd t' \<and> (\<forall>u. t \<le> u \<and> u < t' \<longrightarrow> \<not> cron_matches e u)"
  proof cases
    case 1
    have "\<not> cron_matches e u" if "t \<le> u" "u < t'" for u
      using within_month [of t u] 1 that by (simp add: cron_matches_def)
    then show ?thesis
      using 1(2) next_month_later_ms [of t] next_on_minute(1) [of t] by simp
  next
    case 2
    have "\<not> cron_matches e u" if "t \<le> u" "u < t'" for u
      using within_day [of t u] 2 that by (simp add: cron_matches_def day_matches_def)
    then show ?thesis
      using 2(2) next_later(1) [of t] next_on_minute(2) [of t] by simp
  next
    case 3
    have "\<not> cron_matches e u" if "t \<le> u" "u < t'" for u
      using within_hour [of t u] 3 that by (simp add: cron_matches_def)
    then show ?thesis
      using 3(2) next_later(2) [of t] next_on_minute(3) [of t] by simp
  next
    case 4
    have "\<not> cron_matches e u" if "t \<le> u" "u < t'" for u
      using within_minute [of t u] 4 that by (simp add: cron_matches_def)
    then show ?thesis
      using 4(2) next_later(3) [of t] next_on_minute(4) [of t] by simp
  qed
  then show "t < t'" "ms_per_minute dvd t'" "t \<le> u \<Longrightarrow> u < t' \<Longrightarrow> \<not> cron_matches e u"
    by blast+
qed

interpretation cron_search: jump_search "cron_jump e" "cron_matches e" ms_per_minute for e
proof unfold_locales
  show "0 < ms_per_minute"
    by (simp add: ms_per_minute_def)
qed (fact cron_jump_None cron_jump_Some)+

lemma next_run_first_match:
  assumes "0 \<le> cap" and "cap < hard_iteration_cap"
  shows "case next_run_within offset e from cap of
      Some r \<Rightarrow> from < r \<and> r \<le> from + cap * ms_per_minute \<and> ms_per_minute dvd r + offset \<and> cron_matches e (r + offset) \<and>
        (\<forall>u. from < u \<and> u < r \<and> ms_per_minute dvd u + offset \<longrightarrow> \<not> cron_matches e (u + offset))
    | None \<Rightarrow> (\<forall>u. from < u \<and> u \<le> from + cap * ms_per_minute \<and> ms_per_minute dvd u + offset \<longrightarrow>
        \<not> cron_matches e (u + offset))"
proof -
  let ?start = "floor_minute (from + offset) + ms_per_minute"
  let ?stop = "from + cap * ms_per_minute + offset"
  have start: "ms_per_minute dvd ?start" "from + offset < ?start"
    using next_on_minute(5) [of "from + offset"] floor_minute_bounds [of "from + offset"] by simp_all
  have after: "?start \<le> u + offset" if "from < u" "ms_per_minute dvd u + offset" for u
    using minute_after [OF that(2), of "from + offset"] that(1) by simp
  show ?thesis
  proof (cases "search (cron_jump e) ?stop 0 ?start")
    case None
    have "cap * ms_per_minute < ms_per_minute * hard_iteration_cap"
      using assms(2) by (simp add: ms_per_minute_def)
    then have "?stop < ?start + ms_per_minute * (hard_iteration_cap - 0)"
      using start(2) by simp
    then have no: "\<not> cron_matches e (u + offset)"
      if "from < u" "u + offset \<le> ?stop" "ms_per_minute dvd u + offset" for u
      using cron_search.search_None [OF None start(1) _ after [OF that(1,3)] that(2)] by blast
    show ?thesis
      using None no by (simp add: next_run_within_def Let_def)
  next
    case (Some r)
    note found = cron_search.search_Some [OF Some]
    have "\<not> cron_matches e (u + offset)" if "from < u" "u < r - offset" "ms_per_minute dvd u + offset" for u
      using found after [OF that(1,3)] that(2) by simp
    then show ?thesis
      using Some found start cron_search.search_grid [OF Some start(1)] by (simp add: next_run_within_def Let_def)
  qed
qed

text \<open>
  C36: the search for the next run, which skips whole months, days and hours, finds what a look at
  every minute would find: the first whole minute after the given moment, within the window, whose
  month, day, hour and minute the expression admits; and nothing exactly when the window has no such
  minute. The bound on iterations never cuts a window of less than ten million minutes short.
\<close>

theorem next_run_is_first_match:
  assumes "0 \<le> cap" and "cap < hard_iteration_cap"
  shows "case next_run_within offset e from cap of
      Some r \<Rightarrow> from < r \<and> r \<le> from + cap * ms_per_minute \<and> ms_per_minute dvd r + offset \<and> cron_matches e (r + offset) \<and>
        (\<forall>u. from < u \<and> u < r \<and> ms_per_minute dvd u + offset \<longrightarrow> \<not> cron_matches e (u + offset))
    | None \<Rightarrow> (\<forall>u. from < u \<and> u \<le> from + cap * ms_per_minute \<and> ms_per_minute dvd u + offset \<longrightarrow>
        \<not> cron_matches e (u + offset))"
  by (rule next_run_first_match [OF assms])

lemma next_run_is_first_match_witness:
  "0 \<le> (60 :: int) \<and> (60 :: int) < hard_iteration_cap \<and>
   (case next_run_within 0 \<lparr>cn_raw = ''5 * * * *'', cn_minutes = [5], cn_hours = [0, 1], cn_days_of_month = [1],
       cn_months = [1], cn_days_of_week = [4], cn_dom_wildcard = True, cn_dow_wildcard = True\<rparr> 400000 60 of
      Some r \<Rightarrow> 400000 < r | None \<Rightarrow> True)"
proof -
  have "(60 :: int) < hard_iteration_cap"
    by (simp add: hard_iteration_cap_def)
  then show ?thesis
    using next_run_is_first_match [of 60 400000 0 "\<lparr>cn_raw = ''5 * * * *'', cn_minutes = [5], cn_hours = [0, 1],
        cn_days_of_month = [1], cn_months = [1], cn_days_of_week = [4], cn_dom_wildcard = True,
        cn_dow_wildcard = True\<rparr>"]
    by (simp split: option.splits)
qed

subsection \<open>What the fields of an expression denote\<close>

text \<open>
  The terms of a field as their grammar has them, how each is written, and the values it stands for:
  \<open>*\<close>, a number or a range, each with an optional step. A number with a step runs to the end of the
  field.
\<close>

datatype term_base = Every | Single nat | Span nat nat

type_synonym field_term = "term_base \<times> nat option"

fun print_base :: "term_base \<Rightarrow> string" where
  "print_base Every = ''*''"
| "print_base (Single n) = nat_to_string n"
| "print_base (Span a b) = nat_to_string a @ CHR ''-'' # nat_to_string b"

definition print_term :: "field_term \<Rightarrow> string" where
  "print_term t = print_base (fst t) @ (case snd t of None \<Rightarrow> [] | Some k \<Rightarrow> CHR ''/'' # nat_to_string k)"

fun base_bounds :: "int \<Rightarrow> int \<Rightarrow> bool \<Rightarrow> term_base \<Rightarrow> int \<times> int" where
  "base_bounds lowest highest stepped Every = (lowest, highest)"
| "base_bounds lowest highest stepped (Single n) = (int n, if stepped then highest else int n)"
| "base_bounds lowest highest stepped (Span a b) = (int a, int b)"

fun valid_base :: "int \<Rightarrow> int \<Rightarrow> term_base \<Rightarrow> bool" where
  "valid_base lowest highest Every = True"
| "valid_base lowest highest (Single n) = (lowest \<le> int n \<and> int n \<le> highest)"
| "valid_base lowest highest (Span a b) = (lowest \<le> int a \<and> int a \<le> int b \<and> int b \<le> highest)"

definition valid_term :: "int \<Rightarrow> int \<Rightarrow> field_term \<Rightarrow> bool" where
  "valid_term lowest highest t \<longleftrightarrow> valid_base lowest highest (fst t) \<and> snd t \<noteq> Some 0"

definition term_values :: "int \<Rightarrow> int \<Rightarrow> field_term \<Rightarrow> int set" where
  "term_values lowest highest t =
     (let (lo, hi) = base_bounds lowest highest (snd t \<noteq> None) (fst t)
      in {u. lo \<le> u \<and> u \<le> hi \<and> int (opt_or (snd t) 1) dvd u - lo})"

lemma add_steps_props:
  "0 < step \<Longrightarrow> set (add_steps out v hi step) = set out \<union> {u. v \<le> u \<and> u \<le> hi \<and> step dvd u - v} \<and>
     (distinct out \<longrightarrow> distinct (add_steps out v hi step))"
proof (induction "nat (hi + 1 - v)" arbitrary: out v rule: less_induct)
  case less
  show ?case
  proof (cases "v \<le> hi")
    case False
    then have "add_steps out v hi step = out"
      by (subst add_steps.simps) simp
    then show ?thesis
      using False by auto
  next
    case True
    have next_value: "v \<le> u \<and> step dvd u - v \<longleftrightarrow> u = v \<or> v + step \<le> u \<and> step dvd u - (v + step)" for u
    proof -
      have "step dvd u - v \<longleftrightarrow> step dvd u - (v + step)"
        using dvd_add_left_iff [of step step "u - (v + step)"] by (simp add: algebra_simps)
      moreover have "v + step \<le> u" if "v < u" "step dvd u - v"
        using zdvd_imp_le [OF that(2)] that(1) by simp
      ultimately show ?thesis
        using less.prems by (cases "u = v") auto
    qed
    have rest: "add_steps out v hi step = add_steps (set_add v out) (v + step) hi step"
      using True less.prems by (subst add_steps.simps) simp
    have "set (add_steps out v hi step) =
        insert v (set out) \<union> {u. v + step \<le> u \<and> u \<le> hi \<and> step dvd u - (v + step)}"
      using less.hyps [of "v + step" "set_add v out"] True less.prems unfolding rest by simp
    also have "\<dots> = set out \<union> {u. v \<le> u \<and> u \<le> hi \<and> step dvd u - v}"
      using next_value True by blast
    finally show ?thesis
      using less.hyps [of "v + step" "set_add v out"] True less.prems unfolding rest by simp
  qed
qed

lemma digit_table:
  "list_all (\<lambda>d. is_digit (char_of (48 + d)) \<and> of_char (char_of (48 + d) :: char) - 48 = int d)
     [0, 1, 2, 3, 4, 5, 6, 7, 8, 9 :: nat]"
  by code_simp

lemma digit_char:
  assumes "d < 10"
  shows "is_digit (char_of (48 + d))" and "of_char (char_of (48 + d) :: char) - 48 = int d"
proof -
  have "d \<in> set [0, 1, 2, 3, 4, 5, 6, 7, 8, 9]"
    using assms by auto
  then show "is_digit (char_of (48 + d))" "of_char (char_of (48 + d) :: char) - 48 = int d"
    using digit_table unfolding list_all_iff by blast+
qed

lemma nat_to_string_parse: "list_all is_digit (nat_to_string n) \<and> parse_decimal (nat_to_string n) = int n"
proof (induction n rule: nat_to_string.induct)
  case (1 n)
  show ?case
  proof (cases "n < 10")
    case True
    then show ?thesis
      using digit_char [of n] by (subst (1 2) nat_to_string.simps) (simp add: parse_decimal_def)
  next
    case False
    have "10 * (int n div 10) + int (n mod 10) = int n"
      by presburger
    then show ?thesis
      using 1 [OF False] False digit_char [of "n mod 10"]
      by (subst (1 2) nat_to_string.simps) (simp add: parse_decimal_def zdiv_int)
  qed
qed

lemma parse_cron_int_printed [simp]: "parse_cron_int (nat_to_string n) name role = Inr (int n)"
  using nat_to_string_parse [of n] by (simp add: parse_cron_int_def)

lemma not_in_number: "\<not> is_digit c \<Longrightarrow> c \<notin> set (nat_to_string n)"
  using nat_to_string_parse [of n] by (auto simp: list_all_iff)

lemma separators_no_digits [simp]:
  "\<not> is_digit (CHR ''/'')" "\<not> is_digit (CHR ''-'')" "\<not> is_digit (CHR '','')" "\<not> is_digit (CHR ''*'')"
  by (simp_all add: is_digit_def)

lemma index_of_first: "c \<notin> set xs \<Longrightarrow> index_of c (xs @ c # ys) = Some (length xs)"
  by (induction xs) auto

lemma number_not_star [simp]: "nat_to_string n \<noteq> ''*''"
  using not_in_number [of "CHR ''*''" n] by auto

lemma span_not_star [simp]: "nat_to_string a @ CHR ''-'' # s \<noteq> ''*''"
  by (cases "nat_to_string a") auto

lemma range_bounds_printed:
  "valid_base lowest highest b \<Longrightarrow>
   range_bounds (print_base b) stepped lowest highest name = Inr (base_bounds lowest highest stepped b)"
  by (cases b) (simp_all add: range_bounds_def index_of_first not_in_number index_of_None [THEN iffD2])

lemma print_base_chars: "CHR ''/'' \<notin> set (print_base b)" "CHR '','' \<notin> set (print_base b)" "print_base b \<noteq> []"
  by (cases b; simp add: not_in_number)+

lemma split_step_printed:
  "snd t \<noteq> Some 0 \<Longrightarrow>
   split_step (print_term t) name = Inr (print_base (fst t), int (opt_or (snd t) 1), snd t \<noteq> None)"
  using print_base_chars [of "fst t"]
  by (cases "snd t") (simp_all add: split_step_def print_term_def index_of_first index_of_None [THEN iffD2])

lemma base_in_field:
  "valid_base lowest highest b \<Longrightarrow> base_bounds lowest highest stepped b = (lo, hi) \<Longrightarrow> lowest \<le> highest \<Longrightarrow>
   lowest \<le> lo \<and> lo \<le> hi \<and> hi \<le> highest"
  by (cases b) auto

lemma add_term_printed:
  assumes "valid_term lowest highest t" "distinct out"
  shows "\<exists>out'. add_term out (print_term t) lowest highest name = Inr out' \<and> distinct out' \<and>
    set out' = set out \<union> term_values lowest highest t"
proof -
  obtain lo hi where b: "base_bounds lowest highest (snd t \<noteq> None) (fst t) = (lo, hi)"
    by fastforce
  have step: "0 < int (opt_or (snd t) 1)"
    using assms(1) by (cases "snd t") (auto simp: valid_term_def)
  have "add_term out (print_term t) lowest highest name = Inr (add_steps out lo hi (int (opt_or (snd t) 1)))"
    using assms(1) b by (simp add: add_term_def valid_term_def split_step_printed range_bounds_printed)
  then show ?thesis
    using add_steps_props [OF step, of out lo hi] assms(2) b by (simp add: term_values_def)
qed

lemma print_term_neq_Nil [simp]: "print_term t \<noteq> []"
  using print_base_chars(3) [of "fst t"] by (simp add: print_term_def)

lemma add_terms_printed:
  "list_all (valid_term lowest highest) ts \<Longrightarrow> distinct out \<Longrightarrow>
   \<exists>vs. add_terms out (map print_term ts) lowest highest name = Inr vs \<and> distinct vs \<and>
     set vs = set out \<union> (\<Union>t \<in> set ts. term_values lowest highest t)"
proof (induction ts arbitrary: out)
  case (Cons t ts)
  obtain out' where out': "add_term out (print_term t) lowest highest name = Inr out'" "distinct out'"
      "set out' = set out \<union> term_values lowest highest t"
    using add_term_printed [of lowest highest t out name] Cons.prems by auto
  then show ?case
    using Cons.IH [of out'] Cons.prems by auto
qed simp

lemma print_term_no_comma: "CHR '','' \<notin> set (print_term t)"
  using print_base_chars(2) [of "fst t"] by (auto simp: print_term_def not_in_number split: option.splits)

lemma join_neq_Nil: "ss \<noteq> [] \<Longrightarrow> list_all (\<lambda>s. s \<noteq> []) ss \<Longrightarrow> join_with sep ss \<noteq> []"
  by (induction sep ss rule: join_with.induct) auto

lemma term_values_neq_Nil:
  "valid_term lowest highest t \<Longrightarrow> lowest \<le> highest \<Longrightarrow> term_values lowest highest t \<noteq> {}"
  using base_in_field [of lowest highest "fst t" "snd t \<noteq> None"]
  by (cases "base_bounds lowest highest (snd t \<noteq> None) (fst t)") (auto simp: term_values_def valid_term_def)

text \<open>
  Every field that is well formed is accepted, and its values are the ones its terms stand for,
  each once: written as a list of terms, printed and parsed again, the field comes back as the union
  of the ranges with their steps.
\<close>

theorem printed_field_parses:
  assumes "list_all (valid_term lowest highest) ts" and "ts \<noteq> []" and "lowest \<le> highest"
  shows "\<exists>vs. parse_field (join_with '','' (map print_term ts)) lowest highest name = Inr vs \<and> distinct vs \<and>
    set vs = (\<Union>t \<in> set ts. term_values lowest highest t)"
proof -
  have split: "split_on (CHR '','') (join_with '','' (map print_term ts)) = map print_term ts"
    using assms(2) by (intro split_on_join) (simp_all add: list_all_iff print_term_no_comma)
  have field: "join_with '','' (map print_term ts) \<noteq> []"
    using assms(2) by (intro join_neq_Nil) (simp_all add: list_all_iff)
  obtain vs where vs: "add_terms [] (map print_term ts) lowest highest name = Inr vs" "distinct vs"
      "set vs = (\<Union>t \<in> set ts. term_values lowest highest t)"
    using add_terms_printed [OF assms(1), of "[]" name] by auto
  obtain t where "t \<in> set ts"
    using assms(2) by (cases ts) auto
  then have "vs \<noteq> []"
    using vs(3) term_values_neq_Nil [of lowest highest t] assms(1,3) by (auto simp: list_all_iff)
  then show ?thesis
    using vs split field by (simp add: parse_field_def)
qed

lemma printed_field_parses_witness:
  "list_all (valid_term 0 59) [(Every, Some 15), (Span 50 52, None)] \<and>
   (\<exists>vs. parse_field (join_with '','' (map print_term [(Every, Some 15), (Span 50 52, None)])) 0 59 ''minute'' = Inr vs
      \<and> distinct vs \<and> set vs = term_values 0 59 (Every, Some 15) \<union> term_values 0 59 (Span 50 52, None))"
proof -
  have valid: "list_all (valid_term 0 59) [(Every, Some 15), (Span 50 52, None)]"
    by (simp add: valid_term_def)
  show ?thesis
    using valid printed_field_parses [OF valid, of "''minute''"] by simp
qed

subsection \<open>A date that never comes\<close>

lemma february_days: "month_of_day d = 1 \<Longrightarrow> date_of_day d \<le> 29"
proof -
  assume feb: "month_of_day d = 1"
  have "date_of_day d = d - days_from_year (year_of_day d) - days_before_month (is_leap_year (year_of_day d)) 1 + 1"
    using feb by (simp add: date_of_day_def year_month_start_def)
  moreover have "d - days_from_year (year_of_day d) < days_before_month (is_leap_year (year_of_day d)) 2"
    using month_from_day_bounds(4) [OF day_of_year_bounds, of d] feb by (simp add: month_of_day_def Let_def)
  ultimately show ?thesis
    by (simp add: days_before_month_def Let_def split: if_splits)
qed

text \<open>
  An expression like \<open>0 0 30 2 *\<close> is legal and never fires; the search says so for every start and
  offset.
\<close>

theorem february_30_never_fires:
  assumes "cn_months e = [2]" and "cn_dow_wildcard e" and "\<not> cn_dom_wildcard e"
    and "\<forall>d \<in> set (cn_days_of_month e). 29 < d"
  shows "compute_next_run offset e from = None"
proof -
  have "\<not> cron_matches e t" for t
  proof
    assume "cron_matches e t"
    then have "month_of_day (t div ms_per_day) = 1" "29 < date_of_day (t div ms_per_day)"
      using assms by (auto simp: cron_matches_def day_matches_def get_month_def get_date_def Let_def)
    then show False
      using february_days by force
  qed
  moreover have "0 \<le> search_minutes" "search_minutes < hard_iteration_cap"
    by (simp_all add: search_minutes_def hard_iteration_cap_def)
  ultimately show ?thesis
    using next_run_first_match [of search_minutes "from" offset e]
    by (cases "next_run_within offset e from search_minutes") (simp_all add: compute_next_run_def)
qed

subsection \<open>The summary for people\<close>

definition month_names :: "string list" where
  "month_names = [''January'', ''February'', ''March'', ''April'', ''May'', ''June'', ''July'', ''August'',
     ''September'', ''October'', ''November'', ''December'']"

definition day_names :: "string list" where
  "day_names = [''Sunday'', ''Monday'', ''Tuesday'', ''Wednesday'', ''Thursday'', ''Friday'', ''Saturday'']"

definition is_full_range :: "int list \<Rightarrow> int \<Rightarrow> int \<Rightarrow> bool" where
  "is_full_range vs lo hi \<longleftrightarrow> int (length vs) = hi - lo + 1 \<and> list_all (\<lambda>v. v \<in> set vs) [lo..hi]"

text \<open>The loop over the sorted values: the value expected after the last one, if all are as expected.\<close>

fun expected_after :: "int \<Rightarrow> int \<Rightarrow> int list \<Rightarrow> int option" where
  "expected_after step expected [] = Some expected"
| "expected_after step expected (v # vs) = (if v \<noteq> expected then None else expected_after step (expected + step) vs)"

definition detect_step :: "int list \<Rightarrow> int \<Rightarrow> int \<Rightarrow> int option" where
  "detect_step vs lo hi =
     (case sort vs of
        v0 # v1 # rest \<Rightarrow>
          if v0 \<noteq> lo then None
          else let step = v1 - v0 in
            if step \<le> 0 then None
            else (case expected_after step lo (v0 # v1 # rest) of
                None \<Rightarrow> None
              | Some expected \<Rightarrow> if expected - step > hi then None else Some step)
      | _ \<Rightarrow> None)"

definition format_dows :: "int list \<Rightarrow> string option" where
  "format_dows vs =
     (let values = sort vs in
      if values = [] then None
      else if values = [1, 2, 3, 4, 5] then Some ''weekdays''
      else if values = [0, 6] then Some ''weekends''
      else Some (join_with '', '' (map (\<lambda>v. day_names ! nat v) values)))"

definition pad_two :: "int \<Rightarrow> string" where
  "pad_two n = (if n < 10 then ''0'' @ int_to_string n else int_to_string n)"

text \<open>The tests of \<open>cronToHuman\<close> in their order, each giving a text or going on.\<close>

definition human_every_minutes :: "cron_expr \<Rightarrow> string option" where
  "human_every_minutes e =
     (if is_full_range (cn_hours e) 0 23 \<and> cn_dom_wildcard e \<and> is_full_range (cn_months e) 1 12 \<and> cn_dow_wildcard e
      then (case detect_step (cn_minutes e) 0 59 of
          Some step \<Rightarrow> if step > 1 then Some (''every '' @ int_to_string step @ '' minutes'')
            else if is_full_range (cn_minutes e) 0 59 then Some ''every minute'' else None
        | None \<Rightarrow>
            if is_full_range (cn_minutes e) 0 59 then Some ''every minute''
            else (case cn_minutes e of [m] \<Rightarrow> Some (''at minute '' @ int_to_string m @ '' of every hour'') | _ \<Rightarrow> None))
      else None)"

definition human_every_hours :: "cron_expr \<Rightarrow> string option" where
  "human_every_hours e =
     (case cn_minutes e of
        [m] \<Rightarrow>
          if cn_dom_wildcard e \<and> is_full_range (cn_months e) 1 12 \<and> cn_dow_wildcard e
          then (case detect_step (cn_hours e) 0 23 of
              Some step \<Rightarrow> if step > 1 then Some (''every '' @ int_to_string step @ '' hours at minute '' @ pad_two m) else None
            | None \<Rightarrow> None)
          else None
      | _ \<Rightarrow> None)"

definition human_daily :: "cron_expr \<Rightarrow> string option" where
  "human_daily e =
     (case (cn_minutes e, cn_hours e) of
        ([m], [h]) \<Rightarrow>
          if cn_dom_wildcard e \<and> is_full_range (cn_months e) 1 12
          then if cn_dow_wildcard e then Some (''at '' @ pad_two h @ '':'' @ pad_two m @ '' every day'')
            else map_option (\<lambda>d. ''at '' @ pad_two h @ '':'' @ pad_two m @ '' on '' @ d) (format_dows (cn_days_of_week e))
          else None
      | _ \<Rightarrow> None)"

definition human_yearly :: "cron_expr \<Rightarrow> string option" where
  "human_yearly e =
     (case (cn_minutes e, cn_hours e, cn_days_of_month e, cn_months e) of
        ([m], [h], [d], [mo]) \<Rightarrow>
          if \<not> cn_dom_wildcard e \<and> cn_dow_wildcard e
          then Some (''at '' @ pad_two h @ '':'' @ pad_two m @ '' on day '' @ int_to_string d @ '' of '' @
            month_names ! nat (mo - 1))
          else None
      | _ \<Rightarrow> None)"

definition cron_to_human :: "cron_expr \<Rightarrow> string" where
  "cron_to_human e =
     (case human_every_minutes e of Some s \<Rightarrow> s | None \<Rightarrow>
      case human_every_hours e of Some s \<Rightarrow> s | None \<Rightarrow>
      case human_daily e of Some s \<Rightarrow> s | None \<Rightarrow>
      case human_yearly e of Some s \<Rightarrow> s | None \<Rightarrow> cn_raw e)"

text \<open>
  The summary can promise more than the schedule: the check at the end of the step detection
  never fails for values inside the field, so a run of minutes that stops early is called by its step.
  The expression \<open>0-10/5 * * * *\<close>, which fires three times at the start of each hour, is summarised
  like \<open>*/5 * * * *\<close>.
\<close>

theorem short_run_called_every:
  "map_sum id cron_to_human (parse_cron_expression ''0-10/5 * * * *'') = Inr ''every 5 minutes'' \<and>
   map_sum id cn_minutes (parse_cron_expression ''0-10/5 * * * *'') = Inr [0, 5, 10] \<and>
   map_sum id cron_to_human (parse_cron_expression ''*/5 * * * *'') = Inr ''every 5 minutes''"
  by (intro conjI; code_simp)

end
