(* ===== verification/Cron_Scheduler.thy ===== *)
theory Cron_Scheduler
  imports Cron_Expr "HOL-Library.Word"
begin

text \<open>
  When cron tasks fire: \<open>tools/cron/jitter.ts\<close>, the offset of a delivery from the ideal time, and
  \<open>tools/cron/scheduler.ts\<close>, the tick that delivers what is due. Moments are whole milliseconds;
  deliveries are rational numbers, where the source computes in double precision. The cache of parsed
  expressions holds results of a pure function and is left out; the timer is the caller of \<open>tick\<close>.
\<close>

subsection \<open>Jitter\<close>

record cron_task =
  ct_id :: string
  ct_cron :: string
  ct_prompt :: string
  ct_created_at :: int
  ct_recurring :: "bool option"
  ct_last_fired_at :: "int option"

text \<open>What the environment fixes: the offset of local time and whether jitter is turned off.\<close>

record cron_env =
  cx_offset :: int
  cx_no_jitter :: bool

record jitter_config =
  jc_recurring_max_fraction :: rat
  jc_recurring_max_ms :: rat
  jc_one_shot_max_ms :: rat

definition default_jitter :: jitter_config where
  "default_jitter = \<lparr>jc_recurring_max_fraction = 1 / 10, jc_recurring_max_ms = 15 * 60000, jc_one_shot_max_ms = 90000\<rparr>"

definition hex_value :: "char \<Rightarrow> nat option" where
  "hex_value c = find_index (\<lambda>d. d = c) ''0123456789abcdef'' "

definition is_hex_id :: "string \<Rightarrow> bool" where
  "is_hex_id s \<longleftrightarrow> length s = 8 \<and> list_all (\<lambda>c. hex_value (char_lower c) \<noteq> None) s"

definition parse_hex :: "string \<Rightarrow> nat" where
  "parse_hex s = foldl (\<lambda>n c. 16 * n + opt_or (hex_value (char_lower c)) 0) 0 s"

definition djb2 :: "string \<Rightarrow> 32 word" where
  "djb2 s = foldl (\<lambda>h c. push_bit 5 h + h + of_nat (of_char c)) 5381 s"

definition fraction_from_id :: "string \<Rightarrow> rat" where
  "fraction_from_id s = of_nat (if is_hex_id s then parse_hex s else unat (djb2 s)) / 4294967296"

definition jittered_next ::
  "cron_env \<Rightarrow> jitter_config \<Rightarrow> string \<Rightarrow> cron_expr \<Rightarrow> int \<Rightarrow> rat" where
  "jittered_next env cfg task_id e ideal =
     (if cx_no_jitter env then of_int ideal
      else let period = (case compute_next_run (cx_offset env) e ideal of
                 Some n \<Rightarrow> if n > ideal then n - ideal else ms_per_day
               | None \<Rightarrow> ms_per_day);
             limit = min (of_int period * jc_recurring_max_fraction cfg) (jc_recurring_max_ms cfg)
           in if \<not> limit > 0 then of_int ideal else of_int ideal + limit * fraction_from_id task_id)"

definition one_shot_jittered_next ::
  "cron_env \<Rightarrow> jitter_config \<Rightarrow> string \<Rightarrow> int option \<Rightarrow> int \<Rightarrow> rat" where
  "one_shot_jittered_next env cfg task_id created_at ideal =
     (if cx_no_jitter env then of_int ideal
      else if ideal mod ms_per_minute \<noteq> 0 then of_int ideal
      else if get_minutes (ideal + cx_offset env) \<noteq> 0 \<and> get_minutes (ideal + cx_offset env) \<noteq> 30 then of_int ideal
      else if \<not> jc_one_shot_max_ms cfg > 0 then of_int ideal
      else let shifted = of_int ideal - jc_one_shot_max_ms cfg * fraction_from_id task_id in
        if (case created_at of Some c \<Rightarrow> shifted < of_int c | None \<Rightarrow> False) then of_int ideal else shifted)"

subsection \<open>The scheduler\<close>

record cron_sched =
  cs_last_seen :: "string \<Rightarrow> int option"
  cs_seeded :: "string list"
  cs_in_flight :: "string list"

definition cron_sched_init :: cron_sched where
  "cron_sched_init = \<lparr>cs_last_seen = (\<lambda>_. None), cs_seeded = [], cs_in_flight = []\<rparr>"

text \<open>
  The owner of the scheduler: what \<open>onFire\<close>, \<open>removeOneShot\<close> and \<open>onAdvanceCursor\<close> do to its world.
  \<open>onFire\<close> also says whether it returned; what the others throw is swallowed.
\<close>

record 'w cron_host =
  ch_fire :: "cron_task \<Rightarrow> int \<Rightarrow> 'w \<Rightarrow> 'w \<times> bool"
  ch_remove :: "string \<Rightarrow> 'w \<Rightarrow> 'w"
  ch_advance :: "string \<Rightarrow> int \<Rightarrow> 'w \<Rightarrow> 'w"

definition is_one_shot :: "cron_task \<Rightarrow> bool" where
  "is_one_shot task \<longleftrightarrow> ct_recurring task = Some False"

definition deliver_at :: "cron_env \<Rightarrow> cron_task \<Rightarrow> cron_expr \<Rightarrow> int \<Rightarrow> rat" where
  "deliver_at env task e ideal =
     (if is_one_shot task then one_shot_jittered_next env default_jitter (ct_id task) (Some (ct_created_at task)) ideal
      else jittered_next env default_jitter (ct_id task) e ideal)"

definition compute_jittered_next :: "cron_env \<Rightarrow> cron_task \<Rightarrow> cron_expr \<Rightarrow> int \<Rightarrow> rat option" where
  "compute_jittered_next env task e base_ms =
     map_option (deliver_at env task e) (compute_next_run (cx_offset env) e base_ms)"

definition max_coalesce_iterations :: int where
  "max_coalesce_iterations = 10000"

function count_coalesced ::
  "cron_env \<Rightarrow> cron_task \<Rightarrow> cron_expr \<Rightarrow> int \<Rightarrow> int \<Rightarrow> int \<Rightarrow> int \<times> int" where
  "count_coalesced env task e now n cursor =
     (if n < max_coalesce_iterations
      then (case compute_next_run (cx_offset env) e cursor of
          None \<Rightarrow> (n, cursor)
        | Some next_ms \<Rightarrow>
            if next_ms > now then (n, cursor)
            else if deliver_at env task e next_ms > of_int now then (n, cursor)
            else count_coalesced env task e now (n + 1) next_ms)
      else (n, cursor))"
  by pat_completeness auto
termination
  by (relation "measure (\<lambda>(env, task, e, now, n, cursor). nat (max_coalesce_iterations - n))") auto

declare count_coalesced.simps [simp del]

definition seed_last_seen :: "int \<Rightarrow> cron_task \<Rightarrow> cron_sched \<Rightarrow> cron_sched" where
  "seed_last_seen now task sc =
     (let seen = (case ct_last_fired_at task of
              Some fired \<Rightarrow>
                if ct_id task \<notin> set (cs_seeded sc) \<and> fired \<le> now \<and> cs_last_seen sc (ct_id task) = None
                then (cs_last_seen sc)(ct_id task \<mapsto> fired) else cs_last_seen sc
            | None \<Rightarrow> cs_last_seen sc)
      in sc\<lparr>cs_last_seen := seen, cs_seeded := set_add (ct_id task) (cs_seeded sc)\<rparr>)"

definition base_from :: "cron_task \<Rightarrow> int option \<Rightarrow> int" where
  "base_from task seen =
     (case seen of Some s \<Rightarrow> if s > ct_created_at task then s else ct_created_at task | None \<Rightarrow> ct_created_at task)"

text \<open>A task that is due: the call to the host, then the end of a one-shot or the new baseline.\<close>

definition fire_task ::
  "cron_env \<Rightarrow> 'w cron_host \<Rightarrow> int \<Rightarrow> cron_task \<Rightarrow> cron_expr \<Rightarrow> int \<Rightarrow> cron_sched \<times> 'w \<Rightarrow> cron_sched \<times> 'w" where
  "fire_task env host now task e base_ms st =
     (let (sc, w) = st;
          (coalesced, last_due) =
            (case compute_next_run (cx_offset env) e base_ms of
               Some ideal \<Rightarrow>
                 if is_one_shot task then (1, None)
                 else let (n, d) = count_coalesced env task e now 1 ideal in (max 1 n, Some d)
             | None \<Rightarrow> (1, None));
          sc1 = sc\<lparr>cs_in_flight := set_add (ct_id task) (cs_in_flight sc)\<rparr>;
          (w1, delivered) = ch_fire host task coalesced w
      in if \<not> delivered then (sc1, w1)
         else if is_one_shot task
         then (sc1\<lparr>cs_last_seen := (cs_last_seen sc1)(ct_id task := None),
                 cs_seeded := removeAll (ct_id task) (cs_seeded sc1)\<rparr>, ch_remove host (ct_id task) w1)
         else let advanced = opt_or last_due now in
           (sc1\<lparr>cs_last_seen := (cs_last_seen sc1)(ct_id task \<mapsto> advanced)\<rparr>, ch_advance host (ct_id task) advanced w1))"

definition tick_task ::
  "cron_env \<Rightarrow> 'w cron_host \<Rightarrow> int \<Rightarrow> cron_task \<Rightarrow> cron_sched \<times> 'w \<Rightarrow> cron_sched \<times> 'w" where
  "tick_task env host now task st =
     (if ct_id task \<in> set (cs_in_flight (fst st)) then st
      else case parse_cron_expression (ct_cron task) of
        Inl _ \<Rightarrow> st
      | Inr e \<Rightarrow>
          let sc = seed_last_seen now task (fst st);
              base_ms = base_from task (cs_last_seen sc (ct_id task))
          in case compute_jittered_next env task e base_ms of
               None \<Rightarrow> (sc, snd st)
             | Some due_at \<Rightarrow>
                 if of_int now < due_at then (sc, snd st)
                 else fire_task env host now task e base_ms (sc, snd st))"

definition tick ::
  "cron_env \<Rightarrow> 'w cron_host \<Rightarrow> bool \<Rightarrow> bool \<Rightarrow> cron_task list \<Rightarrow> int \<Rightarrow> cron_sched \<times> 'w \<Rightarrow> cron_sched \<times> 'w" where
  "tick env host killed idle tasks now st =
     (if killed \<or> \<not> idle \<or> tasks = [] then st
      else let (sc, w) = fold (tick_task env host now) tasks st in (sc\<lparr>cs_in_flight := []\<rparr>, w))"

definition sched_stop :: "cron_sched \<Rightarrow> cron_sched" where
  "sched_stop sc = cron_sched_init"

definition next_fire_for :: "cron_env \<Rightarrow> int \<Rightarrow> cron_sched \<Rightarrow> cron_task \<Rightarrow> rat option" where
  "next_fire_for env now sc task =
     (case parse_cron_expression (ct_cron task) of
        Inl _ \<Rightarrow> None
      | Inr e \<Rightarrow>
          let persisted = (case ct_last_fired_at task of Some f \<Rightarrow> if f \<le> now then Some f else None | None \<Rightarrow> None);
              cursor = (case cs_last_seen sc (ct_id task) of Some s \<Rightarrow> Some s | None \<Rightarrow> persisted)
          in compute_jittered_next env task e (base_from task cursor))"

fun earliest :: "rat option list \<Rightarrow> rat option \<Rightarrow> rat option" where
  "earliest [] m = m"
| "earliest (None # xs) m = earliest xs m"
| "earliest (Some x # xs) m =
     earliest xs (case m of None \<Rightarrow> Some x | Some y \<Rightarrow> if x < y then Some x else m)"

definition get_next_fire_time :: "cron_env \<Rightarrow> int \<Rightarrow> cron_sched \<Rightarrow> cron_task list \<Rightarrow> rat option" where
  "get_next_fire_time env now sc tasks = earliest (map (next_fire_for env now sc) tasks) None"

definition get_next_fire_for_task ::
  "cron_env \<Rightarrow> int \<Rightarrow> cron_sched \<Rightarrow> cron_task list \<Rightarrow> string \<Rightarrow> rat option" where
  "get_next_fire_for_task env now sc tasks task_id =
     (case List.find (\<lambda>t. ct_id t = task_id) tasks of None \<Rightarrow> None | Some task \<Rightarrow> next_fire_for env now sc task)"

subsection \<open>How far jitter moves a delivery\<close>

lemma hex_value_bound: "opt_or (hex_value c) 0 < 16"
proof (cases "hex_value c")
  case (Some n)
  then show ?thesis
    using find_index_Some [of "\<lambda>d. d = c" "''0123456789abcdef''" n] by (simp add: hex_value_def)
qed simp

lemma parse_hex_bound: "parse_hex s < 16 ^ length s"
proof -
  have "foldl (\<lambda>n c. 16 * n + opt_or (hex_value (char_lower c)) 0) n s < (n + 1) * 16 ^ length s" for n
  proof (induction s arbitrary: n)
    case (Cons c s)
    have "16 * n + opt_or (hex_value (char_lower c)) 0 + 1 \<le> (n + 1) * 16"
      using hex_value_bound [of "char_lower c"] by simp
    then have "(16 * n + opt_or (hex_value (char_lower c)) 0 + 1) * 16 ^ length s \<le> (n + 1) * 16 * 16 ^ length s"
      by (rule mult_le_mono1)
    from less_le_trans [OF Cons.IH this] show ?case
      by (simp add: algebra_simps)
  qed simp
  from this [of 0] show ?thesis
    by (simp add: parse_hex_def)
qed

lemma fraction_bounds: "0 \<le> fraction_from_id s" "fraction_from_id s < 1"
proof -
  have "(16 :: nat) ^ 8 = 2 ^ 32"
    by simp
  then have "(if is_hex_id s then parse_hex s else unat (djb2 s)) < 2 ^ 32"
    using parse_hex_bound [of s] unsigned_less [where 'a = nat, of "djb2 s"] by (auto simp: is_hex_id_def)
  then have "of_nat (if is_hex_id s then parse_hex s else unat (djb2 s)) < (of_nat (2 ^ 32) :: rat)"
    by (simp only: of_nat_less_iff)
  then show "0 \<le> fraction_from_id s" "fraction_from_id s < 1"
    by (simp_all add: fraction_from_id_def)
qed

lemma next_run_Some:
  assumes "compute_next_run offset e from_ms = Some r"
  shows "from_ms < r" "ms_per_minute dvd r + offset" "cron_matches e (r + offset)"
    "from_ms < u \<Longrightarrow> u < r \<Longrightarrow> ms_per_minute dvd u + offset \<Longrightarrow> \<not> cron_matches e (u + offset)"
proof -
  have "0 \<le> search_minutes" "search_minutes < hard_iteration_cap"
    by (simp_all add: search_minutes_def hard_iteration_cap_def)
  note first = next_run_first_match [OF this, of from_ms offset e]
  show "from_ms < r" "ms_per_minute dvd r + offset" "cron_matches e (r + offset)"
    "from_ms < u \<Longrightarrow> u < r \<Longrightarrow> ms_per_minute dvd u + offset \<Longrightarrow> \<not> cron_matches e (u + offset)"
    using first assms by (simp_all add: compute_next_run_def)
qed

lemma jitter_within:
  "of_int ideal \<le> jittered_next env default_jitter i e ideal \<and>
   jittered_next env default_jitter i e ideal < of_int ideal + 900000 \<and>
   (\<forall>n. compute_next_run (cx_offset env) e ideal = Some n \<longrightarrow>
      jittered_next env default_jitter i e ideal < of_int ideal + of_int (n - ideal) / 10)"
proof -
  let ?period = "case compute_next_run (cx_offset env) e ideal of
      Some n \<Rightarrow> if n > ideal then n - ideal else ms_per_day | None \<Rightarrow> ms_per_day"
  let ?limit = "min (of_int ?period * (1 / 10)) (15 * 60000) :: rat"
  have period: "0 < ?period"
    by (auto simp: ms_per_day_def split: option.splits)
  then have limit: "0 < ?limit"
    by (simp only: min_less_iff_conj) simp
  let ?f = "fraction_from_id i"
  have f: "0 \<le> ?limit * ?f" "?limit * ?f < ?limit"
    using fraction_bounds [of i] limit by (simp_all del: min_less_iff_conj min_def)
  have far: "?limit \<le> 900000"
    by simp
  have near: "?limit \<le> of_int (n - ideal) / 10" if "compute_next_run (cx_offset env) e ideal = Some n" for n
  proof -
    have "?limit \<le> of_int ?period * (1 / 10)"
      by (rule min.cobounded1)
    then show ?thesis
      using next_run_Some(1) [OF that] that by simp
  qed
  show ?thesis
  proof (cases "cx_no_jitter env")
    case True
    then have "jittered_next env default_jitter i e ideal = of_int ideal"
      by (simp add: jittered_next_def)
    then show ?thesis
      using next_run_Some(1) by fastforce
  next
    case False
    then have "jittered_next env default_jitter i e ideal = of_int ideal + ?limit * ?f"
      using limit by (simp only: jittered_next_def default_jitter_def Let_def jitter_config.simps if_False not_True_eq_False if_True)
    then show ?thesis
      using f far near by force
  qed
qed

text \<open>
  Jitter spreads deliveries without reordering them: a recurring delivery is never early, is at
  most a quarter of an hour and a tenth of the period late, and so comes before the next ideal time.
\<close>

theorem recurring_jitter_bounds:
  "of_int ideal \<le> jittered_next env default_jitter task_id e ideal \<and>
   jittered_next env default_jitter task_id e ideal < of_int ideal + 900000 \<and>
   (case compute_next_run (cx_offset env) e ideal of
      Some n \<Rightarrow> jittered_next env default_jitter task_id e ideal < of_int ideal + of_int (n - ideal) / 10 \<and>
        jittered_next env default_jitter task_id e ideal < of_int n
    | None \<Rightarrow> True)"
proof (cases "compute_next_run (cx_offset env) e ideal")
  case None
  then show ?thesis
    using jitter_within [of ideal env task_id e] by simp
next
  case (Some n)
  have "(of_int ideal + of_int (n - ideal) / 10 :: rat) < of_int n"
    using of_int_less_iff [of ideal n, where 'a = rat] next_run_Some(1) [OF Some] by (simp add: field_simps)
  then show ?thesis
    using jitter_within [of ideal env task_id e] Some by force
qed

text \<open>
  A reminder is pulled forward by less than ninety seconds, never put off, only from the full and
  the half hour, and never to a moment before it was asked for.
\<close>

theorem one_shot_jitter_bounds:
  "let at_ms = one_shot_jittered_next env default_jitter task_id (Some created) ideal in
   at_ms \<le> of_int ideal \<and> of_int ideal - 90000 < at_ms \<and> (of_int created \<le> at_ms \<or> at_ms = of_int ideal) \<and>
   (at_ms = of_int ideal \<or> get_minutes (ideal + cx_offset env) \<in> {0, 30})"
  using fraction_bounds [of task_id]
  by (auto simp: one_shot_jittered_next_def default_jitter_def Let_def)

subsection \<open>What a tick delivers\<close>

text \<open>The ideal times of an expression, and those after one moment up to another.\<close>

definition fires :: "int \<Rightarrow> cron_expr \<Rightarrow> int set" where
  "fires offset e = {u. ms_per_minute dvd u + offset \<and> cron_matches e (u + offset)}"

definition fires_between :: "int \<Rightarrow> cron_expr \<Rightarrow> int \<Rightarrow> int \<Rightarrow> int set" where
  "fires_between offset e a b = {u \<in> fires offset e. a < u \<and> u \<le> b}"

lemma finite_fires_between [simp]: "finite (fires_between offset e a b)"
  by (rule finite_subset [of _ "{a<..b}"]) (auto simp: fires_between_def)

lemma fires_between_same [simp]: "fires_between offset e a a = {}"
  by (auto simp: fires_between_def)

lemma fires_between_next:
  assumes "compute_next_run offset e a = Some n" "n \<le> b"
  shows "card (fires_between offset e a b) = Suc (card (fires_between offset e n b))"
proof -
  have "fires_between offset e a b = insert n (fires_between offset e n b)"
    using next_run_Some [OF assms(1)] assms(2) by (fastforce simp: fires_between_def fires_def)
  then show ?thesis
    by (simp add: fires_between_def)
qed

lemma next_run_None:
  assumes "compute_next_run offset e a = None" "u \<in> fires offset e" "a < u"
  shows "a + search_minutes * ms_per_minute < u"
proof -
  have "0 \<le> search_minutes" "search_minutes < hard_iteration_cap"
    by (simp_all add: search_minutes_def hard_iteration_cap_def)
  from next_run_first_match [OF this, of a offset e] assms show ?thesis
    by (force simp: compute_next_run_def fires_def)
qed

lemma recurring_delivery:
  assumes "\<not> is_one_shot task"
  shows "of_int a \<le> deliver_at env task e a"
    and "u \<in> fires (cx_offset env) e \<Longrightarrow> a < u \<Longrightarrow> deliver_at env task e a < of_int u"
proof -
  have at_ms: "deliver_at env task e a = jittered_next env default_jitter (ct_id task) e a"
    using assms by (simp add: deliver_at_def)
  note bounds = jitter_within [of a env "ct_id task" e]
  show "of_int a \<le> deliver_at env task e a"
    using bounds at_ms by simp
  assume u: "u \<in> fires (cx_offset env) e" "a < u"
  show "deliver_at env task e a < of_int u"
  proof (cases "compute_next_run (cx_offset env) e a")
    case None
    have "a + 900000 < u"
      using next_run_None [OF None u] by (simp add: search_minutes_def ms_per_minute_def)
    then have "of_int (a + 900000) < (of_int u :: rat)"
      by (simp only: of_int_less_iff)
    then show ?thesis
      using bounds at_ms by simp
  next
    case (Some n)
    then have "n \<le> u" "a < n"
      using next_run_Some [OF Some] u by (force simp: fires_def)+
    then have "of_int n \<le> (of_int u :: rat)" "of_int a < (of_int n :: rat)"
      by simp_all
    then have "of_int a + of_int (n - a) / 10 < (of_int u :: rat)"
      by (simp add: field_simps)
    then show ?thesis
      using bounds at_ms Some by force
  qed
qed

text \<open>
  The count of a tick is exact: it is the number of ideal times since the baseline, and when it
  stays below the cap everything that is due has been counted.
\<close>

lemma count_coalesced_exact:
  assumes "\<not> is_one_shot task" "count_coalesced env task e now n cursor = (n', last_due)" "n \<le> max_coalesce_iterations"
    and "of_int now \<ge> deliver_at env task e cursor"
  shows "cursor \<le> last_due \<and> deliver_at env task e last_due \<le> of_int now \<and> n' \<le> max_coalesce_iterations \<and>
    n' = n + int (card (fires_between (cx_offset env) e cursor last_due)) \<and>
    (n' < max_coalesce_iterations \<longrightarrow>
       (\<forall>t. compute_jittered_next env task e last_due = Some t \<longrightarrow> of_int now < t))"
  using assms(2-4)
proof (induction "nat (max_coalesce_iterations - n)" arbitrary: n cursor rule: less_induct)
  case less
  show ?case
  proof (cases "n < max_coalesce_iterations \<and> (\<exists>u. compute_next_run (cx_offset env) e cursor = Some u \<and>
      u \<le> now \<and> deliver_at env task e u \<le> of_int now)")
    case True
    then obtain u where u: "compute_next_run (cx_offset env) e cursor = Some u" "u \<le> now"
        "deliver_at env task e u \<le> of_int now"
      by blast
    have "count_coalesced env task e now (n + 1) u = (n', last_due)"
      using less.prems(1) True u by (subst (asm) count_coalesced.simps) simp
    then have rest: "u \<le> last_due \<and> deliver_at env task e last_due \<le> of_int now \<and> n' \<le> max_coalesce_iterations \<and>
        n' = n + 1 + int (card (fires_between (cx_offset env) e u last_due)) \<and>
        (n' < max_coalesce_iterations \<longrightarrow>
          (\<forall>t. compute_jittered_next env task e last_due = Some t \<longrightarrow> of_int now < t))"
      using less.hyps [of "n + 1" u] True u(3) by simp
    then show ?thesis
      using next_run_Some(1) [OF u(1)] fires_between_next [OF u(1), of last_due] by simp
  next
    case False
    then have stop: "count_coalesced env task e now n cursor = (n, cursor)"
      by (subst count_coalesced.simps) (auto split: option.splits)
    have "of_int now < deliver_at env task e u"
      if "n < max_coalesce_iterations" "compute_next_run (cx_offset env) e cursor = Some u" for u
    proof (cases "u \<le> now")
      case True
      then show ?thesis
        using False that by auto
    next
      case False
      then have "of_int now < (of_int u :: rat)"
        by simp
      then show ?thesis
        using recurring_delivery(1) [OF assms(1), of u env e] by linarith
    qed
    then show ?thesis
      using stop less.prems by (auto simp: compute_jittered_next_def)
  qed
qed

text \<open>What the calls to the owner keep, a tick keeps.\<close>

lemma tick_preserves:
  assumes "\<And>task n w. P w \<Longrightarrow> P (fst (ch_fire host task n w))" "\<And>i w. P w \<Longrightarrow> P (ch_remove host i w)"
    and "\<And>i t w. P w \<Longrightarrow> P (ch_advance host i t w)" "P (snd st)"
  shows "P (snd (tick env host killed idle tasks now st))"
proof -
  have fire: "P (snd (fire_task env host now task e b st))" if "P (snd st)" for task e b st
  proof -
    obtain sc w where st: "st = (sc, w)"
      by fastforce
    obtain n d where due: "(case compute_next_run (cx_offset env) e b of
               Some ideal \<Rightarrow>
                 if is_one_shot task then (1, None)
                 else let (n, d) = count_coalesced env task e now 1 ideal in (max 1 n, Some d)
             | None \<Rightarrow> (1, None)) = (n, d)"
      by fastforce
    obtain w1 ok where "ch_fire host task n w = (w1, ok)"
      by fastforce
    then show ?thesis
      using assms(1) [of w task n] that due assms(2,3) by (simp add: st fire_task_def Let_def)
  qed
  have one: "P (snd (tick_task env host now task st))" if "P (snd st)" for task st
    using that fire by (auto simp: tick_task_def Let_def split: sum.splits option.splits)
  have "P (snd (fold (tick_task env host now) tasks st))" if "P (snd st)" for st
    using that by (induction tasks arbitrary: st) (simp_all add: one)
  then show ?thesis
    using assms(4) by (auto simp: tick_def split_beta)
qed

definition delivered_total :: "string \<Rightarrow> (string \<times> int) list \<Rightarrow> int" where
  "delivered_total i ledger = sum_list (map snd (filter (\<lambda>x. fst x = i) ledger))"

lemma delivered_total_simps [simp]:
  "delivered_total i [] = 0"
  "delivered_total i (xs @ ys) = delivered_total i xs + delivered_total i ys"
  "delivered_total i (x # xs) = (if fst x = i then snd x else 0) + delivered_total i xs"
  by (simp_all add: delivered_total_def)

definition task_base :: "int \<Rightarrow> cron_task \<Rightarrow> cron_sched \<Rightarrow> int" where
  "task_base now task sc = base_from task (cs_last_seen (seed_last_seen now task sc) (ct_id task))"

text \<open>
  The laws the owner of the scheduler keeps: a fire that returned is one entry of its log, and the
  other two calls do not touch the log.
\<close>

locale cron_owner =
  fixes host :: "'w cron_host" and ledger :: "'w \<Rightarrow> (string \<times> int) list"
  assumes fire_logs: "ch_fire host task n w = (w', ok) \<Longrightarrow> ledger w' = ledger w @ (if ok then [(ct_id task, n)] else [])"
    and remove_quiet: "ledger (ch_remove host i w) = ledger w"
    and advance_quiet: "ledger (ch_advance host i t w) = ledger w"
begin

lemma fire_recurring:
  assumes "\<not> is_one_shot task" "compute_next_run (cx_offset env) e b = Some ideal"
    and "deliver_at env task e ideal \<le> of_int now" "fire_task env host now task e b (sc, w) = (sc', w')"
  shows "cs_seeded sc' = cs_seeded sc"
    and "cs_last_seen sc' = cs_last_seen sc \<and> ledger w' = ledger w \<or>
     (\<exists>last_due n. cs_last_seen sc' = (cs_last_seen sc)(ct_id task \<mapsto> last_due) \<and> ledger w' = ledger w @ [(ct_id task, n)] \<and>
        b < last_due \<and> deliver_at env task e last_due \<le> of_int now \<and> 1 \<le> n \<and>
        n = int (card (fires_between (cx_offset env) e b last_due)) \<and>
        (n < max_coalesce_iterations \<longrightarrow>
          (\<forall>t. compute_jittered_next env task e last_due = Some t \<longrightarrow> of_int now < t)))"
proof -
  obtain n last_due where count: "count_coalesced env task e now 1 ideal = (n, last_due)"
    by fastforce
  have "(1 :: int) \<le> max_coalesce_iterations"
    by (simp add: max_coalesce_iterations_def)
  note exact = count_coalesced_exact [OF assms(1) count this assms(3)]
  have b: "b < last_due" "n = int (card (fires_between (cx_offset env) e b last_due))"
    using exact next_run_Some(1) [OF assms(2)] fires_between_next [OF assms(2), of last_due] by simp_all
  have n: "1 \<le> n" "max 1 n = n"
    using exact by simp_all
  obtain w1 ok where fire: "ch_fire host task n w = (w1, ok)"
    by fastforce
  have run: "fire_task env host now task e b (sc, w) =
      (if \<not> ok then (sc\<lparr>cs_in_flight := set_add (ct_id task) (cs_in_flight sc)\<rparr>, w1)
       else (sc\<lparr>cs_in_flight := set_add (ct_id task) (cs_in_flight sc),
               cs_last_seen := (cs_last_seen sc)(ct_id task \<mapsto> last_due)\<rparr>, ch_advance host (ct_id task) last_due w1))"
    using assms(1,2) count fire n(2) by (simp add: fire_task_def Let_def)
  then show "cs_seeded sc' = cs_seeded sc"
    using assms(4) by (auto split: if_splits)
  show "cs_last_seen sc' = cs_last_seen sc \<and> ledger w' = ledger w \<or>
     (\<exists>last_due n. cs_last_seen sc' = (cs_last_seen sc)(ct_id task \<mapsto> last_due) \<and> ledger w' = ledger w @ [(ct_id task, n)] \<and>
        b < last_due \<and> deliver_at env task e last_due \<le> of_int now \<and> 1 \<le> n \<and>
        n = int (card (fires_between (cx_offset env) e b last_due)) \<and>
        (n < max_coalesce_iterations \<longrightarrow>
          (\<forall>t. compute_jittered_next env task e last_due = Some t \<longrightarrow> of_int now < t)))"
  proof (cases ok)
    case True
    then show ?thesis
      using run assms(4) fire_logs [OF fire] advance_quiet exact b n(1) by auto
  next
    case False
    then show ?thesis
      using run assms(4) fire_logs [OF fire] by auto
  qed
qed

lemma seed_simps [simp]:
  "cs_seeded (seed_last_seen now task sc) = set_add (ct_id task) (cs_seeded sc)"
  "cs_in_flight (seed_last_seen now task sc) = cs_in_flight sc"
  "i \<noteq> ct_id task \<Longrightarrow> cs_last_seen (seed_last_seen now task sc) i = cs_last_seen sc i"
  by (auto simp: seed_last_seen_def Let_def split: option.splits)

lemma tick_task_recurring:
  assumes "parse_cron_expression (ct_cron task) = Inr e" "\<not> is_one_shot task"
    and "ct_id task \<notin> set (cs_in_flight sc)" "tick_task env host now task (sc, w) = (sc', w')"
  defines "b \<equiv> task_base now task sc" and "b' \<equiv> base_from task (cs_last_seen sc' (ct_id task))"
  shows "ct_id task \<in> set (cs_seeded sc')" and "b \<le> b'"
    and "delivered_total (ct_id task) (ledger w') =
      delivered_total (ct_id task) (ledger w) + int (card (fires_between (cx_offset env) e b b'))"
    and "(\<And>n w0. snd (ch_fire host task n w0)) \<Longrightarrow>
      int (card (fires_between (cx_offset env) e b b')) < max_coalesce_iterations \<Longrightarrow>
      compute_jittered_next env task e b' = Some t \<Longrightarrow> of_int now < t"
    and "b < b' \<Longrightarrow> deliver_at env task e b' \<le> of_int now"
proof -
  let ?sc = "seed_last_seen now task sc"
  have b: "b = base_from task (cs_last_seen ?sc (ct_id task))"
    by (simp add: b_def task_base_def)
  have quiet: "ct_id task \<in> set (cs_seeded sc') \<and> b' = b \<and> ledger w' = ledger w" if "(sc', w') = (?sc, w)"
    using that by (simp add: b b'_def)
  have "ct_id task \<in> set (cs_seeded sc') \<and> b \<le> b' \<and>
    delivered_total (ct_id task) (ledger w') =
      delivered_total (ct_id task) (ledger w) + int (card (fires_between (cx_offset env) e b b')) \<and>
    ((\<forall>n w0. snd (ch_fire host task n w0)) \<longrightarrow>
      int (card (fires_between (cx_offset env) e b b')) < max_coalesce_iterations \<longrightarrow>
      (\<forall>t. compute_jittered_next env task e b' = Some t \<longrightarrow> of_int now < t)) \<and>
    (b < b' \<longrightarrow> deliver_at env task e b' \<le> of_int now)"
  proof (cases "compute_next_run (cx_offset env) e b")
    case None
    then have "(sc', w') = (?sc, w)"
      using assms(1,3,4) by (simp add: tick_task_def Let_def b [symmetric] compute_jittered_next_def)
    then show ?thesis
      using quiet None by (simp add: compute_jittered_next_def)
  next
    case (Some ideal)
    show ?thesis
    proof (cases "of_int now < deliver_at env task e ideal")
      case True
      then have "(sc', w') = (?sc, w)"
        using Some assms(1,3,4) by (simp add: tick_task_def Let_def b [symmetric] compute_jittered_next_def)
      then show ?thesis
        using quiet Some True by (simp add: compute_jittered_next_def)
    next
      case False
      then have due: "deliver_at env task e ideal \<le> of_int now"
        by simp
      have fire: "fire_task env host now task e b (?sc, w) = (sc', w')"
        using Some False assms(1,3,4) by (simp add: tick_task_def Let_def b [symmetric] compute_jittered_next_def)
      have seeded: "ct_id task \<in> set (cs_seeded sc')"
        using fire_recurring(1) [OF assms(2) Some due fire] by simp
      from fire_recurring(2) [OF assms(2) Some due fire] show ?thesis
      proof (elim disjE exE conjE)
        assume same: "cs_last_seen sc' = cs_last_seen ?sc" "ledger w' = ledger w"
        then have "b' = b"
          by (simp add: b b'_def)
        moreover have False if ok: "\<forall>n w0. snd (ch_fire host task n w0)"
        proof -
          obtain n last_due where count: "count_coalesced env task e now 1 ideal = (n, last_due)"
            by fastforce
          obtain w1 where "ch_fire host task (max 1 n) w = (w1, True)"
            using ok by (metis (full_types) prod.collapse)
          from fire_logs [OF this] have "ledger w' \<noteq> ledger w"
            using fire count Some assms(2) \<open>ch_fire host task (max 1 n) w = (w1, True)\<close> advance_quiet
            by (auto simp: fire_task_def Let_def)
          then show False
            using same by simp
        qed
        ultimately show ?thesis
          using same seeded by auto
      next
        fix last_due n
        assume fired: "cs_last_seen sc' = (cs_last_seen ?sc)(ct_id task \<mapsto> last_due)" "ledger w' = ledger w @ [(ct_id task, n)]"
          "b < last_due" "deliver_at env task e last_due \<le> of_int now"
          "n = int (card (fires_between (cx_offset env) e b last_due))"
          "n < max_coalesce_iterations \<longrightarrow>
            (\<forall>t. compute_jittered_next env task e last_due = Some t \<longrightarrow> of_int now < t)"
        have "ct_created_at task \<le> b"
          by (auto simp: b base_from_def split: option.splits)
        then have "b' = last_due"
          using fired(1,3) by (simp add: b'_def base_from_def)
        then show ?thesis
          using fired seeded by simp
      qed
    qed
  qed
  then show "ct_id task \<in> set (cs_seeded sc')" "b \<le> b'"
    "delivered_total (ct_id task) (ledger w') =
      delivered_total (ct_id task) (ledger w) + int (card (fires_between (cx_offset env) e b b'))"
    "b < b' \<Longrightarrow> deliver_at env task e b' \<le> of_int now"
    "(\<And>n w0. snd (ch_fire host task n w0)) \<Longrightarrow>
      int (card (fires_between (cx_offset env) e b b')) < max_coalesce_iterations \<Longrightarrow>
      compute_jittered_next env task e b' = Some t \<Longrightarrow> of_int now < t"
    by blast+
qed

lemma fire_other:
  assumes "i \<noteq> ct_id task" "fire_task env host now task e b (sc, w) = (sc', w')"
  shows "cs_last_seen sc' i = cs_last_seen sc i \<and> (i \<in> set (cs_seeded sc') \<longleftrightarrow> i \<in> set (cs_seeded sc)) \<and>
    (i \<in> set (cs_in_flight sc') \<longleftrightarrow> i \<in> set (cs_in_flight sc)) \<and>
    delivered_total i (ledger w') = delivered_total i (ledger w)"
proof -
  obtain n d where due: "(case compute_next_run (cx_offset env) e b of
               Some ideal \<Rightarrow>
                 if is_one_shot task then (1, None)
                 else let (n, d) = count_coalesced env task e now 1 ideal in (max 1 n, Some d)
             | None \<Rightarrow> (1, None)) = (n, d)"
    by fastforce
  obtain w1 ok where fire: "ch_fire host task n w = (w1, ok)"
    by fastforce
  show ?thesis
    using assms due fire fire_logs [OF fire] remove_quiet advance_quiet
    by (auto simp: fire_task_def Let_def split: if_splits)
qed

lemma tick_task_other:
  assumes "i \<noteq> ct_id task" "tick_task env host now task (sc, w) = (sc', w')"
  shows "cs_last_seen sc' i = cs_last_seen sc i \<and> (i \<in> set (cs_seeded sc') \<longleftrightarrow> i \<in> set (cs_seeded sc)) \<and>
    (i \<in> set (cs_in_flight sc') \<longleftrightarrow> i \<in> set (cs_in_flight sc)) \<and>
    delivered_total i (ledger w') = delivered_total i (ledger w)"
proof (cases "ct_id task \<in> set (cs_in_flight sc) \<or> (\<exists>m. parse_cron_expression (ct_cron task) = Inl m)")
  case True
  then show ?thesis
    using assms(2) by (auto simp: tick_task_def split: if_splits)
next
  case False
  then obtain e where parsed: "parse_cron_expression (ct_cron task) = Inr e"
    by (cases "parse_cron_expression (ct_cron task)") auto
  let ?sc = "seed_last_seen now task sc"
  let ?b = "base_from task (cs_last_seen ?sc (ct_id task))"
  have "(sc', w') = (?sc, w) \<or> fire_task env host now task e ?b (?sc, w) = (sc', w')"
    using False parsed assms(2) by (auto simp: tick_task_def Let_def split: option.splits if_splits)
  then show ?thesis
    using fire_other [OF assms(1), of env now e ?b ?sc w sc' w'] assms(1) by auto
qed

end

end
