(* ===== verification/Cron_Manager.thy ===== *)
theory Cron_Manager
  imports Cron_Scheduler "HOL-Library.AList"
begin

text \<open>
  The cron tasks of a session: \<open>tools/cron/session-store.ts\<close>, \<open>agent/cron/manager.ts\<close> and the text of
  a fire, \<open>tools/cron/cron-fire-xml.ts\<close>. The store keeps its tasks in insertion order, one per
  identifier. Writes to the session directory are queued per identifier; a queue entry settles when
  its turn comes, and may fail. What reaches the agent (events, steers, telemetry) is a list of
  effects.
\<close>

subsection \<open>The store\<close>

definition is_cron_id :: "string \<Rightarrow> bool" where
  "is_cron_id s \<longleftrightarrow> length s = 8 \<and> list_all (\<lambda>c. hex_value c \<noteq> None) s"

definition store_get :: "string \<Rightarrow> cron_task list \<Rightarrow> cron_task option" where
  "store_get i ts = List.find (\<lambda>t. ct_id t = i) ts"

text \<open>\<open>Map.set\<close>: a known identifier keeps its place.\<close>

definition store_put :: "cron_task \<Rightarrow> cron_task list \<Rightarrow> cron_task list" where
  "store_put task ts =
     (if store_get (ct_id task) ts = None then ts @ [task]
      else map (\<lambda>t. if ct_id t = ct_id task then task else t) ts)"

definition store_delete :: "string \<Rightarrow> cron_task list \<Rightarrow> cron_task list" where
  "store_delete i ts = filter (\<lambda>t. ct_id t \<noteq> i) ts"

record cron_init =
  ci_cron :: string
  ci_prompt :: string
  ci_recurring :: "bool option"

definition max_id_attempts :: nat where
  "max_id_attempts = 8"

text \<open>The candidates are what \<open>randomBytes\<close> draws, in order.\<close>

definition generate_unique_id :: "string list \<Rightarrow> cron_task list \<Rightarrow> string + string" where
  "generate_unique_id draws ts =
     (case List.find (\<lambda>c. is_cron_id c \<and> store_get c ts = None) (take max_id_attempts draws) of
        Some c \<Rightarrow> Inr c
      | None \<Rightarrow> Inl (''SessionCronStore: failed to generate a unique 8-hex id after '' @
          nat_to_string max_id_attempts @ '' attempts''))"

definition store_add :: "string list \<Rightarrow> cron_init \<Rightarrow> int \<Rightarrow> cron_task list \<Rightarrow> string + cron_task \<times> cron_task list" where
  "store_add draws init now ts =
     (case generate_unique_id draws ts of
        Inl e \<Rightarrow> Inl e
      | Inr i \<Rightarrow>
          let task = \<lparr>ct_id = i, ct_cron = ci_cron init, ct_prompt = ci_prompt init, ct_created_at = now,
                ct_recurring = ci_recurring init, ct_last_fired_at = None\<rparr>
          in Inr (task, store_put task ts))"

definition mark_fired :: "string \<Rightarrow> int \<Rightarrow> cron_task list \<Rightarrow> (cron_task \<times> cron_task list) option" where
  "mark_fired i fired ts =
     (case store_get i ts of
        None \<Rightarrow> None
      | Some task \<Rightarrow> let updated = task\<lparr>ct_last_fired_at := Some fired\<rparr> in Some (updated, store_put updated ts))"

fun store_remove :: "string list \<Rightarrow> cron_task list \<Rightarrow> string list \<times> cron_task list" where
  "store_remove [] ts = ([], ts)"
| "store_remove (i # is) ts =
     (if store_get i ts = None then store_remove is ts
      else let (removed, ts') = store_remove is (store_delete i ts) in (i # removed, ts'))"

subsection \<open>The text of a fire\<close>

record cron_origin =
  co_job_id :: string
  co_cron :: string
  co_recurring :: bool
  co_coalesced :: int
  co_stale :: bool

fun escape_attr :: "string \<Rightarrow> string" where
  "escape_attr [] = []"
| "escape_attr (c # cs) =
     (if c = CHR ''&'' then ''&amp;'' else if c = CHR 0x22 then ''&quot;'' else [c]) @ escape_attr cs"

definition string_attr :: "string \<Rightarrow> string \<Rightarrow> string" where
  "string_attr s fallback = (if s = [] then fallback else escape_attr s)"

definition bool_text :: "bool \<Rightarrow> string" where
  "bool_text b = (if b then ''true'' else ''false'')"

definition render_cron_fire :: "cron_origin \<Rightarrow> string \<Rightarrow> string" where
  "render_cron_fire o1 prompt =
     join_with [CHR 0x0A]
       [''<cron-fire jobId='' @ dquoted (string_attr (co_job_id o1) ''unknown'') @ '' cron='' @
          dquoted (string_attr (co_cron o1) ''unknown'') @ '' recurring='' @ dquoted (bool_text (co_recurring o1)) @
          '' coalescedCount='' @ dquoted (int_to_string (co_coalesced o1)) @ '' stale='' @
          dquoted (bool_text (co_stale o1)) @ ''>'',
        ''<prompt>'', prompt, ''</prompt>'', ''</cron-fire>'']"

subsection \<open>The manager\<close>

datatype cron_effect =
    Cron_event cron_origin string
  | Cron_hook cron_origin
  | Cron_steer string cron_origin
  | Cron_missed_steer string nat
  | Track_fired bool int bool bool
  | Track_missed nat
  | Track_scheduled bool
  | Track_deleted string

datatype persist_job = Write_file cron_task | Remove_file string

fun job_id :: "persist_job \<Rightarrow> string" where
  "job_id (Write_file t) = ct_id t"
| "job_id (Remove_file i) = i"

record cron_manager =
  cm_store :: "cron_task list"
  cm_jobs :: "persist_job list"
  cm_disk :: "(string \<times> cron_task) list"
  cm_persist :: bool
  cm_effects :: "cron_effect list"

text \<open>
  What the manager asks its surroundings: the clock, whether a steer was buffered behind a running
  turn, which calls on the agent throw (an event, an orchestration hook, a steer; all three may depend
  on everything that happened before), and two switches of the environment. Telemetry does not throw.
\<close>

record manager_env =
  me_cron :: cron_env
  me_clock :: "cron_effect list \<Rightarrow> int"
  me_buffered :: "cron_effect list \<Rightarrow> bool"
  me_throws :: "cron_effect \<Rightarrow> cron_effect list \<Rightarrow> bool"
  me_no_stale :: bool

definition add_effects :: "cron_effect list \<Rightarrow> cron_manager \<Rightarrow> cron_manager" where
  "add_effects es m = m\<lparr>cm_effects := cm_effects m @ es\<rparr>"

definition persist_enqueue :: "persist_job list \<Rightarrow> cron_manager \<Rightarrow> cron_manager" where
  "persist_enqueue js m = (if cm_persist m then m\<lparr>cm_jobs := cm_jobs m @ js\<rparr> else m)"

definition stale_threshold_ms :: int where
  "stale_threshold_ms = 7 * 24 * 60 * 60 * 1000"

definition is_stale :: "manager_env \<Rightarrow> int \<Rightarrow> cron_task \<Rightarrow> bool" where
  "is_stale env now task \<longleftrightarrow>
     \<not> me_no_stale env \<and> \<not> is_one_shot task \<and> now - ct_created_at task \<ge> stale_threshold_ms"

definition add_task :: "string list \<Rightarrow> cron_init \<Rightarrow> int \<Rightarrow> cron_manager \<Rightarrow> string + cron_task \<times> cron_manager" where
  "add_task draws init now m =
     (case store_add draws init now (cm_store m) of
        Inl e \<Rightarrow> Inl e
      | Inr (task, ts) \<Rightarrow> Inr (task, persist_enqueue [Write_file task] (m\<lparr>cm_store := ts\<rparr>)))"

definition remove_tasks :: "string list \<Rightarrow> cron_manager \<Rightarrow> string list \<times> cron_manager" where
  "remove_tasks is m =
     (let (removed, ts) = store_remove is (cm_store m)
      in (removed, persist_enqueue (map Remove_file removed) (m\<lparr>cm_store := ts\<rparr>)))"

definition advance_cursor :: "string \<Rightarrow> int \<Rightarrow> cron_manager \<Rightarrow> cron_manager" where
  "advance_cursor i fired m =
     (case mark_fired i fired (cm_store m) of
        None \<Rightarrow> m
      | Some (updated, ts) \<Rightarrow> persist_enqueue [Write_file updated] (m\<lparr>cm_store := ts\<rparr>))"

definition emit_scheduled :: "cron_task \<Rightarrow> cron_manager \<Rightarrow> cron_manager" where
  "emit_scheduled task = add_effects [Track_scheduled (\<not> is_one_shot task)]"

definition emit_deleted :: "string \<Rightarrow> cron_manager \<Rightarrow> cron_manager" where
  "emit_deleted i = add_effects [Track_deleted i]"

text \<open>Calls on the agent, one after the other, up to the first that throws.\<close>

fun emit_calls :: "manager_env \<Rightarrow> cron_effect list \<Rightarrow> cron_manager \<Rightarrow> cron_manager \<times> bool" where
  "emit_calls env [] m = (m, True)"
| "emit_calls env (x # xs) m =
     (if me_throws env x (cm_effects m) then (m, False) else emit_calls env xs (add_effects [x] m))"

text \<open>\<open>handleFire\<close>, with whether it returned.\<close>

definition handle_fire :: "manager_env \<Rightarrow> cron_task \<Rightarrow> int \<Rightarrow> cron_manager \<Rightarrow> cron_manager \<times> bool" where
  "handle_fire env task coalesced m =
     (let stale = is_stale env (me_clock env (cm_effects m)) task;
          origin = \<lparr>co_job_id = ct_id task, co_cron = ct_cron task, co_recurring = \<not> is_one_shot task,
            co_coalesced = coalesced, co_stale = stale\<rparr>;
          (m1, returned) = emit_calls env [Cron_event origin (ct_prompt task), Cron_hook origin,
            Cron_steer (render_cron_fire origin (ct_prompt task)) origin] m
      in if \<not> returned then (m1, False)
         else
           let m2 = add_effects [Track_fired (\<not> is_one_shot task) coalesced stale (me_buffered env (cm_effects m1))] m1
           in (if stale \<and> \<not> is_one_shot task
               then emit_deleted (ct_id task) (snd (remove_tasks [ct_id task] m2)) else m2, True))"

definition handle_missed :: "cron_task list \<Rightarrow> (cron_task list \<Rightarrow> string) \<Rightarrow> cron_manager \<Rightarrow> cron_manager" where
  "handle_missed ts render_missed m =
     (if ts = [] then m
      else add_effects [Cron_missed_steer (render_missed ts) (length ts), Track_missed (length ts)] m)"

definition manager_host :: "manager_env \<Rightarrow> cron_manager cron_host" where
  "manager_host env = \<lparr>ch_fire = handle_fire env,
     ch_remove = (\<lambda>i m. snd (remove_tasks [i] m)), ch_advance = advance_cursor\<rparr>"

definition manager_tick ::
  "manager_env \<Rightarrow> bool \<Rightarrow> bool \<Rightarrow> int \<Rightarrow> cron_sched \<times> cron_manager \<Rightarrow> cron_sched \<times> cron_manager" where
  "manager_tick env killed idle now st =
     tick (me_cron env) (manager_host env) killed idle (cm_store (snd st)) now st"

subsection \<open>The session directory\<close>

definition disk_put :: "cron_task \<Rightarrow> (string \<times> cron_task) list \<Rightarrow> (string \<times> cron_task) list" where
  "disk_put task d = AList.update (ct_id task) task d"

fun apply_job :: "persist_job \<Rightarrow> (string \<times> cron_task) list \<Rightarrow> (string \<times> cron_task) list" where
  "apply_job (Write_file t) d = (if is_cron_id (ct_id t) then disk_put t d else d)"
| "apply_job (Remove_file i) d = (if is_cron_id i then AList.delete i d else d)"

text \<open>
  One queued write settles: the first of its identifier, for the writes of one identifier are
  chained. One that fails is logged and dropped.
\<close>

definition settle_job :: "nat \<Rightarrow> bool \<Rightarrow> cron_manager \<Rightarrow> cron_manager" where
  "settle_job k ok m =
     (if k < length (cm_jobs m) \<and> job_id (cm_jobs m ! k) \<notin> job_id ` set (take k (cm_jobs m))
      then m\<lparr>cm_jobs := take k (cm_jobs m) @ drop (Suc k) (cm_jobs m),
             cm_disk := (if ok then apply_job (cm_jobs m ! k) (cm_disk m) else cm_disk m)\<rparr>
      else m)"

text \<open>The queue is drained; the list says which writes succeed, beyond its end all do.\<close>

fun settle_all :: "bool list \<Rightarrow> persist_job list \<Rightarrow> (string \<times> cron_task) list \<Rightarrow> (string \<times> cron_task) list" where
  "settle_all oks [] d = d"
| "settle_all [] (j # js) d = settle_all [] js (apply_job j d)"
| "settle_all (ok # oks) (j # js) d = settle_all oks js (if ok then apply_job j d else d)"

definition flush_persist :: "bool list \<Rightarrow> cron_manager \<Rightarrow> cron_manager" where
  "flush_persist oks m = m\<lparr>cm_jobs := [], cm_disk := settle_all oks (cm_jobs m) (cm_disk m)\<rparr>"

text \<open>The files of the directory whose name and record are well formed.\<close>

definition list_persisted :: "(string \<times> cron_task) list \<Rightarrow> cron_task list" where
  "list_persisted d = map snd (filter (\<lambda>(i, t). is_cron_id i \<and> is_cron_id (ct_id t)) d)"

definition load_from_disk :: "cron_manager \<Rightarrow> cron_manager" where
  "load_from_disk m =
     (if cm_persist m then m\<lparr>cm_store := foldl (\<lambda>ts t. store_put t ts) [] (list_persisted (cm_disk m))\<rparr> else m)"

text \<open>A session that is closed and resumed: the writes are drained, and a new manager reads them.\<close>

definition manager_restart :: "bool list \<Rightarrow> cron_sched \<times> cron_manager \<Rightarrow> cron_sched \<times> cron_manager" where
  "manager_restart oks st =
     (let m = flush_persist oks (snd st)
      in (cron_sched_init, load_from_disk (m\<lparr>cm_store := []\<rparr>)))"

subsection \<open>The store as a map\<close>

lemma store_get_Nil [simp]: "store_get i [] = None"
  by (simp add: store_get_def)

lemma store_get_None: "store_get i ts = None \<longleftrightarrow> i \<notin> ct_id ` set ts"
  by (auto simp: store_get_def find_None_iff)

lemma store_get_Some: "store_get i ts = Some t \<Longrightarrow> t \<in> set ts \<and> ct_id t = i"
  by (auto simp: store_get_def find_Some_iff)

lemma store_get_Cons: "store_get i (t # ts) = (if ct_id t = i then Some t else store_get i ts)"
  by (simp add: store_get_def)

lemma store_get_member: "distinct (map ct_id ts) \<Longrightarrow> t \<in> set ts \<Longrightarrow> store_get (ct_id t) ts = Some t"
  by (induction ts) (auto simp: store_get_Cons rev_image_eqI)

lemma store_get_snoc: "store_get i (ts @ [t]) = (case store_get i ts of None \<Rightarrow> if ct_id t = i then Some t else None | Some u \<Rightarrow> Some u)"
  by (induction ts) (simp_all add: store_get_Cons)

lemma store_get_replace:
  "store_get i (map (\<lambda>t. if ct_id t = ct_id task then task else t) ts) =
     (if i = ct_id task \<and> store_get i ts \<noteq> None then Some task else store_get i ts)"
  by (induction ts) (auto simp: store_get_Cons)

lemma store_get_put: "store_get i (store_put task ts) = (if i = ct_id task then Some task else store_get i ts)"
  by (auto simp: store_put_def store_get_snoc store_get_replace split: option.splits)

lemma store_get_delete: "store_get i (store_delete j ts) = (if i = j then None else store_get i ts)"
  by (induction ts) (auto simp: store_delete_def store_get_Cons)

lemma distinct_store_put: "distinct (map ct_id ts) \<Longrightarrow> distinct (map ct_id (store_put task ts))"
proof -
  assume d: "distinct (map ct_id ts)"
  have "map ct_id (map (\<lambda>t. if ct_id t = ct_id task then task else t) ts) = map ct_id ts"
    by simp
  then show ?thesis
    using d unfolding store_put_def by (auto simp: store_get_None image_iff simp del: map_map)
qed

lemma distinct_store_delete: "distinct (map ct_id ts) \<Longrightarrow> distinct (map ct_id (store_delete i ts))"
  by (simp add: store_delete_def distinct_map_filter)

lemma store_remove_get:
  "store_get i (snd (store_remove is ts)) = (if i \<in> set is then None else store_get i ts)"
  by (induction "is" ts rule: store_remove.induct) (auto simp: store_get_delete split: prod.splits)

lemma store_remove_removed:
  "set (fst (store_remove is ts)) = {i \<in> set is. store_get i ts \<noteq> None}"
  by (induction "is" ts rule: store_remove.induct) (auto simp: store_get_delete split: prod.splits if_splits)

lemma distinct_store_remove: "distinct (map ct_id ts) \<Longrightarrow> distinct (map ct_id (snd (store_remove is ts)))"
  by (induction "is" ts rule: store_remove.induct) (auto simp: distinct_store_delete split: prod.splits)

subsection \<open>The directory follows the store\<close>

fun job_map :: "persist_job \<Rightarrow> (string \<Rightarrow> cron_task option) \<Rightarrow> string \<Rightarrow> cron_task option" where
  "job_map (Write_file t) f = (if is_cron_id (ct_id t) then f(ct_id t \<mapsto> t) else f)"
| "job_map (Remove_file i) f = (if is_cron_id i then f(i := None) else f)"

lemma map_of_apply_job: "map_of (apply_job j d) = job_map j (map_of d)"
  by (cases j) (simp_all add: disk_put_def update_conv' delete_conv')

lemma map_of_apply_jobs: "map_of (fold apply_job js d) = fold job_map js (map_of d)"
  by (induction js arbitrary: d) (simp_all add: map_of_apply_job)

lemma job_map_commute: "job_id j \<noteq> job_id k \<Longrightarrow> job_map j (job_map k f) = job_map k (job_map j f)"
  by (cases j; cases k) (auto simp: fun_upd_twist)

lemma fold_job_commute:
  "job_id j \<notin> job_id ` set js \<Longrightarrow> fold job_map js (job_map j f) = job_map j (fold job_map js f)"
proof (induction js arbitrary: f)
  case (Cons k js)
  then have "job_map k (job_map j f) = job_map j (job_map k f)"
    by (intro job_map_commute) auto
  then show ?case
    using Cons by simp
qed simp

text \<open>One file per task, named by its identifier.\<close>

definition well_filed :: "(string \<times> cron_task) list \<Rightarrow> bool" where
  "well_filed d \<longleftrightarrow> distinct (map fst d) \<and> list_all (\<lambda>x. ct_id (snd x) = fst x \<and> is_cron_id (fst x)) d"

text \<open>The directory and the queued writes hold the store, unless a write was \<open>lost\<close> since they last did.\<close>

definition disk_follows :: "bool \<Rightarrow> cron_manager \<Rightarrow> bool" where
  "disk_follows lost m \<longleftrightarrow>
     list_all (\<lambda>t. is_cron_id (ct_id t)) (cm_store m) \<and> well_filed (cm_disk m) \<and>
     (lost \<or> map_of (fold apply_job (cm_jobs m) (cm_disk m)) = (\<lambda>i. store_get i (cm_store m)))"

lemma settle_follows:
  assumes "k < length js" "job_id (js ! k) \<notin> job_id ` set (take k js)"
  shows "map_of (fold apply_job (take k js @ drop (Suc k) js) (apply_job (js ! k) d)) = map_of (fold apply_job js d)"
proof -
  have "fold job_map js (map_of d) =
      fold job_map (drop (Suc k) js) (job_map (js ! k) (fold job_map (take k js) (map_of d)))"
    using id_take_nth_drop [OF assms(1)] by (metis fold_Cons fold_append o_apply)
  also have "\<dots> = fold job_map (drop (Suc k) js) (fold job_map (take k js) (job_map (js ! k) (map_of d)))"
    using fold_job_commute [OF assms(2)] by simp
  finally show ?thesis
    by (simp add: map_of_apply_jobs map_of_apply_job)
qed

lemma apply_job_keeps: "well_filed d \<Longrightarrow> well_filed (apply_job j d)"
proof (cases j)
  case (Write_file t)
  have "set (AList.update (ct_id t) t d) \<subseteq> insert (ct_id t, t) (set d)"
    by (induction d) auto
  then show "well_filed d \<Longrightarrow> well_filed (apply_job j d)"
    using Write_file by (auto simp: well_filed_def list_all_iff disk_put_def distinct_update)
next
  case (Remove_file i)
  have "set (AList.delete i d) \<subseteq> set d"
    by (induction d) auto
  then show "well_filed d \<Longrightarrow> well_filed (apply_job j d)"
    using Remove_file by (auto simp: well_filed_def list_all_iff distinct_delete)
qed

lemma apply_jobs_keep: "well_filed d \<Longrightarrow> well_filed (fold apply_job js d)"
  by (induction js arbitrary: d) (simp_all add: apply_job_keeps)

text \<open>A session with a directory: the store has one task per identifier and the directory follows it.\<close>

definition manager_good :: "bool \<Rightarrow> cron_manager \<Rightarrow> bool" where
  "manager_good lost m \<longleftrightarrow> cm_persist m \<and> distinct (map ct_id (cm_store m)) \<and> disk_follows lost m"

lemma store_put_ids: "set (map ct_id (store_put task ts)) = insert (ct_id task) (set (map ct_id ts))"
  by (auto simp: store_put_def store_get_None image_iff)

lemma store_put_valid:
  "list_all (\<lambda>t. is_cron_id (ct_id t)) ts \<Longrightarrow> is_cron_id (ct_id task) \<Longrightarrow>
   list_all (\<lambda>t. is_cron_id (ct_id t)) (store_put task ts)"
  by (auto simp: list_all_iff store_put_def)

lemma good_put:
  assumes "manager_good lost m" "is_cron_id (ct_id task)"
  shows "manager_good lost (persist_enqueue [Write_file task] (m\<lparr>cm_store := store_put task (cm_store m)\<rparr>))"
proof -
  have "map_of (disk_put task d) = (map_of d)(ct_id task \<mapsto> task)" for d
    by (simp add: disk_put_def update_conv')
  then show ?thesis
    using assms
    by (auto simp: manager_good_def persist_enqueue_def disk_follows_def distinct_store_put store_put_valid
        store_get_put)
qed

lemma store_remove_one: "snd (store_remove [i] ts) = store_delete i ts"
  "fst (store_remove [i] ts) = (if store_get i ts = None then [] else [i])"
proof -
  have "store_get i ts = None \<Longrightarrow> store_delete i ts = ts"
    by (induction ts) (auto simp: store_get_Cons store_delete_def split: if_splits)
  then show "snd (store_remove [i] ts) = store_delete i ts" "fst (store_remove [i] ts) = (if store_get i ts = None then [] else [i])"
    by auto
qed

lemma store_remove_valid:
  "list_all (\<lambda>t. is_cron_id (ct_id t)) ts \<Longrightarrow> list_all (\<lambda>t. is_cron_id (ct_id t)) (snd (store_remove is ts))"
  by (induction "is" ts rule: store_remove.induct) (auto simp: store_delete_def list_all_iff split: prod.splits)

lemma remove_jobs_map:
  "list_all is_cron_id is \<Longrightarrow> fold job_map (map Remove_file is) f = (\<lambda>i. if i \<in> set is then None else f i)"
  by (induction "is" arbitrary: f) auto

lemma good_remove:
  assumes "manager_good lost m"
  shows "manager_good lost (snd (remove_tasks is m))"
proof -
  let ?r = "fst (store_remove is (cm_store m))" and ?ts = "snd (store_remove is (cm_store m))"
  have valid: "list_all (\<lambda>t. is_cron_id (ct_id t)) (cm_store m)"
    using assms by (simp add: manager_good_def disk_follows_def)
  have "list_all is_cron_id ?r"
    using store_remove_removed [of "is" "cm_store m"] valid store_get_Some by (fastforce simp: list_all_iff)
  then have "map_of (fold apply_job (cm_jobs m @ map Remove_file ?r) (cm_disk m)) =
      (\<lambda>i. if i \<in> set ?r then None else store_get i (cm_store m))" if "\<not> lost"
    using assms remove_jobs_map that by (simp add: manager_good_def disk_follows_def map_of_apply_jobs)
  moreover have "(\<lambda>i. if i \<in> set ?r then None else store_get i (cm_store m)) = (\<lambda>i. store_get i ?ts)"
    using store_remove_removed [of "is" "cm_store m"] by (auto simp: store_remove_get)
  ultimately have "\<not> lost \<longrightarrow> map_of (fold apply_job (cm_jobs m @ map Remove_file ?r) (cm_disk m)) = (\<lambda>i. store_get i ?ts)"
    by simp
  then show ?thesis
    using assms valid
    by (auto simp: manager_good_def disk_follows_def remove_tasks_def persist_enqueue_def
        distinct_store_remove store_remove_valid split_beta)
qed

lemma good_advance: "manager_good lost m \<Longrightarrow> manager_good lost (advance_cursor i t m)"
proof (cases "store_get i (cm_store m)")
  case (Some task)
  assume good: "manager_good lost m"
  have "is_cron_id (ct_id task)"
    using good store_get_Some [OF Some] by (auto simp: manager_good_def disk_follows_def list_all_iff)
  then show ?thesis
    using good_put [OF good, of "task\<lparr>ct_last_fired_at := Some t\<rparr>"] Some
    by (simp add: advance_cursor_def mark_fired_def Let_def)
qed (simp add: advance_cursor_def mark_fired_def)

lemma good_effects [simp]: "manager_good lost (add_effects es m) = manager_good lost m"
  by (simp add: manager_good_def disk_follows_def add_effects_def)

lemma add_effects_simps [simp]:
  "cm_store (add_effects es m) = cm_store m" "cm_effects (add_effects es m) = cm_effects m @ es"
  by (simp_all add: add_effects_def)

lemma remove_one_simps [simp]:
  "cm_store (snd (remove_tasks [i] m)) = store_delete i (cm_store m)"
  "cm_effects (snd (remove_tasks is m)) = cm_effects m"
  by (auto simp: remove_tasks_def persist_enqueue_def split_beta store_remove_one simp del: store_remove.simps)

text \<open>The fires an agent was steered with, with their counts.\<close>

definition fired_ledger :: "cron_effect list \<Rightarrow> (string \<times> int) list" where
  "fired_ledger es = concat (map (\<lambda>x. case x of Cron_steer text og \<Rightarrow> [(co_job_id og, co_coalesced og)] | _ \<Rightarrow> []) es)"

lemma fired_ledger_append [simp]: "fired_ledger (xs @ ys) = fired_ledger xs @ fired_ledger ys"
  by (simp add: fired_ledger_def)

text \<open>A fire that returned steered the agent once; one that threw did not.\<close>

lemma handle_fire_cases:
  obtains (threw) es where "handle_fire env task n m = (add_effects es m, False)" "fired_ledger es = []"
  | (returned) es where "fired_ledger es = [(ct_id task, n)]"
      "handle_fire env task n m =
        (if is_stale env (me_clock env (cm_effects m)) task \<and> \<not> is_one_shot task
         then emit_deleted (ct_id task) (snd (remove_tasks [ct_id task] (add_effects es m))) else add_effects es m, True)"
proof -
  define origin where "origin = \<lparr>co_job_id = ct_id task, co_cron = ct_cron task, co_recurring = \<not> is_one_shot task,
      co_coalesced = n, co_stale = is_stale env (me_clock env (cm_effects m)) task\<rparr>"
  define calls where "calls = [Cron_event origin (ct_prompt task), Cron_hook origin,
      Cron_steer (render_cron_fire origin (ct_prompt task)) origin]"
  obtain es ok where run: "emit_calls env calls m = (add_effects es m, ok)" "ok \<longrightarrow> es = calls"
      "\<not> ok \<longrightarrow> fired_ledger es = []"
  proof -
    have "emit_calls env calls m \<in> {(add_effects [] m, False), (add_effects (take 1 calls) m, False),
        (add_effects (take 2 calls) m, False), (add_effects calls m, True)}"
      by (simp add: calls_def add_effects_def)
    moreover have "fired_ledger [] = []" "fired_ledger (take 1 calls) = []" "fired_ledger (take 2 calls) = []"
      by (simp_all add: fired_ledger_def calls_def)
    ultimately show thesis
      using that by blast
  qed
  show thesis
  proof (cases ok)
    case False
    then show thesis
      using run by (intro threw [of es])
        (simp_all add: handle_fire_def Let_def calls_def origin_def add_effects_def)
  next
    case True
    let ?es = "es @ [Track_fired (\<not> is_one_shot task) n (is_stale env (me_clock env (cm_effects m)) task)
        (me_buffered env (cm_effects (add_effects es m)))]"
    have "fired_ledger ?es = [(ct_id task, n)]"
      using run True by (simp add: fired_ledger_def calls_def origin_def)
    then show thesis
      using run True by (intro returned [of ?es])
        (simp_all add: handle_fire_def Let_def calls_def origin_def add_effects_def)
  qed
qed

lemma good_fire: "manager_good lost m \<Longrightarrow> manager_good lost (fst (handle_fire env task n m))"
  by (cases rule: handle_fire_cases [of env task n m]) (auto simp: emit_deleted_def intro: good_remove)

lemma advance_store:
  "store_get j (cm_store (advance_cursor i t m)) =
     (if j = i then map_option (\<lambda>task. task\<lparr>ct_last_fired_at := Some t\<rparr>) (store_get i (cm_store m))
      else store_get j (cm_store m))"
  using store_get_Some [of i "cm_store m"]
  by (cases "store_get i (cm_store m)")
    (auto simp: advance_cursor_def mark_fired_def persist_enqueue_def store_get_put Let_def)

lemma advance_effects [simp]: "cm_effects (advance_cursor i t m) = cm_effects m"
  by (auto simp: advance_cursor_def persist_enqueue_def split: option.splits)

lemma fire_store:
  "store_get j (cm_store (fst (handle_fire env task n m))) =
     (if snd (handle_fire env task n m) \<and> j = ct_id task \<and> is_stale env (me_clock env (cm_effects m)) task \<and>
        \<not> is_one_shot task then None
      else store_get j (cm_store m))"
  by (cases rule: handle_fire_cases [of env task n m]) (auto simp: emit_deleted_def store_get_delete)

lemma good_settle: "manager_good lost m \<Longrightarrow> manager_good (lost \<or> \<not> ok) (settle_job k ok m)"
  using settle_follows [of k "cm_jobs m" "cm_disk m"]
  by (auto simp: settle_job_def manager_good_def disk_follows_def apply_job_keeps)

subsection \<open>Resuming a session\<close>

lemma list_persisted_well_filed: "well_filed d \<Longrightarrow> list_persisted d = map snd d"
  by (induction d) (auto simp: list_persisted_def well_filed_def)

lemma foldl_store_put:
  "distinct (map ct_id (ts @ us)) \<Longrightarrow> foldl (\<lambda>ts t. store_put t ts) ts us = ts @ us"
proof (induction us arbitrary: ts)
  case (Cons u us)
  then have "store_put u ts = ts @ [u]"
    by (auto simp: store_put_def store_get_None)
  then show ?case
    using Cons by simp
qed simp

lemma well_filed_store: "well_filed d \<Longrightarrow> distinct (map ct_id (map snd d)) \<and> store_get i (map snd d) = map_of d i"
proof (induction d)
  case (Cons x d)
  have "set (map ct_id (map snd d)) = set (map fst d)"
    using Cons.prems by (force simp: well_filed_def list_all_iff)
  then show ?case
    using Cons by (cases x) (auto simp: well_filed_def store_get_Cons)
qed (simp add: well_filed_def)

lemma settle_all_succeeds: "list_all id oks \<Longrightarrow> settle_all oks js d = fold apply_job js d"
  by (induction oks js d rule: settle_all.induct) simp_all

lemma restart_manager:
  assumes "manager_good False m" "list_all id oks" "manager_restart oks (sc, m) = (sc', m')"
  shows "sc' = cron_sched_init" "manager_good False m'" "store_get i (cm_store m') = store_get i (cm_store m)"
    "cm_effects m' = cm_effects m"
proof -
  let ?d = "fold apply_job (cm_jobs m) (cm_disk m)"
  have filed: "well_filed ?d" "map_of ?d = (\<lambda>i. store_get i (cm_store m))"
    using assms(1) apply_jobs_keep by (simp_all add: manager_good_def disk_follows_def)
  have m': "m' = m\<lparr>cm_jobs := [], cm_disk := ?d, cm_store := map snd ?d\<rparr>"
    using assms settle_all_succeeds filed(1) foldl_store_put [of "[]" "map snd ?d"] well_filed_store [OF filed(1)]
    by (auto simp: manager_restart_def flush_persist_def load_from_disk_def Let_def manager_good_def
        list_persisted_well_filed)
  show "sc' = cron_sched_init"
    using assms(3) by (simp add: manager_restart_def Let_def)
  show "manager_good False m'"
    using assms(1) filed well_filed_store [OF filed(1)]
    by (auto simp: m' manager_good_def disk_follows_def well_filed_def list_all_iff)
  show "store_get i (cm_store m') = store_get i (cm_store m)" "cm_effects m' = cm_effects m"
    using well_filed_store [OF filed(1), of i] filed(2) by (simp_all add: m')
qed

subsection \<open>Every ideal time is counted once\<close>

lemma manager_fire_logs:
  "ch_fire (manager_host env) task n m = (m', ok) \<Longrightarrow>
   fired_ledger (cm_effects m') = fired_ledger (cm_effects m) @ (if ok then [(ct_id task, n)] else [])"
  by (cases rule: handle_fire_cases [of env task n m]) (auto simp: manager_host_def emit_deleted_def fired_ledger_def)

lemma manager_remove_quiet: "fired_ledger (cm_effects (ch_remove (manager_host env) i m)) = fired_ledger (cm_effects m)"
  by (simp add: manager_host_def)

lemma manager_advance_quiet:
  "fired_ledger (cm_effects (ch_advance (manager_host env) i t m)) = fired_ledger (cm_effects m)"
  by (simp add: manager_host_def)

interpretation told: cron_owner "manager_host env" "\<lambda>m. fired_ledger (cm_effects m)" for env
  by unfold_locales (fact manager_fire_logs manager_remove_quiet manager_advance_quiet)+

definition told_total :: "string \<Rightarrow> cron_manager \<Rightarrow> int" where
  "told_total i m = delivered_total i (fired_ledger (cm_effects m))"

text \<open>How far a task's schedule has been delivered.\<close>

definition cursor :: "cron_sched \<Rightarrow> cron_task \<Rightarrow> int" where
  "cursor sc task =
     base_from task (case cs_last_seen sc (ct_id task) of Some s \<Rightarrow> Some s | None \<Rightarrow> ct_last_fired_at task)"

definition accounted :: "manager_env \<Rightarrow> int \<Rightarrow> cron_sched \<Rightarrow> cron_manager \<Rightarrow> cron_task \<Rightarrow> bool" where
  "accounted env clock sc m task \<longleftrightarrow>
     (case cs_last_seen sc (ct_id task) of
        Some s \<Rightarrow> ct_last_fired_at task = Some s
      | None \<Rightarrow> ct_id task \<in> set (cs_seeded sc) \<longrightarrow> ct_last_fired_at task = None) \<and>
     (case ct_last_fired_at task of Some f \<Rightarrow> f \<le> clock | None \<Rightarrow> True) \<and>
     (if is_one_shot task then told_total (ct_id task) m = 0 \<and> ct_last_fired_at task = None
      else case parse_cron_expression (ct_cron task) of
          Inl _ \<Rightarrow> True
        | Inr e \<Rightarrow> told_total (ct_id task) m =
            int (card (fires_between (cx_offset (me_cron env)) e (ct_created_at task) (cursor sc task))))"

definition books_kept :: "bool \<Rightarrow> manager_env \<Rightarrow> int \<Rightarrow> string set \<Rightarrow> cron_sched \<times> cron_manager \<Rightarrow> bool" where
  "books_kept lost env clock used st \<longleftrightarrow>
     manager_good lost (snd st) \<and>
     (\<forall>i task. store_get i (cm_store (snd st)) = Some task \<longrightarrow> accounted env clock (fst st) (snd st) task) \<and>
     (\<forall>i. i \<notin> used \<longrightarrow> store_get i (cm_store (snd st)) = None \<and> cs_last_seen (fst st) i = None \<and> told_total i (snd st) = 0)"

lemma fires_between_split:
  assumes "a \<le> b" "b \<le> c"
  shows "card (fires_between offset e a c) = card (fires_between offset e a b) + card (fires_between offset e b c)"
proof -
  have "fires_between offset e a c = fires_between offset e a b \<union> fires_between offset e b c"
    using assms by (auto simp: fires_between_def)
  moreover have "fires_between offset e a b \<inter> fires_between offset e b c = {}"
    by (auto simp: fires_between_def)
  ultimately show ?thesis
    by (simp add: card_Un_disjoint)
qed

lemma seeded_cursor:
  assumes "accounted env clock sc m task" "clock \<le> now"
  shows "task_base now task sc = cursor sc task"
    and "cs_last_seen (seed_last_seen now task sc) (ct_id task) =
      (case cs_last_seen sc (ct_id task) of Some s \<Rightarrow> Some s | None \<Rightarrow> ct_last_fired_at task)"
proof -
  show "cs_last_seen (seed_last_seen now task sc) (ct_id task) =
      (case cs_last_seen sc (ct_id task) of Some s \<Rightarrow> Some s | None \<Rightarrow> ct_last_fired_at task)"
    using assms by (auto simp: accounted_def seed_last_seen_def Let_def split: option.splits)
  then show "task_base now task sc = cursor sc task"
    by (simp add: task_base_def cursor_def)
qed

lemma created_le_base: "ct_created_at task \<le> base_from task s"
  by (auto simp: base_from_def split: option.splits)

text \<open>What a tick does to the store for one task: nothing, its new cursor, or its removal.\<close>

lemma tick_task_store:
  assumes "accounted env clock sc m task" "clock \<le> now" "store_get (ct_id task) (cm_store m) = Some task"
    and "tick_task (me_cron env) (manager_host env) now task (sc, m) = (sc', m')" "manager_good lost m"
  shows "manager_good lost m'"
    and "i \<noteq> ct_id task \<Longrightarrow> store_get i (cm_store m') = store_get i (cm_store m)"
    and "set (cs_in_flight sc') \<subseteq> insert (ct_id task) (set (cs_in_flight sc))"
    and "store_get (ct_id task) (cm_store m') = Some task' \<Longrightarrow>
      (is_one_shot task \<longrightarrow> cs_last_seen sc' \<in> {cs_last_seen sc, cs_last_seen (seed_last_seen now task sc)} \<and>
        fired_ledger (cm_effects m') = fired_ledger (cm_effects m)) \<and>
      (case ct_last_fired_at task' of Some f \<Rightarrow> f \<le> now | None \<Rightarrow> True) \<and>
      (sc' = sc \<and> m' = m \<and> task' = task \<or>
       task' = task\<lparr>ct_last_fired_at := cs_last_seen sc' (ct_id task)\<rparr>)"
proof -
  let ?sc = "seed_last_seen now task sc"
  let ?b = "base_from task (cs_last_seen ?sc (ct_id task))"
  let ?fire = "\<lambda>e. fire_task (me_cron env) (manager_host env) now task e ?b (?sc, m)"
  have seen: "cs_last_seen ?sc (ct_id task) = ct_last_fired_at task"
    using assms(1) seeded_cursor(2) [OF assms(1,2)] by (auto simp: accounted_def split: option.splits)
  have bound: "case ct_last_fired_at task of Some f \<Rightarrow> f \<le> now | None \<Rightarrow> True"
    using assms(1,2) by (auto simp: accounted_def split: option.splits)
  have same: "task\<lparr>ct_last_fired_at := ct_last_fired_at task\<rparr> = task"
    by simp
  consider (none) "(sc', m') = (sc, m)" | (wait) "(sc', m') = (?sc, m)"
    | (fire) e ideal where "compute_next_run (cx_offset (me_cron env)) e ?b = Some ideal"
        "deliver_at (me_cron env) task e ideal \<le> of_int now" "?fire e = (sc', m')"
    using assms(4)
    by (auto simp: tick_task_def Let_def compute_jittered_next_def split: if_splits sum.splits option.splits)
  then have "manager_good lost m' \<and> (i \<noteq> ct_id task \<longrightarrow> store_get i (cm_store m') = store_get i (cm_store m)) \<and>
    set (cs_in_flight sc') \<subseteq> insert (ct_id task) (set (cs_in_flight sc)) \<and>
    (store_get (ct_id task) (cm_store m') = Some task' \<longrightarrow>
      (is_one_shot task \<longrightarrow> cs_last_seen sc' \<in> {cs_last_seen sc, cs_last_seen (seed_last_seen now task sc)} \<and>
        fired_ledger (cm_effects m') = fired_ledger (cm_effects m)) \<and>
      (case ct_last_fired_at task' of Some f \<Rightarrow> f \<le> now | None \<Rightarrow> True) \<and>
      (sc' = sc \<and> m' = m \<and> task' = task \<or> task' = task\<lparr>ct_last_fired_at := cs_last_seen sc' (ct_id task)\<rparr>))"
  proof cases
    case none
    then show ?thesis
      using assms(3,5) bound by auto
  next
    case wait
    then show ?thesis
      using assms(3,5) bound seen by auto
  next
    case fire
    obtain n d where count: "count_coalesced (me_cron env) task e now 1 ideal = (n, d)"
      by fastforce
    define k where "k = (if is_one_shot task then 1 else max 1 n)"
    obtain m1 returned where call: "handle_fire env task k m = (m1, returned)"
      by fastforce
    let ?flying = "?sc\<lparr>cs_in_flight := set_add (ct_id task) (cs_in_flight ?sc)\<rparr>"
    have run: "?fire e = (if \<not> returned then (?flying, m1)
        else if is_one_shot task
        then (?flying\<lparr>cs_last_seen := (cs_last_seen ?sc)(ct_id task := None),
            cs_seeded := removeAll (ct_id task) (cs_seeded ?sc)\<rparr>, snd (remove_tasks [ct_id task] m1))
        else (?flying\<lparr>cs_last_seen := (cs_last_seen ?sc)(ct_id task \<mapsto> d)\<rparr>, advance_cursor (ct_id task) d m1))"
    proof (cases "is_one_shot task")
      case True
      then show ?thesis
        using fire(1) call by (simp add: fire_task_def Let_def manager_host_def k_def)
    next
      case False
      then show ?thesis
        using fire(1) count call by (simp add: fire_task_def Let_def manager_host_def k_def)
    qed
    have good: "manager_good lost m1"
      using good_fire [OF assms(5), of env task k] call by simp
    have kept: "store_get j (cm_store m1) = store_get j (cm_store m)" if "\<not> returned \<or> j \<noteq> ct_id task" for j
      using fire_store [of j env task k m] call that by auto
    have gone: "store_get j (cm_store m1) = Some t \<Longrightarrow> store_get j (cm_store m) = Some t" for j t
      using fire_store [of j env task k m] call by (auto split: if_splits)
    have quiet: "\<not> returned \<longrightarrow> fired_ledger (cm_effects m1) = fired_ledger (cm_effects m)"
      using manager_fire_logs [of env task k m m1 returned] call by (simp add: manager_host_def)
    consider (threw) "\<not> returned" | (once) "returned" "is_one_shot task" | (again) "returned" "\<not> is_one_shot task"
      by blast
    then show ?thesis
    proof cases
      case threw
      then show ?thesis
        using run fire(3) good kept quiet seen bound same assms(3) by auto
    next
      case once
      then show ?thesis
        using run fire(3) good kept by (auto simp: good_remove store_get_delete)
    next
      case again
      have "(1 :: int) \<le> max_coalesce_iterations"
        by (simp add: max_coalesce_iterations_def)
      from count_coalesced_exact [OF again(2) count this fire(2)] recurring_delivery(1) [OF again(2), of d "me_cron env" e]
      have "of_int d \<le> (of_int now :: rat)"
        by linarith
      then have "d \<le> now"
        by simp
      moreover have "sc' = ?flying\<lparr>cs_last_seen := (cs_last_seen ?sc)(ct_id task \<mapsto> d)\<rparr>"
          "m' = advance_cursor (ct_id task) d m1"
        using run fire(3) again by simp_all
      moreover have "manager_good lost (advance_cursor (ct_id task) d m1)"
        by (rule good_advance [OF good])
      moreover have "store_get (ct_id task) (cm_store m1) \<in> {None, Some task}"
        using gone [of "ct_id task"] assms(3) by (cases "store_get (ct_id task) (cm_store m1)") auto
      moreover have "store_get j (cm_store m1) = store_get j (cm_store m)" if "j \<noteq> ct_id task" for j
        using kept that by blast
      ultimately show ?thesis
        using again(2) by (auto simp: advance_store)
    qed
  qed
  then show "manager_good lost m'" "i \<noteq> ct_id task \<Longrightarrow> store_get i (cm_store m') = store_get i (cm_store m)"
    "set (cs_in_flight sc') \<subseteq> insert (ct_id task) (set (cs_in_flight sc))"
    "store_get (ct_id task) (cm_store m') = Some task' \<Longrightarrow>
      (is_one_shot task \<longrightarrow> cs_last_seen sc' \<in> {cs_last_seen sc, cs_last_seen (seed_last_seen now task sc)} \<and>
        fired_ledger (cm_effects m') = fired_ledger (cm_effects m)) \<and>
      (case ct_last_fired_at task' of Some f \<Rightarrow> f \<le> now | None \<Rightarrow> True) \<and>
      (sc' = sc \<and> m' = m \<and> task' = task \<or> task' = task\<lparr>ct_last_fired_at := cs_last_seen sc' (ct_id task)\<rparr>)"
    by blast+
qed

lemma tick_task_accounted:
  assumes "accounted env clock sc m task" "clock \<le> now" "store_get (ct_id task) (cm_store m) = Some task"
    and "ct_id task \<notin> set (cs_in_flight sc)"
    and "tick_task (me_cron env) (manager_host env) now task (sc, m) = (sc', m')" "manager_good lost m"
    and "store_get (ct_id task) (cm_store m') = Some task'"
  shows "accounted env now sc' m' task'"
proof -
  note store = tick_task_store(4) [OF assms(1-3,5,6,7)]
  consider (same) "sc' = sc" "m' = m" "task' = task"
    | (moved) "task' = task\<lparr>ct_last_fired_at := cs_last_seen sc' (ct_id task)\<rparr>"
    using store by blast
  then show ?thesis
  proof cases
    case same
    then show ?thesis
      using assms(1,2) by (auto simp: accounted_def split: option.splits)
  next
    case moved
    have ids: "ct_id task' = ct_id task" "is_one_shot task' = is_one_shot task" "ct_cron task' = ct_cron task"
        "ct_created_at task' = ct_created_at task" "ct_last_fired_at task' = cs_last_seen sc' (ct_id task)"
      by (simp_all add: moved is_one_shot_def)
    have cursor: "cursor sc' task' = base_from task (cs_last_seen sc' (ct_id task))"
      by (simp add: cursor_def ids base_from_def split: option.splits)
    have books: "if is_one_shot task then told_total (ct_id task) m' = 0 \<and> ct_last_fired_at task' = None
        else case parse_cron_expression (ct_cron task) of Inl _ \<Rightarrow> True
          | Inr e \<Rightarrow> told_total (ct_id task) m' =
            int (card (fires_between (cx_offset (me_cron env)) e (ct_created_at task) (cursor sc' task')))"
    proof (cases "is_one_shot task")
      case True
      then have m': "fired_ledger (cm_effects m') = fired_ledger (cm_effects m)"
          "cs_last_seen sc' = cs_last_seen sc \<or> cs_last_seen sc' = cs_last_seen (seed_last_seen now task sc)"
        using store by blast+
      have "cs_last_seen sc (ct_id task) = None" "ct_last_fired_at task = None"
        using assms(1) True by (auto simp: accounted_def split: option.splits)
      then have "cs_last_seen sc' (ct_id task) = None"
        using m'(2) seeded_cursor(2) [OF assms(1,2)] by auto
      then show ?thesis
        using True assms(1) m'(1) ids by (auto simp: accounted_def told_total_def)
    next
      case False
      show ?thesis
      proof (cases "parse_cron_expression (ct_cron task)")
        case (Inr e)
        note step = told.tick_task_recurring [OF Inr False assms(4,5)]
        let ?off = "cx_offset (me_cron env)"
        have start: "task_base now task sc = cursor sc task"
          by (rule seeded_cursor(1) [OF assms(1,2)])
        have "told_total (ct_id task) m =
            int (card (fires_between ?off e (ct_created_at task) (cursor sc task)))"
          using assms(1) False Inr by (simp add: accounted_def)
        moreover have "ct_created_at task \<le> cursor sc task"
          by (simp add: cursor_def created_le_base)
        ultimately have "told_total (ct_id task) m' =
            int (card (fires_between ?off e (ct_created_at task) (cursor sc' task')))"
          using step(2,3) start cursor fires_between_split [of "ct_created_at task" "cursor sc task" "cursor sc' task'" ?off e]
          by (simp add: told_total_def)
        then show ?thesis
          using False Inr by simp
      qed (use False in simp)
    qed
    have "case ct_last_fired_at task' of Some f \<Rightarrow> f \<le> now | None \<Rightarrow> True"
      using store by blast
    then show ?thesis
      using books ids
      by (cases "parse_cron_expression (ct_cron task)") (auto simp: accounted_def split: option.splits)
  qed
qed

lemma accounted_other:
  assumes "accounted env clock sc m task" "clock \<le> now"
    and "cs_last_seen sc' (ct_id task) = cs_last_seen sc (ct_id task)"
    and "ct_id task \<in> set (cs_seeded sc') \<longleftrightarrow> ct_id task \<in> set (cs_seeded sc)"
    and "told_total (ct_id task) m' = told_total (ct_id task) m"
  shows "accounted env now sc' m' task"
proof -
  have "cursor sc' task = cursor sc task"
    by (simp add: cursor_def assms(3))
  then show ?thesis
    using assms
    by (cases "parse_cron_expression (ct_cron task)") (auto simp: accounted_def split: option.splits)
qed

lemma tick_task_books:
  assumes "books_kept lost env clock used (sc, m)" "clock \<le> now" "store_get (ct_id task) (cm_store m) = Some task"
    and "ct_id task \<notin> set (cs_in_flight sc)"
    and "tick_task (me_cron env) (manager_host env) now task (sc, m) = (sc', m')"
  shows "books_kept lost env now used (sc', m')"
proof -
  have good: "manager_good lost m" and acc: "accounted env clock sc m task"
    using assms(1,3) by (auto simp: books_kept_def)
  note step = tick_task_store [OF acc assms(2,3,5) good]
  note other = told.tick_task_other [OF _ assms(5)]
  have "accounted env now sc' m' t" if t: "store_get i (cm_store m') = Some t" for i t
  proof (cases "i = ct_id task")
    case True
    then show ?thesis
      using tick_task_accounted [OF acc assms(2-5) good] t by simp
  next
    case False
    then have "store_get i (cm_store m) = Some t" "ct_id t = i"
      using t step(2) store_get_Some by auto
    then show ?thesis
      using accounted_other [OF _ assms(2), of env sc m t sc' m'] other [of "ct_id t"] assms(1) False
      by (auto simp: books_kept_def told_total_def)
  qed
  moreover have "store_get i (cm_store m') = None \<and> cs_last_seen sc' i = None \<and> told_total i m' = 0"
    if "i \<notin> used" for i
  proof -
    have "i \<noteq> ct_id task"
      using assms(1,3) that by (auto simp: books_kept_def)
    then show ?thesis
      using assms(1) that step(2) other [of i] by (auto simp: books_kept_def told_total_def)
  qed
  ultimately show ?thesis
    using step(1) by (auto simp: books_kept_def)
qed

lemma tick_tasks_books:
  "books_kept lost env clock used (sc, m) \<Longrightarrow> clock \<le> now \<Longrightarrow> distinct (map ct_id tasks) \<Longrightarrow>
   \<forall>t \<in> set tasks. store_get (ct_id t) (cm_store m) = Some t \<Longrightarrow>
   \<forall>t \<in> set tasks. ct_id t \<notin> set (cs_in_flight sc) \<Longrightarrow>
   books_kept lost env now used (fold (tick_task (me_cron env) (manager_host env) now) tasks (sc, m))"
proof (induction tasks arbitrary: clock sc m)
  case Nil
  then show ?case
    using accounted_other by (fastforce simp: books_kept_def)
next
  case (Cons task tasks)
  obtain sc1 m1 where run: "tick_task (me_cron env) (manager_host env) now task (sc, m) = (sc1, m1)"
    by fastforce
  have here: "store_get (ct_id task) (cm_store m) = Some task" "ct_id task \<notin> set (cs_in_flight sc)"
    using Cons.prems(4,5) by simp_all
  have good: "manager_good lost m" and acc: "accounted env clock sc m task"
    using Cons.prems(1) here(1) by (auto simp: books_kept_def)
  note step = tick_task_store [OF acc Cons.prems(2) here(1) run good]
  have ids: "ct_id t \<noteq> ct_id task" if "t \<in> set tasks" for t
    using Cons.prems(3) that by (force simp: image_iff)
  have "books_kept lost env now used (fold (tick_task (me_cron env) (manager_host env) now) tasks (sc1, m1))"
  proof (rule Cons.IH [of now])
    show "books_kept lost env now used (sc1, m1)"
      by (rule tick_task_books [OF Cons.prems(1,2) here run])
    show "distinct (map ct_id tasks)"
      using Cons.prems(3) by simp
    show "\<forall>t \<in> set tasks. store_get (ct_id t) (cm_store m1) = Some t"
      using step(2) ids Cons.prems(4) by simp
    show "\<forall>t \<in> set tasks. ct_id t \<notin> set (cs_in_flight sc1)"
      using step(3) ids Cons.prems(5) by auto
  qed simp
  then show ?case
    using run by simp
qed

lemma manager_tick_books:
  assumes "books_kept lost env clock used (sc, m)" "clock \<le> now" "cs_in_flight sc = []"
  shows "books_kept lost env now used (manager_tick env killed idle now (sc, m)) \<and>
    cs_in_flight (fst (manager_tick env killed idle now (sc, m))) = []"
proof (cases "killed \<or> \<not> idle \<or> cm_store m = []")
  case True
  then have "manager_tick env killed idle now (sc, m) = (sc, m)"
    by (auto simp: manager_tick_def tick_def)
  then show ?thesis
    using assms tick_tasks_books [OF assms(1,2), of "[]"] by simp
next
  case False
  have good: "distinct (map ct_id (cm_store m))"
    using assms(1) by (simp add: books_kept_def manager_good_def)
  obtain sc1 m1 where run: "fold (tick_task (me_cron env) (manager_host env) now) (cm_store m) (sc, m) = (sc1, m1)"
    by fastforce
  have "books_kept lost env now used (sc1, m1)"
    using tick_tasks_books [OF assms(1,2) good] good assms(3) run store_get_member by simp
  moreover have "manager_tick env killed idle now (sc, m) = (sc1\<lparr>cs_in_flight := []\<rparr>, m1)"
    using False run by (simp add: manager_tick_def tick_def)
  moreover have "accounted env now (sc1\<lparr>cs_in_flight := []\<rparr>) m1 t" if "accounted env now sc1 m1 t" for t
    using that by (rule accounted_other) simp_all
  ultimately show ?thesis
    by (simp add: books_kept_def)
qed

lemma restart_books:
  assumes "books_kept False env clock used (sc, m)" "list_all id oks" "manager_restart oks (sc, m) = (sc', m')"
  shows "books_kept False env clock used (sc', m') \<and> cs_in_flight sc' = []"
proof -
  have good: "manager_good False m"
    using assms(1) by (simp add: books_kept_def)
  note r = restart_manager [OF good assms(2,3)]
  have "accounted env clock sc' m' t" if "store_get i (cm_store m') = Some t" for i t
  proof -
    have acc: "accounted env clock sc m t"
      using assms(1) that r(3) by (auto simp: books_kept_def)
    then have "cursor sc' t = cursor sc t"
      by (auto simp: cursor_def accounted_def r(1) cron_sched_init_def split: option.splits)
    then show ?thesis
      using acc
      by (cases "parse_cron_expression (ct_cron t)")
        (auto simp: accounted_def told_total_def r(1,4) cron_sched_init_def split: option.splits)
  qed
  then show ?thesis
    using assms(1) r by (auto simp: books_kept_def told_total_def cron_sched_init_def)
qed

subsection \<open>A tick catches up\<close>

lemma tick_tasks_untouched:
  "books_kept lost env clock used (sc, m) \<Longrightarrow> clock \<le> now \<Longrightarrow> distinct (map ct_id tasks) \<Longrightarrow>
   \<forall>t \<in> set tasks. store_get (ct_id t) (cm_store m) = Some t \<and> ct_id t \<notin> set (cs_in_flight sc) \<Longrightarrow>
   i \<notin> ct_id ` set tasks \<Longrightarrow>
   fold (tick_task (me_cron env) (manager_host env) now) tasks (sc, m) = (sc', m') \<Longrightarrow>
   store_get i (cm_store m') = store_get i (cm_store m) \<and> cs_last_seen sc' i = cs_last_seen sc i \<and>
   told_total i m' = told_total i m"
proof (induction tasks arbitrary: clock sc m)
  case (Cons task tasks)
  obtain sc1 m1 where run: "tick_task (me_cron env) (manager_host env) now task (sc, m) = (sc1, m1)"
    by fastforce
  have here: "store_get (ct_id task) (cm_store m) = Some task" "ct_id task \<notin> set (cs_in_flight sc)"
    using Cons.prems(4) by simp_all
  have good: "manager_good lost m" and acc: "accounted env clock sc m task"
    using Cons.prems(1) here(1) by (auto simp: books_kept_def)
  note step = tick_task_store [OF acc Cons.prems(2) here(1) run good]
  have ids: "ct_id t \<noteq> ct_id task" if "t \<in> set tasks" for t
    using Cons.prems(3) that by (force simp: image_iff)
  have i: "i \<noteq> ct_id task" "i \<notin> ct_id ` set tasks"
    using Cons.prems(5) by auto
  have "store_get i (cm_store m') = store_get i (cm_store m1) \<and> cs_last_seen sc' i = cs_last_seen sc1 i \<and>
      told_total i m' = told_total i m1"
  proof (rule Cons.IH [of now])
    show "books_kept lost env now used (sc1, m1)"
      by (rule tick_task_books [OF Cons.prems(1,2) here run])
    show "distinct (map ct_id tasks)"
      using Cons.prems(3) by simp
    show "\<forall>t \<in> set tasks. store_get (ct_id t) (cm_store m1) = Some t \<and> ct_id t \<notin> set (cs_in_flight sc1)"
      using step(2,3) ids Cons.prems(4) by auto
    show "fold (tick_task (me_cron env) (manager_host env) now) tasks (sc1, m1) = (sc', m')"
      using Cons.prems(6) run by simp
  qed (use i in simp_all)
  then show ?case
    using step(2) [OF i(1)] told.tick_task_other [OF i(1) run] by (simp add: told_total_def)
qed simp

text \<open>No call on the agent throws.\<close>

definition never_throws :: "manager_env \<Rightarrow> bool" where
  "never_throws env \<longleftrightarrow> (\<forall>x es. \<not> me_throws env x es)"

lemma fires_return: "never_throws env \<Longrightarrow> snd (handle_fire env task n m)"
  by (simp add: never_throws_def handle_fire_def Let_def)

lemma tick_task_catches_up:
  assumes "accounted env clock sc m task" "clock \<le> now" "store_get (ct_id task) (cm_store m) = Some task"
    and "ct_id task \<notin> set (cs_in_flight sc)"
    and "tick_task (me_cron env) (manager_host env) now task (sc, m) = (sc', m')" "manager_good lost m"
    and "store_get (ct_id task) (cm_store m') = Some task'"
    and "\<not> is_one_shot task'" "parse_cron_expression (ct_cron task') = Inr e"
    and "told_total (ct_id task) m' < told_total (ct_id task) m + max_coalesce_iterations"
    and "compute_jittered_next (me_cron env) task' e (cursor sc' task') = Some t" "never_throws env"
  shows "of_int now < t"
proof -
  from tick_task_store(4) [OF assms(1-3,5,6,7)] have "sc' = sc \<and> m' = m \<and> task' = task \<or>
      task' = task\<lparr>ct_last_fired_at := cs_last_seen sc' (ct_id task)\<rparr>"
    by blast
  then have task: "ct_cron task' = ct_cron task" "is_one_shot task' = is_one_shot task" "ct_id task' = ct_id task"
      "ct_created_at task' = ct_created_at task"
    by (auto simp: is_one_shot_def)
  have plain: "\<not> is_one_shot task" "parse_cron_expression (ct_cron task) = Inr e"
    using assms(8,9) task by simp_all
  note one = told.tick_task_recurring [OF plain(2,1) assms(4,5)]
  have deliver: "deliver_at (me_cron env) task' e = deliver_at (me_cron env) task e"
    using task by (auto simp: deliver_at_def)
  have acc: "accounted env now sc' m' task'"
    by (rule tick_task_accounted [OF assms(1-7)])
  have "cursor sc' task' = base_from task' (cs_last_seen sc' (ct_id task))"
    using acc one(1) task(3) by (auto simp: cursor_def accounted_def split: option.splits)
  then have cursor: "cursor sc' task' = base_from task (cs_last_seen sc' (ct_id task))"
    using task by (simp add: base_from_def split: option.split)
  have few: "int (card (fires_between (cx_offset (me_cron env)) e (task_base now task sc)
      (base_from task (cs_last_seen sc' (ct_id task))))) < max_coalesce_iterations"
    using one(3) assms(10) by (simp add: told_total_def)
  have "compute_jittered_next (me_cron env) task e (base_from task (cs_last_seen sc' (ct_id task))) = Some t"
    using assms(11) cursor deliver by (simp add: compute_jittered_next_def)
  then show ?thesis
    by (intro one(4) [OF _ few]) (simp_all add: manager_host_def fires_return assms(12))
qed

lemma tick_tasks_catch_up:
  "books_kept lost env clock used (sc, m) \<Longrightarrow> clock \<le> now \<Longrightarrow> distinct (map ct_id tasks) \<Longrightarrow>
   \<forall>t \<in> set tasks. store_get (ct_id t) (cm_store m) = Some t \<and> ct_id t \<notin> set (cs_in_flight sc) \<Longrightarrow>
   fold (tick_task (me_cron env) (manager_host env) now) tasks (sc, m) = (sc', m') \<Longrightarrow>
   store_get (ct_id task') (cm_store m') = Some task' \<Longrightarrow> ct_id task' \<in> ct_id ` set tasks \<Longrightarrow> \<not> is_one_shot task' \<Longrightarrow>
   parse_cron_expression (ct_cron task') = Inr e \<Longrightarrow>
   told_total (ct_id task') m' < told_total (ct_id task') m + max_coalesce_iterations \<Longrightarrow>
   compute_jittered_next (me_cron env) task' e (cursor sc' task') = Some t \<Longrightarrow> never_throws env \<Longrightarrow> of_int now < t"
proof (induction tasks arbitrary: clock sc m)
  case (Cons task tasks)
  obtain sc1 m1 where run: "tick_task (me_cron env) (manager_host env) now task (sc, m) = (sc1, m1)"
    by fastforce
  have rest: "fold (tick_task (me_cron env) (manager_host env) now) tasks (sc1, m1) = (sc', m')"
    using Cons.prems(5) run by simp
  have here: "store_get (ct_id task) (cm_store m) = Some task" "ct_id task \<notin> set (cs_in_flight sc)"
    using Cons.prems(4) by simp_all
  have good: "manager_good lost m" and acc: "accounted env clock sc m task"
    using Cons.prems(1) here(1) by (auto simp: books_kept_def)
  note step = tick_task_store [OF acc Cons.prems(2) here(1) run good]
  have ids: "ct_id u \<noteq> ct_id task" if "u \<in> set tasks" for u
    using Cons.prems(3) that by (force simp: image_iff)
  have books: "books_kept lost env now used (sc1, m1)"
    by (rule tick_task_books [OF Cons.prems(1,2) here run])
  have later: "distinct (map ct_id tasks)"
      "\<forall>u \<in> set tasks. store_get (ct_id u) (cm_store m1) = Some u \<and> ct_id u \<notin> set (cs_in_flight sc1)"
    using Cons.prems(3,4) step(2,3) ids by auto
  show ?case
  proof (cases "ct_id task' = ct_id task")
    case True
    then have "ct_id task' \<notin> ct_id ` set tasks"
      using ids by force
    note same = tick_tasks_untouched [OF books order.refl later this rest]
    have "cursor sc' task' = cursor sc1 task'"
      using same by (simp add: cursor_def)
    then show ?thesis
      using tick_task_catches_up [OF acc Cons.prems(2) here run good _ Cons.prems(8,9)] same Cons.prems(6,10-12) True
      by simp
  next
    case False
    have total: "told_total (ct_id task') m1 = told_total (ct_id task') m"
      using told.tick_task_other [OF False run] by (simp add: told_total_def)
    show ?thesis
    proof (rule Cons.IH [OF books order.refl later rest Cons.prems(6) _ Cons.prems(8,9) _ Cons.prems(11,12)])
      show "ct_id task' \<in> ct_id ` set tasks"
        using Cons.prems(7) False by auto
      show "told_total (ct_id task') m' < told_total (ct_id task') m1 + max_coalesce_iterations"
        using Cons.prems(10) total by simp
    qed
  qed
qed simp

end
