(* ===== verification/Cron_Tools.thy ===== *)
theory Cron_Tools
  imports Cron_Manager Permission_Rules Tool_Result
begin

text \<open>
  The tools of the model for cron tasks: \<open>tools/cron/cron-create.ts\<close>, \<open>cron-delete.ts\<close>, \<open>cron-list.ts\<close> and
  \<open>time-format.ts\<close>; and sessions, sequences of tool calls, ticks, settled writes and resumptions.
  The dash U+2014 and the ellipsis U+2026 of the messages are written \<open>-\<close> and \<open>...\<close>.
\<close>

subsection \<open>Time stamps\<close>

definition pad_left :: "nat \<Rightarrow> string \<Rightarrow> string" where
  "pad_left n s = replicate (n - length s) (CHR ''0'') @ s"

definition pad_number :: "int \<Rightarrow> string" where
  "pad_number n = pad_left 2 (int_to_string n)"

text \<open>\<open>new Date\<close> drops the fraction of its argument.\<close>

definition date_time :: "rat \<Rightarrow> int" where
  "date_time ms = (if ms < 0 then \<lceil>ms\<rceil> else \<lfloor>ms\<rfloor>)"

definition format_local_iso :: "int \<Rightarrow> rat \<Rightarrow> string" where
  "format_local_iso offset ms =
     (let t = date_time ms + offset;
          offset_min = offset div ms_per_minute;
          abs_offset = \<bar>offset_min\<bar>;
          zone = (if offset_min \<ge> 0 then ''+'' else ''-'') @ pad_number (abs_offset div 60) @ '':'' @ pad_number (abs_offset mod 60)
      in int_to_string (year_of_day (t div ms_per_day)) @ ''-'' @ pad_number (get_month t + 1) @ ''-'' @
         pad_number (get_date t) @ ''T'' @ pad_number (get_hours t) @ '':'' @ pad_number (get_minutes t) @ '':'' @
         pad_number (t div 1000 mod 60) @ ''.'' @ pad_left 3 (int_to_string (t mod 1000)) @ zone)"

subsection \<open>CronCreate\<close>

definition max_cron_jobs :: nat where
  "max_cron_jobs = 50"

definition max_prompt_bytes :: nat where
  "max_prompt_bytes = 8 * 1024"

definition one_shot_max_future_ms :: int where
  "one_shot_max_future_ms = 350 * 24 * 60 * 60 * 1000"

record create_args =
  ca_cron :: string
  ca_prompt :: string
  ca_recurring :: bool

text \<open>The bytes of a text in UTF-8.\<close>

definition utf8_char :: "char \<Rightarrow> nat list" where
  "utf8_char c = (let n = of_char c :: nat in if n < 128 then [n] else [192 + n div 64, 128 + n mod 64])"

definition utf8 :: "string \<Rightarrow> nat list" where
  "utf8 s = concat (map utf8_char s)"

definition text_result :: "bool \<Rightarrow> string \<Rightarrow> string option \<Rightarrow> tool_result" where
  "text_result failed out message =
     \<lparr>tr_output = OutText out, tr_is_error = Some failed, tr_stop_turn = None, tr_message = message, tr_truncated = None\<rparr>"

definition cap_reached :: tool_result where
  "cap_reached = text_result True
     (''Cron job cap reached (max '' @ nat_to_string max_cron_jobs @ '' per session).'') None"

definition normalize_cron :: "string \<Rightarrow> string" where
  "normalize_cron s = join_with '' '' (split_space (js_trim s))"

record cron_prepared =
  cp_cron :: string
  cp_prompt :: string
  cp_recurring :: bool
  cp_parsed :: cron_expr
  cp_description :: string
  cp_approval_rule :: string

definition create_resolve ::
  "cron_env \<Rightarrow> bool \<Rightarrow> create_args \<Rightarrow> int \<Rightarrow> nat \<Rightarrow> tool_result + cron_prepared" where
  "create_resolve env disabled args now live =
     (if disabled then Inl (text_result True ''Cron scheduling is disabled (KIMI_DISABLE_CRON=1).'' None)
      else let normalized = normalize_cron (ca_cron args) in
      case parse_cron_expression normalized of
        Inl message \<Rightarrow> Inl (text_result True (''Invalid cron expression: '' @ message) None)
      | Inr parsed \<Rightarrow>
          if \<not> has_fire_within_years (cx_offset env) parsed 5 now
          then Inl (text_result True (''Cron expression '' @ quote_string normalized @
                 '' has no fire within 5 years; refusing to schedule.'') None)
          else if live \<ge> max_cron_jobs then Inl cap_reached
          else if length (utf8 (ca_prompt args)) > max_prompt_bytes
          then Inl (text_result True (''Prompt exceeds '' @ nat_to_string max_prompt_bytes @ '' bytes (got '' @
                 nat_to_string (length (utf8 (ca_prompt args))) @ '').'') None)
          else case (if ca_recurring args then None else compute_next_run (cx_offset env) parsed now) of
            Some first_fire \<Rightarrow>
              if first_fire - now > one_shot_max_future_ms
              then Inl (text_result True (''One-shot cron '' @ quote_string normalized @ '' would not fire until '' @
                     format_local_iso (cx_offset env) (of_int first_fire) @ '' (more than a year out). If you meant '' @
                     dquoted ''today'' @ '' or a near date, the pinned day/month has already passed this year - '' @
                     ''pick a future date or use wildcards.'') None)
              else Inr \<lparr>cp_cron = normalized, cp_prompt = ca_prompt args, cp_recurring = ca_recurring args,
                cp_parsed = parsed, cp_description = ''Scheduling one-shot '' @ normalized,
                cp_approval_rule = literal_rule_pattern ''CronCreate'' (json_stringify (JObj
                  [(''cron'', JStr normalized), (''prompt'', JStr (ca_prompt args)), (''recurring'', JBool (ca_recurring args))]))\<rparr>
          | None \<Rightarrow> Inr \<lparr>cp_cron = normalized, cp_prompt = ca_prompt args, cp_recurring = ca_recurring args,
                cp_parsed = parsed,
                cp_description = (if ca_recurring args then ''Scheduling cron '' else ''Scheduling one-shot '') @ normalized,
                cp_approval_rule = literal_rule_pattern ''CronCreate'' (json_stringify (JObj
                  [(''cron'', JStr normalized), (''prompt'', JStr (ca_prompt args)), (''recurring'', JBool (ca_recurring args))]))\<rparr>)"

definition create_output :: "cron_env \<Rightarrow> cron_task \<Rightarrow> cron_prepared \<Rightarrow> rat option \<Rightarrow> string" where
  "create_output env task p next_fire =
     join_with [CHR 0x0A]
       [''id: '' @ ct_id task, ''cron: '' @ cp_cron p, ''humanSchedule: '' @ cron_to_human (cp_parsed p),
        ''recurring: '' @ bool_text (cp_recurring p),
        ''nextFireAt: '' @ (case next_fire of None \<Rightarrow> ''null'' | Some t \<Rightarrow> format_local_iso (cx_offset env) t)]"

text \<open>\<open>Inl\<close> is the error of the store when it finds no free identifier.\<close>

definition create_execute ::
  "cron_env \<Rightarrow> cron_prepared \<Rightarrow> string list \<Rightarrow> int \<Rightarrow> cron_manager \<Rightarrow> (string + tool_result) \<times> cron_manager" where
  "create_execute env p draws now m =
     (if length (cm_store m) \<ge> max_cron_jobs then (Inr cap_reached, m)
      else case add_task draws \<lparr>ci_cron = cp_cron p, ci_prompt = cp_prompt p, ci_recurring = Some (cp_recurring p)\<rparr> now m of
        Inl e \<Rightarrow> (Inl e, m)
      | Inr (task, m') \<Rightarrow>
          let next_fire = map_option (\<lambda>ideal.
                  if cp_recurring p then jittered_next env default_jitter (ct_id task) (cp_parsed p) ideal
                  else one_shot_jittered_next env default_jitter (ct_id task) (Some (ct_created_at task)) ideal)
                (compute_next_run (cx_offset env) (cp_parsed p) now)
          in (Inr (text_result False (create_output env task p next_fire) (Some (''Scheduled cron '' @ ct_id task))),
              emit_scheduled task m'))"

subsection \<open>CronDelete and CronList\<close>

definition delete_resolve :: "string \<Rightarrow> tool_result option" where
  "delete_resolve i =
     (if is_cron_id i then None
      else Some (text_result True (''Invalid cron job id '' @ quote_string i @
        '' - must be 8 lowercase hex characters.'') None))"

definition delete_execute :: "string \<Rightarrow> cron_manager \<Rightarrow> tool_result \<times> cron_manager" where
  "delete_execute i m =
     (let (removed, m') = remove_tasks [i] m in
      if removed = [] then (text_result True (''No cron job with id '' @ i @ ''.'') None, m')
      else (text_result False (''Deleted cron job '' @ i @ ''.'') None, emit_deleted i m'))"

definition prompt_preview_bytes :: nat where
  "prompt_preview_bytes = 200"

text \<open>The loop that walks back to the start of a character.\<close>

fun char_start :: "nat list \<Rightarrow> nat \<Rightarrow> nat" where
  "char_start bytes 0 = 0"
| "char_start bytes (Suc k) =
     (if 128 \<le> bytes ! Suc k \<and> bytes ! Suc k < 192 then char_start bytes k else Suc k)"

text \<open>Decoding of UTF-8 whose characters are below U+0100.\<close>

fun utf8_decode :: "nat list \<Rightarrow> string" where
  "utf8_decode [] = []"
| "utf8_decode [b] = [char_of b]"
| "utf8_decode (a # b # bs) =
     (if a < 128 then char_of a # utf8_decode (b # bs) else char_of ((a - 192) * 64 + (b - 128)) # utf8_decode bs)"

definition preview_prompt :: "string \<Rightarrow> string" where
  "preview_prompt prompt =
     (let buf = utf8 prompt in
      if length buf \<le> prompt_preview_bytes then prompt
      else utf8_decode (take (char_start buf prompt_preview_bytes) buf) @ ''...(truncated)'')"

definition to_fixed_two :: "rat \<Rightarrow> string" where
  "to_fixed_two x =
     (let n = \<lfloor>\<bar>x\<bar> * 100 + 1 / 2\<rfloor>
      in (if x < 0 then ''-'' else []) @ int_to_string (n div 100) @ ''.'' @ pad_number (n mod 100))"

definition render_record :: "manager_env \<Rightarrow> cron_sched \<Rightarrow> cron_manager \<Rightarrow> int \<Rightarrow> cron_task \<Rightarrow> string" where
  "render_record env sc m now task =
     (let parsed = parse_cron_expression (ct_cron task);
          human = (case parsed of Inl _ \<Rightarrow> ct_cron task | Inr e \<Rightarrow> cron_to_human e);
          next_fire = (case parsed of Inl _ \<Rightarrow> ''null''
            | Inr _ \<Rightarrow> (case get_next_fire_for_task (me_cron env) now sc (cm_store m) (ct_id task) of
                None \<Rightarrow> ''null'' | Some t \<Rightarrow> format_local_iso (cx_offset (me_cron env)) t))
      in join_with [CHR 0x0A]
        [''id: '' @ ct_id task, ''cron: '' @ ct_cron task, ''humanSchedule: '' @ human,
         ''prompt: '' @ quote_string (preview_prompt (ct_prompt task)), ''nextFireAt: '' @ next_fire,
         ''recurring: '' @ bool_text (\<not> is_one_shot task),
         ''ageDays: '' @ to_fixed_two (of_int (now - ct_created_at task) / of_int ms_per_day),
         ''stale: '' @ bool_text (is_stale env now task)])"

definition list_execute :: "manager_env \<Rightarrow> cron_sched \<Rightarrow> cron_manager \<Rightarrow> int \<Rightarrow> tool_result" where
  "list_execute env sc m now =
     (let header = ''cron_jobs: '' @ nat_to_string (length (cm_store m)) in
      if cm_store m = [] then text_result False (header @ [CHR 0x0A] @ ''No cron jobs scheduled.'') None
      else text_result False (header @ [CHR 0x0A] @
        join_with ([CHR 0x0A] @ ''---'' @ [CHR 0x0A]) (map (render_record env sc m now) (cm_store m))) None)"

subsection \<open>Sessions\<close>

text \<open>
  A call of \<open>CronCreate\<close> is prepared at one moment, when it saw some number of live tasks, and executed
  at another, after other operations. A write settles well or badly, and a session that is closed
  drains its queue with some outcome for each write before the next one reads the directory.
\<close>

datatype cron_op =
    Op_create create_args bool int nat "string list" int
  | Op_delete string
  | Op_tick bool bool int
  | Op_settle nat bool
  | Op_resume "bool list"

fun session_step :: "manager_env \<Rightarrow> cron_op \<Rightarrow> cron_sched \<times> cron_manager \<Rightarrow> cron_sched \<times> cron_manager" where
  "session_step env (Op_create args disabled prepared_at live draws now) (sc, m) =
     (case create_resolve (me_cron env) disabled args prepared_at live of
        Inl _ \<Rightarrow> (sc, m)
      | Inr p \<Rightarrow> (sc, snd (create_execute (me_cron env) p draws now m)))"
| "session_step env (Op_delete i) (sc, m) =
     (case delete_resolve i of Some _ \<Rightarrow> (sc, m) | None \<Rightarrow> (sc, snd (delete_execute i m)))"
| "session_step env (Op_tick killed idle now) st = manager_tick env killed idle now st"
| "session_step env (Op_settle k ok) (sc, m) = (sc, settle_job k ok m)"
| "session_step env (Op_resume oks) st = manager_restart oks st"

definition session_start :: "cron_sched \<times> cron_manager" where
  "session_start =
     (cron_sched_init, \<lparr>cm_store = [], cm_jobs = [], cm_disk = [], cm_persist = True, cm_effects = []\<rparr>)"

definition session_run :: "manager_env \<Rightarrow> cron_op list \<Rightarrow> cron_sched \<times> cron_manager" where
  "session_run env ops = fold (session_step env) ops session_start"

text \<open>The clock of the ticks does not run backwards; \<open>last_tick\<close> is its last reading.\<close>

fun ticks_ordered :: "int \<Rightarrow> cron_op list \<Rightarrow> bool" where
  "ticks_ordered clock [] = True"
| "ticks_ordered clock (Op_tick killed idle now # ops) = (clock \<le> now \<and> ticks_ordered now ops)"
| "ticks_ordered clock (x # ops) = ticks_ordered clock ops"

fun last_tick :: "int \<Rightarrow> cron_op list \<Rightarrow> int" where
  "last_tick clock [] = clock"
| "last_tick clock (Op_tick killed idle now # ops) = last_tick now ops"
| "last_tick clock (x # ops) = last_tick clock ops"

text \<open>
  No session is resumed after a write of it has failed; \<open>lost\<close> says that one has. Writes may fail where no
  resumption follows.
\<close>

fun lost_after :: "bool \<Rightarrow> cron_op \<Rightarrow> bool" where
  "lost_after lost (Op_settle k ok) = (lost \<or> \<not> ok)"
| "lost_after lost (Op_resume oks) = False"
| "lost_after lost x = lost"

fun resumes_safe :: "bool \<Rightarrow> cron_op list \<Rightarrow> bool" where
  "resumes_safe lost [] = True"
| "resumes_safe lost (x # ops) =
     ((case x of Op_resume oks \<Rightarrow> \<not> lost \<and> list_all id oks | _ \<Rightarrow> True) \<and> resumes_safe (lost_after lost x) ops)"

definition lost_by :: "cron_op list \<Rightarrow> bool" where
  "lost_by ops = foldl lost_after False ops"

fun drawn_ids :: "cron_op \<Rightarrow> string list" where
  "drawn_ids (Op_create args disabled prepared_at live draws now) = draws"
| "drawn_ids x = []"

subsection \<open>Sessions keep the books\<close>

lemma generate_unique_id_Inr:
  "generate_unique_id draws ts = Inr i \<Longrightarrow> i \<in> set draws \<and> is_cron_id i \<and> store_get i ts = None"
  by (auto simp: generate_unique_id_def find_Some_iff split: option.splits dest: in_set_takeD [OF nth_mem])

lemma add_task_Inr:
  assumes "add_task draws init now m = Inr (task, m')"
  shows "ct_id task \<in> set draws" "is_cron_id (ct_id task)" "store_get (ct_id task) (cm_store m) = None"
    "task = \<lparr>ct_id = ct_id task, ct_cron = ci_cron init, ct_prompt = ci_prompt init, ct_created_at = now,
       ct_recurring = ci_recurring init, ct_last_fired_at = None\<rparr>"
    "m' = persist_enqueue [Write_file task] (m\<lparr>cm_store := store_put task (cm_store m)\<rparr>)"
  using assms generate_unique_id_Inr [of draws "cm_store m"]
  by (auto simp: add_task_def store_add_def Let_def split: sum.splits)

lemma create_execute_cases:
  obtains (kept) "snd (create_execute env p draws now m) = m"
  | (added) task m' where "length (cm_store m) < max_cron_jobs"
      "add_task draws \<lparr>ci_cron = cp_cron p, ci_prompt = cp_prompt p, ci_recurring = Some (cp_recurring p)\<rparr> now m =
        Inr (task, m')" "snd (create_execute env p draws now m) = emit_scheduled task m'"
proof (cases "length (cm_store m) < max_cron_jobs")
  case False
  then show ?thesis
    by (intro kept) (simp add: create_execute_def)
next
  case True
  show ?thesis
  proof (cases "add_task draws \<lparr>ci_cron = cp_cron p, ci_prompt = cp_prompt p, ci_recurring = Some (cp_recurring p)\<rparr> now m")
    case (Inl e)
    then show ?thesis
      using True by (intro kept) (simp add: create_execute_def)
  next
    case (Inr r)
    then show ?thesis
      using True by (cases r) (auto intro: added simp: create_execute_def Let_def)
  qed
qed

lemma enqueue_simps [simp]:
  "cm_store (persist_enqueue js m) = cm_store m" "cm_effects (persist_enqueue js m) = cm_effects m"
  by (simp_all add: persist_enqueue_def)

lemma told_total_quiet:
  "fired_ledger (cm_effects m') = fired_ledger (cm_effects m) \<Longrightarrow> told_total i m' = told_total i m"
  by (simp add: told_total_def)

lemma fired_ledger_quiet [simp]: "fired_ledger [Track_scheduled b] = []" "fired_ledger [Track_deleted i] = []"
  by (simp_all add: fired_ledger_def)

lemma create_books:
  assumes "books_kept lost env clock used (sc, m)" "used \<inter> set draws = {}"
  shows "books_kept lost env clock (used \<union> set draws) (sc, snd (create_execute (me_cron env) p draws now m))"
proof (cases rule: create_execute_cases [of "me_cron env" p draws now m])
  case kept
  then show ?thesis
    using assms(1) by (simp add: books_kept_def)
next
  case (added task m')
  note new = add_task_Inr [OF added(2)]
  let ?m = "emit_scheduled task m'"
  have good: "manager_good lost ?m"
    using assms(1) new good_put [of lost m task] by (simp add: emit_scheduled_def books_kept_def)
  have quiet: "told_total i ?m = told_total i m" for i
    by (rule told_total_quiet) (simp add: emit_scheduled_def new(5))
  have get: "store_get i (cm_store ?m) = (if i = ct_id task then Some task else store_get i (cm_store m))" for i
    by (simp add: emit_scheduled_def new(5) store_get_put)
  have "accounted env clock sc ?m t" if "store_get i (cm_store ?m) = Some t" for i t
  proof (cases "i = ct_id task")
    case True
    then have t: "t = task"
      using that get by simp
    have "ct_id task \<notin> used"
      using assms(2) new(1) by blast
    then have "cs_last_seen sc (ct_id task) = None" "told_total (ct_id task) ?m = 0"
      using assms(1) quiet by (simp_all add: books_kept_def)
    moreover have "ct_last_fired_at task = None"
      by (subst new(4)) simp
    ultimately show ?thesis
      unfolding t by (auto simp: accounted_def cursor_def base_from_def split: sum.splits)
  next
    case False
    then have "accounted env clock sc m t"
      using that get assms(1) by (auto simp: books_kept_def)
    then show ?thesis
      by (rule accounted_other) (simp_all add: quiet)
  qed
  moreover have "store_get i (cm_store ?m) = None \<and> cs_last_seen sc i = None \<and> told_total i ?m = 0"
    if "i \<notin> used \<union> set draws" for i
    using that assms(1) new(1) get quiet by (auto simp: books_kept_def)
  ultimately show ?thesis
    using good added(3) by (simp add: books_kept_def)
qed

lemma shrink_books:
  assumes "books_kept lost env clock used (sc, m)" "manager_good lost' m'" "\<And>i. told_total i m' = told_total i m"
    and "\<And>i t. store_get i (cm_store m') = Some t \<Longrightarrow> store_get i (cm_store m) = Some t"
  shows "books_kept lost' env clock used (sc, m')"
proof -
  have "accounted env clock sc m' t" if "store_get i (cm_store m') = Some t" for i t
  proof -
    have "accounted env clock sc m t"
      using assms(1) assms(4) [OF that] by (auto simp: books_kept_def)
    then show ?thesis
      by (rule accounted_other) (simp_all add: assms(3))
  qed
  moreover have "store_get i (cm_store m') = None" if "i \<notin> used" for i
    using assms(1) assms(4) [of i] that by (cases "store_get i (cm_store m')") (auto simp: books_kept_def)
  ultimately show ?thesis
    using assms(1-3) by (simp add: books_kept_def)
qed

lemma delete_execute_manager:
  "snd (delete_execute i m) = snd (remove_tasks [i] m) \<or> snd (delete_execute i m) = emit_deleted i (snd (remove_tasks [i] m))"
  by (auto simp: delete_execute_def split_beta Let_def)

lemma delete_simps:
  "manager_good lost m \<Longrightarrow> manager_good lost (snd (delete_execute i m))"
  "cm_store (snd (delete_execute i m)) = store_delete i (cm_store m)"
  "fired_ledger (cm_effects (snd (delete_execute i m))) = fired_ledger (cm_effects m)"
  using delete_execute_manager [of i m] good_remove [of lost m "[i]"] by (auto simp: emit_deleted_def)

lemma delete_books:
  assumes "books_kept lost env clock used (sc, m)"
  shows "books_kept lost env clock used (sc, snd (delete_execute i m))"
proof (rule shrink_books [OF assms])
  show "manager_good lost (snd (delete_execute i m))"
    using assms delete_simps(1) by (simp add: books_kept_def)
  show "told_total j (snd (delete_execute i m)) = told_total j m" for j
    by (rule told_total_quiet) (rule delete_simps(3))
  show "store_get j (cm_store (snd (delete_execute i m))) = Some t \<Longrightarrow> store_get j (cm_store m) = Some t" for j t
    by (simp add: delete_simps(2) store_get_delete split: if_splits)
qed

lemma settle_simps [simp]:
  "cm_store (settle_job k ok m) = cm_store m" "cm_effects (settle_job k ok m) = cm_effects m"
  by (simp_all add: settle_job_def)

lemma settle_books:
  "books_kept lost env clock used (sc, m) \<Longrightarrow> books_kept (lost \<or> \<not> ok) env clock used (sc, settle_job k ok m)"
  by (rule shrink_books [where lost = lost]) (simp_all add: books_kept_def good_settle told_total_def)

lemma books_mono: "books_kept lost env clock used st \<Longrightarrow> used \<subseteq> used' \<Longrightarrow> books_kept lost env clock used' st"
  by (auto simp: books_kept_def)

lemma step_books:
  assumes "books_kept lost env clock used (sc, m)" "cs_in_flight sc = []" "ticks_ordered clock [x]"
    and "used \<inter> set (drawn_ids x) = {}" "resumes_safe lost [x]"
  shows "books_kept (lost_after lost x) env (last_tick clock [x]) (used \<union> set (drawn_ids x)) (session_step env x (sc, m)) \<and>
    cs_in_flight (fst (session_step env x (sc, m))) = []"
proof (cases x)
  case (Op_create args disabled prepared_at live draws now)
  have "books_kept lost env clock (used \<union> set draws) (sc, m)"
    using assms(1) by (rule books_mono) simp
  then show ?thesis
    using Op_create assms create_books [OF assms(1), of draws] by (auto split: sum.splits)
next
  case (Op_delete i)
  then show ?thesis
    using assms delete_books [OF assms(1)] by (auto split: option.splits)
next
  case (Op_tick killed idle now)
  then show ?thesis
    using manager_tick_books [OF assms(1) _ assms(2)] assms(3) by simp
next
  case (Op_settle k ok)
  then show ?thesis
    using assms settle_books [OF assms(1), of ok k] by simp
next
  case (Op_resume oks)
  then have "books_kept False env clock used (sc, m)" "list_all id oks"
    using assms(1,5) by simp_all
  then show ?thesis
    using restart_books [of env clock used sc m oks] Op_resume by (cases "manager_restart oks (sc, m)") simp
qed

lemma ticks_ordered_Cons: "ticks_ordered clock (x # ops) \<longleftrightarrow> ticks_ordered clock [x] \<and> ticks_ordered (last_tick clock [x]) ops"
  by (cases x) simp_all

lemma last_tick_Cons: "last_tick clock (x # ops) = last_tick (last_tick clock [x]) ops"
  by (cases x) simp_all

lemma run_books:
  "books_kept lost env clock used st \<Longrightarrow> cs_in_flight (fst st) = [] \<Longrightarrow> ticks_ordered clock ops \<Longrightarrow>
   distinct (concat (map drawn_ids ops)) \<Longrightarrow> used \<inter> set (concat (map drawn_ids ops)) = {} \<Longrightarrow>
   resumes_safe lost ops \<Longrightarrow>
   books_kept (foldl lost_after lost ops) env (last_tick clock ops) (used \<union> set (concat (map drawn_ids ops))) (fold (session_step env) ops st) \<and>
   cs_in_flight (fst (fold (session_step env) ops st)) = []"
proof (induction ops arbitrary: lost clock used st)
  case (Cons x ops)
  obtain sc m where st: "st = (sc, m)"
    by fastforce
  have order: "ticks_ordered clock [x]" "ticks_ordered (last_tick clock [x]) ops"
    using Cons.prems(3) ticks_ordered_Cons by blast+
  have fresh: "used \<inter> set (drawn_ids x) = {}"
      "(used \<union> set (drawn_ids x)) \<inter> set (concat (map drawn_ids ops)) = {}" "distinct (concat (map drawn_ids ops))"
    using Cons.prems(4,5) by auto
  have safe: "resumes_safe lost [x]" "resumes_safe (lost_after lost x) ops"
    using Cons.prems(6) by simp_all
  have "books_kept (lost_after lost x) env (last_tick clock [x]) (used \<union> set (drawn_ids x)) (session_step env x st)"
      "cs_in_flight (fst (session_step env x st)) = []"
    using step_books [of lost env clock used sc m x] Cons.prems(1,2) order(1) fresh(1) safe(1) by (simp_all add: st)
  from Cons.IH [OF this order(2) fresh(3,2) safe(2)] show ?case
    by (simp add: last_tick_Cons [of clock x ops] Un_assoc)
qed simp

lemma session_books:
  assumes "ticks_ordered clock ops" "distinct (concat (map drawn_ids ops))" "resumes_safe False ops"
    and "session_run env ops = (sc, m)"
  shows "books_kept (lost_by ops) env (last_tick clock ops) (set (concat (map drawn_ids ops))) (sc, m)" "cs_in_flight sc = []"
proof -
  have "books_kept False env clock {} session_start"
    by (simp add: books_kept_def session_start_def manager_good_def disk_follows_def well_filed_def
        cron_sched_init_def told_total_def fired_ledger_def)
  moreover have "cs_in_flight (fst session_start) = []"
    by (simp add: session_start_def cron_sched_init_def)
  ultimately show "books_kept (lost_by ops) env (last_tick clock ops) (set (concat (map drawn_ids ops))) (sc, m)"
      "cs_in_flight sc = []"
    using run_books [of False env clock "{}" session_start ops] assms by (simp_all add: session_run_def lost_by_def)
qed

lemma books_task:
  assumes "books_kept lost env clock used (sc, m)" "task \<in> set (cm_store m)"
  shows "store_get (ct_id task) (cm_store m) = Some task" "accounted env clock sc m task"
proof -
  show "store_get (ct_id task) (cm_store m) = Some task"
    using assms by (auto simp: books_kept_def manager_good_def intro: store_get_member)
  then show "accounted env clock sc m task"
    using assms(1) by (auto simp: books_kept_def)
qed

lemma resumes_safe_snoc:
  "resumes_safe lost (ops @ [Op_resume oks]) \<longleftrightarrow> resumes_safe lost ops \<and> \<not> foldl lost_after lost ops \<and> list_all id oks"
  by (induction ops arbitrary: lost) auto

text \<open>
  C34: take a session whose clock is never set back, also not between its resumptions, and that is never
  resumed after a write of it has failed. However it goes (tasks created and deleted under fresh
  identifiers, ticks while idle or busy, fires that throw before they steer the agent and are tried
  again, writes settled in any order of identifiers, the session closed and resumed any number of
  times), what the agent was steered with for a recurring task adds up: the counts of its fires sum to
  the number of ideal times between its creation and its cursor. No fire is counted twice, none before
  the cursor is forgotten.
\<close>

theorem every_fire_counted_once:
  assumes "ticks_ordered clock ops" "distinct (concat (map drawn_ids ops))" "resumes_safe False ops"
    and "session_run env ops = (sc, m)"
    and "task \<in> set (cm_store m)" "\<not> is_one_shot task" "parse_cron_expression (ct_cron task) = Inr e"
  shows "delivered_total (ct_id task) (fired_ledger (cm_effects m)) =
      int (card {u \<in> fires (cx_offset (me_cron env)) e. ct_created_at task < u \<and> u \<le> cursor sc task}) \<and>
    (cursor sc task = ct_created_at task \<or> cursor sc task \<le> last_tick clock ops)"
proof -
  have acc: "accounted env (last_tick clock ops) sc m task"
    by (rule books_task(2) [OF session_books(1) [OF assms(1-4)] assms(5)])
  then have "cursor sc task = ct_created_at task \<or> cursor sc task \<le> last_tick clock ops"
    by (auto simp: accounted_def cursor_def base_from_def split: option.splits if_splits)
  then show ?thesis
    using acc assms(6,7) by (simp add: accounted_def told_total_def fires_between_def)
qed

text \<open>
  C35: an idle tick leaves nothing behind: afterwards every ideal time whose delivery was due lies at or
  before the cursor of its task, so it has been counted. The exception is a task whose count reached the
  cap in this very tick: its remaining times stay due for the next one. The session is one whose clock is
  never set back and that is never resumed after a failed write, the calls on the agent do not throw,
  and the expression still has a next time within the search window.
\<close>

theorem tick_delivers_all_due:
  assumes "ticks_ordered clock ops" "distinct (concat (map drawn_ids ops))" "session_run env ops = (sc, m)"
    and "resumes_safe False ops" "never_throws env"
    and "last_tick clock ops \<le> now" "manager_tick env False True now (sc, m) = (sc', m')"
    and "task \<in> set (cm_store m')" "\<not> is_one_shot task" "parse_cron_expression (ct_cron task) = Inr e"
    and "told_total (ct_id task) m' < told_total (ct_id task) m + max_coalesce_iterations"
    and "compute_next_run (cx_offset (me_cron env)) e (cursor sc' task) = Some n"
    and "u \<in> fires (cx_offset (me_cron env)) e" "deliver_at (me_cron env) task e u \<le> of_int now"
  shows "u \<le> cursor sc' task"
proof (rule ccontr)
  assume late: "\<not> u \<le> cursor sc' task"
  note books = session_books(1) [OF assms(1,2,4,3)]
  have idle: "cs_in_flight sc = []"
    by (rule session_books(2) [OF assms(1,2,4,3)])
  have books': "books_kept (lost_by ops) env now (set (concat (map drawn_ids ops))) (sc', m')"
    using manager_tick_books [OF books assms(6) idle, of False True] assms(7) by simp
  have nonempty: "cm_store m \<noteq> []"
    using assms(7,8) by (auto simp: manager_tick_def tick_def)
  have ids: "distinct (map ct_id (cm_store m))"
    "\<forall>t \<in> set (cm_store m). store_get (ct_id t) (cm_store m) = Some t \<and> ct_id t \<notin> set (cs_in_flight sc)"
    using books idle by (auto simp: books_kept_def manager_good_def intro: store_get_member)
  obtain sc1 m1 where run1: "fold (tick_task (me_cron env) (manager_host env) now) (cm_store m) (sc, m) = (sc1, m1)"
    by fastforce
  then have tick: "sc' = sc1\<lparr>cs_in_flight := []\<rparr>" "m1 = m'"
    using assms(7) nonempty by (simp_all add: manager_tick_def tick_def)
  then have cursor: "cursor sc' task = cursor sc1 task"
    by (simp add: cursor_def)
  note run = run1 [unfolded tick(2)]
  have get: "store_get (ct_id task) (cm_store m') = Some task"
    by (rule books_task(1) [OF books' assms(8)])
  have known: "ct_id task \<in> ct_id ` set (cm_store m)"
  proof (rule ccontr)
    assume unknown: "ct_id task \<notin> ct_id ` set (cm_store m)"
    have "store_get (ct_id task) (cm_store m') = store_get (ct_id task) (cm_store m)"
      using tick_tasks_untouched [OF books assms(6) ids unknown run] by blast
    moreover have "store_get (ct_id task) (cm_store m) = None"
      using unknown by (simp only: store_get_None) simp
    ultimately show False
      using get by simp
  qed
  have "compute_jittered_next (me_cron env) task e (cursor sc1 task) = Some (deliver_at (me_cron env) task e n)"
    using assms(12) cursor by (simp add: compute_jittered_next_def)
  from tick_tasks_catch_up [OF books assms(6) ids run get known assms(9,10,11) this assms(5)]
  have due: "of_int now < deliver_at (me_cron env) task e n" .
  have "n \<le> u"
    using next_run_Some(4) [OF assms(12), of u] late assms(13) by (force simp: fires_def)
  then have "deliver_at (me_cron env) task e n \<le> deliver_at (me_cron env) task e u"
  proof (cases "n = u")
    case False
    then have "deliver_at (me_cron env) task e n < of_int u"
      using recurring_delivery(2) [OF assms(9,13), of n] \<open>n \<le> u\<close> by simp
    then show ?thesis
      using recurring_delivery(1) [OF assms(9), of u "me_cron env" e] by linarith
  qed simp
  then show False
    using due assms(14) by simp
qed

text \<open>
  C37: a session whose clock is never set back and none of whose writes since the last resumption fail,
  those drained at its end included, has after it is closed and resumed the tasks it had, and reports
  the same next fire for each: nothing is replayed, nothing is skipped.
\<close>

theorem resume_keeps_schedule:
  assumes "ticks_ordered clock ops" "distinct (concat (map drawn_ids ops))" "resumes_safe False (ops @ [Op_resume oks])"
    and "session_run env ops = (sc, m)" "manager_restart oks (sc, m) = (sc', m')" "last_tick clock ops \<le> now"
  shows "store_get i (cm_store m') = store_get i (cm_store m) \<and>
    (\<forall>task. store_get i (cm_store m) = Some task \<longrightarrow>
       next_fire_for (me_cron env) now sc' task = next_fire_for (me_cron env) now sc task)"
proof -
  have safe: "resumes_safe False ops" "\<not> lost_by ops" "list_all id oks"
    using resumes_safe_snoc assms(3) by (simp_all add: lost_by_def)
  note books = session_books(1) [OF assms(1,2) safe(1) assms(4)]
  have good: "manager_good False m"
    using books safe(2) by (simp add: books_kept_def)
  note r = restart_manager [OF good safe(3) assms(5)]
  have "next_fire_for (me_cron env) now sc' task = next_fire_for (me_cron env) now sc task"
    if "store_get i (cm_store m) = Some task" for task
  proof -
    have acc: "accounted env (last_tick clock ops) sc m task"
      using books that by (auto simp: books_kept_def)
    then have "(case cs_last_seen sc (ct_id task) of Some s \<Rightarrow> Some s
        | None \<Rightarrow> (case ct_last_fired_at task of Some f \<Rightarrow> if f \<le> now then Some f else None | None \<Rightarrow> None)) =
      (case ct_last_fired_at task of Some f \<Rightarrow> if f \<le> now then Some f else None | None \<Rightarrow> None)"
      using assms(6) by (auto simp: accounted_def split: option.splits)
    then show ?thesis
      by (simp add: next_fire_for_def r(1) cron_sched_init_def split: sum.split)
  qed
  then show ?thesis
    using r(3) by simp
qed

subsection \<open>What CronCreate admits\<close>

text \<open>
  CronCreate admits only what can run: when it does not refuse, the expression parses, fires within
  the window of the scheduler, the prompt is within its bytes, and a reminder comes within 350 days.
\<close>

theorem create_admits:
  assumes "create_resolve env disabled args now live = Inr p"
  shows "\<not> disabled \<and> live < max_cron_jobs \<and> length (utf8 (cp_prompt p)) \<le> max_prompt_bytes \<and>
    cp_prompt p = ca_prompt args \<and> cp_recurring p = ca_recurring args \<and> cp_cron p = normalize_cron (ca_cron args) \<and>
    parse_cron_expression (cp_cron p) = Inr (cp_parsed p) \<and>
    (\<exists>r. compute_next_run (cx_offset env) (cp_parsed p) now = Some r \<and> now < r \<and>
       (cp_recurring p \<or> r \<le> now + one_shot_max_future_ms))"
proof -
  have window: "has_fire_within_years (cx_offset env) e 5 now \<longleftrightarrow> compute_next_run (cx_offset env) e now \<noteq> None" for e
    by (simp add: has_fire_within_years_def compute_next_run_def search_minutes_def)
  obtain e where e: "parse_cron_expression (normalize_cron (ca_cron args)) = Inr e"
    using assms by (auto simp: create_resolve_def Let_def split: if_splits sum.splits)
  obtain r where r: "compute_next_run (cx_offset env) e now = Some r"
    using assms e by (cases "compute_next_run (cx_offset env) e now") (simp_all add: create_resolve_def Let_def window split: if_splits)
  note late = next_run_Some(1) [OF r]
  show ?thesis
  proof (cases "ca_recurring args")
    case True
    then show ?thesis
      using assms e r late by (simp add: create_resolve_def Let_def window split: if_splits) auto
  next
    case False
    then show ?thesis
      using assms e r late by (simp add: create_resolve_def Let_def window split: if_splits) auto
  qed
qed

lemma store_delete_length: "length (store_delete i ts) \<le> length ts"
  by (simp add: store_delete_def)

lemma advance_length: "length (cm_store (advance_cursor i t m)) = length (cm_store m)"
  using store_get_Some [of i "cm_store m"]
  by (auto simp: advance_cursor_def mark_fired_def persist_enqueue_def store_put_def Let_def split: option.splits)

lemma fire_length: "length (cm_store (fst (handle_fire env task n m))) \<le> length (cm_store m)"
  using store_delete_length by (cases rule: handle_fire_cases [of env task n m]) (simp_all add: emit_deleted_def)

lemma store_length:
  assumes "distinct (map ct_id ts)" "distinct (map ct_id us)" "\<And>i. store_get i ts = store_get i us"
  shows "length ts = length us"
proof -
  have "i \<in> ct_id ` set ts \<longleftrightarrow> i \<in> ct_id ` set us" for i
    using assms(3) [of i] store_get_None [of i ts] store_get_None [of i us] by (simp only:) blast
  then have "set (map ct_id ts) = set (map ct_id us)"
    by auto
  then show ?thesis
    using distinct_card [OF assms(1)] distinct_card [OF assms(2)] by simp
qed

definition within_cap :: "bool \<Rightarrow> cron_manager \<Rightarrow> bool" where
  "within_cap lost m \<longleftrightarrow> manager_good lost m \<and> length (cm_store m) \<le> max_cron_jobs"

lemma step_within_cap:
  assumes room: "within_cap lost (snd st)" and safe: "resumes_safe lost [x]"
  shows "within_cap (lost_after lost x) (snd (session_step env x st))"
proof -
  obtain sc m where st: "st = (sc, m)"
    by fastforce
  show "within_cap (lost_after lost x) (snd (session_step env x st))"
  proof (cases x)
    case (Op_create args disabled prepared_at live draws now)
    have "within_cap lost (snd (create_execute (me_cron env) p draws now m))" for p
    proof (cases rule: create_execute_cases [of "me_cron env" p draws now m])
      case kept
      then show ?thesis
        using room by (simp add: st)
    next
      case (added task m')
      note new = add_task_Inr [OF added(2)]
      have "length (store_put task (cm_store m)) \<le> max_cron_jobs"
        using added(1) new(3) by (simp add: store_put_def)
      then show ?thesis
        using room good_put [of lost m task] new(2) added(3) by (simp add: st within_cap_def emit_scheduled_def new(5))
    qed
    then show ?thesis
      using Op_create room by (auto simp: st split: sum.splits)
  next
    case (Op_delete i)
    then show ?thesis
      using room delete_simps store_delete_length [of i "cm_store m"]
      by (auto simp: st within_cap_def split: option.splits)
  next
    case (Op_tick killed idle now)
    have "within_cap lost (snd (manager_tick env killed idle now st))"
      unfolding manager_tick_def
    proof (rule tick_preserves)
      show "within_cap lost w \<Longrightarrow> within_cap lost (fst (ch_fire (manager_host env) task n w))" for task n w
        using fire_length [of env task n w] by (simp add: manager_host_def within_cap_def good_fire)
      show "within_cap lost w \<Longrightarrow> within_cap lost (ch_remove (manager_host env) i w)" for i w
        using store_delete_length [of i "cm_store w"] by (simp add: manager_host_def within_cap_def good_remove)
      show "within_cap lost w \<Longrightarrow> within_cap lost (ch_advance (manager_host env) i t w)" for i t w
        by (simp add: manager_host_def within_cap_def good_advance advance_length)
    qed (rule room)
    then show ?thesis
      using Op_tick by simp
  next
    case (Op_settle k ok)
    then show ?thesis
      using room good_settle by (simp add: st within_cap_def)
  next
    case (Op_resume oks)
    obtain sc' m' where r: "manager_restart oks (sc, m) = (sc', m')"
      by fastforce
    have good: "manager_good False m" and written: "list_all id oks"
      using room safe Op_resume by (simp_all add: st within_cap_def)
    note again = restart_manager [OF good written r]
    have "length (cm_store m') = length (cm_store m)"
      using good again(2,3) by (intro store_length) (simp_all add: manager_good_def)
    then show ?thesis
      using Op_resume room r again(2) by (simp add: st within_cap_def)
  qed
qed

text \<open>
  No session that is not resumed after a failed write ever has more than fifty cron tasks, although
  calls of CronCreate that were prepared together may all have seen room. (After a failed removal the
  next session finds the task again.)
\<close>

theorem cron_jobs_capped:
  assumes "resumes_safe False ops"
  shows "length (cm_store (snd (session_run env ops))) \<le> max_cron_jobs"
proof -
  have "within_cap (foldl lost_after lost ops) (snd (fold (session_step env) ops st))"
    if "within_cap lost (snd st)" "resumes_safe lost ops" for lost st
    using that by (induction ops arbitrary: lost st) (simp_all add: step_within_cap)
  moreover have "within_cap False (snd session_start)"
    by (simp add: within_cap_def session_start_def manager_good_def disk_follows_def well_filed_def)
  ultimately have "within_cap (foldl lost_after False ops) (snd (session_run env ops))"
    using assms by (simp add: session_run_def)
  then show ?thesis
    by (simp add: within_cap_def)
qed

subsection \<open>A session\<close>

definition demo_env :: manager_env where
  "demo_env = \<lparr>me_cron = \<lparr>cx_offset = 0, cx_no_jitter = False\<rparr>, me_clock = (\<lambda>_. 400000), me_buffered = (\<lambda>_. False),
     me_throws = (\<lambda>_ _. False),
     me_no_stale = False\<rparr>"

definition demo_args :: create_args where
  "demo_args = \<lparr>ca_cron = ''* * * * *'', ca_prompt = ''look'', ca_recurring = True\<rparr>"

definition demo_ops :: "cron_op list" where
  "demo_ops = [Op_create demo_args False 0 0 [''00000001''] 0, Op_tick False True 200000]"

lemma demo_ordered: "ticks_ordered 0 demo_ops" "last_tick 0 demo_ops = 200000" "distinct (concat (map drawn_ids demo_ops))"
    "resumes_safe False demo_ops" "never_throws demo_env"
  by (simp_all add: demo_ops_def demo_env_def never_throws_def)

definition demo_checked :: "cron_sched \<times> cron_manager \<Rightarrow> bool" where
  "demo_checked st =
     (case cm_store (snd st) of
        [t] \<Rightarrow> \<not> is_one_shot t \<and>
          (case parse_cron_expression (ct_cron t) of
             Inl _ \<Rightarrow> False
           | Inr e \<Rightarrow> ct_id t = ''00000001'' \<and> 0 \<le> told_total ''00000001'' (snd st) \<and>
               told_total ''00000001'' (snd st) < 9 \<and> compute_next_run 0 e (cursor (fst st) t) \<noteq> None \<and>
               ms_per_minute dvd 60000 + 0 \<and> cron_matches e (60000 + 0) \<and>
               deliver_at (me_cron demo_env) t e 60000 \<le> of_int 400000)
      | _ \<Rightarrow> False)"

lemma demo_checked_task:
  "demo_checked (sc, m) \<Longrightarrow>
   \<exists>t e n. t \<in> set (cm_store m) \<and> \<not> is_one_shot t \<and> parse_cron_expression (ct_cron t) = Inr e \<and>
     ct_id t = ''00000001'' \<and> 0 \<le> told_total ''00000001'' m \<and> told_total ''00000001'' m < 9 \<and>
     compute_next_run 0 e (cursor sc t) = Some n \<and> 60000 \<in> fires 0 e \<and>
     deliver_at (me_cron demo_env) t e 60000 \<le> of_int 400000"
  by (auto simp: demo_checked_def fires_def split: list.splits sum.splits)

lemma demo_run: "demo_checked (session_run demo_env demo_ops)"
  by code_simp

lemma demo_tick: "demo_checked (manager_tick demo_env False True 400000 (session_run demo_env demo_ops))"
  by code_simp

lemma every_fire_counted_once_witness:
  "\<exists>sc m task e. session_run demo_env demo_ops = (sc, m) \<and> task \<in> set (cm_store m) \<and>
     delivered_total (ct_id task) (fired_ledger (cm_effects m)) =
       int (card {u \<in> fires (cx_offset (me_cron demo_env)) e. ct_created_at task < u \<and> u \<le> cursor sc task})"
proof -
  obtain sc m where run: "session_run demo_env demo_ops = (sc, m)"
    by fastforce
  have "demo_checked (sc, m)"
    using demo_run run by simp
  then obtain t e where t: "t \<in> set (cm_store m)" "\<not> is_one_shot t" "parse_cron_expression (ct_cron t) = Inr e"
    using demo_checked_task by blast
  show ?thesis
    using every_fire_counted_once [OF demo_ordered(1,3,4) run t] run t(1) by blast
qed

lemma tick_delivers_all_due_witness:
  "\<exists>task \<in> set (cm_store (snd (manager_tick demo_env False True 400000 (session_run demo_env demo_ops)))).
     60000 \<le> cursor (fst (manager_tick demo_env False True 400000 (session_run demo_env demo_ops))) task"
proof -
  obtain sc m where run: "session_run demo_env demo_ops = (sc, m)"
    by fastforce
  obtain sc' m' where tick: "manager_tick demo_env False True 400000 (sc, m) = (sc', m')"
    by fastforce
  have "demo_checked (sc, m)" "demo_checked (sc', m')"
    using demo_run demo_tick run tick by simp_all
  then obtain t e n where t: "t \<in> set (cm_store m')" "\<not> is_one_shot t" "parse_cron_expression (ct_cron t) = Inr e"
      "ct_id t = ''00000001''" "told_total ''00000001'' m' < 9" "0 \<le> told_total ''00000001'' m"
      "compute_next_run 0 e (cursor sc' t) = Some n" "60000 \<in> fires 0 e"
      "deliver_at (me_cron demo_env) t e 60000 \<le> of_int 400000"
    using demo_checked_task by blast
  have offset: "cx_offset (me_cron demo_env) = 0"
    by (simp add: demo_env_def)
  have "told_total (ct_id t) m' < told_total (ct_id t) m + max_coalesce_iterations"
    using t(4-6) by (simp add: max_coalesce_iterations_def)
  from tick_delivers_all_due [OF demo_ordered(1,3) run demo_ordered(4,5) _ tick t(1-3) this, of n 60000]
  have "60000 \<le> cursor sc' t"
    using t(7-9) demo_ordered(2) by (simp add: offset)
  then show ?thesis
    using t(1) run tick by auto
qed

lemma resume_keeps_schedule_witness:
  "\<forall>i. store_get i (cm_store (snd (manager_restart [] (session_run demo_env demo_ops)))) =
     store_get i (cm_store (snd (session_run demo_env demo_ops)))"
proof
  fix i
  obtain sc m where run: "session_run demo_env demo_ops = (sc, m)"
    by fastforce
  obtain sc' m' where again: "manager_restart [] (sc, m) = (sc', m')"
    by fastforce
  show "store_get i (cm_store (snd (manager_restart [] (session_run demo_env demo_ops)))) =
     store_get i (cm_store (snd (session_run demo_env demo_ops)))"
    using resume_keeps_schedule [OF demo_ordered(1,3) _ run again, of 200000 i] demo_ordered(2) run again
    by (simp add: demo_ops_def)
qed

text \<open>
  Both conditions of C34 are needed. If the write of the cursor fails before a resumption, or the clock is
  set back across one, fires that were delivered (three of them, \<open>demo_told\<close>) are delivered again.
\<close>

lemma demo_told: "told_total ''00000001'' (snd (session_run demo_env demo_ops)) = 3"
  by code_simp

theorem failed_cursor_write_repeats_fires:
  "told_total ''00000001'' (snd (session_run demo_env
     (demo_ops @ [Op_settle 0 True, Op_settle 0 False, Op_resume [], Op_tick False True 200000]))) = 6"
  by code_simp

theorem clock_set_back_repeats_fires:
  "told_total ''00000001'' (snd (session_run demo_env (demo_ops @ [Op_resume [], Op_tick False True 130000]))) = 5"
  by code_simp

lemma demo_create: "case create_resolve (me_cron demo_env) False demo_args 0 0 of Inl _ \<Rightarrow> False | Inr _ \<Rightarrow> True"
  by code_simp

lemma create_admits_witness:
  "\<exists>p r. create_resolve (me_cron demo_env) False demo_args 0 0 = Inr p \<and>
     compute_next_run (cx_offset (me_cron demo_env)) (cp_parsed p) 0 = Some r \<and> 0 < r"
proof -
  obtain p where p: "create_resolve (me_cron demo_env) False demo_args 0 0 = Inr p"
    using demo_create by (cases "create_resolve (me_cron demo_env) False demo_args 0 0") auto
  then show ?thesis
    using create_admits [OF p] by blast
qed

end
