(* ===== verification/Turn_Flow.thy ===== *)
theory Turn_Flow
  imports Goal_Mode Compaction
begin

text \<open>
  The flow of turns (\<open>agent/turn/index.ts\<close>, with the hook texts of \<open>session/hooks/user-prompt.ts\<close>): one
  turn from its prompt to its end, the step loop that starts again after a compaction, and the driver
  that runs turns for an active goal. A run of the loop (\<open>Turn_Loop\<close>) with its hooks is an argument,
  a function of the world that gives a new world; so are the answers of prompt hooks, the wait for a
  compaction and the signal. Telemetry is left out.
\<close>

subsection \<open>Values\<close>

record kimi_payload =
  kp_code :: string
  kp_message :: string
  kp_name :: "string option"
  kp_turn :: "int option"

datatype end_reason = End_Completed | End_Cancelled | End_Failed kimi_payload | End_Filtered

record turn_end =
  te_turn :: int
  te_end :: end_reason
  te_stop :: "turn_stop option"
  te_blocked :: bool

record hook_result =
  hk_blocks :: bool
  hk_message :: "string option"
  hk_reason :: "string option"
  hk_stdout :: "string option"
  hk_exit_code :: "int option"
  hk_timed_out :: bool

datatype flow_event =
    Turn_Started int prompt_origin
  | Said_By_User "content_part list" prompt_origin
  | Said_By_Hook string
  | Hook_Shown int string bool
  | Stop_Failure_Hook string string
  | Interrupt_Hook int
  | Turn_Ended int end_reason
  | Swarm_Exited
  | Error_Shown kimi_payload
  | Outcome_Recorded bool
  | Body_Event string

record flow_world =
  fw_goal :: "goal option"
  fw_now :: int
  fw_turn_id :: int
  fw_compaction :: compaction_state
  fw_swarm_exits :: bool
  fw_log :: "flow_event list"

text \<open>
  What the flow asks its surroundings; what is read at different moments depends on the world then.
  The preparation of a turn, a run of the loop and the wait for a compaction are promises of other
  components: \<open>None\<close> is one that never settles.
\<close>

record flow_env =
  fv_hook :: "flow_world \<Rightarrow> loop_error + hook_result list option"
  fv_signal :: "flow_world \<Rightarrow> bool"
  fv_reason :: loop_error
  fv_user_cancels :: bool
  fv_prepare :: "flow_world \<Rightarrow> (flow_world \<times> loop_error option) option"
  fv_run :: "flow_world \<Rightarrow> (flow_world \<times> (loop_error + turn_stop)) option"
  fv_overflows :: "loop_error \<Rightarrow> bool"
  fv_history :: "flow_world \<Rightarrow> context_message list"
  fv_config :: compaction_config
  fv_window :: int
  fv_wait :: "flow_world \<Rightarrow> (flow_world \<times> loop_error option) option"
  fv_compaction_error :: "compaction_error \<Rightarrow> loop_error"
  fv_payload :: "loop_error \<Rightarrow> kimi_payload"
  fv_max_continuations :: "int option"
  fv_goal_context :: "flow_world \<Rightarrow> string option"

definition log_events :: "flow_event list \<Rightarrow> flow_world \<Rightarrow> flow_world" where
  "log_events evs w = w\<lparr>fw_log := fw_log w @ evs\<rparr>"

subsection \<open>Prompt hooks\<close>

definition nonempty_text :: "string option \<Rightarrow> string option" where
  "nonempty_text v = (case v of None \<Rightarrow> None | Some s \<Rightarrow> let t = js_trim s in if t = [] then None else Some t)"

definition render_hook_result :: "string \<Rightarrow> string \<Rightarrow> string" where
  "render_hook_result event message =
     ''<hook_result hook_event=\"'' @ event @ ''\">'' @ newline @ message @ newline @ ''</hook_result>''"

definition prompt_hook_message :: "hook_result \<Rightarrow> string option" where
  "prompt_hook_message r =
     (if hk_timed_out r \<or> (hk_exit_code r \<noteq> None \<and> hk_exit_code r \<noteq> Some 0) then None
      else case nonempty_text (hk_message r) of Some m \<Rightarrow> Some m | None \<Rightarrow> nonempty_text (hk_stdout r))"

text \<open>The shown message and the text for the model.\<close>

definition prompt_hook_result :: "hook_result list option \<Rightarrow> (string \<times> string) option" where
  "prompt_hook_result results =
     (let messages = List.map_filter prompt_hook_message (filter (\<lambda>r. \<not> hk_blocks r) (opt_or results []))
      in if messages = [] then None
         else Some (join_with (newline @ newline) messages,
           join_with newline (map (render_hook_result ''UserPromptSubmit'') messages)))"

definition prompt_hook_block :: "hook_result list option \<Rightarrow> (string \<times> string) option" where
  "prompt_hook_block results =
     map_option (\<lambda>r. let message = (case nonempty_text (hk_message r) of Some m \<Rightarrow> m
         | None \<Rightarrow> opt_or (nonempty_text (hk_reason r)) ''Blocked by UserPromptSubmit hook'')
       in (message, render_hook_result ''UserPromptSubmit'' message))
       (List.find hk_blocks (opt_or results []))"

definition apply_prompt_hook ::
  "flow_env \<Rightarrow> int \<Rightarrow> prompt_origin \<Rightarrow> flow_world \<Rightarrow> flow_world \<times> (loop_error + bool)" where
  "apply_prompt_hook env turn_id origin w =
     (if origin \<noteq> Origin_User then (w, Inr False)
      else if fv_signal env w then (w, Inl (fv_reason env))
      else case fv_hook env w of
        Inl e \<Rightarrow> (w, Inl e)
      | Inr results \<Rightarrow>
          if fv_signal env w then (w, Inl (fv_reason env))
          else case prompt_hook_block results of
            Some (message, text) \<Rightarrow> (log_events [Said_By_Hook text, Hook_Shown turn_id message True] w, Inr True)
          | None \<Rightarrow>
              (case prompt_hook_result results of
                 None \<Rightarrow> (w, Inr False)
               | Some (message, text) \<Rightarrow>
                   (log_events [Said_By_User [TextPart text] (Origin_Hook_Result ''UserPromptSubmit''),
                      Hook_Shown turn_id message False] w, Inr False)))"

subsection \<open>Errors\<close>

definition llm_not_set_message :: string where
  "llm_not_set_message = ''LLM not set, send \"/login\" to login''"

definition summarize_turn_error :: "kimi_payload \<Rightarrow> int \<Rightarrow> kimi_payload" where
  "summarize_turn_error payload turn_id =
     (if kp_code payload = ''model.not_configured''
      then payload\<lparr>kp_message := llm_not_set_message, kp_turn := Some turn_id\<rparr>
      else payload\<lparr>kp_turn := Some turn_id\<rparr>)"

definition reason_with_message :: "string \<Rightarrow> string \<Rightarrow> string" where
  "reason_with_message pre message = (if message = [] then pre else pre @ '': '' @ message)"

definition goal_failure_reason :: "kimi_payload \<Rightarrow> string" where
  "goal_failure_reason p =
     (if kp_code p = ''provider.rate_limit'' then ''Paused after provider rate limit''
      else if kp_code p = ''provider.connection_error''
      then reason_with_message ''Paused after provider connection error'' (kp_message p)
      else if kp_code p = ''provider.auth_error''
      then reason_with_message ''Paused after provider authentication error'' (kp_message p)
      else if kp_code p = ''provider.api_error''
      then reason_with_message ''Paused after provider API error'' (kp_message p)
      else if kp_code p = ''model.not_configured'' \<or> kp_code p = ''model.config_invalid''
      then reason_with_message ''Paused after model configuration error'' (kp_message p)
      else reason_with_message ''Paused after runtime error'' (kp_message p))"

subsection \<open>The step loop\<close>

text \<open>
  A run that fails because the context is too long is repeated after a compaction: \<open>handleOverflowError\<close>
  throws, or waits for the compaction it has begun or found.
\<close>

definition handle_overflow ::
  "flow_env \<Rightarrow> loop_error \<Rightarrow> flow_world \<Rightarrow> (flow_world \<times> loop_error option) option" where
  "handle_overflow env e w =
     (case handle_overflow_error (fv_config env) (fv_window env) False (fv_history env w) (fw_compaction w) of
        ((fc, _), Inl None) \<Rightarrow> Some (w\<lparr>fw_compaction := fc\<rparr>, Some e)
      | ((fc, _), Inl (Some ce)) \<Rightarrow> Some (w\<lparr>fw_compaction := fc\<rparr>, Some (fv_compaction_error env ce))
      | ((fc, _), Inr waits) \<Rightarrow>
          (let w1 = w\<lparr>fw_compaction := fc\<rparr> in if waits then fv_wait env w1 else Some (w1, None)))"

partial_function (option) step_attempts ::
  "flow_env \<Rightarrow> flow_world \<Rightarrow> (flow_world \<times> (loop_error + turn_stop)) option" where
  "step_attempts env w =
     (if fv_signal env w then Some (w, Inl (fv_reason env))
      else case fv_run env w of
        None \<Rightarrow> None
      | Some (w1, Inr stop) \<Rightarrow> Some (w1, Inr stop)
      | Some (w1, Inl e) \<Rightarrow>
          if fv_overflows env e
          then (case handle_overflow env e w1 of
              None \<Rightarrow> None
            | Some (w2, Some e') \<Rightarrow> Some (w2, Inl e')
            | Some (w2, None) \<Rightarrow> step_attempts env w2)
          else Some (w1, Inl e))"

definition run_step_loop :: "flow_env \<Rightarrow> flow_world \<Rightarrow> (flow_world \<times> (loop_error + turn_stop)) option" where
  "run_step_loop env w =
     (case fv_prepare env w of
        None \<Rightarrow> None
      | Some (w1, Some e) \<Rightarrow> Some (w1, Inl e)
      | Some (w1, None) \<Rightarrow> step_attempts env w1)"

subsection \<open>One turn\<close>

definition stop_end :: "turn_stop \<Rightarrow> end_reason" where
  "stop_end stop = (if stop = Turn_Aborted then End_Cancelled else if stop = Stopped Filtered then End_Filtered else End_Completed)"

text \<open>The end of a turn: what is emitted, in the order of the code.\<close>

definition end_turn ::
  "flow_env \<Rightarrow> int \<Rightarrow> end_reason \<Rightarrow> turn_stop option \<Rightarrow> bool \<Rightarrow> flow_world \<Rightarrow> flow_world \<times> turn_end" where
  "end_turn env turn_id reason stop blocked w =
     (log_events
       ((case reason of End_Failed p \<Rightarrow> [Stop_Failure_Hook (opt_or (kp_name p) []) (kp_message p)] | _ \<Rightarrow> []) @
        (if reason = End_Cancelled \<and> fv_user_cancels env then [Interrupt_Hook turn_id] else []) @
        [Turn_Ended turn_id reason] @
        (if fw_swarm_exits w then [Swarm_Exited] else []) @
        (case reason of End_Failed p \<Rightarrow> [Error_Shown p] | _ \<Rightarrow> []) @
        (case reason of End_Completed \<Rightarrow> [Outcome_Recorded True] | End_Failed p \<Rightarrow> [Outcome_Recorded False] | _ \<Rightarrow> []))
       (w\<lparr>fw_swarm_exits := False\<rparr>),
      \<lparr>te_turn = turn_id, te_end = reason, te_stop = stop, te_blocked = blocked\<rparr>)"

definition error_end :: "flow_env \<Rightarrow> int \<Rightarrow> loop_error \<Rightarrow> end_reason" where
  "error_end env turn_id e =
     (if is_abort_error e then End_Cancelled else End_Failed (summarize_turn_error (fv_payload env e) turn_id))"

definition begin_turn :: "int \<Rightarrow> content_part list \<Rightarrow> prompt_origin \<Rightarrow> flow_world \<Rightarrow> flow_world" where
  "begin_turn turn_id input origin w =
     log_events [Turn_Started turn_id origin, Said_By_User input origin]
       (w\<lparr>fw_compaction := reset_for_turn (fw_compaction w)\<rparr>)"

definition run_one_turn ::
  "flow_env \<Rightarrow> int \<Rightarrow> content_part list \<Rightarrow> prompt_origin \<Rightarrow> flow_world \<Rightarrow> (flow_world \<times> turn_end) option" where
  "run_one_turn env turn_id input origin w =
     (case apply_prompt_hook env turn_id origin (begin_turn turn_id input origin w) of
        (w1, Inl e) \<Rightarrow> Some (end_turn env turn_id (error_end env turn_id e) None False w1)
      | (w1, Inr True) \<Rightarrow> Some (end_turn env turn_id End_Completed None True w1)
      | (w1, Inr False) \<Rightarrow>
          (case run_step_loop env w1 of
             None \<Rightarrow> None
           | Some (w2, Inl e) \<Rightarrow> Some (end_turn env turn_id (error_end env turn_id e) None False w2)
           | Some (w2, Inr stop) \<Rightarrow> Some (end_turn env turn_id (stop_end stop) (Some stop) False w2)))"

subsection \<open>Driving a goal\<close>

definition continuation_origin :: prompt_origin where
  "continuation_origin = Origin_System_Trigger ''goal_continuation''"

definition continuation_prompt :: string where
  "continuation_prompt = join_with '' ''
     [''Continue working toward the active goal.'',
      ''Keep the self-audit brief. Do not explore unrelated interpretations once the goal can be'',
      ''decided. If the objective is simple, already answered, impossible, unsafe, or contradictory,'',
      ''do not run another goal turn. Explain briefly if useful, then call UpdateGoal with `complete`'',
      ''or `blocked` in the same turn. Otherwise, weigh the objective and any completion criteria'',
      ''against the work done so far. Goal mode is iterative: do one coherent slice of work, then'',
      ''reassess. Call UpdateGoal with `complete` only when all required work is done, any stated'',
      ''validation has passed, and there is no useful next action. Do not mark complete after only'',
      ''producing a plan, summary, first pass, or partial result. If an external condition or required'',
      ''user input prevents progress, or the objective cannot be completed as stated, call UpdateGoal'',
      ''with `blocked`. Otherwise keep going - use the existing conversation context and your tools,'',
      ''and do not ask the user for input unless a real blocker prevents progress.'']"

definition goal_active :: "flow_world \<Rightarrow> bool" where
  "goal_active w \<longleftrightarrow> map_option sn_status (get_goal (fw_now w) (fw_goal w)) = Some Goal_Active"

definition goal_over_budget :: "flow_world \<Rightarrow> bool" where
  "goal_over_budget w \<longleftrightarrow>
     (case get_goal (fw_now w) (fw_goal w) of None \<Rightarrow> False | Some s \<Rightarrow> br_over (sn_budget s))"

definition with_goal :: "'a goal_out \<Rightarrow> flow_world \<Rightarrow> flow_world" where
  "with_goal out w = w\<lparr>fw_goal := fst (snd out)\<rparr>"

definition block_goal :: "string \<Rightarrow> flow_world \<Rightarrow> flow_world" where
  "block_goal reason w = with_goal (mark_blocked (fw_now w) (Some reason) Actor_Runtime (fw_goal w)) w"

definition allocate_turn_id :: "flow_world \<Rightarrow> int \<times> flow_world" where
  "allocate_turn_id w = (fw_turn_id w + 1, w\<lparr>fw_turn_id := fw_turn_id w + 1\<rparr>)"

definition end_without_model ::
  "int \<Rightarrow> content_part list \<Rightarrow> prompt_origin \<Rightarrow> flow_world \<Rightarrow> flow_world \<times> turn_end" where
  "end_without_model turn_id input origin w =
     (log_events [Turn_Started turn_id origin, Said_By_User input origin, Turn_Ended turn_id End_Completed] w,
      \<lparr>te_turn = turn_id, te_end = End_Completed, te_stop = None, te_blocked = False\<rparr>)"

text \<open>What the driver does after a turn: the world and whether another turn follows.\<close>

definition after_goal_turn :: "flow_env \<Rightarrow> int \<Rightarrow> turn_end \<Rightarrow> flow_world \<Rightarrow> flow_world \<times> bool" where
  "after_goal_turn env continuations ended w =
     (case te_end ended of
        End_Cancelled \<Rightarrow> (with_goal (pause_on_interrupt (fw_now w) (Some ''Paused after interruption'') (fw_goal w)) w, False)
      | End_Failed p \<Rightarrow>
          (with_goal (pause_active_goal (fw_now w) (Some (goal_failure_reason p)) Actor_Runtime (fw_goal w)) w, False)
      | End_Filtered \<Rightarrow>
          (with_goal (pause_active_goal (fw_now w) (Some ''Paused after provider safety policy block'') Actor_Runtime (fw_goal w)) w, False)
      | End_Completed \<Rightarrow>
          if te_blocked ended then (block_goal ''Blocked by UserPromptSubmit hook'' w, False)
          else if \<not> goal_active w then (w, False)
          else if goal_over_budget w then (block_goal ''A configured budget was reached'' w, False)
          else case fv_max_continuations env of
            None \<Rightarrow> (w, True)
          | Some k \<Rightarrow>
              if k > 0 \<and> continuations + 1 \<ge> k
              then (block_goal (''Reached max continuation turns ('' @ nat_to_string (nat k) @ '')'') w, False)
              else (w, True))"

definition continuation_input :: "flow_env \<Rightarrow> flow_world \<Rightarrow> content_part list" where
  "continuation_input env w =
     [TextPart (case fv_goal_context env w of
        Some c \<Rightarrow> if c = [] then continuation_prompt else continuation_prompt @ newline @ newline @ c
      | None \<Rightarrow> continuation_prompt)]"

partial_function (option) drive_goal ::
  "flow_env \<Rightarrow> int \<Rightarrow> int \<Rightarrow> content_part list \<Rightarrow> prompt_origin \<Rightarrow> flow_world \<Rightarrow> (flow_world \<times> turn_end) option" where
  "drive_goal env continuations turn_id input origin w =
     (if goal_active w \<and> goal_over_budget w
      then Some (end_without_model turn_id input origin (block_goal ''A configured budget was reached'' w))
      else case run_one_turn env turn_id input origin (with_goal (increment_turn (fw_now w) (fw_goal w)) w) of
        None \<Rightarrow> None
      | Some (w1, ended) \<Rightarrow>
          (let (w2, again) = after_goal_turn env continuations ended w1 in
             if \<not> again then Some (w2, ended)
             else
               drive_goal env (continuations + 1) (fst (allocate_turn_id w2))
                 (continuation_input env (snd (allocate_turn_id w2))) continuation_origin (snd (allocate_turn_id w2))))"

text \<open>The body of a launch: the goal driver when a goal is active, before or after an ordinary turn.\<close>

definition turn_worker ::
  "flow_env \<Rightarrow> int \<Rightarrow> content_part list \<Rightarrow> prompt_origin \<Rightarrow> flow_world \<Rightarrow> (flow_world \<times> turn_end) option" where
  "turn_worker env turn_id input origin w =
     (if goal_active w then drive_goal env 0 turn_id input origin w
      else case run_one_turn env turn_id input origin w of
        None \<Rightarrow> None
      | Some (w1, ended) \<Rightarrow>
          if goal_active w1 \<and> te_end ended = End_Completed
          then drive_goal env 0 (fst (allocate_turn_id w1)) [TextPart continuation_prompt] continuation_origin
            (snd (allocate_turn_id w1))
          else Some (w1, ended))"

subsection \<open>A drive leaves no goal active\<close>

lemma goal_active_iff: "goal_active w \<longleftrightarrow> (\<exists>g. fw_goal w = Some g \<and> gs_status g = Goal_Active)"
  by (cases "fw_goal w") (auto simp: goal_active_def get_goal_def to_snapshot_def)

lemma not_active_blocked: "\<not> goal_active (block_goal reason w)"
  by (auto simp: goal_active_iff block_goal_def with_goal_def mark_blocked_def apply_status_def Let_def split: option.splits if_splits)

lemma not_active_paused: "\<not> goal_active (with_goal (pause_active_goal now reason actor (fw_goal w)) w)"
  by (auto simp: goal_active_iff with_goal_def pause_active_goal_def pause_now_def apply_status_def Let_def
      split: option.splits if_splits)

lemma after_goal_turn_stops:
  "after_goal_turn env n ended w = (w', False) \<Longrightarrow> \<not> goal_active w'"
  by (auto simp: after_goal_turn_def not_active_blocked not_active_paused pause_on_interrupt_def
      split: end_reason.splits if_splits option.splits)

lemma after_goal_turn_goes_on:
  assumes "after_goal_turn env n ended w = (w', True)"
  shows "w' = w" "goal_active w" "\<not> goal_over_budget w"
    "fv_max_continuations env = Some k \<Longrightarrow> 0 < k \<Longrightarrow> n + 1 < k"
  using assms by (auto simp: after_goal_turn_def split: end_reason.splits if_splits option.splits)

lemma end_without_model_goal: "fw_goal (fst (end_without_model i input origin w)) = fw_goal w"
  by (simp add: end_without_model_def log_events_def)

text \<open>Induction over the turns of a drive that returns.\<close>

lemma drive_induct [consumes 1, case_names over stop again]:
  assumes "drive_goal env n turn_id input origin w = Some r"
    and over: "\<And>n turn_id input origin w. goal_active w \<Longrightarrow> goal_over_budget w \<Longrightarrow>
      P n turn_id input origin w
        (end_without_model turn_id input origin (block_goal ''A configured budget was reached'' w))"
    and stop: "\<And>n turn_id input origin w w1 ended w2. \<not> (goal_active w \<and> goal_over_budget w) \<Longrightarrow>
      run_one_turn env turn_id input origin (with_goal (increment_turn (fw_now w) (fw_goal w)) w) = Some (w1, ended) \<Longrightarrow>
      after_goal_turn env n ended w1 = (w2, False) \<Longrightarrow> P n turn_id input origin w (w2, ended)"
    and again: "\<And>n turn_id input origin w w1 ended w2 r. \<not> (goal_active w \<and> goal_over_budget w) \<Longrightarrow>
      run_one_turn env turn_id input origin (with_goal (increment_turn (fw_now w) (fw_goal w)) w) = Some (w1, ended) \<Longrightarrow>
      after_goal_turn env n ended w1 = (w2, True) \<Longrightarrow>
      P (n + 1) (fst (allocate_turn_id w2)) (continuation_input env (snd (allocate_turn_id w2))) continuation_origin
        (snd (allocate_turn_id w2)) r \<Longrightarrow> P n turn_id input origin w r"
  shows "P n turn_id input origin w r"
proof -
  have "env' = env \<longrightarrow> P n turn_id input origin w r"
    if "drive_goal env' n turn_id input origin w = Some r" for env' n turn_id input origin w r
  proof (rule drive_goal.raw_induct [OF _ that], intro impI)
    fix drive env' n turn_id input origin w r
    assume IH: "\<And>env' n turn_id input origin w r. drive env' n turn_id input origin w = Some r \<Longrightarrow>
        env' = env \<longrightarrow> P n turn_id input origin w r"
      and body: "(if goal_active w \<and> goal_over_budget w
      then Some (end_without_model turn_id input origin (block_goal ''A configured budget was reached'' w))
      else case run_one_turn env' turn_id input origin (with_goal (increment_turn (fw_now w) (fw_goal w)) w) of
        None \<Rightarrow> None
      | Some (w1, ended) \<Rightarrow>
          (let (w2, again) = after_goal_turn env' n ended w1 in
             if \<not> again then Some (w2, ended)
             else
               drive env' (n + 1) (fst (allocate_turn_id w2))
                 (continuation_input env' (snd (allocate_turn_id w2))) continuation_origin (snd (allocate_turn_id w2)))) = Some r"
      and env: "env' = env"
    show "P n turn_id input origin w r"
    proof (cases "goal_active w \<and> goal_over_budget w")
      case True
      then show ?thesis
        using body over [of w n turn_id input origin] by auto
    next
      case False
      obtain w1 ended where turn:
          "run_one_turn env turn_id input origin (with_goal (increment_turn (fw_now w) (fw_goal w)) w) = Some (w1, ended)"
        using body False env by (auto split: option.splits)
      obtain w2 b where after: "after_goal_turn env n ended w1 = (w2, b)"
        by fastforce
      show ?thesis
      proof (cases b)
        case True
        then have "drive env' (n + 1) (fst (allocate_turn_id w2)) (continuation_input env' (snd (allocate_turn_id w2)))
            continuation_origin (snd (allocate_turn_id w2)) = Some r"
          using body False env turn after by simp
        from IH [OF this] have rest: "P (n + 1) (fst (allocate_turn_id w2))
            (continuation_input env (snd (allocate_turn_id w2))) continuation_origin (snd (allocate_turn_id w2)) r"
          using env by simp
        have "after_goal_turn env n ended w1 = (w2, True)"
          using after True by simp
        from again [OF False turn this rest] show ?thesis .
      next
        case stops: False
        then have "r = (w2, ended)"
          using body False env turn after by simp
        then show ?thesis
          using stop [OF False turn] after stops by simp
      qed
    qed
  qed
  then show ?thesis
    using assms(1) by blast
qed

lemma drive_stops: "drive_goal env n turn_id input origin w = Some r \<Longrightarrow> \<not> goal_active (fst r)"
proof (induction rule: drive_induct)
  case (over n turn_id input origin w)
  then show ?case
    using not_active_blocked by (simp add: goal_active_iff end_without_model_goal)
qed (simp_all add: after_goal_turn_stops)

text \<open>
  C13: a launch that drives a goal never returns with the goal active: whatever the model, the hooks and
  the user do, the goal is then complete, blocked or paused. Only a launch that found no active goal
  and whose one turn did not complete can leave one behind.
\<close>

theorem worker_leaves_goal_stopped:
  assumes "turn_worker env turn_id input origin w = Some (w', ended)" "goal_active w'"
  shows "\<not> goal_active w \<and> te_end ended \<noteq> End_Completed \<and> run_one_turn env turn_id input origin w = Some (w', ended)"
  using assms drive_stops
  by (fastforce simp: turn_worker_def split: if_splits option.splits)

subsection \<open>Turns come in pairs of a start and an end\<close>

fun is_mark :: "flow_event \<Rightarrow> bool" where
  "is_mark (Turn_Started i origin) = True"
| "is_mark (Turn_Ended i reason) = True"
| "is_mark x = False"

definition marks :: "flow_world \<Rightarrow> flow_event list" where
  "marks w = filter is_mark (fw_log w)"

text \<open>
  The runs of the loop, their preparation and the waits for compactions emit no turn events and leave
  the turn counter alone: in the source these events have no other emitter.
\<close>

definition same_marks :: "flow_world \<Rightarrow> flow_world \<Rightarrow> bool" where
  "same_marks w w' \<longleftrightarrow> marks w' = marks w \<and> fw_turn_id w' = fw_turn_id w"

definition quiet :: "flow_env \<Rightarrow> bool" where
  "quiet env \<longleftrightarrow>
     (\<forall>w r. fv_run env w = Some r \<longrightarrow> same_marks w (fst r)) \<and>
     (\<forall>w r. fv_prepare env w = Some r \<longrightarrow> same_marks w (fst r)) \<and>
     (\<forall>w r. fv_wait env w = Some r \<longrightarrow> same_marks w (fst r))"

lemma same_marks_refl [simp]: "same_marks w w"
  by (simp add: same_marks_def)

lemma same_marks_trans: "same_marks w w' \<Longrightarrow> same_marks w' w'' \<Longrightarrow> same_marks w w''"
  by (simp add: same_marks_def)

lemma marks_log [simp]: "marks (log_events evs w) = marks w @ filter is_mark evs" "fw_turn_id (log_events evs w) = fw_turn_id w"
  by (simp_all add: marks_def log_events_def)

lemma marks_updates [simp]:
  "marks (w\<lparr>fw_goal := g\<rparr>) = marks w" "marks (w\<lparr>fw_turn_id := i\<rparr>) = marks w" "marks (w\<lparr>fw_compaction := fc\<rparr>) = marks w"
  "marks (w\<lparr>fw_swarm_exits := b\<rparr>) = marks w" "marks (with_goal out w) = marks w" "fw_turn_id (with_goal out w) = fw_turn_id w"
  by (simp_all add: marks_def with_goal_def)

lemma apply_prompt_hook_marks: "same_marks w (fst (apply_prompt_hook env turn_id origin w))"
  by (auto simp: apply_prompt_hook_def same_marks_def split: sum.splits option.splits)

lemma quiet_results:
  assumes "quiet env"
  shows "fv_run env w = Some r \<Longrightarrow> same_marks w (fst r)" "fv_prepare env w = Some p \<Longrightarrow> same_marks w (fst p)"
    "fv_wait env w = Some p \<Longrightarrow> same_marks w (fst p)"
  using assms unfolding quiet_def by blast+

lemma handle_overflow_marks:
  assumes "quiet env" "handle_overflow env e w = Some r"
  shows "same_marks w (fst r)"
proof -
  have "same_marks w w'" if "same_marks (w\<lparr>fw_compaction := fc\<rparr>) w'" for fc w'
    using that by (simp add: same_marks_def)
  moreover have "same_marks w (w\<lparr>fw_compaction := fc\<rparr>)" for fc
    by (simp add: same_marks_def)
  moreover have "(\<exists>fc x. r = (w\<lparr>fw_compaction := fc\<rparr>, x)) \<or> (\<exists>fc. fv_wait env (w\<lparr>fw_compaction := fc\<rparr>) = Some r)"
    using assms(2) by (auto simp: handle_overflow_def Let_def split: prod.splits sum.splits option.splits if_splits)
  ultimately show ?thesis
    using quiet_results(3) [OF assms(1)] by fastforce
qed

lemma step_attempts_marks:
  assumes "quiet env" "step_attempts env w = Some r"
  shows "same_marks w (fst r)"
proof -
  have "quiet env \<longrightarrow> same_marks w (fst r)" if "step_attempts env w = Some r" for env w r
  proof (rule step_attempts.raw_induct [OF _ that], intro impI)
    fix attempts env w r
    assume IH: "\<And>env w r. attempts env w = Some r \<Longrightarrow> quiet env \<longrightarrow> same_marks w (fst r)"
      and body: "(if fv_signal env w then Some (w, Inl (fv_reason env))
        else case fv_run env w of
          None \<Rightarrow> None
        | Some (w1, Inr stop) \<Rightarrow> Some (w1, Inr stop)
        | Some (w1, Inl e) \<Rightarrow>
            if fv_overflows env e
            then (case handle_overflow env e w1 of
                None \<Rightarrow> None | Some (w2, Some e') \<Rightarrow> Some (w2, Inl e') | Some (w2, None) \<Rightarrow> attempts env w2)
            else Some (w1, Inl e)) = Some r"
      and q: "quiet env"
    show "same_marks w (fst r)"
    proof (cases "fv_signal env w")
      case True
      then show ?thesis
        using body by auto
    next
      case False
      obtain w1 o1 where run: "fv_run env w = Some (w1, o1)"
        using body False by (auto split: option.splits)
      have m1: "same_marks w w1"
        using quiet_results(1) [OF q run] by simp
      show ?thesis
      proof (cases "\<exists>e. o1 = Inl e \<and> fv_overflows env e")
        case again: True
        then obtain e where e: "o1 = Inl e" "fv_overflows env e"
          by blast
        obtain w2 x where handled: "handle_overflow env e w1 = Some (w2, x)"
          using body False run e by (auto split: option.splits)
        have m2: "same_marks w w2"
          using handle_overflow_marks [OF q handled] m1 by (auto intro: same_marks_trans)
        have "attempts env w2 = Some r \<or> fst r = w2"
          using body False run e handled by (auto split: option.splits)
        then show ?thesis
          using IH q m2 same_marks_trans by blast
      next
        case once: False
        then have "fst r = w1"
          using body False run by (auto split: sum.splits)
        then show ?thesis
          using m1 by simp
      qed
    qed
  qed
  then show ?thesis
    using assms by blast
qed

lemma run_step_loop_marks:
  assumes "quiet env" "run_step_loop env w = Some r"
  shows "same_marks w (fst r)"
proof -
  obtain w1 x where prep: "fv_prepare env w = Some (w1, x)"
    using assms(2) by (auto simp: run_step_loop_def split: option.splits)
  have m1: "same_marks w w1"
    using quiet_results(2) [OF assms(1) prep] by simp
  show ?thesis
  proof (cases x)
    case None
    then have "step_attempts env w1 = Some r"
      using assms(2) prep by (simp add: run_step_loop_def)
    then show ?thesis
      using step_attempts_marks [OF assms(1)] m1 same_marks_trans by blast
  next
    case (Some e)
    then show ?thesis
      using assms(2) prep m1 by (auto simp: run_step_loop_def)
  qed
qed

lemma end_turn_marks:
  "marks (fst (end_turn env i reason stop blocked w)) = marks w @ [Turn_Ended i reason]"
  "fw_turn_id (fst (end_turn env i reason stop blocked w)) = fw_turn_id w"
  "te_end (snd (end_turn env i reason stop blocked w)) = reason"
  "te_turn (snd (end_turn env i reason stop blocked w)) = i"
  by (simp_all add: end_turn_def split: end_reason.split)

lemma run_one_turn_marks:
  assumes "quiet env" "run_one_turn env i input origin w = Some (w', ended)"
  shows "marks w' = marks w @ [Turn_Started i origin, Turn_Ended i (te_end ended)]" "fw_turn_id w' = fw_turn_id w"
    "te_turn ended = i"
proof -
  let ?w0 = "begin_turn i input origin w"
  have begun: "marks ?w0 = marks w @ [Turn_Started i origin]" "fw_turn_id ?w0 = fw_turn_id w"
    by (simp_all add: begin_turn_def)
  obtain w1 o1 where hook: "apply_prompt_hook env i origin ?w0 = (w1, o1)"
    by fastforce
  have m1: "marks w1 = marks w @ [Turn_Started i origin]" "fw_turn_id w1 = fw_turn_id w"
    using apply_prompt_hook_marks [of ?w0 env i origin] hook begun by (simp_all add: same_marks_def)
  have "\<exists>w2 reason stop blocked. marks w2 = marks w1 \<and> fw_turn_id w2 = fw_turn_id w1 \<and>
      (w', ended) = end_turn env i reason stop blocked w2"
  proof (cases "o1 = Inr False")
    case False
    then have "\<exists>reason blocked. end_turn env i reason None blocked w1 = (w', ended)"
      using assms(2) hook by (cases o1) (auto simp: run_one_turn_def)
    then show ?thesis
      by metis
  next
    case True
    then obtain w2 o2 where loop: "run_step_loop env w1 = Some (w2, o2)"
      using assms(2) hook by (auto simp: run_one_turn_def split: option.splits)
    have "marks w2 = marks w1" "fw_turn_id w2 = fw_turn_id w1"
      using run_step_loop_marks [OF assms(1) loop] by (simp_all add: same_marks_def)
    moreover have "\<exists>reason stop blocked. end_turn env i reason stop blocked w2 = (w', ended)"
      using assms(2) hook loop True by (auto simp: run_one_turn_def split: sum.splits)
    ultimately show ?thesis
      by metis
  qed
  then obtain w2 reason stop blocked where w2: "marks w2 = marks w1" "fw_turn_id w2 = fw_turn_id w1"
      "w' = fst (end_turn env i reason stop blocked w2)" "ended = snd (end_turn env i reason stop blocked w2)"
    by (metis fst_conv snd_conv)
  then show "marks w' = marks w @ [Turn_Started i origin, Turn_Ended i (te_end ended)]" "fw_turn_id w' = fw_turn_id w"
    "te_turn ended = i"
    by (simp_all add: end_turn_marks m1)
qed

definition turn_pairs :: "(int \<times> prompt_origin \<times> end_reason) list \<Rightarrow> flow_event list" where
  "turn_pairs ts = concat (map (\<lambda>(i, origin, reason). [Turn_Started i origin, Turn_Ended i reason]) ts)"

lemma after_goal_turn_marks: "same_marks w (fst (after_goal_turn env n ended w))"
  by (auto simp: after_goal_turn_def same_marks_def block_goal_def split: end_reason.splits option.splits)

lemma allocate_marks: "marks (snd (allocate_turn_id w)) = marks w"
  "fst (allocate_turn_id w) = fw_turn_id w + 1" "fw_turn_id (snd (allocate_turn_id w)) = fw_turn_id w + 1"
  by (simp_all add: allocate_turn_id_def)

lemma drive_turns:
  assumes "quiet env" "drive_goal env n turn_id input origin w = Some r"
  shows "\<exists>ts. marks (fst r) = marks w @ turn_pairs ts \<and> map fst ts = turn_id # [fw_turn_id w + 1..fw_turn_id (fst r)] \<and>
    fw_turn_id w \<le> fw_turn_id (fst r) \<and> snd (snd (last ts)) = te_end (snd r) \<and>
    (\<forall>k. fv_max_continuations env = Some k \<and> 0 < k \<longrightarrow> int (length ts) \<le> max 1 (k - n))"
  using assms(2)
proof (induction rule: drive_induct)
  case (over n turn_id input origin w)
  show ?case
    by (intro exI [of _ "[(turn_id, origin, End_Completed)]"])
      (simp add: turn_pairs_def end_without_model_def block_goal_def)
next
  case (stop n turn_id input origin w w1 ended w2)
  have "same_marks w1 w2"
    using after_goal_turn_marks [of w1 env n ended] stop(3) by simp
  then show ?case
    using run_one_turn_marks [OF assms(1) stop(2)]
    by (intro exI [of _ "[(turn_id, origin, te_end ended)]"]) (simp add: turn_pairs_def same_marks_def)
next
  case (again n turn_id input origin w w1 ended w2 r)
  let ?w3 = "snd (allocate_turn_id w2)"
  have w2: "w2 = w1"
    by (rule after_goal_turn_goes_on(1) [OF again(3)])
  note turn = run_one_turn_marks [OF assms(1) again(2)]
  obtain ts where ts: "marks (fst r) = marks ?w3 @ turn_pairs ts"
      "map fst ts = fst (allocate_turn_id w2) # [fw_turn_id ?w3 + 1..fw_turn_id (fst r)]"
      "fw_turn_id ?w3 \<le> fw_turn_id (fst r)" "snd (snd (last ts)) = te_end (snd r)"
      "\<forall>k. fv_max_continuations env = Some k \<and> 0 < k \<longrightarrow> int (length ts) \<le> max 1 (k - (n + 1))"
    using again(4) by (elim exE conjE) (rule that)
  have "ts \<noteq> []"
    using ts(2) by auto
  moreover have "[fw_turn_id w + 1..fw_turn_id (fst r)] = (fw_turn_id w + 1) # [fw_turn_id w + 2..fw_turn_id (fst r)]"
    using ts(3) turn(2) by (subst upto.simps) (simp add: allocate_marks w2 add.commute)
  moreover have "int (length ts) + 1 \<le> max 1 (k - n)" if "fv_max_continuations env = Some k" "0 < k" for k
    using after_goal_turn_goes_on(4) [OF again(3) that] ts(5) that by auto
  ultimately show ?case
    using ts turn
    by (intro exI [of _ "(turn_id, origin, te_end ended) # ts"])
      (auto simp: turn_pairs_def allocate_marks w2 add.commute)
qed

subsection \<open>Turns return\<close>

text \<open>What is left of the compactions of a turn: each one costs a start and an end.\<close>

definition overflow_budget :: "nat \<Rightarrow> flow_world \<Rightarrow> nat" where
  "overflow_budget k w =
     2 * (k - fc_count_in_turn (fw_compaction w)) + (if fc_compacting (fw_compaction w) = None then 0 else 1)"

text \<open>
  A compaction by hand gives the turn all its compactions back. Let \<open>by_hand\<close> count those the user will
  still start: a run of the loop starts one of them or gives no compaction back, and a wait that
  succeeds has seen the compaction end, unless the user has started another one meanwhile.
\<close>

definition compactions_run_out :: "nat \<Rightarrow> (flow_world \<Rightarrow> nat) \<Rightarrow> flow_env \<Rightarrow> bool" where
  "compactions_run_out k by_hand env \<longleftrightarrow>
     (\<forall>w fc. by_hand (w\<lparr>fw_compaction := fc\<rparr>) = by_hand w) \<and>
     (\<forall>w w' res. fv_run env w = Some (w', res) \<longrightarrow>
        by_hand w' < by_hand w \<or> by_hand w' = by_hand w \<and> overflow_budget k w' \<le> overflow_budget k w) \<and>
     (\<forall>w w'. fv_wait env w = Some (w', None) \<longrightarrow>
        by_hand w' < by_hand w \<or>
        by_hand w' = by_hand w \<and> fc_compacting (fw_compaction w') = None \<and>
        fc_count_in_turn (fw_compaction w) \<le> fc_count_in_turn (fw_compaction w'))"

text \<open>The promises the flow waits for settle: the preparation, every run of the loop, every wait.\<close>

definition promises_settle :: "flow_env \<Rightarrow> bool" where
  "promises_settle env \<longleftrightarrow> (\<forall>w. fv_prepare env w \<noteq> None \<and> fv_run env w \<noteq> None \<and> fv_wait env w \<noteq> None)"

definition compactions_left :: "nat \<Rightarrow> (flow_world \<Rightarrow> nat) \<Rightarrow> flow_world \<Rightarrow> nat" where
  "compactions_left k by_hand w = (2 * k + 2) * by_hand w + overflow_budget k w"

lemma compactions_left_mono:
  assumes "by_hand w' < by_hand w \<or> by_hand w' = by_hand w \<and> overflow_budget k w' \<le> overflow_budget k w"
  shows "compactions_left k by_hand w' \<le> compactions_left k by_hand w"
    "by_hand w' < by_hand w \<or> overflow_budget k w' < overflow_budget k w \<Longrightarrow>
     compactions_left k by_hand w' < compactions_left k by_hand w"
proof -
  have less: "compactions_left k by_hand w' < compactions_left k by_hand w" if "by_hand w' < by_hand w"
  proof -
    have "(2 * k + 2) * Suc (by_hand w') \<le> (2 * k + 2) * by_hand w"
      using that by (intro mult_le_mono2) simp
    moreover have "overflow_budget k w' < 2 * k + 2"
      by (cases "fc_compacting (fw_compaction w')") (simp_all add: overflow_budget_def less_Suc_eq_le)
    ultimately show ?thesis
      by (simp add: compactions_left_def)
  qed
  show "compactions_left k by_hand w' \<le> compactions_left k by_hand w"
    using assms less by (auto simp: compactions_left_def)
  show "by_hand w' < by_hand w \<or> overflow_budget k w' < overflow_budget k w \<Longrightarrow>
      compactions_left k by_hand w' < compactions_left k by_hand w"
    using assms less by (auto simp: compactions_left_def)
qed

lemma overflow_shape:
  assumes "handle_overflow_error cfg window False hist fc = ((fc', evs), Inr waits)" "cp_max_compaction_per_turn cfg = Some k"
  shows "waits \<and> (fc_compacting fc \<noteq> None \<and> fc_count_in_turn fc' = fc_count_in_turn fc \<or>
      fc_count_in_turn fc < k \<and> fc_count_in_turn fc' = fc_count_in_turn fc + 1)"
proof (cases "fc_compacting fc")
  case None
  then show ?thesis
    using assms
    by (auto simp: handle_overflow_error_def begin_auto_compaction_def begin_compaction_def block_on_compaction_def Let_def
        split: if_splits)
next
  case (Some b)
  then show ?thesis
    using assms by (auto simp: handle_overflow_error_def begin_auto_compaction_def block_on_compaction_def)
qed

lemma overflow_spends:
  assumes "compactions_run_out k by_hand env" "cp_max_compaction_per_turn (fv_config env) = Some k"
    and "handle_overflow env e w = Some (w', None)"
  shows "compactions_left k by_hand w' < compactions_left k by_hand w"
proof -
  obtain fc evs res where over: "handle_overflow_error (fv_config env) (fv_window env) False (fv_history env w)
      (fw_compaction w) = ((fc, evs), res)"
    by (metis surj_pair)
  then obtain waits where res: "res = Inr waits"
    using assms(3) by (cases res) (auto simp: handle_overflow_def split: option.splits)
  note shape = overflow_shape [OF over [unfolded res] assms(2)]
  then have "fv_wait env (w\<lparr>fw_compaction := fc\<rparr>) = Some (w', None)"
    using assms(3) over res by (simp add: handle_overflow_def)
  moreover have "by_hand (w\<lparr>fw_compaction := fc\<rparr>) = by_hand w"
    using assms(1) by (simp add: compactions_run_out_def)
  ultimately have "by_hand w' < by_hand w \<or> by_hand w' = by_hand w \<and>
      fc_compacting (fw_compaction w') = None \<and> fc_count_in_turn fc \<le> fc_count_in_turn (fw_compaction w')"
    using assms(1) unfolding compactions_run_out_def by fastforce
  then show ?thesis
    using shape by (intro compactions_left_mono(2)) (auto simp: overflow_budget_def)
qed

lemma handle_overflow_settles: "promises_settle env \<Longrightarrow> handle_overflow env e w \<noteq> None"
  by (auto simp: handle_overflow_def promises_settle_def Let_def split: prod.split sum.split option.split)

lemma step_attempts_return:
  assumes "promises_settle env" "compactions_run_out k by_hand env" "cp_max_compaction_per_turn (fv_config env) = Some k"
  shows "\<exists>r. step_attempts env w = Some r"
proof (induction "compactions_left k by_hand w" arbitrary: w rule: less_induct)
  case less
  obtain w1 o1 where run: "fv_run env w = Some (w1, o1)"
    using assms(1) unfolding promises_settle_def by (metis option.exhaust surj_pair)
  then have spent: "compactions_left k by_hand w1 \<le> compactions_left k by_hand w"
    using assms(2) unfolding compactions_run_out_def by (intro compactions_left_mono(1)) blast
  show ?case
  proof (cases o1)
    case (Inr stop)
    then show ?thesis
      using run by (subst step_attempts.simps) simp
  next
    case (Inl e)
    obtain w2 o2 where over: "handle_overflow env e w1 = Some (w2, o2)"
      using handle_overflow_settles [OF assms(1), of e w1] by auto
    have "\<exists>r. step_attempts env w2 = Some r" if "o2 = None"
      using less [of w2] overflow_spends [OF assms(2,3), of e w1 w2] over that spent by simp
    then show ?thesis
      using run Inl over by (subst step_attempts.simps) (auto split: option.split)
  qed
qed

lemma run_one_turn_returns:
  assumes "promises_settle env" "compactions_run_out k by_hand env" "cp_max_compaction_per_turn (fv_config env) = Some k"
  shows "\<exists>r. run_one_turn env i input origin w = Some r"
proof -
  have loop: "run_step_loop env w \<noteq> None" for w
    using step_attempts_return [OF assms] assms(1)
    by (auto simp: run_step_loop_def promises_settle_def split: option.split)
  obtain w1 o1 where hook: "apply_prompt_hook env i origin (begin_turn i input origin w) = (w1, o1)"
    by fastforce
  have "run_one_turn env i input origin w \<noteq> None"
    using loop [of w1] by (auto simp: run_one_turn_def hook split: sum.split bool.split)
  then show ?thesis
    by blast
qed

lemma drive_goal_returns:
  assumes "promises_settle env" "compactions_run_out k by_hand env" "cp_max_compaction_per_turn (fv_config env) = Some k"
    and "fv_max_continuations env = Some m" "0 < m"
  shows "\<exists>r. drive_goal env n i input origin w = Some r"
proof (induction "nat (m - n)" arbitrary: n i input origin w rule: less_induct)
  case less
  show ?case
  proof (cases "goal_active w \<and> goal_over_budget w")
    case True
    then show ?thesis
      by (subst drive_goal.simps) simp
  next
    case False
    obtain w1 ended where turn:
        "run_one_turn env i input origin (with_goal (increment_turn (fw_now w) (fw_goal w)) w) = Some (w1, ended)"
      using run_one_turn_returns [OF assms(1-3)] by fastforce
    obtain w2 b where after: "after_goal_turn env n ended w1 = (w2, b)"
      by fastforce
    have "\<exists>r. drive_goal env (n + 1) i' input' origin' w' = Some r" if b for i' input' origin' w'
    proof -
      have "n + 1 < m"
        using after_goal_turn_goes_on(4) [of env n ended w1 w2, OF _ assms(4,5)] after that by simp
      then show ?thesis
        using less [of "n + 1"] by simp
    qed
    then show ?thesis
      using False turn after by (subst drive_goal.simps) auto
  qed
qed

text \<open>
  C17: a launch returns when compactions per turn and continuation turns are limited, the runs of the
  loop, their preparation and the waits for compactions settle, and the user starts only finitely
  many compactions by hand: a request that keeps overflowing the context is repeated only while
  compactions are left, and the driver stops at its number of continuation turns even if the model
  never settles the goal.
\<close>

theorem limited_launch_returns:
  assumes "cp_max_compaction_per_turn (fv_config env) = Some k" "compactions_run_out k by_hand env"
    and "fv_max_continuations env = Some m" "0 < m" "promises_settle env"
  shows "\<exists>w' ended. turn_worker env i input origin w = Some (w', ended)"
proof -
  obtain w1 e where "run_one_turn env i input origin w = Some (w1, e)"
    using run_one_turn_returns [OF assms(5,2,1)] by fastforce
  moreover have "drive_goal env 0 j inp org v \<noteq> None" for j inp org v
    using drive_goal_returns [OF assms(5,2,1,3,4)] by simp
  ultimately have "turn_worker env i input origin w \<noteq> None"
    by (simp add: turn_worker_def)
  then show ?thesis
    by auto
qed

subsection \<open>A launch at a glance\<close>

text \<open>
  Every launch emits its turns one after the other as a start and an end with the same id, the ids
  are consecutive from the launched one, the result is that of the last, and a limit on continuation turns
  bounds the turns a single prompt can cause.
\<close>

theorem launch_turns_paired:
  assumes "quiet env" "turn_worker env (fw_turn_id w) input origin w = Some (w', ended)"
  shows "\<exists>ts. marks w' = marks w @ turn_pairs ts \<and> map fst ts = [fw_turn_id w..fw_turn_id w'] \<and>
    snd (snd (last ts)) = te_end ended \<and>
    (\<forall>k. fv_max_continuations env = Some k \<and> 0 < k \<longrightarrow> int (length ts) \<le> k + 1)"
proof (cases "goal_active w")
  case True
  then obtain ts where ts: "marks w' = marks w @ turn_pairs ts" "map fst ts = fw_turn_id w # [fw_turn_id w + 1..fw_turn_id w']"
      "fw_turn_id w \<le> fw_turn_id w'" "snd (snd (last ts)) = te_end ended"
      "\<forall>k. fv_max_continuations env = Some k \<and> 0 < k \<longrightarrow> int (length ts) \<le> max 1 k"
    using drive_turns [OF assms(1), of 0 "fw_turn_id w" input origin w "(w', ended)"] assms(2)
    by (auto simp: turn_worker_def)
  then have "map fst ts = [fw_turn_id w..fw_turn_id w']"
    by (simp add: upto_rec1)
  then show ?thesis
    using ts by fastforce
next
  case False
  obtain w1 e1 where turn: "run_one_turn env (fw_turn_id w) input origin w = Some (w1, e1)"
    using assms(2) False by (auto simp: turn_worker_def split: option.splits)
  note marks1 = run_one_turn_marks [OF assms(1) turn]
  let ?first = "(fw_turn_id w, origin, te_end e1)"
  show ?thesis
  proof (cases "goal_active w1 \<and> te_end e1 = End_Completed")
    case stop: False
    then have "w' = w1" "ended = e1"
      using assms(2) False turn by (auto simp: turn_worker_def)
    then show ?thesis
      using marks1 by (intro exI [of _ "[?first]"]) (simp add: turn_pairs_def)
  next
    case True
    let ?w2 = "snd (allocate_turn_id w1)"
    have "drive_goal env 0 (fst (allocate_turn_id w1)) [TextPart continuation_prompt] continuation_origin ?w2 = Some (w', ended)"
      using assms(2) False turn True by (simp add: turn_worker_def)
    from drive_turns [OF assms(1) this] obtain ts where ts: "marks w' = marks ?w2 @ turn_pairs ts"
      "map fst ts = fst (allocate_turn_id w1) # [fw_turn_id ?w2 + 1..fw_turn_id w']"
      "fw_turn_id ?w2 \<le> fw_turn_id w'" "snd (snd (last ts)) = te_end ended"
      "\<forall>k. fv_max_continuations env = Some k \<and> 0 < k \<longrightarrow> int (length ts) \<le> max 1 k"
      by auto
    have "ts \<noteq> []"
      using ts(2) by auto
    moreover have "map fst (?first # ts) = [fw_turn_id w..fw_turn_id w']"
      using ts(2,3) marks1(2) by (simp add: allocate_marks upto_rec1 [of "fw_turn_id w"] upto_rec1 [of "fw_turn_id w + 1"])
    moreover have "int (length (?first # ts)) \<le> k + 1" if "fv_max_continuations env = Some k" "0 < k" for k
      using ts(5) that by fastforce
    ultimately show ?thesis
      using ts marks1 by (intro exI [of _ "?first # ts"]) (auto simp: turn_pairs_def allocate_marks)
  qed
qed

subsection \<open>Concrete launches\<close>

definition idle_flow :: flow_world where
  "idle_flow =
     \<lparr>fw_goal = None, fw_now = 0, fw_turn_id = 0, fw_compaction = \<lparr>fc_count_in_turn = 0, fc_compacting = None\<rparr>,
      fw_swarm_exits = False, fw_log = []\<rparr>"

definition sample_flow :: "(flow_world \<Rightarrow> flow_world \<times> (loop_error + turn_stop)) \<Rightarrow> flow_env" where
  "sample_flow run =
     \<lparr>fv_hook = (\<lambda>_. Inr None), fv_signal = (\<lambda>_. False),
      fv_reason = \<lparr>le_instance = True, le_name = ''AbortError'', le_message = [], le_status = None, le_max_steps = False\<rparr>,
      fv_user_cancels = False, fv_prepare = (\<lambda>w. Some (w, None)), fv_run = (\<lambda>w. Some (run w)),
      fv_overflows = (\<lambda>e. le_name e = ''APIContextOverflowError''), fv_history = (\<lambda>_. []),
      fv_config = default_compaction_config\<lparr>cp_max_compaction_per_turn := Some 3\<rparr>, fv_window = 1000,
      fv_wait = (\<lambda>w. Some (w\<lparr>fw_compaction := (fw_compaction w)\<lparr>fc_compacting := None\<rparr>\<rparr>, None)),
      fv_compaction_error = (\<lambda>_. \<lparr>le_instance = True, le_name = ''KimiError'', le_message = [], le_status = None, le_max_steps = False\<rparr>),
      fv_payload = (\<lambda>e. \<lparr>kp_code = ''internal'', kp_message = le_message e, kp_name = Some (le_name e), kp_turn = None\<rparr>),
      fv_max_continuations = Some 2, fv_goal_context = (\<lambda>_. None)\<rparr>"

text \<open>The model creates a goal and the request after that fails.\<close>

definition creates_then_fails :: "flow_world \<Rightarrow> flow_world \<times> (loop_error + turn_stop)" where
  "creates_then_fails w =
     (w\<lparr>fw_goal := Some sample_goal\<rparr>,
      Inl \<lparr>le_instance = True, le_name = ''APIStatusError'', le_message = ''boom'', le_status = Some 500, le_max_steps = False\<rparr>)"

definition always_stops :: "flow_world \<Rightarrow> flow_world \<times> (loop_error + turn_stop)" where
  "always_stops w = (w, Inr (Stopped End_Turn))"

definition always_overflows :: "flow_world \<Rightarrow> flow_world \<times> (loop_error + turn_stop)" where
  "always_overflows w =
     (w, Inl \<lparr>le_instance = True, le_name = ''APIContextOverflowError'', le_message = [], le_status = None, le_max_steps = False\<rparr>)"

lemma sample_flow_hook: "apply_prompt_hook (sample_flow run) i origin w = (w, Inr False)"
  by (simp add: apply_prompt_hook_def sample_flow_def prompt_hook_block_def prompt_hook_result_def opt_or_def
      List.map_filter_def)

lemma sample_flow_quiet: "(\<And>w. same_marks w (fst (run w))) \<Longrightarrow> quiet (sample_flow run)"
  by (simp add: quiet_def sample_flow_def same_marks_def)

lemma sample_flow_spends:
  "(\<And>w. overflow_budget 3 (fst (run w)) \<le> overflow_budget 3 w) \<Longrightarrow> compactions_run_out 3 (\<lambda>_. 0) (sample_flow run)"
  "promises_settle (sample_flow run)"
  "cp_max_compaction_per_turn (fv_config (sample_flow run)) = Some 3" "fv_max_continuations (sample_flow run) = Some 2"
  by (auto simp: compactions_run_out_def promises_settle_def sample_flow_def)
    (metis fst_conv)

theorem worker_leaves_goal_stopped_witness:
  "\<exists>w' ended. turn_worker (sample_flow creates_then_fails) 0 [] Origin_User idle_flow = Some (w', ended) \<and>
     goal_active w' \<and> te_end ended \<noteq> End_Completed"
proof -
  let ?env = "sample_flow creates_then_fails"
  have attempts: "step_attempts ?env w = Some (creates_then_fails w)" for w
    by (subst step_attempts.simps) (simp add: sample_flow_def creates_then_fails_def)
  have "fv_prepare ?env w = Some (w, None)" for w
    by (simp add: sample_flow_def)
  then have loop: "run_step_loop ?env w = Some (creates_then_fails w)" for w
    by (simp add: run_step_loop_def attempts)
  have "fw_goal idle_flow = None"
    by (simp add: idle_flow_def)
  then have "\<exists>w' ended. turn_worker ?env 0 [] Origin_User idle_flow = Some (w', ended) \<and> goal_active w'"
    by (simp add: turn_worker_def run_one_turn_def sample_flow_hook loop creates_then_fails_def end_turn_def error_end_def
        is_abort_error_def goal_active_iff log_events_def sample_goal_def)
  then show ?thesis
    using worker_leaves_goal_stopped by blast
qed

theorem launch_turns_paired_witness:
  "\<exists>w' ended ts. turn_worker (sample_flow always_stops) 0 [] Origin_User (idle_flow\<lparr>fw_goal := Some sample_goal\<rparr>) =
     Some (w', ended) \<and> marks w' = turn_pairs ts \<and> map fst ts = [0..fw_turn_id w'] \<and> length ts \<le> 3"
proof -
  let ?env = "sample_flow always_stops" and ?w = "idle_flow\<lparr>fw_goal := Some sample_goal\<rparr>"
  have active: "goal_active ?w"
    by (simp add: goal_active_iff sample_goal_def)
  have "compactions_run_out 3 (\<lambda>_. 0) ?env"
    by (rule sample_flow_spends(1)) (simp add: always_stops_def)
  from drive_goal_returns [OF sample_flow_spends(2) this sample_flow_spends(3,4), of 0 0 "[]" Origin_User ?w] active
  obtain w' ended where launch: "turn_worker ?env 0 [] Origin_User ?w = Some (w', ended)"
    by (auto simp: turn_worker_def)
  have start: "fw_turn_id ?w = 0" "marks ?w = []"
    by (simp_all add: idle_flow_def marks_def)
  have "quiet ?env"
    by (rule sample_flow_quiet) (simp add: always_stops_def)
  from launch_turns_paired [OF this, of ?w "[]" Origin_User w' ended] launch
  show ?thesis
    unfolding start using sample_flow_spends(4) by fastforce
qed

theorem limited_launch_returns_witness:
  "\<exists>w' ended. turn_worker (sample_flow always_overflows) 0 [] Origin_User idle_flow = Some (w', ended)"
  by (rule limited_launch_returns [OF sample_flow_spends(3) sample_flow_spends(1) sample_flow_spends(4)])
    (simp_all add: always_overflows_def sample_flow_spends(2))

text \<open>
  The bound on compactions by hand is needed: where the user starts one in every run that overflows,
  the count of the turn is reset each time and the step loop never ends.
\<close>

definition user_compacts_again :: "flow_world \<Rightarrow> flow_world \<times> (loop_error + turn_stop)" where
  "user_compacts_again w =
     (w\<lparr>fw_compaction := \<lparr>fc_count_in_turn = 0, fc_compacting = Some False\<rparr>\<rparr>, snd (always_overflows w))"

lemma waits_for_the_user:
  "handle_overflow (sample_flow run) e (w\<lparr>fw_compaction := \<lparr>fc_count_in_turn = 0, fc_compacting = Some False\<rparr>\<rparr>) =
     Some (w\<lparr>fw_compaction := \<lparr>fc_count_in_turn = 0, fc_compacting = None\<rparr>\<rparr>, None)"
  by (simp add: handle_overflow_def handle_overflow_error_def begin_auto_compaction_def block_on_compaction_def
      sample_flow_def default_compaction_config_def)

theorem compacting_by_hand_repeats_the_step:
  "step_attempts (sample_flow user_compacts_again) w = None"
proof -
  let ?env = "sample_flow user_compacts_again"
  have "env = ?env \<longrightarrow> False" if "step_attempts env w = Some r" for env w r
  proof (rule step_attempts.raw_induct [OF _ that], intro impI)
    fix attempts env w r
    assume IH: "\<And>env w r. attempts env w = Some r \<Longrightarrow> env = ?env \<longrightarrow> False"
      and body: "(if fv_signal env w then Some (w, Inl (fv_reason env))
        else case fv_run env w of
          None \<Rightarrow> None
        | Some (w1, Inr stop) \<Rightarrow> Some (w1, Inr stop)
        | Some (w1, Inl e) \<Rightarrow>
            if fv_overflows env e
            then (case handle_overflow env e w1 of
                None \<Rightarrow> None | Some (w2, Some e') \<Rightarrow> Some (w2, Inl e') | Some (w2, None) \<Rightarrow> attempts env w2)
            else Some (w1, Inl e)) = Some r"
      and env: "env = ?env"
    have run: "fv_run ?env w = Some (user_compacts_again w)" "\<not> fv_signal ?env w"
      "le_name e = ''APIContextOverflowError'' \<Longrightarrow> fv_overflows ?env e" for e
      by (simp_all add: sample_flow_def)
    have "\<exists>w'. attempts ?env w' = Some r"
      using body unfolding env by (auto simp: run user_compacts_again_def always_overflows_def waits_for_the_user)
    then show False
      using IH by blast
  qed
  then show ?thesis
    by (cases "step_attempts ?env w") auto
qed

end
