(* ===== verification/Turn_Ownership.thy ===== *)
theory Turn_Ownership
  imports Context_Memory
begin

text \<open>
  Who owns the turn (\<open>agent/turn/index.ts\<close>): prompts, steers and cancels arriving while runs are under
  way, the turn counter, the buffer of steers, and what replaying the records of a session leaves of
  all that. A launch makes an abort controller of its own; it is a number here. What a run does between
  the moments at which it touches this state is \<open>Turn_Flow\<close>.
\<close>

subsection \<open>The state of the flow\<close>

type_synonym steer_input = "content_part list \<times> prompt_origin"

datatype active_turn = Resuming | Active_Turn nat int

datatype control_event =
    Recorded_Prompt steer_input
  | Recorded_Steer steer_input
  | Recorded_Cancel "int option"
  | Busy_Error int
  | Allocated int
  | Buffered_Steer steer_input
  | Appended_Steer steer_input

record turn_control =
  tc_turn_id :: int
  tc_active :: "active_turn option"
  tc_steers :: "steer_input list"
  tc_controllers :: nat
  tc_aborted :: "nat list"
  tc_log :: "control_event list"

definition fresh_control :: turn_control where
  "fresh_control = \<lparr>tc_turn_id = -1, tc_active = None, tc_steers = [], tc_controllers = 0, tc_aborted = [], tc_log = []\<rparr>"

definition noted :: "control_event list \<Rightarrow> turn_control \<Rightarrow> turn_control" where
  "noted evs s = s\<lparr>tc_log := tc_log s @ evs\<rparr>"

subsection \<open>Operations\<close>

definition allocate_id :: "turn_control \<Rightarrow> turn_control" where
  "allocate_id s = noted [Allocated (tc_turn_id s + 1)] (s\<lparr>tc_turn_id := tc_turn_id s + 1\<rparr>)"

text \<open>The new turn and its controller, or nothing when another turn is active.\<close>

definition launch :: "turn_control \<Rightarrow> turn_control \<times> (nat \<times> int) option" where
  "launch s =
     (if tc_active s \<noteq> None then (noted [Busy_Error (tc_turn_id s)] s, None)
      else
        let s1 = allocate_id s; i = tc_turn_id s1; c = tc_controllers s1
        in (s1\<lparr>tc_controllers := c + 1, tc_active := Some (Active_Turn c i)\<rparr>, Some (c, i)))"

definition prompt_turn :: "steer_input \<Rightarrow> turn_control \<Rightarrow> turn_control \<times> (nat \<times> int) option" where
  "prompt_turn x s = launch (noted [Recorded_Prompt x] s)"

definition steer_turn :: "steer_input \<Rightarrow> turn_control \<Rightarrow> turn_control \<times> (nat \<times> int) option" where
  "steer_turn x s =
     (let s1 = noted [Recorded_Steer x] s
      in if tc_active s1 \<noteq> None then (noted [Buffered_Steer x] (s1\<lparr>tc_steers := tc_steers s1 @ [x]\<rparr>), None) else launch s1)"

definition retry_turn :: "turn_control \<Rightarrow> turn_control \<times> (nat \<times> int) option" where
  "retry_turn s = prompt_turn ([], Origin_Retry) s"

definition abort_turn :: "turn_control \<Rightarrow> turn_control" where
  "abort_turn s =
     (case tc_active s of
        Some (Active_Turn c i) \<Rightarrow> s\<lparr>tc_aborted := c # tc_aborted s, tc_active := None\<rparr>
      | _ \<Rightarrow> s\<lparr>tc_active := None\<rparr>)"

definition cancel_turn :: "bool \<Rightarrow> int option \<Rightarrow> turn_control \<Rightarrow> turn_control" where
  "cancel_turn restoring turn_id s =
     (let s1 = (if restoring then s else noted [Recorded_Cancel turn_id] s)
      in if turn_id \<noteq> None \<and> turn_id \<noteq> Some (tc_turn_id s1) then s1 else abort_turn s1)"

definition flush_steers :: "turn_control \<Rightarrow> turn_control \<times> bool" where
  "flush_steers s =
     (if tc_steers s = [] then (s, False)
      else ((noted (map Appended_Steer (tc_steers s)) s)\<lparr>tc_steers := []\<rparr>, True))"

definition has_active_turn :: "turn_control \<Rightarrow> bool" where
  "has_active_turn s \<longleftrightarrow> (case tc_active s of Some (Active_Turn c i) \<Rightarrow> True | _ \<Rightarrow> False)"

subsection \<open>Replaying\<close>

definition restore_prompt :: "turn_control \<Rightarrow> turn_control" where
  "restore_prompt s = (if tc_active s \<noteq> None then s else s\<lparr>tc_turn_id := tc_turn_id s + 1, tc_active := Some Resuming\<rparr>)"

definition restore_steer :: "steer_input \<Rightarrow> turn_control \<Rightarrow> turn_control" where
  "restore_steer x s =
     (if tc_active s \<noteq> None then s\<lparr>tc_steers := tc_steers s @ [x]\<rparr>
      else s\<lparr>tc_turn_id := tc_turn_id s + 1, tc_active := Some Resuming\<rparr>)"

definition observe_restored_turn_id :: "int \<Rightarrow> turn_control \<Rightarrow> turn_control" where
  "observe_restored_turn_id i s = (if i > tc_turn_id s then s\<lparr>tc_turn_id := i\<rparr> else s)"

definition finish_resume :: "turn_control \<Rightarrow> turn_control" where
  "finish_resume s = (s\<lparr>tc_active := if tc_active s = Some Resuming then None else tc_active s, tc_steers := []\<rparr>)"

text \<open>The records that concern turns; the id of a loop event is what its string parses to.\<close>

datatype turn_record =
    Rec_Turn_Prompt steer_input
  | Rec_Turn_Steer steer_input
  | Rec_Turn_Cancel "int option"
  | Rec_Loop_Event "int option"

fun restore_turn_record :: "turn_record \<Rightarrow> turn_control \<Rightarrow> turn_control" where
  "restore_turn_record (Rec_Turn_Prompt x) s = restore_prompt s"
| "restore_turn_record (Rec_Turn_Steer x) s = restore_steer x s"
| "restore_turn_record (Rec_Turn_Cancel i) s = cancel_turn True i s"
| "restore_turn_record (Rec_Loop_Event None) s = s"
| "restore_turn_record (Rec_Loop_Event (Some i)) s = observe_restored_turn_id i s"

definition resume_turns :: "turn_record list \<Rightarrow> turn_control" where
  "resume_turns rs = finish_resume (fold restore_turn_record rs fresh_control)"




lemma restore_idle:
  assumes "tc_active s = None \<or> tc_active s = Some Resuming"
  shows "tc_active (restore_turn_record r s) = None \<or> tc_active (restore_turn_record r s) = Some Resuming"
    "tc_aborted (restore_turn_record r s) = tc_aborted s" "tc_controllers (restore_turn_record r s) = tc_controllers s"
    "tc_log (restore_turn_record r s) = tc_log s"
  using assms
  by (cases "(r, s)" rule: restore_turn_record.cases;
      auto simp: restore_prompt_def restore_steer_def cancel_turn_def abort_turn_def observe_restored_turn_id_def Let_def)+

lemma restore_fold_idle:
  assumes "tc_active s = None \<or> tc_active s = Some Resuming"
  shows "(tc_active (fold restore_turn_record rs s) = None \<or> tc_active (fold restore_turn_record rs s) = Some Resuming) \<and>
    tc_aborted (fold restore_turn_record rs s) = tc_aborted s \<and>
    tc_controllers (fold restore_turn_record rs s) = tc_controllers s \<and> tc_log (fold restore_turn_record rs s) = tc_log s"
  using assms
proof (induction rs arbitrary: s)
  case (Cons r rs)
  show ?case
    using Cons.IH [OF restore_idle(1) [OF Cons.prems]] restore_idle(2-4) [OF Cons.prems] by simp
qed simp

lemma resume_turns_idle:
  "tc_active (resume_turns rs) = None" "tc_steers (resume_turns rs) = []" "tc_aborted (resume_turns rs) = []"
  "tc_controllers (resume_turns rs) = 0" "tc_log (resume_turns rs) = []"
  using restore_fold_idle [of fresh_control rs] by (auto simp: resume_turns_def finish_resume_def fresh_control_def)


text \<open>
  Turns that end before the first event of the loop (blocked by a prompt hook, cancelled early, over the
  goal's budget) leave nothing to observe: two of them count once, and the id of the second is given again.
\<close>

theorem resume_can_reuse_id:
  "let s0 = fresh_control;
       (s1, a) = prompt_turn x s0;
       (s2, b) = prompt_turn y (cancel_turn False None s1);
       (s3, c) = prompt_turn z (resume_turns [Rec_Turn_Prompt x, Rec_Turn_Cancel None, Rec_Turn_Prompt y])
   in a = Some (0, 0) \<and> b = Some (1, 1) \<and> c = Some (0, 2)"
  by (simp add: prompt_turn_def launch_def noted_def allocate_id_def fresh_control_def cancel_turn_def abort_turn_def Let_def
      resume_turns_def finish_resume_def restore_prompt_def)

subsection \<open>Runs\<close>

text \<open>
  Where a run is: in the one turn of an ordinary launch, past it and about to look at the goal, in a turn
  of the goal driver, or between two of those.
\<close>

datatype run_phase = Ordinary_Turn int | After_Ordinary bool | Driven_Turn int | Between_Turns

record flow_runs =
  fl_control :: turn_control
  fl_runs :: "(nat \<times> run_phase) list"
  fl_goal_active :: bool

fun in_turn :: "run_phase \<Rightarrow> bool" where
  "in_turn (Ordinary_Turn i) = True"
| "in_turn (Driven_Turn i) = True"
| "in_turn p = False"

text \<open>\<open>launch\<close> starts the run: the driver when the goal is active, an ordinary turn otherwise.\<close>

definition start_run :: "turn_control \<times> (nat \<times> int) option \<Rightarrow> flow_runs \<Rightarrow> flow_runs" where
  "start_run r w =
     (case snd r of
        None \<Rightarrow> w\<lparr>fl_control := fst r\<rparr>
      | Some (c, i) \<Rightarrow>
          w\<lparr>fl_control := fst r,
            fl_runs := (c, if fl_goal_active w then Driven_Turn i else Ordinary_Turn i) # fl_runs w\<rparr>)"

definition set_phase :: "nat \<Rightarrow> run_phase \<Rightarrow> flow_runs \<Rightarrow> flow_runs" where
  "set_phase c p w = w\<lparr>fl_runs := map (\<lambda>r. if fst r = c then (c, p) else r) (fl_runs w)\<rparr>"

text \<open>The end of an ordinary turn releases the flow unless the goal has become active.\<close>

definition release_after_turn :: "int \<Rightarrow> flow_runs \<Rightarrow> flow_runs" where
  "release_after_turn i w =
     (if tc_turn_id (fl_control w) = i \<and> \<not> fl_goal_active w
      then w\<lparr>fl_control := (fl_control w)\<lparr>tc_active := None\<rparr>\<rparr> else w)"

definition next_driven_turn :: "nat \<Rightarrow> flow_runs \<Rightarrow> flow_runs" where
  "next_driven_turn c w =
     (let s = allocate_id (fl_control w) in set_phase c (Driven_Turn (tc_turn_id s)) (w\<lparr>fl_control := s\<rparr>))"

definition owns_active_turn :: "nat \<Rightarrow> turn_control \<Rightarrow> bool" where
  "owns_active_turn c s \<longleftrightarrow> (\<exists>i. tc_active s = Some (Active_Turn c i))"

lemma owns_code [code]:
  "owns_active_turn c s = (case tc_active s of Some (Active_Turn c' i) \<Rightarrow> c' = c | _ \<Rightarrow> False)"
  by (auto simp: owns_active_turn_def split: option.split active_turn.split)

definition finish_run :: "nat \<Rightarrow> flow_runs \<Rightarrow> flow_runs" where
  "finish_run c w =
     (let s = fl_control w; s1 = (if owns_active_turn c s then s\<lparr>tc_active := None\<rparr> else s)
      in w\<lparr>fl_control := s1, fl_runs := filter (\<lambda>r. fst r \<noteq> c) (fl_runs w)\<rparr>)"

text \<open>
  One step of the program: a request of the user or of another component, or the progress of a live run
  up to its next suspension. The goal changes at any time, except that in a \<open>calm\<close> session none becomes
  active in the instant between the end of an ordinary turn and the look at the goal.
\<close>

datatype who = By_User | By_Run nat

inductive moves :: "bool \<Rightarrow> flow_runs \<Rightarrow> who \<Rightarrow> flow_runs \<Rightarrow> bool" for calm where
  prompted: "moves calm w By_User (start_run (prompt_turn x (fl_control w)) w)"
| steered: "moves calm w By_User (start_run (steer_turn x (fl_control w)) w)"
| cancelled: "moves calm w By_User (w\<lparr>fl_control := cancel_turn False i (fl_control w)\<rparr>)"
| goal_changed: "(calm \<Longrightarrow> b \<Longrightarrow> \<forall>c r. (c, After_Ordinary r) \<notin> set (fl_runs w)) \<Longrightarrow>
    moves calm w By_User (w\<lparr>fl_goal_active := b\<rparr>)"
| flushed: "(c, p) \<in> set (fl_runs w) \<Longrightarrow> in_turn p \<Longrightarrow>
    moves calm w (By_Run c) (w\<lparr>fl_control := fst (flush_steers (fl_control w))\<rparr>)"
| ordinary_ended: "(c, Ordinary_Turn i) \<in> set (fl_runs w) \<Longrightarrow>
    moves calm w (By_Run c) (set_phase c (After_Ordinary completed) (release_after_turn i w))"
| goes_driving: "(c, After_Ordinary True) \<in> set (fl_runs w) \<Longrightarrow> fl_goal_active w \<Longrightarrow>
    moves calm w (By_Run c) (next_driven_turn c w)"
| ordinary_done: "(c, After_Ordinary completed) \<in> set (fl_runs w) \<Longrightarrow> \<not> (fl_goal_active w \<and> completed) \<Longrightarrow>
    moves calm w (By_Run c) (finish_run c w)"
| driven_ended: "(c, Driven_Turn i) \<in> set (fl_runs w) \<Longrightarrow> moves calm w (By_Run c) (set_phase c Between_Turns w)"
| driven_again: "(c, Between_Turns) \<in> set (fl_runs w) \<Longrightarrow> fl_goal_active w \<Longrightarrow>
    moves calm w (By_Run c) (next_driven_turn c w)"
| driven_done: "(c, Between_Turns) \<in> set (fl_runs w) \<Longrightarrow> moves calm w (By_Run c) (finish_run c w)"

definition first_runs :: "turn_record list \<Rightarrow> bool \<Rightarrow> flow_runs" where
  "first_runs rs b = \<lparr>fl_control = resume_turns rs, fl_runs = [], fl_goal_active = b\<rparr>"

inductive reached :: "bool \<Rightarrow> turn_record list \<Rightarrow> flow_runs \<Rightarrow> bool" for calm rs where
  start: "reached calm rs (first_runs rs b)"
| move: "reached calm rs w \<Longrightarrow> moves calm w a w' \<Longrightarrow> reached calm rs w'"

subsection \<open>The invariant\<close>

definition allocated_ids :: "turn_control \<Rightarrow> int list" where
  "allocated_ids s = List.map_filter (\<lambda>e. case e of Allocated i \<Rightarrow> Some i | _ \<Rightarrow> None) (tc_log s)"

definition buffered_steers :: "turn_control \<Rightarrow> steer_input list" where
  "buffered_steers s = List.map_filter (\<lambda>e. case e of Buffered_Steer x \<Rightarrow> Some x | _ \<Rightarrow> None) (tc_log s)"

definition appended_steers :: "turn_control \<Rightarrow> steer_input list" where
  "appended_steers s = List.map_filter (\<lambda>e. case e of Appended_Steer x \<Rightarrow> Some x | _ \<Rightarrow> None) (tc_log s)"

definition books :: "int \<Rightarrow> turn_control \<Rightarrow> bool" where
  "books first s \<longleftrightarrow>
     sorted_wrt (<) (first # allocated_ids s) \<and> (\<forall>i\<in>set (first # allocated_ids s). i \<le> tc_turn_id s) \<and>
     buffered_steers s = appended_steers s @ tc_steers s"

definition owner_ok :: "flow_runs \<Rightarrow> bool" where
  "owner_ok w \<longleftrightarrow>
     (let s = fl_control w in
       distinct (map fst (fl_runs w)) \<and>
       (\<forall>(c, p)\<in>set (fl_runs w). c < tc_controllers s) \<and> (\<forall>c\<in>set (tc_aborted s). c < tc_controllers s) \<and>
       (\<forall>c i. (c, Ordinary_Turn i) \<in> set (fl_runs w) \<longrightarrow> i \<le> tc_turn_id s) \<and>
       (case tc_active s of
          None \<Rightarrow> True
        | Some Resuming \<Rightarrow> False
        | Some (Active_Turn c j) \<Rightarrow>
            c \<in> fst ` set (fl_runs w) \<and> c \<notin> set (tc_aborted s) \<and>
            (\<forall>c' i. (c', Ordinary_Turn i) \<in> set (fl_runs w) \<longrightarrow> c' \<noteq> c \<longrightarrow> i < tc_turn_id s)))"

definition others_stopped :: "flow_runs \<Rightarrow> bool" where
  "others_stopped w \<longleftrightarrow>
     (\<forall>c p. (c, p) \<in> set (fl_runs w) \<longrightarrow> owns_active_turn c (fl_control w) \<or> c \<in> set (tc_aborted (fl_control w)) \<or>
        (\<exists>b. p = After_Ordinary b \<and> \<not> fl_goal_active w))"

lemma filter_log_simps [simp]:
  "allocated_ids (noted evs s) = allocated_ids s @ List.map_filter (\<lambda>e. case e of Allocated i \<Rightarrow> Some i | _ \<Rightarrow> None) evs"
  "buffered_steers (noted evs s) = buffered_steers s @ List.map_filter (\<lambda>e. case e of Buffered_Steer x \<Rightarrow> Some x | _ \<Rightarrow> None) evs"
  "appended_steers (noted evs s) = appended_steers s @ List.map_filter (\<lambda>e. case e of Appended_Steer x \<Rightarrow> Some x | _ \<Rightarrow> None) evs"
  "allocated_ids (s\<lparr>tc_turn_id := i\<rparr>) = allocated_ids s" "buffered_steers (s\<lparr>tc_turn_id := i\<rparr>) = buffered_steers s"
  "appended_steers (s\<lparr>tc_turn_id := i\<rparr>) = appended_steers s"
  "allocated_ids (s\<lparr>tc_active := a\<rparr>) = allocated_ids s" "buffered_steers (s\<lparr>tc_active := a\<rparr>) = buffered_steers s"
  "appended_steers (s\<lparr>tc_active := a\<rparr>) = appended_steers s"
  "allocated_ids (s\<lparr>tc_controllers := n\<rparr>) = allocated_ids s" "buffered_steers (s\<lparr>tc_controllers := n\<rparr>) = buffered_steers s"
  "appended_steers (s\<lparr>tc_controllers := n\<rparr>) = appended_steers s"
  "allocated_ids (s\<lparr>tc_steers := xs\<rparr>) = allocated_ids s" "buffered_steers (s\<lparr>tc_steers := xs\<rparr>) = buffered_steers s"
  "appended_steers (s\<lparr>tc_steers := xs\<rparr>) = appended_steers s"
  "allocated_ids (s\<lparr>tc_aborted := cs\<rparr>) = allocated_ids s" "buffered_steers (s\<lparr>tc_aborted := cs\<rparr>) = buffered_steers s"
  "appended_steers (s\<lparr>tc_aborted := cs\<rparr>) = appended_steers s"
  by (simp_all add: allocated_ids_def buffered_steers_def appended_steers_def noted_def List.map_filter_def)

lemma noted_fields [simp]:
  "tc_turn_id (noted evs s) = tc_turn_id s" "tc_active (noted evs s) = tc_active s" "tc_steers (noted evs s) = tc_steers s"
  "tc_controllers (noted evs s) = tc_controllers s" "tc_aborted (noted evs s) = tc_aborted s"
  by (simp_all add: noted_def)

lemma allocate_fields [simp]:
  "tc_turn_id (allocate_id s) = tc_turn_id s + 1" "tc_active (allocate_id s) = tc_active s"
  "tc_controllers (allocate_id s) = tc_controllers s" "tc_aborted (allocate_id s) = tc_aborted s"
  "tc_steers (allocate_id s) = tc_steers s"
  by (simp_all add: allocate_id_def)

lemma books_allocate: "books k s \<Longrightarrow> books k (allocate_id s)"
  by (fastforce simp: books_def allocate_id_def List.map_filter_def sorted_wrt_append)

lemma books_changes [simp]:
  "books k (s\<lparr>tc_active := a\<rparr>) = books k s" "books k (s\<lparr>tc_controllers := n\<rparr>) = books k s"
  "books k (s\<lparr>tc_aborted := cs\<rparr>) = books k s" "books k (noted [Recorded_Prompt x] s) = books k s"
  "books k (noted [Recorded_Steer x] s) = books k s" "books k (noted [Recorded_Cancel i] s) = books k s"
  "books k (noted [Busy_Error j] s) = books k s"
  by (simp_all add: books_def List.map_filter_def)

lemma books_launch: "books k s \<Longrightarrow> books k (fst (launch s))"
  by (auto simp: launch_def Let_def dest: books_allocate)

lemma books_steer: "books k s \<Longrightarrow> books k (fst (steer_turn x s))"
  using books_launch [of k "noted [Recorded_Steer x] s"]
  by (auto simp: steer_turn_def Let_def) (simp add: books_def List.map_filter_def)

lemma books_cancel: "books k s \<Longrightarrow> books k (cancel_turn r i s)"
  by (auto simp: cancel_turn_def abort_turn_def Let_def split: option.split active_turn.split)

lemma map_filter_appended [simp]:
  "List.map_filter (\<lambda>e. case e of Appended_Steer x \<Rightarrow> Some x | _ \<Rightarrow> None) (map Appended_Steer xs) = xs"
  "List.map_filter (\<lambda>e. case e of Buffered_Steer x \<Rightarrow> Some x | _ \<Rightarrow> None) (map Appended_Steer xs) = []"
  "List.map_filter (\<lambda>e. case e of Allocated x \<Rightarrow> Some x | _ \<Rightarrow> None) (map Appended_Steer xs) = []"
  by (induction xs) (simp_all add: List.map_filter_def)

lemma books_flush: "books k s \<Longrightarrow> books k (fst (flush_steers s))"
  by (simp add: flush_steers_def books_def)

lemma control_simps [simp]:
  "fl_control (set_phase c p w) = fl_control w" "fl_goal_active (set_phase c p w) = fl_goal_active w"
  "fl_runs (release_after_turn i w) = fl_runs w" "fl_goal_active (release_after_turn i w) = fl_goal_active w"
  "fl_goal_active (finish_run c w) = fl_goal_active w" "fl_goal_active (start_run r w) = fl_goal_active w"
  "fl_control (start_run r w) = fst r"
  by (simp_all add: set_phase_def release_after_turn_def finish_run_def Let_def start_run_def split: option.split)

lemma moves_books: "moves calm w a w' \<Longrightarrow> books k (fl_control w) \<Longrightarrow> books k (fl_control w')"
  by (induction rule: moves.induct)
    (auto simp: prompt_turn_def books_launch books_steer books_cancel books_flush books_allocate release_after_turn_def
      finish_run_def next_driven_turn_def Let_def)

lemma set_phase_runs:
  "(c', q) \<in> set (fl_runs (set_phase c p w)) \<longleftrightarrow>
     (c' = c \<and> q = p \<and> c \<in> fst ` set (fl_runs w)) \<or> (c' \<noteq> c \<and> (c', q) \<in> set (fl_runs w))"
  by (auto simp: set_phase_def)

lemma set_phase_names [simp]:
  "map fst (fl_runs (set_phase c p w)) = map fst (fl_runs w)" "fst ` set (fl_runs (set_phase c p w)) = fst ` set (fl_runs w)"
proof -
  show "map fst (fl_runs (set_phase c p w)) = map fst (fl_runs w)"
    by (simp add: set_phase_def)
  from arg_cong [OF this, of set] show "fst ` set (fl_runs (set_phase c p w)) = fst ` set (fl_runs w)"
    by simp
qed

lemma owner_okI:
  assumes "distinct (map fst (fl_runs w))" "\<And>c p. (c, p) \<in> set (fl_runs w) \<Longrightarrow> c < tc_controllers (fl_control w)"
    and "\<And>c. c \<in> set (tc_aborted (fl_control w)) \<Longrightarrow> c < tc_controllers (fl_control w)"
    and "\<And>c i. (c, Ordinary_Turn i) \<in> set (fl_runs w) \<Longrightarrow> i \<le> tc_turn_id (fl_control w)"
    and "tc_active (fl_control w) \<noteq> Some Resuming"
    and "\<And>c j. tc_active (fl_control w) = Some (Active_Turn c j) \<Longrightarrow>
      c \<in> fst ` set (fl_runs w) \<and> c \<notin> set (tc_aborted (fl_control w))"
    and "\<And>c j c' i. tc_active (fl_control w) = Some (Active_Turn c j) \<Longrightarrow> (c', Ordinary_Turn i) \<in> set (fl_runs w) \<Longrightarrow>
      c' \<noteq> c \<Longrightarrow> i < tc_turn_id (fl_control w)"
  shows "owner_ok w"
  unfolding owner_ok_def Let_def using assms by (force split: option.split active_turn.split)

lemma owner_okD:
  assumes "owner_ok w"
  shows "distinct (map fst (fl_runs w))" "(c, p) \<in> set (fl_runs w) \<Longrightarrow> c < tc_controllers (fl_control w)"
    and "c \<in> set (tc_aborted (fl_control w)) \<Longrightarrow> c < tc_controllers (fl_control w)"
    and "(c, Ordinary_Turn i) \<in> set (fl_runs w) \<Longrightarrow> i \<le> tc_turn_id (fl_control w)"
    and "tc_active (fl_control w) \<noteq> Some Resuming"
    and "tc_active (fl_control w) = Some (Active_Turn c j) \<Longrightarrow>
      c \<in> fst ` set (fl_runs w) \<and> c \<notin> set (tc_aborted (fl_control w))"
    and "tc_active (fl_control w) = Some (Active_Turn c j) \<Longrightarrow> (c', Ordinary_Turn i) \<in> set (fl_runs w) \<Longrightarrow>
      c' \<noteq> c \<Longrightarrow> i < tc_turn_id (fl_control w)"
  using assms unfolding owner_ok_def Let_def by (auto split: option.splits active_turn.splits)

lemma owner_same:
  assumes "owner_ok w" "fl_runs w' = fl_runs w" "tc_turn_id (fl_control w') = tc_turn_id (fl_control w)"
    and "tc_active (fl_control w') = tc_active (fl_control w)" "tc_controllers (fl_control w') = tc_controllers (fl_control w)"
    and "tc_aborted (fl_control w') = tc_aborted (fl_control w)"
  shows "owner_ok w'"
  using assms(1) unfolding owner_ok_def Let_def assms(2-6) .

lemma owner_bound: "owner_ok w \<Longrightarrow> tc_active (fl_control w) = Some (Active_Turn c j) \<Longrightarrow> c < tc_controllers (fl_control w)"
  using owner_okD(2,6) by (metis (no_types, lifting) imageE prod.collapse)

lemma owner_start:
  assumes ok: "owner_ok w" and core: "tc_turn_id s = tc_turn_id (fl_control w)" "tc_active s = tc_active (fl_control w)"
    "tc_controllers s = tc_controllers (fl_control w)" "tc_aborted s = tc_aborted (fl_control w)"
  shows "owner_ok (start_run (launch s) w)"
proof (cases "tc_active s = None")
  case True
  have fresh: "tc_controllers (fl_control w) \<notin> fst ` set (fl_runs w)"
    using owner_okD(2) [OF ok] by fastforce
  show ?thesis
    using True core fresh owner_okD(1) [OF ok]
    by (intro owner_okI) (auto simp: start_run_def launch_def Let_def split: if_splits
      dest: owner_okD(2,3,4) [OF ok] intro: less_SucI)
next
  case False
  then have "start_run (launch s) w = w\<lparr>fl_control := noted [Busy_Error (tc_turn_id s)] s\<rparr>"
    by (simp add: start_run_def launch_def)
  then show ?thesis
    using core by (intro owner_same [OF ok]) simp_all
qed

lemma owner_cancel: "owner_ok w \<Longrightarrow> owner_ok (w\<lparr>fl_control := cancel_turn r i (fl_control w)\<rparr>)"
  by (rule owner_okI; frule owner_okD(1); frule owner_okD(5);
      auto simp: cancel_turn_def abort_turn_def Let_def dest: owner_okD(2-4,6,7) owner_bound split: if_splits option.splits active_turn.splits)

lemma owner_flush: "owner_ok w \<Longrightarrow> owner_ok (w\<lparr>fl_control := fst (flush_steers (fl_control w))\<rparr>)"
  by (erule owner_same) (simp_all add: flush_steers_def)

lemma owner_phase:
  assumes "owner_ok w" "\<And>i. p \<noteq> Ordinary_Turn i"
  shows "owner_ok (set_phase c p w)"
  by (rule owner_okI) (auto simp: set_phase_runs assms(2) owner_okD(1,5) [OF assms(1)] dest: owner_okD(2-4,6,7) [OF assms(1)])

lemma owner_none: "owner_ok w \<Longrightarrow> owner_ok (w\<lparr>fl_control := (fl_control w)\<lparr>tc_active := None\<rparr>\<rparr>)"
  by (auto simp: owner_ok_def Let_def)

lemma owner_release: "owner_ok w \<Longrightarrow> owner_ok (release_after_turn i w)"
  by (simp add: release_after_turn_def owner_none)

lemma owner_next:
  assumes "owner_ok w"
  shows "owner_ok (next_driven_turn c w)"
proof -
  have "owner_ok (w\<lparr>fl_control := allocate_id (fl_control w)\<rparr>)"
    by (rule owner_okI) (auto simp: owner_okD(1,5) [OF assms] dest: owner_okD(2-4,6,7) [OF assms] intro: less_imp_le)
  then show ?thesis
    by (simp add: next_driven_turn_def Let_def owner_phase)
qed

lemma owner_finish:
  assumes "owner_ok w"
  shows "owner_ok (finish_run c w)"
proof (rule owner_okI)
  show "distinct (map fst (fl_runs (finish_run c w)))"
    using owner_okD(1) [OF assms] by (simp add: finish_run_def Let_def distinct_map_filter)
qed (auto simp: finish_run_def Let_def owns_active_turn_def owner_okD(5) [OF assms] split: if_splits
    dest: owner_okD(2-4,6,7) [OF assms])

lemma moves_owner: "moves calm w a w' \<Longrightarrow> owner_ok w \<Longrightarrow> owner_ok w'"
proof (induction rule: moves.induct)
  case (steered w x)
  show ?case
  proof (cases "tc_active (fl_control w)")
    case None
    then show ?thesis
      using owner_start [OF steered, of "noted [Recorded_Steer x] (fl_control w)"] by (simp add: steer_turn_def Let_def)
  next
    case (Some a)
    then show ?thesis
      by (intro owner_same [OF steered]) (simp_all add: steer_turn_def start_run_def Let_def)
  qed
qed (simp_all add: prompt_turn_def owner_start owner_cancel owner_flush owner_phase owner_release owner_next owner_finish,
     erule owner_same, simp_all)

text \<open>Under calm, a run that does not own the flow is stopped or past its turn with no goal to drive.\<close>

lemma others_start:
  assumes "others_stopped w" "tc_active s = tc_active (fl_control w)" "tc_aborted s = tc_aborted (fl_control w)"
  shows "others_stopped (start_run (launch s) w)"
  using assms
  by (cases "tc_active s") (auto simp: others_stopped_def start_run_def launch_def owns_active_turn_def Let_def)

lemma unowned_run:
  assumes "others_stopped w" "(c, p) \<in> set (fl_runs w)" "\<And>b. p = After_Ordinary b \<Longrightarrow> fl_goal_active w"
  shows "owns_active_turn c (fl_control w) \<or> c \<in> set (tc_aborted (fl_control w))"
  using assms unfolding others_stopped_def by blast

lemma others_mono:
  assumes "others_stopped w"
    and "\<And>c p. (c, p) \<in> set (fl_runs w') \<Longrightarrow> (c, p) \<in> set (fl_runs w) \<and>
      (owns_active_turn c (fl_control w) \<longrightarrow> owns_active_turn c (fl_control w') \<or> c \<in> set (tc_aborted (fl_control w')))"
    and "set (tc_aborted (fl_control w)) \<subseteq> set (tc_aborted (fl_control w'))" "fl_goal_active w' \<Longrightarrow> fl_goal_active w"
  shows "others_stopped w'"
  using assms unfolding others_stopped_def by blast

lemma others_cancel: "others_stopped w \<Longrightarrow> others_stopped (w\<lparr>fl_control := cancel_turn r i (fl_control w)\<rparr>)"
  by (erule others_mono) (auto simp: cancel_turn_def abort_turn_def owns_active_turn_def Let_def
      split: option.split active_turn.split)

lemma others_phase:
  assumes "others_stopped w" "owns_active_turn c (fl_control w) \<or> c \<in> set (tc_aborted (fl_control w))"
  shows "others_stopped (set_phase c p w)"
  using assms by (auto simp: others_stopped_def set_phase_runs)

lemma others_finish: "others_stopped w \<Longrightarrow> others_stopped (finish_run c w)"
  by (erule others_mono) (auto simp: finish_run_def owns_active_turn_def Let_def)

lemma others_end:
  assumes "others_stopped w" "owner_ok w" "(c, Ordinary_Turn i) \<in> set (fl_runs w)"
  shows "others_stopped (set_phase c (After_Ordinary b) (release_after_turn i w))"
proof (cases "tc_turn_id (fl_control w) = i \<and> \<not> fl_goal_active w")
  case True
  have "c' = c" if "owns_active_turn c' (fl_control w)" for c'
    using owner_okD(7) [OF assms(2) _ assms(3)] that True unfolding owns_active_turn_def by fastforce
  then show ?thesis
    using assms(1) True by (auto simp: others_stopped_def set_phase_runs release_after_turn_def)
next
  case False
  have "owns_active_turn c (fl_control w) \<or> c \<in> set (tc_aborted (fl_control w))"
    by (rule unowned_run [OF assms(1,3)]) simp
  then show ?thesis
    using others_phase [OF assms(1)] False by (auto simp: release_after_turn_def)
qed

lemma others_next:
  assumes "others_stopped w" "owns_active_turn c (fl_control w) \<or> c \<in> set (tc_aborted (fl_control w))"
  shows "others_stopped (next_driven_turn c w)"
proof -
  let ?w = "w\<lparr>fl_control := allocate_id (fl_control w)\<rparr>"
  have "others_stopped ?w" "owns_active_turn c (fl_control ?w) \<or> c \<in> set (tc_aborted (fl_control ?w))"
    using assms by (auto simp: others_stopped_def owns_active_turn_def)
  then show ?thesis
    by (simp add: next_driven_turn_def Let_def others_phase)
qed

lemma moves_others: "moves True w a w' \<Longrightarrow> owner_ok w \<Longrightarrow> others_stopped w \<Longrightarrow> others_stopped w'"
proof (induction rule: moves.induct)
  case (steered w x)
  show ?case
  proof (cases "tc_active (fl_control w)")
    case None
    then show ?thesis
      using others_start [OF steered(2), of "noted [Recorded_Steer x] (fl_control w)"] by (simp add: steer_turn_def Let_def)
  next
    case (Some a)
    then show ?thesis
      by (intro others_mono [OF steered(2)]) (auto simp: steer_turn_def start_run_def owns_active_turn_def Let_def)
  qed
next
  case (goal_changed b w)
  show ?case
  proof (cases b)
    case True
    then show ?thesis
      using goal_changed(1,3) by (simp add: others_stopped_def owns_active_turn_def) blast
  qed (rule others_mono [OF goal_changed(3)], simp_all)
next
  case (flushed c p w)
  then show ?case
    by (intro others_mono [OF flushed(4)]) (auto simp: flush_steers_def owns_active_turn_def)
next
  case (driven_ended c i w)
  show ?case
    by (rule others_phase [OF driven_ended(3) unowned_run [OF driven_ended(3,1)]]) simp
qed (simp_all add: prompt_turn_def others_start others_cancel others_finish others_end others_next others_phase unowned_run)

subsection \<open>What every session keeps\<close>

lemma reached_owner: "reached calm rs w \<Longrightarrow> owner_ok w"
proof (induction rule: reached.induct)
  case (start b)
  show ?case
    by (rule owner_okI) (simp_all add: first_runs_def resume_turns_idle)
qed (blast intro: moves_owner)

lemma reached_others: "reached True rs w \<Longrightarrow> others_stopped w"
proof (induction rule: reached.induct)
  case (start b)
  show ?case
    by (simp add: others_stopped_def first_runs_def)
next
  case (move w a w')
  then show ?case
    using moves_others reached_owner by blast
qed

lemma reached_books: "reached calm rs w \<Longrightarrow> books (tc_turn_id (resume_turns rs)) (fl_control w)"
proof (induction rule: reached.induct)
  case (start b)
  show ?case
    by (simp add: books_def first_runs_def resume_turns_idle allocated_ids_def buffered_steers_def appended_steers_def
        List.map_filter_def)
qed (blast intro: moves_books)

lemma finish_keeps:
  assumes "tc_active (fl_control w) = Some a" "tc_active (fl_control (finish_run c w)) \<noteq> Some a"
  shows "\<exists>i. a = Active_Turn c i"
  using assms by (auto simp: finish_run_def owns_active_turn_def Let_def split: if_splits)

text \<open>
  A run clears the active turn only when it is its own: a turn that was cancelled and replaced while it
  was still winding down neither releases its successor nor takes the flow from it.
\<close>

theorem superseded_run_keeps_out:
  assumes "reached calm rs w" "moves calm w (By_Run c) w'" "tc_active (fl_control w) = Some a"
  shows "tc_active (fl_control w') = Some a \<or> (\<exists>i. a = Active_Turn c i)"
  using assms(2)
proof cases
  case (ordinary_ended i completed)
  have "a \<noteq> Resuming"
    using owner_okD(5) [OF reached_owner [OF assms(1)]] assms(3) by auto
  then obtain c' j where a: "a = Active_Turn c' j"
    by (cases a) auto
  show ?thesis
  proof (cases "c' = c")
    case False
    then have "i < tc_turn_id (fl_control w)"
      using owner_okD(7) [OF reached_owner [OF assms(1)] _ ordinary_ended(2)] assms(3) a by simp
    then show ?thesis
      using assms(3) ordinary_ended(1) by (simp add: release_after_turn_def)
  qed (simp add: a)
qed (use assms(3) finish_keeps [of w a c] in \<open>auto simp: flush_steers_def next_driven_turn_def Let_def\<close>)

text \<open>In any session, calm or not, a run in its ordinary turn owns the flow or has been aborted.\<close>

definition ordinary_owned :: "flow_runs \<Rightarrow> bool" where
  "ordinary_owned w \<longleftrightarrow>
     (\<forall>c i. (c, Ordinary_Turn i) \<in> set (fl_runs w) \<longrightarrow>
        owns_active_turn c (fl_control w) \<or> c \<in> set (tc_aborted (fl_control w)))"

lemma ordinary_mono:
  assumes "ordinary_owned w"
    and "\<And>c i. (c, Ordinary_Turn i) \<in> set (fl_runs w') \<Longrightarrow> (c, Ordinary_Turn i) \<in> set (fl_runs w) \<and>
      (owns_active_turn c (fl_control w) \<longrightarrow> owns_active_turn c (fl_control w') \<or> c \<in> set (tc_aborted (fl_control w')))"
    and "set (tc_aborted (fl_control w)) \<subseteq> set (tc_aborted (fl_control w'))"
  shows "ordinary_owned w'"
  using assms unfolding ordinary_owned_def by blast

lemma ordinary_start:
  assumes "ordinary_owned w" "tc_active s = tc_active (fl_control w)" "tc_aborted s = tc_aborted (fl_control w)"
  shows "ordinary_owned (start_run (launch s) w)"
  using assms
  by (cases "tc_active s") (auto simp: ordinary_owned_def start_run_def launch_def owns_active_turn_def Let_def)

lemma ordinary_cancel: "ordinary_owned w \<Longrightarrow> ordinary_owned (w\<lparr>fl_control := cancel_turn r i (fl_control w)\<rparr>)"
  by (erule ordinary_mono) (auto simp: cancel_turn_def abort_turn_def owns_active_turn_def Let_def
      split: option.split active_turn.split)

lemma ordinary_phase: "ordinary_owned w \<Longrightarrow> (\<And>i. p \<noteq> Ordinary_Turn i) \<Longrightarrow> ordinary_owned (set_phase c p w)"
  by (erule ordinary_mono) (auto simp: set_phase_runs)

lemma ordinary_next: "ordinary_owned w \<Longrightarrow> ordinary_owned (next_driven_turn c w)"
  by (erule ordinary_mono) (auto simp: next_driven_turn_def set_phase_runs owns_active_turn_def Let_def)

lemma ordinary_finish: "ordinary_owned w \<Longrightarrow> ordinary_owned (finish_run c w)"
  by (erule ordinary_mono) (auto simp: finish_run_def owns_active_turn_def Let_def)

lemma ordinary_end:
  assumes "ordinary_owned w" "owner_ok w" "(c, Ordinary_Turn i) \<in> set (fl_runs w)"
  shows "ordinary_owned (set_phase c (After_Ordinary b) (release_after_turn i w))"
proof (rule ordinary_mono [OF assms(1)])
  fix d j
  assume d: "(d, Ordinary_Turn j) \<in> set (fl_runs (set_phase c (After_Ordinary b) (release_after_turn i w)))"
  then have old: "(d, Ordinary_Turn j) \<in> set (fl_runs w)" "d \<noteq> c"
    by (auto simp: set_phase_runs release_after_turn_def split: if_splits)
  have "owns_active_turn d (fl_control w) \<Longrightarrow> i < tc_turn_id (fl_control w)"
    using owner_okD(7) [OF assms(2) _ assms(3), of d] old(2) by (auto simp: owns_active_turn_def)
  then show "(d, Ordinary_Turn j) \<in> set (fl_runs w) \<and> (owns_active_turn d (fl_control w) \<longrightarrow>
      owns_active_turn d (fl_control (set_phase c (After_Ordinary b) (release_after_turn i w))) \<or>
      d \<in> set (tc_aborted (fl_control (set_phase c (After_Ordinary b) (release_after_turn i w)))))"
    using old(1) by (auto simp: release_after_turn_def)
qed (simp add: release_after_turn_def)

lemma moves_ordinary: "moves calm w a w' \<Longrightarrow> owner_ok w \<Longrightarrow> ordinary_owned w \<Longrightarrow> ordinary_owned w'"
proof (induction rule: moves.induct)
  case (steered w x)
  show ?case
  proof (cases "tc_active (fl_control w)")
    case None
    then show ?thesis
      using ordinary_start [OF steered(2), of "noted [Recorded_Steer x] (fl_control w)"] by (simp add: steer_turn_def Let_def)
  next
    case (Some a)
    then show ?thesis
      by (intro ordinary_mono [OF steered(2)]) (auto simp: steer_turn_def start_run_def owns_active_turn_def Let_def)
  qed
next
  case (goal_changed b w)
  show ?case
    by (rule ordinary_mono [OF goal_changed(3)]) simp_all
next
  case (flushed c p w)
  then show ?case
    by (intro ordinary_mono [OF flushed(4)]) (auto simp: flush_steers_def owns_active_turn_def)
qed (simp_all add: prompt_turn_def ordinary_start ordinary_cancel ordinary_finish ordinary_end ordinary_next ordinary_phase)

lemma reached_ordinary: "reached calm rs w \<Longrightarrow> ordinary_owned w"
proof (induction rule: reached.induct)
  case (start b)
  show ?case
    by (simp add: ordinary_owned_def first_runs_def)
next
  case (move w a w')
  then show ?case
    using moves_ordinary reached_owner by blast
qed

text \<open>
  C12: whatever is prompted, steered and cancelled in the meantime, at most one run that has not been aborted is
  inside a turn, with one exception: in a session that is not calm, where a goal becomes active in the instant
  between the end of an ordinary turn and the look at the goal, one of the two can be in a turn of the goal
  driver. Two ordinary turns never overlap unless one is aborted. The exception is real
  (\<open>late_goal_runs_beside_turn\<close>).
\<close>

theorem one_run_in_a_turn:
  assumes "reached calm rs w" "(c, p) \<in> set (fl_runs w)" "(d, q) \<in> set (fl_runs w)" "in_turn p" "in_turn q" "c \<noteq> d"
  shows "c \<in> set (tc_aborted (fl_control w)) \<or> d \<in> set (tc_aborted (fl_control w)) \<or>
    \<not> calm \<and> (\<exists>i. p = Driven_Turn i \<or> q = Driven_Turn i)"
proof -
  have owned: "owns_active_turn x (fl_control w) \<or> x \<in> set (tc_aborted (fl_control w))"
    if "(x, r) \<in> set (fl_runs w)" "in_turn r" "calm \<or> (\<forall>i. r \<noteq> Driven_Turn i)" for x r
  proof (cases r)
    case (Ordinary_Turn i)
    then show ?thesis
      using that(1) reached_ordinary [OF assms(1)] by (auto simp: ordinary_owned_def)
  next
    case (Driven_Turn i)
    then have calm
      using that(3) by blast
    then have "others_stopped w"
      using assms(1) reached_others by simp
    then show ?thesis
      by (rule unowned_run [OF _ that(1)]) (simp add: Driven_Turn)
  qed (use that(2) in simp_all)
  show ?thesis
  proof (cases "calm \<or> (\<forall>i. p \<noteq> Driven_Turn i \<and> q \<noteq> Driven_Turn i)")
    case True
    then show ?thesis
      using owned [OF assms(2,4)] owned [OF assms(3,5)] assms(6) by (auto simp: owns_active_turn_def)
  qed blast
qed

text \<open>
  C18: turn ids are handed out in increasing order, above all ids of the resumed session, and every steer
  accepted while a turn was active reaches the conversation once and in the order of arrival, or is
  still waiting.
\<close>

theorem turn_books_balance:
  assumes "reached calm rs w"
  shows "sorted_wrt (<) (tc_turn_id (resume_turns rs) # allocated_ids (fl_control w)) \<and>
    buffered_steers (fl_control w) = appended_steers (fl_control w) @ tc_steers (fl_control w)"
  using reached_books [OF assms] by (simp add: books_def)

subsection \<open>Concrete sessions\<close>

text \<open>A prompt, a steer that comes too late to be seen, and a cancel: the steer waits though nothing runs.\<close>

theorem steer_can_be_stranded:
  "\<exists>w. reached True rs w \<and> tc_active (fl_control w) = None \<and> tc_steers (fl_control w) = [x] \<and> fl_runs w = []"
proof -
  let ?w0 = "first_runs rs False"
  let ?w1 = "start_run (prompt_turn y (fl_control ?w0)) ?w0"
  let ?w2 = "start_run (steer_turn x (fl_control ?w1)) ?w1"
  let ?w3 = "?w2\<lparr>fl_control := cancel_turn False None (fl_control ?w2)\<rparr>"
  let ?i = "tc_turn_id (resume_turns rs) + 1"
  let ?w4 = "set_phase 0 (After_Ordinary False) (release_after_turn ?i ?w3)"
  let ?w5 = "finish_run 0 ?w4"
  note unfold = first_runs_def prompt_turn_def steer_turn_def launch_def start_run_def resume_turns_idle cancel_turn_def
    abort_turn_def Let_def set_phase_def release_after_turn_def finish_run_def owns_active_turn_def
  have "reached True rs ?w3"
    by (intro reached.move [OF _ moves.cancelled] reached.move [OF _ moves.steered] reached.move [OF _ moves.prompted]
        reached.start)
  moreover have "(0, Ordinary_Turn ?i) \<in> set (fl_runs ?w3)" "(0, After_Ordinary False) \<in> set (fl_runs ?w4)"
    by (simp_all add: unfold)
  ultimately have "reached True rs ?w5"
    by (blast intro: reached.move moves.ordinary_ended moves.ordinary_done)
  moreover have "tc_active (fl_control ?w5) = None \<and> tc_steers (fl_control ?w5) = [x] \<and> fl_runs ?w5 = []"
    by (simp add: unfold)
  ultimately show ?thesis
    by blast
qed

text \<open>Two prompts with a cancel between them: the first run is still winding down.\<close>

definition overtaken :: flow_runs where
  "overtaken =
     (let w0 = first_runs [Rec_Loop_Event (Some 4)] False;
          w1 = start_run (prompt_turn ([TextPart ''a''], Origin_User) (fl_control w0)) w0;
          w2 = w1\<lparr>fl_control := cancel_turn False None (fl_control w1)\<rparr>
      in start_run (prompt_turn ([TextPart ''b''], Origin_User) (fl_control w2)) w2)"

lemma overtaken_reached: "reached calm [Rec_Loop_Event (Some 4)] overtaken"
  unfolding overtaken_def Let_def
  by (intro reached.move [OF _ moves.cancelled] reached.move [OF _ moves.prompted] reached.start)

lemma overtaken_state:
  "fl_runs overtaken = [(1, Ordinary_Turn 6), (0, Ordinary_Turn 5)]" "tc_aborted (fl_control overtaken) = [0]"
  "tc_active (fl_control overtaken) = Some (Active_Turn 1 6)"
  by code_simp+

text \<open>
  A goal that becomes active in that instant: the run has released the flow and goes on driving the goal, and
  the next prompt starts a second run beside it. Neither is aborted, and nothing owns the first one.
\<close>

definition late_goal :: flow_runs where
  "late_goal =
     (let w0 = first_runs [] False;
          w1 = start_run (prompt_turn ([TextPart ''a''], Origin_User) (fl_control w0)) w0;
          w2 = set_phase 0 (After_Ordinary True) (release_after_turn 0 w1);
          w3 = next_driven_turn 0 (w2\<lparr>fl_goal_active := True\<rparr>)
      in start_run (prompt_turn ([TextPart ''b''], Origin_User) (fl_control w3)) w3)"

theorem late_goal_runs_beside_turn:
  "reached False [] late_goal \<and> fl_runs late_goal = [(1, Driven_Turn 2), (0, Driven_Turn 1)] \<and>
   tc_aborted (fl_control late_goal) = []"
proof -
  let ?w0 = "first_runs [] False"
  let ?w1 = "start_run (prompt_turn ([TextPart ''a''], Origin_User) (fl_control ?w0)) ?w0"
  let ?w2 = "set_phase 0 (After_Ordinary True) (release_after_turn 0 ?w1)"
  let ?w3 = "?w2\<lparr>fl_goal_active := True\<rparr>"
  have "(0, Ordinary_Turn 0) \<in> set (fl_runs ?w1)" "(0, After_Ordinary True) \<in> set (fl_runs ?w3)" "fl_goal_active ?w3"
    by code_simp+
  moreover have "reached False [] ?w1"
    by (intro reached.move [OF _ moves.prompted] reached.start)
  ultimately have "reached False [] (next_driven_turn 0 ?w3)"
    by (blast intro: reached.move moves.ordinary_ended moves.goal_changed moves.goes_driving)
  then have "reached False [] late_goal"
    unfolding late_goal_def Let_def by (intro reached.move [OF _ moves.prompted])
  moreover have "fl_runs late_goal = [(1, Driven_Turn 2), (0, Driven_Turn 1)]" "tc_aborted (fl_control late_goal) = []"
    by code_simp+
  ultimately show ?thesis
    by blast
qed


theorem superseded_run_keeps_out_witness:
  "\<exists>w'. moves True overtaken (By_Run 0) w' \<and> tc_active (fl_control w') = Some (Active_Turn 1 6)"
proof -
  have move: "moves True overtaken (By_Run 0) (set_phase 0 (After_Ordinary False) (release_after_turn 5 overtaken))"
    by (rule moves.ordinary_ended) (simp add: overtaken_state)
  show ?thesis
    using superseded_run_keeps_out [OF overtaken_reached move overtaken_state(3)] move by auto
qed

theorem one_run_in_a_turn_witness:
  "\<exists>c d. c \<noteq> d \<and> {(c, Ordinary_Turn 6), (d, Ordinary_Turn 5)} \<subseteq> set (fl_runs overtaken) \<and>
     (c \<in> set (tc_aborted (fl_control overtaken)) \<or> d \<in> set (tc_aborted (fl_control overtaken)))"
  using one_run_in_a_turn [OF overtaken_reached [where calm = True], of 1 "Ordinary_Turn 6" 0 "Ordinary_Turn 5"]
  by (intro exI [of _ 1] exI [of _ 0]) (simp add: overtaken_state)

theorem turn_books_balance_witness:
  "sorted_wrt (<) (tc_turn_id (resume_turns [Rec_Loop_Event (Some 4)]) # allocated_ids (fl_control overtaken)) \<and>
   allocated_ids (fl_control overtaken) = [5, 6]"
  using turn_books_balance [OF overtaken_reached] by (simp add: conjunct1) code_simp

subsection \<open>After a stop\<close>

text \<open>
  \<open>shouldContinueAfterStop\<close>, asked when a step ends without tool calls: steers first, then the message
  that tells the outcome of a goal, then the \<open>Stop\<close> hook, each of the last two at most once in a step loop.
  The flags are the local variables of the loop; \<open>stopped\<close> tells whether the signal is aborted before
  and after the hook; \<open>hook\<close> is the reason of the hook that blocks the stop.
\<close>

record stop_flags =
  sf_hook_used :: bool
  sf_outcome_used :: bool

datatype stop_answer = Goes_On | Stops | Throws_Abort

definition is_goal_outcome_reminder :: "prompt_origin option \<Rightarrow> bool" where
  "is_goal_outcome_reminder origin \<longleftrightarrow>
     origin = Some (Origin_System_Trigger ''goal_completion'') \<or> origin = Some (Origin_System_Trigger ''goal_blocked'')"

definition has_step_budget_remaining :: "int option \<Rightarrow> int \<Rightarrow> bool" where
  "has_step_budget_remaining max_steps current =
     (case max_steps of None \<Rightarrow> True | Some k \<Rightarrow> k \<le> 0 \<or> current < k)"

definition append_steers :: "int \<Rightarrow> steer_input list \<Rightarrow> context_memory \<Rightarrow> context_memory" where
  "append_steers now xs cx = fold (\<lambda>(content, origin) cx. fst (append_user_message now content origin cx)) xs cx"

definition last_origin :: "context_memory \<Rightarrow> prompt_origin option" where
  "last_origin cx = (if history cx = [] then None else cm_origin (last (history cx)))"

definition should_continue_after_stop ::
  "int \<Rightarrow> bool \<times> bool \<Rightarrow> string option \<Rightarrow> int option \<Rightarrow> int \<Rightarrow> stop_flags \<times> turn_control \<times> context_memory \<Rightarrow>
   (stop_flags \<times> turn_control \<times> context_memory) \<times> stop_answer" where
  "should_continue_after_stop now stopped hook max_steps step st =
     (case st of (fl, s, cx) \<Rightarrow>
       if snd (flush_steers s) then ((fl, fst (flush_steers s), append_steers now (tc_steers s) cx), Goes_On)
       else if fst stopped then ((fl, s, cx), Throws_Abort)
       else if \<not> sf_outcome_used fl \<and> is_goal_outcome_reminder (last_origin cx)
       then
         let fl1 = fl\<lparr>sf_outcome_used := True\<rparr>
         in if has_step_budget_remaining max_steps step then ((fl1, s, cx), Goes_On)
            else ((fl1, s, fst (pop_matched_message is_goal_outcome_reminder cx)), Stops)
       else if \<not> sf_hook_used fl
       then
         if snd stopped then ((fl, s, cx), Throws_Abort)
         else case hook of
           None \<Rightarrow> ((fl, s, cx), Stops)
         | Some reason \<Rightarrow>
             ((fl\<lparr>sf_hook_used := True\<rparr>, s,
               fst (append_user_message now [TextPart reason] (Origin_System_Trigger ''stop_hook'') cx)), Goes_On)
       else ((fl, s, cx), Stops))"

text \<open>The continuations of a step loop, each asked with its own signal, hook and step.\<close>

type_synonym stop_question = "(int \<times> bool \<times> bool) \<times> string option \<times> int option \<times> int"

fun continuations ::
  "stop_question list \<Rightarrow> stop_flags \<times> turn_control \<times> context_memory \<Rightarrow> nat" where
  "continuations [] st = 0"
| "continuations (((now, stopped), hook, max_steps, step) # qs) st =
     (case should_continue_after_stop now stopped hook max_steps step st of
        (st', Goes_On) \<Rightarrow> Suc (continuations qs st')
      | _ \<Rightarrow> 0)"

definition continuations_left :: "stop_flags \<Rightarrow> nat" where
  "continuations_left fl = of_bool (\<not> sf_hook_used fl) + of_bool (\<not> sf_outcome_used fl)"

lemma continuation_costs:
  assumes "tc_steers s = []" "should_continue_after_stop now stopped hook max_steps step (fl, s, cx) = ((fl', s', cx'), Goes_On)"
  shows "s' = s \<and> continuations_left fl' < continuations_left fl"
  using assms
  by (auto simp: should_continue_after_stop_def flush_steers_def continuations_left_def Let_def split: if_splits option.splits)

lemma continuations_bounded:
  "tc_steers s = [] \<Longrightarrow> continuations qs (fl, s, cx) \<le> continuations_left fl"
proof (induction qs arbitrary: fl cx)
  case (Cons q qs)
  obtain now stopped hook max_steps step where q: "q = ((now, stopped), hook, max_steps, step)"
    by (metis surj_pair)
  obtain fl' s' cx' a where answer: "should_continue_after_stop now stopped hook max_steps step (fl, s, cx) = ((fl', s', cx'), a)"
    by (metis surj_pair)
  show ?case
  proof (cases "a = Goes_On")
    case True
    then have "s' = s \<and> continuations_left fl' < continuations_left fl"
      using continuation_costs [OF Cons.prems] answer by simp
    moreover have "continuations qs (fl', s, cx') \<le> continuations_left fl'"
      by (rule Cons.IH [OF Cons.prems])
    ultimately show ?thesis
      using answer True by (simp add: q)
  next
    case False
    then show ?thesis
      using answer by (cases a) (simp_all add: q)
  qed
qed simp

text \<open>
  A step loop that gets no steers is continued after a stop at most twice, once for the outcome of a goal
  and once for the \<open>Stop\<close> hook, whatever the hook answers each time.
\<close>

theorem stop_continues_at_most_twice:
  assumes "tc_steers s = []"
  shows "continuations qs (\<lparr>sf_hook_used = False, sf_outcome_used = False\<rparr>, s, cx) \<le> 2"
  using continuations_bounded [OF assms, of qs "\<lparr>sf_hook_used = False, sf_outcome_used = False\<rparr>" cx]
  by (simp add: continuations_left_def)

text \<open>
  The outcome reminder taken back when no step is left is taken back in memory only: nothing is
  recorded, and replaying the records of the session brings it back into the conversation.
\<close>

theorem popped_reminder_returns:
  "let (cx, recs) = append_system_reminder 0 ''done'' (Origin_System_Trigger ''goal_completion'') empty_context;
       ((_, _, cx'), answer) = should_continue_after_stop 1 (False, False) None (Some 1) 1
         (\<lparr>sf_hook_used = False, sf_outcome_used = False\<rparr>, fresh_control, cx)
   in answer = Stops \<and> history cx' = [] \<and> map_sum (\<lambda>_. ()) (\<lambda>s. history s = []) (ctx_replay empty_context (map (Pair 0) recs)) = Inr False"
  by code_simp

theorem stop_continues_at_most_twice_witness:
  "continuations (replicate 5 ((0, False, False), Some ''again'', None, 1))
     (\<lparr>sf_hook_used = False, sf_outcome_used = False\<rparr>, fresh_control,
      fst (append_system_reminder 0 ''done'' (Origin_System_Trigger ''goal_completion'') empty_context)) \<le> 2"
  by (rule stop_continues_at_most_twice) (simp add: fresh_control_def)

end
