(* ===== verification/Record_Migration.thy ===== *)
theory Record_Migration
  imports Json Complex_Main
begin

text \<open>
  The record log of an agent: the versions of its format and their migrations (\<open>agent/records/migration\<close>),
  and \<open>AgentRecords\<close> (\<open>agent/records/index.ts\<close>), which writes records and replays them. A record is a JSON
  object; a property that the source sets to \<open>undefined\<close> is absent, as it is for its readers and in the
  file. What a record does to the agent when it is restored is an argument: the components model their own.
\<close>

subsection \<open>Objects\<close>

type_synonym wire_record = "(string \<times> json) list"

definition obj_get :: "string \<Rightarrow> wire_record \<Rightarrow> json option" where
  "obj_get k r = map_of r k"

text \<open>Setting a property keeps its place in the object or appends it.\<close>

fun obj_put :: "string \<Rightarrow> json \<Rightarrow> wire_record \<Rightarrow> wire_record" where
  "obj_put k v [] = [(k, v)]"
| "obj_put k v ((k', v') # r) = (if k' = k then (k, v) # r else (k', v') # obj_put k v r)"

definition obj_del :: "string \<Rightarrow> wire_record \<Rightarrow> wire_record" where
  "obj_del k r = filter (\<lambda>kv. fst kv \<noteq> k) r"

definition obj_set :: "string \<Rightarrow> json option \<Rightarrow> wire_record \<Rightarrow> wire_record" where
  "obj_set k v r = (case v of None \<Rightarrow> obj_del k r | Some v \<Rightarrow> obj_put k v r)"

definition record_type :: "wire_record \<Rightarrow> string option" where
  "record_type r = (case obj_get ''type'' r of Some (JStr t) \<Rightarrow> Some t | _ \<Rightarrow> None)"

text \<open>A new object with some properties of another, in the order given.\<close>

definition picked :: "string list \<Rightarrow> wire_record \<Rightarrow> wire_record" where
  "picked ks r = List.map_filter (\<lambda>k. map_option (Pair k) (obj_get k r)) ks"

lemma obj_get_put [simp]: "obj_get k (obj_put k' v r) = (if k = k' then Some v else obj_get k r)"
  by (induction r) (auto simp: obj_get_def)

lemma obj_put_same: "obj_get k r = Some v \<Longrightarrow> obj_put k v r = r"
  by (induction r) (auto simp: obj_get_def split: if_splits)

lemma obj_get_append: "obj_get k (r @ r') = (case obj_get k r of None \<Rightarrow> obj_get k r' | Some v \<Rightarrow> Some v)"
  by (auto simp: obj_get_def map_add_def split: option.split)

subsection \<open>Versions\<close>

definition current_version :: string where
  "current_version = ''1.4''"

text \<open>
  \<open>Number\<close> on a part of a version: digits and the empty text are read here, any other text (exponents,
  signs, blanks) by the argument \<open>num\<close>. \<open>None\<close> is \<open>NaN\<close>.
\<close>

definition part_number :: "(string \<Rightarrow> rat option) \<Rightarrow> string \<Rightarrow> rat option" where
  "part_number num p = (if list_all is_digit_char p then Some (of_nat (decimal_value p)) else num p)"

definition nth_part :: "string list \<Rightarrow> nat \<Rightarrow> string" where
  "nth_part ps i = (if i < length ps then ps ! i else ''0'')"

fun first_difference :: "(string \<Rightarrow> rat option) \<Rightarrow> (string \<times> string) list \<Rightarrow> rat option" where
  "first_difference num [] = Some 0"
| "first_difference num ((p, q) # ps) =
     (case (part_number num p, part_number num q) of
        (Some m, Some n) \<Rightarrow> if m - n \<noteq> 0 then Some (m - n) else first_difference num ps
      | _ \<Rightarrow> None)"

definition compare_wire_versions :: "(string \<Rightarrow> rat option) \<Rightarrow> string \<Rightarrow> string \<Rightarrow> rat option" where
  "compare_wire_versions num a b =
     (let ps = split_on (CHR ''.'') a; qs = split_on (CHR ''.'') b
      in first_difference num (map (\<lambda>i. (nth_part ps i, nth_part qs i)) [0..<max (length ps) (length qs)]))"

definition is_newer_wire_version :: "(string \<Rightarrow> rat option) \<Rightarrow> string \<Rightarrow> bool" where
  "is_newer_wire_version num v \<longleftrightarrow> (case compare_wire_versions num v current_version of None \<Rightarrow> False | Some d \<Rightarrow> d > 0)"

subsection \<open>Migrations\<close>

text \<open>Version 1.1 flattens tool calls. \<open>None\<close>: the code throws a \<open>TypeError\<close>.\<close>

definition migrate_tool_call :: "json \<Rightarrow> json option" where
  "migrate_tool_call call =
     (case call of
        JObj fs \<Rightarrow>
          (case obj_get ''function'' fs of
             None \<Rightarrow> None
           | Some JNull \<Rightarrow> None
           | Some fn \<Rightarrow>
               let inner = (case fn of JObj g \<Rightarrow> g | _ \<Rightarrow> [])
               in Some (JObj (obj_set ''arguments'' (obj_get ''arguments'' inner)
                    (obj_set ''name'' (obj_get ''name'' inner) (obj_del ''function'' fs)))))
      | _ \<Rightarrow> None)"

fun migrate_all :: "('a \<Rightarrow> 'a option) \<Rightarrow> 'a list \<Rightarrow> 'a list option" where
  "migrate_all f [] = Some []"
| "migrate_all f (x # xs) =
     (case f x of None \<Rightarrow> None | Some y \<Rightarrow> map_option (Cons y) (migrate_all f xs))"

definition migrate_to_1_1 :: "wire_record \<Rightarrow> wire_record option" where
  "migrate_to_1_1 r =
     (if record_type r \<noteq> Some ''context.append_message'' then Some r
      else case obj_get ''message'' r of
        Some (JObj m) \<Rightarrow>
          (case obj_get ''toolCalls'' m of
             Some (JArr calls) \<Rightarrow>
               map_option (\<lambda>calls'. obj_put ''message'' (JObj (obj_put ''toolCalls'' (JArr calls') m)) r)
                 (migrate_all migrate_tool_call calls)
           | _ \<Rightarrow> None)
      | _ \<Rightarrow> None)"

text \<open>Version 1.2 gives approvals for a session the rule their action stood for.\<close>

definition legacy_action_pattern :: "string \<Rightarrow> string option" where
  "legacy_action_pattern action =
     map_of [(''run command'', ''Bash''), (''stop background task'', ''TaskStop''), (''edit file'', ''Write''),
       (''edit file outside of working directory'', ''Write''), (''write file'', ''Write'')] action"

definition unrestorable_actions :: "string list" where
  "unrestorable_actions = [''run command in plan mode'', ''run background command'']"

definition approval_pattern :: "wire_record \<Rightarrow> json option" where
  "approval_pattern r =
     (case obj_get ''action'' r of
        Some (JStr action) \<Rightarrow>
          if action \<in> set unrestorable_actions then None
          else (case legacy_action_pattern action of Some p \<Rightarrow> Some (JStr p) | None \<Rightarrow> obj_get ''toolName'' r)
      | _ \<Rightarrow> obj_get ''toolName'' r)"

definition migrate_to_1_2 :: "wire_record \<Rightarrow> wire_record option" where
  "migrate_to_1_2 r =
     (if record_type r \<noteq> Some ''permission.record_approval_result'' then Some r
      else case obj_get ''result'' r of
        Some (JObj res) \<Rightarrow>
          if obj_get ''decision'' res \<noteq> Some (JStr ''approved'') \<or> obj_get ''scope'' res \<noteq> Some (JStr ''session'') then Some r
          else if obj_get ''sessionApprovalRule'' r \<noteq> None then Some r
          else (case approval_pattern r of
            None \<Rightarrow> Some r
          | Some p \<Rightarrow> Some (obj_put ''sessionApprovalRule'' p r))
      | None \<Rightarrow> None
      | Some JNull \<Rightarrow> None
      | _ \<Rightarrow> Some r)"

definition migrate_to_1_3 :: "wire_record \<Rightarrow> wire_record option" where
  "migrate_to_1_3 r = Some r"

text \<open>Version 1.4 has three goal records left.\<close>

definition retyped :: "string \<Rightarrow> string list \<Rightarrow> wire_record \<Rightarrow> wire_record" where
  "retyped t ks r = (''type'', JStr t) # picked ks r"

definition migrate_to_1_4 :: "wire_record \<Rightarrow> wire_record option" where
  "migrate_to_1_4 r =
     Some (if record_type r = Some ''goal.create''
        then retyped ''goal.create'' [''goalId'', ''objective'', ''completionCriterion'', ''time''] r
      else if record_type r = Some ''goal.update''
        then retyped ''goal.update''
          [''status'', ''reason'', ''turnsUsed'', ''tokensUsed'', ''wallClockMs'', ''actor'', ''time''] r
      else if record_type r = Some ''goal.account_usage''
        then retyped ''goal.update'' [''tokensUsed'', ''wallClockMs'', ''time''] r
      else if record_type r = Some ''goal.continuation'' then retyped ''goal.update'' [''turnsUsed'', ''time''] r
      else if record_type r = Some ''goal.clear'' then retyped ''goal.clear'' [''time''] r
      else r)"

record wire_migration =
  wm_source :: string
  wm_target :: string
  wm_apply :: "wire_record \<Rightarrow> wire_record option"

definition wire_migrations :: "wire_migration list" where
  "wire_migrations =
     [\<lparr>wm_source = ''1.0'', wm_target = ''1.1'', wm_apply = migrate_to_1_1\<rparr>,
      \<lparr>wm_source = ''1.1'', wm_target = ''1.2'', wm_apply = migrate_to_1_2\<rparr>,
      \<lparr>wm_source = ''1.2'', wm_target = ''1.3'', wm_apply = migrate_to_1_3\<rparr>,
      \<lparr>wm_source = ''1.3'', wm_target = ''1.4'', wm_apply = migrate_to_1_4\<rparr>]"

definition find_migration :: "string \<Rightarrow> wire_migration option" where
  "find_migration v = List.find (\<lambda>m. wm_source m = v) wire_migrations"

definition older :: "(string \<Rightarrow> rat option) \<Rightarrow> string \<Rightarrow> bool" where
  "older num v \<longleftrightarrow> (case compare_wire_versions num v current_version of None \<Rightarrow> False | Some d \<Rightarrow> d < 0)"

text \<open>The loop of \<open>resolveWireMigrations\<close>; \<open>Some None\<close> when a migration is missing.\<close>

partial_function (option) resolve_loop ::
  "(string \<Rightarrow> rat option) \<Rightarrow> wire_migration list \<Rightarrow> string \<Rightarrow> wire_migration list option option" where
  "resolve_loop num found v =
     (if older num v
      then case find_migration v of
        None \<Rightarrow> Some None
      | Some m \<Rightarrow> resolve_loop num (found @ [m]) (wm_target m)
      else Some (Some found))"

definition resolve_wire_migrations ::
  "(string \<Rightarrow> rat option) \<Rightarrow> string \<Rightarrow> wire_migration list option option" where
  "resolve_wire_migrations num v =
     (case compare_wire_versions num v current_version of
        Some d \<Rightarrow> if d \<ge> 0 then Some (Some []) else resolve_loop num [] v
      | None \<Rightarrow> resolve_loop num [] v)"

fun migrate_wire_record :: "wire_migration list \<Rightarrow> wire_record \<Rightarrow> wire_record option" where
  "migrate_wire_record [] r = Some r"
| "migrate_wire_record (m # ms) r =
     (case wm_apply m r of None \<Rightarrow> None | Some r' \<Rightarrow> migrate_wire_record ms r')"

lemma part_digits [simp]: "list_all is_digit_char p \<Longrightarrow> part_number num p = Some (of_nat (decimal_value p))"
  by (simp add: part_number_def)

lemma not_older_current: "compare_wire_versions num ''1.4'' current_version = Some 0"
  by (simp add: compare_wire_versions_def current_version_def nth_part_def upt_rec numeral_eq_Suc part_number_def
      is_digit_char_def)

lemma older_versions [simp]:
  "older num ''1.0''" "older num ''1.1''" "older num ''1.2''" "older num ''1.3''" "\<not> older num ''1.4''"
  by (simp_all add: older_def compare_wire_versions_def current_version_def nth_part_def upt_rec numeral_eq_Suc
      is_digit_char_def decimal_value_def digit_val_def)

lemma resolve_known:
  "resolve_loop num found ''1.4'' = Some (Some found)"
  "resolve_loop num found ''1.3'' = Some (Some (found @ drop 3 wire_migrations))"
  "resolve_loop num found ''1.2'' = Some (Some (found @ drop 2 wire_migrations))"
  "resolve_loop num found ''1.1'' = Some (Some (found @ drop 1 wire_migrations))"
  "resolve_loop num found ''1.0'' = Some (Some (found @ wire_migrations))"
  by (subst resolve_loop.simps, simp add: find_migration_def wire_migrations_def)+

lemma resolve_cases:
  "resolve_wire_migrations num v =
     Some (if \<not> older num v then Some []
       else if v \<in> set (map wm_source wire_migrations)
       then Some (dropWhile (\<lambda>m. wm_source m \<noteq> v) wire_migrations) else None)"
proof -
  have known: "v \<in> set (map wm_source wire_migrations) \<longleftrightarrow> v = ''1.0'' \<or> v = ''1.1'' \<or> v = ''1.2'' \<or> v = ''1.3''"
    by (auto simp: wire_migrations_def)
  have miss: "resolve_loop num [] v = Some None" if "older num v" "v \<notin> set (map wm_source wire_migrations)"
    using that by (subst resolve_loop.simps) (auto simp: find_migration_def wire_migrations_def)
  have stop: "resolve_loop num [] v = Some (Some [])" if "\<not> older num v"
    using that by (subst resolve_loop.simps) simp
  have loop: "resolve_wire_migrations num v = resolve_loop num [] v"
    by (auto simp: resolve_wire_migrations_def older_def stop split: option.split)
  show ?thesis
  proof (cases "v \<in> set (map wm_source wire_migrations)")
    case True
    then consider "v = ''1.0''" | "v = ''1.1''" | "v = ''1.2''" | "v = ''1.3''"
      using known by blast
    then show ?thesis
      unfolding loop by cases (simp_all add: resolve_known, simp_all add: wire_migrations_def)
  next
    case False
    then show ?thesis
      unfolding loop using miss stop by simp
  qed
qed

text \<open>
  The migrations of a version are found in one pass: none for the current version, a newer one and text
  that is no version; for each of the four old versions the table from its entry on, which ends at the
  current version; any other older version is refused. In particular the search always ends.
\<close>

theorem migrations_reach_current:
  "resolve_wire_migrations num v =
     Some (if \<not> older num v then Some []
       else if v \<in> set (map wm_source wire_migrations)
       then Some (dropWhile (\<lambda>m. wm_source m \<noteq> v) wire_migrations) else None) \<and>
   map wm_target wire_migrations = tl (map wm_source wire_migrations) @ [current_version]"
  by (rule conjI, rule resolve_cases) (simp add: wire_migrations_def current_version_def)

text \<open>
  C19: upgrading an approval never widens it: only an approval for the session that has no rule yet gets one,
  the rule is the pattern of its action or the name of its tool, the actions whose scope the old record
  does not tell get none, and every other property stays as it was.
\<close>

theorem approvals_not_widened:
  assumes "migrate_to_1_2 r = Some r'"
  shows "(\<forall>k. k \<noteq> ''sessionApprovalRule'' \<longrightarrow> obj_get k r' = obj_get k r) \<and>
    (obj_get ''sessionApprovalRule'' r' \<noteq> obj_get ''sessionApprovalRule'' r \<longrightarrow>
       record_type r = Some ''permission.record_approval_result'' \<and> obj_get ''sessionApprovalRule'' r = None \<and>
       (\<exists>res. obj_get ''result'' r = Some (JObj res) \<and> obj_get ''decision'' res = Some (JStr ''approved'') \<and>
          obj_get ''scope'' res = Some (JStr ''session'')) \<and>
       (\<forall>a\<in>set unrestorable_actions. obj_get ''action'' r \<noteq> Some (JStr a)) \<and>
       (obj_get ''sessionApprovalRule'' r' \<in> Some ` JStr ` {''Bash'', ''TaskStop'', ''Write''} \<or>
        obj_get ''sessionApprovalRule'' r' = obj_get ''toolName'' r))"
proof (cases "r' = r")
  case False
  then obtain res p where res: "record_type r = Some ''permission.record_approval_result''" "obj_get ''result'' r = Some (JObj res)"
      "obj_get ''decision'' res = Some (JStr ''approved'')" "obj_get ''scope'' res = Some (JStr ''session'')"
      "obj_get ''sessionApprovalRule'' r = None" "approval_pattern r = Some p" "r' = obj_put ''sessionApprovalRule'' p r"
    using assms by (auto simp: migrate_to_1_2_def split: if_splits option.splits json.splits)
  have "(\<forall>a\<in>set unrestorable_actions. obj_get ''action'' r \<noteq> Some (JStr a)) \<and>
      (p \<in> JStr ` {''Bash'', ''TaskStop'', ''Write''} \<or> Some p = obj_get ''toolName'' r)"
    using res(6) by (auto simp: approval_pattern_def legacy_action_pattern_def split: if_splits option.splits json.splits)
  then show ?thesis
    using res by auto
qed simp

subsection \<open>Writing records\<close>

text \<open>The log of a live agent; records written while one is being restored are dropped.\<close>

record agent_log =
  al_restoring :: bool
  al_metadata :: bool
  al_records :: "wire_record list"

definition metadata_record :: "int \<Rightarrow> (int \<Rightarrow> string) \<Rightarrow> wire_record" where
  "metadata_record now show_int =
     [(''type'', JStr ''metadata''), (''protocol_version'', JStr current_version), (''created_at'', JNum (show_int now))]"

definition stamped_record :: "int \<Rightarrow> (int \<Rightarrow> string) \<Rightarrow> wire_record \<Rightarrow> wire_record" where
  "stamped_record now show_int r = (if obj_get ''time'' r = None then obj_put ''time'' (JNum (show_int now)) r else r)"

definition log_record :: "(int \<Rightarrow> string) \<Rightarrow> int \<Rightarrow> wire_record \<Rightarrow> agent_log \<Rightarrow> agent_log" where
  "log_record show_int now r s =
     (if al_restoring s then s
      else
        let stamped = stamped_record now show_int r;
            s1 = (if \<not> al_metadata s \<and> record_type stamped \<noteq> Some ''metadata''
                  then s\<lparr>al_records := al_records s @ [metadata_record now show_int], al_metadata := True\<rparr> else s);
            s2 = (if record_type stamped = Some ''metadata'' then s1\<lparr>al_metadata := True\<rparr> else s1)
        in s2\<lparr>al_records := al_records s2 @ [stamped]\<rparr>)"

subsection \<open>Replaying records\<close>

datatype replay_error = Not_Metadata | Bad_Record | Missing_Migration string | Corrupted nat

record 's replay_run =
  rr_agent :: 's
  rr_has_metadata :: bool
  rr_migrations :: "wire_migration list"
  rr_should_rewrite :: bool
  rr_warns :: "string option"
  rr_replayed :: "wire_record list"

definition replay_start :: "'s \<Rightarrow> 's replay_run" where
  "replay_start s =
     \<lparr>rr_agent = s, rr_has_metadata = False, rr_migrations = [], rr_should_rewrite = False, rr_warns = None, rr_replayed = []\<rparr>"

text \<open>What the first record decides; the warning holds the version it names.\<close>

definition read_metadata ::
  "(string \<Rightarrow> rat option) \<Rightarrow> wire_record \<Rightarrow> 's replay_run \<Rightarrow> replay_error + 's replay_run" where
  "read_metadata num r x =
     (if record_type r \<noteq> Some ''metadata'' then Inl Not_Metadata
      else
        let x1 = x\<lparr>rr_has_metadata := True\<rparr>
        in case obj_get ''protocol_version'' r of
          Some (JStr v) \<Rightarrow>
            if is_newer_wire_version num v then Inr (x1\<lparr>rr_warns := Some v, rr_should_rewrite := False\<rparr>)
            else (case resolve_wire_migrations num v of
              Some (Some ms) \<Rightarrow> Inr (x1\<lparr>rr_migrations := ms, rr_should_rewrite := (v \<noteq> current_version)\<rparr>)
            | _ \<Rightarrow> Inl (Missing_Migration v))
        | _ \<Rightarrow> Inl Bad_Record)"

definition stamp_version :: "wire_record \<Rightarrow> wire_record" where
  "stamp_version r =
     (if record_type r = Some ''metadata'' then obj_put ''protocol_version'' (JStr current_version) r else r)"

fun replay_records ::
  "(string \<Rightarrow> rat option) \<Rightarrow> ('s \<Rightarrow> wire_record \<Rightarrow> 's \<times> bool) \<Rightarrow> wire_record list \<Rightarrow> 's replay_run \<Rightarrow>
   's replay_run \<times> (replay_error + bool)" where
  "replay_records num restore [] x = (x, Inr True)"
| "replay_records num restore (r # rs) x =
     (case (if rr_has_metadata x then Inr x else read_metadata num r x) of
        Inl e \<Rightarrow> (x, Inl e)
      | Inr x1 \<Rightarrow>
          (case migrate_wire_record (rr_migrations x1) r of
             None \<Rightarrow> (x1, Inl Bad_Record)
           | Some r' \<Rightarrow>
               let m = stamp_version r'; (s, finished) = restore (rr_agent x1) m;
                   x2 = x1\<lparr>rr_agent := s, rr_replayed := rr_replayed x1 @ [m]\<rparr>
               in if finished then (x2, Inr False) else replay_records num restore rs x2))"

text \<open>
  \<open>replay\<close>: the records that could be read and the line at which reading failed, if it did. The result is
  the agent, and the warning with the records the file is rewritten with, or an error.
\<close>

definition replay ::
  "(string \<Rightarrow> rat option) \<Rightarrow> ('s \<Rightarrow> wire_record \<Rightarrow> 's \<times> bool) \<Rightarrow> bool \<Rightarrow> wire_record list \<times> nat option \<Rightarrow> 's \<Rightarrow>
   's \<times> (replay_error + string option \<times> wire_record list option)" where
  "replay num restore rewrites file s =
     (case replay_records num restore (fst file) (replay_start s) of
        (x, Inl e) \<Rightarrow> (rr_agent x, Inl e)
      | (x, Inr completed) \<Rightarrow>
          if completed \<and> snd file \<noteq> None then (rr_agent x, Inl (Corrupted (the (snd file))))
          else (rr_agent x, Inr (rr_warns x,
            if completed \<and> rr_should_rewrite x \<and> rewrites then Some (rr_replayed x) else None)))"

lemma record_type_put [simp]: "k \<noteq> ''type'' \<Longrightarrow> record_type (obj_put k v r) = record_type r"
  by (simp add: record_type_def)

lemma stamp_version_idem [simp]: "stamp_version (stamp_version r) = stamp_version r"
  by (simp add: stamp_version_def obj_put_same)

lemma record_type_stamp [simp]: "record_type (stamp_version r) = record_type r"
  by (simp add: stamp_version_def)

lemma metadata_not_migrated:
  "set ms \<subseteq> set wire_migrations \<Longrightarrow> record_type r = Some ''metadata'' \<Longrightarrow> migrate_wire_record ms r = Some r"
  by (induction ms)
    (auto simp: wire_migrations_def migrate_to_1_1_def migrate_to_1_2_def migrate_to_1_3_def migrate_to_1_4_def)

lemma resolve_subset: "resolve_wire_migrations num v = Some (Some ms) \<Longrightarrow> set ms \<subseteq> set wire_migrations"
  unfolding resolve_cases by (auto split: if_splits dest: set_dropWhileD)

lemma current_not_newer: "\<not> is_newer_wire_version num current_version" "resolve_wire_migrations num current_version = Some (Some [])"
  by (simp_all add: is_newer_wire_version_def resolve_wire_migrations_def not_older_current [folded current_version_def])

text \<open>Replaying records that are stamped, under metadata already read.\<close>

fun restored :: "('s \<Rightarrow> wire_record \<Rightarrow> 's \<times> bool) \<Rightarrow> wire_record list \<Rightarrow> 's \<Rightarrow> 's" where
  "restored restore [] s = s"
| "restored restore (r # rs) s = (case restore s r of (s', finished) \<Rightarrow> if finished then s' else restored restore rs s')"

lemma replay_current:
  assumes "rr_has_metadata x" "rr_migrations x = []" "\<forall>r\<in>set rs. stamp_version r = r"
  shows "rr_agent (fst (replay_records num restore rs x)) = restored restore rs (rr_agent x) \<and>
    rr_should_rewrite (fst (replay_records num restore rs x)) = rr_should_rewrite x \<and>
    rr_warns (fst (replay_records num restore rs x)) = rr_warns x \<and>
    (\<exists>b. snd (replay_records num restore rs x) = Inr b)"
  using assms
proof (induction rs arbitrary: x)
  case (Cons r rs)
  obtain s b where s: "restore (rr_agent x) r = (s, b)"
    by fastforce
  then show ?case
    using Cons.IH [of "x\<lparr>rr_agent := s, rr_replayed := rr_replayed x @ [r]\<rparr>"] Cons.prems by (auto simp: Let_def)
qed auto

text \<open>What a completed replay leaves: the records it handed to the agent, all stamped.\<close>

definition upgraded :: "wire_migration list \<Rightarrow> wire_record \<Rightarrow> wire_record \<Rightarrow> bool" where
  "upgraded ms r m \<longleftrightarrow> (\<exists>r'. migrate_wire_record ms r = Some r' \<and> m = stamp_version r')"

lemma upgraded_stamped: "list_all2 (upgraded ms) rs new \<Longrightarrow> \<forall>r\<in>set new. stamp_version r = r"
  by (induction rule: list_all2_induct) (auto simp: upgraded_def)

lemma replay_keeps:
  assumes "replay_records num restore rs x = (x', Inr True)" "rr_has_metadata x"
  shows "\<exists>new. rr_replayed x' = rr_replayed x @ new \<and> list_all2 (upgraded (rr_migrations x)) rs new \<and>
    rr_agent x' = restored restore new (rr_agent x)"
  using assms
proof (induction rs arbitrary: x)
  case (Cons r rs)
  obtain r' where r': "migrate_wire_record (rr_migrations x) r = Some r'"
    using Cons.prems by (cases "migrate_wire_record (rr_migrations x) r") auto
  obtain s b where s: "restore (rr_agent x) (stamp_version r') = (s, b)"
    by fastforce
  have "\<not> b"
    using Cons.prems r' s by (auto simp: Let_def)
  then obtain new where "rr_replayed x' = rr_replayed x @ stamp_version r' # new" "list_all2 (upgraded (rr_migrations x)) rs new"
      "rr_agent x' = restored restore new s"
    using Cons.IH [of "x\<lparr>rr_agent := s, rr_replayed := rr_replayed x @ [stamp_version r']\<rparr>"] Cons.prems r' s
    by (auto simp: Let_def)
  moreover have "upgraded (rr_migrations x) r (stamp_version r')"
    using r' by (auto simp: upgraded_def)
  ultimately show ?case
    using s \<open>\<not> b\<close> by (intro exI [of _ "stamp_version r' # new"]) simp
qed simp

lemma read_metadata_shape:
  assumes "read_metadata num r (replay_start s) = Inr x"
  shows "record_type r = Some ''metadata''" "rr_has_metadata x" "rr_replayed x = []" "rr_agent x = s"
    "set (rr_migrations x) \<subseteq> set wire_migrations"
  using assms
  by (auto simp: read_metadata_def replay_start_def Let_def dest: resolve_subset [THEN subsetD]
      split: if_splits option.splits json.splits)

lemma replay_first:
  "read_metadata num r (replay_start s) = Inr x \<Longrightarrow>
   replay_records num restore (r # rs) (replay_start s) = replay_records num restore (r # rs) x"
  using read_metadata_shape(2) [of num r s x] by (simp add: replay_start_def)

text \<open>A log that begins with metadata of this version is replayed as it stands.\<close>

lemma current_log_replays:
  assumes "record_type r = Some ''metadata''" "obj_get ''protocol_version'' r = Some (JStr current_version)"
    and "\<forall>r\<in>set rs. stamp_version r = r"
  shows "replay num restore b (r # rs, None) s = (restored restore (r # rs) s, Inr (None, None))"
proof -
  let ?x = "(replay_start s)\<lparr>rr_has_metadata := True\<rparr>"
  have "stamp_version r = r"
    using assms(1,2) by (simp add: stamp_version_def obj_put_same)
  have "read_metadata num r (replay_start s) = Inr ?x"
    using assms(1,2) by (simp add: read_metadata_def current_not_newer replay_start_def)
  note same = replay_first [OF this]
  obtain x c where run: "replay_records num restore (r # rs) ?x = (x, Inr c)" and "rr_agent x = restored restore (r # rs) s"
      "\<not> rr_should_rewrite x" "rr_warns x = None"
    using replay_current [of ?x "r # rs" num restore] assms(3) \<open>stamp_version r = r\<close>
    by (auto simp: replay_start_def prod_eq_iff)
  then show ?thesis
    unfolding replay_def fst_conv same run by simp
qed

text \<open>
  C16: migrating a session's file is done once: the records it is rewritten with replay to the same agent,
  without warning, without another rewrite and whatever the migrations were, and none was lost.
\<close>

theorem rewritten_log_replays:
  assumes "replay num restore b (rs, None) s = (s', Inr (w, Some out))"
  shows "replay num restore c (out, None) s = (s', Inr (None, None)) \<and> length out = length rs"
proof -
  obtain x where x: "replay_records num restore rs (replay_start s) = (x, Inr True)" "rr_agent x = s'" "rr_replayed x = out"
      "rr_should_rewrite x"
    using assms by (auto simp: replay_def split: prod.splits sum.splits if_splits)
  then obtain r rs' where rs: "rs = r # rs'"
    by (cases rs) (auto simp: replay_start_def)
  obtain x1 where meta: "read_metadata num r (replay_start s) = Inr x1"
    using x(1) by (cases "read_metadata num r (replay_start s)") (auto simp: rs replay_start_def)
  note x1 = read_metadata_shape [OF meta]
  have "replay_records num restore rs x1 = (x, Inr True)"
    using x(1) replay_first [OF meta] by (simp only: rs)
  from replay_keeps [OF this x1(2)] obtain new where new: "out = new" "list_all2 (upgraded (rr_migrations x1)) rs new"
      "s' = restored restore new s"
    using x x1 by auto
  then obtain new' where "new = stamp_version r # new'"
    using metadata_not_migrated [OF x1(5,1)] by (auto simp: rs upgraded_def list_all2_Cons1)
  moreover have "record_type (stamp_version r) = Some ''metadata''"
      "obj_get ''protocol_version'' (stamp_version r) = Some (JStr current_version)"
    using x1(1) by (simp_all add: stamp_version_def)
  ultimately show ?thesis
    using current_log_replays [of "stamp_version r" new' num restore c s] upgraded_stamped [OF new(2)] new
    by (auto dest: list_all2_lengthD)
qed

definition logged :: "(int \<Rightarrow> string) \<Rightarrow> (int \<times> wire_record) list \<Rightarrow> agent_log" where
  "logged show_int ops =
     fold (\<lambda>(now, r) s. log_record show_int now r s) ops \<lparr>al_restoring = False, al_metadata = False, al_records = []\<rparr>"

definition stamps :: "(int \<Rightarrow> string) \<Rightarrow> (int \<times> wire_record) list \<Rightarrow> wire_record list" where
  "stamps show_int ops = map (\<lambda>(now, r). stamped_record now show_int r) ops"

lemma stamped_type [simp]: "record_type (stamped_record now show_int r) = record_type r"
  by (simp add: stamped_record_def)

lemma log_after_metadata:
  assumes "\<forall>(now, r)\<in>set ops. record_type r \<noteq> Some ''metadata''" "al_metadata s" "\<not> al_restoring s"
  shows "al_records (fold (\<lambda>(now, r) s. log_record show_int now r s) ops s) = al_records s @ stamps show_int ops"
  using assms
proof (induction ops arbitrary: s)
  case (Cons op ops)
  then show ?case
    by (cases op) (simp add: log_record_def stamps_def Let_def)
qed (simp add: stamps_def)

text \<open>
  What an agent logs can always be replayed: the file begins with the metadata of this version whatever
  was logged first, and a replay hands the agent exactly the logged records in order.
\<close>

theorem logged_records_replay:
  assumes "\<forall>(now, r)\<in>set ops. record_type r \<noteq> Some ''metadata''" "ops \<noteq> []"
  shows "al_records (logged show_int ops) = metadata_record (fst (hd ops)) show_int # stamps show_int ops \<and>
    replay num restore b (al_records (logged show_int ops), None) s =
      (restored restore (metadata_record (fst (hd ops)) show_int # stamps show_int ops) s, Inr (None, None))"
proof -
  obtain now r ops' where ops: "ops = (now, r) # ops'"
    using assms(2) by (cases ops) auto
  have records: "al_records (logged show_int ops) = metadata_record now show_int # stamps show_int ops"
    using assms(1) log_after_metadata [of ops'] by (simp add: ops logged_def log_record_def stamps_def Let_def)
  have "\<forall>r\<in>set (stamps show_int ops). stamp_version r = r"
    using assms(1) by (auto simp: stamps_def stamp_version_def)
  then show ?thesis
    using current_log_replays [of "metadata_record now show_int" "stamps show_int ops" num restore b s] records
    by (simp add: ops metadata_record_def record_type_def obj_get_def)
qed

subsection \<open>Concrete logs\<close>

definition old_log :: "wire_record list" where
  "old_log =
     [[(''type'', JStr ''metadata''), (''protocol_version'', JStr ''1.0''), (''created_at'', JNum ''7'')],
      [(''type'', JStr ''context.append_message''),
       (''message'', JObj [(''role'', JStr ''assistant''),
          (''toolCalls'', JArr [JObj [(''type'', JStr ''function''), (''id'', JStr ''c1''),
             (''function'', JObj [(''name'', JStr ''Bash''), (''arguments'', JStr ''{}'')])]])])],
      [(''type'', JStr ''permission.record_approval_result''), (''toolName'', JStr ''Bash''), (''action'', JStr ''run command''),
       (''result'', JObj [(''decision'', JStr ''approved''), (''scope'', JStr ''session'')])],
      [(''type'', JStr ''goal.continuation''), (''goalId'', JStr ''g1''), (''turnsUsed'', JNum ''2'')]]"

text \<open>An agent that remembers what it was given.\<close>

definition remember :: "wire_record list \<Rightarrow> wire_record \<Rightarrow> wire_record list \<times> bool" where
  "remember s r = (s @ [r], False)"

definition new_log :: "wire_record list" where
  "new_log =
     [[(''type'', JStr ''metadata''), (''protocol_version'', JStr ''1.4''), (''created_at'', JNum ''7'')],
      [(''type'', JStr ''context.append_message''),
       (''message'', JObj [(''role'', JStr ''assistant''),
          (''toolCalls'', JArr [JObj [(''type'', JStr ''function''), (''id'', JStr ''c1''),
             (''name'', JStr ''Bash''), (''arguments'', JStr ''{}'')]])])],
      [(''type'', JStr ''permission.record_approval_result''), (''toolName'', JStr ''Bash''), (''action'', JStr ''run command''),
       (''result'', JObj [(''decision'', JStr ''approved''), (''scope'', JStr ''session'')]),
       (''sessionApprovalRule'', JStr ''Bash'')],
      [(''type'', JStr ''goal.update''), (''turnsUsed'', JNum ''2'')]]"

lemma old_log_replay: "replay (\<lambda>_. None) remember True (old_log, None) [] = (new_log, Inr (None, Some new_log))"
proof -
  have "resolve_wire_migrations (\<lambda>_. None) ''1.0'' = Some (Some wire_migrations)"
    by (subst resolve_cases) (simp add: wire_migrations_def)
  moreover have "\<not> is_newer_wire_version (\<lambda>_. None) ''1.0''"
    by code_simp
  ultimately have meta: "read_metadata (\<lambda>_. None) (hd old_log) (replay_start ([] :: wire_record list)) =
      Inr ((replay_start [])\<lparr>rr_has_metadata := True, rr_migrations := wire_migrations, rr_should_rewrite := True\<rparr>)"
    by (simp add: read_metadata_def old_log_def record_type_def obj_get_def current_version_def)
  let ?run = "replay_records (\<lambda>_. None) remember old_log
        ((replay_start [])\<lparr>rr_has_metadata := True, rr_migrations := wire_migrations, rr_should_rewrite := True\<rparr>)"
  have first: "replay_records (\<lambda>_. None) remember old_log (replay_start []) = ?run"
    using replay_first [OF meta, of remember "tl old_log"] by (simp add: old_log_def)
  have "snd ?run = Inr True" "rr_agent (fst ?run) = new_log" "rr_replayed (fst ?run) = new_log" "rr_should_rewrite (fst ?run)"
      "rr_warns (fst ?run) = None"
    by code_simp+
  then show ?thesis
    by (simp add: replay_def first case_prod_beta)
qed

theorem rewritten_log_replays_witness:
  "replay (\<lambda>_. None) remember True (old_log, None) [] = (new_log, Inr (None, Some new_log)) \<and>
   replay (\<lambda>_. None) remember True (new_log, None) [] = (new_log, Inr (None, None))"
  using rewritten_log_replays [OF old_log_replay] old_log_replay by simp

theorem approvals_not_widened_witness:
  "\<exists>r'. migrate_to_1_2 (old_log ! 2) = Some r' \<and> obj_get ''sessionApprovalRule'' r' = Some (JStr ''Bash'') \<and>
     obj_get ''sessionApprovalRule'' (old_log ! 2) = None \<and>
     (\<forall>a\<in>set unrestorable_actions. obj_get ''action'' (old_log ! 2) \<noteq> Some (JStr a))"
proof -
  have "migrate_to_1_2 (old_log ! 2) = Some (new_log ! 2)"
    by code_simp
  moreover have "obj_get ''sessionApprovalRule'' (new_log ! 2) = Some (JStr ''Bash'')"
      "obj_get ''sessionApprovalRule'' (old_log ! 2) = None"
    by code_simp+
  ultimately show ?thesis
    using approvals_not_widened [of "old_log ! 2" "new_log ! 2"] by auto
qed

theorem logged_records_replay_witness:
  "replay (\<lambda>_. None) remember False
     (al_records (logged (\<lambda>_. ''5'') [(5, [(''type'', JStr ''turn.prompt'')]), (6, [(''type'', JStr ''goal.clear'')])]), None) [] =
   ([[(''type'', JStr ''metadata''), (''protocol_version'', JStr ''1.4''), (''created_at'', JNum ''5'')],
     [(''type'', JStr ''turn.prompt''), (''time'', JNum ''5'')], [(''type'', JStr ''goal.clear''), (''time'', JNum ''5'')]],
    Inr (None, None))"
  by (subst conjunct2 [OF logged_records_replay])
    (simp_all add: record_type_def obj_get_def metadata_record_def stamps_def stamped_record_def remember_def current_version_def)

end
