(* ===== verification/Record_Store.thy ===== *)
theory Record_Store
  imports Record_Migration
begin

text \<open>
  The file behind a record log (\<open>agent/records/persistence.ts\<close>): one line of JSON per record, appended in
  batches by a single writer, and read back line by line. \<open>JSON.parse\<close> is an argument; what is
  assumed of it is that it reads back a printed record and no proper beginning of one.
\<close>

subsection \<open>Reading\<close>

definition line_feed :: char where
  "line_feed = CHR 0x0A"

definition strip_cr :: "string \<Rightarrow> string" where
  "strip_cr l = (if l \<noteq> [] \<and> last l = CHR 0x0D then butlast l else l)"

text \<open>A blank line is skipped; an unreadable one is an error with its number, or skipped if it may be torn.\<close>

definition parse_record_line :: "(string \<Rightarrow> 'r option) \<Rightarrow> string \<Rightarrow> nat \<Rightarrow> bool \<Rightarrow> nat + 'r option" where
  "parse_record_line parse l n truncated =
     (if l = [] then Inr None
      else case parse l of Some r \<Rightarrow> Inr (Some r) | None \<Rightarrow> if truncated then Inr None else Inl n)"

definition optional :: "'r option \<Rightarrow> 'r list" where
  "optional r = (case r of None \<Rightarrow> [] | Some r \<Rightarrow> [r])"

text \<open>The whole lines at the beginning of a text: the records, then an error or the rest and the lines so far.\<close>

function read_lines :: "(string \<Rightarrow> 'r option) \<Rightarrow> string \<Rightarrow> nat \<Rightarrow> 'r list \<times> (nat + string \<times> nat)" where
  "read_lines parse text n =
     (case index_of line_feed text of
        None \<Rightarrow> ([], Inr (text, n))
      | Some i \<Rightarrow>
          (case parse_record_line parse (strip_cr (take i text)) (n + 1) False of
             Inl e \<Rightarrow> ([], Inl e)
           | Inr r \<Rightarrow>
               (let (rs, out) = read_lines parse (drop (i + 1) text) (n + 1) in (optional r @ rs, out))))"
  by pat_completeness auto

termination
  by (relation "measure (\<lambda>(parse, text, n). length text)") (auto dest: index_of_Some)

declare read_lines.simps [simp del]

text \<open>\<open>read\<close>: the chunks of the stream, what is held of an unfinished line, and the lines so far.\<close>

fun read_chunks :: "(string \<Rightarrow> 'r option) \<Rightarrow> string list \<Rightarrow> string \<Rightarrow> nat \<Rightarrow> 'r list \<times> nat option" where
  "read_chunks parse [] rest n =
     (if rest = [] then ([], None)
      else case parse_record_line parse rest (n + 1) True of Inl e \<Rightarrow> ([], Some e) | Inr r \<Rightarrow> (optional r, None))"
| "read_chunks parse (c # cs) rest n =
     (case read_lines parse (rest @ c) n of
        (rs, Inl e) \<Rightarrow> (rs, Some e)
      | (rs, Inr (rest', n')) \<Rightarrow> (let (rs', e) = read_chunks parse cs rest' n' in (rs @ rs', e)))"

text \<open>A missing file has no records.\<close>

definition read_file :: "(string \<Rightarrow> 'r option) \<Rightarrow> string list option \<Rightarrow> 'r list \<times> nat option" where
  "read_file parse chunks = (case chunks of None \<Rightarrow> ([], None) | Some cs \<Rightarrow> read_chunks parse cs [] 0)"

lemma index_of_both:
  "index_of c (s @ t) = (case index_of c s of Some i \<Rightarrow> Some i | None \<Rightarrow> map_option (\<lambda>i. length s + i) (index_of c t))"
  by (cases "index_of c t"; induction s) (auto split: option.split)

lemma read_lines_append:
  "read_lines parse (a @ b) n =
     (case read_lines parse a n of
        (rs, Inl e) \<Rightarrow> (rs, Inl e)
      | (rs, Inr (rest, n')) \<Rightarrow> (let (rs', out) = read_lines parse (rest @ b) n' in (rs @ rs', out)))"
proof (induction parse a n rule: read_lines.induct)
  case (1 parse a n)
  show ?case
  proof (cases "index_of line_feed a")
    case None
    then show ?thesis
      by (subst (2) read_lines.simps) (simp add: case_prod_beta)
  next
    case (Some i)
    then have i: "i < length a" "index_of line_feed (a @ b) = Some i"
      by (auto simp: index_of_both dest: index_of_Some)
    show ?thesis
    proof (cases "parse_record_line parse (strip_cr (take i a)) (n + 1) False")
      case (Inl e)
      then show ?thesis
        using Some i by (subst (1 2) read_lines.simps) simp
    next
      case (Inr r)
      have "read_lines parse (a @ b) n =
          (let (rs, out) = read_lines parse (drop (i + 1) a @ b) (n + 1) in (optional r @ rs, out))"
        using i Inr by (subst read_lines.simps) simp
      moreover have "read_lines parse a n = (let (rs, out) = read_lines parse (drop (i + 1) a) (n + 1) in (optional r @ rs, out))"
        using Some Inr by (subst read_lines.simps) simp
      ultimately show ?thesis
        using 1 [OF Some Inr] by (auto simp: case_prod_beta split: sum.split)
    qed
  qed
qed

lemma read_lines_no_feed: "line_feed \<notin> set t \<Longrightarrow> read_lines parse t n = ([], Inr (t, n))"
  by (subst read_lines.simps) (simp add: index_of_None [symmetric])

lemma read_lines_rest: "read_lines parse a n = (rs, Inr (rest, n')) \<Longrightarrow> line_feed \<notin> set rest"
proof (induction parse a n arbitrary: rs rule: read_lines.induct)
  case (1 parse a n)
  show ?case
  proof (cases "index_of line_feed a")
    case None
    then show ?thesis
      using 1(2) read_lines_no_feed [of a parse n] by (auto simp: index_of_None)
  next
    case (Some i)
    then obtain r where r: "parse_record_line parse (strip_cr (take i a)) (n + 1) False = Inr r"
      using 1(2) by (subst (asm) read_lines.simps) (auto split: sum.splits)
    then obtain rs' where "read_lines parse (drop (i + 1) a) (n + 1) = (rs', Inr (rest, n'))"
      using 1(2) Some by (subst (asm) read_lines.simps) (auto split: prod.splits)
    then show ?thesis
      using 1(1) [OF Some r] by blast
  qed
qed

text \<open>
  The records read from a file do not depend on the chunks its stream delivers: any way to cut the text
  gives the records, and the error, of the text read at once.
\<close>

theorem chunks_do_not_matter:
  "read_file parse (Some chunks) = read_file parse (Some [concat chunks])"
proof -
  have "read_chunks parse cs rest n = read_chunks parse [concat cs] rest n" if "line_feed \<notin> set rest" for cs rest n
    using that
  proof (induction cs arbitrary: rest n)
    case Nil
    then show ?case
      by (simp add: read_lines_no_feed)
  next
    case (Cons c cs)
    obtain rs out where first: "read_lines parse (rest @ c) n = (rs, out)"
      by fastforce
    show ?case
    proof (cases out)
      case (Inl e)
      then show ?thesis
        using first read_lines_append [of parse "rest @ c" "concat cs" n] by simp
    next
      case (Inr ok)
      then obtain rest' n' where ok: "out = Inr (rest', n')"
        by (cases ok) auto
      then have "line_feed \<notin> set rest'"
        using first read_lines_rest by blast
      then show ?thesis
        using Cons.IH [of rest' n'] first ok read_lines_append [of parse "rest @ c" "concat cs" n]
        by (auto simp: case_prod_beta split: sum.split)
    qed
  qed
  from this [of "[]" chunks 0] show ?thesis
    by (simp add: read_file_def del: read_chunks.simps)
qed

subsection \<open>Lines\<close>

definition record_line :: "wire_record \<Rightarrow> string" where
  "record_line r = json_stringify (JObj r)"

definition encode_records :: "wire_record list \<Rightarrow> string" where
  "encode_records rs = concat (map (\<lambda>r. record_line r @ [line_feed]) rs)"

text \<open>Values whose numbers are printed without control characters, as numbers are.\<close>

fun plain_json :: "json \<Rightarrow> bool" where
  "plain_json (JNum n) = list_all (\<lambda>c. (of_char c :: nat) \<ge> 32) n"
| "plain_json (JArr vs) = list_all plain_json vs"
| "plain_json (JObj kvs) = list_all (\<lambda>(k, v). plain_json v) kvs"
| "plain_json v = True"

abbreviation printable :: "string \<Rightarrow> bool" where
  "printable s \<equiv> list_all (\<lambda>c. (of_char c :: nat) \<ge> 32) s"

lemma hex_char_printable: "n < 16 \<Longrightarrow> (of_char (hex_char n) :: nat) \<ge> 32"
  by (simp add: hex_char_def)

lemma quote_char_printable: "printable (quote_char c)"
  by (simp add: quote_char_def Let_def hex_char_printable div_less_dividend)

lemma quote_string_printable: "printable (quote_string s)"
  by (induction s) (simp_all add: quote_string_def quote_char_printable list_all_append)

lemma join_printable: "list_all printable xs \<Longrightarrow> printable sep \<Longrightarrow> printable (join_with sep xs)"
  by (induction sep xs rule: join_with.induct) (simp_all add: list_all_append)

lemma stringify_printable: "plain_json v \<Longrightarrow> printable (json_stringify v)"
proof (induction v)
  case (JArr vs)
  then have "list_all printable (map json_stringify vs)"
    by (auto simp: list_all_iff)
  then show ?case
    by (simp add: list_all_append join_printable)
next
  case (JObj kvs)
  then have "list_all printable (map (\<lambda>(k, v). quote_string k @ '':'' @ json_stringify v) kvs)"
    by (fastforce simp: list_all_iff [of printable] list_all_iff [of "\<lambda>(k, v). plain_json v"] list_all_append quote_string_printable)
  then show ?case
    by (simp add: list_all_append join_printable)
qed (simp_all add: quote_string_printable)

definition plain_record :: "wire_record \<Rightarrow> bool" where
  "plain_record r \<longleftrightarrow> plain_json (JObj r)"

lemma record_line_shape:
  assumes "plain_record r"
  shows "line_feed \<notin> set (record_line r)" "record_line r \<noteq> []" "strip_cr (record_line r) = record_line r"
    "last (record_line r) \<noteq> CHR 0x0D"
proof -
  have "printable (record_line r)"
    using stringify_printable [of "JObj r"] assms by (simp add: record_line_def plain_record_def)
  then show "line_feed \<notin> set (record_line r)"
    by (force simp: list_all_iff line_feed_def)
  show "record_line r \<noteq> []" "strip_cr (record_line r) = record_line r" "last (record_line r) \<noteq> CHR 0x0D"
    by (simp_all add: record_line_def strip_cr_def)
qed

text \<open>What \<open>JSON.parse\<close> does with a printed record: read it, and refuse every proper beginning of it.\<close>

definition reads_back :: "(string \<Rightarrow> wire_record option) \<Rightarrow> wire_record \<Rightarrow> bool" where
  "reads_back parse r \<longleftrightarrow>
     parse (record_line r) = Some r \<and> (\<forall>n. 0 < n \<and> n < length (record_line r) \<longrightarrow> parse (take n (record_line r)) = None)"

definition readable :: "(string \<Rightarrow> wire_record option) \<Rightarrow> wire_record list \<Rightarrow> bool" where
  "readable parse rs \<longleftrightarrow> (\<forall>r\<in>set rs. plain_record r \<and> reads_back parse r)"

lemma index_of_line: "line_feed \<notin> set l \<Longrightarrow> index_of line_feed (l @ line_feed # rest) = Some (length l)"
  by (simp add: index_of_both index_of_None [symmetric])

lemma read_lines_encoded:
  assumes "readable parse rs"
  shows "read_lines parse (encode_records rs @ t) n =
    (let (rs', out) = read_lines parse t (n + length rs) in (rs @ rs', out))"
  using assms
proof (induction rs arbitrary: n)
  case Nil
  then show ?case
    by (simp add: encode_records_def)
next
  case (Cons r rs)
  then have r: "plain_record r" "parse (record_line r) = Some r" and rs: "readable parse rs"
    by (simp_all add: readable_def reads_back_def)
  have line: "encode_records (r # rs) @ t = record_line r @ line_feed # (encode_records rs @ t)"
    by (simp add: encode_records_def)
  have "read_lines parse (encode_records (r # rs) @ t) n =
      (let (rs', out) = read_lines parse (encode_records rs @ t) (n + 1) in (r # rs', out))"
    unfolding line
    by (subst read_lines.simps)
      (simp add: index_of_line record_line_shape [OF r(1)] parse_record_line_def r(2) optional_def)
  then show ?case
    using Cons.IH [OF rs, of "n + 1"] by (simp add: case_prod_beta Let_def)
qed

lemma read_encoded_tail:
  assumes "readable parse rs" "line_feed \<notin> set t"
  shows "read_file parse (Some [encode_records rs @ t]) = (rs @ (if t = [] then [] else optional (parse t)), None)"
  using read_lines_encoded [OF assms(1), of t 0] assms(2)
  by (simp add: read_file_def read_lines_no_feed parse_record_line_def optional_def split: option.split)

text \<open>A text cut anywhere: some whole lines and the beginning of one, or all of it.\<close>

lemma take_encoded:
  "\<exists>m t. take k (encode_records rs) = encode_records (take m rs) @ t \<and> m \<le> length rs \<and>
     (t = [] \<or> (\<exists>j. m < length rs \<and> 0 < j \<and> j \<le> length (record_line (rs ! m)) \<and> t = take j (record_line (rs ! m)))) \<and>
     (\<forall>j\<le>length rs. length (encode_records (take j rs)) \<le> k \<longrightarrow> j \<le> m)"
proof (induction rs arbitrary: k)
  case (Cons r rs)
  have line: "encode_records (r # rs) = record_line r @ line_feed # encode_records rs" for rs
    by (simp add: encode_records_def)
  show ?case
  proof (cases "k \<le> length (record_line r)")
    case True
    have "j = 0" if "length (encode_records (take j (r # rs))) \<le> k" for j
      using that True by (cases j) (simp_all add: line)
    then show ?thesis
      using True by (intro exI [of _ 0] exI [of _ "take k (record_line r)"]) (auto simp: line encode_records_def)
  next
    case False
    then obtain i where i: "k = length (record_line r) + Suc i"
      by (metis add_Suc_right less_imp_Suc_add not_le)
    obtain m t where m: "take i (encode_records rs) = encode_records (take m rs) @ t" "m \<le> length rs"
        "t = [] \<or> (\<exists>j. m < length rs \<and> 0 < j \<and> j \<le> length (record_line (rs ! m)) \<and> t = take j (record_line (rs ! m)))"
        "\<forall>j\<le>length rs. length (encode_records (take j rs)) \<le> i \<longrightarrow> j \<le> m"
      using Cons.IH by blast
    have "j \<le> Suc m" if "j \<le> length (r # rs)" "length (encode_records (take j (r # rs))) \<le> k" for j
      using that m(4) by (cases j) (simp_all add: line i)
    moreover have "take k (encode_records (r # rs)) = encode_records (take (Suc m) (r # rs)) @ t"
      using m(1) by (simp add: line i)
    ultimately show ?thesis
      using m(2,3) by (intro exI [of _ "Suc m"] exI [of _ t]) auto
  qed
qed (simp add: encode_records_def)

lemma read_cut:
  assumes "readable parse rs"
  shows "\<exists>m. read_file parse (Some [take k (encode_records rs)]) = (take m rs, None) \<and> m \<le> length rs \<and>
    (\<forall>j\<le>length rs. length (encode_records (take j rs)) \<le> k \<longrightarrow> j \<le> m)"
proof -
  obtain m t where cut: "take k (encode_records rs) = encode_records (take m rs) @ t" "m \<le> length rs"
      and t: "t = [] \<or> (\<exists>j. m < length rs \<and> 0 < j \<and> j \<le> length (record_line (rs ! m)) \<and> t = take j (record_line (rs ! m)))"
      and full: "\<forall>j\<le>length rs. length (encode_records (take j rs)) \<le> k \<longrightarrow> j \<le> m"
    using take_encoded by blast
  have ok: "readable parse (take m rs)"
    using assms by (auto simp: readable_def dest: in_set_takeD)
  show ?thesis
  proof (cases "t = []")
    case True
    then show ?thesis
      using read_encoded_tail [OF ok, of "[]"] cut full by (intro exI [of _ m]) simp
  next
    case False
    then obtain j where j: "m < length rs" "0 < j" "j \<le> length (record_line (rs ! m))" "t = take j (record_line (rs ! m))"
      using t by blast
    have r: "plain_record (rs ! m)" "reads_back parse (rs ! m)"
      using assms j(1) by (simp_all add: readable_def)
    have clean: "line_feed \<notin> set t"
      using record_line_shape(1) [OF r(1)] j(4) by (auto dest: in_set_takeD)
    show ?thesis
    proof (cases "j = length (record_line (rs ! m))")
      case True
      then have "parse t = Some (rs ! m)"
        using r(2) j(4) by (simp add: reads_back_def)
      then have "read_file parse (Some [take k (encode_records rs)]) = (take (Suc m) rs, None)"
        using read_encoded_tail [OF ok clean] cut(1) False j(1) by (simp add: optional_def take_Suc_conv_app_nth)
      then show ?thesis
        using j(1) full by (intro exI [of _ "Suc m"]) (auto intro: le_SucI)
    next
      case short: False
      then have "parse t = None"
        using r(2) j by (simp add: reads_back_def)
      then show ?thesis
        using read_encoded_tail [OF ok clean] cut full by (intro exI [of _ m]) (simp add: optional_def)
    qed
  qed
qed

subsection \<open>Writing\<close>

text \<open>
  The writer: the file, the records not yet taken by a batch, whether the next batch begins by emptying the
  file, the batch being written, and the first error, after which every operation throws.
\<close>

record wire_store =
  ws_file :: "string option"
  ws_pending :: "wire_record list"
  ws_clear :: bool
  ws_flight :: "(bool \<times> wire_record list) option"
  ws_failed :: bool

definition opened_store :: "string option \<Rightarrow> wire_store" where
  "opened_store file = \<lparr>ws_file = file, ws_pending = [], ws_clear = False, ws_flight = None, ws_failed = False\<rparr>"

text \<open>The loop of \<open>drainPendingRecords\<close> up to its next write: \<open>drainBatch\<close> takes all that is pending.\<close>

definition next_batch :: "wire_store \<Rightarrow> wire_store" where
  "next_batch s =
     (if ws_clear s \<or> ws_pending s \<noteq> []
      then s\<lparr>ws_flight := Some (ws_clear s, ws_pending s), ws_pending := [], ws_clear := False\<rparr>
      else s\<lparr>ws_flight := None\<rparr>)"

definition ensure_flush :: "wire_store \<Rightarrow> wire_store" where
  "ensure_flush s = (if ws_flight s \<noteq> None then s else next_batch s)"

text \<open>Whether the call went through; it throws after an error.\<close>

definition store_append :: "wire_record \<Rightarrow> wire_store \<Rightarrow> wire_store \<times> bool" where
  "store_append r s =
     (if ws_failed s then (s, False) else (ensure_flush (s\<lparr>ws_pending := ws_pending s @ [r]\<rparr>), True))"

definition store_rewrite :: "wire_record list \<Rightarrow> wire_store \<Rightarrow> wire_store \<times> bool" where
  "store_rewrite rs s =
     (if ws_failed s then (s, False) else (ensure_flush (s\<lparr>ws_clear := True, ws_pending := rs\<rparr>), True))"

text \<open>What a batch leaves in the file when its first \<open>k\<close> characters have been written.\<close>

definition written :: "nat \<Rightarrow> bool \<times> wire_record list \<Rightarrow> string option \<Rightarrow> string option" where
  "written k b file = Some ((if fst b then [] else opt_or file []) @ take k (encode_records (snd b)))"

definition batch_done :: "wire_store \<Rightarrow> wire_store" where
  "batch_done s =
     (case ws_flight s of
        None \<Rightarrow> s
      | Some b \<Rightarrow> next_batch (s\<lparr>ws_file := written (length (encode_records (snd b))) b (ws_file s)\<rparr>))"

definition batch_failed :: "nat option \<Rightarrow> wire_store \<Rightarrow> wire_store" where
  "batch_failed k s =
     (case ws_flight s of
        None \<Rightarrow> s
      | Some b \<Rightarrow>
          s\<lparr>ws_file := (case k of None \<Rightarrow> ws_file s | Some k \<Rightarrow> written k b (ws_file s)), ws_flight := None, ws_failed := True\<rparr>)"

text \<open>What a crash leaves: the file as it was, or with the beginning of the batch being written.\<close>

definition crash_files :: "wire_store \<Rightarrow> string option set" where
  "crash_files s =
     insert (ws_file s) (case ws_flight s of None \<Rightarrow> {} | Some b \<Rightarrow> (\<lambda>k. written k b (ws_file s)) ` UNIV)"

datatype store_event = Appends wire_record | Rewrites "wire_record list" | Batch_Done

fun store_step :: "wire_store \<Rightarrow> store_event \<Rightarrow> wire_store" where
  "store_step s (Appends r) = fst (store_append r s)"
| "store_step s (Rewrites rs) = fst (store_rewrite rs s)"
| "store_step s Batch_Done = batch_done s"

text \<open>The abstract store: the list of records.\<close>

fun log_step :: "wire_record list \<Rightarrow> store_event \<Rightarrow> wire_record list" where
  "log_step xs (Appends r) = xs @ [r]"
| "log_step xs (Rewrites rs) = rs"
| "log_step xs Batch_Done = xs"

text \<open>What the file will hold once everything has been written.\<close>

definition eventual :: "wire_store \<Rightarrow> string" where
  "eventual s =
     (if ws_clear s then []
      else case ws_flight s of
        None \<Rightarrow> opt_or (ws_file s) []
      | Some (c, b) \<Rightarrow> (if c then [] else opt_or (ws_file s) []) @ encode_records b) @ encode_records (ws_pending s)"

text \<open>The contract: a running writer holds the log, and an idle one has written all of it.\<close>

definition holds :: "wire_record list \<Rightarrow> wire_store \<Rightarrow> bool" where
  "holds xs s \<longleftrightarrow>
     \<not> ws_failed s \<and> eventual s = encode_records xs \<and> (ws_flight s = None \<longrightarrow> ws_pending s = [] \<and> \<not> ws_clear s)"

lemma encode_append [simp]: "encode_records (xs @ ys) = encode_records xs @ encode_records ys" "encode_records [] = []"
  by (simp_all add: encode_records_def)

lemma next_batch_eventual:
  "ws_flight s = None \<Longrightarrow> eventual (next_batch s) = eventual s \<and> (ws_flight (next_batch s) = None \<longrightarrow>
     ws_pending (next_batch s) = [] \<and> \<not> ws_clear (next_batch s)) \<and> ws_failed (next_batch s) = ws_failed s"
  by (auto simp: next_batch_def eventual_def)

lemma ensure_flush_holds:
  assumes "\<not> ws_failed s" "eventual s = encode_records xs"
  shows "holds xs (ensure_flush s)"
  using assms next_batch_eventual [of s] by (cases "ws_flight s") (auto simp: holds_def ensure_flush_def)

lemma holds_append: "holds xs s \<Longrightarrow> holds (xs @ [r]) (fst (store_append r s))"
proof -
  assume h: "holds xs s"
  have "eventual (s\<lparr>ws_pending := ws_pending s @ [r]\<rparr>) = eventual s @ encode_records [r]"
    by (cases "ws_flight s") (auto simp: eventual_def)
  then have "eventual (s\<lparr>ws_pending := ws_pending s @ [r]\<rparr>) = encode_records (xs @ [r])"
    using h by (simp add: holds_def)
  then show ?thesis
    using h ensure_flush_holds [of "s\<lparr>ws_pending := ws_pending s @ [r]\<rparr>" "xs @ [r]"] by (simp add: holds_def store_append_def)
qed

lemma holds_rewrite: "holds xs s \<Longrightarrow> holds rs (fst (store_rewrite rs s))"
  using ensure_flush_holds [of "s\<lparr>ws_clear := True, ws_pending := rs\<rparr>" rs]
  by (simp add: holds_def store_rewrite_def eventual_def)

lemma holds_done: "holds xs s \<Longrightarrow> holds xs (batch_done s)"
proof (cases "ws_flight s")
  case (Some b)
  assume h: "holds xs s"
  let ?s = "s\<lparr>ws_file := written (length (encode_records (snd b))) b (ws_file s), ws_flight := None\<rparr>"
  have "eventual ?s = eventual s"
    using Some by (cases b) (simp add: eventual_def written_def)
  then have "eventual ?s = encode_records xs" "\<not> ws_failed ?s"
    using h by (simp_all add: holds_def)
  moreover have "batch_done s = next_batch ?s"
    using Some by (simp add: batch_done_def next_batch_def)
  ultimately show ?thesis
    using next_batch_eventual [of ?s] by (simp add: holds_def)
qed (simp add: batch_done_def)

lemma store_step_holds: "holds xs s \<Longrightarrow> holds (log_step xs e) (store_step s e)"
  by (cases e) (simp_all add: holds_append holds_rewrite holds_done)

lemma holds_run: "holds xs s \<Longrightarrow> holds (foldl log_step xs es) (foldl store_step s es)"
  by (induction es arbitrary: xs s) (simp_all add: store_step_holds)

text \<open>
  C14: the writer implements the plain list of records. Whatever is appended or rewritten while batches are
  under way, once it is idle the file is the lines of the records appended since the last rewrite, in
  order, and reading it gives exactly these records.
\<close>

theorem store_refines_log:
  assumes "readable parse (foldl log_step xs es)" "ws_flight (foldl store_step (opened_store (Some (encode_records xs))) es) = None"
  shows "opt_or (ws_file (foldl store_step (opened_store (Some (encode_records xs))) es)) [] = encode_records (foldl log_step xs es) \<and>
    read_file parse (map_option (\<lambda>t. [t]) (ws_file (foldl store_step (opened_store (Some (encode_records xs))) es))) =
      (foldl log_step xs es, None)"
proof -
  let ?s = "foldl store_step (opened_store (Some (encode_records xs))) es"
  have "holds xs (opened_store (Some (encode_records xs)))"
    by (simp add: holds_def opened_store_def eventual_def)
  then have h: "holds (foldl log_step xs es) ?s"
    by (rule holds_run)
  then have whole: "opt_or (ws_file ?s) [] = encode_records (foldl log_step xs es)"
    using assms(2) by (auto simp: holds_def eventual_def)
  then show ?thesis
    using read_encoded_tail [OF assms(1), of "[]"] by (cases "ws_file ?s") (auto simp: read_file_def encode_records_def)
qed

subsection \<open>Crashes\<close>

lemma next_batch_crash:
  "ws_flight s = None \<Longrightarrow> c \<in> crash_files (next_batch s) \<Longrightarrow> \<not> ws_clear s \<Longrightarrow>
   \<exists>k. opt_or c [] = opt_or (ws_file s) [] @ take k (encode_records (ws_pending s))"
  by (auto simp: next_batch_def crash_files_def written_def split: if_splits intro: exI [of _ 0])

text \<open>No rewrite is under way.\<close>

definition appending :: "wire_store \<Rightarrow> bool" where
  "appending s \<longleftrightarrow> \<not> ws_clear s \<and> (case ws_flight s of None \<Rightarrow> True | Some b \<Rightarrow> \<not> fst b)"

lemma appending_step: "appending s \<Longrightarrow> (\<And>rs. e \<noteq> Rewrites rs) \<Longrightarrow> appending (store_step s e)"
  by (cases e) (auto simp: appending_def store_append_def ensure_flush_def next_batch_def batch_done_def split: option.splits)

lemma appending_run: "appending s \<Longrightarrow> (\<And>rs. Rewrites rs \<notin> set es) \<Longrightarrow> appending (foldl store_step s es)"
proof (induction es arbitrary: s)
  case (Cons e es)
  have "appending (store_step s e)"
    using Cons.prems by (intro appending_step) auto
  then show ?case
    using Cons by simp
qed simp

lemma appending_crash:
  assumes "appending s" "holds xs s" "c \<in> crash_files s"
  shows "\<exists>k. opt_or c [] = take k (encode_records xs) \<and> length (opt_or (ws_file s) []) \<le> k"
proof (cases "ws_flight s")
  case None
  then have "opt_or c [] = encode_records xs" "c = ws_file s"
    using assms by (auto simp: crash_files_def holds_def eventual_def)
  then show ?thesis
    by (intro exI [of _ "length (encode_records xs)"]) simp
next
  case (Some b)
  then have all: "encode_records xs = opt_or (ws_file s) [] @ encode_records (snd b) @ encode_records (ws_pending s)"
    using assms(1,2) by (cases b) (auto simp: holds_def eventual_def appending_def)
  obtain k where "opt_or c [] = opt_or (ws_file s) [] @ take k (encode_records (snd b))"
    using assms(1,3) Some by (auto simp: crash_files_def written_def appending_def intro: that [of 0])
  then have "opt_or c [] = take (length (opt_or (ws_file s) []) + min k (length (encode_records (snd b)))) (encode_records xs)"
    by (simp add: all min_def)
  then show ?thesis
    by (intro exI [of _ "length (opt_or (ws_file s) []) + min k (length (encode_records (snd b)))"]) simp
qed

text \<open>
  C20: a crash while records are appended loses no more than the batches not yet written: the file then reads
  without an error and gives the first records of the log, among them every one whose line was in the file.
\<close>

theorem crash_keeps_prefix:
  assumes "readable parse (foldl log_step xs es)" "\<And>zs. Rewrites zs \<notin> set es"
    and "s = foldl store_step (opened_store (Some (encode_records xs))) es" "c \<in> crash_files s"
  shows "\<exists>m. read_file parse (map_option (\<lambda>t. [t]) c) = (take m (foldl log_step xs es), None) \<and>
    (\<forall>j\<le>length (foldl log_step xs es).
       length (encode_records (take j (foldl log_step xs es))) \<le> length (opt_or (ws_file s) []) \<longrightarrow> j \<le> m)"
proof -
  let ?log = "foldl log_step xs es"
  have "holds xs (opened_store (Some (encode_records xs)))"
    by (simp add: holds_def opened_store_def eventual_def)
  then have h: "holds ?log s"
    unfolding assms(3) by (rule holds_run)
  have "appending s"
    unfolding assms(3) by (rule appending_run) (simp_all add: appending_def opened_store_def assms(2))
  from appending_crash [OF this h assms(4)] obtain k where
    k: "opt_or c [] = take k (encode_records ?log)" "length (opt_or (ws_file s) []) \<le> k"
    by blast
  obtain m where m: "read_file parse (Some [take k (encode_records ?log)]) = (take m ?log, None)"
      "\<forall>j\<le>length ?log. length (encode_records (take j ?log)) \<le> k \<longrightarrow> j \<le> m"
    using read_cut [OF assms(1)] by blast
  have "read_file parse (map_option (\<lambda>t. [t]) c) = read_file parse (Some [opt_or c []])"
    by (cases c) (simp_all add: read_file_def read_lines_no_feed)
  then show ?thesis
    using m k by (intro exI [of _ m]) auto
qed

text \<open>
  C23: a session cannot be read any more after a crash in the middle of a line and one more record: the torn
  line is skipped while it is the last one, but the writer goes on behind it on the same line.
\<close>

theorem append_after_torn_line_corrupts:
  assumes "readable parse rs" "t \<noteq> []" "line_feed \<notin> set t" "parse t = None" "plain_record r" "parse (t @ record_line r) = None"
  shows "read_file parse (Some [encode_records rs @ t]) = (rs, None) \<and>
    read_file parse (map_option (\<lambda>t. [t])
      (ws_file (batch_done (fst (store_append r (opened_store (Some (encode_records rs @ t)))))))) =
      (rs, Some (Suc (length rs)))"
proof
  show "read_file parse (Some [encode_records rs @ t]) = (rs, None)"
    using read_encoded_tail [OF assms(1,3)] assms(2,4) by (simp add: optional_def)
  have clean: "line_feed \<notin> set (t @ record_line r)" "strip_cr (t @ record_line r) = t @ record_line r"
    using assms(3) record_line_shape [OF assms(5)] by (auto simp: strip_cr_def split: if_splits)
  have text': "ws_file (batch_done (fst (store_append r (opened_store (Some (encode_records rs @ t)))))) =
      Some (encode_records rs @ (t @ record_line r) @ [line_feed])"
    by (simp add: batch_done_def store_append_def opened_store_def ensure_flush_def next_batch_def written_def
        encode_records_def)
  have "read_lines parse ((t @ record_line r) @ [line_feed]) n = ([], Inl (n + 1))" for n
    using clean assms(2,6)
    by (subst read_lines.simps) (simp add: index_of_line [of "t @ record_line r" "[]", simplified] parse_record_line_def)
  then show "read_file parse (map_option (\<lambda>t. [t])
      (ws_file (batch_done (fst (store_append r (opened_store (Some (encode_records rs @ t)))))))) =
      (rs, Some (Suc (length rs)))"
    unfolding text' using read_lines_encoded [OF assms(1), of "(t @ record_line r) @ [line_feed]" 0]
    by (simp add: read_file_def)
qed

text \<open>
  A migration that crashes can lose the session: the file is emptied before the migrated records are
  written in its place, and at that moment it holds nothing.
\<close>

theorem crash_in_rewrite_loses_log:
  "Some [] \<in> crash_files (fst (store_rewrite rs (opened_store (Some (encode_records xs))))) \<and>
   read_file parse (Some [[]]) = ([], None)"
  by (auto simp: crash_files_def store_rewrite_def opened_store_def ensure_flush_def next_batch_def written_def read_file_def
      read_lines_no_feed intro!: image_eqI [of _ _ 0])

subsection \<open>A file at a glance\<close>

definition first_record :: wire_record where
  "first_record = [(''type'', JStr ''r1'')]"

definition second_record :: wire_record where
  "second_record = [(''type'', JStr ''r2'')]"

text \<open>A reader of just these two records.\<close>

definition two_records :: "string \<Rightarrow> wire_record option" where
  "two_records l = map_of [(record_line first_record, first_record), (record_line second_record, second_record)] l"

lemma two_lines:
  "record_line first_record = ''{'' @ [CHR 0x22] @ ''type'' @ [CHR 0x22] @ '':'' @ [CHR 0x22] @ ''r1'' @ [CHR 0x22] @ ''}''"
  "record_line second_record = ''{'' @ [CHR 0x22] @ ''type'' @ [CHR 0x22] @ '':'' @ [CHR 0x22] @ ''r2'' @ [CHR 0x22] @ ''}''"
  by code_simp+

lemma two_readable: "readable two_records [first_record, second_record]"
proof -
  have "two_records l = None" if "length l \<noteq> 13" for l
    using that by (auto simp: two_records_def two_lines)
  then have "two_records (take n (record_line r)) = None" if "n < length (record_line r)" "length (record_line r) = 13" for n r
    using that by simp
  moreover have "plain_record first_record" "plain_record second_record"
    by (simp_all add: plain_record_def first_record_def second_record_def)
  moreover have "two_records (record_line first_record) = Some first_record"
      "two_records (record_line second_record) = Some second_record"
    by (simp_all add: two_records_def two_lines)
  moreover have "length (record_line first_record) = 13" "length (record_line second_record) = 13"
    by (simp_all add: two_lines)
  ultimately show ?thesis
    by (simp add: readable_def reads_back_def)
qed

theorem store_refines_log_witness:
  "read_file two_records (map_option (\<lambda>t. [t])
     (ws_file (foldl store_step (opened_store (Some (encode_records [second_record])))
       [Appends first_record, Rewrites [first_record, second_record], Batch_Done, Batch_Done]))) =
   ([first_record, second_record], None)"
proof -
  let ?es = "[Appends first_record, Rewrites [first_record, second_record], Batch_Done, Batch_Done]"
  have log': "foldl log_step [second_record] ?es = [first_record, second_record]"
    by simp
  have "ws_flight (foldl store_step (opened_store (Some (encode_records [second_record]))) ?es) = None"
    by (simp add: opened_store_def store_append_def store_rewrite_def ensure_flush_def next_batch_def batch_done_def written_def)
  from store_refines_log [of two_records "[second_record]" ?es, unfolded log', OF two_readable this] show ?thesis
    by (rule conjunct2)
qed

theorem crash_keeps_prefix_witness:
  "\<exists>m. read_file two_records (Some [encode_records [first_record] @ take 3 (record_line second_record)]) =
     (take m [first_record, second_record], None) \<and> 1 \<le> m"
proof -
  let ?s = "foldl store_step (opened_store (Some (encode_records [first_record]))) [Appends second_record]"
  have log': "foldl log_step [first_record] [Appends second_record] = [first_record, second_record]"
    by simp
  have crash: "Some (encode_records [first_record] @ take 3 (record_line second_record)) \<in> crash_files ?s"
    by (auto simp: crash_files_def opened_store_def store_append_def ensure_flush_def next_batch_def written_def two_lines
        encode_records_def intro!: image_eqI [of _ _ 3])
  obtain m where m: "read_file two_records (Some [encode_records [first_record] @ take 3 (record_line second_record)]) =
      (take m [first_record, second_record], None)"
    "\<forall>j\<le>length [first_record, second_record].
       length (encode_records (take j [first_record, second_record])) \<le> length (opt_or (ws_file ?s) []) \<longrightarrow> j \<le> m"
    using crash_keeps_prefix [OF _ _ refl crash, of two_records, unfolded log', OF two_readable] by auto
  have "ws_file ?s = Some (encode_records [first_record])"
    by (simp add: opened_store_def store_append_def ensure_flush_def next_batch_def)
  then show ?thesis
    using m(1) spec [OF m(2), of 1] by auto
qed

theorem append_after_torn_line_corrupts_witness:
  "read_file two_records (Some [encode_records [first_record] @ ''{'']) = ([first_record], None) \<and>
   read_file two_records (map_option (\<lambda>t. [t])
     (ws_file (batch_done (fst (store_append second_record (opened_store (Some (encode_records [first_record] @ ''{'')))))))) =
     ([first_record], Some 2)"
proof -
  have "readable two_records [first_record]" "plain_record second_record"
    using two_readable by (simp_all add: readable_def)
  moreover have "two_records ''{'' = None" "two_records (''{'' @ record_line second_record) = None" "line_feed \<notin> set ''{''"
    by (simp_all add: two_records_def two_lines line_feed_def)
  ultimately show ?thesis
    using append_after_torn_line_corrupts [of two_records "[first_record]" "''{''" second_record] by (simp add: numeral_2_eq_2)
qed

end
