(* ===== verification/Blob_Store.thy ===== *)
theory Blob_Store
  imports Record_Migration
begin

text \<open>
  Large media outside the record log (\<open>agent/records/blobref.ts\<close>): the payload of a \<open>data:\<close> URL is written to
  a file named by its digest and the URL in the record refers to it; a bounded cache of the most recently used
  payloads stands before the files. The digest and the base64 coding are arguments.
\<close>

subsection \<open>The cache\<close>

record blob_coding =
  bc_digest :: "string \<Rightarrow> string"
  bc_decode :: "string \<Rightarrow> string"
  bc_encode :: "string \<Rightarrow> string"

record blob_store =
  bs_threshold :: nat
  bs_max :: nat
  bs_cache :: "(string \<times> string) list"
  bs_sizes :: "(string \<times> nat) list"
  bs_current :: int
  bs_files :: "(string \<times> string) list"

definition default_threshold :: nat where
  "default_threshold = 4096"

definition default_max_cache :: nat where
  "default_max_cache = 50 * 1024 * 1024"

definition new_blob_store :: "nat option \<Rightarrow> nat option \<Rightarrow> (string \<times> string) list \<Rightarrow> blob_store" where
  "new_blob_store threshold max_size files =
     \<lparr>bs_threshold = opt_or threshold default_threshold, bs_max = opt_or max_size default_max_cache,
      bs_cache = [], bs_sizes = [], bs_current = 0, bs_files = files\<rparr>"

text \<open>A \<open>Map\<close> lists its keys in the order they were last inserted anew; setting a present key keeps its place.\<close>

definition drop_key :: "string \<Rightarrow> (string \<times> 'a) list \<Rightarrow> (string \<times> 'a) list" where
  "drop_key k m = filter (\<lambda>kv. fst kv \<noteq> k) m"

definition evict_lru :: "blob_store \<Rightarrow> blob_store" where
  "evict_lru s =
     (case bs_cache s of
        [] \<Rightarrow> s
      | (h, p) # rest \<Rightarrow>
          (case map_of (bs_sizes s) h of
             None \<Rightarrow> s
           | Some n \<Rightarrow>
               s\<lparr>bs_current := bs_current s - int n, bs_cache := drop_key h (bs_cache s), bs_sizes := drop_key h (bs_sizes s)\<rparr>))"

text \<open>The loop ends because each turn drops an entry; it runs at most once per entry.\<close>

fun evict_until :: "nat \<Rightarrow> nat \<Rightarrow> blob_store \<Rightarrow> blob_store" where
  "evict_until 0 needed s = s"
| "evict_until (Suc n) needed s =
     (if bs_current s + int needed > int (bs_max s) \<and> bs_cache s \<noteq> [] then evict_until n needed (evict_lru s) else s)"

definition put_entry :: "string \<Rightarrow> string \<Rightarrow> blob_store \<Rightarrow> blob_store" where
  "put_entry h p s =
     s\<lparr>bs_cache := AList.update h p (bs_cache s), bs_sizes := AList.update h (length p) (bs_sizes s)\<rparr>"

definition set_cache :: "string \<Rightarrow> string \<Rightarrow> blob_store \<Rightarrow> blob_store" where
  "set_cache h p s =
     (if map_of (bs_cache s) h \<noteq> None
      then
        let old = opt_or (map_of (bs_sizes s) h) 0
        in put_entry h p (s\<lparr>bs_current := bs_current s + (int (length p) - int old), bs_cache := drop_key h (bs_cache s)\<rparr>)
      else if length p > bs_max s then s
      else
        let s1 = evict_until (length (bs_cache s)) (length p) s
        in put_entry h p (s1\<lparr>bs_current := bs_current s1 + int (length p)\<rparr>))"

subsection \<open>Blobs\<close>

definition write_blob :: "blob_coding \<Rightarrow> string \<Rightarrow> string \<Rightarrow> blob_store \<Rightarrow> blob_store \<times> string" where
  "write_blob c mime payload s =
     (let h = bc_digest c payload; binary = bc_decode c payload;
          s1 = (if map_of (bs_files s) h = None then s\<lparr>bs_files := (h, binary) # bs_files s\<rparr> else s)
      in (set_cache h binary s1, ''blobref:'' @ mime @ '';'' @ h))"

definition read_blob :: "string \<Rightarrow> blob_store \<Rightarrow> blob_store \<times> string option" where
  "read_blob h s =
     (case map_of (bs_cache s) h of
        Some p \<Rightarrow> (s\<lparr>bs_cache := drop_key h (bs_cache s) @ [(h, p)]\<rparr>, Some p)
      | None \<Rightarrow>
          (case map_of (bs_files s) h of
             None \<Rightarrow> (s, None)
           | Some p \<Rightarrow> (set_cache h p s, Some p)))"

text \<open>\<open>^data:([^;]+);base64,\<close>: the type and what follows the header.\<close>

definition data_uri :: "string \<Rightarrow> (string \<times> string) option" where
  "data_uri v =
     (if \<not> prefix ''data:'' v then None
      else
        let rest = drop 5 v; mime = takeWhile (\<lambda>ch. ch \<noteq> CHR '';'') rest; tl' = dropWhile (\<lambda>ch. ch \<noteq> CHR '';'') rest
        in if mime \<noteq> [] \<and> prefix '';base64,'' tl' then Some (mime, drop 8 tl') else None)"

definition maybe_offload :: "blob_coding \<Rightarrow> string \<Rightarrow> blob_store \<Rightarrow> blob_store \<times> string" where
  "maybe_offload c v s =
     (if prefix ''blobref:'' v then (s, v)
      else case data_uri v of
        None \<Rightarrow> (s, v)
      | Some (mime, payload) \<Rightarrow> if length payload < bs_threshold s then (s, v) else write_blob c mime payload s)"

definition rehydrate_url :: "blob_coding \<Rightarrow> string \<Rightarrow> blob_store \<Rightarrow> blob_store \<times> string option" where
  "rehydrate_url c url s =
     (let rest = drop 8 url
      in case index_of (CHR '';'') rest of
        None \<Rightarrow> (s, None)
      | Some i \<Rightarrow>
          let mime = take i rest; h = drop (i + 1) rest
          in if h = [] then (s, None)
             else (case read_blob h s of
                 (s1, None) \<Rightarrow> (s1, None)
               | (s1, Some p) \<Rightarrow> (s1, Some (''data:'' @ mime @ '';base64,'' @ bc_encode c p))))"

definition missing_media :: string where
  "missing_media = ''[media missing]''"

subsection \<open>Parts\<close>





definition rehydrate_one :: "blob_coding \<Rightarrow> string \<Rightarrow> blob_store \<Rightarrow> blob_store \<times> string" where
  "rehydrate_one c u s =
     (if \<not> prefix ''blobref:'' u then (s, u)
      else case rehydrate_url c u s of (s1, r) \<Rightarrow> (s1, opt_or r missing_media))"


fun over_parts :: "(wire_record \<Rightarrow> blob_store \<Rightarrow> blob_store \<times> wire_record) \<Rightarrow> json list \<Rightarrow> blob_store \<Rightarrow> blob_store \<times> json list" where
  "over_parts f [] s = (s, [])"
| "over_parts f (JObj p # ps) s = (let (s1, p') = f p s; (s2, ps') = over_parts f ps s1 in (s2, JObj p' # ps'))"
| "over_parts f (p # ps) s = (let (s1, ps') = over_parts f ps s in (s1, p # ps'))"

definition over_field ::
  "(wire_record \<Rightarrow> blob_store \<Rightarrow> blob_store \<times> wire_record) \<Rightarrow> string \<Rightarrow> wire_record \<Rightarrow> blob_store \<Rightarrow> blob_store \<times> wire_record" where
  "over_field f k r s =
     (case obj_get k r of
        Some (JArr ps) \<Rightarrow> (let (s1, ps') = over_parts f ps s in (s1, obj_put k (JArr ps') r))
      | _ \<Rightarrow> (s, r))"

definition over_object ::
  "(wire_record \<Rightarrow> blob_store \<Rightarrow> blob_store \<times> wire_record) \<Rightarrow> string \<Rightarrow> wire_record \<Rightarrow> blob_store \<Rightarrow> blob_store \<times> wire_record" where
  "over_object f k r s =
     (case obj_get k r of
        Some (JObj m) \<Rightarrow> (let (s1, m') = f m s in (s1, obj_put k (JObj m') r))
      | _ \<Rightarrow> (s, r))"

definition either_type ::
  "string list \<Rightarrow> (wire_record \<Rightarrow> blob_store \<Rightarrow> blob_store \<times> wire_record) \<Rightarrow>
   (wire_record \<Rightarrow> blob_store \<Rightarrow> blob_store \<times> wire_record) \<Rightarrow> wire_record \<Rightarrow> blob_store \<Rightarrow> blob_store \<times> wire_record" where
  "either_type ts f g r s = (if record_type r \<in> Some ` set ts then f r s else g r s)"

definition as_it_is :: "wire_record \<Rightarrow> blob_store \<Rightarrow> blob_store \<times> wire_record" where
  "as_it_is r s = (s, r)"




subsection \<open>The cache invariant\<close>

abbreviation stored_bytes :: "(string \<times> string) list \<Rightarrow> nat" where
  "stored_bytes m \<equiv> sum_list (map (\<lambda>kv. length (snd kv)) m)"

text \<open>The sizes are those of the entries and their sum is counted; the sum stays under the bound.\<close>

definition cache_ok :: "blob_store \<Rightarrow> bool" where
  "cache_ok s \<longleftrightarrow>
     distinct (map fst (bs_cache s)) \<and> (\<forall>h. map_of (bs_sizes s) h = map_option length (map_of (bs_cache s) h)) \<and>
     bs_current s = int (stored_bytes (bs_cache s)) \<and> stored_bytes (bs_cache s) \<le> bs_max s"

lemma map_of_drop_key [simp]: "map_of (drop_key k m) = (map_of m)(k := None)"
  by (induction m) (auto simp: drop_key_def fun_eq_iff)

lemma distinct_drop_key: "distinct (map fst m) \<Longrightarrow> distinct (map fst (drop_key k m))"
  by (simp add: drop_key_def distinct_map_filter)

lemma drop_key_absent: "map_of m k = None \<Longrightarrow> drop_key k m = m"
  by (auto simp: drop_key_def map_of_eq_None_iff filter_id_conv)

lemma stored_drop_key:
  "distinct (map fst m) \<Longrightarrow> map_of m k = Some p \<Longrightarrow> stored_bytes m = stored_bytes (drop_key k m) + length p"
proof (induction m)
  case (Cons kv m)
  show ?case
  proof (cases "fst kv = k")
    case True
    then have "drop_key k m = m"
      using Cons.prems by (intro drop_key_absent) (auto simp: map_of_eq_None_iff)
    then show ?thesis
      using Cons.prems True by (cases kv) (auto simp: drop_key_def)
  next
    case False
    then show ?thesis
      using Cons by (cases kv) (auto simp: drop_key_def)
  qed
qed simp

lemma update_absent: "map_of m k = None \<Longrightarrow> AList.update k v m = m @ [(k, v)]"
  by (induction m) (auto split: if_splits)

lemma evict_lru_ok:
  assumes "cache_ok s" "bs_cache s = (h, p) # rest"
  shows "cache_ok (evict_lru s)" "bs_cache (evict_lru s) = rest" "bs_max (evict_lru s) = bs_max s" "bs_files (evict_lru s) = bs_files s"
proof -
  have sizes: "map_of (bs_sizes s) h = Some (length p)"
    using assms by (simp add: cache_ok_def)
  have rest: "drop_key h (bs_cache s) = rest"
    using assms by (auto simp: cache_ok_def drop_key_def filter_id_conv)
  then show "bs_cache (evict_lru s) = rest" "bs_max (evict_lru s) = bs_max s" "bs_files (evict_lru s) = bs_files s"
    using assms(2) sizes by (simp_all add: evict_lru_def)
  have "map_of rest h = None"
    using assms by (auto simp: cache_ok_def map_of_eq_None_iff)
  then show "cache_ok (evict_lru s)"
    using assms sizes rest by (auto simp: cache_ok_def evict_lru_def split: if_splits)
qed

lemma evict_until_ok:
  assumes "cache_ok s" "length (bs_cache s) \<le> n" "needed \<le> bs_max s"
  shows "cache_ok (evict_until n needed s) \<and> bs_current (evict_until n needed s) + int needed \<le> int (bs_max s) \<and>
    (\<exists>k. bs_cache (evict_until n needed s) = drop k (bs_cache s)) \<and> bs_max (evict_until n needed s) = bs_max s \<and>
    bs_files (evict_until n needed s) = bs_files s"
  using assms
proof (induction n arbitrary: s)
  case 0
  then show ?case
    by (auto simp: cache_ok_def)
next
  case (Suc n)
  show ?case
  proof (cases "bs_current s + int needed > int (bs_max s) \<and> bs_cache s \<noteq> []")
    case True
    then obtain h p rest where cons: "bs_cache s = (h, p) # rest"
      by (cases "bs_cache s") auto
    note ev = evict_lru_ok [OF Suc.prems(1) cons]
    have "length (bs_cache (evict_lru s)) \<le> n"
      using Suc.prems(2) cons ev(2) by simp
    from Suc.IH [OF ev(1) this] ev Suc.prems(3) obtain k where
      "cache_ok (evict_until n needed (evict_lru s))" "bs_cache (evict_until n needed (evict_lru s)) = drop k rest"
      "bs_current (evict_until n needed (evict_lru s)) + int needed \<le> int (bs_max s)"
      "bs_max (evict_until n needed (evict_lru s)) = bs_max s" "bs_files (evict_until n needed (evict_lru s)) = bs_files s"
      by auto
    then show ?thesis
      using True cons by (auto intro: exI [of _ "Suc k"])
  next
    case False
    then show ?thesis
      using Suc.prems by (auto simp: cache_ok_def intro: exI [of _ 0])
  qed
qed

lemma snoc_lookup: "map_of m h = None \<Longrightarrow> map_of (m @ [(h, p)]) h' = (if h' = h then Some p else map_of m h')"
  by (auto simp: map_add_def split: option.split)

lemma put_new_ok:
  assumes "cache_ok s" "map_of (bs_cache s) h = None" "stored_bytes (bs_cache s) + length p \<le> bs_max s"
  shows "cache_ok (put_entry h p (s\<lparr>bs_current := bs_current s + int (length p)\<rparr>))"
proof -
  have "h \<notin> fst ` set (bs_cache s)"
    using assms(2) by (simp add: map_of_eq_None_iff)
  then show ?thesis
    using assms by (simp add: cache_ok_def put_entry_def update_absent snoc_lookup update_conv' del: map_of_append)
qed

text \<open>Whatever is cached under the key has the same size as what is put there.\<close>

lemma set_cache_ok:
  assumes ok: "cache_ok s" and same: "\<And>q. map_of (bs_cache s) h = Some q \<Longrightarrow> length q = length p"
  shows "cache_ok (set_cache h p s)" "bs_files (set_cache h p s) = bs_files s" "bs_max (set_cache h p s) = bs_max s"
    "set (bs_cache (set_cache h p s)) \<subseteq> insert (h, p) (set (bs_cache s))"
proof -
  consider (hit) q where "map_of (bs_cache s) h = Some q" | (large) "map_of (bs_cache s) h = None" "length p > bs_max s"
    | (new) "map_of (bs_cache s) h = None" "length p \<le> bs_max s"
    by force
  then have "cache_ok (set_cache h p s) \<and> bs_files (set_cache h p s) = bs_files s \<and> bs_max (set_cache h p s) = bs_max s \<and>
    set (bs_cache (set_cache h p s)) \<subseteq> insert (h, p) (set (bs_cache s))"
  proof cases
    case hit
    let ?s = "s\<lparr>bs_cache := drop_key h (bs_cache s)\<rparr>"
    have size: "map_of (bs_sizes s) h = Some (length p)" "length q = length p"
      using ok same [OF hit] hit by (auto simp: cache_ok_def)
    have bytes: "stored_bytes (bs_cache s) = stored_bytes (drop_key h (bs_cache s)) + length p"
      using stored_drop_key [OF _ hit] ok size(2) by (simp add: cache_ok_def)
    have "set_cache h p s = s\<lparr>bs_cache := drop_key h (bs_cache s) @ [(h, p)], bs_sizes := AList.update h (length p) (bs_sizes s)\<rparr>"
      using hit size by (simp add: set_cache_def put_entry_def update_absent)
    moreover have "h \<notin> fst ` set (drop_key h (bs_cache s))" "set (drop_key h (bs_cache s)) \<subseteq> set (bs_cache s)"
      by (auto simp: drop_key_def)
    ultimately show ?thesis
      using ok bytes
      by (simp add: cache_ok_def distinct_drop_key snoc_lookup update_conv' del: map_of_append) blast
  next
    case large
    then show ?thesis
      using ok by (auto simp: set_cache_def)
  next
    case new
    let ?e = "evict_until (length (bs_cache s)) (length p) s"
    obtain k where e: "cache_ok ?e" "bs_current ?e + int (length p) \<le> int (bs_max s)" "bs_cache ?e = drop k (bs_cache s)"
        "bs_max ?e = bs_max s" "bs_files ?e = bs_files s"
      using evict_until_ok [OF ok order_refl new(2)] by auto
    have absent: "map_of (bs_cache ?e) h = None"
      using new(1) e(3) by (auto simp: map_of_eq_None_iff dest: in_set_dropD)
    moreover have "stored_bytes (bs_cache ?e) + length p \<le> bs_max ?e"
      using e(1,2,4) by (simp add: cache_ok_def)
    ultimately show ?thesis
      using put_new_ok [OF e(1) absent] new e by (auto simp: set_cache_def put_entry_def update_absent Let_def dest: in_set_dropD)
  qed
  then show "cache_ok (set_cache h p s)" "bs_files (set_cache h p s) = bs_files s" "bs_max (set_cache h p s) = bs_max s"
    "set (bs_cache (set_cache h p s)) \<subseteq> insert (h, p) (set (bs_cache s))"
    by blast+
qed

subsection \<open>Files and their names\<close>

text \<open>
  The payloads \<open>ps\<close> are those that occur in the store's life: no two of them share a digest, and their digests
  are not empty. Nothing is asked of the digest on other strings.
\<close>

definition collision_free :: "blob_coding \<Rightarrow> string set \<Rightarrow> bool" where
  "collision_free c ps \<longleftrightarrow> inj_on (bc_digest c) ps \<and> (\<forall>x\<in>ps. bc_digest c x \<noteq> [])"

definition blob_inv :: "blob_coding \<Rightarrow> string set \<Rightarrow> blob_store \<Rightarrow> bool" where
  "blob_inv c ps s \<longleftrightarrow>
     collision_free c ps \<and> cache_ok s \<and> set (bs_cache s) \<subseteq> set (bs_files s) \<and> distinct (map fst (bs_files s)) \<and>
     (\<forall>(h, p)\<in>set (bs_files s). \<exists>payload\<in>ps. h = bc_digest c payload \<and> p = bc_decode c payload)"

lemma blob_inv_cached:
  assumes "blob_inv c ps s" "map_of (bs_cache s) h = Some p"
  shows "map_of (bs_files s) h = Some p"
  using assms map_of_SomeD [OF assms(2)] by (auto simp: blob_inv_def intro: map_of_is_SomeI)

lemma set_cache_inv:
  assumes "blob_inv c ps s" "map_of (bs_files s) h = Some p"
  shows "blob_inv c ps (set_cache h p s)"
proof -
  have same: "length q = length p" if "map_of (bs_cache s) h = Some q" for q
    using blob_inv_cached [OF assms(1) that] assms(2) by simp
  have "(h, p) \<in> set (bs_files s)"
    using assms(2) by (rule map_of_SomeD)
  then show ?thesis
    using set_cache_ok [of s h p, OF _ same] assms(1) by (auto simp: blob_inv_def)
qed

text \<open>The store after a write, and what its files hold under the digest.\<close>

lemma write_blob_inv:
  assumes "blob_inv c ps s" "payload \<in> ps"
  shows "blob_inv c ps (fst (write_blob c mime payload s))" "set (bs_files s) \<subseteq> set (bs_files (fst (write_blob c mime payload s)))"
    "map_of (bs_files (fst (write_blob c mime payload s))) (bc_digest c payload) = Some (bc_decode c payload)"
proof -
  let ?h = "bc_digest c payload" and ?p = "bc_decode c payload"
  let ?s = "if map_of (bs_files s) ?h = None then s\<lparr>bs_files := (?h, ?p) # bs_files s\<rparr> else s"
  have files: "map_of (bs_files ?s) ?h = Some ?p"
  proof (cases "map_of (bs_files s) ?h")
    case (Some q)
    then have "\<exists>payload'\<in>ps. ?h = bc_digest c payload' \<and> q = bc_decode c payload'"
      using assms map_of_SomeD [OF Some] unfolding blob_inv_def by fast
    then have "q = ?p"
      using assms by (auto simp: blob_inv_def collision_free_def dest: inj_onD)
    then show ?thesis
      using Some by simp
  qed simp
  have inv: "blob_inv c ps ?s"
    using assms by (auto simp: blob_inv_def cache_ok_def map_of_eq_None_iff)
  have after: "fst (write_blob c mime payload s) = set_cache ?h ?p ?s"
    by (simp add: write_blob_def Let_def)
  have same: "length q = length ?p" if "map_of (bs_cache ?s) ?h = Some q" for q
    using blob_inv_cached [OF inv that] files by simp
  have kept: "bs_files (set_cache ?h ?p ?s) = bs_files ?s"
    using inv by (intro set_cache_ok(2) same) (simp_all add: blob_inv_def)
  show "blob_inv c ps (fst (write_blob c mime payload s))"
    unfolding after by (rule set_cache_inv [OF inv files])
  show "set (bs_files s) \<subseteq> set (bs_files (fst (write_blob c mime payload s)))"
    unfolding after kept by auto
  show "map_of (bs_files (fst (write_blob c mime payload s))) ?h = Some ?p"
    unfolding after kept by (rule files)
qed

lemma read_blob_inv:
  assumes "blob_inv c ps s"
  shows "blob_inv c ps (fst (read_blob h s))" "bs_files (fst (read_blob h s)) = bs_files s" "snd (read_blob h s) = map_of (bs_files s) h"
proof -
  have "blob_inv c ps (fst (read_blob h s)) \<and> bs_files (fst (read_blob h s)) = bs_files s \<and> snd (read_blob h s) = map_of (bs_files s) h"
  proof (cases "map_of (bs_cache s) h")
    case (Some p)
    have "h \<notin> fst ` set (drop_key h (bs_cache s))" "set (drop_key h (bs_cache s)) \<subseteq> set (bs_cache s)"
      by (auto simp: drop_key_def)
    moreover have "stored_bytes (bs_cache s) = stored_bytes (drop_key h (bs_cache s)) + length p"
      using stored_drop_key [OF _ Some] assms by (simp add: blob_inv_def cache_ok_def)
    ultimately show ?thesis
      using assms Some blob_inv_cached [OF assms Some] map_of_SomeD [OF Some]
      by (simp add: read_blob_def blob_inv_def cache_ok_def distinct_drop_key snoc_lookup del: map_of_append) blast
  next
    case None
    show ?thesis
    proof (cases "map_of (bs_files s) h")
      case (Some p)
      have "bs_files (set_cache h p s) = bs_files s"
        using assms None by (intro set_cache_ok(2)) (simp_all add: blob_inv_def)
      then show ?thesis
        using set_cache_inv [OF assms Some] None Some by (simp add: read_blob_def)
    qed (use assms None in \<open>simp add: read_blob_def\<close>)
  qed
  then show "blob_inv c ps (fst (read_blob h s))" "bs_files (fst (read_blob h s)) = bs_files s"
    "snd (read_blob h s) = map_of (bs_files s) h"
    by blast+
qed

text \<open>The payload of a value that can be offloaded is one of those that occur.\<close>

definition payload_in :: "string set \<Rightarrow> string \<Rightarrow> bool" where
  "payload_in ps v \<longleftrightarrow> (case data_uri v of None \<Rightarrow> True | Some (mime, payload) \<Rightarrow> payload \<in> ps)"

lemma maybe_offload_inv:
  assumes "blob_inv c ps s" "payload_in ps v"
  shows "blob_inv c ps (fst (maybe_offload c v s))" "set (bs_files s) \<subseteq> set (bs_files (fst (maybe_offload c v s)))"
proof -
  have "blob_inv c ps (fst (maybe_offload c v s)) \<and> set (bs_files s) \<subseteq> set (bs_files (fst (maybe_offload c v s)))"
  proof (cases "data_uri v")
    case (Some mp)
    obtain mime payload where mp: "mp = (mime, payload)"
      by force
    then have "payload \<in> ps"
      using assms(2) Some by (simp add: payload_in_def)
    from write_blob_inv [OF assms(1) this, of mime] show ?thesis
      using assms(1) Some mp by (simp add: maybe_offload_def)
  qed (use assms(1) in \<open>simp add: maybe_offload_def\<close>)
  then show "blob_inv c ps (fst (maybe_offload c v s))" "set (bs_files s) \<subseteq> set (bs_files (fst (maybe_offload c v s)))"
    by blast+
qed

lemma rehydrate_one_inv:
  assumes "blob_inv c ps s"
  shows "blob_inv c ps (fst (rehydrate_one c u s))" "bs_files (fst (rehydrate_one c u s)) = bs_files s"
  using assms read_blob_inv [OF assms]
  by (auto simp: rehydrate_one_def rehydrate_url_def Let_def split: option.splits prod.splits; (metis fst_conv)?)+

text \<open>A session's use of the store; a new process begins with an empty cache over the same files.\<close>

datatype blob_op = Op_Offload string | Op_Rehydrate string | Op_Restart

fun blob_step :: "blob_coding \<Rightarrow> blob_store \<Rightarrow> blob_op \<Rightarrow> blob_store" where
  "blob_step c s (Op_Offload v) = fst (maybe_offload c v s)"
| "blob_step c s (Op_Rehydrate u) = fst (rehydrate_one c u s)"
| "blob_step c s Op_Restart = new_blob_store (Some (bs_threshold s)) (Some (bs_max s)) (bs_files s)"

fun op_payload_in :: "string set \<Rightarrow> blob_op \<Rightarrow> bool" where
  "op_payload_in ps (Op_Offload v) = payload_in ps v"
| "op_payload_in ps e = True"

lemma blob_step_inv: "blob_inv c ps s \<Longrightarrow> op_payload_in ps e \<Longrightarrow> blob_inv c ps (blob_step c s e)"
  by (cases e) (auto simp: maybe_offload_inv rehydrate_one_inv, simp add: blob_inv_def cache_ok_def new_blob_store_def)

lemma blob_step_files:
  "blob_inv c ps s \<Longrightarrow> op_payload_in ps e \<Longrightarrow> set (bs_files s) \<subseteq> set (bs_files (blob_step c s e))"
  by (cases e) (simp_all add: maybe_offload_inv rehydrate_one_inv new_blob_store_def)

text \<open>Along a run the invariant is kept, and no file that was there at its start \<open>s0\<close> is lost.\<close>

interpretation blobs: guarded_machine "blob_step c" "\<lambda>s. op_payload_in ps"
    "\<lambda>s. blob_inv c ps s \<and> set (bs_files s0) \<subseteq> set (bs_files s)" for c ps s0
  by unfold_locales (use blob_step_inv blob_step_files in blast)

lemma allowed_payloads: "allowed_run (blob_step c) (\<lambda>s. op_payload_in ps) s ops \<longleftrightarrow> list_all (op_payload_in ps) ops"
  by (induction ops arbitrary: s) simp_all

lemma blob_run:
  assumes "blob_inv c ps s" "list_all (op_payload_in ps) ops"
  shows "blob_inv c ps (foldl (blob_step c) s ops)" "set (bs_files s) \<subseteq> set (bs_files (foldl (blob_step c) s ops))"
  using blobs.allowed_run_inv [of c ps s s ops] assms by (simp_all add: allowed_payloads)

subsection \<open>Undoing an offload\<close>


lemma obj_put_put [simp]: "obj_put k a (obj_put k b r) = obj_put k a r"
  by (induction r) auto


















definition keeps_type :: "(wire_record \<Rightarrow> blob_store \<Rightarrow> blob_store \<times> wire_record) \<Rightarrow> bool" where
  "keeps_type f \<longleftrightarrow> (\<forall>r s. record_type (snd (f r s)) = record_type r)"




lemma keeps_type_simps [simp]:
  "k \<noteq> ''type'' \<Longrightarrow> keeps_type (over_field f k)" "k \<noteq> ''type'' \<Longrightarrow> keeps_type (over_object f k)"
  "keeps_type as_it_is" "keeps_type f \<Longrightarrow> keeps_type g \<Longrightarrow> keeps_type (either_type ts f g)"
  by (auto simp: keeps_type_def over_field_def over_object_def as_it_is_def either_type_def case_prod_beta
      split: option.split json.split)



subsection \<open>Records survive their offload\<close>

lemma index_of_stop: "c \<notin> set a \<Longrightarrow> index_of c (a @ c # b) = Some (length a)"
  by (induction a) auto




lemma rehydrate_reference:
  assumes "snd (read_blob h t) = Some p" "h \<noteq> []" "CHR '';'' \<notin> set mime"
  shows "snd (rehydrate_one c (''blobref:'' @ mime @ '';'' @ h) t) = ''data:'' @ mime @ '';base64,'' @ bc_encode c p"
proof -
  obtain t1 where "read_blob h t = (t1, Some p)"
    using assms(1) by (metis prod.collapse)
  then show ?thesis
    using index_of_stop [OF assms(3), of h] assms(2) by (simp add: rehydrate_one_def rehydrate_url_def Let_def)
qed





text \<open>
  The cache counts what it holds and never holds more than its bound, whatever is offloaded and read, when no
  two of the payloads offloaded share a digest.
\<close>

theorem blob_cache_bounded:
  assumes "collision_free c ps" "list_all (op_payload_in ps) ops"
  shows "bs_current (foldl (blob_step c) (new_blob_store threshold max_size []) ops) =
      int (stored_bytes (bs_cache (foldl (blob_step c) (new_blob_store threshold max_size []) ops))) \<and>
    stored_bytes (bs_cache (foldl (blob_step c) (new_blob_store threshold max_size []) ops)) \<le>
      bs_max (foldl (blob_step c) (new_blob_store threshold max_size []) ops)"
proof -
  have "blob_inv c ps (new_blob_store threshold max_size [])"
    using assms by (simp add: blob_inv_def new_blob_store_def cache_ok_def)
  from blob_run(1) [OF this assms(2)] show ?thesis
    by (simp add: blob_inv_def cache_ok_def)
qed

text \<open>
  A crash between creating a blob's file and writing it loses the media for good: the file that exists is
  taken for the finished blob when the same payload is offloaded again, and later read as it is.
\<close>

theorem torn_blob_is_kept:
  assumes "bc_digest c payload \<noteq> []"
  shows "let s = new_blob_store (Some 0) max_size [(bc_digest c payload, [])];
      (s1, u) = maybe_offload c (''data:image/png;base64,'' @ payload) s
    in snd (rehydrate_one c u (blob_step c s1 Op_Restart)) = ''data:image/png;base64,'' @ bc_encode c []"
proof -
  let ?s = "new_blob_store (Some 0) max_size [(bc_digest c payload, [])]" and ?h = "bc_digest c payload"
  let ?w = "write_blob c ''image/png'' payload ?s"
  have "data_uri (''data:image/png;base64,'' @ payload) = Some (''image/png'', payload)"
    by (simp add: data_uri_def Let_def)
  then have off: "maybe_offload c (''data:image/png;base64,'' @ payload) ?s = ?w"
    by (simp add: maybe_offload_def new_blob_store_def)
  have url: "snd ?w = ''blobref:'' @ ''image/png'' @ '';'' @ ?h"
    by (simp add: write_blob_def Let_def)
  have "bs_files (fst ?w) = [(?h, [])]"
    by (simp add: write_blob_def Let_def new_blob_store_def set_cache_def put_entry_def)
  then have "snd (read_blob ?h (blob_step c (fst ?w) Op_Restart)) = Some []"
    by (simp add: new_blob_store_def read_blob_def)
  from rehydrate_reference [OF this assms, of "''image/png''" c] show ?thesis
    unfolding Let_def off case_prod_beta url by simp
qed

subsection \<open>A store at a glance\<close>

text \<open>
  A digest that is short, and so shared by many strings, but not by the payloads of the example; and a coding
  that is as simple as it can be.
\<close>

definition plain_coding :: blob_coding where
  "plain_coding = \<lparr>bc_digest = (\<lambda>p. CHR ''h'' # take 4 p), bc_decode = (\<lambda>p. p), bc_encode = (\<lambda>p. p)\<rparr>"


lemma small_store:
  "new_blob_store (Some n) (Some k) files =
     \<lparr>bs_threshold = n, bs_max = k, bs_cache = [], bs_sizes = [], bs_current = 0, bs_files = files\<rparr>"
  by (simp add: new_blob_store_def)

abbreviation sample_payloads :: "string set" where
  "sample_payloads \<equiv> {''AAAA'', ''BBBB''}"

lemma plain_coding_ok: "collision_free plain_coding sample_payloads"
  by (simp add: collision_free_def plain_coding_def)

lemma sample_payload_in: "payload_in sample_payloads ''data:image/png;base64,AAAA''"
    "list_all (op_payload_in sample_payloads) [Op_Restart, Op_Offload ''data:image/png;base64,BBBB'']"
    "list_all (op_payload_in sample_payloads) [Op_Offload ''data:a;base64,AAAA'', Op_Offload ''data:a;base64,BBBB'']"
  by (simp_all add: payload_in_def data_uri_def Let_def)



theorem blob_cache_bounded_witness:
  "stored_bytes (bs_cache (foldl (blob_step plain_coding) (new_blob_store (Some 0) (Some 5) [])
     [Op_Offload ''data:a;base64,AAAA'', Op_Offload ''data:a;base64,BBBB''])) \<le> 5"
proof -
  have "bs_max (foldl (blob_step plain_coding) (new_blob_store (Some 0) (Some 5) [])
     [Op_Offload ''data:a;base64,AAAA'', Op_Offload ''data:a;base64,BBBB'']) = 5"
    unfolding small_store by code_simp
  then show ?thesis
    using blob_cache_bounded [OF plain_coding_ok sample_payload_in(3), of "Some 0" "Some 5"] by simp
qed

theorem torn_blob_is_kept_witness:
  "snd (rehydrate_one plain_coding ''blobref:image/png;hAAAA''
     (blob_step plain_coding (fst (maybe_offload plain_coding ''data:image/png;base64,AAAA''
       (new_blob_store (Some 0) (Some 9) [(''hAAAA'', [])]))) Op_Restart)) = ''data:image/png;base64,''"
proof -
  have "snd (maybe_offload plain_coding ''data:image/png;base64,AAAA'' (new_blob_store (Some 0) (Some 9) [(''hAAAA'', [])])) =
      ''blobref:image/png;hAAAA''"
    unfolding small_store by code_simp
  then show ?thesis
    using torn_blob_is_kept [of plain_coding "''AAAA''" "Some 9"] by (simp add: plain_coding_def case_prod_beta Let_def)
qed

end
