(* ===== verification/Background_Tasks.thy ===== *)
theory Background_Tasks
  imports Context_Memory Cron_Tools
begin

text \<open>
  Background tasks (\<open>agent/background/index.ts\<close>, \<open>task.ts\<close>, \<open>persist.ts\<close>): registration, the race between the
  worker, its deadline and requests to stop, the grace after an abort, output in memory and on disk,
  notifications, and what a restart makes of the tasks it finds. A concrete task is an argument: when it
  writes output and how it settles are steps of their own, and so is the passing of time. Writes of one task
  are queued one behind the other in the code; they take effect here when they are queued. Whether the disk
  accepts writes is part of the state and changes by steps of its own; a write it refuses is dropped, as the
  code does. Telemetry and the fields that only a concrete task fills are left out.
\<close>

subsection \<open>Tasks\<close>

datatype bg_status = Bg_Running | Bg_Completed | Bg_Failed | Bg_Timed_Out | Bg_Killed | Bg_Lost

definition terminal_statuses :: "bg_status list" where
  "terminal_statuses = [Bg_Completed, Bg_Failed, Bg_Timed_Out, Bg_Killed, Bg_Lost]"

definition is_terminal :: "bg_status \<Rightarrow> bool" where
  "is_terminal s \<longleftrightarrow> s \<in> set terminal_statuses"

fun status_text :: "bg_status \<Rightarrow> string" where
  "status_text Bg_Running = ''running''"
| "status_text Bg_Completed = ''completed''"
| "status_text Bg_Failed = ''failed''"
| "status_text Bg_Timed_Out = ''timed_out''"
| "status_text Bg_Killed = ''killed''"
| "status_text Bg_Lost = ''lost''"

datatype settled_as = Settled_Completed | Settled_Failed | Settled_Timed_Out | Settled_Killed

fun settled_status :: "settled_as \<Rightarrow> bg_status" where
  "settled_status Settled_Completed = Bg_Completed"
| "settled_status Settled_Failed = Bg_Failed"
| "settled_status Settled_Timed_Out = Bg_Timed_Out"
| "settled_status Settled_Killed = Bg_Killed"

record settlement =
  st_as :: settled_as
  st_reason :: "string option"

datatype bg_kind = Process_Task | Agent_Task "string option" | Question_Task

fun kind_text :: "bg_kind \<Rightarrow> string" where
  "kind_text Process_Task = ''process''"
| "kind_text (Agent_Task i) = ''agent''"
| "kind_text Question_Task = ''question''"

record bg_info =
  bi_id :: string
  bi_kind :: bg_kind
  bi_description :: string
  bi_status :: bg_status
  bi_detached :: "bool option"
  bi_started :: int
  bi_ended :: "int option"
  bi_reason :: "string option"
  bi_suppressed :: bool
  bi_timeout :: "int option"

text \<open>What a concrete task tells the manager, and the options of its registration.\<close>

record bg_worker =
  bw_prefix :: string
  bw_kind :: bg_kind
  bw_description :: string
  bw_timeout :: "int option"
  bw_force_stop :: bool

record bg_options =
  bo_detached :: "bool option"
  bo_timeout :: "int option"
  bo_detach_timeout :: "int option"
  bo_signal :: bool

datatype terminal_outcome = By_Worker settlement | By_Timeout | By_Stop "string option"

text \<open>
  The lifecycle of a task: the race, the grace given to an aborted worker, the wait for \<open>forceStop\<close> of a
  worker that did not answer in it, the last write, the end. The foreground promise is present until the
  task is detached.
\<close>

datatype task_phase = Racing | In_Grace terminal_outcome | Forcing terminal_outcome | Concluding | Over

datatype release_reason = Released_Detached | Released_Terminal

record managed_task =
  mt_id :: string
  mt_worker :: bg_worker
  mt_background :: bool
  mt_timeout :: "int option"
  mt_detach_timeout :: "int option"
  mt_signal :: bool
  mt_chunks :: "string list"
  mt_bytes :: nat
  mt_status :: bg_status
  mt_started :: int
  mt_ended :: "int option"
  mt_foreground :: bool
  mt_release :: "release_reason option"
  mt_deadline :: "int option"
  mt_reason :: "string option"
  mt_suppressed :: bool
  mt_aborted :: bool
  mt_pending :: "string list"
  mt_pending_bytes :: nat
  mt_persisting :: bool
  mt_settled :: "settlement option"
  mt_phase :: task_phase

definition to_info :: "managed_task \<Rightarrow> bg_info" where
  "to_info e =
     \<lparr>bi_id = mt_id e, bi_kind = bw_kind (mt_worker e), bi_description = bw_description (mt_worker e),
      bi_status = mt_status e, bi_detached = Some (\<not> mt_foreground e), bi_started = mt_started e,
      bi_ended = mt_ended e, bi_reason = mt_reason e, bi_suppressed = mt_suppressed e, bi_timeout = mt_timeout e\<rparr>"

text \<open>A record of an older version, and what it is read as.\<close>

datatype legacy_status =
  Legacy_Running | Legacy_Awaiting | Legacy_Completed | Legacy_Failed | Legacy_Killed | Legacy_Lost

record legacy_task =
  lt_id :: string
  lt_description :: string
  lt_started :: int
  lt_ended :: "int option"
  lt_status :: legacy_status
  lt_timed_out :: bool
  lt_reason :: "string option"
  lt_timeout :: "int option"
  lt_agent :: "string option"

datatype disk_task = Current_Task bg_info | Legacy_Task legacy_task

datatype bg_event =
    Bg_Started bg_info
  | Bg_Terminated bg_info
  | Bg_Steered "content_part list" prompt_origin
  | Bg_Told "content_part list" prompt_origin
  | Bg_Hook string
  | Bg_Force_Stop string

record bg_manager =
  bm_max :: "nat option"
  bm_dir :: "string option"
  bm_tasks :: "(string \<times> managed_task) list"
  bm_ghosts :: "(string \<times> bg_info) list"
  bm_scheduled :: "string list"
  bm_delivered :: "string list"
  bm_notifying :: "bg_info list"
  bm_files :: "(string \<times> disk_task) list"
  bm_logs :: "(string \<times> nat list) list"
  bm_events :: "bg_event list"
  bm_disk_ok :: bool

definition tell :: "bg_event list \<Rightarrow> bg_manager \<Rightarrow> bg_manager" where
  "tell evs m = m\<lparr>bm_events := bm_events m @ evs\<rparr>"

definition put_task :: "managed_task \<Rightarrow> bg_manager \<Rightarrow> bg_manager" where
  "put_task e m = m\<lparr>bm_tasks := AList.update (mt_id e) e (bm_tasks m)\<rparr>"

text \<open>What an operation does to the entry of a task, when there is one.\<close>

definition on_task :: "string \<Rightarrow> (managed_task \<Rightarrow> bg_manager \<Rightarrow> bg_manager) \<Rightarrow> bg_manager \<Rightarrow> bg_manager" where
  "on_task i f m = (case map_of (bm_tasks m) i of None \<Rightarrow> m | Some e \<Rightarrow> f e m)"

definition get_task :: "string \<Rightarrow> bg_manager \<Rightarrow> bg_info option" where
  "get_task i m =
     (case map_of (bm_tasks m) i of Some e \<Rightarrow> Some (to_info e) | None \<Rightarrow> map_of (bm_ghosts m) i)"

definition should_list :: "bool \<Rightarrow> bg_info \<Rightarrow> bool" where
  "should_list active_only info \<longleftrightarrow>
     (if \<not> is_terminal (bi_status info) then True else if active_only then False else bi_detached info \<noteq> Some False)"

text \<open>The code stops once the list has as many entries as the limit, looking at it after each one.\<close>

definition list_tasks :: "bool \<Rightarrow> nat option \<Rightarrow> bg_manager \<Rightarrow> bg_info list" where
  "list_tasks active_only limit m =
     (let found = filter (should_list active_only) (map (to_info \<circ> snd) (bm_tasks m) @ (if active_only then [] else map snd (bm_ghosts m)))
      in case limit of None \<Rightarrow> found | Some k \<Rightarrow> take (max 1 k) found)"

subsection \<open>Output\<close>

definition max_output_bytes :: nat where
  "max_output_bytes = 1024 * 1024"

definition persist_live :: "managed_task \<Rightarrow> bg_manager \<Rightarrow> bg_manager" where
  "persist_live e m =
     (if bm_dir m = None \<or> \<not> bm_disk_ok m then m
      else m\<lparr>bm_files := AList.update (mt_id e) (Current_Task (to_info e)) (bm_files m)\<rparr>)"

definition append_log :: "string \<Rightarrow> nat list \<Rightarrow> bg_manager \<Rightarrow> bg_manager" where
  "append_log i bytes m =
     (if bm_dir m = None \<or> \<not> bm_disk_ok m then m
      else m\<lparr>bm_logs := AList.update i (opt_or (map_of (bm_logs m) i) [] @ bytes) (bm_logs m)\<rparr>)"

definition start_output_persist :: "managed_task \<Rightarrow> bg_manager \<Rightarrow> bg_manager" where
  "start_output_persist e m =
     (if mt_persisting e then m
      else
        let m1 = put_task (e\<lparr>mt_persisting := True, mt_pending := [], mt_pending_bytes := 0\<rparr>) m
        in if mt_pending e \<noteq> [] then append_log (mt_id e) (utf8 (concat (mt_pending e))) m1 else m1)"

text \<open>The oldest chunks are dropped while the rest is too long, but never the last one.\<close>

fun trim_chunks :: "nat \<Rightarrow> string list \<Rightarrow> string list" where
  "trim_chunks held (c # d # cs) =
     (if held > max_output_bytes then trim_chunks (held - length c) (d # cs) else c # d # cs)"
| "trim_chunks held cs = cs"

definition append_output :: "string \<Rightarrow> managed_task \<Rightarrow> bg_manager \<Rightarrow> bg_manager" where
  "append_output chunk e m =
     (let chunks = mt_chunks e @ [chunk];
          e1 = e\<lparr>mt_bytes := mt_bytes e + length (utf8 chunk), mt_chunks := trim_chunks (length (concat chunks)) chunks\<rparr>
      in if bm_dir m = None then put_task e1 m
         else if \<not> mt_persisting e
         then
           let e2 = e1\<lparr>mt_pending := mt_pending e @ [chunk], mt_pending_bytes := mt_pending_bytes e + length (utf8 chunk)\<rparr>;
               m2 = put_task e2 m
           in if mt_pending_bytes e2 > max_output_bytes then start_output_persist e2 m2 else m2
         else append_log (mt_id e) (utf8 chunk) (put_task e1 m))"


subsection \<open>Notifications\<close>

record output_snapshot =
  os_path :: "string option"
  os_bytes :: nat
  os_preview :: "nat list"
  os_truncated :: bool
  os_full :: bool

definition empty_snapshot :: output_snapshot where
  "empty_snapshot = \<lparr>os_path = None, os_bytes = 0, os_preview = [], os_truncated = False, os_full = False\<rparr>"

definition task_output_file :: "string \<Rightarrow> string \<Rightarrow> string" where
  "task_output_file dir i = join_with ''/'' [dir, ''tasks'', i, ''output.log'']"

definition read_window :: "nat list \<Rightarrow> nat \<Rightarrow> nat \<Rightarrow> nat list" where
  "read_window content offset limit = take limit (drop offset content)"

text \<open>The preview is given as its bytes; decoding it can cut the first character.\<close>

definition get_output_snapshot :: "string \<Rightarrow> int \<Rightarrow> bg_manager \<Rightarrow> output_snapshot" where
  "get_output_snapshot i max_preview m =
     (if get_task i m = None then empty_snapshot
      else
        let limit = nat max_preview
        in case (bm_dir m, map_of (bm_logs m) i) of
          (Some dir, Some content) \<Rightarrow>
            (let offset = length content - limit
             in \<lparr>os_path = Some (task_output_file dir i), os_bytes = length content,
                 os_preview = read_window content offset (length content - offset), os_truncated = offset > 0, os_full = True\<rparr>)
        | _ \<Rightarrow>
            (case map_of (bm_tasks m) i of
               None \<Rightarrow> empty_snapshot
             | Some e \<Rightarrow>
                 let available = utf8 (concat (mt_chunks e));
                     shown = min limit (min (length available) (mt_bytes e))
                 in \<lparr>os_path = None, os_bytes = mt_bytes e, os_preview = drop (length available - shown) available,
                     os_truncated = mt_bytes e > shown, os_full = False\<rparr>))"

definition notification_id :: "bg_info \<Rightarrow> string" where
  "notification_id info = ''task:'' @ bi_id info @ '':'' @ status_text (bi_status info)"

definition task_origin :: "bg_info \<Rightarrow> prompt_origin" where
  "task_origin info = Origin_Background_Task (bi_id info) (status_text (bi_status info)) (notification_id info)"

definition notification_key :: "bg_info \<Rightarrow> string" where
  "notification_key info =
     bi_id info @ [CHR 0x00] @ status_text (bi_status info) @ [CHR 0x00] @ notification_id info"

fun escape_xml :: "string \<Rightarrow> string" where
  "escape_xml [] = []"
| "escape_xml (c # cs) =
     (if c = CHR ''&'' then ''&amp;'' else if c = CHR ''<'' then ''&lt;'' else if c = CHR ''>'' then ''&gt;''
      else if c = CHR 0x22 then ''&quot;'' else [c]) @ escape_xml cs"

definition render_output_file :: "string \<Rightarrow> nat \<Rightarrow> string" where
  "render_output_file path bytes = join_with newline
     [''<output-file path='' @ dquoted (escape_attr path) @ '' bytes='' @ dquoted (nat_to_string bytes) @ ''>'',
      ''Read the output file to retrieve the result: '' @ escape_xml path,
      ''</output-file>'']"

definition render_output_preview :: "output_snapshot \<Rightarrow> string" where
  "render_output_preview os = join_with newline
     [''<output-preview bytes='' @ dquoted (nat_to_string (length (os_preview os))) @ '' total_bytes='' @
        dquoted (nat_to_string (os_bytes os)) @ '' truncated='' @ dquoted (bool_text (os_truncated os)) @ ''>'',
      (if os_truncated os
       then ''Showing the last '' @ nat_to_string (length (os_preview os)) @ '' bytes. No persisted full output is available.''
       else ''No persisted full output is available; this preview is the currently buffered task output.''),
      escape_xml (utf8_decode (os_preview os)),
      ''</output-preview>'']"

definition notification_children :: "output_snapshot \<Rightarrow> string list" where
  "notification_children os =
     (case (os_full os, os_path os) of
        (True, Some path) \<Rightarrow> [render_output_file path (os_bytes os)]
      | _ \<Rightarrow> if os_preview os = [] then [] else [render_output_preview os])"

definition notification_body :: "bg_info \<Rightarrow> string" where
  "notification_body info =
     (let d = bi_description info;
          base = (if bi_status info = Bg_Timed_Out then d @ '' timed out.''
            else case bi_reason info of
              Some r \<Rightarrow>
                if r \<noteq> []
                then d @ '' '' @ (if bi_status info = Bg_Killed then ''was killed'' else status_text (bi_status info)) @ '': '' @ r @ ''.''
                else d @ '' '' @ status_text (bi_status info) @ ''.''
            | None \<Rightarrow> d @ '' '' @ status_text (bi_status info) @ ''.'')
      in case bi_kind info of
        Agent_Task (Some a) \<Rightarrow>
          if bi_status info = Bg_Completed \<or> a = bi_id info then base
          else base @ join_with newline
            [[],
             ''To recover or continue this subagent, call Agent(resume='' @ dquoted a @ '', prompt='' @
               dquoted ''Pick up where you left off; redo the last tool call if its result was never observed.'' @ '').'',
             ''Use agent_id ('' @ dquoted a @ ''), NOT source_id / task_id ('' @ dquoted (bi_id info) @
               '') - the two look alike but only agent_id is accepted by the resume parameter.'',
             ''Add run_in_background=true to keep it backgrounded, or omit it to take the result inline in the current turn.'',
             ''The subagent retains its full prior context across the restart, but any in-flight tool call lost its result and may need to be redone.'']
      | _ \<Rightarrow> base)"

text \<open>\<open>renderNotificationXml\<close> on the notification of a task.\<close>

definition render_notification :: "bg_info \<Rightarrow> string list \<Rightarrow> string" where
  "render_notification info children =
     (let agent = (case bi_kind info of
            Agent_Task (Some a) \<Rightarrow> if a = [] then [] else '' agent_id='' @ dquoted (escape_attr a) | _ \<Rightarrow> []);
          body = notification_body info
      in join_with newline
       ([''<notification id='' @ dquoted (string_attr (notification_id info) ''unknown'') @ '' category='' @ dquoted ''task'' @
           '' type='' @ dquoted (string_attr (''task.'' @ status_text (bi_status info)) ''unknown'') @
           '' source_kind='' @ dquoted ''background_task'' @ '' source_id='' @ dquoted (string_attr (bi_id info) ''unknown'') @
           agent @ ''>'',
         ''Title: Background '' @ kind_text (bi_kind info) @ '' '' @ status_text (bi_status info),
         ''Severity: '' @ (if bi_status info = Bg_Completed then ''info'' else ''warning'')] @
        (if body = [] then [] else [body]) @ filter (\<lambda>c. c \<noteq> []) children @ [''</notification>'']))"

definition notification_content :: "bg_info \<Rightarrow> bg_manager \<Rightarrow> content_part list" where
  "notification_content info m =
     (let first = get_output_snapshot (bi_id info) 0 m;
          os = (if os_full first then first else get_output_snapshot (bi_id info) 3000 m)
      in [TextPart (render_notification info (notification_children os))])"

definition is_suppressed :: "string \<Rightarrow> bg_manager \<Rightarrow> bool" where
  "is_suppressed i m \<longleftrightarrow>
     (case map_of (bm_tasks m) i of Some e \<Rightarrow> mt_suppressed e | None \<Rightarrow> False) \<or>
     (case map_of (bm_ghosts m) i of Some info \<Rightarrow> bi_suppressed info | None \<Rightarrow> False)"

text \<open>
  The first half of \<open>buildBackgroundTaskNotificationContext\<close>, up to its first suspension: whether the task is
  to be told, and the key that keeps it from being told twice.
\<close>

definition schedule_notification :: "bg_info \<Rightarrow> bg_manager \<Rightarrow> bg_manager option" where
  "schedule_notification info m =
     (if bi_detached info = Some False \<or> is_suppressed (bi_id info) m \<or> notification_key info \<in> set (bm_scheduled m) \<or>
         notification_key info \<in> set (bm_delivered m)
      then None else Some (m\<lparr>bm_scheduled := notification_key info # bm_scheduled m\<rparr>))"

definition start_notifying :: "bg_info \<Rightarrow> bg_manager \<Rightarrow> bg_manager" where
  "start_notifying info m =
     (case schedule_notification info m of
        None \<Rightarrow> m
      | Some m1 \<Rightarrow> m1\<lparr>bm_notifying := bm_notifying m1 @ [info]\<rparr>)"

text \<open>The second half, for a live task: the notification is steered into the turn.\<close>

definition finish_notifying :: "bg_info \<Rightarrow> bg_manager \<Rightarrow> bg_manager" where
  "finish_notifying info m =
     (if info \<notin> set (bm_notifying m) then m
      else
        let m1 = m\<lparr>bm_notifying := remove1 info (bm_notifying m)\<rparr>
        in if is_suppressed (bi_id info) m1 then m1
           else tell [Bg_Steered (notification_content info m1) (task_origin info), Bg_Hook (''task.'' @ status_text (bi_status info))] m1)"

definition restore_notification :: "bg_info \<Rightarrow> bg_manager \<Rightarrow> bg_manager" where
  "restore_notification info m =
     (case schedule_notification info m of
        None \<Rightarrow> m
      | Some m1 \<Rightarrow>
          tell [Bg_Told (notification_content info m1) (task_origin info), Bg_Hook (''task.'' @ status_text (bi_status info))] m1)"

definition mark_delivered :: "bg_info \<Rightarrow> bg_manager \<Rightarrow> bg_manager" where
  "mark_delivered info m = m\<lparr>bm_delivered := notification_key info # bm_delivered m\<rparr>"


subsection \<open>Registration\<close>

definition generate_task_id :: "string \<Rightarrow> nat list \<Rightarrow> string" where
  "generate_task_id kind bytes =
     kind @ ''-'' @ map (\<lambda>b. ''0123456789abcdefghijklmnopqrstuvwxyz'' ! (b mod 36)) (take 8 bytes)"

definition active_admissions :: "bg_manager \<Rightarrow> nat" where
  "active_admissions m = length (filter (\<lambda>(i, e). \<not> is_terminal (mt_status e) \<and> mt_background e) (bm_tasks m))"

definition can_register :: "bool \<Rightarrow> bg_manager \<Rightarrow> bool" where
  "can_register background m \<longleftrightarrow>
     (case bm_max m of None \<Rightarrow> True | Some k \<Rightarrow> if \<not> background then True else active_admissions m < k)"

definition armed :: "int \<Rightarrow> int option \<Rightarrow> int option" where
  "armed now timeout = (case timeout of None \<Rightarrow> None | Some t \<Rightarrow> if t \<le> 0 then None else Some (now + t))"

definition new_task :: "int \<Rightarrow> string \<Rightarrow> bg_worker \<Rightarrow> bg_options \<Rightarrow> managed_task" where
  "new_task now i w opts =
     (let detached = opt_or (bo_detached opts) True;
          timeout = (case bo_timeout opts of Some t \<Rightarrow> Some t | None \<Rightarrow> bw_timeout w)
      in \<lparr>mt_id = i, mt_worker = w, mt_background = detached, mt_timeout = timeout,
          mt_detach_timeout = bo_detach_timeout opts, mt_signal = (if detached then False else bo_signal opts),
          mt_chunks = [], mt_bytes = 0, mt_status = Bg_Running, mt_started = now, mt_ended = None,
          mt_foreground = (\<not> detached), mt_release = None, mt_deadline = armed now timeout, mt_reason = None,
          mt_suppressed = False, mt_aborted = False, mt_pending = [], mt_pending_bytes = 0,
          mt_persisting = detached, mt_settled = None, mt_phase = Racing\<rparr>)"

definition announce :: "managed_task \<Rightarrow> bg_manager \<Rightarrow> bg_manager" where
  "announce e m = tell [Bg_Started (to_info e)] (persist_live e m)"

definition register_task :: "int \<Rightarrow> nat list \<Rightarrow> bg_worker \<Rightarrow> bg_options \<Rightarrow> bg_manager \<Rightarrow> bg_manager \<times> (string + string)" where
  "register_task now bytes w opts m =
     (if \<not> can_register (opt_or (bo_detached opts) True) m
      then (m, Inl ''Too many background tasks are already running.'')
      else
        let e = new_task now (generate_task_id (bw_prefix w) bytes) w opts; m1 = put_task e m
        in (if mt_foreground e then m1 else announce e m1, Inr (mt_id e)))"

subsection \<open>The end of a task\<close>

definition fire_terminal_effects :: "managed_task \<Rightarrow> bg_manager \<Rightarrow> bg_manager" where
  "fire_terminal_effects e m =
     (if mt_foreground e then m else tell [Bg_Terminated (to_info e)] (start_notifying (to_info e) m))"

text \<open>The last part of \<open>finalizeTask\<close>, after the terminal record has been written.\<close>

definition conclude_task :: "managed_task \<Rightarrow> bg_manager \<Rightarrow> bg_manager" where
  "conclude_task e m =
     (if mt_phase e \<noteq> Concluding then m
      else
        let e1 = e\<lparr>mt_phase := Over,
              mt_release := (if mt_foreground e \<and> mt_release e = None then Some Released_Terminal else mt_release e)\<rparr>
        in fire_terminal_effects e1 (put_task e1 m))"

definition finalize_task :: "int \<Rightarrow> settlement \<Rightarrow> managed_task \<Rightarrow> bg_manager \<Rightarrow> bg_manager" where
  "finalize_task now s e m =
     (let status = settled_status (st_as s);
          e1 = e\<lparr>mt_status := status, mt_ended := Some now, mt_deadline := None, mt_phase := Concluding,
            mt_reason := (case st_reason s of Some r \<Rightarrow> Some r | None \<Rightarrow> if status = Bg_Killed then mt_reason e else None)\<rparr>
      in if mt_persisting e then persist_live e1 (put_task e1 m)
         else
           let e2 = e1\<lparr>mt_pending := [], mt_pending_bytes := 0\<rparr>
           in conclude_task e2 (put_task e2 m))"

text \<open>The winner of the race: a worker's settlement ends the task, anything else aborts it and waits.\<close>

definition decide :: "int \<Rightarrow> terminal_outcome \<Rightarrow> managed_task \<Rightarrow> bg_manager \<Rightarrow> bg_manager" where
  "decide now outcome e m =
     (case outcome of
        By_Worker s \<Rightarrow> finalize_task now s e m
      | By_Timeout \<Rightarrow>
          put_task (e\<lparr>mt_reason := None, mt_aborted := True, mt_deadline := None, mt_phase := In_Grace outcome\<rparr>) m
      | By_Stop r \<Rightarrow>
          put_task (e\<lparr>mt_reason := r, mt_aborted := True, mt_deadline := None, mt_phase := In_Grace outcome\<rparr>) m)"

definition settlement_after_grace :: "terminal_outcome \<Rightarrow> settlement option \<Rightarrow> settlement" where
  "settlement_after_grace outcome answer =
     (case outcome of
        By_Worker s \<Rightarrow> s
      | By_Timeout \<Rightarrow> \<lparr>st_as = Settled_Timed_Out, st_reason = None\<rparr>
      | By_Stop r \<Rightarrow>
          (case answer of
             Some s \<Rightarrow>
               if st_as s \<noteq> Settled_Killed \<and> st_as s \<noteq> Settled_Timed_Out then s
               else \<lparr>st_as = Settled_Killed, st_reason = r\<rparr>
           | None \<Rightarrow> \<lparr>st_as = Settled_Killed, st_reason = r\<rparr>))"

text \<open>
  The grace is over: the worker has answered in it, or it is stopped by force, where it can be. The code
  waits for \<open>forceStop\<close> without a bound before it ends the task.
\<close>

definition end_grace :: "int \<Rightarrow> managed_task \<Rightarrow> bg_manager \<Rightarrow> bg_manager" where
  "end_grace now e m =
     (case mt_phase e of
        In_Grace outcome \<Rightarrow>
          if mt_settled e = None \<and> bw_force_stop (mt_worker e)
          then tell [Bg_Force_Stop (mt_id e)] (put_task (e\<lparr>mt_phase := Forcing outcome\<rparr>) m)
          else finalize_task now (settlement_after_grace outcome (mt_settled e)) e m
      | _ \<Rightarrow> m)"

text \<open>\<open>forceStop\<close> has returned or thrown; what the worker answered meanwhile is not looked at.\<close>

definition force_stop_returns :: "int \<Rightarrow> managed_task \<Rightarrow> bg_manager \<Rightarrow> bg_manager" where
  "force_stop_returns now e m =
     (case mt_phase e of
        Forcing outcome \<Rightarrow> finalize_task now (settlement_after_grace outcome None) e m
      | _ \<Rightarrow> m)"

text \<open>Only the first settlement of a worker counts.\<close>

definition settle_worker :: "int \<Rightarrow> settlement \<Rightarrow> managed_task \<Rightarrow> bg_manager \<Rightarrow> bg_manager" where
  "settle_worker now s e m =
     (if mt_settled e \<noteq> None then m
      else
        let e1 = e\<lparr>mt_settled := Some s\<rparr>; m1 = put_task e1 m
        in case mt_phase e of
          Racing \<Rightarrow> decide now (By_Worker s) e1 m1
        | In_Grace outcome \<Rightarrow> end_grace now e1 m1
        | _ \<Rightarrow> m1)"

definition timer_fires :: "int \<Rightarrow> managed_task \<Rightarrow> bg_manager \<Rightarrow> bg_manager" where
  "timer_fires now e m =
     (case (mt_phase e, mt_deadline e) of
        (Racing, Some due) \<Rightarrow> if due \<le> now then decide now By_Timeout e m else m
      | _ \<Rightarrow> m)"

definition signal_aborts :: "int \<Rightarrow> managed_task \<Rightarrow> bg_manager \<Rightarrow> bg_manager" where
  "signal_aborts now e m =
     (if mt_signal e \<and> mt_foreground e \<and> mt_phase e = Racing
      then decide now (By_Stop (Some ''Interrupted by user'')) e m else m)"

subsection \<open>Requests\<close>

definition stop_reason :: "string option \<Rightarrow> string option" where
  "stop_reason reason = (case reason of None \<Rightarrow> None | Some r \<Rightarrow> let t = js_trim r in if t = [] then None else Some t)"

definition stop_task :: "int \<Rightarrow> string option \<Rightarrow> managed_task \<Rightarrow> bg_manager \<Rightarrow> bg_manager" where
  "stop_task now reason e m =
     (if is_terminal (mt_status e) then m
      else
        let e1 = e\<lparr>mt_reason := stop_reason reason, mt_aborted := True\<rparr>; m1 = put_task e1 m
        in if mt_phase e = Racing then decide now (By_Stop (stop_reason reason)) e1 m1 else m1)"

definition stop_all :: "int \<Rightarrow> string option \<Rightarrow> bg_manager \<Rightarrow> bg_manager" where
  "stop_all now reason m = fold (\<lambda>i. on_task i (stop_task now reason)) (map fst (bm_tasks m)) m"

definition suppress_notification :: "managed_task \<Rightarrow> bg_manager \<Rightarrow> bg_manager" where
  "suppress_notification e m =
     (if mt_suppressed e then m
      else let e1 = e\<lparr>mt_suppressed := True\<rparr> in persist_live e1 (put_task e1 m))"

text \<open>Detaching: the tool call is released and the task goes on, under a deadline of its own if it has one.\<close>

definition detach_task :: "int \<Rightarrow> managed_task \<Rightarrow> bg_manager \<Rightarrow> bg_manager" where
  "detach_task now e m =
     (if is_terminal (mt_status e) \<or> \<not> mt_foreground e then m
      else
        let e1 = e\<lparr>mt_foreground := False, mt_release := Some Released_Detached,
              mt_deadline := (if mt_detach_timeout e \<noteq> None \<and> mt_phase e = Racing then armed now (mt_detach_timeout e) else mt_deadline e)\<rparr>;
            e2 = (if mt_persisting e1 then e1 else e1\<lparr>mt_persisting := True, mt_pending := [], mt_pending_bytes := 0\<rparr>)
        in announce e2 (start_output_persist e1 (put_task e1 m)))"

definition close_session :: "int \<Rightarrow> bg_manager \<Rightarrow> bg_manager" where
  "close_session now m =
     stop_all now (Some ''Session closed'')
       (fold (\<lambda>info. on_task (bi_id info) suppress_notification) (list_tasks True None m) m)"

subsection \<open>Restarting\<close>

definition legacy_to_current :: "legacy_task \<Rightarrow> bg_status" where
  "legacy_to_current t =
     (case lt_status t of
        Legacy_Awaiting \<Rightarrow> Bg_Running | Legacy_Running \<Rightarrow> Bg_Running | Legacy_Completed \<Rightarrow> Bg_Completed
      | Legacy_Failed \<Rightarrow> (if lt_timed_out t then Bg_Timed_Out else Bg_Failed)
      | Legacy_Killed \<Rightarrow> Bg_Killed | Legacy_Lost \<Rightarrow> Bg_Lost)"

definition optional_nonempty :: "string option \<Rightarrow> string option" where
  "optional_nonempty v = stop_reason v"

definition legacy_to_info :: "legacy_task \<Rightarrow> bg_info" where
  "legacy_to_info t =
     \<lparr>bi_id = lt_id t,
      bi_kind = (if starts_with (lt_id t) ''agent-'' then Agent_Task (optional_nonempty (lt_agent t)) else Process_Task),
      bi_description = lt_description t, bi_status = legacy_to_current t, bi_detached = Some True,
      bi_started = lt_started t, bi_ended = lt_ended t, bi_reason = optional_nonempty (lt_reason t),
      bi_suppressed = False, bi_timeout = lt_timeout t\<rparr>"

fun normalize_persisted :: "disk_task \<Rightarrow> bg_info" where
  "normalize_persisted (Legacy_Task t) = legacy_to_info t"
| "normalize_persisted (Current_Task info) = info\<lparr>bi_detached := Some (opt_or (bi_detached info) True)\<rparr>"

text \<open>The records are read in the order of \<open>bm_files\<close>; the last record of an id counts.\<close>

definition load_from_disk :: "bg_manager \<Rightarrow> bg_manager" where
  "load_from_disk m =
     (if bm_dir m = None then m
      else m\<lparr>bm_ghosts :=
        fold (\<lambda>t gs. AList.update (bi_id t) t gs)
          (filter (\<lambda>t. map_of (bm_tasks m) (bi_id t) = None) (map (normalize_persisted \<circ> snd) (bm_files m))) []\<rparr>)"

definition lost :: "int \<Rightarrow> bg_info \<Rightarrow> bg_info" where
  "lost now info = info\<lparr>bi_status := Bg_Lost, bi_ended := Some (opt_or (bi_ended info) now)\<rparr>"

text \<open>
  Every unfinished ghost is lost, and its record is rewritten; a write that fails here is not caught, and
  leaves the ghosts behind it as they are (\<open>None\<close> for the error).
\<close>

fun mark_ghosts_lost ::
  "int \<Rightarrow> (string \<times> bg_info) list \<Rightarrow> bg_manager \<Rightarrow> bg_manager \<times> bg_info list option" where
  "mark_ghosts_lost now [] m = (m, Some [])"
| "mark_ghosts_lost now ((i, info) # gs) m =
     (if is_terminal (bi_status info) then mark_ghosts_lost now gs m
      else
        let m1 = m\<lparr>bm_ghosts := AList.update i (lost now info) (bm_ghosts m)\<rparr>
        in if bm_dir m \<noteq> None \<and> \<not> bm_disk_ok m then (m1, None)
           else
             let m2 = (if bm_dir m = None then m1
                    else m1\<lparr>bm_files := AList.update (bi_id info) (Current_Task (lost now info)) (bm_files m1)\<rparr>);
                 (m3, found) = mark_ghosts_lost now gs m2
             in (m3, map_option ((#) (lost now info)) found))"

definition mark_loaded_lost :: "int \<Rightarrow> bg_manager \<Rightarrow> bg_manager \<times> bg_info list option" where
  "mark_loaded_lost now m = mark_ghosts_lost now (bm_ghosts m) m"

definition reconcile :: "int \<Rightarrow> bg_manager \<Rightarrow> bg_manager" where
  "reconcile now m =
     (case mark_loaded_lost now m of
        (m1, None) \<Rightarrow> m1
      | (m1, Some found) \<Rightarrow>
          let m2 = tell (map Bg_Terminated found) m1
          in fold restore_notification (filter (\<lambda>info. is_terminal (bi_status info)) (list_tasks False None m2)) m2)"

text \<open>A new process: what the context replays marks notifications as delivered, then the tasks are loaded.\<close>

definition restarted :: "nat option \<Rightarrow> string option \<Rightarrow> bg_manager \<Rightarrow> bg_manager" where
  "restarted limit dir m =
     \<lparr>bm_max = limit, bm_dir = dir, bm_tasks = [], bm_ghosts = [], bm_scheduled = [], bm_delivered = [],
      bm_notifying = [], bm_files = bm_files m, bm_logs = bm_logs m, bm_events = [], bm_disk_ok = bm_disk_ok m\<rparr>"

definition resume_background :: "int \<Rightarrow> bg_info list \<Rightarrow> bg_manager \<Rightarrow> bg_manager" where
  "resume_background now told m = reconcile now (load_from_disk (fold mark_delivered told m))"

subsection \<open>Sessions\<close>

datatype bg_op =
    Op_Register "nat list" bg_worker bg_options
  | Op_Output string string
  | Op_Settle string settlement
  | Op_Timer string
  | Op_Signal string
  | Op_Grace_Over string
  | Op_Conclude string
  | Op_Stop string "string option"
  | Op_Suppress string
  | Op_Detach string
  | Op_Persist_Output string
  | Op_Notified bg_info
  | Op_Delivered bg_info
  | Op_Close
  | Op_Forced string
  | Op_Disk bool

fun bg_step :: "bg_manager \<Rightarrow> int \<times> bg_op \<Rightarrow> bg_manager" where
  "bg_step m (now, Op_Register bytes w opts) = fst (register_task now bytes w opts m)"
| "bg_step m (now, Op_Output i chunk) = on_task i (append_output chunk) m"
| "bg_step m (now, Op_Settle i s) = on_task i (settle_worker now s) m"
| "bg_step m (now, Op_Timer i) = on_task i (timer_fires now) m"
| "bg_step m (now, Op_Signal i) = on_task i (signal_aborts now) m"
| "bg_step m (now, Op_Grace_Over i) = on_task i (end_grace now) m"
| "bg_step m (now, Op_Conclude i) = on_task i conclude_task m"
| "bg_step m (now, Op_Stop i reason) = on_task i (stop_task now reason) m"
| "bg_step m (now, Op_Suppress i) = on_task i suppress_notification m"
| "bg_step m (now, Op_Detach i) = on_task i (detach_task now) m"
| "bg_step m (now, Op_Persist_Output i) = on_task i start_output_persist m"
| "bg_step m (now, Op_Notified info) = finish_notifying info m"
| "bg_step m (now, Op_Delivered info) = mark_delivered info m"
| "bg_step m (now, Op_Close) = close_session now m"
| "bg_step m (now, Op_Forced i) = on_task i (force_stop_returns now) m"
| "bg_step m (now, Op_Disk ok) = m\<lparr>bm_disk_ok := ok\<rparr>"


subsection \<open>What an operation can do to a task\<close>

fun rank :: "task_phase \<Rightarrow> nat" where
  "rank Racing = 0"
| "rank (In_Grace outcome) = 1"
| "rank (Forcing outcome) = 2"
| "rank Concluding = 3"
| "rank Over = 4"

definition starts_in :: "string \<Rightarrow> bg_event list \<Rightarrow> nat" where
  "starts_in i evs = length (filter (\<lambda>ev. case ev of Bg_Started info \<Rightarrow> bi_id info = i | _ \<Rightarrow> False) evs)"

definition ends_in :: "string \<Rightarrow> bg_event list \<Rightarrow> nat" where
  "ends_in i evs = length (filter (\<lambda>ev. case ev of Bg_Terminated info \<Rightarrow> bi_id info = i | _ \<Rightarrow> False) evs)"

lemma starts_in_simps [simp]:
  "starts_in i [] = 0" "starts_in i (xs @ ys) = starts_in i xs + starts_in i ys"
  "starts_in i (Bg_Started info # xs) = of_bool (bi_id info = i) + starts_in i xs"
  "starts_in i (Bg_Terminated info # xs) = starts_in i xs" "starts_in i (Bg_Steered c p # xs) = starts_in i xs"
  "starts_in i (Bg_Hook h # xs) = starts_in i xs" "starts_in i (Bg_Force_Stop j # xs) = starts_in i xs"
  by (simp_all add: starts_in_def)

lemma ends_in_simps [simp]:
  "ends_in i [] = 0" "ends_in i (xs @ ys) = ends_in i xs + ends_in i ys"
  "ends_in i (Bg_Terminated info # xs) = of_bool (bi_id info = i) + ends_in i xs"
  "ends_in i (Bg_Started info # xs) = ends_in i xs" "ends_in i (Bg_Steered c p # xs) = ends_in i xs"
  "ends_in i (Bg_Hook h # xs) = ends_in i xs" "ends_in i (Bg_Force_Stop j # xs) = ends_in i xs"
  by (simp_all add: ends_in_def)

text \<open>The entry of a task is consistent: it is running exactly in the phases before the last ones.\<close>

definition task_ok :: "managed_task \<Rightarrow> bool" where
  "task_ok e \<longleftrightarrow> (is_terminal (mt_status e) \<longleftrightarrow> rank (mt_phase e) \<ge> 3)"

text \<open>
  A step of a task: it goes forward, a terminal status stays, it is announced when it is detached and its
  end is told when it ends detached.
\<close>

definition advances :: "managed_task \<Rightarrow> managed_task \<Rightarrow> bg_event list \<Rightarrow> bool" where
  "advances e e' evs \<longleftrightarrow>
     mt_id e' = mt_id e \<and> mt_background e' = mt_background e \<and> task_ok e' \<and>
     rank (mt_phase e) \<le> rank (mt_phase e') \<and> (mt_foreground e' \<longrightarrow> mt_foreground e) \<and>
     (is_terminal (mt_status e) \<longrightarrow>
        mt_status e' = mt_status e \<and> mt_ended e' = mt_ended e \<and> mt_reason e' = mt_reason e \<and>
        mt_foreground e' = mt_foreground e) \<and>
     (\<forall>j. starts_in j evs = of_bool (j = mt_id e \<and> mt_foreground e \<and> \<not> mt_foreground e')) \<and>
     (\<forall>j. ends_in j evs = of_bool (j = mt_id e \<and> \<not> mt_foreground e' \<and> mt_phase e \<noteq> Over \<and> mt_phase e' = Over))"

text \<open>The managers before and after such a step.\<close>

definition stepped :: "managed_task \<Rightarrow> bg_manager \<Rightarrow> bg_manager \<Rightarrow> bool" where
  "stepped e m m' \<longleftrightarrow>
     (\<exists>e' evs. bm_tasks m' = AList.update (mt_id e) e' (bm_tasks m) \<and> bm_events m' = bm_events m @ evs \<and>
        bm_max m' = bm_max m \<and> bm_dir m' = bm_dir m \<and> advances e e' evs)"

definition steps_task :: "(managed_task \<Rightarrow> bg_manager \<Rightarrow> bg_manager) \<Rightarrow> bool" where
  "steps_task f \<longleftrightarrow> (\<forall>e m. map_of (bm_tasks m) (mt_id e) = Some e \<longrightarrow> task_ok e \<longrightarrow> stepped e m (f e m))"

lemma steps_taskI:
  "(\<And>e m. map_of (bm_tasks m) (mt_id e) = Some e \<Longrightarrow> task_ok e \<Longrightarrow> stepped e m (f e m)) \<Longrightarrow> steps_task f"
  by (simp add: steps_task_def)

lemma steppedI:
  "bm_tasks m' = AList.update (mt_id e) e' (bm_tasks m) \<Longrightarrow> bm_events m' = bm_events m @ evs \<Longrightarrow>
   bm_max m' = bm_max m \<Longrightarrow> bm_dir m' = bm_dir m \<Longrightarrow> advances e e' evs \<Longrightarrow> stepped e m m'"
  by (auto simp: stepped_def)

lemma stepped_same: "map_of (bm_tasks m) (mt_id e) = Some e \<Longrightarrow> task_ok e \<Longrightarrow> stepped e m m"
  by (rule steppedI [of _ _ e _ "[]"]) (simp_all add: AList.update_triv advances_def)

lemma manager_fields [simp]:
  "bm_tasks (tell evs m) = bm_tasks m" "bm_events (tell evs m) = bm_events m @ evs" "bm_max (tell evs m) = bm_max m"
  "bm_dir (tell evs m) = bm_dir m"
  "bm_tasks (put_task e m) = AList.update (mt_id e) e (bm_tasks m)" "bm_events (put_task e m) = bm_events m"
  "bm_max (put_task e m) = bm_max m" "bm_dir (put_task e m) = bm_dir m"
  "bm_tasks (persist_live e m) = bm_tasks m" "bm_events (persist_live e m) = bm_events m"
  "bm_max (persist_live e m) = bm_max m" "bm_dir (persist_live e m) = bm_dir m"
  "bm_tasks (append_log i bs m) = bm_tasks m" "bm_events (append_log i bs m) = bm_events m"
  "bm_max (append_log i bs m) = bm_max m" "bm_dir (append_log i bs m) = bm_dir m"
  by (simp_all add: tell_def put_task_def persist_live_def append_log_def)

lemma start_notifying_fields [simp]:
  "bm_tasks (start_notifying info m) = bm_tasks m" "bm_events (start_notifying info m) = bm_events m"
  "bm_max (start_notifying info m) = bm_max m" "bm_dir (start_notifying info m) = bm_dir m"
  by (auto simp: start_notifying_def schedule_notification_def)

lemma settled_terminal [simp]: "is_terminal (settled_status s)"
  by (cases s) (simp_all add: is_terminal_def terminal_statuses_def)

lemma running_not_terminal [simp]: "\<not> is_terminal Bg_Running"
  by (simp add: is_terminal_def terminal_statuses_def)

lemma to_info_id [simp]: "bi_id (to_info e) = mt_id e"
  by (simp add: to_info_def)

text \<open>The entry and the events after a step are read off the manager.\<close>

lemma steppedI2:
  assumes "bm_tasks m' = AList.update (mt_id e) (the (map_of (bm_tasks m') (mt_id e))) (bm_tasks m)"
    "bm_events m' = bm_events m @ drop (length (bm_events m)) (bm_events m')" "bm_max m' = bm_max m" "bm_dir m' = bm_dir m"
    "advances e (the (map_of (bm_tasks m') (mt_id e))) (drop (length (bm_events m)) (bm_events m'))"
  shows "stepped e m m'"
  by (rule steppedI [OF assms])

lemma map_of_put [simp]: "map_of (AList.update k v xs) k = Some v"
  by (simp add: AList.update_conv')

lemma steps_append_output: "steps_task (append_output chunk)"
  by (rule steps_taskI, rule steppedI2)
    (simp_all add: append_output_def start_output_persist_def Let_def advances_def task_ok_def)

lemma steps_start_output: "steps_task start_output_persist"
proof (rule steps_taskI)
  fix e and m :: bg_manager
  assume "map_of (bm_tasks m) (mt_id e) = Some e" "task_ok e"
  then show "stepped e m (start_output_persist e m)"
    by (cases "mt_persisting e")
      (auto intro!: steppedI2 intro: stepped_same simp: start_output_persist_def Let_def advances_def task_ok_def AList.update_triv)
qed

lemma steps_suppress: "steps_task suppress_notification"
proof (rule steps_taskI)
  fix e and m :: bg_manager
  assume "map_of (bm_tasks m) (mt_id e) = Some e" "task_ok e"
  then show "stepped e m (suppress_notification e m)"
    by (cases "mt_suppressed e")
      (auto intro!: steppedI2 intro: stepped_same simp: suppress_notification_def Let_def advances_def task_ok_def AList.update_triv)
qed

lemma steps_detach: "steps_task (detach_task now)"
proof (rule steps_taskI)
  fix e and m :: bg_manager
  assume e: "map_of (bm_tasks m) (mt_id e) = Some e" "task_ok e"
  show "stepped e m (detach_task now e m)"
  proof (cases "is_terminal (mt_status e) \<or> \<not> mt_foreground e")
    case True
    then show ?thesis
      using stepped_same [OF e] by (simp add: detach_task_def)
  next
    case False
    then show ?thesis
      using e by (intro steppedI2)
        (auto simp: detach_task_def announce_def start_output_persist_def Let_def advances_def task_ok_def)
  qed
qed


text \<open>
  The end of a task can come after an update of its entry in the same step: \<open>e0\<close> is the entry before it,
  \<open>e\<close> the one handed on.
\<close>

lemma conclude_stepped:
  assumes "bm_tasks m = AList.update (mt_id e0) e (bm_tasks m0)" "bm_events m = bm_events m0 @ evs" "bm_max m = bm_max m0"
    "bm_dir m = bm_dir m0" "mt_id e = mt_id e0" "mt_background e = mt_background e0" "mt_foreground e = mt_foreground e0"
    "mt_phase e = Concluding" "is_terminal (mt_status e)" "rank (mt_phase e0) \<le> 3"
    "is_terminal (mt_status e0) \<longrightarrow> mt_status e = mt_status e0 \<and> mt_ended e = mt_ended e0 \<and> mt_reason e = mt_reason e0"
    "\<forall>j. starts_in j evs = 0 \<and> ends_in j evs = 0"
  shows "stepped e0 m0 (conclude_task e m)"
  by (rule steppedI2) (use assms in \<open>auto simp: conclude_task_def fire_terminal_effects_def Let_def advances_def task_ok_def\<close>)

lemma finalize_stepped:
  assumes "bm_tasks m = AList.update (mt_id e0) x (bm_tasks m0)" "bm_events m = bm_events m0 @ evs" "bm_max m = bm_max m0"
    "bm_dir m = bm_dir m0" "mt_id e = mt_id e0" "mt_background e = mt_background e0" "mt_foreground e = mt_foreground e0"
    "rank (mt_phase e0) \<le> 2" "\<not> is_terminal (mt_status e0)" "\<forall>j. starts_in j evs = 0 \<and> ends_in j evs = 0"
  shows "stepped e0 m0 (finalize_task now s e m)"
proof (cases "mt_persisting e")
  case True
  then show ?thesis
    by (intro steppedI2) (use assms in \<open>auto simp: finalize_task_def Let_def advances_def task_ok_def\<close>)
next
  case False
  show ?thesis
    unfolding finalize_task_def Let_def if_not_P [OF False]
    by (rule conclude_stepped) (use assms in \<open>auto\<close>)
qed

lemma decide_stepped:
  assumes "bm_tasks m = AList.update (mt_id e0) x (bm_tasks m0)" "bm_events m = bm_events m0" "bm_max m = bm_max m0"
    "bm_dir m = bm_dir m0" "mt_id e = mt_id e0" "mt_background e = mt_background e0" "mt_foreground e = mt_foreground e0"
    "mt_status e = mt_status e0" "rank (mt_phase e0) = 0" "\<not> is_terminal (mt_status e0)"
  shows "stepped e0 m0 (decide now outcome e m)"
proof (cases outcome)
  case (By_Worker s)
  have "stepped e0 m0 (finalize_task now s e m)"
    by (rule finalize_stepped [where evs = "[]"]) (use assms in auto)
  then show ?thesis
    by (simp add: decide_def By_Worker)
qed (rule steppedI2; use assms in \<open>auto simp: decide_def advances_def task_ok_def\<close>)+

lemma end_grace_stepped:
  assumes "bm_tasks m = AList.update (mt_id e0) x (bm_tasks m0)" "bm_events m = bm_events m0" "bm_max m = bm_max m0"
    "bm_dir m = bm_dir m0" "mt_id e = mt_id e0" "mt_background e = mt_background e0" "mt_foreground e = mt_foreground e0"
    "mt_status e = mt_status e0" "mt_phase e = mt_phase e0" "mt_phase e = In_Grace outcome" "\<not> is_terminal (mt_status e0)"
  shows "stepped e0 m0 (end_grace now e m)"
proof -
  have low: "rank (mt_phase e0) = 1"
    using assms(9,10) by (metis rank.simps(2))
  have "stepped e0 m0 (finalize_task now s e m)" for s
    by (rule finalize_stepped [where evs = "[]"]) (use assms low in auto)
  moreover have "stepped e0 m0 (tell [Bg_Force_Stop (mt_id e)] (put_task (e\<lparr>mt_phase := Forcing outcome\<rparr>) m))"
    by (rule steppedI2) (use assms low in \<open>auto simp: advances_def task_ok_def\<close>)
  ultimately show ?thesis
    unfolding end_grace_def assms(10) by simp
qed

lemma steps_conclude: "steps_task conclude_task"
proof (rule steps_taskI)
  fix e and m :: bg_manager
  assume e: "map_of (bm_tasks m) (mt_id e) = Some e" "task_ok e"
  show "stepped e m (conclude_task e m)"
  proof (cases "mt_phase e = Concluding")
    case True
    then show ?thesis
      using e by (intro conclude_stepped [of _ _ _ _ "[]"]) (auto simp: AList.update_triv task_ok_def)
  next
    case False
    then show ?thesis
      using stepped_same [OF e] by (simp add: conclude_task_def)
  qed
qed

lemma running_phase:
  "task_ok e \<Longrightarrow> mt_phase e = Racing \<or> mt_phase e = In_Grace p \<or> mt_phase e = Forcing p \<Longrightarrow> \<not> is_terminal (mt_status e)"
  by (auto simp: task_ok_def)

lemma steps_end_grace: "steps_task (end_grace now)"
proof (rule steps_taskI)
  fix e and m :: bg_manager
  assume e: "map_of (bm_tasks m) (mt_id e) = Some e" "task_ok e"
  show "stepped e m (end_grace now e m)"
  proof (cases "mt_phase e")
    case (In_Grace p)
    then show ?thesis
      using e running_phase [OF e(2)] by (intro end_grace_stepped [where x = e]) (auto simp: AList.update_triv)
  qed (use stepped_same [OF e] in \<open>simp_all add: end_grace_def\<close>)
qed

lemma steps_force: "steps_task (force_stop_returns now)"
proof (rule steps_taskI)
  fix e and m :: bg_manager
  assume e: "map_of (bm_tasks m) (mt_id e) = Some e" "task_ok e"
  show "stepped e m (force_stop_returns now e m)"
  proof (cases "mt_phase e")
    case (Forcing p)
    then show ?thesis
      using e running_phase [OF e(2)]
      by (auto simp: force_stop_returns_def AList.update_triv intro!: finalize_stepped [where evs = "[]" and x = e])
  qed (use stepped_same [OF e] in \<open>simp_all add: force_stop_returns_def\<close>)
qed

lemma steps_settle: "steps_task (settle_worker now s)"
proof (rule steps_taskI)
  fix e and m :: bg_manager
  assume e: "map_of (bm_tasks m) (mt_id e) = Some e" "task_ok e"
  let ?e = "e\<lparr>mt_settled := Some s\<rparr>"
  have put: "stepped e m (put_task ?e m)"
    by (rule steppedI2) (use e in \<open>auto simp: advances_def task_ok_def\<close>)
  show "stepped e m (settle_worker now s e m)"
  proof (cases "mt_settled e = None")
    case True
    have decide: "mt_phase e = Racing \<Longrightarrow> stepped e m (decide now (By_Worker s) ?e (put_task ?e m))"
      using running_phase [OF e(2)] by (intro decide_stepped) auto
    have grace: "mt_phase e = In_Grace p \<Longrightarrow> stepped e m (end_grace now ?e (put_task ?e m))" for p
      using running_phase [OF e(2)] by (intro end_grace_stepped) auto
    show ?thesis
      using True decide grace put by (cases "mt_phase e") (auto simp: settle_worker_def Let_def)
  next
    case False
    then show ?thesis
      using stepped_same [OF e] by (simp add: settle_worker_def)
  qed
qed

lemma steps_timer: "steps_task (timer_fires now)"
proof (rule steps_taskI)
  fix e and m :: bg_manager
  assume e: "map_of (bm_tasks m) (mt_id e) = Some e" "task_ok e"
  have "mt_phase e = Racing \<Longrightarrow> stepped e m (decide now By_Timeout e m)"
    using e running_phase [OF e(2)] by (intro decide_stepped [where x = e]) (auto simp: AList.update_triv)
  then show "stepped e m (timer_fires now e m)"
    using stepped_same [OF e] by (auto simp: timer_fires_def split: task_phase.split option.split)
qed

lemma steps_signal: "steps_task (signal_aborts now)"
proof (rule steps_taskI)
  fix e and m :: bg_manager
  assume e: "map_of (bm_tasks m) (mt_id e) = Some e" "task_ok e"
  have "mt_phase e = Racing \<Longrightarrow> stepped e m (decide now outcome e m)" for outcome
    using e running_phase [OF e(2)] by (intro decide_stepped [where x = e]) (auto simp: AList.update_triv)
  then show "stepped e m (signal_aborts now e m)"
    using stepped_same [OF e] by (auto simp: signal_aborts_def)
qed

lemma steps_stop: "steps_task (stop_task now reason)"
proof (rule steps_taskI)
  fix e and m :: bg_manager
  assume e: "map_of (bm_tasks m) (mt_id e) = Some e" "task_ok e"
  let ?e = "e\<lparr>mt_reason := stop_reason reason, mt_aborted := True\<rparr>"
  have decide: "mt_phase e = Racing \<Longrightarrow> stepped e m (decide now (By_Stop (stop_reason reason)) ?e (put_task ?e m))"
    using running_phase [OF e(2)] by (intro decide_stepped) auto
  have put: "\<not> is_terminal (mt_status e) \<Longrightarrow> stepped e m (put_task ?e m)"
    by (rule steppedI2) (use e in \<open>auto simp: advances_def task_ok_def\<close>)
  show "stepped e m (stop_task now reason e m)"
    using stepped_same [OF e] decide put by (auto simp: stop_task_def Let_def)
qed


subsection \<open>Every session\<close>

text \<open>
  The books of a session: the entry of each task is consistent, its start has been announced once if it is
  detached, and its end has been told once if it is over and detached.
\<close>

definition books_ok :: "bg_manager \<Rightarrow> bool" where
  "books_ok m \<longleftrightarrow>
     (\<forall>i. case map_of (bm_tasks m) i of
        None \<Rightarrow> starts_in i (bm_events m) = 0 \<and> ends_in i (bm_events m) = 0
      | Some e \<Rightarrow>
          mt_id e = i \<and> task_ok e \<and> starts_in i (bm_events m) = of_bool (\<not> mt_foreground e) \<and>
          ends_in i (bm_events m) = of_bool (\<not> mt_foreground e \<and> mt_phase e = Over))"

lemma bg_books_task:
  assumes "books_ok m" "map_of (bm_tasks m) i = Some e"
  shows "mt_id e = i" "task_ok e" "starts_in i (bm_events m) = of_bool (\<not> mt_foreground e)"
    "ends_in i (bm_events m) = of_bool (\<not> mt_foreground e \<and> mt_phase e = Over)"
  using spec [OF assms(1) [unfolded books_ok_def], of i] by (simp_all add: assms(2))

lemma books_same:
  assumes "bm_tasks m' = bm_tasks m" "\<And>i. starts_in i (bm_events m') = starts_in i (bm_events m)"
    "\<And>i. ends_in i (bm_events m') = ends_in i (bm_events m)"
  shows "books_ok m' \<longleftrightarrow> books_ok m"
  by (simp add: books_ok_def assms cong: option.case_cong)

text \<open>What a session leaves of a task that it had at its beginning.\<close>

definition later :: "managed_task \<Rightarrow> managed_task \<Rightarrow> bool" where
  "later e e' \<longleftrightarrow>
     mt_background e' = mt_background e \<and> rank (mt_phase e) \<le> rank (mt_phase e') \<and> (mt_foreground e' \<longrightarrow> mt_foreground e) \<and>
     (is_terminal (mt_status e) \<longrightarrow> mt_status e' = mt_status e \<and> mt_ended e' = mt_ended e \<and>
        mt_reason e' = mt_reason e \<and> mt_foreground e' = mt_foreground e)"

definition goes_on :: "bg_manager \<Rightarrow> bg_manager \<Rightarrow> bool" where
  "goes_on m m' \<longleftrightarrow>
     bm_max m' = bm_max m \<and> bm_dir m' = bm_dir m \<and>
     (\<forall>i e. map_of (bm_tasks m) i = Some e \<longrightarrow> (\<exists>e'. map_of (bm_tasks m') i = Some e' \<and> later e e'))"

lemma goes_on_refl [simp]: "goes_on m m"
  by (simp add: goes_on_def later_def)

lemma later_trans: "later e e1 \<Longrightarrow> later e1 e2 \<Longrightarrow> later e e2"
  by (auto simp: later_def)

lemma goes_on_trans: "goes_on m m1 \<Longrightarrow> goes_on m1 m2 \<Longrightarrow> goes_on m m2"
  by (fastforce simp: goes_on_def intro: later_trans)

lemma stepped_books:
  assumes "books_ok m" "map_of (bm_tasks m) (mt_id e) = Some e" "stepped e m m'"
  shows "books_ok m' \<and> goes_on m m'"
proof -
  obtain e' evs where step: "bm_tasks m' = AList.update (mt_id e) e' (bm_tasks m)" "bm_events m' = bm_events m @ evs"
      "bm_max m' = bm_max m" "bm_dir m' = bm_dir m" "advances e e' evs"
    using assms(3) by (auto simp: stepped_def)
  have map: "map_of (bm_tasks m') i = (if i = mt_id e then Some e' else map_of (bm_tasks m) i)" for i
    by (simp add: step(1) AList.update_conv')
  have e: "task_ok e" "starts_in (mt_id e) (bm_events m) = of_bool (\<not> mt_foreground e)"
      "ends_in (mt_id e) (bm_events m) = of_bool (\<not> mt_foreground e \<and> mt_phase e = Over)"
    using assms(1) spec [OF assms(1) [unfolded books_ok_def], of "mt_id e"] by (simp_all add: assms(2))
  have over: "mt_phase e = Over \<Longrightarrow> mt_phase e' = Over"
  proof -
    assume "mt_phase e = Over"
    then have "rank (mt_phase e') \<ge> 4"
      using step(5) by (simp add: advances_def)
    then show "mt_phase e' = Over"
      by (cases "mt_phase e'") simp_all
  qed
  have final: "mt_phase e = Over \<Longrightarrow> mt_foreground e' = mt_foreground e"
    using step(5) e(1) by (simp add: advances_def task_ok_def)
  have "books_ok m'"
    unfolding books_ok_def
  proof
    fix i
    show "case map_of (bm_tasks m') i of
        None \<Rightarrow> starts_in i (bm_events m') = 0 \<and> ends_in i (bm_events m') = 0
      | Some e \<Rightarrow>
          mt_id e = i \<and> task_ok e \<and> starts_in i (bm_events m') = of_bool (\<not> mt_foreground e) \<and>
          ends_in i (bm_events m') = of_bool (\<not> mt_foreground e \<and> mt_phase e = Over)"
    proof (cases "i = mt_id e")
      case True
      then show ?thesis
        using step(2,5) e over final by (auto simp: map advances_def)
    next
      case False
      then show ?thesis
        using spec [OF assms(1) [unfolded books_ok_def], of i] step(2,5)
        by (auto simp: map advances_def split: option.splits)
    qed
  qed
  moreover have "goes_on m m'"
    using step(3-5) by (auto simp: goes_on_def later_def map assms(2) advances_def)
  ultimately show ?thesis ..
qed

lemma on_task_books:
  assumes "steps_task f" "books_ok m"
  shows "books_ok (on_task i f m) \<and> goes_on m (on_task i f m)"
proof (cases "map_of (bm_tasks m) i")
  case (Some e)
  then have "mt_id e = i" "task_ok e"
    using spec [OF assms(2) [unfolded books_ok_def], of i] by simp_all
  then have "stepped e m (f e m)"
    using assms(1) Some by (auto simp: steps_task_def)
  then show ?thesis
    using stepped_books [OF assms(2), of e] Some \<open>mt_id e = i\<close> by (simp add: on_task_def)
qed (simp add: on_task_def assms(2))

lemma fold_on_task_books:
  assumes "\<And>x. steps_task (f x)" "books_ok m"
  shows "books_ok (fold (\<lambda>x. on_task (key x) (f x)) xs m) \<and> goes_on m (fold (\<lambda>x. on_task (key x) (f x)) xs m)"
  using assms(2)
proof (induction xs arbitrary: m)
  case (Cons x xs)
  show ?case
    using Cons.IH [of "on_task (key x) (f x) m"] on_task_books [OF assms(1) Cons.prems, of "key x" x]
    by (auto intro: goes_on_trans)
qed simp


text \<open>A registration draws an id that no task of the session has.\<close>

fun fresh_op :: "bg_manager \<Rightarrow> bg_op \<Rightarrow> bool" where
  "fresh_op m (Op_Register bytes w opts) = (map_of (bm_tasks m) (generate_task_id (bw_prefix w) bytes) = None)"
| "fresh_op m op = True"

fun fresh_ops :: "bg_manager \<Rightarrow> (int \<times> bg_op) list \<Rightarrow> bool" where
  "fresh_ops m [] = True"
| "fresh_ops m (op # ops) = (fresh_op m (snd op) \<and> fresh_ops (bg_step m op) ops)"

lemma new_task_fields [simp]:
  "mt_id (new_task now i w opts) = i" "task_ok (new_task now i w opts)" "mt_phase (new_task now i w opts) = Racing"
  "mt_status (new_task now i w opts) = Bg_Running" "mt_foreground (new_task now i w opts) = (\<not> opt_or (bo_detached opts) True)"
  "mt_background (new_task now i w opts) = opt_or (bo_detached opts) True"
  "mt_persisting (new_task now i w opts) = opt_or (bo_detached opts) True"
  "mt_pending (new_task now i w opts) = []" "mt_chunks (new_task now i w opts) = []" "mt_bytes (new_task now i w opts) = 0"
  "mt_pending_bytes (new_task now i w opts) = 0"
  by (simp_all add: new_task_def Let_def task_ok_def)

lemma register_books:
  assumes "books_ok m" "map_of (bm_tasks m) (generate_task_id (bw_prefix w) bytes) = None"
  shows "books_ok (fst (register_task now bytes w opts m)) \<and> goes_on m (fst (register_task now bytes w opts m))"
proof -
  let ?i = "generate_task_id (bw_prefix w) bytes" and ?m = "fst (register_task now bytes w opts m)"
  have none: "starts_in ?i (bm_events m) = 0" "ends_in ?i (bm_events m) = 0"
    using spec [OF assms(1) [unfolded books_ok_def], of ?i] assms(2) by simp_all
  have "case map_of (bm_tasks ?m) i of
        None \<Rightarrow> starts_in i (bm_events ?m) = 0 \<and> ends_in i (bm_events ?m) = 0
      | Some e \<Rightarrow>
          mt_id e = i \<and> task_ok e \<and> starts_in i (bm_events ?m) = of_bool (\<not> mt_foreground e) \<and>
          ends_in i (bm_events ?m) = of_bool (\<not> mt_foreground e \<and> mt_phase e = Over)" for i
  proof (cases "i = ?i")
    case True
    then show ?thesis
      using none assms(2) by (simp add: register_task_def announce_def Let_def AList.update_conv')
  next
    case False
    then show ?thesis
      using spec [OF assms(1) [unfolded books_ok_def], of i]
      by (auto simp: register_task_def announce_def Let_def AList.update_conv' split: option.split)
  qed
  moreover have "goes_on m ?m"
    using assms(2) by (auto simp: goes_on_def later_def register_task_def announce_def Let_def AList.update_conv')
  ultimately show ?thesis
    by (simp add: books_ok_def)
qed

lemma finish_notifying_fields [simp]:
  "bm_tasks (finish_notifying info m) = bm_tasks m" "bm_max (finish_notifying info m) = bm_max m"
  "bm_dir (finish_notifying info m) = bm_dir m" "starts_in i (bm_events (finish_notifying info m)) = starts_in i (bm_events m)"
  "ends_in i (bm_events (finish_notifying info m)) = ends_in i (bm_events m)"
  by (simp_all add: finish_notifying_def Let_def)

lemma close_books:
  assumes "books_ok m"
  shows "books_ok (close_session now m) \<and> goes_on m (close_session now m)"
proof -
  let ?m = "fold (\<lambda>info. on_task (bi_id info) suppress_notification) (list_tasks True None m) m"
  have "books_ok ?m \<and> goes_on m ?m"
    using fold_on_task_books [of "\<lambda>_. suppress_notification" m bi_id, OF steps_suppress assms] .
  moreover have "books_ok (stop_all now r ?m) \<and> goes_on ?m (stop_all now r ?m)" for r
    unfolding stop_all_def
    using fold_on_task_books [of "\<lambda>_. stop_task now r" ?m "\<lambda>i. i", OF steps_stop] calculation by simp
  ultimately show ?thesis
    unfolding close_session_def by (auto intro: goes_on_trans)
qed

lemma bg_step_books:
  assumes "books_ok m" "fresh_op m (snd op)"
  shows "books_ok (bg_step m op) \<and> goes_on m (bg_step m op)"
proof (cases "(m, op)" rule: bg_step.cases)
  case (1 m' now bytes w opts)
  then show ?thesis
    using register_books assms by simp
next
  case (12 m' now info)
  then show ?thesis
    using assms(1) books_same [of "finish_notifying info m" m] by (simp add: goes_on_def later_def)
next
  case (13 m' now info)
  then show ?thesis
    using assms(1) books_same [of "mark_delivered info m" m] by (simp add: goes_on_def later_def mark_delivered_def)
next
  case (14 m' now)
  then show ?thesis
    using close_books assms by simp
next
  case (16 m' now ok)
  then show ?thesis
    using assms(1) books_same [of "m\<lparr>bm_disk_ok := ok\<rparr>" m] by (simp add: goes_on_def later_def)
qed (use assms(1) in \<open>simp_all add: on_task_books steps_append_output steps_settle steps_timer steps_signal steps_end_grace
      steps_force steps_conclude steps_stop steps_suppress steps_detach steps_start_output\<close>)

lemma bg_session_books:
  assumes "books_ok m" "fresh_ops m ops"
  shows "books_ok (foldl bg_step m ops) \<and> goes_on m (foldl bg_step m ops)"
  using assms
proof (induction ops arbitrary: m)
  case (Cons op ops)
  then have "books_ok (bg_step m op) \<and> goes_on m (bg_step m op)"
    by (intro bg_step_books) simp_all
  then show ?case
    using Cons.IH [of "bg_step m op"] Cons.prems by (auto intro: goes_on_trans)
qed simp

lemma restarted_books [simp]: "books_ok (restarted limit dir m)"
  by (simp add: books_ok_def restarted_def)

lemma fresh_ops_append: "fresh_ops m (xs @ ys) \<longleftrightarrow> fresh_ops m xs \<and> fresh_ops (foldl bg_step m xs) ys"
  by (induction xs arbitrary: m) auto

text \<open>
  C25: in every session each task is announced once if it ever leaves the foreground and not otherwise, its end
  is told once when it is over and was announced and never before, and a terminal status with its time and
  reason is never changed again.
\<close>

theorem task_told_once:
  assumes "fresh_ops (restarted limit dir m0) (ops @ rest)"
    "map_of (bm_tasks (foldl bg_step (restarted limit dir m0) ops)) i = Some e"
  shows "starts_in i (bm_events (foldl bg_step (restarted limit dir m0) ops)) = of_bool (\<not> mt_foreground e) \<and>
    ends_in i (bm_events (foldl bg_step (restarted limit dir m0) ops)) = of_bool (\<not> mt_foreground e \<and> mt_phase e = Over) \<and>
    (is_terminal (mt_status e) \<longrightarrow>
       (\<exists>e'. map_of (bm_tasks (foldl bg_step (restarted limit dir m0) (ops @ rest))) i = Some e' \<and>
          mt_status e' = mt_status e \<and> mt_ended e' = mt_ended e \<and> mt_reason e' = mt_reason e))"
proof -
  let ?m = "foldl bg_step (restarted limit dir m0) ops"
  have "books_ok ?m"
    using bg_session_books [OF restarted_books] assms(1) by (simp add: fresh_ops_append)
  moreover from this have "goes_on ?m (foldl bg_step ?m rest)"
    using bg_session_books assms(1) by (simp add: fresh_ops_append)
  ultimately show ?thesis
    using assms(2) bg_books_task [OF _ assms(2)] by (fastforce simp: goes_on_def later_def)
qed

subsection \<open>Limits and progress\<close>

lemma count_update:
  "map_of al i = Some e \<Longrightarrow>
   length (filter (\<lambda>(j, x). P x) (AList.update i e' al)) + of_bool (P e) = length (filter (\<lambda>(j, x). P x) al) + of_bool (P e')"
  "map_of al i = None \<Longrightarrow>
   length (filter (\<lambda>(j, x). P x) (AList.update i e' al)) = length (filter (\<lambda>(j, x). P x) al) + of_bool (P e')"
  by (induction al) (auto split: if_splits)

text \<open>A step of a task admits nothing, because a task that has ended stays so.\<close>

lemma stepped_admissions:
  assumes "map_of (bm_tasks m) (mt_id e) = Some e" "stepped e m m'" "task_ok e"
  shows "active_admissions m' \<le> active_admissions m"
proof -
  obtain e' evs where e': "bm_tasks m' = AList.update (mt_id e) e' (bm_tasks m)" "advances e e' evs"
    using assms(2) by (auto simp: stepped_def)
  have "\<not> is_terminal (mt_status e') \<and> mt_background e' \<longrightarrow> \<not> is_terminal (mt_status e) \<and> mt_background e"
    using e'(2) assms(3) by (auto simp: advances_def)
  then show ?thesis
    using count_update(1) [OF assms(1), of "\<lambda>e. \<not> is_terminal (mt_status e) \<and> mt_background e" e']
    unfolding active_admissions_def e'(1) of_bool_def by (auto split: if_splits)
qed

lemma on_task_admissions:
  assumes "steps_task f" "books_ok m"
  shows "active_admissions (on_task i f m) \<le> active_admissions m"
proof (cases "map_of (bm_tasks m) i")
  case (Some e)
  then have e: "mt_id e = i" "task_ok e"
    using spec [OF assms(2) [unfolded books_ok_def], of i] by simp_all
  then have "stepped e m (f e m)"
    using assms(1) Some by (auto simp: steps_task_def)
  then show ?thesis
    using stepped_admissions [of m e] Some e by (simp add: on_task_def)
qed (simp add: on_task_def)

lemma fold_on_task_admissions:
  assumes "\<And>x. steps_task (f x)" "books_ok m"
  shows "active_admissions (fold (\<lambda>x. on_task (key x) (f x)) xs m) \<le> active_admissions m"
  using assms(2)
proof (induction xs arbitrary: m)
  case (Cons x xs)
  show ?case
    using Cons.IH [of "on_task (key x) (f x) m"] on_task_admissions [OF assms(1) Cons.prems, of "key x" x]
      on_task_books [OF assms(1) Cons.prems, of "key x" x] by auto
qed simp

lemma close_admissions:
  assumes "books_ok m"
  shows "active_admissions (close_session now m) \<le> active_admissions m"
proof -
  let ?m = "fold (\<lambda>info. on_task (bi_id info) suppress_notification) (list_tasks True None m) m"
  have "books_ok ?m" "active_admissions ?m \<le> active_admissions m"
    using fold_on_task_books [of "\<lambda>_. suppress_notification" m bi_id, OF steps_suppress assms]
      fold_on_task_admissions [of "\<lambda>_. suppress_notification" m bi_id, OF steps_suppress assms] by blast+
  moreover from this have "active_admissions (stop_all now r ?m) \<le> active_admissions ?m" for r
    unfolding stop_all_def
    using fold_on_task_admissions [of "\<lambda>_. stop_task now r" ?m "\<lambda>i. i", OF steps_stop] by simp
  ultimately show ?thesis
    unfolding close_session_def by (meson order_trans)
qed

lemma step_admissions:
  assumes "books_ok m" "fresh_op m (snd op)" "bm_max m = Some k" "active_admissions m \<le> k"
  shows "active_admissions (bg_step m op) \<le> k"
proof -
  have task: "steps_task f \<Longrightarrow> active_admissions (on_task i f m) \<le> k" for f i
    using on_task_admissions [OF _ assms(1), of f i] assms(4) by simp
  show ?thesis
  proof (cases "(m, op)" rule: bg_step.cases)
    case (1 m' now bytes w opts)
    then show ?thesis
      using assms(2-4) count_update(2) [of "bm_tasks m" "generate_task_id (bw_prefix w) bytes"
          "\<lambda>e. \<not> is_terminal (mt_status e) \<and> mt_background e"]
      by (auto simp: register_task_def announce_def can_register_def active_admissions_def Let_def split: if_splits)
  next
    case (12 m' now info)
    then show ?thesis
      using assms(4) by (simp add: active_admissions_def)
  next
    case (13 m' now info)
    then show ?thesis
      using assms(4) by (simp add: active_admissions_def mark_delivered_def)
  next
    case (14 m' now)
    then show ?thesis
      using close_admissions [OF assms(1), of now] assms(4) by simp
  next
    case (16 m' now ok)
    then show ?thesis
      using assms(4) by (simp add: active_admissions_def)
  qed (simp_all add: task steps_append_output steps_settle steps_timer steps_signal steps_end_grace steps_force
        steps_conclude steps_stop steps_suppress steps_detach steps_start_output)
qed

lemma restarted_initial: "bm_max (restarted limit dir m) = limit" "active_admissions (restarted limit dir m) = 0"
  by (simp_all add: restarted_def active_admissions_def)

text \<open>
  C27: the limit on running tasks holds in every session: the tasks that were started in the background and
  have not ended are never more than it, whatever is registered, stopped, detached and settled.
\<close>

theorem admissions_limited:
  assumes "fresh_ops (restarted (Some k) dir m0) ops"
  shows "active_admissions (foldl bg_step (restarted (Some k) dir m0) ops) \<le> k"
proof -
  have "active_admissions (foldl bg_step m ops) \<le> k"
    if "books_ok m" "fresh_ops m ops" "bm_max m = Some k" "active_admissions m \<le> k" for m
    using that
  proof (induction ops arbitrary: m)
    case (Cons op ops)
    then show ?case
      using Cons.IH [of "bg_step m op"] bg_step_books [of m op] step_admissions [of m op k] by (auto simp: goes_on_def)
  qed simp
  then show ?thesis
    using assms restarted_books by (simp add: restarted_initial)
qed

text \<open>After a request to stop, or a deadline that has passed, a task is no longer in the race.\<close>

lemma stop_leaves_race:
  assumes "books_ok m" "map_of (bm_tasks m) i = Some e"
  shows "\<exists>e'. map_of (bm_tasks (on_task i (stop_task now r) m)) i = Some e' \<and> rank (mt_phase e') \<ge> 1"
proof -
  have e: "mt_id e = i" "task_ok e"
    using spec [OF assms(1) [unfolded books_ok_def], of i] assms(2) by simp_all
  show ?thesis
    using e by (cases "mt_phase e") (auto simp: on_task_def assms(2) stop_task_def task_ok_def decide_def Let_def)
qed

lemma finalize_ends:
  "mt_id e = i \<Longrightarrow> \<exists>e'. map_of (bm_tasks (finalize_task now s e m)) i = Some e' \<and> rank (mt_phase e') \<ge> 3"
  by (simp add: finalize_task_def conclude_task_def fire_terminal_effects_def Let_def)

lemma grace_ends:
  assumes "books_ok m" "map_of (bm_tasks m) i = Some e" "rank (mt_phase e) \<ge> 1"
  shows "\<exists>e'. map_of (bm_tasks (on_task i (end_grace now) m)) i = Some e' \<and> rank (mt_phase e') \<ge> 2"
proof -
  have e: "mt_id e = i" "task_ok e"
    using spec [OF assms(1) [unfolded books_ok_def], of i] assms(2) by simp_all
  have "\<exists>e'. map_of (bm_tasks (finalize_task now s e m)) i = Some e' \<and> rank (mt_phase e') \<ge> 2" for s
    using finalize_ends [OF e(1), of now s m] by force
  then show ?thesis
    using assms(3) e by (cases "mt_phase e") (auto simp: on_task_def assms(2) end_grace_def)
qed

lemma force_ends:
  assumes "books_ok m" "map_of (bm_tasks m) i = Some e" "rank (mt_phase e) \<ge> 2"
  shows "\<exists>e'. map_of (bm_tasks (on_task i (force_stop_returns now) m)) i = Some e' \<and> rank (mt_phase e') \<ge> 3"
proof -
  have e: "mt_id e = i" "task_ok e"
    using spec [OF assms(1) [unfolded books_ok_def], of i] assms(2) by simp_all
  show ?thesis
    using assms(3) e finalize_ends [OF e(1), of now _ m]
    by (cases "mt_phase e") (auto simp: on_task_def assms(2) force_stop_returns_def)
qed

lemma conclusion_ends:
  assumes "books_ok m" "map_of (bm_tasks m) i = Some e" "rank (mt_phase e) \<ge> 3"
  shows "\<exists>e'. map_of (bm_tasks (on_task i conclude_task m)) i = Some e' \<and> mt_phase e' = Over"
proof -
  have e: "mt_id e = i" "task_ok e"
    using spec [OF assms(1) [unfolded books_ok_def], of i] assms(2) by simp_all
  show ?thesis
    using assms(3) e by (cases "mt_phase e") (auto simp: on_task_def assms(2) conclude_task_def fire_terminal_effects_def Let_def)
qed

text \<open>What a session does to the rank of a task: it never falls.\<close>

lemma rank_after:
  assumes "books_ok m" "fresh_ops m ops" "map_of (bm_tasks m) i = Some e" "k \<le> rank (mt_phase e)"
  shows "books_ok (foldl bg_step m ops) \<and>
    (\<exists>e'. map_of (bm_tasks (foldl bg_step m ops)) i = Some e' \<and> k \<le> rank (mt_phase e'))"
  using bg_session_books [OF assms(1,2)] assms(3,4) by (fastforce simp: goes_on_def later_def)

text \<open>
  C26: a stopped task ends. Once the grace after the request is over, the \<open>forceStop\<close> of its worker, if the
  worker has one and did not answer in the grace, has returned, and the last write is done, the task is over
  with a terminal status, whatever its worker answers and however the session goes on in between. The code
  waits for \<open>forceStop\<close> without a bound: until it returns the task keeps running
  (\<open>stuck_force_stop_keeps_task\<close>).
\<close>

theorem stopped_task_ends:
  assumes "all_ops = ops @ [(t1, Op_Stop i r)] @ ops1 @ [(t2, Op_Grace_Over i)] @ ops2 @ [(t3, Op_Forced i)] @ ops3 @
      [(t4, Op_Conclude i)]"
    and "fresh_ops (restarted limit dir m0) all_ops"
    and "map_of (bm_tasks (foldl bg_step (restarted limit dir m0) ops)) i = Some e"
  shows "\<exists>e'. map_of (bm_tasks (foldl bg_step (restarted limit dir m0) all_ops)) i = Some e' \<and>
     mt_phase e' = Over \<and> is_terminal (mt_status e')"
proof -
  let ?m = "foldl bg_step (restarted limit dir m0) ops"
  let ?m1 = "bg_step ?m (t1, Op_Stop i r)"
  let ?m2 = "foldl bg_step ?m1 ops1"
  let ?m3 = "bg_step ?m2 (t2, Op_Grace_Over i)"
  let ?m4 = "foldl bg_step ?m3 ops2"
  let ?m5 = "bg_step ?m4 (t3, Op_Forced i)"
  let ?m6 = "foldl bg_step ?m5 ops3"
  let ?m7 = "bg_step ?m6 (t4, Op_Conclude i)"
  have fresh: "fresh_ops (restarted limit dir m0) ops" "fresh_ops ?m1 ops1" "fresh_ops ?m3 ops2" "fresh_ops ?m5 ops3"
    using assms(2) unfolding assms(1) by (simp_all add: fresh_ops_append)
  have b: "books_ok ?m"
    using bg_session_books [OF restarted_books fresh(1)] by simp
  obtain e1 where e1: "map_of (bm_tasks ?m1) i = Some e1" "1 \<le> rank (mt_phase e1)"
    using stop_leaves_race [OF b assms(3), of t1 r] by auto
  have "books_ok ?m1"
    using bg_step_books [OF b, of "(t1, Op_Stop i r)"] by simp
  then obtain e2 where b2: "books_ok ?m2" and e2: "map_of (bm_tasks ?m2) i = Some e2" "1 \<le> rank (mt_phase e2)"
    using rank_after [OF _ fresh(2) e1] by blast
  obtain e3 where e3: "map_of (bm_tasks ?m3) i = Some e3" "2 \<le> rank (mt_phase e3)"
    using grace_ends [OF b2 e2, of t2] by auto
  have "books_ok ?m3"
    using bg_step_books [OF b2, of "(t2, Op_Grace_Over i)"] by simp
  then obtain e4 where b4: "books_ok ?m4" and e4: "map_of (bm_tasks ?m4) i = Some e4" "2 \<le> rank (mt_phase e4)"
    using rank_after [OF _ fresh(3) e3] by blast
  obtain e5 where e5: "map_of (bm_tasks ?m5) i = Some e5" "3 \<le> rank (mt_phase e5)"
    using force_ends [OF b4 e4, of t3] by auto
  have "books_ok ?m5"
    using bg_step_books [OF b4, of "(t3, Op_Forced i)"] by simp
  then obtain e6 where b6: "books_ok ?m6" and e6: "map_of (bm_tasks ?m6) i = Some e6" "3 \<le> rank (mt_phase e6)"
    using rank_after [OF _ fresh(4) e5] by blast
  obtain e7 where e7: "map_of (bm_tasks ?m7) i = Some e7" "mt_phase e7 = Over"
    using conclusion_ends [OF b6 e6] by auto
  have "books_ok ?m7"
    using bg_step_books [OF b6, of "(t4, Op_Conclude i)"] by simp
  then have "is_terminal (mt_status e7)"
    using bg_books_task(2) [OF _ e7(1)] e7(2) by (simp add: task_ok_def)
  then show ?thesis
    using e7 unfolding assms(1) by simp
qed


text \<open>A task in its grace ends with the settlement that the outcome of the race leaves it.\<close>

definition ended_with :: "managed_task \<Rightarrow> settlement \<Rightarrow> managed_task \<Rightarrow> bool" where
  "ended_with e v e' \<longleftrightarrow>
     mt_status e' = settled_status (st_as v) \<and>
     mt_reason e' = (case st_reason v of Some r \<Rightarrow> Some r | None \<Rightarrow> if settled_status (st_as v) = Bg_Killed then mt_reason e else None)"

lemma finalize_ended:
  "\<exists>e'. map_of (bm_tasks (finalize_task now v e m)) (mt_id e) = Some e' \<and> ended_with e v e'"
  by (simp add: finalize_task_def conclude_task_def fire_terminal_effects_def ended_with_def Let_def split: option.split)

lemma ended_with_settled [simp]: "ended_with (e\<lparr>mt_settled := x\<rparr>) v e' = ended_with e v e'"
  by (simp add: ended_with_def split: option.split)

lemma settle_in_grace:
  assumes "map_of (bm_tasks m) i = Some e" "mt_id e = i" "mt_phase e = In_Grace outcome" "mt_settled e = None"
  shows "\<exists>e'. map_of (bm_tasks (bg_step m (now, Op_Settle i s))) i = Some e' \<and>
    ended_with e (settlement_after_grace outcome (Some s)) e'"
  using finalize_ended [of now "settlement_after_grace outcome (Some s)" "e\<lparr>mt_settled := Some s\<rparr>"] assms
  by (simp add: on_task_def settle_worker_def end_grace_def Let_def)

lemma ended_with_phase [simp]: "ended_with (e\<lparr>mt_phase := x\<rparr>) v e' = ended_with e v e'"
  by (simp add: ended_with_def split: option.split)

lemma finalize_over:
  assumes "mt_id e = i" "map_of (bm_tasks m) i = Some e'" "ended_with e0 v e'" "rank (mt_phase e') \<ge> 3"
  shows "\<exists>e'. map_of (bm_tasks (on_task i (force_stop_returns now) m)) i = Some e' \<and> ended_with e0 v e'"
  using assms by (cases "mt_phase e'") (simp_all add: on_task_def force_stop_returns_def)

text \<open>A silent worker: the grace ends, and the task ends when \<open>forceStop\<close> has returned, or at once without one.\<close>

lemma silent_in_grace:
  assumes "map_of (bm_tasks m) i = Some e" "mt_id e = i" "mt_phase e = In_Grace outcome" "mt_settled e = None"
  shows "\<exists>e'. map_of (bm_tasks (foldl bg_step m [(now, Op_Grace_Over i), (later_on, Op_Forced i)])) i = Some e' \<and>
    ended_with e (settlement_after_grace outcome None) e'"
proof (cases "bw_force_stop (mt_worker e)")
  case True
  let ?e = "e\<lparr>mt_phase := Forcing outcome\<rparr>"
  let ?m = "tell [Bg_Force_Stop (mt_id e)] (put_task ?e m)"
  show ?thesis
    using True assms finalize_ended [of later_on "settlement_after_grace outcome None" ?e ?m]
    by (simp add: on_task_def end_grace_def force_stop_returns_def)
next
  case False
  let ?m = "finalize_task now (settlement_after_grace outcome None) e m"
  obtain e' where "map_of (bm_tasks ?m) i = Some e'" "ended_with e (settlement_after_grace outcome None) e'"
    using finalize_ended [of now "settlement_after_grace outcome None" e m] assms(2) by blast
  moreover from this have "rank (mt_phase e') \<ge> 3"
    using finalize_ends [OF assms(2), of now "settlement_after_grace outcome None" m] by simp
  ultimately show ?thesis
    using False assms finalize_over [OF assms(2), of ?m] by (simp add: on_task_def end_grace_def)
qed

lemma stop_races:
  assumes "map_of (bm_tasks m) i = Some e" "mt_id e = i" "mt_phase e = Racing" "mt_status e = Bg_Running"
  shows "map_of (bm_tasks (bg_step m (now, Op_Stop i r))) i =
    Some (e\<lparr>mt_reason := stop_reason r, mt_aborted := True, mt_deadline := None, mt_phase := In_Grace (By_Stop (stop_reason r))\<rparr>)"
  using assms by (simp add: on_task_def stop_task_def decide_def Let_def)

lemma timer_races:
  assumes "map_of (bm_tasks m) i = Some e" "mt_id e = i" "mt_phase e = Racing" "mt_deadline e = Some due" "due \<le> now"
  shows "map_of (bm_tasks (bg_step m (now, Op_Timer i))) i =
    Some (e\<lparr>mt_reason := None, mt_aborted := True, mt_deadline := None, mt_phase := In_Grace By_Timeout\<rparr>)"
  using assms by (simp add: on_task_def timer_fires_def decide_def)

text \<open>
  How a stopped or timed out task ends: a stop leaves the worker its own result when it completes or fails
  within the grace, and kills it with the reason of the stop otherwise; a deadline times it out whatever it
  answers.
\<close>

theorem stop_outcome:
  assumes "map_of (bm_tasks m) i = Some e" "mt_id e = i" "mt_phase e = Racing" "mt_status e = Bg_Running" "mt_settled e = None"
  shows "(\<exists>e'. map_of (bm_tasks (foldl bg_step m [(t1, Op_Stop i r), (t2, Op_Settle i s)])) i = Some e' \<and>
      (mt_status e', mt_reason e') =
        (if st_as s = Settled_Completed \<or> st_as s = Settled_Failed then (settled_status (st_as s), st_reason s)
         else (Bg_Killed, stop_reason r))) \<and>
    (\<exists>e'. map_of (bm_tasks (foldl bg_step m [(t1, Op_Stop i r), (t2, Op_Grace_Over i), (t3, Op_Forced i)])) i = Some e' \<and>
      mt_status e' = Bg_Killed \<and> mt_reason e' = stop_reason r) \<and>
    (\<forall>due. mt_deadline e = Some due \<and> due \<le> t1 \<longrightarrow>
      (\<exists>e'. map_of (bm_tasks (foldl bg_step m [(t1, Op_Timer i), (t2, Op_Settle i s)])) i = Some e' \<and>
        mt_status e' = Bg_Timed_Out \<and> mt_reason e' = None))"
proof (intro conjI allI impI)
  note stopped = stop_races [OF assms(1-4), of t1 r]
  show "\<exists>e'. map_of (bm_tasks (foldl bg_step m [(t1, Op_Stop i r), (t2, Op_Settle i s)])) i = Some e' \<and>
      (mt_status e', mt_reason e') =
        (if st_as s = Settled_Completed \<or> st_as s = Settled_Failed then (settled_status (st_as s), st_reason s)
         else (Bg_Killed, stop_reason r))"
    using settle_in_grace [OF stopped, of "By_Stop (stop_reason r)" t2 s] assms(2,5)
    by (cases "st_as s") (auto simp del: bg_step.simps simp: ended_with_def settlement_after_grace_def split: option.splits)
  show "\<exists>e'. map_of (bm_tasks (foldl bg_step m [(t1, Op_Stop i r), (t2, Op_Grace_Over i), (t3, Op_Forced i)])) i = Some e' \<and>
      mt_status e' = Bg_Killed \<and> mt_reason e' = stop_reason r"
    using silent_in_grace [OF stopped, of "By_Stop (stop_reason r)" t2 t3] assms(2,5)
    by (auto simp del: bg_step.simps simp: ended_with_def settlement_after_grace_def split: option.splits)
  fix due
  assume "mt_deadline e = Some due \<and> due \<le> t1"
  then show "\<exists>e'. map_of (bm_tasks (foldl bg_step m [(t1, Op_Timer i), (t2, Op_Settle i s)])) i = Some e' \<and>
      mt_status e' = Bg_Timed_Out \<and> mt_reason e' = None"
    using settle_in_grace [OF timer_races [OF assms(1-3)], of due t1 By_Timeout t2 s] assms(2,5)
    by (auto simp del: bg_step.simps simp: ended_with_def settlement_after_grace_def)
qed


subsection \<open>Examples\<close>

definition build_worker :: bg_worker where
  "build_worker = \<lparr>bw_prefix = ''bash'', bw_kind = Process_Task, bw_description = ''build'', bw_timeout = None,
     bw_force_stop = True\<rparr>"

definition plain_options :: "bool \<Rightarrow> bg_options" where
  "plain_options detached = \<lparr>bo_detached = Some detached, bo_timeout = Some 10, bo_detach_timeout = None, bo_signal = False\<rparr>"

definition build_id :: string where
  "build_id = generate_task_id ''bash'' (replicate 8 0)"

definition empty_manager :: bg_manager where
  "empty_manager =
     \<lparr>bm_max = None, bm_dir = None, bm_tasks = [], bm_ghosts = [], bm_scheduled = [], bm_delivered = [],
      bm_notifying = [], bm_files = [], bm_logs = [], bm_events = [], bm_disk_ok = True\<rparr>"

definition sample_start :: bg_manager where
  "sample_start = restarted (Some 1) (Some ''s'') empty_manager"

definition sample_op :: "bool \<Rightarrow> int \<times> bg_op" where
  "sample_op detached = (0, Op_Register (replicate 8 0) build_worker (plain_options detached))"

definition sample_ops :: "(int \<times> bg_op) list" where
  "sample_ops = [sample_op True, (1, Op_Output build_id ''ab''), (2, Op_Settle build_id \<lparr>st_as = Settled_Completed, st_reason = None\<rparr>),
     (3, Op_Conclude build_id)]"

lemma sample_fresh: "fresh_ops sample_start (sample_ops @ [(4, Op_Close)])" "books_ok sample_start" "bm_dir sample_start = Some ''s''"
  subgoal by code_simp
  subgoal by (simp add: sample_start_def)
  subgoal by code_simp
  done

theorem task_told_once_witness:
  "starts_in build_id (bm_events (foldl bg_step sample_start sample_ops)) = 1 \<and>
   ends_in build_id (bm_events (foldl bg_step sample_start sample_ops)) = 1"
proof -
  have "(case map_of (bm_tasks (foldl bg_step sample_start sample_ops)) build_id of
      Some e \<Rightarrow> \<not> mt_foreground e \<and> mt_phase e = Over | None \<Rightarrow> False)"
    by code_simp
  then obtain e where e: "map_of (bm_tasks (foldl bg_step sample_start sample_ops)) build_id = Some e" "\<not> mt_foreground e" "mt_phase e = Over"
    by (auto split: option.splits)
  show ?thesis
    using task_told_once [OF sample_fresh(1) [unfolded sample_start_def] e(1) [unfolded sample_start_def]] e(2,3)
    by (simp add: sample_start_def)
qed

theorem admissions_limited_witness:
  "active_admissions (foldl bg_step sample_start [sample_op True, (1, Op_Register (replicate 8 1) build_worker (plain_options True))]) \<le> 1"
proof -
  have "fresh_ops sample_start [sample_op True, (1, Op_Register (replicate 8 1) build_worker (plain_options True))]"
    by code_simp
  then show ?thesis
    unfolding sample_start_def by (rule admissions_limited)
qed

definition stop_ops :: "(int \<times> bg_op) list" where
  "stop_ops = [sample_op True] @ [(1, Op_Stop build_id (Some ''enough''))] @ [(2, Op_Output build_id ''late'')] @
     [(3, Op_Grace_Over build_id)] @ [] @ [(4, Op_Forced build_id)] @ [] @ [(5, Op_Conclude build_id)]"

theorem stopped_task_ends_witness:
  "\<exists>e'. map_of (bm_tasks (foldl bg_step sample_start stop_ops)) build_id = Some e' \<and>
     mt_phase e' = Over \<and> is_terminal (mt_status e')"
proof -
  have fresh: "fresh_ops sample_start stop_ops"
    by code_simp
  have "map_of (bm_tasks (foldl bg_step sample_start [sample_op True])) build_id \<noteq> None"
    by code_simp
  then obtain e where "map_of (bm_tasks (foldl bg_step sample_start [sample_op True])) build_id = Some e"
    by blast
  from stopped_task_ends [OF stop_ops_def fresh [unfolded sample_start_def] this [unfolded sample_start_def]] show ?thesis
    unfolding sample_start_def .
qed

text \<open>
  A \<open>forceStop\<close> that hangs keeps the task running for ever: nothing but its return ends it, and neither the
  worker's answer nor another stop does.
\<close>

theorem stuck_force_stop_keeps_task:
  "case map_of (bm_tasks (foldl bg_step sample_start
      [sample_op True, (1, Op_Stop build_id None), (5001, Op_Grace_Over build_id),
       (9000, Op_Settle build_id \<lparr>st_as = Settled_Completed, st_reason = None\<rparr>), (9001, Op_Stop build_id None),
       (9002, Op_Grace_Over build_id), (9003, Op_Timer build_id), (9004, Op_Conclude build_id)])) build_id of
     Some e \<Rightarrow> mt_status e = Bg_Running \<and> mt_phase e = Forcing (By_Stop None)
   | None \<Rightarrow> False"
  by code_simp

lemma sample_task:
  "map_of (bm_tasks (bg_step sample_start (sample_op True))) build_id = Some (new_task 0 build_id build_worker (plain_options True))"
  by (simp add: sample_op_def register_task_def announce_def sample_start_def restarted_def can_register_def active_admissions_def
      build_id_def build_worker_def Let_def)

theorem stop_outcome_witness:
  "\<exists>e'. map_of (bm_tasks (foldl bg_step (bg_step sample_start (sample_op True))
      [(5, Op_Stop build_id (Some '' enough '')), (6, Op_Grace_Over build_id), (7, Op_Forced build_id)])) build_id = Some e' \<and>
    mt_status e' = Bg_Killed \<and> mt_reason e' = stop_reason (Some '' enough '')"
proof -
  have "mt_settled (new_task 0 build_id build_worker (plain_options True)) = None"
    by (simp add: new_task_def Let_def)
  then show ?thesis
    using conjunct1 [OF conjunct2 [OF stop_outcome [OF sample_task new_task_fields(1) new_task_fields(3,4)]]] by blast
qed

end
