(* ===== verification/Background_Output.thy ===== *)
theory Background_Output
  imports Background_Tasks
begin

text \<open>
  What background tasks write and what is left of them after a restart: the output of a task through the
  buffer, the pending chunks and the log, the snapshot shown of it, and the tasks and notifications that a
  new session makes of the files of the last one.
\<close>

subsection \<open>Output is complete\<close>

lemma utf8_append [simp]: "utf8 (s @ t) = utf8 s @ utf8 t"
  by (simp add: utf8_def)

lemma utf8_Nil [simp]: "utf8 [] = []"
  by (simp add: utf8_def)

definition log_bytes :: "string \<Rightarrow> bg_manager \<Rightarrow> nat list" where
  "log_bytes i m = opt_or (map_of (bm_logs m) i) []"

text \<open>What a task has written, in the order written: its log, then what waits in memory; and the tail kept of it.\<close>

definition output_ok :: "string list \<Rightarrow> managed_task \<Rightarrow> nat list \<Rightarrow> bool" where
  "output_ok out e written \<longleftrightarrow>
     mt_bytes e = length (utf8 (concat out)) \<and> suffix (concat (mt_chunks e)) (concat out) \<and>
     (length (mt_chunks e) \<le> 1 \<or> length (concat (mt_chunks e)) \<le> max_output_bytes) \<and>
     mt_pending_bytes e = length (utf8 (concat (mt_pending e))) \<and> mt_pending_bytes e \<le> max_output_bytes \<and>
     (mt_persisting e \<longrightarrow> mt_pending e = []) \<and> (\<not> mt_foreground e \<longrightarrow> mt_persisting e) \<and>
     (\<not> mt_persisting e \<longrightarrow> written = []) \<and> suffix (written @ utf8 (concat (mt_pending e))) (utf8 (concat out)) \<and>
     (\<not> mt_foreground e \<or> \<not> is_terminal (mt_status e) \<longrightarrow> written @ utf8 (concat (mt_pending e)) = utf8 (concat out))"

definition same_output :: "managed_task \<Rightarrow> managed_task \<Rightarrow> bool" where
  "same_output e e' \<longleftrightarrow>
     mt_bytes e' = mt_bytes e \<and> mt_chunks e' = mt_chunks e \<and> mt_persisting e' = mt_persisting e \<and>
     mt_foreground e' = mt_foreground e \<and> (is_terminal (mt_status e) \<longrightarrow> is_terminal (mt_status e')) \<and>
     (mt_pending e' = mt_pending e \<and> mt_pending_bytes e' = mt_pending_bytes e \<or>
      \<not> mt_persisting e' \<and> is_terminal (mt_status e') \<and> mt_pending e' = [] \<and> mt_pending_bytes e' = 0)"

lemma same_output_ok: "output_ok out e w \<Longrightarrow> same_output e e' \<Longrightarrow> output_ok out e' w"
  by (auto simp: output_ok_def same_output_def)

text \<open>An operation that does not touch the output of its task.\<close>

definition quiet :: "managed_task \<Rightarrow> bg_manager \<Rightarrow> bg_manager \<Rightarrow> bool" where
  "quiet e m m' \<longleftrightarrow>
     bm_logs m' = bm_logs m \<and> bm_disk_ok m' = bm_disk_ok m \<and> (\<exists>e'. bm_tasks m' = AList.update (mt_id e) e' (bm_tasks m) \<and> mt_id e' = mt_id e \<and> same_output e e')"

definition quiet_task :: "(managed_task \<Rightarrow> bg_manager \<Rightarrow> bg_manager) \<Rightarrow> bool" where
  "quiet_task f \<longleftrightarrow> (\<forall>e m. map_of (bm_tasks m) (mt_id e) = Some e \<longrightarrow> task_ok e \<longrightarrow> quiet e m (f e m))"

lemma quiet_taskI:
  "(\<And>e m. map_of (bm_tasks m) (mt_id e) = Some e \<Longrightarrow> task_ok e \<Longrightarrow> quiet e m (f e m)) \<Longrightarrow> quiet_task f"
  by (simp add: quiet_task_def)

lemma quietI:
  "bm_logs m' = bm_logs m \<Longrightarrow> bm_disk_ok m' = bm_disk_ok m \<Longrightarrow> bm_tasks m' = AList.update (mt_id e) (the (map_of (bm_tasks m') (mt_id e))) (bm_tasks m) \<Longrightarrow>
   mt_id (the (map_of (bm_tasks m') (mt_id e))) = mt_id e \<Longrightarrow>
   same_output e (the (map_of (bm_tasks m') (mt_id e))) \<Longrightarrow> quiet e m m'"
  by (auto simp: quiet_def)

lemma quiet_same: "map_of (bm_tasks m) (mt_id e) = Some e \<Longrightarrow> quiet e m m"
  by (rule quietI) (simp_all add: AList.update_triv same_output_def)

lemma logs_fields [simp]:
  "bm_logs (tell evs m) = bm_logs m" "bm_logs (put_task e m) = bm_logs m" "bm_logs (persist_live e m) = bm_logs m"
  "bm_logs (start_notifying info m) = bm_logs m" "bm_logs (finish_notifying info m) = bm_logs m"
  by (auto simp: tell_def put_task_def persist_live_def start_notifying_def schedule_notification_def finish_notifying_def Let_def)

lemma disk_fields [simp]:
  "bm_disk_ok (tell evs m) = bm_disk_ok m" "bm_disk_ok (put_task e m) = bm_disk_ok m"
  "bm_disk_ok (persist_live e m) = bm_disk_ok m" "bm_disk_ok (append_log i bs m) = bm_disk_ok m"
  "bm_disk_ok (start_notifying info m) = bm_disk_ok m" "bm_disk_ok (finish_notifying info m) = bm_disk_ok m"
  by (auto simp: tell_def put_task_def persist_live_def append_log_def start_notifying_def schedule_notification_def
      finish_notifying_def Let_def)

lemma finalize_quiet:
  assumes "bm_tasks m = AList.update (mt_id e0) x (bm_tasks m0)" "bm_logs m = bm_logs m0" "bm_disk_ok m = bm_disk_ok m0" "mt_id e = mt_id e0" "same_output e0 e"
    "\<not> is_terminal (mt_status e0)"
  shows "quiet e0 m0 (finalize_task now s e m)"
  by (rule quietI) (use assms in \<open>auto simp: finalize_task_def conclude_task_def fire_terminal_effects_def same_output_def Let_def\<close>)

lemma decide_quiet:
  assumes "bm_tasks m = AList.update (mt_id e0) x (bm_tasks m0)" "bm_logs m = bm_logs m0" "bm_disk_ok m = bm_disk_ok m0" "mt_id e = mt_id e0" "same_output e0 e"
    "\<not> is_terminal (mt_status e0)"
  shows "quiet e0 m0 (decide now outcome e m)"
proof (cases outcome)
  case (By_Worker s)
  then show ?thesis
    using finalize_quiet [OF assms] by (simp add: decide_def)
qed (rule quietI; use assms in \<open>auto simp: decide_def same_output_def\<close>)+

lemma end_grace_quiet:
  assumes "bm_tasks m = AList.update (mt_id e0) x (bm_tasks m0)" "bm_logs m = bm_logs m0" "bm_disk_ok m = bm_disk_ok m0"
    "mt_id e = mt_id e0" "same_output e0 e" "\<not> is_terminal (mt_status e0)" "mt_phase e = In_Grace outcome"
  shows "quiet e0 m0 (end_grace now e m)"
proof -
  have "quiet e0 m0 (tell [Bg_Force_Stop (mt_id e)] (put_task (e\<lparr>mt_phase := Forcing outcome\<rparr>) m))"
    by (rule quietI) (use assms in \<open>auto simp: same_output_def\<close>)
  then show ?thesis
    using finalize_quiet [OF assms(1-6)] by (simp add: end_grace_def assms(7))
qed

lemma same_output_refl [simp]: "same_output e e"
  by (simp add: same_output_def)

lemma quiet_put:
  "map_of (bm_tasks m) (mt_id e) = Some e \<Longrightarrow> mt_id e' = mt_id e \<Longrightarrow> same_output e e' \<Longrightarrow> quiet e m (put_task e' m)"
  by (rule quietI) simp_all

lemma quiet_conclude: "quiet_task conclude_task"
proof (rule quiet_taskI)
  fix e and m :: bg_manager
  assume e: "map_of (bm_tasks m) (mt_id e) = Some e" "task_ok e"
  show "quiet e m (conclude_task e m)"
  proof (cases "mt_phase e = Concluding")
    case True
    then show ?thesis
      using e by (intro quietI) (auto simp: conclude_task_def fire_terminal_effects_def same_output_def Let_def)
  qed (use quiet_same [OF e(1)] in \<open>simp add: conclude_task_def\<close>)
qed

lemma quiet_end_grace: "quiet_task (end_grace now)"
proof (rule quiet_taskI)
  fix e and m :: bg_manager
  assume e: "map_of (bm_tasks m) (mt_id e) = Some e" "task_ok e"
  show "quiet e m (end_grace now e m)"
  proof (cases "mt_phase e")
    case (In_Grace p)
    then show ?thesis
      using e running_phase [OF e(2)] by (intro end_grace_quiet [where x = e]) (auto simp: AList.update_triv)
  qed (use quiet_same [OF e(1)] in \<open>simp_all add: end_grace_def\<close>)
qed

lemma quiet_force: "quiet_task (force_stop_returns now)"
proof (rule quiet_taskI)
  fix e and m :: bg_manager
  assume e: "map_of (bm_tasks m) (mt_id e) = Some e" "task_ok e"
  show "quiet e m (force_stop_returns now e m)"
  proof (cases "mt_phase e")
    case (Forcing p)
    then show ?thesis
      using e running_phase [OF e(2)]
      by (auto simp: force_stop_returns_def AList.update_triv intro!: finalize_quiet [where x = e])
  qed (use quiet_same [OF e(1)] in \<open>simp_all add: force_stop_returns_def\<close>)
qed

lemma quiet_settle: "quiet_task (settle_worker now s)"
proof (rule quiet_taskI)
  fix e and m :: bg_manager
  assume e: "map_of (bm_tasks m) (mt_id e) = Some e" "task_ok e"
  let ?e = "e\<lparr>mt_settled := Some s\<rparr>"
  have same: "same_output e ?e"
    by (simp add: same_output_def)
  have put: "quiet e m (put_task ?e m)"
    by (rule quiet_put) (use e same in auto)
  have decide: "mt_phase e = Racing \<Longrightarrow> quiet e m (decide now (By_Worker s) ?e (put_task ?e m))"
    using running_phase [OF e(2)] same by (intro decide_quiet) auto
  have grace: "mt_phase e = In_Grace p \<Longrightarrow> quiet e m (end_grace now ?e (put_task ?e m))" for p
    using running_phase [OF e(2)] same by (intro end_grace_quiet) auto
  show "quiet e m (settle_worker now s e m)"
    using quiet_same [OF e(1)] decide grace put by (cases "mt_phase e") (auto simp: settle_worker_def Let_def)
qed

lemma quiet_race:
  assumes "map_of (bm_tasks m) (mt_id e) = Some e" "task_ok e" "mt_phase e = Racing"
  shows "quiet e m (decide now outcome e m)"
  using assms running_phase [OF assms(2)] by (intro decide_quiet [where x = e]) (auto simp: AList.update_triv)

lemma quiet_timer: "quiet_task (timer_fires now)"
  by (rule quiet_taskI) (auto simp: timer_fires_def quiet_race quiet_same split: task_phase.split option.split)

lemma quiet_signal: "quiet_task (signal_aborts now)"
  by (rule quiet_taskI) (auto simp: signal_aborts_def quiet_race quiet_same)

lemma quiet_stop: "quiet_task (stop_task now reason)"
proof (rule quiet_taskI)
  fix e and m :: bg_manager
  assume e: "map_of (bm_tasks m) (mt_id e) = Some e" "task_ok e"
  let ?e = "e\<lparr>mt_reason := stop_reason reason, mt_aborted := True\<rparr>"
  have same: "same_output e ?e"
    by (simp add: same_output_def)
  have decide: "mt_phase e = Racing \<Longrightarrow> quiet e m (decide now (By_Stop (stop_reason reason)) ?e (put_task ?e m))"
    using running_phase [OF e(2)] same by (intro decide_quiet) auto
  have put: "quiet e m (put_task ?e m)"
    by (rule quiet_put) (use e same in auto)
  show "quiet e m (stop_task now reason e m)"
    using quiet_same [OF e(1)] decide put by (auto simp: stop_task_def Let_def)
qed

lemma quiet_suppress: "quiet_task suppress_notification"
proof (rule quiet_taskI)
  fix e and m :: bg_manager
  assume e: "map_of (bm_tasks m) (mt_id e) = Some e" "task_ok e"
  show "quiet e m (suppress_notification e m)"
    using quiet_same [OF e(1)] by (cases "mt_suppressed e")
      (auto intro!: quietI simp: suppress_notification_def same_output_def Let_def)
qed

definition output_inv :: "string \<Rightarrow> string list \<Rightarrow> bg_manager \<Rightarrow> bool" where
  "output_inv i out m \<longleftrightarrow>
     bm_dir m \<noteq> None \<and> bm_disk_ok m \<and> (\<exists>e. map_of (bm_tasks m) i = Some e \<and> output_ok out e (log_bytes i m))"

lemma quiet_output_inv:
  assumes "quiet_task f" "steps_task f" "books_ok m" "output_inv i out m"
  shows "output_inv i out (on_task j f m)"
proof (cases "map_of (bm_tasks m) j")
  case (Some e)
  then have e: "mt_id e = j" "task_ok e"
    using bg_books_task [OF assms(3) Some] by simp_all
  then have "quiet e m (f e m)" "bm_dir (f e m) = bm_dir m"
    using assms(1,2) Some by (auto simp: quiet_task_def steps_task_def stepped_def)
  then show ?thesis
    using assms(4) Some e same_output_ok [of out e]
    by (fastforce simp: output_inv_def quiet_def on_task_def log_bytes_def AList.update_conv')
qed (use assms(4) in \<open>simp add: on_task_def\<close>)

lemma fold_quiet_inv:
  assumes "\<And>x. quiet_task (f x)" "\<And>x. steps_task (f x)" "books_ok m" "output_inv i out m"
  shows "output_inv i out (fold (\<lambda>x. on_task (key x) (f x)) xs m)"
  using assms(3,4)
proof (induction xs arbitrary: m)
  case (Cons x xs)
  show ?case
    using Cons.IH [of "on_task (key x) (f x) m"] on_task_books [OF assms(2) Cons.prems(1), of "key x" x]
      quiet_output_inv [OF assms(1) assms(2) Cons.prems, of "key x" x] by simp
qed simp

lemma close_output:
  assumes "books_ok m" "output_inv i out m"
  shows "output_inv i out (close_session now m)"
proof -
  let ?m = "fold (\<lambda>info. on_task (bi_id info) suppress_notification) (list_tasks True None m) m"
  have m: "books_ok ?m" "output_inv i out ?m"
    using fold_on_task_books [of "\<lambda>_. suppress_notification" m bi_id, OF steps_suppress assms(1)]
      fold_quiet_inv [of "\<lambda>_. suppress_notification" m i out bi_id, OF quiet_suppress steps_suppress assms] by blast+
  show ?thesis
    unfolding close_session_def stop_all_def
    using fold_quiet_inv [of "\<lambda>_. stop_task now (Some ''Session closed'')" ?m i out "\<lambda>i. i", OF quiet_stop steps_stop m] .
qed


text \<open>The operations that do touch it.\<close>

lemma trim_chunks_props:
  "suffix (concat (trim_chunks (length (concat cs)) cs)) (concat cs) \<and>
   (length (trim_chunks (length (concat cs)) cs) \<le> 1 \<or> length (concat (trim_chunks (length (concat cs)) cs)) \<le> max_output_bytes)"
proof (induction "length (concat cs)" cs rule: trim_chunks.induct)
  case (1 c d cs)
  then show ?case
    by (auto simp: suffix_def)
qed auto

lemma append_log_bytes:
  "bm_dir m = Some d \<Longrightarrow> bm_disk_ok m \<Longrightarrow> log_bytes i (append_log j bs m) = log_bytes i m @ (if i = j then bs else [])"
  by (simp add: log_bytes_def append_log_def AList.update_conv')

lemma log_bytes_fields [simp]:
  "log_bytes i (put_task e m) = log_bytes i m" "log_bytes i (tell evs m) = log_bytes i m"
  "log_bytes i (persist_live e m) = log_bytes i m"
  by (simp_all add: log_bytes_def)

lemma start_output_inv:
  assumes "output_inv i out m" "map_of (bm_tasks m) j = Some e" "mt_id e = j"
  shows "output_inv i out (start_output_persist e m)"
proof (cases "j = i")
  case True
  then show ?thesis
    using assms
    by (auto simp: output_inv_def start_output_persist_def append_log_bytes output_ok_def AList.update_conv' Let_def)
next
  case False
  then show ?thesis
    using assms
    by (auto simp: output_inv_def start_output_persist_def append_log_bytes AList.update_conv' Let_def)
qed

lemma output_ok_tail:
  assumes "output_ok out e w"
  shows "suffix (concat (trim_chunks (length (concat (mt_chunks e @ [chunk]))) (mt_chunks e @ [chunk]))) (concat (out @ [chunk]))"
  using trim_chunks_props [of "mt_chunks e @ [chunk]"] assms by (auto simp: output_ok_def intro: suffix_order.trans)

lemma output_ok_appended:
  assumes "output_ok out e w" "mt_bytes e1 = mt_bytes e + length (utf8 chunk)"
    "mt_chunks e1 = trim_chunks (length (concat (mt_chunks e @ [chunk]))) (mt_chunks e @ [chunk])"
    "mt_foreground e1 = mt_foreground e" "mt_status e1 = mt_status e"
  shows "mt_persisting e \<Longrightarrow> mt_persisting e1 \<Longrightarrow> mt_pending e1 = mt_pending e \<Longrightarrow> mt_pending_bytes e1 = mt_pending_bytes e \<Longrightarrow>
      output_ok (out @ [chunk]) e1 (w @ utf8 chunk)"
    "\<not> mt_persisting e \<Longrightarrow> mt_persisting e1 \<Longrightarrow> mt_pending e1 = [] \<Longrightarrow> mt_pending_bytes e1 = 0 \<Longrightarrow>
      output_ok (out @ [chunk]) e1 (w @ utf8 (concat (mt_pending e @ [chunk])))"
    "\<not> mt_persisting e \<Longrightarrow> \<not> mt_persisting e1 \<Longrightarrow> mt_pending e1 = mt_pending e @ [chunk] \<Longrightarrow>
      mt_pending_bytes e1 = mt_pending_bytes e + length (utf8 chunk) \<Longrightarrow> mt_pending_bytes e1 \<le> max_output_bytes \<Longrightarrow>
      output_ok (out @ [chunk]) e1 w"
proof -
  have tail: "suffix (concat (mt_chunks e1)) (concat (out @ [chunk]))"
      "length (mt_chunks e1) \<le> 1 \<or> length (concat (mt_chunks e1)) \<le> max_output_bytes"
    using output_ok_tail [OF assms(1)] trim_chunks_props [of "mt_chunks e @ [chunk]"] assms(3) by simp_all
  show "mt_persisting e \<Longrightarrow> mt_persisting e1 \<Longrightarrow> mt_pending e1 = mt_pending e \<Longrightarrow> mt_pending_bytes e1 = mt_pending_bytes e \<Longrightarrow>
      output_ok (out @ [chunk]) e1 (w @ utf8 chunk)"
    using assms(1,2,4,5) tail by (auto simp: output_ok_def)
  show "\<not> mt_persisting e \<Longrightarrow> mt_persisting e1 \<Longrightarrow> mt_pending e1 = [] \<Longrightarrow> mt_pending_bytes e1 = 0 \<Longrightarrow>
      output_ok (out @ [chunk]) e1 (w @ utf8 (concat (mt_pending e @ [chunk])))"
    using assms(1,2,4,5) tail by (auto simp: output_ok_def)
  show "\<not> mt_persisting e \<Longrightarrow> \<not> mt_persisting e1 \<Longrightarrow> mt_pending e1 = mt_pending e @ [chunk] \<Longrightarrow>
      mt_pending_bytes e1 = mt_pending_bytes e + length (utf8 chunk) \<Longrightarrow> mt_pending_bytes e1 \<le> max_output_bytes \<Longrightarrow>
      output_ok (out @ [chunk]) e1 w"
    using assms(1,2,4,5) tail by (auto simp: output_ok_def)
qed

lemma append_output_inv:
  assumes "output_inv i out m" "map_of (bm_tasks m) j = Some e" "mt_id e = j"
  shows "output_inv i (if j = i then out @ [chunk] else out) (append_output chunk e m)"
proof -
  obtain d where dir: "bm_dir m = Some d" "bm_disk_ok m"
    using assms(1) by (auto simp: output_inv_def)
  define e1 where "e1 = e\<lparr>mt_bytes := mt_bytes e + length (utf8 chunk),
    mt_chunks := trim_chunks (length (concat (mt_chunks e @ [chunk]))) (mt_chunks e @ [chunk])\<rparr>"
  define e2 where "e2 = e1\<lparr>mt_pending := mt_pending e @ [chunk], mt_pending_bytes := mt_pending_bytes e + length (utf8 chunk)\<rparr>"
  define e3 where "e3 = e2\<lparr>mt_persisting := True, mt_pending := [], mt_pending_bytes := 0\<rparr>"
  have run: "append_output chunk e m =
      (if mt_persisting e then append_log j (utf8 chunk) (put_task e1 m)
       else if mt_pending_bytes e2 > max_output_bytes then append_log j (utf8 (concat (mt_pending e @ [chunk]))) (put_task e3 (put_task e2 m))
       else put_task e2 m)"
    using dir assms(3)
    by (simp add: append_output_def start_output_persist_def Let_def e1_def e2_def e3_def)
  have ids: "mt_id e1 = j" "mt_id e2 = j" "mt_id e3 = j"
    using assms(3) by (simp_all add: e1_def e2_def e3_def)
  show ?thesis
  proof (cases "j = i")
    case False
    then show ?thesis
      using assms(1) dir unfolding run
      by (auto simp: output_inv_def append_log_bytes ids AList.update_conv')
  next
    case True
    have ok: "output_ok out e (log_bytes i m)"
      using assms True by (auto simp: output_inv_def)
    have "mt_persisting e \<Longrightarrow> output_ok (out @ [chunk]) e1 (log_bytes i m @ utf8 chunk)"
      by (rule output_ok_appended(1) [OF ok]) (simp_all add: e1_def)
    moreover have "\<not> mt_persisting e \<Longrightarrow> output_ok (out @ [chunk]) e3 (log_bytes i m @ utf8 (concat (mt_pending e @ [chunk])))"
      by (rule output_ok_appended(2) [OF ok]) (simp_all add: e1_def e2_def e3_def)
    moreover have "\<not> mt_persisting e \<Longrightarrow> mt_pending_bytes e2 \<le> max_output_bytes \<Longrightarrow> output_ok (out @ [chunk]) e2 (log_bytes i m)"
      by (rule output_ok_appended(3) [OF ok]) (simp_all add: e1_def e2_def)
    ultimately show ?thesis
      using dir True unfolding run output_inv_def
      by (simp add: append_log_bytes ids AList.update_conv')
  qed
qed

lemma detach_inv:
  assumes "output_inv i out m" "map_of (bm_tasks m) j = Some e" "mt_id e = j"
  shows "output_inv i out (detach_task now e m)"
proof (cases "is_terminal (mt_status e) \<or> \<not> mt_foreground e")
  case True
  then show ?thesis
    using assms(1) by (simp add: detach_task_def)
next
  case False
  obtain d where dir: "bm_dir m = Some d" "bm_disk_ok m"
    using assms(1) by (auto simp: output_inv_def)
  define e1 where "e1 = e\<lparr>mt_foreground := False, mt_release := Some Released_Detached,
    mt_deadline := (if mt_detach_timeout e \<noteq> None \<and> mt_phase e = Racing then armed now (mt_detach_timeout e) else mt_deadline e)\<rparr>"
  define e2 where "e2 = e1\<lparr>mt_persisting := True, mt_pending := [], mt_pending_bytes := 0\<rparr>"
  have run: "detach_task now e m =
      (if mt_persisting e then announce e1 (put_task e1 m)
       else announce e2 (if mt_pending e = [] then put_task e2 (put_task e1 m)
         else append_log j (utf8 (concat (mt_pending e))) (put_task e2 (put_task e1 m))))"
    using False assms(3) unfolding detach_task_def start_output_persist_def Let_def e1_def [symmetric] e2_def [symmetric]
    by (simp add: e1_def e2_def)
  have ids: "mt_id e1 = j" "mt_id e2 = j"
    using assms(3) by (simp_all add: e1_def e2_def)
  show ?thesis
  proof (cases "j = i")
    case True
    have ok: "output_ok out e (log_bytes i m)"
      using assms True by (auto simp: output_inv_def)
    have "mt_persisting e \<Longrightarrow> output_ok out e1 (log_bytes i m)"
        "\<not> mt_persisting e \<Longrightarrow> output_ok out e2 (log_bytes i m @ utf8 (concat (mt_pending e)))"
      using ok False by (auto simp: output_ok_def e1_def e2_def)
    then show ?thesis
      using dir True unfolding run output_inv_def
      by (cases "mt_pending e = []") (simp_all add: append_log_bytes announce_def ids AList.update_conv')
  next
    case other: False
    then show ?thesis
      using assms(1) dir unfolding run
      by (auto simp: output_inv_def append_log_bytes announce_def ids AList.update_conv')
  qed
qed


text \<open>The chunks that the operations of a session write to a task.\<close>

fun chunks_of :: "string \<Rightarrow> (int \<times> bg_op) list \<Rightarrow> string list" where
  "chunks_of i [] = []"
| "chunks_of i ((now, Op_Output j chunk) # ops) = (if j = i then chunk # chunks_of i ops else chunks_of i ops)"
| "chunks_of i (op # ops) = chunks_of i ops"

text \<open>The disk refuses no write from here on.\<close>

fun disk_holds :: "int \<times> bg_op \<Rightarrow> bool" where
  "disk_holds (now, Op_Disk ok) = ok"
| "disk_holds op = True"

definition written_by :: "string \<Rightarrow> bg_op \<Rightarrow> string list" where
  "written_by i op = (case op of Op_Output j chunk \<Rightarrow> if j = i then [chunk] else [] | _ \<Rightarrow> [])"

lemma chunks_of_Cons: "chunks_of i (op # ops) = written_by i (snd op) @ chunks_of i ops"
  by (cases "(i, op # ops)" rule: chunks_of.cases) (simp_all add: written_by_def)

lemma register_output:
  assumes "output_inv i out m" "map_of (bm_tasks m) (generate_task_id (bw_prefix w) bytes) = None"
  shows "output_inv i out (fst (register_task now bytes w opts m))"
  using assms by (auto simp: output_inv_def register_task_def announce_def AList.update_conv' Let_def)

lemma step_output:
  assumes "books_ok m" "fresh_op m (snd op)" "output_inv i out m" "disk_holds op"
  shows "output_inv i (out @ written_by i (snd op)) (bg_step m op)"
proof -
  have quiet: "quiet_task f \<Longrightarrow> steps_task f \<Longrightarrow> output_inv i out (on_task j f m)" for f j
    by (rule quiet_output_inv [OF _ _ assms(1,3)])
  show ?thesis
  proof (cases "(m, op)" rule: bg_step.cases)
    case (1 m' now bytes w opts)
    then show ?thesis
      using register_output assms(2,3) by (simp add: written_by_def)
  next
    case (2 m' now j chunk)
    then show ?thesis
      using append_output_inv [OF assms(3), of j _ chunk] bg_books_task [OF assms(1), of j] assms(3)
      by (cases "map_of (bm_tasks m) j") (auto simp: on_task_def written_by_def output_inv_def)
  next
    case (10 m' now j)
    then show ?thesis
      using detach_inv [OF assms(3), of j] bg_books_task [OF assms(1), of j] assms(3)
      by (cases "map_of (bm_tasks m) j") (simp_all add: on_task_def written_by_def)
  next
    case (11 m' now j)
    then show ?thesis
      using start_output_inv [OF assms(3), of j] bg_books_task [OF assms(1), of j] assms(3)
      by (cases "map_of (bm_tasks m) j") (simp_all add: on_task_def written_by_def)
  next
    case (12 m' now info)
    then show ?thesis
      using assms(3) by (simp add: output_inv_def written_by_def log_bytes_def)
  next
    case (13 m' now info)
    then show ?thesis
      using assms(3) by (simp add: output_inv_def written_by_def log_bytes_def mark_delivered_def)
  next
    case (14 m' now)
    then show ?thesis
      using close_output [OF assms(1,3)] by (simp add: written_by_def)
  next
    case (16 m' now ok)
    then show ?thesis
      using assms(3,4) by (simp add: output_inv_def written_by_def log_bytes_def)
  qed (simp_all add: written_by_def quiet quiet_force steps_force quiet_settle steps_settle quiet_timer steps_timer quiet_signal steps_signal
      quiet_end_grace steps_end_grace quiet_conclude steps_conclude quiet_stop steps_stop quiet_suppress steps_suppress)
qed

lemma session_output:
  assumes "books_ok m" "fresh_ops m ops" "output_inv i out m" "list_all disk_holds ops"
  shows "output_inv i (out @ chunks_of i ops) (foldl bg_step m ops)"
  using assms
proof (induction ops arbitrary: m out)
  case (Cons op ops)
  then have "books_ok (bg_step m op)" "output_inv i (out @ written_by i (snd op)) (bg_step m op)"
    using bg_step_books step_output by simp_all
  then show ?case
    using Cons.IH [of "bg_step m op" "out @ written_by i (snd op)"] Cons.prems(2,4) by (simp add: chunks_of_Cons)
qed simp

lemma registered_output:
  assumes "books_ok m" "bm_dir m = Some dir" "bm_disk_ok m" "list_all disk_holds ops"
    "fresh_ops m ((now, Op_Register bytes w opts) # ops)" "i = generate_task_id (bw_prefix w) bytes"
    "snd (register_task now bytes w opts m) = Inr i" "map_of (bm_logs m) i = None"
  shows "output_inv i (chunks_of i ops) (foldl bg_step m ((now, Op_Register bytes w opts) # ops))"
proof -
  let ?m = "bg_step m (now, Op_Register bytes w opts)"
  have "output_inv i [] ?m"
    using assms(2,3,6-8)
    by (auto simp: output_inv_def output_ok_def register_task_def announce_def log_bytes_def AList.update_conv' Let_def
        split: if_splits)
  moreover have "books_ok ?m"
    using bg_step_books [of m "(now, Op_Register bytes w opts)"] assms(1,5) by simp
  ultimately show ?thesis
    using session_output [of ?m ops i "[]"] assms(4,5) by simp
qed

text \<open>
  C24: while the disk takes every write, no output is reordered, and none is lost but the beginning of a task
  that ends in the foreground. From the registration of a task on, whatever happens to it and to the others,
  what its log holds followed by what waits in memory is everything it has written, as long as it runs, and for
  a detached task for ever; for a task that has ended in the foreground, which drops what waited, it is the end
  of what it has written. The buffer shown to clients is always an end of it too, and both stay within their
  bounds. A write the disk refuses is dropped without a word (\<open>refused_write_leaves_gap\<close>).
\<close>

theorem output_complete:
  assumes "books_ok m" "bm_dir m = Some dir" "bm_disk_ok m" "list_all disk_holds ops"
    "fresh_ops m ((now, Op_Register bytes w opts) # ops)" "i = generate_task_id (bw_prefix w) bytes"
    "snd (register_task now bytes w opts m) = Inr i" "map_of (bm_logs m) i = None"
    "m' = foldl bg_step m ((now, Op_Register bytes w opts) # ops)"
  shows "\<exists>e. map_of (bm_tasks m') i = Some e \<and> mt_bytes e = length (utf8 (concat (chunks_of i ops))) \<and>
     suffix (log_bytes i m' @ utf8 (concat (mt_pending e))) (utf8 (concat (chunks_of i ops))) \<and>
     (\<not> mt_foreground e \<or> \<not> is_terminal (mt_status e) \<longrightarrow>
        log_bytes i m' @ utf8 (concat (mt_pending e)) = utf8 (concat (chunks_of i ops))) \<and>
     suffix (concat (mt_chunks e)) (concat (chunks_of i ops)) \<and>
     (length (mt_chunks e) \<le> 1 \<or> length (concat (mt_chunks e)) \<le> max_output_bytes) \<and>
     length (utf8 (concat (mt_pending e))) \<le> max_output_bytes"
proof -
  have "output_inv i (chunks_of i ops) m'"
    using registered_output [OF assms(1-8)] unfolding assms(9) .
  then show ?thesis
    by (auto simp: output_inv_def output_ok_def)
qed


text \<open>
  The snapshot of a detached task shows the end of everything it has written, as much as was asked for,
  with the true size, and says whether something is missing.
\<close>

theorem snapshot_shows_tail:
  assumes "books_ok m" "bm_dir m = Some dir" "bm_disk_ok m" "list_all disk_holds ops"
    "fresh_ops m ((now, Op_Register bytes w opts) # ops)" "i = generate_task_id (bw_prefix w) bytes"
    "snd (register_task now bytes w opts m) = Inr i" "map_of (bm_logs m) i = None"
    "m' = foldl bg_step m ((now, Op_Register bytes w opts) # ops)" "map_of (bm_tasks m') i = Some e" "\<not> mt_foreground e"
  shows "os_preview (get_output_snapshot i limit m') =
       drop (length (utf8 (concat (chunks_of i ops))) - nat limit) (utf8 (concat (chunks_of i ops))) \<and>
     os_bytes (get_output_snapshot i limit m') = length (utf8 (concat (chunks_of i ops))) \<and>
     (os_truncated (get_output_snapshot i limit m') \<longleftrightarrow> length (utf8 (concat (chunks_of i ops))) > nat limit)"
proof -
  have inv: "output_inv i (chunks_of i ops) m'"
    using registered_output [OF assms(1-8)] unfolding assms(9) .
  then have ok: "output_ok (chunks_of i ops) e (log_bytes i m')"
    using inv assms(10) by (simp add: output_inv_def)
  have all: "log_bytes i m' = utf8 (concat (chunks_of i ops))"
    using ok assms(11) by (auto simp: output_ok_def)
  obtain d where dir: "bm_dir m' = Some d"
    using inv by (auto simp: output_inv_def)
  have known: "get_task i m' = Some (to_info e)"
    by (simp add: get_task_def assms(10))
  show ?thesis
  proof (cases "map_of (bm_logs m') i")
    case (Some content)
    then have "content = utf8 (concat (chunks_of i ops))"
      using all by (simp add: log_bytes_def)
    then show ?thesis
      using Some dir known by (auto simp: get_output_snapshot_def read_window_def Let_def)
  next
    case None
    then have none: "utf8 (concat (chunks_of i ops)) = []"
      using all by (simp add: log_bytes_def)
    then have "mt_bytes e = 0"
      using ok by (simp add: output_ok_def)
    then show ?thesis
      using None dir known assms(10) none by (simp add: get_output_snapshot_def Let_def)
  qed
qed

subsection \<open>After a restart\<close>

definition told_origins :: "bg_event list \<Rightarrow> prompt_origin list" where
  "told_origins evs = List.map_filter (\<lambda>ev. case ev of Bg_Told c p \<Rightarrow> Some p | _ \<Rightarrow> None) evs"

definition ended_infos :: "bg_event list \<Rightarrow> bg_info list" where
  "ended_infos evs = List.map_filter (\<lambda>ev. case ev of Bg_Terminated info \<Rightarrow> Some info | _ \<Rightarrow> None) evs"

lemma told_origins_simps [simp]:
  "told_origins [] = []" "told_origins (xs @ ys) = told_origins xs @ told_origins ys"
  "told_origins (map Bg_Terminated infos) = []" "told_origins (map (Bg_Terminated \<circ> f) infos) = []" "told_origins [Bg_Told c p, Bg_Hook h] = [p]"
  by (simp_all add: told_origins_def map_filter_def)

lemma ended_infos_simps [simp]:
  "ended_infos [] = []" "ended_infos (xs @ ys) = ended_infos xs @ ended_infos ys"
  "ended_infos (map Bg_Terminated infos) = infos" "ended_infos (map (Bg_Terminated \<circ> f) infos) = map f infos" "ended_infos [Bg_Told c p, Bg_Hook h] = []"
  by (simp_all add: ended_infos_def map_filter_def comp_def)

text \<open>What the tasks found on disk are after a restart.\<close>

definition loaded :: "int \<Rightarrow> disk_task list \<Rightarrow> bg_info list" where
  "loaded now disk = map (\<lambda>info. if is_terminal (bi_status info) then info else lost now info) (map normalize_persisted disk)"

definition to_tell :: "bg_info list \<Rightarrow> bg_info \<Rightarrow> bool" where
  "to_tell told info \<longleftrightarrow>
     bi_detached info = Some True \<and> \<not> bi_suppressed info \<and> notification_key info \<notin> notification_key ` set told"

lemma key_names_task:
  assumes "notification_key x = notification_key y" "CHR 0x00 \<notin> set (bi_id x)" "CHR 0x00 \<notin> set (bi_id y)"
  shows "bi_id x = bi_id y"
proof -
  have "takeWhile (\<lambda>c. c \<noteq> CHR 0x00) (notification_key z) = bi_id z" if "CHR 0x00 \<notin> set (bi_id z)" for z
  proof -
    have "takeWhile (\<lambda>c. c \<noteq> CHR 0x00) (bi_id z @ [CHR 0x00] @ t) = bi_id z" for t
      using that by (subst takeWhile_append2) auto
    then show ?thesis
      by (simp add: notification_key_def)
  qed
  then show ?thesis
    using assms by metis
qed

lemma restore_fields [simp]:
  "bm_tasks (restore_notification info m) = bm_tasks m" "bm_ghosts (restore_notification info m) = bm_ghosts m"
  "bm_delivered (restore_notification info m) = bm_delivered m"
  by (auto simp: restore_notification_def schedule_notification_def tell_def split: option.split)

lemma restored_notifications:
  assumes "distinct (map bi_id infos)" "\<forall>info\<in>set infos. CHR 0x00 \<notin> set (bi_id info)"
    "\<forall>info\<in>set infos. notification_key info \<notin> set (bm_scheduled m)"
  shows "told_origins (bm_events (fold restore_notification infos m)) = told_origins (bm_events m) @
      map task_origin (filter (\<lambda>info. bi_detached info \<noteq> Some False \<and> \<not> is_suppressed (bi_id info) m \<and>
        notification_key info \<notin> set (bm_delivered m)) infos) \<and>
    ended_infos (bm_events (fold restore_notification infos m)) = ended_infos (bm_events m) \<and>
    bm_ghosts (fold restore_notification infos m) = bm_ghosts m"
  using assms
proof (induction infos arbitrary: m)
  case (Cons info infos)
  have keys: "\<forall>x\<in>set infos. notification_key x \<noteq> notification_key info"
    using Cons.prems(1,2) key_names_task by (metis distinct.simps(2) image_eqI list.set_intros(1,2) list.simps(9) set_map)
  have same: "is_suppressed j (restore_notification info m) = is_suppressed j m" for j
    by (simp add: is_suppressed_def)
  have "\<forall>x\<in>set infos. notification_key x \<notin> set (bm_scheduled (restore_notification info m))"
    using Cons.prems(3) keys by (auto simp: restore_notification_def schedule_notification_def tell_def)
  then have "told_origins (bm_events (fold restore_notification infos (restore_notification info m))) =
      told_origins (bm_events (restore_notification info m)) @
      map task_origin (filter (\<lambda>info. bi_detached info \<noteq> Some False \<and> \<not> is_suppressed (bi_id info) m \<and>
        notification_key info \<notin> set (bm_delivered m)) infos) \<and>
    ended_infos (bm_events (fold restore_notification infos (restore_notification info m))) =
      ended_infos (bm_events (restore_notification info m)) \<and>
    bm_ghosts (fold restore_notification infos (restore_notification info m)) = bm_ghosts m"
    using Cons.IH [of "restore_notification info m"] Cons.prems(1,2) by (simp add: same)
  moreover have "told_origins (bm_events (restore_notification info m)) = told_origins (bm_events m) @
      (if bi_detached info \<noteq> Some False \<and> \<not> is_suppressed (bi_id info) m \<and> notification_key info \<notin> set (bm_delivered m)
       then [task_origin info] else [])"
      "ended_infos (bm_events (restore_notification info m)) = ended_infos (bm_events m)"
    using Cons.prems(3) by (auto simp: restore_notification_def schedule_notification_def tell_def)
  ultimately show ?case
    by simp
qed simp


lemma normalized_detached: "bi_detached (normalize_persisted t) \<noteq> Some False \<longleftrightarrow> bi_detached (normalize_persisted t) = Some True"
  by (cases t) (auto simp: legacy_to_info_def)

lemma lost_simps [simp]:
  "bi_id (lost now info) = bi_id info" "bi_status (lost now info) = Bg_Lost" "bi_detached (lost now info) = bi_detached info"
  "bi_suppressed (lost now info) = bi_suppressed info"
  by (simp_all add: lost_def)

lemma lost_terminal [simp]: "is_terminal Bg_Lost"
  by (simp add: is_terminal_def terminal_statuses_def)

lemma fold_update_distinct:
  "distinct (map bi_id ts) \<Longrightarrow> set (map bi_id ts) \<inter> fst ` set al = {} \<Longrightarrow>
   fold (\<lambda>t. AList.update (bi_id t) t) ts al = al @ map (\<lambda>t. (bi_id t, t)) ts"
proof (induction ts arbitrary: al)
  case (Cons t ts)
  have "AList.update (bi_id t) t al = al @ [(bi_id t, t)]"
    using Cons.prems(2) by (induction al) auto
  then show ?case
    using Cons.IH [of "al @ [(bi_id t, t)]"] Cons.prems by auto
qed simp

lemma fold_mark_delivered:
  "fold mark_delivered told m = m\<lparr>bm_delivered := rev (map notification_key told) @ bm_delivered m\<rparr>"
  by (induction told arbitrary: m) (simp_all add: mark_delivered_def)

lemma loaded_ids: "map bi_id (loaded now disk) = map (bi_id \<circ> normalize_persisted) disk"
  by (simp add: loaded_def)

lemma loaded_terminal: "info \<in> set (loaded now disk) \<Longrightarrow> is_terminal (bi_status info)"
  by (auto simp: loaded_def)

lemma loaded_detached:
  "info \<in> set (loaded now disk) \<Longrightarrow> bi_detached info \<noteq> Some False \<longleftrightarrow> bi_detached info = Some True"
  using normalized_detached by (fastforce simp: loaded_def)

lemma map_of_infos: "distinct (map bi_id infos) \<Longrightarrow> info \<in> set infos \<Longrightarrow> map_of (map (\<lambda>t. (bi_id t, t)) infos) (bi_id info) = Some info"
  by (rule map_of_is_SomeI) (auto simp: comp_def)

text \<open>Rewriting some entries of a map where they stand.\<close>

lemma fold_update_in_place:
  "distinct (map fst (pre @ ys)) \<Longrightarrow>
   fold (\<lambda>p. AList.update (fst p) (g (snd p))) (filter (\<lambda>p. P (snd p)) ys) (pre @ ys) =
   pre @ map (\<lambda>(i, v). (i, if P v then g v else v)) ys"
proof (induction ys arbitrary: pre)
  case (Cons y ys)
  obtain i v where y: "y = (i, v)"
    by force
  have upd: "AList.update i w (pre @ (i, v) # ys) = (pre @ [(i, w)]) @ ys" for w
    using Cons.prems by (induction pre) (auto simp: y)
  show ?case
    using Cons.IH [of "pre @ [(i, if P v then g v else v)]"] Cons.prems by (cases "P v") (simp_all add: y upd)
qed simp

lemma mark_ghosts_run:
  assumes "bm_dir m = Some dir" "bm_disk_ok m"
  shows "mark_ghosts_lost now gs m =
    (m\<lparr>bm_ghosts := fold (\<lambda>(i, info). AList.update i (lost now info)) (filter (\<lambda>p. \<not> is_terminal (bi_status (snd p))) gs) (bm_ghosts m),
       bm_files := fold (\<lambda>(i, info). AList.update (bi_id info) (Current_Task (lost now info)))
         (filter (\<lambda>p. \<not> is_terminal (bi_status (snd p))) gs) (bm_files m)\<rparr>,
     Some (map (lost now \<circ> snd) (filter (\<lambda>p. \<not> is_terminal (bi_status (snd p))) gs)))"
  using assms
proof (induction gs arbitrary: m)
  case (Cons p gs)
  obtain i info where p: "p = (i, info)"
    by force
  show ?case
  proof (cases "is_terminal (bi_status info)")
    case False
    let ?m = "m\<lparr>bm_ghosts := AList.update i (lost now info) (bm_ghosts m),
      bm_files := AList.update (bi_id info) (Current_Task (lost now info)) (bm_files m)\<rparr>"
    have "mark_ghosts_lost now (p # gs) m =
        (let (m3, found) = mark_ghosts_lost now gs ?m in (m3, map_option ((#) (lost now info)) found))"
      using Cons.prems False by (simp add: p Let_def)
    then show ?thesis
      using Cons.IH [of ?m] Cons.prems False by (simp add: p)
  qed (use Cons in \<open>simp add: p\<close>)
qed simp

text \<open>The records of a directory: each stands under the id it holds, and no id has a zero byte.\<close>

definition files_ok :: "(string \<times> disk_task) list \<Rightarrow> bool" where
  "files_ok files \<longleftrightarrow>
     distinct (map fst files) \<and> list_all (\<lambda>(i, t). bi_id (normalize_persisted t) = i \<and> CHR 0x00 \<notin> set i) files"

abbreviation records :: "bg_manager \<Rightarrow> disk_task list" where
  "records m \<equiv> map snd (bm_files m)"

lemma files_okD:
  assumes "files_ok files"
  shows "distinct (map (bi_id \<circ> normalize_persisted) (map snd files))"
    "\<forall>t\<in>set (map snd files). CHR 0x00 \<notin> set (bi_id (normalize_persisted t))"
    "map (\<lambda>t. (bi_id t, t)) (map (normalize_persisted \<circ> snd) files) = map (\<lambda>(i, t). (i, normalize_persisted t)) files"
proof -
  have "map (bi_id \<circ> normalize_persisted) (map snd files) = map fst files"
    using assms by (auto simp: files_ok_def list_all_iff)
  then show "distinct (map (bi_id \<circ> normalize_persisted) (map snd files))"
    using assms by (simp only: files_ok_def)
qed (use assms in \<open>auto simp: files_ok_def list_all_iff\<close>)

lemma normalize_again: "normalize_persisted (Current_Task (lost now (normalize_persisted t))) = lost now (normalize_persisted t)"
  by (cases t) (simp_all add: legacy_to_info_def lost_def)

lemma loaded_as_map:
  "loaded now disk = map (\<lambda>t. if is_terminal (bi_status (normalize_persisted t)) then normalize_persisted t
     else lost now (normalize_persisted t)) disk"
  by (simp add: loaded_def)

lemma restore_files [simp]: "bm_files (restore_notification info m) = bm_files m" "bm_disk_ok (restore_notification info m) = bm_disk_ok m"
  by (auto simp: restore_notification_def schedule_notification_def tell_def split: option.split)

lemma fold_restore_files:
  "bm_files (fold restore_notification infos m) = bm_files m \<and> bm_disk_ok (fold restore_notification infos m) = bm_disk_ok m"
  by (induction infos arbitrary: m) simp_all

text \<open>The manager of a new session before the notifications: what is in memory and what is on disk.\<close>

lemma resume_loads:
  assumes files: "files_ok (bm_files m0)" and disk: "bm_disk_ok m0"
  obtains m2 where
    "resume_background now told (restarted limit (Some dir) m0) =
       fold restore_notification (filter (\<lambda>info. is_terminal (bi_status info)) (list_tasks False None m2)) m2"
    "bm_ghosts m2 = map (\<lambda>info. (bi_id info, info)) (loaded now (records m0))" "bm_tasks m2 = []" "bm_scheduled m2 = []"
    "bm_delivered m2 = rev (map notification_key told)" "bm_disk_ok m2"
    "bm_events m2 = map Bg_Terminated
       (map (lost now) (filter (\<lambda>info. \<not> is_terminal (bi_status info)) (map normalize_persisted (records m0))))"
    "files_ok (bm_files m2)" "map normalize_persisted (records m2) = loaded now (records m0)"
proof -
  let ?gs = "map (\<lambda>(i, t). (i, normalize_persisted t)) (bm_files m0)"
  let ?running = "\<lambda>info. \<not> is_terminal (bi_status info)"
  define m1 where "m1 = load_from_disk (fold mark_delivered told (restarted limit (Some dir) m0))"
  have keys: "distinct (map fst (bm_files m0))"
    using files by (simp add: files_ok_def)
  have m1: "bm_ghosts m1 = ?gs" "bm_dir m1 = Some dir" "bm_tasks m1 = []" "bm_scheduled m1 = []" "bm_disk_ok m1"
      "bm_delivered m1 = rev (map notification_key told)" "bm_events m1 = []" "bm_files m1 = bm_files m0"
    using files_okD [OF files] fold_update_distinct [of "map (normalize_persisted \<circ> snd) (bm_files m0)" "[]"] disk
    by (simp_all add: m1_def load_from_disk_def fold_mark_delivered restarted_def comp_def)
  define m2 where "m2 = tell (map Bg_Terminated (the (snd (mark_loaded_lost now m1)))) (fst (mark_loaded_lost now m1))"
  note run = mark_ghosts_run [OF m1(2,5), of now "bm_ghosts m1", folded mark_loaded_lost_def]
  have "fold (\<lambda>(i, info). AList.update i (lost now info)) (filter (\<lambda>p. ?running (snd p)) ?gs) ?gs =
      map (\<lambda>(i, info). (i, if ?running info then lost now info else info)) ?gs"
    using fold_update_in_place [of "[]" ?gs "lost now" ?running] keys by (simp add: case_prod_unfold comp_def)
  then have ghosts: "bm_ghosts m2 = map (\<lambda>info. (bi_id info, info)) (loaded now (records m0))"
    using files by (auto simp: m2_def run m1 tell_def loaded_as_map files_ok_def list_all_iff)
  have pick: "filter (\<lambda>p. ?running (snd p)) ?gs = map (\<lambda>(i, t). (i, normalize_persisted t))
      (filter (\<lambda>p. ?running (normalize_persisted (snd p))) (bm_files m0))"
    by (simp add: filter_map comp_def case_prod_unfold)
  have "fold (\<lambda>(i, info). AList.update (bi_id info) (Current_Task (lost now info))) (filter (\<lambda>p. ?running (snd p)) ?gs) (bm_files m0) =
      fold (\<lambda>p. AList.update (fst p) (Current_Task (lost now (normalize_persisted (snd p)))))
        (filter (\<lambda>p. ?running (normalize_persisted (snd p))) (bm_files m0)) (bm_files m0)"
    unfolding pick fold_map comp_def using files by (intro fold_cong) (auto simp: files_ok_def list_all_iff)
  also have "\<dots> = map (\<lambda>(i, t). (i, if ?running (normalize_persisted t) then Current_Task (lost now (normalize_persisted t)) else t))
      (bm_files m0)"
    using fold_update_in_place [of "[]" "bm_files m0" "\<lambda>t. Current_Task (lost now (normalize_persisted t))"
        "\<lambda>t. ?running (normalize_persisted t)"] keys by simp
  finally have new_files: "bm_files m2 = map (\<lambda>(i, t). (i, if ?running (normalize_persisted t)
      then Current_Task (lost now (normalize_persisted t)) else t)) (bm_files m0)"
    by (simp add: m2_def run m1 tell_def)
  show thesis
  proof (rule that [of m2])
    show "resume_background now told (restarted limit (Some dir) m0) =
        fold restore_notification (filter (\<lambda>info. is_terminal (bi_status info)) (list_tasks False None m2)) m2"
      by (simp add: resume_background_def reconcile_def m1_def [symmetric] m2_def run Let_def)
    show "bm_events m2 = map Bg_Terminated
        (map (lost now) (filter ?running (map normalize_persisted (records m0))))"
      by (simp add: m2_def run m1 pick filter_map comp_def case_prod_unfold)
    have keep: "bi_id (normalize_persisted (if b then Current_Task (lost now (normalize_persisted t)) else t)) =
        bi_id (normalize_persisted t)" for b t
      by (simp only: normalize_again lost_simps split: if_split) simp
    show "files_ok (bm_files m2)"
      using files unfolding new_files files_ok_def list_all_iff
      by (auto simp: keep comp_def case_prod_unfold simp del: normalize_persisted.simps)
    show "map normalize_persisted (records m2) = loaded now (records m0)"
      by (simp add: new_files loaded_as_map normalize_again case_prod_unfold del: normalize_persisted.simps)
  qed (simp_all add: ghosts, simp_all add: m2_def run m1 tell_def)
qed

text \<open>One restart, spelled out.\<close>

lemma resume_settles:
  assumes files: "files_ok (bm_files m0)" and disk: "bm_disk_ok m0"
    and m: "m = resume_background now told (restarted limit (Some dir) m0)"
  shows "bm_ghosts m = map (\<lambda>info. (bi_id info, info)) (loaded now (records m0)) \<and>
    ended_infos (bm_events m) =
      map (lost now) (filter (\<lambda>info. \<not> is_terminal (bi_status info)) (map normalize_persisted (records m0))) \<and>
    told_origins (bm_events m) = map task_origin (filter (to_tell told) (loaded now (records m0))) \<and>
    files_ok (bm_files m) \<and> bm_disk_ok m \<and> map normalize_persisted (records m) = loaded now (records m0)"
proof -
  let ?infos = "loaded now (records m0)"
  obtain m2 where m2: "m = fold restore_notification (filter (\<lambda>info. is_terminal (bi_status info)) (list_tasks False None m2)) m2"
    "bm_ghosts m2 = map (\<lambda>info. (bi_id info, info)) ?infos" "bm_tasks m2 = []" "bm_scheduled m2 = []"
    "bm_delivered m2 = rev (map notification_key told)" "bm_disk_ok m2"
    "bm_events m2 = map Bg_Terminated
       (map (lost now) (filter (\<lambda>info. \<not> is_terminal (bi_status info)) (map normalize_persisted (records m0))))"
    "files_ok (bm_files m2)" "map normalize_persisted (records m2) = ?infos"
    by (rule resume_loads [OF files disk, of now told limit dir, folded m])
  have listed: "filter (\<lambda>info. is_terminal (bi_status info)) (list_tasks False None m2) =
      filter (\<lambda>info. bi_detached info \<noteq> Some False) ?infos"
    using loaded_terminal [of _ now "records m0"]
    by (auto simp: list_tasks_def should_list_def m2 comp_def Let_def intro!: filter_cong)
  have ids: "distinct (map bi_id ?infos)"
    using files_okD(1) [OF files] by (simp only: loaded_ids)
  have supp: "is_suppressed (bi_id info) m2 = bi_suppressed info" if "info \<in> set ?infos" for info
    using that map_of_infos [OF ids that] by (simp add: is_suppressed_def m2)
  have "distinct (map bi_id (filter (\<lambda>info. bi_detached info \<noteq> Some False) ?infos))"
    using ids by (simp add: distinct_map_filter)
  moreover have "\<forall>info\<in>set (filter (\<lambda>info. bi_detached info \<noteq> Some False) ?infos). CHR 0x00 \<notin> set (bi_id info)"
    using files_okD(2) [OF files] by (auto simp: loaded_def)
  ultimately have "told_origins (bm_events m) =
      map task_origin (filter (\<lambda>info. bi_detached info \<noteq> Some False \<and> \<not> is_suppressed (bi_id info) m2 \<and>
        notification_key info \<notin> set (bm_delivered m2)) (filter (\<lambda>info. bi_detached info \<noteq> Some False) ?infos)) \<and>
    ended_infos (bm_events m) =
      map (lost now) (filter (\<lambda>info. \<not> is_terminal (bi_status info)) (map normalize_persisted (records m0))) \<and>
    bm_ghosts m = bm_ghosts m2"
    unfolding m2(1) listed using restored_notifications [of "filter (\<lambda>info. bi_detached info \<noteq> Some False) ?infos" m2]
    by (simp add: m2(4,7))
  moreover have "filter (\<lambda>info. bi_detached info \<noteq> Some False \<and> \<not> is_suppressed (bi_id info) m2 \<and>
        notification_key info \<notin> set (bm_delivered m2)) (filter (\<lambda>info. bi_detached info \<noteq> Some False) ?infos) =
      filter (to_tell told) ?infos"
    using supp loaded_detached by (auto simp: to_tell_def m2(5) intro!: filter_cong)
  moreover have "bm_files m = bm_files m2" "bm_disk_ok m = bm_disk_ok m2"
    unfolding m2(1) using fold_restore_files by blast+
  ultimately show ?thesis
    using m2 by simp
qed

text \<open>
  C22: a restart settles the tasks it finds on disk and tells each of them once. None is left running: the
  unfinished ones are lost, on disk too, and only their end is announced. The agent is told of every task that
  was detached, not suppressed and not told before, in order, and of no other; a second restart reads what the
  first one wrote, and with a context that holds these notifications it tells and announces nothing. The records
  stand under their ids, and the disk takes the writes of the restart; a write that it refuses ends the restart
  with nothing told (\<open>failed_restart_tells_nothing\<close>).
\<close>

theorem restart_tells_once:
  assumes "files_ok (bm_files m0)" "bm_disk_ok m0"
    "m = resume_background now told (restarted limit (Some dir) m0)"
    "m' = resume_background now' (told @ filter (to_tell told) (loaded now (records m0))) (restarted limit (Some dir) m)"
  shows "bm_ghosts m = map (\<lambda>info. (bi_id info, info)) (loaded now (records m0)) \<and>
    ended_infos (bm_events m) =
      map (lost now) (filter (\<lambda>info. \<not> is_terminal (bi_status info)) (map normalize_persisted (records m0))) \<and>
    told_origins (bm_events m) = map task_origin (filter (to_tell told) (loaded now (records m0))) \<and>
    bm_ghosts m' = bm_ghosts m \<and> ended_infos (bm_events m') = [] \<and> told_origins (bm_events m') = []"
proof -
  let ?infos = "loaded now (records m0)"
  note first = resume_settles [OF assms(1-3)]
  then have "files_ok (bm_files m)" "bm_disk_ok m" and disk: "map normalize_persisted (records m) = ?infos"
    by blast+
  note second = resume_settles [OF this(1,2) assms(4)]
  have same: "loaded now' (records m) = ?infos"
    unfolding loaded_def [of now' "records m"] disk using loaded_terminal by (auto intro!: map_idI)
  have "filter (to_tell (told @ filter (to_tell told) ?infos)) ?infos = []"
    by (auto simp: to_tell_def filter_empty_conv)
  moreover have "filter (\<lambda>info. \<not> is_terminal (bi_status info)) (map normalize_persisted (records m)) = []"
    unfolding disk using loaded_terminal by (auto simp: filter_empty_conv)
  ultimately show ?thesis
    using first second unfolding same by (simp del: filter_append)
qed


text \<open>
  Closing a session leaves a foreground command behind on disk: closing writes the record of the running
  task to suppress its notification, but its end is not written because it never left the foreground, so
  the next session finds it running, calls it lost, and announces the end of a task that was never announced.
\<close>

theorem closed_foreground_returns:
  "let m = foldl bg_step sample_start [sample_op False, (1, Op_Close), (2, Op_Settle build_id \<lparr>st_as = Settled_Killed, st_reason = None\<rparr>)];
       m' = resume_background 3 [] (restarted (Some 1) (Some ''s'') m)
   in map_option mt_status (map_of (bm_tasks m) build_id) = Some Bg_Killed \<and> map_option mt_phase (map_of (bm_tasks m) build_id) = Some Over \<and>
     starts_in build_id (bm_events m) = 0 \<and> map bi_status (ended_infos (bm_events m')) = [Bg_Lost]"
  by code_simp


lemma sample_output:
  "snd (register_task 0 (replicate 8 0) build_worker (plain_options True) sample_start) = Inr build_id"
  "map_of (bm_logs sample_start) build_id = None" "build_id = generate_task_id (bw_prefix build_worker) (replicate 8 0)"
  "fresh_ops sample_start [(0, Op_Register (replicate 8 0) build_worker (plain_options True)), (1, Op_Output build_id ''ab'')]"
  "bm_disk_ok sample_start" "list_all disk_holds [(1, Op_Output build_id ''ab'')]"
  subgoal by code_simp
  subgoal by code_simp
  subgoal by code_simp
  subgoal by code_simp
  subgoal by code_simp
  subgoal by simp
  done

theorem output_complete_witness:
  "\<exists>e. map_of (bm_tasks (foldl bg_step sample_start [(0, Op_Register (replicate 8 0) build_worker (plain_options True)),
      (1, Op_Output build_id ''ab'')])) build_id = Some e \<and> mt_bytes e = 2"
  using output_complete [OF sample_fresh(2,3) sample_output(5,6,4,3,1,2) refl]
  by (auto simp: utf8_def utf8_char_def simp del: foldl_Cons)

theorem snapshot_shows_tail_witness:
  "os_preview (get_output_snapshot build_id 1 (foldl bg_step sample_start
     [(0, Op_Register (replicate 8 0) build_worker (plain_options True)), (1, Op_Output build_id ''ab'')])) = [98]"
proof -
  let ?m = "foldl bg_step sample_start [(0, Op_Register (replicate 8 0) build_worker (plain_options True)), (1, Op_Output build_id ''ab'')]"
  have "(case map_of (bm_tasks ?m) build_id of Some e \<Rightarrow> \<not> mt_foreground e | None \<Rightarrow> False)"
    by code_simp
  then obtain e where "map_of (bm_tasks ?m) build_id = Some e" "\<not> mt_foreground e"
    by (auto split: option.splits)
  from snapshot_shows_tail [OF sample_fresh(2,3) sample_output(5,6,4,3,1,2) refl this, of 1] show ?thesis
    by (simp add: utf8_def utf8_char_def del: foldl_Cons)
qed

text \<open>A chunk the disk refuses is missing from the log, and the snapshot says that the output is complete.\<close>

definition gap_ops :: "(int \<times> bg_op) list" where
  "gap_ops =
     [sample_op True, (1, Op_Output build_id ''a''), (2, Op_Disk False), (3, Op_Output build_id ''b''), (4, Op_Disk True),
      (5, Op_Output build_id ''c'')]"

theorem refused_write_leaves_gap:
  "os_preview (get_output_snapshot build_id 9 (foldl bg_step sample_start gap_ops)) = [97, 99] \<and>
   os_full (get_output_snapshot build_id 9 (foldl bg_step sample_start gap_ops)) \<and>
   \<not> os_truncated (get_output_snapshot build_id 9 (foldl bg_step sample_start gap_ops)) \<and>
   map_option mt_bytes (map_of (bm_tasks (foldl bg_step sample_start gap_ops)) build_id) = Some 3"
proof -
  define m0 where "m0 = bg_step sample_start (sample_op True)"
  have m0: "map_of (bm_tasks m0) build_id = Some (new_task 0 build_id build_worker (plain_options True))"
      "bm_dir m0 = Some ''s''" "bm_disk_ok m0" "bm_logs m0 = []"
    unfolding m0_def by (rule sample_task, code_simp+)
  have start: "foldl bg_step sample_start gap_ops = foldl bg_step m0 (tl gap_ops)"
    by (simp add: gap_ops_def m0_def del: bg_step.simps)
  have "mt_persisting (new_task 0 build_id build_worker (plain_options True))"
    by (simp add: plain_options_def)
  then show ?thesis
    unfolding start
    by (simp add: gap_ops_def on_task_def m0 append_output_def Let_def append_log_def put_task_def AList.update_conv'
        get_output_snapshot_def get_task_def read_window_def utf8_def utf8_char_def)
qed

definition sample_files :: "(string \<times> disk_task) list" where
  "sample_files =
     [(''bash-00000000'', Current_Task \<lparr>bi_id = ''bash-00000000'', bi_kind = Process_Task, bi_description = ''build'',
        bi_status = Bg_Running, bi_detached = Some True, bi_started = 0, bi_ended = None, bi_reason = None,
        bi_suppressed = False, bi_timeout = None\<rparr>),
      (''agent-00000000'', Legacy_Task \<lparr>lt_id = ''agent-00000000'', lt_description = ''look'', lt_started = 0,
        lt_ended = Some 1, lt_status = Legacy_Failed, lt_timed_out = True, lt_reason = None, lt_timeout = None,
        lt_agent = None\<rparr>)]"

definition sample_crash :: bg_manager where
  "sample_crash = empty_manager\<lparr>bm_files := sample_files\<rparr>"

lemma sample_loaded:
  "files_ok (bm_files sample_crash)" "bm_disk_ok sample_crash"
  "filter (to_tell []) (loaded 5 (records sample_crash)) = loaded 5 (records sample_crash)"
  "map bi_status (map (lost 5) (filter (\<lambda>info. \<not> is_terminal (bi_status info))
     (map normalize_persisted (records sample_crash)))) = [Bg_Lost]"
  "map (\<lambda>p. case p of Origin_Background_Task i s n \<Rightarrow> s | _ \<Rightarrow> []) (map task_origin (loaded 5 (records sample_crash))) =
     [''lost'', ''timed_out'']"
  by (simp_all add: sample_crash_def empty_manager_def files_ok_def sample_files_def loaded_def to_tell_def legacy_to_info_def
      legacy_to_current_def task_origin_def is_terminal_def terminal_statuses_def)

theorem restart_tells_once_witness:
  "let m = resume_background 5 [] (restarted (Some 1) (Some ''s'') sample_crash);
       m' = resume_background 9 (loaded 5 (records sample_crash)) (restarted (Some 1) (Some ''s'') m)
   in map bi_status (ended_infos (bm_events m)) = [Bg_Lost] \<and>
     map (\<lambda>p. case p of Origin_Background_Task i s n \<Rightarrow> s | _ \<Rightarrow> []) (told_origins (bm_events m)) = [''lost'', ''timed_out''] \<and>
     ended_infos (bm_events m') = [] \<and> told_origins (bm_events m') = []"
  using restart_tells_once [OF sample_loaded(1,2) refl refl, of 5 "[]" "Some 1" "''s''" 9] sample_loaded(3-)
  by (simp add: Let_def)

text \<open>
  A record that cannot be rewritten stops a restart: the error is not caught, no end is announced and the agent
  is told of no task, not even of those that had ended.
\<close>

theorem failed_restart_tells_nothing:
  "let m = resume_background 5 [] (restarted (Some 1) (Some ''s'') (sample_crash\<lparr>bm_disk_ok := False\<rparr>))
   in map (bi_status \<circ> snd) (bm_ghosts m) = [Bg_Lost, Bg_Timed_Out] \<and>
     map (bi_status \<circ> normalize_persisted) (records m) = [Bg_Running, Bg_Timed_Out] \<and> bm_events m = []"
  by code_simp

end
