(* ===== verification/Plan_Tracker.thy ===== *)
theory Plan_Tracker
  imports Prelude
begin

text \<open>
  The plan tracker (\<open>agent/plan/tracker.ts\<close>, the tools \<open>plan-tracker.ts\<close> and \<open>get-plan-status.ts\<close>): the tasks
  of an approved plan, kept in a file beside the agent so that they outlive a compaction and a restart. The
  plan is read from its Markdown by regular expressions, written out here on the characters. The file holds
  what was last written, because \<open>JSON.parse\<close> gives back what \<open>JSON.stringify\<close> was given. Random identifiers and
  the outcome of a write are arguments.
\<close>

subsection \<open>Plans\<close>

datatype plan_status = Pl_Pending | Pl_In_Progress | Pl_Done | Pl_Blocked | Pl_Skipped

fun plan_status_text :: "plan_status \<Rightarrow> string" where
  "plan_status_text Pl_Pending = ''pending''"
| "plan_status_text Pl_In_Progress = ''in_progress''"
| "plan_status_text Pl_Done = ''done''"
| "plan_status_text Pl_Blocked = ''blocked''"
| "plan_status_text Pl_Skipped = ''skipped''"

record plan_task =
  pk_id :: string
  pk_title :: string
  pk_description :: "string option"
  pk_status :: plan_status
  pk_deps :: "string list"

record plan_data =
  pd_id :: string
  pd_title :: string
  pd_created :: string
  pd_tasks :: "plan_task list"
  pd_current :: "string option"

text \<open>The file: absent, the empty object written by \<open>clear\<close>, a plan, or what a torn write leaves.\<close>

datatype plan_file = No_Plan_File | Cleared_File | Saved_Plan plan_data | Torn_File

datatype write_outcome = Written | Not_Written | Torn_Write

record tracker =
  tr_data :: "plan_data option"
  tr_file :: plan_file
  tr_outcomes :: "(string \<times> string \<times> bool) list"

subsection \<open>Reading a plan\<close>

definition is_digit :: "char \<Rightarrow> bool" where
  "is_digit c \<longleftrightarrow> c \<in> set ''0123456789''"

text \<open>\<open>(?:[-*]|\d+\.)\<close> at the start of a line: what follows it.\<close>

definition skip_marker :: "string \<Rightarrow> string option" where
  "skip_marker s =
     (case s of
        [] \<Rightarrow> None
      | c # cs \<Rightarrow>
          if c = CHR ''-'' \<or> c = CHR ''*'' then Some cs
          else if is_digit c
          then (case dropWhile is_digit s of d # r \<Rightarrow> if d = CHR ''.'' then Some r else None | [] \<Rightarrow> None)
          else None)"

text \<open>\<open>\s+\<close>: it takes all it can, and what follows it never starts with a space.\<close>

definition skip_spaces :: "string \<Rightarrow> string option" where
  "skip_spaces s = (case s of c # cs \<Rightarrow> if is_js_space c then Some (trim_start cs) else None | [] \<Rightarrow> None)"

text \<open>\<open>(.*)$\<close> matches a rest without line breaks.\<close>

definition one_line :: "string \<Rightarrow> bool" where
  "one_line s \<longleftrightarrow> CHR 0x0A \<notin> set s \<and> CHR 0x0D \<notin> set s"

definition heading_text :: "string \<Rightarrow> string option" where
  "heading_text line =
     (let level = length (takeWhile (\<lambda>c. c = CHR ''#'') line)
      in if 2 \<le> level \<and> level \<le> 4 then map_option js_trim (skip_spaces (drop level line)) else None)"

definition checkbox_item :: "string \<Rightarrow> (char \<times> string) option" where
  "checkbox_item line =
     (case Option.bind (skip_marker line) skip_spaces of
        Some (a # check # b # r) \<Rightarrow>
          if a = CHR ''['' \<and> check \<in> set '' xX~'' \<and> b = CHR '']''
          then (case skip_spaces r of
                  Some title \<Rightarrow> if one_line title then Some (char_lower check, js_trim title) else None
                | None \<Rightarrow> None)
          else None
      | _ \<Rightarrow> None)"

definition plain_item :: "string \<Rightarrow> string option" where
  "plain_item line =
     (case Option.bind (skip_marker line) skip_spaces of
        Some title \<Rightarrow> if one_line title \<and> CHR ''['' \<notin> set line then Some (js_trim title) else None
      | None \<Rightarrow> None)"

definition check_status :: "char \<Rightarrow> plan_status" where
  "check_status check = (if check = CHR ''x'' then Pl_Done else if check = CHR ''~'' then Pl_Skipped else Pl_Pending)"

text \<open>\<open>task_${randomUUID()}\<close>.\<close>

definition task_id :: "string \<Rightarrow> string" where
  "task_id uuid = ''task_'' @ uuid"

definition plan_item :: "string \<Rightarrow> string \<Rightarrow> string \<Rightarrow> plan_status \<Rightarrow> plan_task" where
  "plan_item uuid heading title status =
     \<lparr>pk_id = task_id uuid, pk_title = title,
      pk_description = (if heading = [] then None else Some (''Group: '' @ heading)), pk_status = status, pk_deps = []\<rparr>"

fun plan_lines :: "(nat \<Rightarrow> string) \<Rightarrow> nat \<Rightarrow> string \<Rightarrow> string list \<Rightarrow> plan_task list" where
  "plan_lines uuids k heading [] = []"
| "plan_lines uuids k heading (raw # rest) =
     (let line = js_trim raw
      in if line = [] then plan_lines uuids k heading rest
         else case heading_text line of
           Some h \<Rightarrow> plan_lines uuids k h rest
         | None \<Rightarrow>
             (case checkbox_item line of
                Some (check, title) \<Rightarrow>
                  plan_item (uuids k) heading title (check_status check) # plan_lines uuids (Suc k) heading rest
              | None \<Rightarrow>
                  (case plain_item line of
                     Some title \<Rightarrow>
                       if 0 < length title \<and> length title < 200
                       then plan_item (uuids k) heading title Pl_Pending # plan_lines uuids (Suc k) heading rest
                       else plan_lines uuids k heading rest
                   | None \<Rightarrow> plan_lines uuids k heading rest)))"

definition parse_plan :: "(nat \<Rightarrow> string) \<Rightarrow> string \<Rightarrow> plan_task list" where
  "parse_plan uuids text' = plan_lines uuids 0 [] (split_on (CHR 0x0A) text')"

subsection \<open>Operations\<close>

definition resolved_task :: "plan_task \<Rightarrow> bool" where
  "resolved_task t \<longleftrightarrow> pk_status t = Pl_Done \<or> pk_status t = Pl_Skipped"

definition deps_met :: "plan_task list \<Rightarrow> plan_task \<Rightarrow> bool" where
  "deps_met tasks t \<longleftrightarrow> list_all (\<lambda>d. list_ex (\<lambda>u. pk_id u = d \<and> resolved_task u) tasks) (pk_deps t)"

fun next_pending_in :: "plan_task list \<Rightarrow> plan_task list \<Rightarrow> plan_task option" where
  "next_pending_in tasks [] = None"
| "next_pending_in tasks (t # ts) =
     (if pk_status t = Pl_Pending
      then if pk_deps t \<noteq> [] \<and> \<not> deps_met tasks t then next_pending_in tasks ts else Some t
      else next_pending_in tasks ts)"

definition find_next_pending :: "plan_task list \<Rightarrow> plan_task option" where
  "find_next_pending tasks = next_pending_in tasks tasks"

definition current_task :: "tracker \<Rightarrow> plan_task option" where
  "current_task t =
     (case tr_data t of
        None \<Rightarrow> None
      | Some d \<Rightarrow> (case pd_current d of None \<Rightarrow> None | Some i \<Rightarrow> find (\<lambda>u. pk_id u = i) (pd_tasks d)))"

definition load_tracker :: "tracker \<Rightarrow> tracker" where
  "load_tracker t = (case tr_file t of Saved_Plan d \<Rightarrow> t\<lparr>tr_data := Some d\<rparr> | _ \<Rightarrow> t)"

definition write_plan_file :: "write_outcome \<Rightarrow> plan_file \<Rightarrow> tracker \<Rightarrow> tracker" where
  "write_plan_file w content t =
     (case w of Written \<Rightarrow> t\<lparr>tr_file := content\<rparr> | Not_Written \<Rightarrow> t | Torn_Write \<Rightarrow> t\<lparr>tr_file := Torn_File\<rparr>)"

definition save_tracker :: "write_outcome \<Rightarrow> tracker \<Rightarrow> tracker" where
  "save_tracker w t = (case tr_data t of None \<Rightarrow> t | Some d \<Rightarrow> write_plan_file w (Saved_Plan d) t)"

definition initialize_from_plan ::
    "string \<Rightarrow> (nat \<Rightarrow> string) \<Rightarrow> string \<Rightarrow> write_outcome \<Rightarrow> string \<Rightarrow> string \<Rightarrow> tracker \<Rightarrow> tracker" where
  "initialize_from_plan now uuids plan_uuid w text' title t =
     (let tasks = parse_plan uuids text'
      in save_tracker w (t\<lparr>tr_data := Some
           \<lparr>pd_id = ''plan_'' @ plan_uuid, pd_title = (if title = [] then ''Approved Plan'' else title), pd_created = now,
            pd_tasks = tasks, pd_current = map_option pk_id (find (\<lambda>u. pk_status u = Pl_Pending) tasks)\<rparr>\<rparr>))"

definition clear_tracker :: "write_outcome \<Rightarrow> tracker \<Rightarrow> tracker" where
  "clear_tracker w t = write_plan_file w Cleared_File (t\<lparr>tr_data := None\<rparr>)"

definition update_task_status :: "string \<Rightarrow> plan_status \<Rightarrow> tracker \<Rightarrow> tracker" where
  "update_task_status i status t =
     (case tr_data t of
        None \<Rightarrow> t
      | Some d \<Rightarrow>
          (case find (\<lambda>u. pk_id u = i) (pd_tasks d) of
             None \<Rightarrow> t
           | Some task \<Rightarrow>
               let updated = map (\<lambda>u. if pk_id u = i then u\<lparr>pk_status := status\<rparr> else u) (pd_tasks d);
                   d1 = d\<lparr>pd_tasks := updated\<rparr>;
                   outcomes = (if status = Pl_Done \<or> status = Pl_Skipped
                     then tr_outcomes t @ [(pk_title task, pd_id d, status = Pl_Done)] else tr_outcomes t);
                   d2 = (if status = Pl_Done \<and> pd_current d1 = Some i
                     then d1\<lparr>pd_current := map_option pk_id (find_next_pending updated)\<rparr> else d1)
               in t\<lparr>tr_data := Some d2, tr_outcomes := outcomes\<rparr>))"

text \<open>An inactive tracker throws.\<close>

definition add_plan_task :: "string \<Rightarrow> string \<Rightarrow> string option \<Rightarrow> string list \<Rightarrow> tracker \<Rightarrow> tracker \<times> (string + string)" where
  "add_plan_task uuid title description deps t =
     (case tr_data t of
        None \<Rightarrow> (t, Inl ''PlanTracker is not active'')
      | Some d \<Rightarrow>
          let i = task_id uuid
          in (t\<lparr>tr_data := Some (d\<lparr>pd_tasks := pd_tasks d @
                [\<lparr>pk_id = i, pk_title = title, pk_description = description, pk_status = Pl_Pending, pk_deps = deps\<rparr>]\<rparr>)\<rparr>,
              Inr i))"

definition remove_plan_task :: "string \<Rightarrow> tracker \<Rightarrow> tracker" where
  "remove_plan_task i t =
     (case tr_data t of
        None \<Rightarrow> t
      | Some d \<Rightarrow> t\<lparr>tr_data := Some (d\<lparr>pd_tasks := filter (\<lambda>u. pk_id u \<noteq> i) (pd_tasks d),
                     pd_current := (if pd_current d = Some i then None else pd_current d)\<rparr>)\<rparr>)"

definition set_current_task :: "string \<Rightarrow> tracker \<Rightarrow> tracker" where
  "set_current_task i t =
     (case tr_data t of
        None \<Rightarrow> t
      | Some d \<Rightarrow> if list_ex (\<lambda>u. pk_id u = i) (pd_tasks d) then t\<lparr>tr_data := Some (d\<lparr>pd_current := Some i\<rparr>)\<rparr> else t)"

definition is_complete :: "tracker \<Rightarrow> bool" where
  "is_complete t = (case tr_data t of None \<Rightarrow> False | Some d \<Rightarrow> list_all resolved_task (pd_tasks d))"

subsection \<open>What is shown\<close>

definition new_line :: string where
  "new_line = [CHR 0x0A]"

definition status_count :: "plan_status \<Rightarrow> plan_task list \<Rightarrow> nat" where
  "status_count s ts = length (filter (\<lambda>t. pk_status t = s) ts)"

definition some_of :: "nat \<Rightarrow> string \<Rightarrow> string" where
  "some_of n what = (if n > 0 then '', '' @ nat_to_string n @ what else [])"

definition dep_note :: "string \<Rightarrow> plan_task \<Rightarrow> string" where
  "dep_note lead t = (if pk_deps t = [] then [] else lead @ join_with '', '' (pk_deps t) @ '')'')"

definition remaining_line :: "plan_task \<Rightarrow> string" where
  "remaining_line u = ''  - ['' @ plan_status_text (pk_status u) @ ''] '' @ pk_title u @ dep_note '' (depends on: '' u"

definition summary_text :: "tracker \<Rightarrow> string" where
  "summary_text t =
     (case tr_data t of
        None \<Rightarrow> []
      | Some d \<Rightarrow>
          let complete = is_complete t; ts = pd_tasks d;
              remaining = filter (\<lambda>u. pk_status u = Pl_Pending \<or> pk_status u = Pl_In_Progress \<or> pk_status u = Pl_Blocked) ts
          in join_with new_line
            ([''## Plan: '' @ pd_title d @ (if complete then '' (COMPLETE)'' else []),
              ''Progress: '' @ nat_to_string (status_count Pl_Done ts) @ ''/'' @ nat_to_string (length ts) @ '' done'' @
                some_of (status_count Pl_In_Progress ts) '' in progress'' @ some_of (status_count Pl_Blocked ts) '' blocked'' @
                some_of (status_count Pl_Pending ts) '' pending'' @ (if complete then '' - no remaining tasks'' else [])] @
             (if complete then []
              else case Option.bind (pd_current d) (\<lambda>i. find (\<lambda>u. pk_id u = i) ts) of
                None \<Rightarrow> []
              | Some c \<Rightarrow>
                  (new_line @ ''Current task: ['' @ plan_status_text (pk_status c) @ ''] '' @ pk_title c) #
                  (case pk_description c of None \<Rightarrow> [] | Some s \<Rightarrow> if s = [] then [] else [s])) @
             (if remaining = [] then []
              else (new_line @ ''Remaining tasks:'') #
                map remaining_line remaining)))"

text \<open>\<open>GetPlanStatus\<close> reads the file. The arrow and the tick of the code are written \<open>->\<close> and \<open>v\<close>.\<close>

definition report_line :: "string option \<Rightarrow> plan_task \<Rightarrow> string" where
  "report_line current u =
     (if Some (pk_id u) = current then ''-> '' else if pk_status u = Pl_Done then ''v ''
      else if pk_status u = Pl_Blocked then ''! '' else ''  '') @
     ''['' @ plan_status_text (pk_status u) @ ''] '' @ pk_title u @ dep_note '' (depends: '' u"

definition plan_status_report :: "string \<Rightarrow> plan_file \<Rightarrow> string" where
  "plan_status_report parse_error content =
     (case content of
        No_Plan_File \<Rightarrow> ''No plan tracker file found. No plan has been approved yet.''
      | Torn_File \<Rightarrow> ''Error reading plan: '' @ parse_error
      | Cleared_File \<Rightarrow> ''No active plan found.''
      | Saved_Plan d \<Rightarrow>
          if pd_id d = [] then ''No active plan found.''
          else
            let ts = pd_tasks d; n = (\<lambda>s. nat_to_string (status_count s ts))
            in join_with new_line
              ([''Plan: '' @ (if pd_title d = [] then ''Untitled Plan'' else pd_title d), ''ID: '' @ pd_id d,
                ''Progress: '' @ n Pl_Done @ ''/'' @ nat_to_string (length ts) @ '' done, '' @ n Pl_In_Progress @ '' in progress, '' @
                  n Pl_Blocked @ '' blocked, '' @ n Pl_Pending @ '' pending, '' @ n Pl_Skipped @ '' skipped'', []] @
               (case pd_current d of
                  None \<Rightarrow> []
                | Some i \<Rightarrow>
                    if i = [] then []
                    else (case find (\<lambda>u. pk_id u = i) ts of
                        None \<Rightarrow> []
                      | Some c \<Rightarrow>
                          [''Current task: ['' @ plan_status_text (pk_status c) @ ''] '' @ pk_title c] @
                          (case pk_description c of None \<Rightarrow> [] | Some s \<Rightarrow> if s = [] then [] else [s]) @ [[]])) @
               [''All tasks:''] @
               map (report_line (pd_current d)) ts))"

subsection \<open>The tool\<close>

datatype tracker_action = Update_Status | Add_Task | Remove_Task | Set_Current | Query

record tracker_args =
  ta_action :: tracker_action
  ta_task :: "string option"
  ta_status :: "plan_status option"
  ta_title :: "string option"
  ta_description :: "string option"
  ta_deps :: "string list"

definition file_stem :: "string \<Rightarrow> string" where
  "file_stem path =
     (let base = last (split_on (CHR ''/'') path)
      in if ends_with base ''.md'' then take (length base - 3) base else base)"

text \<open>
  What the tool and leaving plan mode are given: the moment, random identifiers, how the writes go, and the plan
  file with its path when plan mode is active and the file could be read.
\<close>

record tracker_env =
  te_now :: string
  te_uuids :: "nat \<Rightarrow> string"
  te_plan_uuid :: string
  te_uuid :: string
  te_write :: write_outcome
  te_plan :: "(string \<times> string) option"

definition auto_initialize :: "tracker_env \<Rightarrow> tracker \<Rightarrow> tracker" where
  "auto_initialize env t =
     (if tr_data t \<noteq> None then t
      else case te_plan env of
        None \<Rightarrow> t
      | Some (content, path) \<Rightarrow>
          if js_trim content = [] then t
          else initialize_from_plan (te_now env) (te_uuids env) (te_plan_uuid env) (te_write env) content
                 (if path = [] then ''Plan'' else file_stem path) t)"

definition given :: "string option \<Rightarrow> string option" where
  "given v = (case v of Some s \<Rightarrow> if s = [] then None else Some s | None \<Rightarrow> None)"

definition tool_answer :: "string \<Rightarrow> tracker \<Rightarrow> string" where
  "tool_answer said t = said @ new_line @ new_line @ summary_text t"

fun run_action :: "tracker_env \<Rightarrow> tracker_args \<Rightarrow> tracker_action \<Rightarrow> tracker \<Rightarrow> tracker \<times> (string + string)" where
  "run_action env args Query t = (t, Inr (summary_text t))"
| "run_action env args Update_Status t =
     (case (given (ta_task args), ta_status args) of
        (Some i, Some s) \<Rightarrow>
          let t1 = save_tracker (te_write env) (update_task_status i s t)
          in (t1, Inr (tool_answer (''Task '' @ i @ '' updated to '' @ plan_status_text s @ ''.'') t1))
      | _ \<Rightarrow> (t, Inl ''update_status requires taskId and status.''))"
| "run_action env args Add_Task t =
     (case given (ta_title args) of
        None \<Rightarrow> (t, Inl ''add_task requires title.'')
      | Some title \<Rightarrow>
          (case add_plan_task (te_uuid env) title (ta_description args) (ta_deps args) t of
             (t1, Inl e) \<Rightarrow> (t1, Inl e)
           | (t1, Inr i) \<Rightarrow>
               let t2 = save_tracker (te_write env) t1
               in (t2, Inr (tool_answer (''Added task '' @ i @ '': '' @ title) t2))))"
| "run_action env args Remove_Task t =
     (case given (ta_task args) of
        None \<Rightarrow> (t, Inl ''remove_task requires taskId.'')
      | Some i \<Rightarrow>
          let t1 = save_tracker (te_write env) (remove_plan_task i t)
          in (t1, Inr (tool_answer (''Removed task '' @ i @ ''.'') t1)))"
| "run_action env args Set_Current t =
     (case given (ta_task args) of
        None \<Rightarrow> (t, Inl ''set_current requires taskId.'')
      | Some i \<Rightarrow>
          let t1 = save_tracker (te_write env) (set_current_task i t)
          in (t1, Inr (tool_answer (''Current task set to '' @ i @ ''.'') t1)))"

definition tracker_tool :: "tracker_env \<Rightarrow> tracker_args \<Rightarrow> tracker \<Rightarrow> tracker \<times> (string + string)" where
  "tracker_tool env args t =
     (let t1 = auto_initialize env t
      in if tr_data t1 = None
         then (t1, Inl ''No active plan tracker. A plan must be approved via ExitPlanMode before tasks can be tracked.'')
         else run_action env args (ta_action args) t1)"

subsection \<open>Sessions\<close>

text \<open>Entering and cancelling plan mode clear the tracker, leaving it with an approved plan starts a new one.\<close>

datatype tracker_op =
    Op_Enter_Plan write_outcome
  | Op_Cancel_Plan write_outcome
  | Op_Exit_Plan tracker_env
  | Op_Tool tracker_env tracker_args
  | Op_Restart

fun tracker_step :: "tracker \<Rightarrow> tracker_op \<Rightarrow> tracker" where
  "tracker_step t (Op_Enter_Plan w) = clear_tracker w t"
| "tracker_step t (Op_Cancel_Plan w) = clear_tracker w t"
| "tracker_step t (Op_Exit_Plan env) =
     (case te_plan env of
        None \<Rightarrow> t
      | Some (content, path) \<Rightarrow>
          if js_trim content = [] then t
          else initialize_from_plan (te_now env) (te_uuids env) (te_plan_uuid env) (te_write env) content
                 (if path = [] then ''Plan'' else file_stem path) t)"
| "tracker_step t (Op_Tool env args) = fst (tracker_tool env args t)"
| "tracker_step t Op_Restart = load_tracker (t\<lparr>tr_data := None\<rparr>)"

subsection \<open>A plan stays well formed\<close>

definition task_ids :: "plan_data \<Rightarrow> string list" where
  "task_ids d = map pk_id (pd_tasks d)"

definition plan_ok :: "plan_data \<Rightarrow> bool" where
  "plan_ok d \<longleftrightarrow> distinct (task_ids d) \<and> (\<forall>i. pd_current d = Some i \<longrightarrow> i \<in> set (task_ids d))"

definition tracker_ok :: "tracker \<Rightarrow> bool" where
  "tracker_ok t \<longleftrightarrow> (\<forall>d. tr_data t = Some d \<or> tr_file t = Saved_Plan d \<longrightarrow> plan_ok d)"

text \<open>Random identifiers are new: those of one plan differ, and the one of an added task is not in use.\<close>

definition new_ids :: "tracker_env \<Rightarrow> tracker \<Rightarrow> bool" where
  "new_ids env t \<longleftrightarrow> inj (te_uuids env) \<and> te_uuid env \<notin> range (te_uuids env) \<and>
     (\<forall>d. tr_data t = Some d \<longrightarrow> task_id (te_uuid env) \<notin> set (task_ids d))"

fun new_op :: "tracker \<Rightarrow> tracker_op \<Rightarrow> bool" where
  "new_op t (Op_Exit_Plan env) = inj (te_uuids env)"
| "new_op t (Op_Tool env args) = new_ids env t"
| "new_op t op = True"

fun new_ops :: "tracker \<Rightarrow> tracker_op list \<Rightarrow> bool" where
  "new_ops t [] = True"
| "new_ops t (op # ops) = (new_op t op \<and> new_ops (tracker_step t op) ops)"

lemma task_id_eq [simp]: "task_id a = task_id b \<longleftrightarrow> a = b"
  by (simp add: task_id_def)

lemma plan_lines_ids:
  "map pk_id (plan_lines uuids k h ls) =
   map (\<lambda>n. task_id (uuids (k + n))) [0..<length (plan_lines uuids k h ls)]"
proof (induction ls arbitrary: k h)
  case (Cons l ls)
  show ?case
    using Cons.IH by (auto simp: Let_def plan_item_def map_upt_Suc simp del: upt_Suc split: option.split)
qed simp

lemma parsed_distinct: "inj uuids \<Longrightarrow> distinct (map pk_id (parse_plan uuids text'))"
  unfolding parse_plan_def plan_lines_ids by (auto simp: distinct_map intro!: inj_onI dest: injD)

lemma parsed_ids: "i \<in> pk_id ` set (parse_plan uuids text') \<Longrightarrow> \<exists>n. i = task_id (uuids n)"
proof -
  assume "i \<in> pk_id ` set (parse_plan uuids text')"
  then have "i \<in> set (map pk_id (parse_plan uuids text'))"
    by simp
  then show ?thesis
    unfolding parse_plan_def plan_lines_ids by auto
qed

lemma find_in: "find P xs = Some x \<Longrightarrow> x \<in> set xs \<and> P x"
  by (induction xs) (auto split: if_splits)

lemma next_pending_in: "next_pending_in ts us = Some u \<Longrightarrow> u \<in> set us \<and> pk_status u = Pl_Pending \<and> deps_met ts u"
  by (induction us) (auto simp: deps_met_def split: if_splits)

lemma writes_data [simp]: "tr_data (write_plan_file w c t) = tr_data t" "tr_data (save_tracker w t) = tr_data t"
  by (simp_all add: write_plan_file_def save_tracker_def split: write_outcome.split option.split)

lemma saves_file: "tr_file (save_tracker w t) = Saved_Plan d \<Longrightarrow> tr_data t = Some d \<or> tr_file t = Saved_Plan d"
  by (auto simp: write_plan_file_def save_tracker_def split: write_outcome.splits option.splits)

lemma save_ok: "tracker_ok t \<Longrightarrow> tracker_ok (save_tracker w t)"
  unfolding tracker_ok_def using saves_file by fastforce

lemma clear_ok: "tracker_ok t \<Longrightarrow> tracker_ok (clear_tracker w t)"
  by (auto simp: tracker_ok_def clear_tracker_def write_plan_file_def split: write_outcome.splits)

lemma initialize_ok:
  "tracker_ok t \<Longrightarrow> inj uuids \<Longrightarrow> tracker_ok (initialize_from_plan now uuids p w text' title t)"
  unfolding initialize_from_plan_def Let_def
  by (rule save_ok) (auto simp: tracker_ok_def plan_ok_def task_ids_def parsed_distinct dest: find_in)

lemma update_ok: "tracker_ok t \<Longrightarrow> tracker_ok (update_task_status i s t)"
proof -
  assume ok: "tracker_ok t"
  define f where "f = (\<lambda>u :: plan_task. if pk_id u = i then u\<lparr>pk_status := s\<rparr> else u)"
  have f1 [simp]: "pk_id (f u) = pk_id u" for u
    by (simp add: f_def)
  have next_id: "find_next_pending (map f us) = Some u \<Longrightarrow> pk_id u \<in> pk_id ` set us" for u us
    unfolding find_next_pending_def by (auto dest!: next_pending_in)
  have kept: "plan_ok d \<Longrightarrow> plan_ok (d\<lparr>pd_tasks := map f (pd_tasks d)\<rparr>)"
    "plan_ok d \<Longrightarrow> plan_ok (d\<lparr>pd_tasks := map f (pd_tasks d), pd_current := map_option pk_id (find_next_pending (map f (pd_tasks d)))\<rparr>)" for d
    using next_id by (auto simp: plan_ok_def task_ids_def o_def image_image)
  show ?thesis
    using ok kept unfolding update_task_status_def Let_def f_def [symmetric]
    by (auto simp: tracker_ok_def split: option.splits)
qed

lemma add_ok:
  "tracker_ok t \<Longrightarrow> (\<And>d. tr_data t = Some d \<Longrightarrow> task_id uuid \<notin> set (task_ids d)) \<Longrightarrow>
   tracker_ok (fst (add_plan_task uuid title desc deps t))"
  by (fastforce simp: tracker_ok_def add_plan_task_def plan_ok_def task_ids_def Let_def split: option.splits)

lemma remove_ok: "tracker_ok t \<Longrightarrow> tracker_ok (remove_plan_task i t)"
  by (fastforce simp: tracker_ok_def remove_plan_task_def plan_ok_def task_ids_def distinct_map_filter split: option.splits)

lemma set_current_ok: "tracker_ok t \<Longrightarrow> tracker_ok (set_current_task i t)"
  by (auto simp: tracker_ok_def set_current_task_def plan_ok_def task_ids_def list_ex_iff split: option.splits)

lemma auto_initialize_ok: "tracker_ok t \<Longrightarrow> inj (te_uuids env) \<Longrightarrow> tracker_ok (auto_initialize env t)"
  by (simp add: auto_initialize_def initialize_ok split: option.split)

lemma auto_initialize_new:
  "new_ids env t \<Longrightarrow> tr_data (auto_initialize env t) = Some d \<Longrightarrow> task_id (te_uuid env) \<notin> set (task_ids d)"
  by (auto simp: auto_initialize_def initialize_from_plan_def Let_def new_ids_def task_ids_def
      dest!: parsed_ids [OF image_eqI] split: if_splits option.splits)

lemma action_ok:
  assumes "tracker_ok t" "\<And>d. tr_data t = Some d \<Longrightarrow> task_id (te_uuid env) \<notin> set (task_ids d)"
  shows "tracker_ok (fst (run_action env args a t))"
proof (cases a)
  case Add_Task
  show ?thesis
  proof (cases "given (ta_title args)")
    case (Some title)
    obtain t1 r where r: "add_plan_task (te_uuid env) title (ta_description args) (ta_deps args) t = (t1, r)"
      by fastforce
    then have "tracker_ok t1"
      using add_ok [OF assms, of title "ta_description args" "ta_deps args"] by simp
    then show ?thesis
      using Some r by (cases r) (simp_all add: Add_Task Let_def save_ok)
  qed (use assms(1) in \<open>simp add: Add_Task\<close>)
next
  case Update_Status
  then show ?thesis
    using assms(1) by (cases "given (ta_task args)"; cases "ta_status args") (simp_all add: Let_def save_ok update_ok)
next
  case Remove_Task
  then show ?thesis
    using assms(1) by (cases "given (ta_task args)") (simp_all add: Let_def save_ok remove_ok)
next
  case Set_Current
  then show ?thesis
    using assms(1) by (cases "given (ta_task args)") (simp_all add: Let_def save_ok set_current_ok)
qed (use assms(1) in simp)

lemma tracker_step_ok: "tracker_ok t \<Longrightarrow> new_op t op \<Longrightarrow> tracker_ok (tracker_step t op)"
proof (cases op)
  case (Op_Tool env args)
  assume ok: "tracker_ok t" and new: "new_op t op"
  then have "tracker_ok (auto_initialize env t)"
    using Op_Tool by (simp add: auto_initialize_ok new_ids_def)
  moreover have "tracker_ok (fst (run_action env args (ta_action args) (auto_initialize env t)))"
    using calculation action_ok auto_initialize_new new Op_Tool by simp
  ultimately show ?thesis
    by (simp add: Op_Tool tracker_tool_def Let_def del: run_action.simps)
next
  case Op_Restart
  assume "tracker_ok t"
  then show ?thesis
    using Op_Restart by (auto simp: tracker_ok_def load_tracker_def split: plan_file.split)
qed (auto intro: clear_ok initialize_ok split: option.split)

lemma tracker_session_ok: "tracker_ok t \<Longrightarrow> new_ops t ops \<Longrightarrow> tracker_ok (foldl tracker_step t ops)"
  by (induction ops arbitrary: t) (auto intro: tracker_step_ok)

definition empty_tracker :: tracker where
  "empty_tracker = \<lparr>tr_data = None, tr_file = No_Plan_File, tr_outcomes = []\<rparr>"

text \<open>
  In every session, restarts and failing writes included, the tasks of the tracked plan have different
  identifiers, and the current one is a task of the plan; so it is for what the file holds.
\<close>

theorem plan_tracker_well_formed:
  assumes "new_ops empty_tracker ops"
  shows "\<forall>d. tr_data (foldl tracker_step empty_tracker ops) = Some d \<or>
      tr_file (foldl tracker_step empty_tracker ops) = Saved_Plan d \<longrightarrow>
    distinct (map pk_id (pd_tasks d)) \<and>
    (\<forall>i. pd_current d = Some i \<longrightarrow> (\<exists>!u. u \<in> set (pd_tasks d) \<and> pk_id u = i))"
proof -
  have ex1: "\<exists>!u. u \<in> set us \<and> pk_id u = i" if "distinct (map pk_id us)" "i \<in> pk_id ` set us" for us :: "plan_task list" and i
    using that unfolding distinct_map by (blast dest: inj_onD)
  have shape: "distinct (map pk_id (pd_tasks d)) \<and>
      (\<forall>i. pd_current d = Some i \<longrightarrow> (\<exists>!u. u \<in> set (pd_tasks d) \<and> pk_id u = i))" if "plan_ok d" for d
    using that ex1 [of "pd_tasks d"] by (simp add: plan_ok_def task_ids_def)
  have "tracker_ok (foldl tracker_step empty_tracker ops)"
    using tracker_session_ok [OF _ assms] by (simp add: tracker_ok_def empty_tracker_def)
  then show ?thesis
    using shape unfolding tracker_ok_def by blast
qed

subsection \<open>A plan outlives the process\<close>

definition in_step :: "tracker \<Rightarrow> bool" where
  "in_step t \<longleftrightarrow> (case tr_data t of Some d \<Rightarrow> tr_file t = Saved_Plan d | None \<Rightarrow> \<forall>d. tr_file t \<noteq> Saved_Plan d)"

fun written_op :: "tracker_op \<Rightarrow> bool" where
  "written_op (Op_Enter_Plan w) = (w = Written)"
| "written_op (Op_Cancel_Plan w) = (w = Written)"
| "written_op (Op_Exit_Plan env) = (te_write env = Written)"
| "written_op (Op_Tool env args) = (te_write env = Written)"
| "written_op Op_Restart = True"

lemma save_in_step: "tr_data t \<noteq> None \<Longrightarrow> in_step (save_tracker Written t)"
  by (auto simp: in_step_def save_tracker_def write_plan_file_def)

lemma initialize_in_step: "in_step (initialize_from_plan now uuids p Written c title t)"
  by (simp add: initialize_from_plan_def Let_def save_in_step)

lemma keeps_active:
  "tr_data t \<noteq> None \<Longrightarrow> tr_data (update_task_status i s t) \<noteq> None"
  "tr_data t \<noteq> None \<Longrightarrow> tr_data (remove_plan_task i t) \<noteq> None"
  "tr_data t \<noteq> None \<Longrightarrow> tr_data (set_current_task i t) \<noteq> None"
  by (auto simp: update_task_status_def remove_plan_task_def set_current_task_def Let_def split: option.split)

lemma action_in_step:
  assumes "in_step t" "tr_data t \<noteq> None" "te_write env = Written"
  shows "in_step (fst (run_action env args a t))"
proof (cases a)
  case Update_Status
  then show ?thesis
    using assms by (cases "given (ta_task args)"; cases "ta_status args") (simp_all add: Let_def save_in_step keeps_active)
next
  case Add_Task
  then show ?thesis
    using assms by (cases "given (ta_title args)") (auto simp: Let_def add_plan_task_def intro!: save_in_step)
next
  case Remove_Task
  then show ?thesis
    using assms by (cases "given (ta_task args)") (simp_all add: Let_def save_in_step keeps_active)
next
  case Set_Current
  then show ?thesis
    using assms by (cases "given (ta_task args)") (simp_all add: Let_def save_in_step keeps_active)
qed (use assms in simp)

lemma step_in_step: "in_step t \<Longrightarrow> written_op op \<Longrightarrow> in_step (tracker_step t op)"
proof (cases op)
  case (Op_Tool env args)
  assume t: "in_step t" and w: "written_op op"
  then have "in_step (auto_initialize env t)"
    using Op_Tool by (simp add: auto_initialize_def initialize_in_step split: option.split)
  then have "tr_data (auto_initialize env t) \<noteq> None \<Longrightarrow>
      in_step (fst (run_action env args (ta_action args) (auto_initialize env t)))"
    using action_in_step w Op_Tool by simp
  with \<open>in_step (auto_initialize env t)\<close> show ?thesis
    by (simp add: Op_Tool tracker_tool_def Let_def del: run_action.simps)
next
  case (Op_Exit_Plan env)
  assume "in_step t" "written_op op"
  then show ?thesis
    using Op_Exit_Plan by (simp add: initialize_in_step split: option.split)
next
  case Op_Restart
  assume "in_step t"
  then show ?thesis
    using Op_Restart by (auto simp: in_step_def load_tracker_def split: option.splits plan_file.split)
qed (simp_all add: in_step_def clear_tracker_def write_plan_file_def)

text \<open>
  When every write of the file succeeds, a restart at any moment of a session finds the plan as it was left,
  with its tasks, their states and the current one, and finds none when none was tracked.
\<close>

theorem plan_survives_restart:
  assumes "list_all written_op ops"
  shows "tr_data (tracker_step (foldl tracker_step empty_tracker ops) Op_Restart) =
    tr_data (foldl tracker_step empty_tracker ops)"
proof -
  have "in_step (foldl tracker_step t ops)" if "in_step t" for t
    using that assms by (induction ops arbitrary: t) (simp_all add: step_in_step)
  then have "in_step (foldl tracker_step empty_tracker ops)"
    by (simp add: in_step_def empty_tracker_def)
  then show ?thesis
    by (auto simp: in_step_def load_tracker_def split: option.splits plan_file.split)
qed

subsection \<open>Advancing\<close>

definition ready :: "plan_task list \<Rightarrow> plan_task \<Rightarrow> bool" where
  "ready ts u \<longleftrightarrow> pk_status u = Pl_Pending \<and>
     (\<forall>d\<in>set (pk_deps u). \<exists>v\<in>set ts. pk_id v = d \<and> (pk_status v = Pl_Done \<or> pk_status v = Pl_Skipped))"

lemma next_pending_first:
  "next_pending_in ts us =
     (case find_index (ready ts) us of None \<Rightarrow> None | Some k \<Rightarrow> Some (us ! k))"
  by (induction us) (auto simp: ready_def deps_met_def list_all_iff list_ex_iff resolved_task_def split: option.split)

text \<open>
  When the current task is marked done, the next current task is the first pending one whose dependencies are
  all done or skipped, and there is none exactly when no pending task is ready; the outcome is recorded once.
\<close>

theorem done_advances_to_first_ready:
  assumes "tr_data t = Some d" "pd_current d = Some i" "find (\<lambda>u. pk_id u = i) (pd_tasks d) = Some task"
  shows "\<exists>d'. tr_data (update_task_status i Pl_Done t) = Some d' \<and>
    pd_tasks d' = map (\<lambda>u. if pk_id u = i then u\<lparr>pk_status := Pl_Done\<rparr> else u) (pd_tasks d) \<and>
    (case pd_current d' of
       None \<Rightarrow> \<forall>u\<in>set (pd_tasks d'). \<not> ready (pd_tasks d') u
     | Some j \<Rightarrow> \<exists>k<length (pd_tasks d'). pk_id (pd_tasks d' ! k) = j \<and> ready (pd_tasks d') (pd_tasks d' ! k) \<and>
         (\<forall>k'<k. \<not> ready (pd_tasks d') (pd_tasks d' ! k'))) \<and>
    tr_outcomes (update_task_status i Pl_Done t) = tr_outcomes t @ [(pk_title task, pd_id d, True)]"
  using assms
  by (auto simp: update_task_status_def find_next_pending_def next_pending_first Let_def find_index_None
      dest!: find_index_Some split: option.split)

subsection \<open>What the model cannot know\<close>

definition rename_tasks :: "(string \<Rightarrow> string) \<Rightarrow> plan_data \<Rightarrow> plan_data" where
  "rename_tasks f d = d\<lparr>pd_tasks := map (\<lambda>u. u\<lparr>pk_id := f (pk_id u)\<rparr>) (pd_tasks d), pd_current := map_option f (pd_current d)\<rparr>"

lemma find_map: "find P (map g xs) = map_option g (find (P \<circ> g) xs)"
  by (induction xs) simp_all

lemma rename_current:
  "inj f \<Longrightarrow> find (\<lambda>u. pk_id u = f i) (map (\<lambda>u. u\<lparr>pk_id := f (pk_id u)\<rparr>) us) =
     map_option (\<lambda>u. u\<lparr>pk_id := f (pk_id u)\<rparr>) (find (\<lambda>u. pk_id u = i) us)" for us :: "plan_task list"
  by (simp add: find_map o_def inj_eq)

lemma rename_counts: "status_count s (map (\<lambda>u. u\<lparr>pk_id := f (pk_id u)\<rparr>) us) = status_count s us"
  by (simp add: status_count_def filter_map o_def)

lemma rename_resolved [simp]: "resolved_task (u\<lparr>pk_id := x\<rparr>) = resolved_task u"
  by (simp add: resolved_task_def)

lemma parsed_no_deps: "u \<in> set (plan_lines uuids k h ls) \<Longrightarrow> pk_deps u = []"
  by (induction ls arbitrary: k h) (auto simp: Let_def plan_item_def split: option.splits if_splits)

lemma rename_dep_note:
  "pk_deps u = [] \<Longrightarrow> dep_note lead (u\<lparr>pk_id := x\<rparr>) = dep_note lead u"
  by (simp add: dep_note_def)

text \<open>
  The tool and the reminders never show the identifiers that the tool asks for. Tasks read from a plan have no
  dependencies, and for such tasks neither the summary nor the report of the file changes when every
  identifier is replaced by another one, whatever the states and the current task.
\<close>

theorem summary_hides_ids:
  assumes "inj f" "\<forall>i. f i \<noteq> []" "pd_current d \<noteq> Some []" "\<forall>u\<in>set (pd_tasks d). pk_deps u = []"
  shows "summary_text (t\<lparr>tr_data := Some (rename_tasks f d)\<rparr>) = summary_text (t\<lparr>tr_data := Some d\<rparr>) \<and>
    plan_status_report e (Saved_Plan (rename_tasks f d)) = plan_status_report e (Saved_Plan d) \<and>
    (\<forall>u\<in>set (parse_plan uuids text'). pk_deps u = [])"
proof (intro conjI ballI)
  have bind: "Option.bind (map_option f (pd_current d)) (\<lambda>i. find (\<lambda>u. pk_id u = i) (map (\<lambda>u. u\<lparr>pk_id := f (pk_id u)\<rparr>) (pd_tasks d))) =
    map_option (\<lambda>u. u\<lparr>pk_id := f (pk_id u)\<rparr>) (Option.bind (pd_current d) (\<lambda>i. find (\<lambda>u. pk_id u = i) (pd_tasks d)))"
    by (cases "pd_current d") (simp_all add: rename_current [OF assms(1)])
  have rest: "filter (\<lambda>u. pk_status u = Pl_Pending \<or> pk_status u = Pl_In_Progress \<or> pk_status u = Pl_Blocked)
      (map (\<lambda>u. u\<lparr>pk_id := f (pk_id u)\<rparr>) (pd_tasks d)) =
    map (\<lambda>u. u\<lparr>pk_id := f (pk_id u)\<rparr>)
      (filter (\<lambda>u. pk_status u = Pl_Pending \<or> pk_status u = Pl_In_Progress \<or> pk_status u = Pl_Blocked) (pd_tasks d))"
    by (simp add: filter_map o_def)
  have all: "list_all resolved_task (map (\<lambda>u. u\<lparr>pk_id := f (pk_id u)\<rparr>) (pd_tasks d)) = list_all resolved_task (pd_tasks d)"
    by (simp add: list.pred_map o_def)
  have lines: "map remaining_line (map (\<lambda>u. u\<lparr>pk_id := f (pk_id u)\<rparr>) us) = map remaining_line us"
    if "set us \<subseteq> set (pd_tasks d)" for us
    using that assms(4) by (auto simp: remaining_line_def rename_dep_note)
  show "summary_text (t\<lparr>tr_data := Some (rename_tasks f d)\<rparr>) = summary_text (t\<lparr>tr_data := Some d\<rparr>)"
    by (simp add: summary_text_def rename_tasks_def is_complete_def all rename_counts bind rest lines [OF filter_is_subset]
        Let_def o_def del: map_map cong: option.case_cong if_cong)
next
  have same: "(Some (f (pk_id u)) = map_option f (pd_current d)) = (Some (pk_id u) = pd_current d)" for u :: plan_task
    using assms(1) by (cases "pd_current d") (auto simp: inj_eq)
  have lines: "map (report_line (map_option f (pd_current d))) (map (\<lambda>u. u\<lparr>pk_id := f (pk_id u)\<rparr>) (pd_tasks d)) =
    map (report_line (pd_current d)) (pd_tasks d)"
    using assms(4) same by (auto simp: report_line_def rename_dep_note)
  show "plan_status_report e (Saved_Plan (rename_tasks f d)) = plan_status_report e (Saved_Plan d)"
  proof (cases "pd_current d")
    case None
    then show ?thesis
      using lines by (simp add: plan_status_report_def rename_tasks_def rename_counts Let_def del: map_map)
  next
    case (Some i)
    then show ?thesis
      using lines assms(2,3)
      by (simp add: plan_status_report_def rename_tasks_def rename_counts Let_def rename_current [OF assms(1)] o_def
          del: map_map cong: option.case_cong)
  qed
next
  show "pk_deps u = []" if "u \<in> set (parse_plan uuids text')" for u
    using that by (simp add: parse_plan_def parsed_no_deps)
qed

text \<open>
  An update of an unknown task is reported as done. Nothing changes, and the answer is not an error.
\<close>

theorem unknown_task_reported_updated:
  assumes "tr_data t = Some d" "\<forall>u\<in>set (pd_tasks d). pk_id u \<noteq> i" "ta_action args = Update_Status" "ta_task args = Some i"
    "ta_status args = Some s" "i \<noteq> []"
  shows "tr_data (fst (tracker_tool env args t)) = Some d \<and> tr_outcomes (fst (tracker_tool env args t)) = tr_outcomes t \<and>
    snd (tracker_tool env args t) =
      Inr (''Task '' @ i @ '' updated to '' @ plan_status_text s @ ''.'' @ new_line @ new_line @ summary_text t)"
proof -
  have find: "find (\<lambda>u. pk_id u = i) (pd_tasks d) = None"
    using assms(2) by (simp add: find_None_iff)
  have "summary_text (save_tracker w t) = summary_text t" "tr_outcomes (save_tracker w t) = tr_outcomes t" for w
    by (simp_all add: summary_text_def is_complete_def save_tracker_def write_plan_file_def split: option.split write_outcome.split)
  then show ?thesis
    using assms find
    by (simp add: tracker_tool_def auto_initialize_def given_def update_task_status_def tool_answer_def Let_def)
qed

subsection \<open>Removed dependencies\<close>

definition stuck_on :: "string \<Rightarrow> string \<Rightarrow> tracker \<Rightarrow> bool" where
  "stuck_on x i t \<longleftrightarrow> (\<exists>d. tr_data t = Some d \<and> x \<notin> set (task_ids d) \<and> pd_current d \<noteq> Some i \<and>
     (\<forall>u\<in>set (pd_tasks d). pk_id u = i \<longrightarrow> x \<in> set (pk_deps u)))"

lemma stuck_save [simp]: "stuck_on x i (save_tracker w t) = stuck_on x i t"
  by (simp add: stuck_on_def)

lemma stuck_update: "stuck_on x i t \<Longrightarrow> stuck_on x i (update_task_status j s t)"
proof -
  assume stuck: "stuck_on x i t"
  then obtain d where d: "tr_data t = Some d" "x \<notin> pk_id ` set (pd_tasks d)" "pd_current d \<noteq> Some i"
    "\<forall>u\<in>set (pd_tasks d). pk_id u = i \<longrightarrow> x \<in> set (pk_deps u)"
    by (auto simp: stuck_on_def task_ids_def)
  define us where "us = map (\<lambda>u. if pk_id u = j then u\<lparr>pk_status := s\<rparr> else u) (pd_tasks d)"
  have us: "x \<notin> pk_id ` set us" "\<forall>u\<in>set us. pk_id u = i \<longrightarrow> x \<in> set (pk_deps u)"
    using d unfolding us_def by (auto split: if_splits)
  have "find_next_pending us = Some u \<Longrightarrow> pk_id u \<noteq> i" for u
    using us by (fastforce simp: find_next_pending_def deps_met_def list_all_iff list_ex_iff dest!: next_pending_in)
  then show ?thesis
    using d us stuck unfolding update_task_status_def Let_def us_def [symmetric]
    by (auto simp: stuck_on_def task_ids_def us_def [symmetric] split: option.split)
qed

lemma stuck_others:
  "stuck_on x i t \<Longrightarrow> stuck_on x i (remove_plan_task j t)"
  "stuck_on x i t \<Longrightarrow> task_id uuid \<noteq> x \<Longrightarrow> task_id uuid \<noteq> i \<Longrightarrow> stuck_on x i (fst (add_plan_task uuid title desc deps t))"
  by (auto simp: stuck_on_def task_ids_def remove_plan_task_def add_plan_task_def Let_def)

lemma stuck_tool:
  assumes "stuck_on x i t" "task_id (te_uuid env) \<noteq> x" "task_id (te_uuid env) \<noteq> i" "ta_action args \<noteq> Set_Current"
  shows "stuck_on x i (fst (tracker_tool env args t))"
proof -
  have active: "auto_initialize env t = t" "tr_data t \<noteq> None"
    using assms(1) by (auto simp: stuck_on_def auto_initialize_def)
  show ?thesis
  proof (cases "ta_action args")
    case Update_Status
    then show ?thesis
      using assms(1) active
      by (cases "given (ta_task args)"; cases "ta_status args") (simp_all add: tracker_tool_def Let_def stuck_update)
  next
    case Add_Task
    show ?thesis
    proof (cases "given (ta_title args)")
      case (Some title)
      obtain t1 r where r: "add_plan_task (te_uuid env) title (ta_description args) (ta_deps args) t = (t1, r)"
        by fastforce
      then have "stuck_on x i t1"
        using stuck_others(2) [OF assms(1-3), of title "ta_description args" "ta_deps args"] by simp
      then show ?thesis
        using Some r active assms(1) by (cases r) (auto simp: Add_Task tracker_tool_def Let_def)
    qed (use assms(1) active in \<open>simp add: Add_Task tracker_tool_def Let_def\<close>)
  next
    case Remove_Task
    then show ?thesis
      using assms(1) active by (cases "given (ta_task args)") (simp_all add: tracker_tool_def Let_def stuck_others)
  next
    case Query
    then show ?thesis
      using assms(1) active by (simp add: tracker_tool_def)
  qed (use assms(4) in simp)
qed

text \<open>
  Removing a task blocks for ever the tasks that depend on it: however the tool is used afterwards, such a task
  never becomes the current one by itself, because no task ever has the identifier that it waits for.
\<close>

theorem removed_dependency_blocks:
  assumes "tr_data t = Some d" "i \<noteq> x" "pd_current d \<noteq> Some i" "\<forall>u\<in>set (pd_tasks d). pk_id u = i \<longrightarrow> x \<in> set (pk_deps u)"
    "\<forall>(env, args)\<in>set uses. task_id (te_uuid env) \<noteq> x \<and> task_id (te_uuid env) \<noteq> i \<and> ta_action args \<noteq> Set_Current"
  shows "\<exists>d'. tr_data (foldl (\<lambda>t (env, args). fst (tracker_tool env args t)) (remove_plan_task x t) uses) = Some d' \<and>
    pd_current d' \<noteq> Some i"
proof -
  have "stuck_on x i (foldl (\<lambda>t (env, args). fst (tracker_tool env args t)) t0 uses)" if "stuck_on x i t0" for t0
    using that assms(5) by (induction uses arbitrary: t0) (auto simp: stuck_tool)
  moreover have "stuck_on x i (remove_plan_task x t)"
    using assms(1-4) by (auto simp: stuck_on_def remove_plan_task_def task_ids_def)
  ultimately show ?thesis
    unfolding stuck_on_def by blast
qed

subsection \<open>A checklist is read back\<close>

definition trimmed :: "string \<Rightarrow> bool" where
  "trimmed s \<longleftrightarrow> s \<noteq> [] \<and> js_trim s = s \<and> one_line s"

fun check_mark :: "plan_status \<Rightarrow> char" where
  "check_mark Pl_Done = CHR ''x''"
| "check_mark Pl_Skipped = CHR ''~''"
| "check_mark s = CHR '' ''"

definition print_item :: "plan_status \<times> string \<Rightarrow> string" where
  "print_item = (\<lambda>(s, title). ''- ['' @ [check_mark s] @ ''] '' @ title)"

definition print_plan :: "(string \<times> (plan_status \<times> string) list) list \<Rightarrow> string" where
  "print_plan sections = join_with new_line (concat (map (\<lambda>(h, items). (''## '' @ h) # map print_item items) sections))"

lemma trimmed_ends:
  assumes "js_trim s = s" "s \<noteq> []"
  shows "\<not> is_js_space (hd s)" "\<not> is_js_space (last s)"
proof -
  have "length s \<le> length (trim_start s)"
    using assms(1) by (metis js_trim_def length_rev trim_start_def length_dropWhile_le)
  moreover have "length (takeWhile is_js_space s) + length (trim_start s) = length s"
    unfolding trim_start_def by (metis length_append takeWhile_dropWhile_id)
  ultimately have "length (takeWhile is_js_space s) = 0"
    by linarith
  then have "takeWhile is_js_space s = []"
    by simp
  then have "trim_start s = s"
    unfolding trim_start_def by (metis append_Nil takeWhile_dropWhile_id)
  then show "\<not> is_js_space (hd s)"
    using assms(2) by (metis hd_dropWhile trim_start_def)
  have "rev s = dropWhile is_js_space (rev s)"
    using assms(1) \<open>trim_start s = s\<close> by (metis js_trim_def rev_rev_ident trim_start_def)
  then have "\<not> is_js_space (hd (rev s))"
    using assms(2) by (metis hd_dropWhile rev_is_Nil_conv)
  then show "\<not> is_js_space (last s)"
    using assms(2) by (simp add: hd_rev)
qed

lemma plain_chars [simp]:
  "\<not> is_js_space (CHR ''-'')" "\<not> is_js_space (CHR ''#'')" "\<not> is_js_space (CHR ''['')" "is_js_space (CHR '' '')"
  by (simp_all add: is_js_space_def)

lemma item_line:
  assumes "trimmed title"
  shows "js_trim (print_item (s, title)) = print_item (s, title)" "heading_text (print_item (s, title)) = None"
    "checkbox_item (print_item (s, title)) = Some (char_lower (check_mark s), title)"
  using assms trimmed_ends [of title]
  by (auto simp: print_item_def trimmed_def heading_text_def checkbox_item_def skip_marker_def skip_spaces_def trim_start_id
      split: if_splits intro!: js_trim_id) (cases s; simp)+

lemma heading_line:
  assumes "trimmed h"
  shows "js_trim (''## '' @ h) = ''## '' @ h" "heading_text (''## '' @ h) = Some h"
  using assms trimmed_ends [of h]
  by (auto simp: trimmed_def heading_text_def skip_spaces_def trim_start_id intro!: js_trim_id)

definition item_ok :: "plan_status \<times> string \<Rightarrow> bool" where
  "item_ok = (\<lambda>(s, title). trimmed title \<and> (s = Pl_Pending \<or> s = Pl_Done \<or> s = Pl_Skipped))"

definition task_view :: "plan_task \<Rightarrow> plan_status \<times> string \<times> string option" where
  "task_view u = (pk_status u, pk_title u, pk_description u)"

lemma check_mark_status: "s = Pl_Pending \<or> s = Pl_Done \<or> s = Pl_Skipped \<Longrightarrow> check_status (char_lower (check_mark s)) = s"
  by (cases s) (simp_all add: check_status_def char_lower_def)

lemma print_item_neq [simp]: "print_item i \<noteq> []"
  by (simp add: print_item_def split: prod.split)

lemma items_parsed:
  assumes "list_all item_ok items"
  shows "map task_view (plan_lines uuids k h (map print_item items @ ls)) =
    map (\<lambda>(s, t). (s, t, if h = [] then None else Some (''Group: '' @ h))) items @
    map task_view (plan_lines uuids (k + length items) h ls)"
  using assms
proof (induction items arbitrary: k)
  case (Cons i items)
  obtain s title where i: "i = (s, title)" "trimmed title" "s = Pl_Pending \<or> s = Pl_Done \<or> s = Pl_Skipped"
    using Cons.prems by (cases i) (auto simp: item_ok_def)
  have "plan_lines uuids k h (map print_item (i # items) @ ls) =
      plan_item (uuids k) h title s # plan_lines uuids (Suc k) h (map print_item items @ ls)"
    using item_line [OF i(2), of s] by (simp add: i(1) Let_def check_mark_status [OF i(3)])
  then show ?case
    using Cons.IH [of "Suc k"] Cons.prems by (simp add: i(1) task_view_def plan_item_def)
qed simp

lemma sections_parsed:
  assumes "list_all (\<lambda>(h, items). trimmed h \<and> list_all item_ok items) sections"
  shows "map task_view (plan_lines uuids k h0 (concat (map (\<lambda>(h, items). (''## '' @ h) # map print_item items) sections))) =
    concat (map (\<lambda>(h, items). map (\<lambda>(s, t). (s, t, Some (''Group: '' @ h))) items) sections)"
  using assms
proof (induction sections arbitrary: k h0)
  case (Cons sec sections)
  obtain h items where sec: "sec = (h, items)" "trimmed h" "list_all item_ok items"
    using Cons.prems by (cases sec) auto
  have "plan_lines uuids k h0 ((''## '' @ h) # map print_item items @ ls) = plan_lines uuids k h (map print_item items @ ls)" for ls
    using heading_line [OF sec(2)] by (simp add: Let_def)
  then show ?case
    using Cons.IH Cons.prems sec(2) items_parsed [OF sec(3)] by (simp add: sec(1) trimmed_def)
qed simp

text \<open>
  A plan written as checklists under headings is read back as it was written: the same items in the same
  order, each with its state and the group of its heading.
\<close>

theorem checklist_read_back:
  assumes "list_all (\<lambda>(h, items). trimmed h \<and>
      list_all (\<lambda>(s, title). trimmed title \<and> (s = Pl_Pending \<or> s = Pl_Done \<or> s = Pl_Skipped)) items) sections"
  shows "map (\<lambda>u. (pk_status u, pk_title u, pk_description u)) (parse_plan uuids (print_plan sections)) =
    concat (map (\<lambda>(h, items). map (\<lambda>(s, t). (s, t, Some (''Group: '' @ h))) items) sections)"
proof -
  have ok: "list_all (\<lambda>(h, items). trimmed h \<and> list_all item_ok items) sections"
    using assms by (simp add: item_ok_def)
  define ls where "ls = concat (map (\<lambda>(h, items). (''## '' @ h) # map print_item items) sections)"
  have no_feed: "list_all (\<lambda>l. CHR 0x0A \<notin> set l) ls"
    using assms unfolding ls_def
    by (fastforce simp: list_all_iff print_item_def trimmed_def one_line_def elim: check_mark.elims)
  have "plan_lines uuids 0 [] (split_on (CHR 0x0A) (print_plan sections)) = plan_lines uuids 0 [] ls"
  proof -
    have "print_plan sections = join_with [CHR 0x0A] ls"
      by (simp only: print_plan_def ls_def new_line_def)
    then show ?thesis
      using split_on_join [OF no_feed] by (cases "ls = []") (simp_all add: js_trim_def trim_start_def)
  qed
  then show ?thesis
    using sections_parsed [OF ok, of uuids 0 "[]"] by (simp add: parse_plan_def ls_def task_view_def [abs_def])
qed

subsection \<open>Witnesses\<close>

definition sample_env :: "string \<Rightarrow> tracker_env" where
  "sample_env content = \<lparr>te_now = ''t'', te_uuids = (\<lambda>n. replicate n CHR ''a''), te_plan_uuid = ''p'', te_uuid = ''b'', te_write = Written,
     te_plan = Some (content, ''plans/x.md'')\<rparr>"

definition sample_args :: "tracker_action \<Rightarrow> string \<Rightarrow> string list \<Rightarrow> tracker_args" where
  "sample_args a i deps = \<lparr>ta_action = a, ta_task = Some i, ta_status = Some Pl_Done, ta_title = Some ''c'', ta_description = None, ta_deps = deps\<rparr>"

lemma sample_new: "inj (te_uuids (sample_env c))" "te_uuid (sample_env c) \<notin> range (te_uuids (sample_env c))"
proof -
  show "inj (te_uuids (sample_env c))"
    by (rule injI) (simp add: sample_env_def replicate_eq_replicate)
  have "replicate n CHR ''a'' \<noteq> ''b''" for n
    by (cases n) auto
  then show "te_uuid (sample_env c) \<notin> range (te_uuids (sample_env c))"
    by (auto simp: sample_env_def) metis
qed

definition sample_ops :: "tracker_op list" where
  "sample_ops = [Op_Enter_Plan Written, Op_Exit_Plan (sample_env ''- [ ] x''), Op_Tool (sample_env []) (sample_args Add_Task ''x'' [])]"

lemma sample_new_ops: "new_ops empty_tracker sample_ops"
proof -
  have "tr_data (tracker_step (tracker_step empty_tracker (Op_Enter_Plan Written)) (Op_Exit_Plan (sample_env ''- [ ] x''))) =
      Some \<lparr>pd_id = ''plan_p'', pd_title = ''x'', pd_created = ''t'',
        pd_tasks = [plan_item [] [] ''x'' Pl_Pending], pd_current = Some ''task_''\<rparr>"
    by code_simp
  then show ?thesis
    using sample_new by (simp add: sample_ops_def new_ids_def task_ids_def plan_item_def task_id_def sample_env_def)
qed

theorem plan_tracker_well_formed_witness:
  "\<exists>d. tr_data (foldl tracker_step empty_tracker sample_ops) = Some d \<and> length (pd_tasks d) = 2 \<and> distinct (map pk_id (pd_tasks d))"
proof -
  have two: "map_option (length \<circ> pd_tasks) (tr_data (foldl tracker_step empty_tracker sample_ops)) = Some 2"
    by code_simp
  then show ?thesis
    using plan_tracker_well_formed [OF sample_new_ops] by (fastforce simp: map_option_case split: option.splits)
qed

theorem plan_survives_restart_witness:
  "list_all written_op sample_ops \<and>
   tr_data (tracker_step (foldl tracker_step empty_tracker sample_ops) Op_Restart) = tr_data (foldl tracker_step empty_tracker sample_ops)"
  using plan_survives_restart [of sample_ops] by (simp add: sample_ops_def sample_env_def)

definition sample_task :: "string \<Rightarrow> plan_status \<Rightarrow> string list \<Rightarrow> plan_task" where
  "sample_task i s deps = \<lparr>pk_id = i, pk_title = i, pk_description = None, pk_status = s, pk_deps = deps\<rparr>"

definition sample_plan :: "plan_task list \<Rightarrow> string \<Rightarrow> plan_data" where
  "sample_plan ts i = \<lparr>pd_id = ''plan_p'', pd_title = ''x'', pd_created = ''t'', pd_tasks = ts, pd_current = Some i\<rparr>"

definition tracking :: "plan_data \<Rightarrow> tracker" where
  "tracking d = empty_tracker\<lparr>tr_data := Some d\<rparr>"

theorem done_advances_to_first_ready_witness:
  "\<exists>d'. tr_data (update_task_status ''a'' Pl_Done (tracking (sample_plan
       [sample_task ''a'' Pl_In_Progress [], sample_task ''b'' Pl_Pending [''c''], sample_task ''c'' Pl_Pending [''a'']] ''a''))) = Some d' \<and>
     pd_current d' = Some ''c''"
proof -
  let ?d = "sample_plan [sample_task ''a'' Pl_In_Progress [], sample_task ''b'' Pl_Pending [''c''], sample_task ''c'' Pl_Pending [''a'']] ''a''"
  have "\<exists>d'. tr_data (update_task_status ''a'' Pl_Done (tracking ?d)) = Some d'"
    using done_advances_to_first_ready [of "tracking ?d" ?d "''a''" "sample_task ''a'' Pl_In_Progress []"]
    by (auto simp: tracking_def sample_plan_def sample_task_def)
  moreover have "map_option pd_current (tr_data (update_task_status ''a'' Pl_Done (tracking ?d))) = Some (Some ''c'')"
    by code_simp
  ultimately show ?thesis
    by auto
qed

theorem summary_hides_ids_witness:
  "inj (\<lambda>i. CHR ''z'' # i) \<and>
   summary_text (tracking (rename_tasks (\<lambda>i. CHR ''z'' # i) (sample_plan [sample_task ''a'' Pl_Pending []] ''a''))) =
   summary_text (tracking (sample_plan [sample_task ''a'' Pl_Pending []] ''a''))"
proof -
  have inj: "inj (\<lambda>i. CHR ''z'' # i)"
    by (rule injI) simp
  then show ?thesis
    using summary_hides_ids [OF inj, of "sample_plan [sample_task ''a'' Pl_Pending []] ''a''" empty_tracker]
    by (simp add: tracking_def sample_plan_def sample_task_def)
qed

theorem unknown_task_reported_updated_witness:
  "snd (tracker_tool (sample_env []) (sample_args Update_Status ''q'' []) (tracking (sample_plan [sample_task ''a'' Pl_Pending []] ''a''))) =
     Inr (''Task q updated to done.'' @ new_line @ new_line @ summary_text (tracking (sample_plan [sample_task ''a'' Pl_Pending []] ''a'')))"
  using unknown_task_reported_updated [of "tracking (sample_plan [sample_task ''a'' Pl_Pending []] ''a'')"
      "sample_plan [sample_task ''a'' Pl_Pending []] ''a''" "''q''" "sample_args Update_Status ''q'' []" Pl_Done "sample_env []"]
  by (simp add: tracking_def sample_plan_def sample_task_def sample_args_def)

theorem removed_dependency_blocks_witness:
  "\<exists>d'. tr_data (fst (tracker_tool (sample_env []) (sample_args Update_Status ''c'' []) (remove_plan_task ''b''
       (tracking (sample_plan [sample_task ''a'' Pl_Pending [''b''], sample_task ''b'' Pl_Pending [], sample_task ''c'' Pl_Pending []] ''c''))))) = Some d' \<and>
     pd_current d' \<noteq> Some ''a''"
  using removed_dependency_blocks [of "tracking (sample_plan [sample_task ''a'' Pl_Pending [''b''], sample_task ''b'' Pl_Pending [], sample_task ''c'' Pl_Pending []] ''c'')"
      "sample_plan [sample_task ''a'' Pl_Pending [''b''], sample_task ''b'' Pl_Pending [], sample_task ''c'' Pl_Pending []] ''c''" "''a''" "''b''"
      "[(sample_env [], sample_args Update_Status ''c'' [])]"]
  by (simp add: tracking_def sample_plan_def sample_task_def sample_args_def sample_env_def task_id_def)

theorem checklist_read_back_witness:
  "map (\<lambda>u. (pk_status u, pk_title u, pk_description u)) (parse_plan (\<lambda>n. []) (print_plan [(''g'', [(Pl_Done, ''x''), (Pl_Pending, ''y'')])])) =
     [(Pl_Done, ''x'', Some ''Group: g''), (Pl_Pending, ''y'', Some ''Group: g'')]"
proof -
  have "list_all (\<lambda>(h, items). trimmed h \<and>
      list_all (\<lambda>(s, title). trimmed title \<and> (s = Pl_Pending \<or> s = Pl_Done \<or> s = Pl_Skipped)) items)
      [(''g'', [(Pl_Done, ''x''), (Pl_Pending, ''y'')])]"
    by code_simp
  from checklist_read_back [OF this, of "\<lambda>n. []"] show ?thesis
    by simp
qed

end
