(* ===== verification/Injections.thy ===== *)
theory Injections
  imports Reminder_Texts Permission_Rules
begin

text \<open>
  Reminders that the agent puts into its conversation before a step (\<open>agent/injection\<close>). Each injector
  remembers the index of its last reminder in the history; the conversation tells it when the history is
  cleared, compacted, or loses a message. The injectors are kept together here: an index for each variant and the
  flags that three of them have. What \<open>JSON.parse\<close> says of the arguments of a call is an argument.
\<close>

subsection \<open>One injector\<close>

definition on_compacted :: "nat \<Rightarrow> nat option \<Rightarrow> nat option" where
  "on_compacted n seen = (case seen of None \<Rightarrow> None | Some i \<Rightarrow> if int i - int n + 1 \<ge> 0 then Some (nat (int i - int n + 1)) else None)"

definition on_removed :: "nat \<Rightarrow> nat option \<Rightarrow> nat option" where
  "on_removed index seen =
     (case seen of None \<Rightarrow> None | Some i \<Rightarrow> if index < i then Some (i - 1) else if index = i then None else Some i)"

record injectors =
  ij_at :: "string \<Rightarrow> nat option"
  ij_plan_was_active :: bool
  ij_compacted :: bool
  ij_last_mode :: "permission_mode option"

definition new_injectors :: injectors where
  "new_injectors = \<lparr>ij_at = (\<lambda>v. None), ij_plan_was_active = False, ij_compacted = False, ij_last_mode = None\<rparr>"

text \<open>What the injectors read.\<close>

record inject_env =
  ev_now :: int
  ev_starts :: "(string \<times> string) list"
  ev_registry :: "(string \<Rightarrow> string \<Rightarrow> (string \<times> string) option) option"
  ev_todo_active :: bool
  ev_todos :: "todo_item list"
  ev_writes_todos :: "string \<Rightarrow> bool"
  ev_plan_active :: bool
  ev_plan_path :: "string option"
  ev_plan_content :: bool
  ev_tracker :: tracker
  ev_mode :: permission_mode
  ev_goal :: "goal_snapshot option"

type_synonym injection = "inject_env \<Rightarrow> context_message list \<Rightarrow> injectors \<Rightarrow> injectors \<times> string option"

definition set_at :: "string \<Rightarrow> nat option \<Rightarrow> injectors \<Rightarrow> injectors" where
  "set_at v i ij = ij\<lparr>ij_at := (ij_at ij)(v := i)\<rparr>"

definition is_reminder :: "string \<Rightarrow> context_message \<Rightarrow> bool" where
  "is_reminder v m \<longleftrightarrow> cm_origin m = Some (Origin_Injection v)"

definition is_assistant :: "context_message \<Rightarrow> bool" where
  "is_assistant m \<longleftrightarrow> cm_role m = Role_Assistant"

definition assistant_turns_since :: "context_message list \<Rightarrow> nat \<Rightarrow> nat" where
  "assistant_turns_since ms i = length (filter is_assistant (drop (Suc i) ms))"

subsection \<open>When to remind\<close>

definition session_start_injection :: injection where
  "session_start_injection env ms ij =
     (if ij_at ij ''plugin_session_start'' \<noteq> None then (ij, None)
      else case find_index (is_reminder ''plugin_session_start'') ms of
        Some i \<Rightarrow> (set_at ''plugin_session_start'' (Some i) ij, None)
      | None \<Rightarrow> (ij, if ev_starts env = [] then None else session_start_reminder (ev_starts env) (ev_registry env)))"

definition has_todo_write :: "(string \<Rightarrow> bool) \<Rightarrow> context_message \<Rightarrow> bool" where
  "has_todo_write writes m \<longleftrightarrow>
     list_ex (\<lambda>c. cc_name c = ''TodoList'' \<and> (case cc_arguments c of None \<Rightarrow> False | Some a \<Rightarrow> writes a)) (cm_calls m)"

text \<open>The loop of \<open>getTodoListReminderTurnCounts\<close>, from the end of the history.\<close>

fun todo_scan :: "(string \<Rightarrow> bool) \<Rightarrow> bool \<Rightarrow> bool \<Rightarrow> nat \<Rightarrow> nat \<Rightarrow> context_message list \<Rightarrow> nat \<times> nat" where
  "todo_scan writes wrote reminded w r [] = (w, r)"
| "todo_scan writes wrote reminded w r (m # ms) =
     (if is_assistant m
      then let wrote' = wrote \<or> has_todo_write writes m
           in todo_scan writes wrote' reminded (if wrote' then w else Suc w) (if reminded then r else Suc r) ms
      else let reminded' = reminded \<or> is_reminder ''todo_list_reminder'' m
           in if wrote \<and> reminded' then (w, r) else todo_scan writes wrote reminded' w r ms)"

definition todo_turn_counts :: "(string \<Rightarrow> bool) \<Rightarrow> context_message list \<Rightarrow> nat \<times> nat" where
  "todo_turn_counts writes ms = todo_scan writes False False 0 0 (rev ms)"

definition todo_injection :: injection where
  "todo_injection env ms ij =
     (ij,
      if \<not> ev_todo_active env then None
      else let (w, r) = todo_turn_counts (ev_writes_todos env) ms
           in if w < 10 \<or> r < 10 then None else Some (todo_reminder (ev_todos env)))"

fun variant_scan :: "context_message list \<Rightarrow> nat \<Rightarrow> plan_variant option" where
  "variant_scan [] turns = (if turns \<ge> 5 then Some Plan_Full else if turns \<ge> 2 then Some Plan_Sparse else None)"
| "variant_scan (m # ms) turns =
     (if cm_role m = Role_Assistant then variant_scan ms (Suc turns)
      else if cm_role m = Role_User then Some Plan_Full else variant_scan ms turns)"

definition plan_variant_for :: "context_message list \<Rightarrow> nat option \<Rightarrow> plan_variant option" where
  "plan_variant_for ms seen = (case seen of None \<Rightarrow> Some Plan_Full | Some i \<Rightarrow> variant_scan (drop (Suc i) ms) 0)"

definition plan_mode_injection :: injection where
  "plan_mode_injection env ms ij =
     (if \<not> ev_plan_active env
      then if \<not> ij_plan_was_active ij then (ij, None)
           else (set_at ''plan_mode'' None (ij\<lparr>ij_plan_was_active := False\<rparr>), Some plan_exit_text)
      else
        let ij1 = (if ij_plan_was_active ij then ij else set_at ''plan_mode'' None (ij\<lparr>ij_plan_was_active := True\<rparr>))
        in (ij1,
            if \<not> ij_plan_was_active ij \<and> ev_plan_content env then Some (plan_reminder Plan_Reentry (ev_plan_path env))
            else map_option (\<lambda>v. plan_reminder v (ev_plan_path env)) (plan_variant_for ms (ij_at ij1 ''plan_mode''))))"

definition plan_tracker_injection :: injection where
  "plan_tracker_injection env ms ij =
     (let t = ev_tracker env
      in if tr_data t = None \<or> is_complete t then (ij, None)
         else if ij_compacted ij then (ij\<lparr>ij_compacted := False\<rparr>, Some (summary_text t))
         else case ij_at ij ''plan_tracker'' of
           None \<Rightarrow> (ij, Some (summary_text t))
         | Some i \<Rightarrow> (ij, if assistant_turns_since ms i \<ge> 8 then Some (summary_text t) else None))"

definition permission_mode_injection :: injection where
  "permission_mode_injection env ms ij =
     (if Some (ev_mode env) = ij_last_mode ij then (ij, None)
      else (ij\<lparr>ij_last_mode := Some (ev_mode env)\<rparr>,
            if ev_mode env = Mode_Auto then Some auto_enter_text
            else if ij_last_mode ij = Some Mode_Auto then Some auto_exit_text else None))"

definition goal_mode_injection :: injection where
  "goal_mode_injection env ms ij = (ij, goal_injection (ev_goal env))"

subsection \<open>The manager\<close>

definition inject_one :: "inject_env \<Rightarrow> string \<times> injection \<Rightarrow> context_memory \<times> injectors \<Rightarrow> context_memory \<times> injectors" where
  "inject_one env = (\<lambda>(v, get) (s, ij).
     case get env (history s) ij of
       (ij1, None) \<Rightarrow> (s, ij1)
     | (ij1, Some text') \<Rightarrow>
         if text' = [] then (s, ij1)
         else (fst (append_system_reminder (ev_now env) text' (Origin_Injection v) s), set_at v (Some (length (cx_history s))) ij1))"

definition step_injectors :: "(string \<times> injection) list" where
  "step_injectors =
     [(''plugin_session_start'', session_start_injection), (''todo_list_reminder'', todo_injection),
      (''plan_mode'', plan_mode_injection), (''plan_tracker'', plan_tracker_injection),
      (''permission_mode'', permission_mode_injection)]"

definition inject_steps :: "inject_env \<Rightarrow> context_memory \<times> injectors \<Rightarrow> context_memory \<times> injectors" where
  "inject_steps env = fold (inject_one env) step_injectors"

definition inject_goal :: "bool \<Rightarrow> inject_env \<Rightarrow> context_memory \<times> injectors \<Rightarrow> context_memory \<times> injectors" where
  "inject_goal main env st = (if main then inject_one env (''goal'', goal_mode_injection) st else st)"

definition context_cleared :: "bool \<Rightarrow> injectors \<Rightarrow> injectors" where
  "context_cleared plan_active ij = ij\<lparr>ij_at := (\<lambda>v. None), ij_plan_was_active := plan_active, ij_compacted := False\<rparr>"

definition context_compacted :: "nat \<Rightarrow> injectors \<Rightarrow> injectors" where
  "context_compacted n ij = ij\<lparr>ij_at := (\<lambda>v. on_compacted n (ij_at ij v)), ij_compacted := True\<rparr>"

definition message_removed :: "nat \<Rightarrow> injectors \<Rightarrow> injectors" where
  "message_removed index ij = ij\<lparr>ij_at := (\<lambda>v. on_removed index (ij_at ij v))\<rparr>"

subsection \<open>The conversation and its injectors\<close>

text \<open>The indices that \<open>undo\<close> removes, in the order in which it tells of them.\<close>

fun undo_indices :: "(nat \<times> context_message) list \<Rightarrow> int \<Rightarrow> int \<Rightarrow> nat list" where
  "undo_indices [] wanted removed = []"
| "undo_indices ((k, m) # older) wanted removed =
     (if is_injection (cm_origin m) then undo_indices older wanted removed
      else if cm_origin m = Some Origin_Compaction_Summary then []
      else if is_real_user_prompt m
      then if removed + 1 \<ge> wanted then [length older] else length older # undo_indices older wanted (removed + 1)
      else length older # undo_indices older wanted removed)"

definition told_removed :: "int \<Rightarrow> context_memory \<Rightarrow> nat list" where
  "told_removed wanted s = (if wanted \<le> 0 then [] else undo_indices (rev (cx_history s)) wanted 0)"

datatype inject_op =
    In_Context bool ctx_op
  | In_Steps inject_env
  | In_Goal bool inject_env

fun inject_step :: "context_memory \<times> injectors \<Rightarrow> inject_op \<Rightarrow> context_memory \<times> injectors" where
  "inject_step (s, ij) (In_Context plan_active op) =
     (fst (ctx_step s op),
      (case op of
         Op_Clear \<Rightarrow> context_cleared plan_active ij
       | Op_Undo wanted \<Rightarrow> fold message_removed (told_removed wanted s) ij
       | Op_Apply_Compaction now res \<Rightarrow> context_compacted (cr_compacted_count res) ij
       | _ \<Rightarrow> ij))"
| "inject_step st (In_Steps env) = inject_steps env st"
| "inject_step st (In_Goal main env) = inject_goal main env st"

subsection \<open>Following a message\<close>

text \<open>A message is named by its object; its origin never changes.\<close>

abbreviation tag :: "nat \<times> context_message \<Rightarrow> nat \<times> prompt_origin option" where
  "tag \<equiv> \<lambda>(k, m). (k, cm_origin m)"

definition tags :: "context_memory \<Rightarrow> (nat \<times> prompt_origin option) list" where
  "tags s = map tag (cx_history s)"

definition extends :: "context_memory \<Rightarrow> context_memory \<Rightarrow> bool" where
  "extends s s' \<longleftrightarrow> cx_next s \<le> cx_next s' \<and> (\<exists>new. tags s' = tags s @ new \<and> (\<forall>t\<in>set new. cx_next s \<le> fst t))"

lemma extends_refl [simp]: "extends s s"
  by (simp add: extends_def)

lemma extends_same: "cx_next s' = cx_next s \<Longrightarrow> tags s' = tags s \<Longrightarrow> extends s s'"
  by (simp add: extends_def)

lemma extends_trans: "extends s t \<Longrightarrow> extends t u \<Longrightarrow> extends s u"
  unfolding extends_def by (fastforce intro: order.trans)

lemma extends_push: "extends s (push_history now ms s)"
proof (induction ms arbitrary: s)
  case (Cons m ms)
  have "extends s (push_one now m s)"
    by (simp add: extends_def push_one_def tags_def)
  then show ?case
    using Cons.IH by (simp add: push_history_Cons extends_trans)
qed simp

lemma extends_fields [simp]:
  "extends s (t\<lparr>cx_pending := p\<rparr>) = extends s t" "extends s (t\<lparr>cx_deferred := d\<rparr>) = extends s t"
  "extends s (t\<lparr>cx_open_steps := o'\<rparr>) = extends s t" "extends s (t\<lparr>cx_token_count := c\<rparr>) = extends s t"
  "extends s (t\<lparr>cx_covered := n\<rparr>) = extends s t" "extends s (t\<lparr>cx_cutoff := n\<rparr>) = extends s t"
  by (simp_all add: extends_def tags_def)

lemma extends_flush: "extends s (flush_deferred now s)"
  by (simp add: flush_deferred_def extends_push)

lemma extends_result: "extends s (apply_tool_result now i r s)"
proof -
  have "extends s ((push_history now ms s)\<lparr>cx_pending := p\<rparr>)" for ms p
    by (simp add: extends_push)
  from extends_trans [OF this extends_flush] show ?thesis
    by (simp add: apply_tool_result_def Let_def)
qed

lemma extends_close: "extends s (fst (close_pending now s))"
proof -
  have "extends s (foldl (\<lambda>s i. apply_tool_result now i interrupted_result s) s xs)" for xs
  proof (induction xs arbitrary: s)
    case (Cons i xs)
    show ?case
      using extends_trans [OF extends_result Cons.IH] by simp
  qed simp
  then show ?thesis
    by (simp add: close_pending_def)
qed

lemma extends_update: "(\<And>m. cm_origin (f m) = cm_origin m) \<Longrightarrow> extends s (update_message k f s)"
  by (rule extends_same) (auto simp: update_message_def tags_def)

lemma extends_loop_event: "extends s (fst (fst (apply_loop_event now ev s)))"
proof (cases ev)
  case (Ctx_Step_Begin u)
  then show ?thesis
    using extends_trans [OF extends_close extends_push] by (simp add: Let_def split_def)
next
  case (Ctx_Step_End u usage)
  have "extends s (end_step_usage k us (s\<lparr>cx_open_steps := o'\<rparr>))" for k us o'
    by (simp add: end_step_usage_def Let_def)
  then show ?thesis
    using extends_trans [OF _ extends_flush] by (simp add: Ctx_Step_End Let_def split: option.split)
qed (auto intro: extends_update extends_result split: option.split)

lemma extends_append: "extends s (fst (append_message now m s))"
  by (simp add: append_message_def extends_push)

subsubsection \<open>Positions\<close>

definition position :: "nat \<Rightarrow> (nat \<times> prompt_origin option) list \<Rightarrow> nat option" where
  "position k ts = find_index (\<lambda>t. fst t = k) ts"

lemma position_append: "position k (xs @ ys) = (case position k xs of Some i \<Rightarrow> Some i | None \<Rightarrow> map_option ((+) (length xs)) (position k ys))"
  unfolding position_def by (induction xs) (auto simp: map_option_case split: option.splits)

lemma position_None: "position k ts = None \<longleftrightarrow> k \<notin> fst ` set ts"
  by (auto simp: position_def find_index_None)

lemma position_nth: "distinct (map fst ts) \<Longrightarrow> i < length ts \<Longrightarrow> position (fst (ts ! i)) ts = Some i"
proof (induction ts arbitrary: i)
  case (Cons t ts)
  then show ?case
    by (cases i) (auto simp: position_def dest: nth_mem)
qed simp

lemma position_Some: "position k ts = Some i \<Longrightarrow> i < length ts \<and> fst (ts ! i) = k"
  unfolding position_def by (drule find_index_Some) simp

definition drop_nth :: "nat \<Rightarrow> 'a list \<Rightarrow> 'a list" where
  "drop_nth i xs = take i xs @ drop (Suc i) xs"

lemma position_simps [simp]:
  "position k [] = None" "position k (t # ts) = (if fst t = k then Some 0 else map_option Suc (position k ts))"
  by (simp_all add: position_def)

lemma drop_nth_simps [simp]: "drop_nth 0 (x # xs) = xs" "drop_nth (Suc i) (x # xs) = x # drop_nth i xs"
  by (simp_all add: drop_nth_def)

lemma position_drop_nth:
  "distinct (map fst ts) \<Longrightarrow> i < length ts \<Longrightarrow> position k (drop_nth i ts) = on_removed i (position k ts)"
proof (induction ts arbitrary: i)
  case (Cons t ts)
  show ?case
  proof (cases i)
    case 0
    have "fst t = k \<Longrightarrow> position k ts = None"
      using Cons.prems(1) by (auto simp: position_None)
    then show ?thesis
      using 0 by (cases "position k ts") (auto simp: on_removed_def)
  next
    case (Suc j)
    then have "position k (drop_nth j ts) = on_removed j (position k ts)"
      using Cons by simp
    then show ?thesis
      using Suc by (cases "position k ts") (auto simp: on_removed_def)
  qed
qed simp

subsubsection \<open>Undoing and compacting\<close>

lemma position_tag: "position k (map tag xs) = find_index (\<lambda>t. fst t = k) xs"
  unfolding position_def by (induction xs) auto

lemma fst_tags: "map fst (tags s) = map fst (cx_history s)"
  by (auto simp: tags_def)

lemma undo_positions:
  assumes "undo_scan xs wanted c t r = (kept, c', t', r', st)" "distinct (map fst (rev xs @ post))"
  shows "position k (map tag (kept @ post)) = fold on_removed (undo_indices xs wanted r) (position k (map tag (rev xs @ post)))"
  using assms
proof (induction xs arbitrary: c t r post kept)
  case (Cons p older)
  obtain j m where p: "p = (j, m)"
    by fastforce
  define c1 where "c1 = (if length older < c then c - 1 else c)"
  define t1 where "t1 = (if length older < c then t - estimate_message m else t)"
  have d: "distinct (map fst (map tag (rev older @ p # post)))"
    using Cons.prems(2) by (simp add: comp_def case_prod_unfold)
  have "drop_nth (length older) (map tag (rev older @ p # post)) = map tag (rev older @ post)"
    by (simp add: drop_nth_def)
  then have one: "position k (map tag (rev older @ post)) = on_removed (length older) (position k (map tag (rev older @ p # post)))"
    using position_drop_nth [OF d, of "length older" k] by simp
  have d': "distinct (map fst (rev older @ post))"
    using Cons.prems(2) by auto
  consider (injection) "is_injection (cm_origin m)"
    | (summary) "\<not> is_injection (cm_origin m)" "cm_origin m = Some Origin_Compaction_Summary"
    | (last) "\<not> is_injection (cm_origin m)" "cm_origin m \<noteq> Some Origin_Compaction_Summary" "is_real_user_prompt m" "r + 1 \<ge> wanted"
    | (prompt) "\<not> is_injection (cm_origin m)" "cm_origin m \<noteq> Some Origin_Compaction_Summary" "is_real_user_prompt m" "\<not> r + 1 \<ge> wanted"
    | (other) "\<not> is_injection (cm_origin m)" "cm_origin m \<noteq> Some Origin_Compaction_Summary" "\<not> is_real_user_prompt m"
    by blast
  then show ?case
  proof cases
    case injection
    then obtain kept' where "undo_scan older wanted c t r = (kept', c', t', r', st)" "kept = kept' @ [p]"
      using Cons.prems(1) by (auto simp: p split: prod.splits)
    then show ?thesis
      using Cons.IH [of c t r kept' "p # post"] Cons.prems(2) injection by (simp add: p)
  next
    case summary
    then show ?thesis
      using Cons.prems(1) by (simp add: p)
  next
    case last
    then show ?thesis
      using Cons.prems(1) one by (simp add: p Let_def)
  next
    case prompt
    then have "undo_scan older wanted c1 t1 (r + 1) = (kept, c', t', r', st)"
      using Cons.prems(1) by (simp add: p Let_def c1_def t1_def)
    then show ?thesis
      using Cons.IH [OF _ d'] one prompt by (simp add: p)
  next
    case other
    then have "undo_scan older wanted c1 t1 r = (kept, c', t', r', st)"
      using Cons.prems(1) by (simp add: p Let_def c1_def t1_def)
    then show ?thesis
      using Cons.IH [OF _ d'] one other by (simp add: p)
  qed
qed simp

lemma undo_kept: "undo_scan xs wanted c t r = (kept, c', t', r', st) \<Longrightarrow> set kept \<subseteq> set xs"
proof (induction xs arbitrary: c t r kept)
  case (Cons p older)
  then show ?case
    by (cases p) (fastforce simp: Let_def split: if_splits prod.splits)
qed simp

lemma fold_removed:
  "ij_at (fold message_removed is ij) v = fold on_removed is (ij_at ij v)"
  "ij_plan_was_active (fold message_removed is ij) = ij_plan_was_active ij"
  "ij_last_mode (fold message_removed is ij) = ij_last_mode ij"
  by (induction "is" arbitrary: ij) (simp_all add: message_removed_def)

lemma undo_moves:
  assumes "objects_inv s"
  shows "position k (tags (fst (fst (undo b wanted s)))) = fold on_removed (told_removed wanted s) (position k (tags s))"
    "set (tags (fst (fst (undo b wanted s)))) \<subseteq> set (tags s)" "cx_next (fst (fst (undo b wanted s))) = cx_next s"
proof -
  obtain kept c t r st where scan: "undo_scan (rev (cx_history s)) wanted (cx_covered s) (cx_token_count s) 0 = (kept, c, t, r, st)"
    by (metis prod_cases5)
  have d: "distinct (map fst (rev (rev (cx_history s)) @ []))"
    using objectsD(1) [OF assms] by simp
  show "position k (tags (fst (fst (undo b wanted s)))) = fold on_removed (told_removed wanted s) (position k (tags s))"
    using undo_positions [OF scan d, of k] by (simp add: undo_def told_removed_def tags_def scan micro_reset_def Let_def)
  show "set (tags (fst (fst (undo b wanted s)))) \<subseteq> set (tags s)"
    using undo_kept [OF scan] by (auto simp: undo_def tags_def scan micro_reset_def Let_def)
  show "cx_next (fst (fst (undo b wanted s))) = cx_next s"
    by (simp add: undo_def scan micro_reset_def Let_def)
qed

lemma compaction_tags:
  "\<exists>new. tags (fst (apply_compaction now res s)) =
      (cx_next s, Some Origin_Compaction_Summary) # drop (cr_compacted_count res) (tags s) @ new \<and> (\<forall>t\<in>set new. cx_next s < fst t)"
  "cx_next s < cx_next (fst (apply_compaction now res s))"
proof -
  define s0 where "s0 = s\<lparr>cx_history := (cx_next s, plain_message Role_Assistant [TextPart (cr_summary res)] (Some Origin_Compaction_Summary)) #
     drop (cr_compacted_count res) (cx_history s), cx_next := Suc (cx_next s), cx_open_steps := []\<rparr>"
  have s': "fst (apply_compaction now res s) = micro_reset 0 ((flush_deferred now s0)\<lparr>cx_token_count := cr_tokens_after res, cx_covered := length (cx_history (flush_deferred now s0))\<rparr>)"
    by (simp add: apply_compaction_def s0_def Let_def)
  have "extends s0 (fst (apply_compaction now res s))"
    unfolding s' micro_reset_def by (simp add: extends_flush)
  moreover have "tags s0 = (cx_next s, Some Origin_Compaction_Summary) # drop (cr_compacted_count res) (tags s)" "cx_next s0 = Suc (cx_next s)"
    by (simp_all add: s0_def tags_def drop_map plain_message_def)
  ultimately show "\<exists>new. tags (fst (apply_compaction now res s)) =
      (cx_next s, Some Origin_Compaction_Summary) # drop (cr_compacted_count res) (tags s) @ new \<and> (\<forall>t\<in>set new. cx_next s < fst t)"
    "cx_next s < cx_next (fst (apply_compaction now res s))"
    unfolding extends_def by (auto simp: Suc_le_eq)
qed

lemma position_drop:
  assumes "distinct (map fst ts)" "position k ts = a" "a \<noteq> Some (n - 1) \<or> n = 0"
  shows "map_option Suc (position k (drop n ts)) = on_compacted n a"
proof (cases a)
  case None
  then have "k \<notin> fst ` set (drop n ts)"
    using assms(2) set_drop_subset [of n ts] by (auto simp: position_None)
  then have "position k (drop n ts) = None"
    by (simp add: position_None)
  then show ?thesis
    using None by (simp add: on_compacted_def)
next
  case (Some i)
  have i: "i < length ts" "fst (ts ! i) = k"
    using position_Some assms(2) Some by blast+
  show ?thesis
  proof (cases "i < n")
    case True
    have "k \<notin> fst ` set (drop n ts)"
    proof
      assume "k \<in> fst ` set (drop n ts)"
      then obtain j where "j < length (drop n ts)" "fst (drop n ts ! j) = k"
        by (auto simp: in_set_conv_nth)
      then have "n + j < length ts" "fst (ts ! (n + j)) = k"
        by simp_all
      then have "position k ts = Some (n + j)"
        using position_nth [OF assms(1), of "n + j"] by simp
      then show False
        using assms(2) Some True by simp
    qed
    then have "position k (drop n ts) = None"
      by (simp add: position_None)
    then show ?thesis
      using Some True assms(3) by (auto simp: on_compacted_def)
  next
    case False
    have "position (fst (drop n ts ! (i - n))) (drop n ts) = Some (i - n)"
      using False i assms(1) by (intro position_nth) (simp_all add: drop_map [symmetric])
    then show ?thesis
      using False i Some by (simp add: on_compacted_def nat_diff_distrib')
  qed
qed

subsection \<open>Every index follows its reminder\<close>

text \<open>
  Reminders are added while no tool call waits for its result; and no compaction ends exactly at the last reminder
  of an injector, whose index would otherwise be taken to be that of the summary.
\<close>

fun inject_allowed :: "context_memory \<times> injectors \<Rightarrow> inject_op \<Rightarrow> bool" where
  "inject_allowed (s, ij) (In_Context plan_active op) \<longleftrightarrow>
     op_allowed s op \<and>
     (case op of
        Op_Apply_Compaction now res \<Rightarrow> cr_compacted_count res = 0 \<or> (\<forall>v. ij_at ij v \<noteq> Some (cr_compacted_count res - 1))
      | _ \<Rightarrow> True)"
| "inject_allowed (s, ij) op \<longleftrightarrow> cx_pending s = []"

fun all_injects_allowed :: "context_memory \<times> injectors \<Rightarrow> inject_op list \<Rightarrow> bool" where
  "all_injects_allowed st [] = True"
| "all_injects_allowed st (op # ops) = (inject_allowed st op \<and> all_injects_allowed (inject_step st op) ops)"

text \<open>\<open>moves s ij s' ij'\<close>: every index that was the position of an object is so still.\<close>

definition moves :: "context_memory \<Rightarrow> injectors \<Rightarrow> context_memory \<Rightarrow> injectors \<Rightarrow> bool" where
  "moves s ij s' ij' \<longleftrightarrow> cx_next s \<le> cx_next s' \<and> (\<forall>t\<in>set (tags s'). fst t < cx_next s \<longrightarrow> t \<in> set (tags s)) \<and>
     (\<forall>k v. k < cx_next s \<longrightarrow> position k (tags s) = ij_at ij v \<longrightarrow> position k (tags s') = ij_at ij' v)"

lemma extends_moves: "extends s s' \<Longrightarrow> (\<And>v. ij_at ij' v = ij_at ij v) \<Longrightarrow> moves s ij s' ij'"
proof -
  assume e: "extends s s'" and same: "\<And>v. ij_at ij' v = ij_at ij v"
  obtain new where new: "tags s' = tags s @ new" "\<forall>t\<in>set new. cx_next s \<le> fst t"
    using e by (auto simp: extends_def)
  have "k < cx_next s \<Longrightarrow> position k new = None" for k
    using new(2) by (fastforce simp: position_None)
  then show ?thesis
    using e same new by (fastforce simp: moves_def extends_def position_append split: option.split)
qed

lemma moves_trans: "moves s ij t ij1 \<Longrightarrow> moves t ij1 u ij2 \<Longrightarrow> moves s ij u ij2"
  unfolding moves_def by (meson less_le_trans order.trans)

lemma context_moves:
  assumes "context_ok s" "inject_allowed (s, ij) (In_Context pa op)"
  shows "context_ok (fst (inject_step (s, ij) (In_Context pa op)))"
    "moves s ij (fst (inject_step (s, ij) (In_Context pa op))) (snd (inject_step (s, ij) (In_Context pa op)))"
proof -
  have obj: "objects_inv s"
    using assms(1) by (simp add: context_ok_def)
  show "context_ok (fst (inject_step (s, ij) (In_Context pa op)))"
    using ctx_step_ok [of s op] assms by (cases op) (auto simp: Let_def split_def)
  show "moves s ij (fst (inject_step (s, ij) (In_Context pa op))) (snd (inject_step (s, ij) (In_Context pa op)))"
  proof (cases op)
    case (Op_Append now m)
    then show ?thesis
      using extends_append [of s now m] by (auto simp: Let_def split_def intro: extends_moves)
  next
    case (Op_Loop_Event now ev)
    then show ?thesis
      using extends_loop_event [of s now ev] by (auto simp: append_loop_event_def Let_def split_def intro: extends_moves)
  next
    case Op_Clear
    then show ?thesis
      by (simp add: moves_def clear_context_def micro_reset_def tags_def context_cleared_def)
  next
    case (Op_Undo wanted)
    then show ?thesis
      using undo_moves [OF obj, where b = False and wanted = wanted]
      by (auto simp: moves_def fold_removed Let_def split_def)
  next
    case (Op_Apply_Compaction now res)
    let ?n = "cr_compacted_count res" and ?s = "fst (apply_compaction now res s)"
    obtain new where new: "tags ?s = (cx_next s, Some Origin_Compaction_Summary) # drop ?n (tags s) @ new" "\<forall>t\<in>set new. cx_next s < fst t"
      using compaction_tags(1) by blast
    have "position k (tags ?s) = on_compacted ?n (position k (tags s))"
      if "k < cx_next s" "position k (tags s) = ij_at ij v" for k v
    proof -
      have "position k new = None"
        using new(2) that(1) by (fastforce simp: position_None)
      then have "position k (tags ?s) = map_option Suc (position k (drop ?n (tags s)))"
        using that(1) by (auto simp: new(1) position_append split: option.split)
      moreover have "position k (tags s) \<noteq> Some (?n - 1) \<or> ?n = 0"
        using assms(2) that(2) by (auto simp: Op_Apply_Compaction)
      ultimately show ?thesis
        using position_drop [OF _ refl] objectsD(1) [OF obj] by (simp add: fst_tags)
    qed
    moreover have "t \<in> set (tags s)" if "t \<in> set (tags ?s)" "fst t < cx_next s" for t
      using that new(2) set_drop_subset [of ?n "tags s"] by (auto simp: new(1))
    moreover have "cx_next s \<le> cx_next ?s"
      using compaction_tags(2) [of s now res] by simp
    ultimately have "moves s ij ?s (context_compacted ?n ij)"
      by (simp add: moves_def context_compacted_def)
    then show ?thesis
      by (simp add: Op_Apply_Compaction Let_def split_def)
  next
    case (Op_Micro_Apply k)
    then show ?thesis
      by (auto simp: micro_apply_def intro: extends_moves)
  qed
qed

definition indices_ok :: "context_memory \<Rightarrow> injectors \<Rightarrow> bool" where
  "indices_ok s ij \<longleftrightarrow> (\<forall>v i. ij_at ij v = Some i \<longrightarrow> i < length (tags s) \<and> snd (tags s ! i) = Some (Origin_Injection v))"

lemma tag_position: "objects_inv s \<Longrightarrow> i < length (tags s) \<Longrightarrow> position (fst (tags s ! i)) (tags s) = Some i"
  by (rule position_nth) (simp add: fst_tags objectsD(1))

lemma tag_old: "objects_inv s \<Longrightarrow> t \<in> set (tags s) \<Longrightarrow> fst t < cx_next s"
  using objectsD(2) by (fastforce simp: tags_def)

lemma moves_indices:
  assumes "moves s ij s' ij'" "indices_ok s ij" "objects_inv s" "objects_inv s'" "\<And>v. ij_at ij v = None \<Longrightarrow> ij_at ij' v = None"
  shows "indices_ok s' ij'"
  unfolding indices_ok_def
proof (intro allI impI)
  fix v j
  assume j: "ij_at ij' v = Some j"
  then obtain i where i: "ij_at ij v = Some i"
    using assms(5) by fastforce
  then have len: "i < length (tags s)" and origin: "snd (tags s ! i) = Some (Origin_Injection v)"
    using assms(2) by (auto simp: indices_ok_def)
  let ?k = "fst (tags s ! i)"
  have k: "?k < cx_next s" "position ?k (tags s) = Some i"
    using len assms(3) tag_old tag_position by auto
  then have pos: "position ?k (tags s') = Some j"
    using assms(1) i j unfolding moves_def by metis
  then have j': "j < length (tags s')" "fst (tags s' ! j) = ?k"
    using position_Some by blast+
  then have "tags s' ! j \<in> set (tags s)"
    using assms(1) k(1) nth_mem unfolding moves_def by metis
  then obtain i' where i': "i' < length (tags s)" "tags s ! i' = tags s' ! j"
    by (auto simp: in_set_conv_nth)
  then have "position ?k (tags s) = Some i'"
    using tag_position [OF assms(3) i'(1)] j'(2) by simp
  then have "i' = i"
    using k(2) by simp
  then show "j < length (tags s') \<and> snd (tags s' ! j) = Some (Origin_Injection v)"
    using j'(1) origin i'(2) by simp
qed

subsection \<open>Adding reminders\<close>

definition reminder_message :: "string \<Rightarrow> string \<Rightarrow> context_message" where
  "reminder_message v text' = user_message
     [TextPart (''<system-reminder>'' @ newline @ js_trim text' @ newline @ ''</system-reminder>'')] (Origin_Injection v)"

lemma reminder_fields:
  "cm_role (reminder_message v t) = Role_User" "cm_origin (reminder_message v t) = Some (Origin_Injection v)"
  "simple_message (reminder_message v t)" "is_reminder v (reminder_message v t)" "\<not> is_assistant (reminder_message v t)"
  by (simp_all add: reminder_message_def user_message_def plain_message_def simple_message_def is_reminder_def is_assistant_def)

lemma append_reminder:
  fixes v t :: string and now :: int and s :: context_memory
  assumes "cx_pending s = []"
  defines "s' \<equiv> fst (append_system_reminder now t (Origin_Injection v) s)"
  shows "history s' = history s @ [reminder_message v t]" "cx_pending s' = []" "extends s s'" "context_ok s \<Longrightarrow> context_ok s'"
proof -
  have s': "s' = fst (append_message now (reminder_message v t) s)"
    by (simp add: s'_def append_system_reminder_def reminder_message_def)
  show "history s' = history s @ [reminder_message v t]" "cx_pending s' = []" "extends s s'"
    using assms(1) unfolding s' by (simp_all add: append_message_def extends_push)
  show "context_ok s \<Longrightarrow> context_ok s'"
    unfolding s' context_ok_def using append_message_inv [of s "reminder_message v t" now] objects_more [of s now "[reminder_message v t]"] assms(1)
    by (simp add: reminder_fields append_message_def)
qed

text \<open>An injector only forgets its index, or finds a reminder of its own in the history.\<close>

definition tame :: "injection \<Rightarrow> bool" where
  "tame get \<longleftrightarrow> (\<forall>env s ij. indices_ok s ij \<longrightarrow> indices_ok s (fst (get env (history s) ij)))"

lemma indices_forget:
  "indices_ok s ij \<Longrightarrow> ij_at ij' = ij_at ij \<Longrightarrow> indices_ok s ij'"
  "indices_ok s ij \<Longrightarrow> indices_ok s (set_at v None ij)"
  by (simp_all add: indices_ok_def set_at_def)

lemma tags_nth: "i < length (cx_history s) \<Longrightarrow> snd (tags s ! i) = cm_origin (history s ! i)"
  by (simp add: tags_def case_prod_unfold)

lemma length_tags [simp]: "length (tags s) = length (cx_history s)"
  by (simp add: tags_def)

lemma tame_session_start: "tame session_start_injection"
proof -
  have "indices_ok s (set_at v (Some i) ij)" if "indices_ok s ij" "find_index (is_reminder v) (history s) = Some i" for s v i ij
  proof -
    have "i < length (cx_history s)" "snd (tags s ! i) = Some (Origin_Injection v)"
      using find_index_Some [OF that(2)] by (auto simp: is_reminder_def tags_nth)
    then show ?thesis
      using that(1) by (simp add: indices_ok_def set_at_def)
  qed
  then show ?thesis
    by (simp add: tame_def session_start_injection_def split: option.split)
qed

lemma tame_injections:
  "tame todo_injection" "tame plan_mode_injection" "tame plan_tracker_injection" "tame permission_mode_injection"
  "tame goal_mode_injection"
  by (simp_all add: tame_def todo_injection_def plan_mode_injection_def plan_tracker_injection_def permission_mode_injection_def
      goal_mode_injection_def Let_def indices_forget set_at_def indices_ok_def split: option.split)

definition ready_to_remind :: "context_memory \<times> injectors \<Rightarrow> bool" where
  "ready_to_remind = (\<lambda>(s, ij). context_ok s \<and> cx_pending s = [] \<and> indices_ok s ij)"

text \<open>Adding reminders: the history grows by messages that are not the assistant's.\<close>

definition reminds :: "context_memory \<times> injectors \<Rightarrow> context_memory \<times> injectors \<Rightarrow> bool" where
  "reminds st st' \<longleftrightarrow> (\<exists>ms. history (fst st') = history (fst st) @ ms \<and> list_all (\<lambda>m. \<not> is_assistant m) ms) \<and> extends (fst st) (fst st')"

lemma reminds_refl [simp]: "reminds st st"
  by (simp add: reminds_def)

lemma reminds_trans: "reminds st st1 \<Longrightarrow> reminds st1 st2 \<Longrightarrow> reminds st st2"
  unfolding reminds_def by (fastforce intro: extends_trans)

lemma inject_one_reminds:
  assumes "ready_to_remind st" "tame get"
  shows "ready_to_remind (inject_one env (v, get) st)" "reminds st (inject_one env (v, get) st)"
proof -
  obtain s ij where st: "st = (s, ij)" "context_ok s" "cx_pending s = []" "indices_ok s ij"
    using assms(1) by (cases st) (simp add: ready_to_remind_def)
  obtain ij1 text' where get: "get env (history s) ij = (ij1, text')"
    by fastforce
  then have ij1: "indices_ok s ij1"
    using assms(2) st(4) unfolding tame_def by (metis fst_conv)
  note new = append_reminder [OF st(3)]
  have "indices_ok (fst (append_system_reminder now t (Origin_Injection v) s)) (set_at v (Some (length (cx_history s))) ij1)" for now t
  proof -
    let ?s = "fst (append_system_reminder now t (Origin_Injection v) s)"
    obtain more where more: "tags ?s = tags s @ more"
      using new(3) unfolding extends_def by blast
    have len: "length (cx_history ?s) = Suc (length (cx_history s))"
      using arg_cong [OF new(1), of length] by simp
    then have "snd (tags ?s ! length (cx_history s)) = Some (Origin_Injection v)"
      using new(1) by (simp add: tags_nth nth_append reminder_fields)
    moreover have "length (cx_history s) < length (cx_history ?s)"
      using len by simp
    moreover have "i < length (cx_history ?s) \<and> tags ?s ! i = tags s ! i" if "i < length (cx_history s)" for i
      using that len by (simp add: more nth_append)
    ultimately show ?thesis
      using ij1 len by (auto simp: indices_ok_def set_at_def less_Suc_eq)
  qed
  then show "ready_to_remind (inject_one env (v, get) st)"
    using st ij1 new by (auto simp: ready_to_remind_def inject_one_def get split: option.split)
  show "reminds st (inject_one env (v, get) st)"
    using new reminder_fields by (auto simp: reminds_def inject_one_def get st(1) split: option.split)
qed

lemmas tame_all = tame_session_start tame_injections

lemma inject_steps_reminds:
  assumes "ready_to_remind st"
  shows "ready_to_remind (inject_steps env st)" "reminds st (inject_steps env st)"
proof -
  have "ready_to_remind (fold (inject_one env) is st) \<and> reminds st (fold (inject_one env) is st)"
    if "list_all (\<lambda>(v, get). tame get) is" "ready_to_remind st" for "is" st
    using that
  proof (induction "is" arbitrary: st)
    case (Cons i "is")
    obtain v get where i: "i = (v, get)" "tame get"
      using Cons.prems(1) by (cases i) auto
    note one = inject_one_reminds [OF Cons.prems(2) i(2), of env v]
    have "list_all (\<lambda>(v, get). tame get) is"
      using Cons.prems(1) by simp
    from Cons.IH [OF this one(1)] one(2) show ?case
      by (auto simp: i(1) intro: reminds_trans)
  qed simp
  from this [of step_injectors, OF _ assms] show "ready_to_remind (inject_steps env st)" "reminds st (inject_steps env st)"
    by (simp_all add: inject_steps_def step_injectors_def tame_all)
qed

lemma inject_step_ok:
  assumes "context_ok (fst st)" "indices_ok (fst st) (snd st)" "inject_allowed st op"
  shows "context_ok (fst (inject_step st op)) \<and> indices_ok (fst (inject_step st op)) (snd (inject_step st op))"
proof -
  obtain s ij where st: "st = (s, ij)"
    by fastforce
  show ?thesis
  proof (cases op)
    case (In_Context pa o')
    note m = context_moves [of s ij pa o']
    have "ij_at ij v = None \<Longrightarrow> ij_at (snd (inject_step (s, ij) (In_Context pa o'))) v = None" for v
    proof -
      have "fold on_removed is None = None" for "is"
        by (induction "is") (simp_all add: on_removed_def)
      then show "ij_at ij v = None \<Longrightarrow> ij_at (snd (inject_step (s, ij) (In_Context pa o'))) v = None"
        by (simp add: context_cleared_def context_compacted_def on_compacted_def fold_removed split: ctx_op.split)
    qed
    then show ?thesis
      using m assms moves_indices unfolding st In_Context by (simp add: context_ok_def del: inject_step.simps)
  next
    case (In_Steps env)
    then show ?thesis
      using assms inject_steps_reminds(1) [of st env] by (auto simp: st ready_to_remind_def split: prod.splits)
  next
    case (In_Goal main env)
    then show ?thesis
      using assms inject_one_reminds(1) [of st goal_mode_injection env "''goal''"] tame_all
      by (auto simp: st ready_to_remind_def inject_goal_def split: prod.splits)
  qed
qed

definition fresh_session :: "context_memory \<times> injectors" where
  "fresh_session = (empty_context, new_injectors)"

lemma inject_session_ok:
  assumes "all_injects_allowed fresh_session ops"
  shows "context_ok (fst (foldl inject_step fresh_session ops)) \<and>
    indices_ok (fst (foldl inject_step fresh_session ops)) (snd (foldl inject_step fresh_session ops))"
proof -
  have "context_ok (fst (foldl inject_step st ops)) \<and> indices_ok (fst (foldl inject_step st ops)) (snd (foldl inject_step st ops))"
    if "all_injects_allowed st ops" "context_ok (fst st)" "indices_ok (fst st) (snd st)" for st
    using that
  proof (induction ops arbitrary: st)
    case (Cons op ops)
    then show ?case
      using inject_step_ok [of st op] by simp
  qed simp
  then show ?thesis
    using assms empty_context_ok(1) by (simp add: fresh_session_def indices_ok_def new_injectors_def)
qed

lemma run_context_moves:
  assumes "context_ok s" "all_injects_allowed (s, ij) ops" "list_all (\<lambda>op. \<exists>pa o'. op = In_Context pa o') ops"
  shows "moves s ij (fst (foldl inject_step (s, ij) ops)) (snd (foldl inject_step (s, ij) ops))"
  using assms
proof (induction ops arbitrary: s ij)
  case Nil
  then show ?case
    by (simp add: moves_def)
next
  case (Cons op ops)
  obtain pa o' where op: "op = In_Context pa o'"
    using Cons.prems(3) by auto
  obtain s1 ij1 where step: "inject_step (s, ij) (In_Context pa o') = (s1, ij1)"
    by fastforce
  have "context_ok s1" "moves s ij s1 ij1"
    using context_moves [OF Cons.prems(1), of ij pa o'] Cons.prems(2) unfolding op by (simp_all add: step del: inject_step.simps)
  moreover have "moves s1 ij1 (fst (foldl inject_step (s1, ij1) ops)) (snd (foldl inject_step (s1, ij1) ops))"
    using Cons.IH [of s1 ij1] Cons.prems(2,3) calculation(1) unfolding op by (simp add: step del: inject_step.simps)
  ultimately show ?case
    unfolding op by (auto simp: step simp del: inject_step.simps intro: moves_trans)
qed

text \<open>
  The index an injector keeps is that of its reminder in every session. It always names a reminder of its
  variant, and while the conversation grows, is undone, compacted and cleared it stays the position of that same
  message, and is forgotten exactly when the message is gone.
\<close>

theorem index_follows_reminder:
  assumes "all_injects_allowed fresh_session (ops @ rest)" "list_all (\<lambda>op. \<exists>pa o'. op = In_Context pa o') rest"
    "foldl inject_step fresh_session ops = (s, ij)" "foldl inject_step (s, ij) rest = (s', ij')" "ij_at ij v = Some i"
  shows "i < length (cx_history s) \<and> is_reminder v (history s ! i) \<and>
    ij_at ij' v = find_index (\<lambda>t. fst t = fst (cx_history s ! i)) (cx_history s')"
proof -
  have allowed: "all_injects_allowed fresh_session ops" "all_injects_allowed (s, ij) rest"
  proof -
    have "all_injects_allowed st (xs @ ys) \<longleftrightarrow> all_injects_allowed st xs \<and> all_injects_allowed (foldl inject_step st xs) ys" for st xs ys
      by (induction xs arbitrary: st) simp_all
    then show "all_injects_allowed fresh_session ops" "all_injects_allowed (s, ij) rest"
      using assms(1,3) by simp_all
  qed
  have ok: "context_ok s" "indices_ok s ij"
    using inject_session_ok [OF allowed(1)] assms(3) by simp_all
  then have obj: "objects_inv s"
    by (simp add: context_ok_def)
  have i: "i < length (cx_history s)" "snd (tags s ! i) = Some (Origin_Injection v)"
    using ok(2) assms(5) by (auto simp: indices_ok_def)
  have k: "fst (tags s ! i) = fst (cx_history s ! i)"
    using i(1) by (simp add: tags_def case_prod_unfold)
  have "position (fst (cx_history s ! i)) (tags s) = ij_at ij v"
    using tag_position [OF obj, of i] i(1) k assms(5) by simp
  moreover have "fst (cx_history s ! i) < cx_next s"
    using tag_old [OF obj, of "tags s ! i"] i(1) k by simp
  ultimately have "position (fst (cx_history s ! i)) (tags s') = ij_at ij' v"
    using run_context_moves [OF ok(1) allowed(2) assms(2)] assms(4) by (simp add: moves_def)
  then show ?thesis
    using i tags_nth [OF i(1)] by (simp add: is_reminder_def tags_def position_tag)
qed

subsection \<open>Reminders stay near\<close>

definition reminded_within :: "string \<Rightarrow> nat \<Rightarrow> context_message list \<Rightarrow> bool" where
  "reminded_within v n ms \<longleftrightarrow> (\<exists>i<length ms. is_reminder v (ms ! i) \<and> assistant_turns_since ms i \<le> n)"

lemma reminded_append:
  assumes "reminded_within v n ms" "list_all (\<lambda>m. \<not> is_assistant m) new"
  shows "reminded_within v n (ms @ new)"
proof -
  obtain i where i: "i < length ms" "is_reminder v (ms ! i)" "assistant_turns_since ms i \<le> n"
    using assms(1) by (auto simp: reminded_within_def)
  have "filter is_assistant new = []"
    using assms(2) by (simp add: filter_empty_conv list_all_iff)
  then have "assistant_turns_since (ms @ new) i = assistant_turns_since ms i"
    using i(1) by (simp add: assistant_turns_since_def)
  then show ?thesis
    using i by (auto simp: reminded_within_def nth_append intro!: exI [of _ i])
qed

lemma reminded_keeps:
  "reminded_within v n (history (fst st)) \<Longrightarrow> reminds st st' \<Longrightarrow> reminded_within v n (history (fst st'))"
  by (auto simp: reminds_def reminded_append)

lemma reminded_now: "reminded_within v n (ms @ [reminder_message v t])"
  by (auto simp: reminded_within_def assistant_turns_since_def nth_append reminder_fields intro!: exI [of _ "length ms"])

lemma variant_scan_None: "variant_scan ms k = None \<Longrightarrow> k + length (filter is_assistant ms) < 2"
  by (induction ms k rule: variant_scan.induct) (auto simp: is_assistant_def split: if_splits)

lemma plan_reminder_neq: "plan_reminder v p \<noteq> []"
  by (cases v) (simp_all add: plan_reminder_def with_plan_file_footer_def inline_full_text_def inline_sparse_text_def
      inline_reentry_text_def split: option.split)

lemma summary_text_neq: "tr_data t \<noteq> None \<Longrightarrow> summary_text t \<noteq> []"
  by (auto simp: summary_text_def Let_def)

lemma inject_one_text:
  assumes "ready_to_remind (s, ij)" "get env (history s) ij = (ij1, Some t)" "t \<noteq> []"
  shows "reminded_within v n (history (fst (inject_one env (v, get) (s, ij))))"
proof -
  have "cx_pending s = []"
    using assms(1) by (simp add: ready_to_remind_def)
  from append_reminder(1) [OF this] show ?thesis
    using assms(2,3) by (simp add: inject_one_def reminded_now)
qed

lemma index_near:
  assumes "ready_to_remind (s, ij)" "ij_at ij v = Some i" "assistant_turns_since (history s) i \<le> n"
  shows "reminded_within v n (history s)"
proof -
  have "i < length (cx_history s) \<and> is_reminder v (history s ! i)"
    using assms(1,2) tags_nth [of i s] by (auto simp: ready_to_remind_def indices_ok_def is_reminder_def)
  then show ?thesis
    using assms(3) by (auto simp: reminded_within_def intro!: exI [of _ i])
qed

lemma plan_mode_reminded:
  assumes "ready_to_remind (s, ij)" "ev_plan_active env"
  shows "reminded_within ''plan_mode'' 1 (history (fst (inject_one env (''plan_mode'', plan_mode_injection) (s, ij))))"
proof -
  obtain ij1 t where get: "plan_mode_injection env (history s) ij = (ij1, t)"
    by fastforce
  show ?thesis
  proof (cases t)
    case (Some text')
    then have "text' \<noteq> []"
      using get assms(2) plan_reminder_neq by (auto simp: plan_mode_injection_def Let_def split: if_splits)
    then show ?thesis
      using inject_one_text [OF assms(1)] get Some by simp
  next
    case None
    then have "plan_variant_for (history s) (ij_at ij ''plan_mode'') = None"
      using get assms(2) by (auto simp: plan_mode_injection_def Let_def plan_variant_for_def set_at_def split: if_splits)
    then obtain i where "ij_at ij ''plan_mode'' = Some i" "variant_scan (drop (Suc i) (history s)) 0 = None"
      by (auto simp: plan_variant_for_def split: option.splits)
    then have "reminded_within ''plan_mode'' 1 (history s)"
      using index_near [OF assms(1), of "''plan_mode''" i 1] variant_scan_None [of "drop (Suc i) (history s)" 0]
      by (simp add: assistant_turns_since_def)
    then show ?thesis
      using get None by (simp add: inject_one_def)
  qed
qed

lemma plan_tracker_reminded:
  assumes "ready_to_remind (s, ij)" "tr_data (ev_tracker env) \<noteq> None" "\<not> is_complete (ev_tracker env)"
  shows "reminded_within ''plan_tracker'' 7 (history (fst (inject_one env (''plan_tracker'', plan_tracker_injection) (s, ij))))"
proof -
  obtain ij1 t where get: "plan_tracker_injection env (history s) ij = (ij1, t)"
    by fastforce
  show ?thesis
  proof (cases t)
    case (Some text')
    then have "text' \<noteq> []"
      using get assms(2) summary_text_neq by (auto simp: plan_tracker_injection_def Let_def split: if_splits option.splits)
    then show ?thesis
      using inject_one_text [OF assms(1)] get Some by simp
  next
    case None
    then obtain i where "ij_at ij ''plan_tracker'' = Some i" "assistant_turns_since (history s) i \<le> 7"
      using get assms(2,3) by (auto simp: plan_tracker_injection_def Let_def split: if_splits option.splits)
    then have "reminded_within ''plan_tracker'' 7 (history s)"
      by (rule index_near [OF assms(1)])
    then show ?thesis
      using get None by (simp add: inject_one_def)
  qed
qed

text \<open>
  Before every step of a session the model has been reminded of what holds. While plan mode is active the last
  answer at most stands between its last reminder and the end of the conversation, whatever was undone, compacted
  and cleared before; and while a tracked plan is not finished, seven answers at most follow its summary.
\<close>

theorem reminders_stay_near:
  assumes "all_injects_allowed fresh_session (ops @ [In_Steps env])"
  shows "(ev_plan_active env \<longrightarrow> reminded_within ''plan_mode'' 1 (history (fst (foldl inject_step fresh_session (ops @ [In_Steps env]))))) \<and>
    (tr_data (ev_tracker env) \<noteq> None \<and> \<not> is_complete (ev_tracker env) \<longrightarrow>
       reminded_within ''plan_tracker'' 7 (history (fst (foldl inject_step fresh_session (ops @ [In_Steps env])))))"
proof -
  let ?st = "foldl inject_step fresh_session ops"
  have split_allowed: "all_injects_allowed st (xs @ ys) \<longleftrightarrow> all_injects_allowed st xs \<and> all_injects_allowed (foldl inject_step st xs) ys" for st xs ys
    by (induction xs arbitrary: st) simp_all
  have ready: "ready_to_remind ?st"
    using inject_session_ok [of ops] assms by (auto simp: split_allowed ready_to_remind_def split: prod.splits)
  let ?st1 = "inject_one env (''plugin_session_start'', session_start_injection) ?st"
  let ?st2 = "inject_one env (''todo_list_reminder'', todo_injection) ?st1"
  let ?st3 = "inject_one env (''plan_mode'', plan_mode_injection) ?st2"
  let ?st4 = "inject_one env (''plan_tracker'', plan_tracker_injection) ?st3"
  let ?st5 = "inject_one env (''permission_mode'', permission_mode_injection) ?st4"
  have run: "foldl inject_step fresh_session (ops @ [In_Steps env]) = ?st5"
    by (cases ?st) (simp add: inject_steps_def step_injectors_def)
  note r = inject_one_reminds
  have r2: "ready_to_remind ?st2"
    by (rule r(1) [OF r(1) [OF ready tame_session_start] tame_injections(1)])
  then have r3: "ready_to_remind ?st3" and m3: "reminds ?st2 ?st3"
    using r [OF _ tame_injections(2)] by blast+
  then have r4: "ready_to_remind ?st4" and m4: "reminds ?st3 ?st4"
    using r [OF _ tame_injections(3)] by blast+
  then have m5: "reminds ?st4 ?st5"
    using r [OF _ tame_injections(4)] by blast
  show ?thesis
    unfolding run
    using plan_mode_reminded [of "fst ?st2" "snd ?st2" env] plan_tracker_reminded [of "fst ?st3" "snd ?st3" env] r2 r3
      reminded_keeps [OF _ m4] reminded_keeps [OF _ m5] by (metis prod.collapse)
qed

subsection \<open>The todo list\<close>

lemma todo_scan_counts:
  "todo_scan writes wrote reminded w r ms =
     (if wrote then w else w + length (filter is_assistant (takeWhile (\<lambda>m. \<not> (is_assistant m \<and> has_todo_write writes m)) ms)),
      if reminded then r else r + length (filter is_assistant (takeWhile (\<lambda>m. is_assistant m \<or> \<not> is_reminder ''todo_list_reminder'' m) ms)))"
  by (induction writes wrote reminded w r ms rule: todo_scan.induct) (simp_all add: Let_def)

text \<open>
  The loop over the history counts what it is meant to: the answers after the last answer that wrote the todo
  list, and those after the last reminder; the reminder is due when both are at least ten.
\<close>

theorem todo_reminder_due:
  "(snd (todo_injection env ms ij) \<noteq> None) =
     (ev_todo_active env \<and>
      10 \<le> length (filter is_assistant (takeWhile (\<lambda>m. \<not> (is_assistant m \<and> has_todo_write (ev_writes_todos env) m)) (rev ms))) \<and>
      10 \<le> length (filter is_assistant (takeWhile (\<lambda>m. is_assistant m \<or> \<not> is_reminder ''todo_list_reminder'' m) (rev ms))))"
  by (auto simp: todo_injection_def todo_turn_counts_def todo_scan_counts)

subsection \<open>Where reminders are missed\<close>

text \<open>
  When a compaction ends at the reminder of plan mode, the injector takes the summary for it: the step after the
  compaction is made without any reminder, although plan mode is active.
\<close>

theorem compaction_takes_summary_for_reminder:
  assumes "cr_compacted_count res = length (cx_history s)" "cx_history s \<noteq> []" "cx_deferred s = []"
    "ij_at ij ''plan_mode'' = Some (length (cx_history s) - 1)" "ij_plan_was_active ij" "ev_plan_active env"
  shows "case inject_one env (''plan_mode'', plan_mode_injection) (inject_step (s, ij) (In_Context True (Op_Apply_Compaction now res))) of
    (s', ij') \<Rightarrow> map cm_origin (history s') = [Some Origin_Compaction_Summary] \<and> ij_at ij' ''plan_mode'' = Some 0"
proof -
  have "int (length (cx_history s) - 1) - int (length (cx_history s)) + 1 = 0"
    using assms(2) by (cases "cx_history s") simp_all
  then show ?thesis
    using assms
    by (simp add: inject_one_def plan_mode_injection_def plan_variant_for_def context_compacted_def on_compacted_def apply_compaction_def
        micro_reset_def flush_deferred_def plain_message_def Let_def)
qed

lemma inject_one_cases:
  "cx_pending s = [] \<Longrightarrow>
   (history (fst (inject_one env (v, get) (s, ij))) = history s \<or>
    (\<exists>t. history (fst (inject_one env (v, get) (s, ij))) = history s @ [reminder_message v t])) \<and>
   cx_pending (fst (inject_one env (v, get) (s, ij))) = [] \<and>
   (snd (inject_one env (v, get) (s, ij)) = fst (get env (history s) ij) \<or>
    (\<exists>i. snd (inject_one env (v, get) (s, ij)) = set_at v i (fst (get env (history s) ij))))"
  using append_reminder(1,2) by (auto simp: inject_one_def split: prod.split option.split)

definition untold :: "permission_mode \<Rightarrow> context_memory \<times> injectors \<Rightarrow> bool" where
  "untold mode = (\<lambda>(s, ij). cx_pending s = [] \<and> ij_last_mode ij = Some mode \<and>
     (\<forall>m\<in>set (history s). \<not> is_reminder ''permission_mode'' m))"

lemma untold_other:
  assumes "untold mode st" "v \<noteq> ''permission_mode''" "\<And>ms ij. ij_last_mode (fst (get env ms ij)) = ij_last_mode ij"
  shows "untold mode (inject_one env (v, get) st)"
proof -
  obtain s ij where st: "st = (s, ij)" "cx_pending s = []" "ij_last_mode ij = Some mode" "\<forall>m\<in>set (history s). \<not> is_reminder ''permission_mode'' m"
    using assms(1) by (cases st) (auto simp: untold_def)
  have other: "\<not> is_reminder ''permission_mode'' (reminder_message v t)" for t
    using assms(2) by (simp add: is_reminder_def reminder_fields)
  obtain s1 ij1 where r: "inject_one env (v, get) (s, ij) = (s1, ij1)"
    by fastforce
  note new = inject_one_cases [OF st(2), of env v get ij, unfolded r fst_conv snd_conv]
  then consider "history s1 = history s" | t where "history s1 = history s @ [reminder_message v t]"
    by blast
  then have "\<forall>m\<in>set (history s1). \<not> is_reminder ''permission_mode'' m"
    using st(4) other by cases (simp_all only: set_append ball_Un list.set ball_simps, simp_all)
  moreover have "ij_last_mode ij1 = Some mode"
    using new assms(3) st(3) by (auto simp: set_at_def)
  ultimately show ?thesis
    using new by (simp add: st(1) r untold_def)
qed

text \<open>
  In auto mode the reminder of the mode is given once. After the conversation is cleared, or compacted so that it
  falls away, no step brings it back while the mode stays.
\<close>

theorem auto_reminder_not_repeated:
  assumes "ij_last_mode ij = Some (ev_mode env)" "cx_deferred s = []" "cx_pending s = []" "cr_compacted_count res = length (cx_history s)"
    "op = Op_Clear \<or> op = Op_Apply_Compaction now res"
  shows "\<forall>m\<in>set (history (fst (foldl inject_step (s, ij) [In_Context pa op, In_Steps env]))). \<not> is_reminder ''permission_mode'' m"
proof -
  have "untold (ev_mode env) (inject_step (s, ij) (In_Context pa op))"
    using assms
    by (auto simp: untold_def clear_context_def micro_reset_def context_cleared_def context_compacted_def apply_compaction_def
        flush_deferred_def plain_message_def is_reminder_def Let_def)
  moreover have "untold (ev_mode env) (inject_steps env st)" if "untold (ev_mode env) st" for st
  proof -
    let ?st4 = "fold (inject_one env) (take 4 step_injectors) st"
    have four: "untold (ev_mode env) ?st4"
      unfolding step_injectors_def using that
      by (auto intro!: untold_other simp: session_start_injection_def todo_injection_def plan_mode_injection_def plan_tracker_injection_def
          set_at_def Let_def split: option.split)
    then have "inject_one env (''permission_mode'', permission_mode_injection) ?st4 = ?st4"
      by (cases ?st4) (simp add: untold_def inject_one_def permission_mode_injection_def)
    then show ?thesis
      using four by (simp add: inject_steps_def step_injectors_def)
  qed
  ultimately have "untold (ev_mode env) (inject_step (inject_step (s, ij) (In_Context pa op)) (In_Steps env))"
    by (cases "inject_step (s, ij) (In_Context pa op)") (simp del: inject_step.simps(1))
  then show ?thesis
    by (simp add: untold_def split_beta del: inject_step.simps)
qed

text \<open>
  A second plan is not announced when it is approved. While fewer than eight answers follow the summary of the
  first plan, the injector stays silent whatever plan is tracked now.
\<close>

theorem second_plan_not_announced:
  assumes "cx_pending s = []" "ij_at ij ''plan_tracker'' = None" "tr_data (ev_tracker env) \<noteq> None" "\<not> is_complete (ev_tracker env)"
    "\<not> ij_compacted ij"
  shows "case inject_one env (''plan_tracker'', plan_tracker_injection) (s, ij) of
    (s1, ij1) \<Rightarrow> history s1 = history s @ [reminder_message ''plan_tracker'' (summary_text (ev_tracker env))] \<and>
      inject_one env2 (''plan_tracker'', plan_tracker_injection) (s1, ij1) = (s1, ij1)"
proof -
  have text': "plan_tracker_injection env (history s) ij = (ij, Some (summary_text (ev_tracker env)))" "summary_text (ev_tracker env) \<noteq> []"
    using assms(2-5) summary_text_neq by (auto simp: plan_tracker_injection_def Let_def)
  note new = append_reminder(1) [OF assms(1), of "ev_now env" "summary_text (ev_tracker env)" "''plan_tracker''"]
  have len: "length (cx_history (fst (append_system_reminder (ev_now env) (summary_text (ev_tracker env)) (Origin_Injection ''plan_tracker'') s))) = Suc (length (cx_history s))"
    using arg_cong [OF new, of length] by simp
  show ?thesis
    using text' new assms(5)
    by (simp add: inject_one_def set_at_def plan_tracker_injection_def assistant_turns_since_def len Let_def)
qed

text \<open>The objective of a goal cannot close the block it is quoted in.\<close>

lemma untrusted_text_stays_quoted: "CHR ''<'' \<notin> set (escape_untrusted s) \<and> CHR ''>'' \<notin> set (escape_untrusted s)"
  by (auto simp: escape_untrusted_def replace_all_def split: if_splits)

subsection \<open>Witnesses\<close>

definition sample_inject_env :: inject_env where
  "sample_inject_env = \<lparr>ev_now = 0, ev_starts = [], ev_registry = None, ev_todo_active = False, ev_todos = [], ev_writes_todos = (\<lambda>a. False),
     ev_plan_active = True, ev_plan_path = None, ev_plan_content = False, ev_tracker = tracking (sample_plan [sample_task ''a'' Pl_Pending []] ''a''),
     ev_mode = Mode_Manual, ev_goal = None\<rparr>"

lemma sample_incomplete: "tr_data (ev_tracker sample_inject_env) \<noteq> None" "\<not> is_complete (ev_tracker sample_inject_env)"
  by (simp_all add: sample_inject_env_def tracking_def sample_plan_def sample_task_def is_complete_def resolved_task_def)

theorem reminders_stay_near_witness:
  "reminded_within ''plan_mode'' 1 (history (fst (foldl inject_step fresh_session [In_Context True Op_Clear, In_Steps sample_inject_env]))) \<and>
   reminded_within ''plan_tracker'' 7 (history (fst (foldl inject_step fresh_session [In_Context True Op_Clear, In_Steps sample_inject_env])))"
proof -
  have "all_injects_allowed fresh_session ([In_Context True Op_Clear] @ [In_Steps sample_inject_env])"
    by (simp add: fresh_session_def clear_context_def micro_reset_def)
  from reminders_stay_near [OF this] show ?thesis
    using sample_incomplete by (simp add: sample_inject_env_def del: inject_step.simps)
qed

lemma sample_reminded:
  "ij_at (snd (inject_step fresh_session (In_Steps sample_inject_env))) ''plan_mode'' = Some 0"
  "cx_pending (fst (inject_step fresh_session (In_Steps sample_inject_env))) = []"
  by (simp_all add: fresh_session_def inject_steps_def step_injectors_def inject_one_def session_start_injection_def todo_injection_def
      plan_mode_injection_def plan_variant_for_def plan_tracker_injection_def permission_mode_injection_def sample_inject_env_def
      new_injectors_def empty_context_def set_at_def plan_reminder_neq append_system_reminder_def append_message_def Let_def
      split: option.split)

theorem index_follows_reminder_witness:
  "is_reminder ''plan_mode'' (history (fst (inject_step fresh_session (In_Steps sample_inject_env))) ! 0) \<and>
   ij_at (snd (inject_step (inject_step fresh_session (In_Steps sample_inject_env)) (In_Context True Op_Clear))) ''plan_mode'' = None"
proof -
  obtain s ij where st: "inject_step fresh_session (In_Steps sample_inject_env) = (s, ij)"
    by fastforce
  obtain s' ij' where st': "inject_step (s, ij) (In_Context True Op_Clear) = (s', ij')"
    by fastforce
  have "all_injects_allowed fresh_session ([In_Steps sample_inject_env] @ [In_Context True Op_Clear])"
    by (simp add: st del: inject_step.simps) (simp add: fresh_session_def empty_context_def)
  from index_follows_reminder [OF this, of s ij s' ij' "''plan_mode''" 0] show ?thesis
    using st st' sample_reminded(1) by (simp del: inject_step.simps(2,3)) (auto simp: context_cleared_def)
qed

end
