(* ===== verification/Spec2Isabelle.thy ===== *)
theory Spec2Isabelle
  imports Tool_Scheduler Tool_Call Tool_Dedup Permission_Approval Goal_Mode Task_Registry Subagent_Batch Turn_Loop Compaction Cron_Tools Turn_Flow Turn_Ownership Record_Store Blob_Store Background_Output Injections
begin

text \<open>
  \<^bold>\<open>The program.\<close> The repository is a terminal agent. A session holds agents; an agent holds a
  conversation and runs turns. A turn calls a language model until it stops, runs the tools the
  model asks for in between, and records every event, so that a session can be resumed by
  replaying its records. The package \<open>packages/agent-core\<close> is the core and is what this
  development models, with the value types of \<open>packages/kosong\<close>.

  \<^bold>\<open>Theories and sources.\<close> Paths are relative to \<open>packages/agent-core/src\<close>.

  \<^item> \<open>Prelude\<close>: strings, options, association lists; the locales \<open>machine\<close> (operations that keep
    an invariant), \<open>guarded_machine\<close> (operations that keep it where callers keep to a protocol),
    \<open>monotone_machine\<close> and \<open>event_sourced\<close> (operations whose log, replayed, rebuilds the state).
    Components interpret them on their own operations.
  \<^item> \<open>Turn_Loop\<close>: \<open>loop/run-turn.ts\<close>, \<open>turn-step.ts\<close>, \<open>retry.ts\<close>. A turn is a partial function
    that gives its events and its result. The lemmas show the shape of the record on every way
    out, that a limited turn returns, and what the attempts of one call come to.
  \<^item> \<open>Tool_Call\<close>: \<open>loop/tool-call.ts\<close>, the batch of tool calls of one step. Calls and results are
    paired on every path. \<open>Tool_Result\<close> holds the normalisation of results,
    \<open>agent/turn/tool-result-budget.ts\<close> included.
  \<^item> \<open>Tool_Access\<close> and \<open>Tool_Scheduler\<close>: \<open>loop/tool-access.ts\<close>, \<open>loop/tool-scheduler.ts\<close>. Which
    declared accesses conflict, and the scheduler that runs calls that do not.
  \<^item> \<open>Json\<close> and \<open>Tool_Dedup\<close>: \<open>agent/turn/canonical-args.ts\<close>, \<open>agent/turn/tool-dedup.ts\<close>.
  \<^item> \<open>Context_Memory\<close>: \<open>agent/context/index.ts\<close>, the conversation. Its history is a list of objects
    with identities, because open steps are mutated through references. The predicate \<open>exchange\<close>
    reads a history as a protocol of calls and results; the theorems show that the operations
    keep it when their callers keep to the protocol stated as \<open>keeps_protocol\<close>, which not all callers
    do, and that a replay rebuilds the conversation or throws at the first event the session refused.
  \<^item> \<open>Context_Projection\<close>: \<open>agent/context/projector.ts\<close> and \<open>agent/compaction/micro.ts\<close>, what the
    model is sent. The loop is shown to implement a specification by groups of prompts.
  \<^item> \<open>Compaction\<close>: \<open>agent/compaction/strategy.ts\<close>, \<open>smart-strategy.ts\<close> and a round of \<open>full.ts\<close>.
    It composes the strategy, the projection and the conversation: summarising with the default
    strategy keeps the protocol, while the summarised messages keep their contents.
  \<^item> \<open>Path_Access\<close> and \<open>Git_Worktree\<close>: \<open>tools/policies/path-access.ts\<close>, \<open>sensitive.ts\<close>,
    \<open>tools/support/git-worktree.ts\<close>.
  \<^item> \<open>Agent_Modes\<close>, \<open>Permission_Rules\<close>, \<open>Permission_Policies\<close>, \<open>Permission_Manager\<close>,
    \<open>Permission_Safety\<close>, \<open>Permission_Approval\<close>: \<open>agent/plan\<close>, \<open>agent/swarm\<close> and
    \<open>agent/permission\<close>. Plan and swarm mode, the patterns of rules, the chain of policies, the
    manager that asks and remembers, and what the chain guarantees.
  \<^item> \<open>Goal_Mode\<close>: \<open>agent/goal\<close>. \<open>Task_Registry\<close>: \<open>session/task-registry.ts\<close>.
  \<^item> \<open>Subagent_Batch\<close>: \<open>session/subagent-batch.ts\<close>, a pool of subagents with rate limits.
  \<^item> \<open>Calendar\<close>, \<open>Cron_Expr\<close>, \<open>Cron_Scheduler\<close>, \<open>Cron_Manager\<close>, \<open>Cron_Tools\<close>: \<open>tools/cron\<close> and
    \<open>agent/cron\<close>. The calendar of the language, the parser and the search for the next run, jitter
    and the tick, the store with its directory, and the tools. The scheduler relies on its owner
    through the locale \<open>cron_owner\<close>, which the manager interprets. Fires may throw and writes may fail;
    over sessions with resumptions every ideal time is counted once, as long as the clock is not set
    back (\<open>ticks_ordered\<close>) and the session is not resumed after a failed write (\<open>resumes_safe\<close>).
  \<^item> \<open>Turn_Flow\<close> and \<open>Turn_Ownership\<close>: \<open>agent/turn/index.ts\<close>, the flow around the turn loop. The first
    follows one launch: the prompt hook, the step loop that starts again after a compaction, the end of
    a turn and the driver of a goal. What it awaits is an optional value, \<open>None\<close> for a promise that
    never settles; it pairs starts with ends, leaves no driven goal active, and returns when the
    promises settle and compactions, by hand too, and continuation turns are limited. The second lets prompts, steers, cancels and the progress of several runs interleave, as a
    step relation: an invariant shows that one run at most is inside a turn, but for a goal that becomes
    active in the instant after a turn, and that no steer is lost or told twice.
  \<^item> \<open>Record_Migration\<close>, \<open>Record_Store\<close>, \<open>Blob_Store\<close>: \<open>agent/records\<close>. The versions of the log and
    their migrations, what is logged and replayed; the file and its single writer, which implements a
    plain list of records, and what a crash leaves; the media kept outside the log, read back as they
    were written when no two payloads share a digest and no file is torn.
  \<^item> \<open>Background_Tasks\<close> and \<open>Background_Output\<close>: \<open>agent/background\<close>. Tasks that outlive their tool call: the
    race of worker, deadline and stop, the grace, the wait for \<open>forceStop\<close>, detaching, output and
    notifications, on a disk that may refuse writes. Each operation is shown to move one task forward
    only, which gives what is announced and how often; the second theory follows the output of a task
    and the restart of a session.
  \<^item> \<open>Plan_Tracker\<close>: \<open>agent/plan/tracker.ts\<close> with the tools \<open>tools/builtin/planning/plan-tracker.ts\<close>
    and \<open>get-plan-status.ts\<close>. The tasks of an approved plan, in memory and in a file, and the parser of
    plans, which reads back what is printed in its format.
  \<^item> \<open>Reminder_Texts\<close> and \<open>Injections\<close>: \<open>agent/injection\<close>. The texts of the reminders, when each
    injector gives one, and the index it keeps of its last reminder while the conversation is appended
    to, compacted, undone and cleared.

  \<^bold>\<open>How the code is represented.\<close> Objects are records and enumerations are datatypes; a thrown error
  is the left of a sum, or an option beside the state where the state changed before the throw.
  Asynchronous code is cut at its suspensions: an operation is one step of a state, and what other
  code does meanwhile is a sequence of steps. A method reads the clock once. Strings are lists of
  8-bit characters, so code points above 255 and the dashes of messages are not distinguished.
  JavaScript numbers are integers where the code keeps integers and rationals in ratios. Local time is
  the moment shifted by a fixed offset, so a change of the offset during the year is left out.

  \<^bold>\<open>Parameters.\<close> Code outside the repository is an argument: the npm packages \<open>pathe\<close>,
  \<open>picomatch\<close> and \<open>retry\<close>, \<open>JSON.parse\<close>, the argument validator, the provider's answers, the
  user's answers, hooks, files and the abort signal. Hypotheses on them are stated in the theorems
  that use them and met by concrete functions in the witnesses.

  \<^bold>\<open>Loops and bounds.\<close> Loops of the code are structural recursions or functions with a measure. The
  turn loop may run for ever without a step limit, so it is a partial function whose value
  \<open>None\<close> means that it does not return; with a limit it is shown to return. So are the step loop, the
  goal driver and the search for migrations. The scheduler takes
  fuel, because it re-enters itself, spent when a call starts; its theorems show that one unit for
  each call is enough when no start throws, and that none is enough when one does. The search of a work tree
  has the code's own bound of 256, and the search for the next run its bounds of five years and of ten
  million iterations, the second of which is shown never to matter.

  \<^bold>\<open>Findings.\<close> The scheduler diverges when a start throws (\<open>throwing_start_diverges\<close>); a finished
  task can become blocked (\<open>finished_status_lost\<close>); the goal flag of the registry goes stale
  (\<open>registry_flag_goes_stale\<close>); a session approval skips the plan review
  (\<open>session_approval_skips_plan_review\<close>); yolo mode still asks (\<open>yolo_mode_asks_for_secrets\<close>); a
  manual compaction during a step can leave a result without its call
  (\<open>manual_compaction_can_orphan\<close>); the strategy with protected messages can split an exchange
  (\<open>smart_split_tears_exchange\<close>); the summary of a cron expression can promise more fires than there
  are (\<open>short_run_called_every\<close>); a record appended behind a torn line makes a session unreadable
  (\<open>append_after_torn_line_corrupts\<close>); a crash while a migrated session is rewritten loses it
  (\<open>crash_in_rewrite_loses_log\<close>), and one while a blob is written loses the blob
  (\<open>torn_blob_is_kept\<close>); a reminder taken back is back after a resume (\<open>popped_reminder_returns\<close>), a
  turn id can be used twice across a resume (\<open>resume_can_reuse_id\<close>) and a steer can be left in the
  buffer (\<open>steer_can_be_stranded\<close>); a foreground command that runs when the session closes is announced
  as lost by the next one (\<open>closed_foreground_returns\<close>).
  A shell command of the user during a step tears an exchange (\<open>shell_command_tears_exchange\<close>), and an
  event the session refused ends its replay (\<open>refused_event_ends_replay\<close>); a goal that becomes active
  late is driven beside the next turn (\<open>late_goal_runs_beside_turn\<close>), and compactions by hand repeat a
  step without end (\<open>compacting_by_hand_repeats_the_step\<close>). A refused write leaves a gap in the output of
  a task (\<open>refused_write_leaves_gap\<close>) or leaves a restart with nothing told
  (\<open>failed_restart_tells_nothing\<close>), and a \<open>forceStop\<close> that never returns keeps its task
  (\<open>stuck_force_stop_keeps_task\<close>). Assigning a task unblocks it (\<open>update_without_status_unblocks\<close>). A failed
  write of a cursor, or a clock set back, repeats fires after a resume
  (\<open>failed_cursor_write_repeats_fires\<close>, \<open>clock_set_back_repeats_fires\<close>). The summary of the plan tracker
  hides the identifiers its tool asks for (\<open>summary_hides_ids\<close>), an unknown one is reported as updated
  (\<open>unknown_task_reported_updated\<close>), and a removed dependency blocks for ever
  (\<open>removed_dependency_blocks\<close>). An injector can take the summary of a compaction for its reminder
  (\<open>compaction_takes_summary_for_reminder\<close>), the reminder of auto mode is not repeated when it is gone
  (\<open>auto_reminder_not_repeated\<close>), and a second plan is not announced (\<open>second_plan_not_announced\<close>).

  \<^bold>\<open>Not modelled.\<close> Of the core: the loop of rounds of a full compaction, the injector of memories, which nothing
  registers, the swarm coordinator, the message bus, the other built-in tools, configuration, skills, plugins, MCP and
  the service layer. User interfaces, servers,
  providers, OAuth and telemetry are I/O and glue and are left out.
\<close>

end
